(* ===== verification/Krover_Prelude.thy ===== *)
theory Krover_Prelude
  imports Main "HOL-Library.Word"
begin

text \<open>
  Shared vocabulary of the development: the machine integers of the C++ code, the faults by
  which an operation can fail to return (a failed assert, an exit, a null dereference, a shift
  whose count is not below the width, ...), the result type that carries them, and generic
  lemmas on words, maps and results that the components share.
\<close>

unbundle bit_operations_syntax

type_synonym u8 = "8 word"
type_synonym u16 = "16 word"
type_synonym u32 = "32 word"
type_synonym u64 = "64 word"

named_theorems krover_defs "definitions the component proofs unfold together"

section \<open>Faults and results\<close>

datatype fault =
    AssertFail \<comment> \<open>a failed assert\<close>
  | ExitFailure \<comment> \<open>exit(EXIT_FAILURE)\<close>
  | NullDeref \<comment> \<open>dereference of a null pointer\<close>
  | UndefinedShift \<comment> \<open>shift count not below the operand's width\<close>
  | BadCast \<comment> \<open>an unchecked cast to a class the object is not of\<close>
  | Thrown \<comment> \<open>a C++ throw\<close>
  | Vmcall \<comment> \<open>a vmcall from which the hypervisor does not return\<close>
  | OutOfBounds \<comment> \<open>an access outside an array\<close>
  | Uninit \<comment> \<open>a read of a variable that was never assigned\<close>
  | Diverges \<comment> \<open>a loop or recursion that does not end within its fuel\<close>

type_synonym 'a res = "fault + 'a"

fun rbind :: "'a res \<Rightarrow> ('a \<Rightarrow> 'b res) \<Rightarrow> 'b res" where
  "rbind (Inl e) f = Inl e"
| "rbind (Inr x) f = f x"

definition rassert :: "bool \<Rightarrow> 'a res \<Rightarrow> 'a res" where
  "rassert b r = (if b then r else Inl AssertFail)"

definition deref :: "'a option \<Rightarrow> 'a res" where
  "deref p = (case p of None \<Rightarrow> Inl NullDeref | Some x \<Rightarrow> Inr x)"

text \<open>
  Where the code meets a case it does not expect it issues a vmcall, and goes on behind it. What the hypervisor
  does with the call is not in the code: it is a parameter, which says from which calls it returns, by the number
  the code puts in rax (None where it puts none). A call that returns leaves the analyser as it was.
\<close>

type_synonym hypervisor = "u64 option \<Rightarrow> bool"

definition vmcall :: "hypervisor \<Rightarrow> u64 option \<Rightarrow> 'a res \<Rightarrow> 'a res" where
  "vmcall V rax r = (if V rax then r else Inl Vmcall)"

lemma rbind_eq_Inr_iff: "rbind m f = Inr y \<longleftrightarrow> (\<exists>x. m = Inr x \<and> f x = Inr y)"
  by (cases m) auto

lemma rbind_eq_Inl_iff: "rbind m f = Inl e \<longleftrightarrow> m = Inl e \<or> (\<exists>x. m = Inr x \<and> f x = Inl e)"
  by (cases m) auto

lemma rbind_split:
  "P (rbind m f) \<longleftrightarrow> (\<forall>e. m = Inl e \<longrightarrow> P (Inl e)) \<and> (\<forall>x. m = Inr x \<longrightarrow> P (f x))"
  by (cases m) auto

lemma rbind_assoc: "rbind (rbind m f) g = rbind m (\<lambda>x. rbind (f x) g)"
  by (cases m) auto

lemma rassert_simps [simp]: "rassert True r = r" "rassert False r = Inl AssertFail"
  by (simp_all add: rassert_def)

lemma vmcall_simps [simp]: "V rax \<Longrightarrow> vmcall V rax r = r" "\<not> V rax \<Longrightarrow> vmcall V rax r = Inl Vmcall"
  by (simp_all add: vmcall_def)

lemma vmcall_eq_Inr_iff: "vmcall V rax r = Inr y \<longleftrightarrow> V rax \<and> r = Inr y"
  by (simp add: vmcall_def)

lemma rassert_eq_Inr_iff: "rassert b r = Inr y \<longleftrightarrow> b \<and> r = Inr y"
  by (simp add: rassert_def)

lemma deref_simps [simp]: "deref None = Inl NullDeref" "deref (Some x) = Inr x"
  by (simp_all add: deref_def)

lemma deref_eq_Inr_iff: "deref p = Inr x \<longleftrightarrow> p = Some x"
  by (cases p) auto

lemmas res_iffs = rbind_eq_Inr_iff rbind_eq_Inl_iff rassert_eq_Inr_iff deref_eq_Inr_iff

section \<open>Words\<close>

text \<open>A word is the sum of its part above a mask and its part below it.\<close>

lemma minus_and_not: "a - (a AND NOT m) = (a AND m :: 'a::len word)"
proof -
  have "(a AND m) + (a AND NOT m) = (a AND m) OR (a AND NOT m)"
    by (rule disjunctive_add_eq_or, rule bit_word_eqI) (auto simp: bit_simps)
  also have "\<dots> = a" by (rule bit_word_eqI) (auto simp: bit_simps)
  finally show ?thesis by (metis add_diff_cancel_right')
qed

lemma unat_and_31: "unat (a AND 31 :: u64) = unat a mod 32"
proof -
  have "a AND 31 = take_bit 5 a" by (simp add: take_bit_eq_mask mask_eq_exp_minus_1)
  then show ?thesis by (simp add: take_bit_eq_mod unat_mod)
qed

lemma unat_align_32: "unat (a AND NOT 31 :: u64) = 32 * (unat a div 32)"
proof -
  have le: "a AND 31 \<le> a" by (rule word_and_le2)
  have "a AND NOT 31 = a - (a AND 31)"
    using minus_and_not [of a 31] by (metis add_diff_cancel diff_add_cancel add.commute)
  then show ?thesis
    using unat_sub [OF le] by (simp only: unat_and_31) (simp add: minus_mod_eq_mult_div)
qed

lemma word_eq_unatI: "unat a = unat b \<Longrightarrow> a = (b :: 'a::len word)"
  by (simp add: word_unat_eq_iff)

lemma unat_u64_less: "unat (a :: u64) < 2 ^ 64"
  using unsigned_less [of a] by simp

text \<open>The bits of the mask made from all ones shifted up and all ones shifted down.\<close>

lemma bit_mask_u32:
  "bit (push_bit n (-1) AND drop_bit m (-1) :: u32) k \<longleftrightarrow> k < 32 \<and> n \<le> k \<and> k + m < 32"
  by (auto simp: bit_simps)

section \<open>Lists\<close>

lemma in_set_tlD: "x \<in> set (tl xs) \<Longrightarrow> x \<in> set xs"
  by (cases xs) auto

lemma distinct_butlast_last: "distinct xs \<Longrightarrow> x \<in> set (butlast xs) \<Longrightarrow> x \<noteq> last xs"
  by (induction xs) (auto split: if_splits)

lemma distinct_tl_hd: "distinct xs \<Longrightarrow> x \<in> set (tl xs) \<Longrightarrow> x \<noteq> hd xs"
  by (cases xs) auto

lemma last_not_in: "A \<noteq> [] \<Longrightarrow> set A \<inter> X = {} \<Longrightarrow> last A \<notin> X"
  using last_in_set by blast

lemma hd_not_in: "A \<noteq> [] \<Longrightarrow> set A \<inter> X = {} \<Longrightarrow> hd A \<notin> X"
  using list.set_sel(1) by blast

text \<open>A list cut at two of its positions.\<close>

lemma cut_two:
  assumes "I < J" "J < length xs"
  shows "\<exists>A M B. xs = A @ xs ! I # M @ xs ! J # B \<and> length A = I \<and>
    (\<forall>y \<in> set M. \<exists>i. I < i \<and> i < J \<and> y = xs ! i)"
proof -
  let ?M = "take (J - Suc I) (drop (Suc I) xs)"
  have "drop (Suc I) xs = ?M @ drop (J - Suc I) (drop (Suc I) xs)" by (metis append_take_drop_id)
  also have "drop (J - Suc I) (drop (Suc I) xs) = xs ! J # drop (Suc J) xs"
    using assms by (simp add: Cons_nth_drop_Suc)
  finally have "drop (Suc I) xs = ?M @ xs ! J # drop (Suc J) xs" .
  then have 1: "xs = take I xs @ xs ! I # ?M @ xs ! J # drop (Suc J) xs"
    using assms id_take_nth_drop [of I xs] by simp
  have 2: "length (take I xs) = I" using assms by simp
  have 3: "\<exists>i. I < i \<and> i < J \<and> y = xs ! i" if y: "y \<in> set ?M" for y
  proof -
    obtain k where "k < J - Suc I" "y = xs ! (Suc I + k)"
      using y assms by (auto simp: in_set_conv_nth)
    then show ?thesis by (intro exI [of _ "Suc I + k"]) auto
  qed
  from 1 2 3 show ?thesis by blast
qed

lemma cut_one:
  assumes "I < length xs"
  shows "\<exists>A B. xs = A @ xs ! I # B \<and> length A = I"
  using id_take_nth_drop [OF assms] assms
  by (intro exI [of _ "take I xs"] exI [of _ "drop (Suc I) xs"] conjI) simp_all

lemma inj_on_disjoint:
  assumes "inj_on f X" "inj_on f Y" "\<And>x y. x \<in> X \<Longrightarrow> y \<in> Y \<Longrightarrow> f x \<noteq> f y"
  shows "inj_on f (X \<union> Y)"
proof (rule inj_onI)
  fix x y assume xy: "x \<in> X \<union> Y" "y \<in> X \<union> Y" "f x = f y"
  then consider "x \<in> X" "y \<in> X" | "x \<in> Y" "y \<in> Y" | "x \<in> X" "y \<in> Y" | "x \<in> Y" "y \<in> X" by auto
  then show "x = y"
  proof cases
    case 1
    then show ?thesis using assms(1) xy(3) by (simp add: inj_onD)
  next
    case 2
    then show ?thesis using assms(2) xy(3) by (simp add: inj_onD)
  next
    case 3
    then show ?thesis using assms(3) xy(3) by blast
  next
    case 4
    then show ?thesis using assms(3) [of y x] xy(3) by simp
  qed
qed

end
