(* ===== verification/Sym_Bitmap.thy ===== *)
theory Sym_Bitmap
  imports Krover_Prelude
begin

text \<open>
  The bitmap of symbolic bytes (class SYMemBitmap of MemState.h and MemState.cpp). Memory is
  split into chunks of 32 bytes; a map sends the aligned address of a chunk to its record,
  whose 32-bit word has one bit per byte. A pointer to a chunk is the aligned address under
  which the map holds it. The abstraction is the set of bytes whose bit is set; the operations
  are shown to be union, difference and intersection test on it, and the left and right links
  of the chunks never dangle.
\<close>

section \<open>Data\<close>

record chunk =
  bitmap :: u32
  objmask :: u32
  lnk_l :: "u64 option"
  lnk_r :: "u64 option"

type_synonym sym_bitmap = "u64 \<rightharpoonup> chunk"

definition BLOCK_SIZE :: u64 where "BLOCK_SIZE = 32"

definition BLOCK_MASK :: u64 where "BLOCK_MASK = NOT (BLOCK_SIZE - 1)"

definition new_chunk :: chunk where
  "new_chunk = \<lparr>bitmap = 0, objmask = 0, lnk_l = None, lnk_r = None\<rparr>"

text \<open>The destructor of a chunk clears the links its neighbours have to it.\<close>

definition destroy_chunk :: "chunk \<Rightarrow> sym_bitmap \<Rightarrow> sym_bitmap res" where
  "destroy_chunk c bm =
     rbind (case lnk_l c of None \<Rightarrow> Inr bm
            | Some l \<Rightarrow> rbind (deref (bm l)) (\<lambda>cl. Inr (bm(l \<mapsto> cl\<lparr>lnk_r := None\<rparr>)))) (\<lambda>bm1.
     case lnk_r c of None \<Rightarrow> Inr bm1
     | Some r \<Rightarrow> rbind (deref (bm1 r)) (\<lambda>cr. Inr (bm1(r \<mapsto> cr\<lparr>lnk_l := None\<rparr>))))"

section \<open>Operations\<close>

text \<open>The masks m1, m2 and mm that three functions of the class compute in the same way.\<close>

definition chunk_mask :: "u64 \<Rightarrow> u64 \<Rightarrow> u32 res" where
  "chunk_mask cave_sz symbol_size =
     (let allones = - 1 :: u32;
          sh = BLOCK_SIZE - cave_sz - symbol_size
      in if cave_sz < 32 \<and> sh < 32
         then Inr (push_bit (unat cave_sz) allones AND drop_bit (unat sh) allones)
         else Inl UndefinedShift)"

definition mask_chunk :: "u64 \<Rightarrow> u64 \<Rightarrow> u64 \<Rightarrow> sym_bitmap \<Rightarrow> (sym_bitmap \<times> u64) res" where
  "mask_chunk aligned_addr hcave_sz symbol_size bm =
     (let c = (case bm aligned_addr of None \<Rightarrow> new_chunk | Some blk \<Rightarrow> blk)
      in rbind (chunk_mask hcave_sz symbol_size) (\<lambda>mm.
         Inr (bm(aligned_addr \<mapsto> c\<lparr>bitmap := bitmap c OR mm\<rparr>), aligned_addr)))"

text \<open>The assignments \<open>m->r = r; r->l = m\<close>.\<close>

definition link_chunks :: "u64 \<Rightarrow> u64 \<Rightarrow> sym_bitmap \<Rightarrow> sym_bitmap res" where
  "link_chunks m r bm =
     rbind (deref (bm m)) (\<lambda>cm.
     let bm1 = bm(m \<mapsto> cm\<lparr>lnk_r := Some r\<rparr>)
     in rbind (deref (bm1 r)) (\<lambda>cr. Inr (bm1(r \<mapsto> cr\<lparr>lnk_l := Some m\<rparr>))))"

lemma BLOCK_MASK_eq: "BLOCK_MASK = NOT 31"
  by (simp add: BLOCK_MASK_def BLOCK_SIZE_def)

lemma hcave_eq: "addr - (addr AND BLOCK_MASK) = addr AND 31"
  unfolding BLOCK_MASK_eq by (rule minus_and_not)

lemma split_decreases:
  assumes "BLOCK_SIZE < (addr - (addr AND BLOCK_MASK)) + siz"
  shows "unat (siz - (BLOCK_SIZE - (addr - (addr AND BLOCK_MASK)))) < unat siz"
proof -
  define h where "h = addr - (addr AND BLOCK_MASK)"
  have h: "h = addr AND 31" by (simp only: h_def hcave_eq)
  have h32: "unat h < 32" unfolding h by (simp only: unat_and_31)
  have sz: "unat (32 - h) = 32 - unat h"
    using h32 by (subst unat_sub) (auto simp: word_le_nat_alt)
  have big: "32 < unat (h + siz)"
    using assms unfolding h_def [symmetric] by (simp add: BLOCK_SIZE_def word_less_nat_alt)
  have plus: "unat (h + siz) = (if unat h + unat siz < 2 ^ 64 then unat h + unat siz
      else unat h + unat siz - 2 ^ 64)"
    by (simp add: unat_plus_if')
  have "unat siz < 2 ^ 64" by (rule unat_u64_less)
  with plus big h32 have s: "unat h + unat siz > 32" by (auto split: if_splits)
  with sz have "32 - h \<le> siz" by (simp add: word_le_nat_alt)
  then have "unat (siz - (32 - h)) = unat siz - (32 - unat h)" by (simp add: unat_sub sz)
  with s h32 show ?thesis unfolding h_def [symmetric] by (simp add: BLOCK_SIZE_def)
qed

function markSYMemBitmap :: "u64 \<Rightarrow> u64 \<Rightarrow> sym_bitmap \<Rightarrow> (sym_bitmap \<times> u64) res" where
  "markSYMemBitmap addr siz bm =
     (let aligned_addr = addr AND BLOCK_MASK;
          hcave_sz = addr - aligned_addr;
          align_sz = hcave_sz + siz
      in if BLOCK_SIZE < align_sz
         then (let sz = BLOCK_SIZE - hcave_sz in
               rbind (mask_chunk aligned_addr hcave_sz sz bm) (\<lambda>(bm1, m).
               rbind (markSYMemBitmap (aligned_addr + BLOCK_SIZE) (siz - sz) bm1) (\<lambda>(bm2, r).
               rbind (link_chunks m r bm2) (\<lambda>bm3. Inr (bm3, m)))))
         else mask_chunk aligned_addr hcave_sz siz bm)"
  by pat_completeness auto
termination
  by (relation "measure (\<lambda>(addr, siz, bm). unat siz)") (auto intro: split_decreases)

definition unmask_chunk :: "u64 \<Rightarrow> u64 \<Rightarrow> u64 \<Rightarrow> sym_bitmap \<Rightarrow> sym_bitmap res" where
  "unmask_chunk aligned_addr cave_sz symbol_size bm =
     (case bm aligned_addr of
        None \<Rightarrow> Inr bm
      | Some blk \<Rightarrow>
          rbind (chunk_mask cave_sz symbol_size) (\<lambda>m.
          let mm = NOT m;
              blk' = blk\<lparr>bitmap := bitmap blk AND mm\<rparr>
          in if bitmap blk' = 0 then destroy_chunk blk' (bm(aligned_addr := None))
             else Inr (bm(aligned_addr \<mapsto> blk'))))"

function unmarkSYMemBitmap :: "u64 \<Rightarrow> u64 \<Rightarrow> sym_bitmap \<Rightarrow> sym_bitmap res" where
  "unmarkSYMemBitmap addr siz bm =
     (let aligned_addr = addr AND BLOCK_MASK;
          hcave_sz = addr - aligned_addr;
          align_sz = hcave_sz + siz
      in if BLOCK_SIZE < align_sz
         then (let sz = BLOCK_SIZE - hcave_sz in
               rbind (unmask_chunk aligned_addr hcave_sz sz bm)
                 (\<lambda>bm1. unmarkSYMemBitmap (aligned_addr + BLOCK_SIZE) (siz - sz) bm1))
         else unmask_chunk aligned_addr hcave_sz siz bm)"
  by pat_completeness auto
termination
  by (relation "measure (\<lambda>(addr, siz, bm). unat siz)") (auto intro: split_decreases)

definition test_chunk :: "u64 \<Rightarrow> u64 \<Rightarrow> u64 \<Rightarrow> sym_bitmap \<Rightarrow> bool res" where
  "test_chunk aligned_addr cave_sz symbol_size bm =
     (case bm aligned_addr of
        None \<Rightarrow> Inr False
      | Some blk \<Rightarrow>
          rbind (chunk_mask cave_sz symbol_size) (\<lambda>mm. Inr ((bitmap blk AND mm) \<noteq> 0)))"

function testSYMemBitmap :: "u64 \<Rightarrow> u64 \<Rightarrow> sym_bitmap \<Rightarrow> bool res" where
  "testSYMemBitmap addr siz bm =
     (let aligned_addr = addr AND BLOCK_MASK;
          hcave_sz = addr - aligned_addr;
          align_sz = hcave_sz + siz
      in if BLOCK_SIZE < align_sz
         then (let sz = BLOCK_SIZE - hcave_sz in
               rbind (test_chunk aligned_addr hcave_sz sz bm) (\<lambda>res1.
               rbind (testSYMemBitmap (aligned_addr + BLOCK_SIZE) (siz - sz) bm) (\<lambda>res2.
               Inr (res1 \<or> res2))))
         else test_chunk aligned_addr hcave_sz siz bm)"
  by pat_completeness auto
termination
  by (relation "measure (\<lambda>(addr, siz, bm). unat siz)") (auto intro: split_decreases)

definition findSYMemChunk :: "u64 \<Rightarrow> sym_bitmap \<Rightarrow> u64 option" where
  "findSYMemChunk addr bm =
     (let aligned_addr = addr AND BLOCK_MASK
      in case bm aligned_addr of None \<Rightarrow> None | Some c \<Rightarrow> Some aligned_addr)"

declare markSYMemBitmap.simps [simp del] unmarkSYMemBitmap.simps [simp del]
  testSYMemBitmap.simps [simp del]

section \<open>Abstraction to sets of bytes\<close>

definition is_sym_byte :: "sym_bitmap \<Rightarrow> u64 \<Rightarrow> bool" where
  "is_sym_byte bm a =
     (case bm (a AND BLOCK_MASK) of None \<Rightarrow> False | Some c \<Rightarrow> bit (bitmap c) (unat a mod 32))"

definition sym_bytes :: "sym_bitmap \<Rightarrow> u64 set" where
  "sym_bytes bm = {a. is_sym_byte bm a}"

definition byte_range :: "u64 \<Rightarrow> u64 \<Rightarrow> u64 set" where
  "byte_range addr siz = {a. unat addr \<le> unat a \<and> unat a < unat addr + unat siz}"

text \<open>A non-empty range that ends inside the address space, of at most half of it.\<close>

definition no_wrap :: "u64 \<Rightarrow> u64 \<Rightarrow> bool" where
  "no_wrap addr siz \<longleftrightarrow>
     0 < unat siz \<and> unat siz \<le> 2 ^ 63 \<and> unat addr + unat siz \<le> 2 ^ 64"

subsection \<open>One chunk\<close>

lemma block_eq_iff: "a AND BLOCK_MASK = b AND BLOCK_MASK \<longleftrightarrow> unat a div 32 = unat b div 32"
  unfolding BLOCK_MASK_eq word_unat_eq_iff unat_align_32 by simp

lemma unat_hcave: "unat (addr - (addr AND BLOCK_MASK)) = unat addr mod 32"
  unfolding hcave_eq by (rule unat_and_31)

lemma range_in_block:
  assumes "A mod 32 + n \<le> 32"
  shows "(x div 32 = A div 32 \<and> A mod 32 \<le> x mod 32 \<and> x mod 32 < A mod 32 + n) \<longleftrightarrow>
     A \<le> x \<and> x < A + (n::nat)" (is "?L \<longleftrightarrow> ?R")
proof
  have A: "A = 32 * (A div 32) + A mod 32" and x: "x = 32 * (x div 32) + x mod 32" by simp_all
  { assume ?L then show ?R using A x by linarith }
  { assume ?R
    then obtain d where d: "x = A + d" "d < n" by (metis le_iff_add nat_add_left_cancel_less)
    with A have xd: "x = (A mod 32 + d) + (A div 32) * 32" by linarith
    have lt: "A mod 32 + d < 32" using assms d by linarith
    have "x div 32 = A div 32"
      by (rule div_nat_eqI) (use A d lt in \<open>simp; linarith\<close>)+
    moreover have "x mod 32 = A mod 32 + d"
      using A d calculation x by linarith
    ultimately show ?L using d by simp }
qed

lemma chunk_mask_ok:
  assumes "unat hc < 32" "0 < unat sz" "unat hc + unat sz \<le> 32"
  obtains mm where "chunk_mask hc sz = Inr mm"
    "\<And>k. bit mm k \<longleftrightarrow> unat hc \<le> k \<and> k < unat hc + unat sz"
proof -
  have 1: "unat (32 - hc) = 32 - unat hc"
    using assms by (subst unat_sub) (auto simp: word_le_nat_alt)
  have 2: "unat (32 - hc - sz) = 32 - unat hc - unat sz"
    using assms 1 by (subst unat_sub) (auto simp: word_le_nat_alt)
  let ?mm = "push_bit (unat hc) (-1) AND drop_bit (unat (32 - hc - sz)) (-1) :: u32"
  have "chunk_mask hc sz = Inr ?mm"
    using assms 2 by (simp add: chunk_mask_def BLOCK_SIZE_def word_less_nat_alt)
  moreover have "bit ?mm k \<longleftrightarrow> unat hc \<le> k \<and> k < unat hc + unat sz" for k
    unfolding bit_mask_u32 2 using assms by auto
  ultimately show ?thesis using that by blast
qed

lemma in_block_range:
  assumes "unat addr mod 32 + unat sz \<le> 32"
  shows "a AND BLOCK_MASK = addr AND BLOCK_MASK \<and>
     unat addr mod 32 \<le> unat a mod 32 \<and> unat a mod 32 < unat addr mod 32 + unat sz \<longleftrightarrow>
     a \<in> byte_range addr sz"
  unfolding block_eq_iff byte_range_def using range_in_block [OF assms] by simp

definition same_links :: "chunk \<Rightarrow> chunk \<Rightarrow> bool" where
  "same_links c d \<longleftrightarrow> lnk_l c = lnk_l d \<and> lnk_r c = lnk_r d"

lemma mask_chunk_ok:
  assumes "0 < unat sz" "unat addr mod 32 + unat sz \<le> 32"
  obtains c where
    "mask_chunk (addr AND BLOCK_MASK) (addr - (addr AND BLOCK_MASK)) sz bm =
       Inr (bm(addr AND BLOCK_MASK \<mapsto> c), addr AND BLOCK_MASK)"
    "sym_bytes (bm(addr AND BLOCK_MASK \<mapsto> c)) = sym_bytes bm \<union> byte_range addr sz"
    "same_links c (case bm (addr AND BLOCK_MASK) of None \<Rightarrow> new_chunk | Some d \<Rightarrow> d)"
proof -
  let ?al = "addr AND BLOCK_MASK" and ?hc = "addr - (addr AND BLOCK_MASK)"
  obtain mm where mm: "chunk_mask ?hc sz = Inr mm"
    "\<And>k. bit mm k \<longleftrightarrow> unat ?hc \<le> k \<and> k < unat ?hc + unat sz"
    using chunk_mask_ok [of ?hc sz] assms unat_hcave [of addr] by auto
  define d where "d = (case bm ?al of None \<Rightarrow> new_chunk | Some d \<Rightarrow> d)"
  define c where "c = d\<lparr>bitmap := bitmap d OR mm\<rparr>"
  have "is_sym_byte (bm(?al \<mapsto> c)) a \<longleftrightarrow> is_sym_byte bm a \<or> a \<in> byte_range addr sz" for a
    using in_block_range [OF assms(2), of a] mm(2) [of "unat a mod 32"]
    unfolding is_sym_byte_def unat_hcave
    by (auto simp: c_def d_def new_chunk_def bit_simps split: option.splits)
  then show ?thesis
    using that [of c] mm(1)
    by (auto simp: mask_chunk_def c_def d_def same_links_def sym_bytes_def Let_def split: option.splits)
qed


lemma mark_last:
  assumes "no_wrap addr siz" "\<not> BLOCK_SIZE < addr - (addr AND BLOCK_MASK) + siz"
  shows "unat addr mod 32 + unat siz \<le> 32"
proof -
  have lt: "unat addr mod 32 < 32" by simp
  have "unat addr mod 32 + unat siz < 2 ^ 64"
    using assms(1) lt unfolding no_wrap_def by (simp, linarith)
  then have "unat (addr - (addr AND BLOCK_MASK) + siz) = unat addr mod 32 + unat siz"
    unfolding unat_plus_if' unat_hcave by simp
  then show ?thesis using assms(2) by (simp add: BLOCK_SIZE_def word_less_nat_alt)
qed

text \<open>
  The arithmetic of the recursion: where the range crosses the end of its chunk, the first
  part fits in the chunk, the rest starts at the next chunk, does not wrap either, and the
  two parts make up the range.
\<close>

lemma mark_split:
  assumes nw: "no_wrap addr siz" and gt: "BLOCK_SIZE < addr - (addr AND BLOCK_MASK) + siz"
  defines "sz \<equiv> BLOCK_SIZE - (addr - (addr AND BLOCK_MASK))"
    and "nxt \<equiv> (addr AND BLOCK_MASK) + BLOCK_SIZE"
  shows "0 < unat sz" "unat addr mod 32 + unat sz \<le> 32" "no_wrap nxt (siz - sz)"
    "byte_range addr siz = byte_range addr sz \<union> byte_range nxt (siz - sz)"
    "nxt AND BLOCK_MASK = nxt"
proof -
  have h: "unat (addr - (addr AND BLOCK_MASK)) = unat addr mod 32" by (rule unat_hcave)
  have usz: "unat sz = 32 - unat addr mod 32"
    unfolding sz_def BLOCK_SIZE_def using h by (subst unat_sub) (auto simp: word_le_nat_alt)
  have al: "unat (addr AND BLOCK_MASK) = 32 * (unat addr div 32)"
    unfolding BLOCK_MASK_eq by (rule unat_align_32)
  have sum: "unat addr mod 32 + unat siz > 32"
  proof -
    have "unat (addr - (addr AND BLOCK_MASK) + siz) \<le> unat addr mod 32 + unat siz"
      unfolding unat_plus_if' h by simp
    then show ?thesis using gt by (simp add: BLOCK_SIZE_def word_less_nat_alt)
  qed
  have le: "sz \<le> siz" using usz sum by (simp add: word_le_nat_alt)
  have rest: "unat (siz - sz) = unat siz - unat sz" using le by (rule unat_sub)
  have split: "unat addr = 32 * (unat addr div 32) + unat addr mod 32" by simp
  have nxt: "unat nxt = 32 * (unat addr div 32) + 32"
  proof -
    have "32 * (unat addr div 32) + 32 < 2 ^ 64"
      using nw sum split unfolding no_wrap_def by linarith
    then show ?thesis unfolding nxt_def unat_plus_if' al by (simp add: BLOCK_SIZE_def)
  qed
  show "0 < unat sz" using usz by simp
  show "unat addr mod 32 + unat sz \<le> 32" using usz by simp
  have mid: "unat nxt = unat addr + unat sz" using nxt usz split by linarith
  show "no_wrap nxt (siz - sz)"
    using nw rest mid usz sum unfolding no_wrap_def by (intro conjI) linarith+
  show "byte_range addr siz = byte_range addr sz \<union> byte_range nxt (siz - sz)"
    using rest mid usz sum unfolding byte_range_def by auto
  show "nxt AND BLOCK_MASK = nxt"
    unfolding word_unat_eq_iff BLOCK_MASK_eq unat_align_32 nxt by simp
qed

subsection \<open>Marking is union\<close>

lemma link_chunks_ok:
  assumes "bm m = Some cm" "bm r = Some cr" "m \<noteq> r"
  shows "link_chunks m r bm = Inr (bm(m \<mapsto> cm\<lparr>lnk_r := Some r\<rparr>, r \<mapsto> cr\<lparr>lnk_l := Some m\<rparr>))"
  using assms by (simp add: link_chunks_def)

lemma sym_bytes_same_bitmaps:
  assumes "\<And>a. map_option bitmap (bm a) = map_option bitmap (bm' a)"
  shows "sym_bytes bm = sym_bytes bm'"
proof -
  have "is_sym_byte bm a = is_sym_byte bm' a" for a
    using assms [of "a AND BLOCK_MASK"] unfolding is_sym_byte_def
    by (auto split: option.splits)
  then show ?thesis by (simp add: sym_bytes_def)
qed

lemma link_chunks_bytes: "link_chunks m r bm = Inr bm' \<Longrightarrow> sym_bytes bm' = sym_bytes bm"
  by (rule sym_bytes_same_bitmaps) (auto simp: link_chunks_def Let_def res_iffs)

lemma next_block_neq: "(addr AND BLOCK_MASK) + BLOCK_SIZE \<noteq> addr AND BLOCK_MASK"
  by (simp add: BLOCK_SIZE_def)

lemma mark_spec:
  "no_wrap addr siz \<Longrightarrow>
     \<exists>bm'. markSYMemBitmap addr siz bm = Inr (bm', addr AND BLOCK_MASK) \<and>
       dom bm \<subseteq> dom bm' \<and> addr AND BLOCK_MASK \<in> dom bm' \<and>
       sym_bytes bm' = sym_bytes bm \<union> byte_range addr siz"
proof (induction addr siz bm rule: markSYMemBitmap.induct)
  case (1 addr siz bm)
  let ?al = "addr AND BLOCK_MASK" and ?hc = "addr - (addr AND BLOCK_MASK)"
  let ?sz = "BLOCK_SIZE - ?hc" and ?nx = "(addr AND BLOCK_MASK) + BLOCK_SIZE"
  show ?case
  proof (cases "BLOCK_SIZE < ?hc + siz")
    case True
    note sp = mark_split [OF "1.prems" True]
    obtain c where c: "mask_chunk ?al ?hc ?sz bm = Inr (bm(?al \<mapsto> c), ?al)"
      "sym_bytes (bm(?al \<mapsto> c)) = sym_bytes bm \<union> byte_range addr ?sz"
      using mask_chunk_ok [OF sp(1,2)] by blast
    obtain bm2 where bm2: "markSYMemBitmap ?nx (siz - ?sz) (bm(?al \<mapsto> c)) = Inr (bm2, ?nx)"
      "dom (bm(?al \<mapsto> c)) \<subseteq> dom bm2" "?nx \<in> dom bm2"
      "sym_bytes bm2 = sym_bytes (bm(?al \<mapsto> c)) \<union> byte_range ?nx (siz - ?sz)"
      using "1.IH" [OF refl refl refl True refl sp(3), of "bm(?al \<mapsto> c)"]
      unfolding sp(5) by blast
    obtain cm cr where cmr: "bm2 ?al = Some cm" "bm2 ?nx = Some cr"
      using bm2(2,3) by fastforce
    note ln = link_chunks_ok [OF cmr next_block_neq [symmetric]]
    have "markSYMemBitmap addr siz bm =
        Inr (bm2(?al \<mapsto> cm\<lparr>lnk_r := Some ?nx\<rparr>, ?nx \<mapsto> cr\<lparr>lnk_l := Some ?al\<rparr>), ?al)"
      using True c(1) bm2(1) ln by (simp add: markSYMemBitmap.simps [of addr] Let_def)
    then show ?thesis
      using bm2(2,4) c(2) sp(4) link_chunks_bytes [OF ln] by (auto simp: Un_assoc)
  next
    case False
    have "0 < unat siz" using "1.prems" by (simp add: no_wrap_def)
    then obtain c where "mask_chunk ?al ?hc siz bm = Inr (bm(?al \<mapsto> c), ?al)"
      "sym_bytes (bm(?al \<mapsto> c)) = sym_bytes bm \<union> byte_range addr siz"
      using mask_chunk_ok [OF _ mark_last [OF "1.prems" False]] by blast
    with False show ?thesis
      by (auto simp: markSYMemBitmap.simps [of addr] Let_def)
  qed
qed

subsection \<open>Unmarking is difference\<close>

definition left_of :: "sym_bitmap \<Rightarrow> u64 \<Rightarrow> u64 option" where
  "left_of bm a = (case bm a of None \<Rightarrow> None | Some c \<Rightarrow> lnk_l c)"

definition right_of :: "sym_bitmap \<Rightarrow> u64 \<Rightarrow> u64 option" where
  "right_of bm a = (case bm a of None \<Rightarrow> None | Some c \<Rightarrow> lnk_r c)"

text \<open>
  The links of the chunks: a chunk has a left link to another exactly if that one has a right
  link back, and only adjacent chunks are linked. A link therefore never dangles.
\<close>

definition links_ok :: "sym_bitmap \<Rightarrow> bool" where
  "links_ok bm \<longleftrightarrow>
     (\<forall>a b. (left_of bm a = Some b \<longleftrightarrow> right_of bm b = Some a) \<and>
            (left_of bm a = Some b \<longrightarrow> a = b + BLOCK_SIZE))"

lemma links_ok_empty: "links_ok Map.empty"
  by (simp add: links_ok_def left_of_def right_of_def)

lemma left_of_Some: "left_of bm a = Some b \<Longrightarrow> \<exists>c. bm a = Some c \<and> lnk_l c = Some b"
  by (auto simp: left_of_def split: option.splits)

lemma right_of_Some: "right_of bm a = Some b \<Longrightarrow> \<exists>c. bm a = Some c \<and> lnk_r c = Some b"
  by (auto simp: right_of_def split: option.splits)

lemma block_size_neq: "a + BLOCK_SIZE \<noteq> a" "a \<noteq> a + BLOCK_SIZE"
  by (simp_all add: BLOCK_SIZE_def)

text \<open>What the updates of the operations do to the links.\<close>

lemma links_update:
  "left_of (bm(a := None)) = (left_of bm)(a := None)"
  "right_of (bm(a := None)) = (right_of bm)(a := None)"
  "bm l = Some c \<Longrightarrow> left_of (bm(l \<mapsto> c\<lparr>lnk_r := v\<rparr>)) = left_of bm"
  "bm l = Some c \<Longrightarrow> right_of (bm(l \<mapsto> c\<lparr>lnk_r := v\<rparr>)) = (right_of bm)(l := v)"
  "bm l = Some c \<Longrightarrow> left_of (bm(l \<mapsto> c\<lparr>lnk_l := v\<rparr>)) = (left_of bm)(l := v)"
  "bm l = Some c \<Longrightarrow> right_of (bm(l \<mapsto> c\<lparr>lnk_l := v\<rparr>)) = right_of bm"
  by (auto simp: left_of_def right_of_def fun_eq_iff)

lemma links_update_same:
  assumes "same_links c (case bm a of None \<Rightarrow> new_chunk | Some d \<Rightarrow> d)"
  shows "left_of (bm(a \<mapsto> c)) = left_of bm" "right_of (bm(a \<mapsto> c)) = right_of bm"
  using assms
  by (auto simp: left_of_def right_of_def fun_eq_iff same_links_def new_chunk_def split: option.splits)

definition bitmaps_of :: "sym_bitmap \<Rightarrow> u64 \<Rightarrow> u32 option" where
  "bitmaps_of bm = map_option bitmap \<circ> bm"

lemma bitmaps_update:
  "bm l = Some c \<Longrightarrow> bitmaps_of (bm(l \<mapsto> c\<lparr>lnk_r := v\<rparr>)) = bitmaps_of bm"
  "bm l = Some c \<Longrightarrow> bitmaps_of (bm(l \<mapsto> c\<lparr>lnk_l := v\<rparr>)) = bitmaps_of bm"
  by (auto simp: bitmaps_of_def fun_eq_iff)

lemma bitmaps_eqD: "bitmaps_of bm = bitmaps_of bm' \<Longrightarrow> sym_bytes bm = sym_bytes bm'"
  by (rule sym_bytes_same_bitmaps) (auto simp: bitmaps_of_def fun_eq_iff)

text \<open>Releasing a chunk cuts both its neighbours loose, so no link to it is left.\<close>

lemma cut_left_ok:
  assumes "l \<noteq> a" "bm l \<noteq> None"
  obtains b1 where
    "rbind (deref ((bm(a := None)) l)) (\<lambda>cl. Inr ((bm(a := None))(l \<mapsto> cl\<lparr>lnk_r := None\<rparr>))) = Inr b1"
    "left_of b1 = (left_of bm)(a := None)" "right_of b1 = (right_of bm)(a := None, l := None)"
    "bitmaps_of b1 = bitmaps_of (bm(a := None))" "dom b1 = dom bm - {a}"
proof -
  obtain cl where cl: "(bm(a := None)) l = Some cl" using assms by auto
  show ?thesis
    by (rule that [of "(bm(a := None))(l \<mapsto> cl\<lparr>lnk_r := None\<rparr>)"])
      (use cl in \<open>auto simp: links_update bitmaps_update split: if_splits\<close>)
qed

lemma cut_right_ok:
  assumes "bm r \<noteq> None"
  obtains b1 where
    "rbind (deref (bm r)) (\<lambda>cr. Inr (bm(r \<mapsto> cr\<lparr>lnk_l := None\<rparr>))) = Inr b1"
    "left_of b1 = (left_of bm)(r := None)" "right_of b1 = right_of bm"
    "bitmaps_of b1 = bitmaps_of bm" "dom b1 = dom bm"
proof -
  obtain cr where cr: "bm r = Some cr" using assms by auto
  show ?thesis
    by (rule that [of "bm(r \<mapsto> cr\<lparr>lnk_l := None\<rparr>)"])
      (use cr in \<open>auto simp: links_update bitmaps_update\<close>)
qed

lemma destroy_chunk_ok:
  assumes ok: "links_ok bm" and c: "bm a = Some c" and c': "same_links c' c"
  obtains bm' where "destroy_chunk c' (bm(a := None)) = Inr bm'" "links_ok bm'"
    "bitmaps_of bm' = bitmaps_of (bm(a := None))" "dom bm' = dom bm - {a}"
proof -
  have ok1: "\<And>a b. left_of bm a = Some b \<longleftrightarrow> right_of bm b = Some a"
    and ok2: "\<And>a b. left_of bm a = Some b \<Longrightarrow> a = b + BLOCK_SIZE"
    using ok by (auto simp: links_ok_def)
  have la: "left_of bm a = lnk_l c" and ra: "right_of bm a = lnk_r c"
    by (simp_all add: left_of_def right_of_def c)
  have cl: "lnk_l c' = lnk_l c" "lnk_r c' = lnk_r c" using c' by (simp_all add: same_links_def)
  have L: "l \<noteq> a \<and> bm l \<noteq> None" if "lnk_l c = Some l" for l
    using that la ok1 [of a l] ok2 [of a l] right_of_Some [of bm l] block_size_neq [of l] by auto
  have R: "r \<noteq> a \<and> bm r \<noteq> None" if "lnk_r c = Some r" for r
    using that ra ok1 [of r a] ok2 [of r a] left_of_Some [of bm r] block_size_neq [of a] by auto
  define lo where "lo = (\<lambda>x. if x = a \<or> lnk_r c = Some x then None else left_of bm x)"
  define ro where "ro = (\<lambda>x. if x = a \<or> lnk_l c = Some x then None else right_of bm x)"
  obtain b1 where b1: "(case lnk_l c of None \<Rightarrow> Inr (bm(a := None))
            | Some l \<Rightarrow> rbind (deref ((bm(a := None)) l)) (\<lambda>cl. Inr ((bm(a := None))(l \<mapsto> cl\<lparr>lnk_r := None\<rparr>)))) = Inr b1"
    "left_of b1 = (left_of bm)(a := None)" "right_of b1 = ro"
    "bitmaps_of b1 = bitmaps_of (bm(a := None))" "dom b1 = dom bm - {a}"
  proof (cases "lnk_l c")
    case None
    then show ?thesis using that [of "bm(a := None)"] by (auto simp: links_update ro_def fun_eq_iff)
  next
    case (Some l)
    show ?thesis
      by (rule cut_left_ok [of l a bm], use L [OF Some] in blast, use L [OF Some] in blast)
        (rule that, auto simp: Some ro_def fun_eq_iff)
  qed
  obtain b2 where b2: "(case lnk_r c of None \<Rightarrow> Inr b1
            | Some r \<Rightarrow> rbind (deref (b1 r)) (\<lambda>cr. Inr (b1(r \<mapsto> cr\<lparr>lnk_l := None\<rparr>)))) = Inr b2"
    "left_of b2 = lo" "right_of b2 = ro"
    "bitmaps_of b2 = bitmaps_of (bm(a := None))" "dom b2 = dom bm - {a}"
  proof (cases "lnk_r c")
    case None
    then show ?thesis using that [of b1] b1 by (auto simp: lo_def fun_eq_iff)
  next
    case (Some r)
    have "b1 r \<noteq> None" using R [OF Some] b1(5) by blast
    then obtain b2 where
      "rbind (deref (b1 r)) (\<lambda>cr. Inr (b1(r \<mapsto> cr\<lparr>lnk_l := None\<rparr>))) = Inr b2"
      "left_of b2 = (left_of b1)(r := None)" "right_of b2 = right_of b1"
      "bitmaps_of b2 = bitmaps_of b1" "dom b2 = dom b1" by (rule cut_right_ok)
    then show ?thesis using that [of b2] b1(2-5) by (auto simp: Some lo_def fun_eq_iff)
  qed
  have sym: "left_of b2 x = Some y \<longleftrightarrow> right_of b2 y = Some x" for x y
    unfolding b2 lo_def ro_def using ok1 [of x y] ok1 [of a y] ok1 [of x a] la ra by auto
  have adj: "left_of b2 x = Some y \<Longrightarrow> x = y + BLOCK_SIZE" for x y
    unfolding b2 lo_def using ok2 [of x y] by (auto split: if_splits)
  have "links_ok b2" unfolding links_ok_def using sym adj by blast
  moreover have "destroy_chunk c' (bm(a := None)) = Inr b2"
    unfolding destroy_chunk_def cl b1(1) using b2(1) by simp
  ultimately show ?thesis using b2(4,5) that by blast
qed

lemma bit_and_not: "bit (w AND NOT m :: u32) k \<longleftrightarrow> bit w k \<and> \<not> bit m k"
  by (cases "k < 32") (auto simp: bit_simps dest: bit_imp_le_length)

lemma unmask_chunk_ok:
  assumes sz: "0 < unat sz" "unat addr mod 32 + unat sz \<le> 32" and ok: "links_ok bm"
  obtains bm' where
    "unmask_chunk (addr AND BLOCK_MASK) (addr - (addr AND BLOCK_MASK)) sz bm = Inr bm'"
    "links_ok bm'" "sym_bytes bm' = sym_bytes bm - byte_range addr sz"
proof (cases "bm (addr AND BLOCK_MASK)")
  case None
  have "is_sym_byte bm a \<Longrightarrow> a \<notin> byte_range addr sz" for a
    using in_block_range [OF sz(2), of a] None by (auto simp: is_sym_byte_def)
  then have "sym_bytes bm = sym_bytes bm - byte_range addr sz" by (auto simp: sym_bytes_def)
  then show ?thesis using that [of bm] None ok by (simp add: unmask_chunk_def)
next
  case (Some d)
  let ?al = "addr AND BLOCK_MASK" and ?hc = "addr - (addr AND BLOCK_MASK)"
  obtain mm where mm: "chunk_mask ?hc sz = Inr mm"
    "\<And>k. bit mm k \<longleftrightarrow> unat ?hc \<le> k \<and> k < unat ?hc + unat sz"
    using chunk_mask_ok [of ?hc sz] assms unat_hcave [of addr] by auto
  define c where "c = d\<lparr>bitmap := bitmap d AND NOT mm\<rparr>"
  have sb: "sym_bytes (bm(?al \<mapsto> c)) = sym_bytes bm - byte_range addr sz"
  proof -
    have "is_sym_byte (bm(?al \<mapsto> c)) a \<longleftrightarrow> is_sym_byte bm a \<and> a \<notin> byte_range addr sz" for a
      using in_block_range [OF sz(2), of a] mm(2) [of "unat a mod 32"]
      unfolding is_sym_byte_def unat_hcave
      by (auto simp: c_def Some bit_and_not split: option.splits)
    then show ?thesis by (auto simp: sym_bytes_def)
  qed
  have same: "same_links c d" by (simp add: same_links_def c_def)
  show ?thesis
  proof (cases "bitmap c = 0")
    case True
    obtain bm' where bm': "destroy_chunk c (bm(?al := None)) = Inr bm'" "links_ok bm'"
      "bitmaps_of bm' = bitmaps_of (bm(?al := None))"
      by (rule destroy_chunk_ok [OF ok Some same])
    have "is_sym_byte (bm(?al := None)) a = is_sym_byte (bm(?al \<mapsto> c)) a" for a
      using True by (simp add: is_sym_byte_def)
    then have "sym_bytes bm' = sym_bytes (bm(?al \<mapsto> c))"
      using bitmaps_eqD [OF bm'(3)] by (simp add: sym_bytes_def)
    then show ?thesis
      using that [of bm'] bm'(1,2) sb True by (simp add: unmask_chunk_def Some mm(1) c_def)
  next
    case False
    have "links_ok (bm(?al \<mapsto> c))"
      using ok links_update_same [of c bm ?al] same by (simp add: links_ok_def Some)
    then show ?thesis
      using that [of "bm(?al \<mapsto> c)"] sb False by (simp add: unmask_chunk_def Some mm(1) c_def)
  qed
qed

lemma unmark_spec:
  "no_wrap addr siz \<Longrightarrow> links_ok bm \<Longrightarrow>
     \<exists>bm'. unmarkSYMemBitmap addr siz bm = Inr bm' \<and> links_ok bm' \<and>
       sym_bytes bm' = sym_bytes bm - byte_range addr siz"
proof (induction addr siz bm rule: unmarkSYMemBitmap.induct)
  case (1 addr siz bm)
  let ?al = "addr AND BLOCK_MASK" and ?hc = "addr - (addr AND BLOCK_MASK)"
  let ?sz = "BLOCK_SIZE - ?hc" and ?nx = "(addr AND BLOCK_MASK) + BLOCK_SIZE"
  show ?case
  proof (cases "BLOCK_SIZE < ?hc + siz")
    case True
    note sp = mark_split [OF "1.prems"(1) True]
    obtain bm1 where bm1: "unmask_chunk ?al ?hc ?sz bm = Inr bm1" "links_ok bm1"
      "sym_bytes bm1 = sym_bytes bm - byte_range addr ?sz"
      by (rule unmask_chunk_ok [OF sp(1,2) "1.prems"(2)])
    obtain bm2 where bm2: "unmarkSYMemBitmap ?nx (siz - ?sz) bm1 = Inr bm2" "links_ok bm2"
      "sym_bytes bm2 = sym_bytes bm1 - byte_range ?nx (siz - ?sz)"
      using "1.IH" [OF refl refl refl True refl sp(3) bm1(2)] by blast
    have "unmarkSYMemBitmap addr siz bm = Inr bm2"
      using True bm1(1) bm2(1) by (simp add: unmarkSYMemBitmap.simps [of addr] Let_def)
    then show ?thesis using bm2 bm1(3) sp(4) by auto
  next
    case False
    have "0 < unat siz" using "1.prems" by (simp add: no_wrap_def)
    then obtain bm1 where "unmask_chunk ?al ?hc siz bm = Inr bm1" "links_ok bm1"
      "sym_bytes bm1 = sym_bytes bm - byte_range addr siz"
      using unmask_chunk_ok [OF _ mark_last [OF "1.prems"(1) False] "1.prems"(2)] by blast
    with False show ?thesis by (auto simp: unmarkSYMemBitmap.simps [of addr] Let_def)
  qed
qed

subsection \<open>Marking keeps the links\<close>

lemma links_ok_link:
  assumes ok: "links_ok bm" and m: "bm m = Some cm" and r: "bm r = Some cr"
    and adj: "r = m + BLOCK_SIZE"
  shows "links_ok (bm(m \<mapsto> cm\<lparr>lnk_r := Some r\<rparr>, r \<mapsto> cr\<lparr>lnk_l := Some m\<rparr>))"
proof -
  let ?b = "bm(m \<mapsto> cm\<lparr>lnk_r := Some r\<rparr>)"
  have ne: "m \<noteq> r" using adj block_size_neq by simp
  have br: "?b r = Some cr" using r ne by simp
  have l: "left_of (?b(r \<mapsto> cr\<lparr>lnk_l := Some m\<rparr>)) = (left_of bm)(r := Some m)"
    unfolding links_update(5) [of ?b r cr, OF br] links_update(3) [of bm m cm, OF m] by (rule refl)
  have rr: "right_of (?b(r \<mapsto> cr\<lparr>lnk_l := Some m\<rparr>)) = (right_of bm)(m := Some r)"
    unfolding links_update(6) [of ?b r cr, OF br] links_update(4) [of bm m cm, OF m] by (rule refl)
  have ok1: "\<And>a b. left_of bm a = Some b \<longleftrightarrow> right_of bm b = Some a"
    and ok2: "\<And>a b. left_of bm a = Some b \<Longrightarrow> a = b + BLOCK_SIZE"
    using ok by (auto simp: links_ok_def)
  have L: "x = r" if "left_of bm x = Some m" for x using ok2 [OF that] adj by (simp only:)
  have R: "y = m" if "left_of bm r = Some y" for y using ok2 [OF that] adj by simp
  have "((left_of bm)(r := Some m)) x = Some y \<longleftrightarrow> ((right_of bm)(m := Some r)) y = Some x" for x y
  proof (cases "x = r")
    case True
    show ?thesis using R [of y] ok1 [of r y] unfolding True by (cases "y = m") auto
  next
    case False
    show ?thesis using L [of x] ok1 [of x y] False by (cases "y = m") auto
  qed
  moreover have "((left_of bm)(r := Some m)) x = Some y \<Longrightarrow> x = y + BLOCK_SIZE" for x y
    using ok2 [of x y] adj by (cases "x = r") (simp_all del: fun_upd_apply add: fun_upd_same fun_upd_other)
  ultimately show ?thesis unfolding links_ok_def l rr by blast
qed

lemma mark_links:
  "no_wrap addr siz \<Longrightarrow> links_ok bm \<Longrightarrow> markSYMemBitmap addr siz bm = Inr (bm', m) \<Longrightarrow>
     links_ok bm'"
proof (induction addr siz bm arbitrary: bm' m rule: markSYMemBitmap.induct)
  case (1 addr siz bm)
  let ?al = "addr AND BLOCK_MASK" and ?hc = "addr - (addr AND BLOCK_MASK)"
  let ?sz = "BLOCK_SIZE - ?hc" and ?nx = "(addr AND BLOCK_MASK) + BLOCK_SIZE"
  have masked: "links_ok (bm(?al \<mapsto> c))"
    if "same_links c (case bm ?al of None \<Rightarrow> new_chunk | Some d \<Rightarrow> d)" for c
    using "1.prems"(2) links_update_same [of c bm ?al] that by (simp add: links_ok_def)
  show ?case
  proof (cases "BLOCK_SIZE < ?hc + siz")
    case True
    note sp = mark_split [OF "1.prems"(1) True]
    obtain c where c: "mask_chunk ?al ?hc ?sz bm = Inr (bm(?al \<mapsto> c), ?al)" "links_ok (bm(?al \<mapsto> c))"
      using mask_chunk_ok [OF sp(1,2), of bm] masked by metis
    obtain bm2 where bm2: "markSYMemBitmap ?nx (siz - ?sz) (bm(?al \<mapsto> c)) = Inr (bm2, ?nx)"
      "dom (bm(?al \<mapsto> c)) \<subseteq> dom bm2" "?nx \<in> dom bm2"
      using mark_spec [OF sp(3), of "bm(?al \<mapsto> c)"] unfolding sp(5) by blast
    have ok2: "links_ok bm2"
      using "1.IH" [OF refl refl refl True refl sp(3) c(2) bm2(1)] .
    obtain cm cr where cmr: "bm2 ?al = Some cm" "bm2 ?nx = Some cr"
      using bm2(2,3) by fastforce
    have "bm' = bm2(?al \<mapsto> cm\<lparr>lnk_r := Some ?nx\<rparr>, ?nx \<mapsto> cr\<lparr>lnk_l := Some ?al\<rparr>)"
      using "1.prems"(3) True c(1) bm2(1) link_chunks_ok [OF cmr next_block_neq [symmetric]]
      by (auto simp: markSYMemBitmap.simps [of addr] Let_def)
    then show ?thesis using links_ok_link [OF ok2 cmr refl] by (simp only:)
  next
    case False
    have pos: "0 < unat siz" using "1.prems" by (simp add: no_wrap_def)
    obtain c where "mask_chunk ?al ?hc siz bm = Inr (bm(?al \<mapsto> c), ?al)" "links_ok (bm(?al \<mapsto> c))"
      using mask_chunk_ok [OF pos mark_last [OF "1.prems"(1) False], of bm] masked by metis
    with False "1.prems"(3) show ?thesis
      by (auto simp: markSYMemBitmap.simps [of addr] Let_def)
  qed
qed

subsection \<open>Testing is intersection\<close>

lemma u32_nonzero_iff: "(w :: u32) \<noteq> 0 \<longleftrightarrow> (\<exists>k<32. bit w k)"
proof
  assume "w \<noteq> 0"
  then obtain k where "bit w k" using bit_word_eqI [of w 0] by auto
  then show "\<exists>k<32. bit w k" using bit_imp_le_length [of w k] by auto
next
  assume "\<exists>k<32. bit w k"
  then show "w \<noteq> 0" by auto
qed

text \<open>The byte at offset k of the chunk of an address.\<close>

lemma chunk_byte:
  assumes "k < 32"
  shows "((addr AND BLOCK_MASK) + of_nat k) AND BLOCK_MASK = addr AND BLOCK_MASK"
    "unat ((addr AND BLOCK_MASK) + of_nat k) mod 32 = k"
proof -
  have al: "unat (addr AND BLOCK_MASK) = 32 * (unat addr div 32)"
    unfolding BLOCK_MASK_eq by (rule unat_align_32)
  have "unat addr div 32 < 2 ^ 59"
    using unat_u64_less [of addr] by (simp add: div_less_iff_less_mult)
  then have "32 * (unat addr div 32) + k < 2 ^ 64" using assms by simp
  moreover have "unat (of_nat k :: u64) = k" using assms by (simp add: unat_of_nat)
  ultimately have a: "unat ((addr AND BLOCK_MASK) + of_nat k) = 32 * (unat addr div 32) + k"
    unfolding unat_plus_if' al by simp
  then show "unat ((addr AND BLOCK_MASK) + of_nat k) mod 32 = k" using assms by simp
  have "(32 * (unat addr div 32) + k) div 32 = unat addr div 32" using assms by simp
  with a show "((addr AND BLOCK_MASK) + of_nat k) AND BLOCK_MASK = addr AND BLOCK_MASK"
    unfolding block_eq_iff by simp
qed

lemma test_chunk_ok:
  assumes sz: "0 < unat sz" "unat addr mod 32 + unat sz \<le> 32"
  shows "test_chunk (addr AND BLOCK_MASK) (addr - (addr AND BLOCK_MASK)) sz bm =
     Inr (sym_bytes bm \<inter> byte_range addr sz \<noteq> {})"
proof -
  let ?al = "addr AND BLOCK_MASK" and ?hc = "addr - (addr AND BLOCK_MASK)"
  obtain mm where mm: "chunk_mask ?hc sz = Inr mm"
    "\<And>k. bit mm k \<longleftrightarrow> unat ?hc \<le> k \<and> k < unat ?hc + unat sz"
    using chunk_mask_ok [of ?hc sz] assms unat_hcave [of addr] by auto
  show ?thesis
  proof (cases "bm ?al")
    case None
    then have "is_sym_byte bm a \<Longrightarrow> a \<notin> byte_range addr sz" for a
      using in_block_range [OF sz(2), of a] by (auto simp: is_sym_byte_def)
    then have "sym_bytes bm \<inter> byte_range addr sz = {}" by (auto simp: sym_bytes_def)
    with None show ?thesis by (simp add: test_chunk_def)
  next
    case (Some d)
    have "bitmap d AND mm \<noteq> 0 \<longleftrightarrow> sym_bytes bm \<inter> byte_range addr sz \<noteq> {}"
    proof
      assume "bitmap d AND mm \<noteq> 0"
      then obtain k where k: "k < 32" "bit (bitmap d) k" "unat ?hc \<le> k" "k < unat ?hc + unat sz"
        using mm(2) unfolding u32_nonzero_iff by (auto simp: bit_and_iff)
      let ?a = "?al + of_nat k"
      note a = chunk_byte [OF k(1), of addr]
      have "?a \<in> sym_bytes bm" "?a \<in> byte_range addr sz"
        using in_block_range [OF sz(2), of ?a] k a Some
        unfolding unat_hcave sym_bytes_def is_sym_byte_def by auto
      then show "sym_bytes bm \<inter> byte_range addr sz \<noteq> {}" by blast
    next
      assume "sym_bytes bm \<inter> byte_range addr sz \<noteq> {}"
      then obtain a where a: "is_sym_byte bm a" "a \<in> byte_range addr sz"
        by (auto simp: sym_bytes_def)
      then have "bit (bitmap d AND mm) (unat a mod 32)"
        using in_block_range [OF sz(2), of a] mm(2) [of "unat a mod 32"] Some
        unfolding unat_hcave by (auto simp: is_sym_byte_def bit_and_iff)
      then show "bitmap d AND mm \<noteq> 0" by auto
    qed
    with Some mm(1) show ?thesis by (simp add: test_chunk_def)
  qed
qed

lemma test_spec:
  "no_wrap addr siz \<Longrightarrow>
     testSYMemBitmap addr siz bm = Inr (sym_bytes bm \<inter> byte_range addr siz \<noteq> {})"
proof (induction addr siz bm rule: testSYMemBitmap.induct)
  case (1 addr siz bm)
  let ?al = "addr AND BLOCK_MASK" and ?hc = "addr - (addr AND BLOCK_MASK)"
  let ?sz = "BLOCK_SIZE - ?hc" and ?nx = "(addr AND BLOCK_MASK) + BLOCK_SIZE"
  show ?case
  proof (cases "BLOCK_SIZE < ?hc + siz")
    case True
    note sp = mark_split [OF "1.prems" True]
    have "testSYMemBitmap ?nx (siz - ?sz) bm =
        Inr (sym_bytes bm \<inter> byte_range ?nx (siz - ?sz) \<noteq> {})"
      using "1.IH" [OF refl refl refl True refl sp(3)] .
    with True test_chunk_ok [OF sp(1,2)] sp(4) show ?thesis
      by (auto simp: testSYMemBitmap.simps [of addr] Let_def)
  next
    case False
    have "0 < unat siz" using "1.prems" by (simp add: no_wrap_def)
    from False test_chunk_ok [OF this mark_last [OF "1.prems" False]] show ?thesis
      by (simp add: testSYMemBitmap.simps [of addr] Let_def)
  qed
qed

section \<open>The contract the memory state relies on\<close>

text \<open>
  What a client of the bitmap may assume: marking, unmarking and testing a range never fail
  and are union, difference and intersection on the set of symbolic bytes.
\<close>

datatype mark_op = Mark u64 u64 | Unmark u64 u64

fun op_range_ok :: "mark_op \<Rightarrow> bool" where
  "op_range_ok (Mark a n) = no_wrap a n"
| "op_range_ok (Unmark a n) = no_wrap a n"

fun set_after :: "mark_op list \<Rightarrow> u64 set \<Rightarrow> u64 set" where
  "set_after [] S = S"
| "set_after (Mark a n # xs) S = set_after xs (S \<union> byte_range a n)"
| "set_after (Unmark a n # xs) S = set_after xs (S - byte_range a n)"

locale byte_marks =
  fixes mark :: "u64 \<Rightarrow> u64 \<Rightarrow> 's \<Rightarrow> 's res"
    and unmark :: "u64 \<Rightarrow> u64 \<Rightarrow> 's \<Rightarrow> 's res"
    and test :: "u64 \<Rightarrow> u64 \<Rightarrow> 's \<Rightarrow> bool res"
    and bytes :: "'s \<Rightarrow> u64 set"
    and good :: "'s \<Rightarrow> bool"
  assumes mark_law: "no_wrap a n \<Longrightarrow> good s \<Longrightarrow>
      \<exists>s'. mark a n s = Inr s' \<and> good s' \<and> bytes s' = bytes s \<union> byte_range a n"
    and unmark_law: "no_wrap a n \<Longrightarrow> good s \<Longrightarrow>
      \<exists>s'. unmark a n s = Inr s' \<and> good s' \<and> bytes s' = bytes s - byte_range a n"
    and test_law: "no_wrap a n \<Longrightarrow> good s \<Longrightarrow>
      test a n s = Inr (bytes s \<inter> byte_range a n \<noteq> {})"
begin

primrec perform :: "mark_op list \<Rightarrow> 's \<Rightarrow> 's res" where
  "perform [] s = Inr s"
| "perform (x # xs) s =
     rbind (case x of Mark a n \<Rightarrow> mark a n s | Unmark a n \<Rightarrow> unmark a n s) (perform xs)"

lemma perform_ok:
  "list_all op_range_ok xs \<Longrightarrow> good s \<Longrightarrow>
     \<exists>s'. perform xs s = Inr s' \<and> good s' \<and> bytes s' = set_after xs (bytes s)"
proof (induction xs arbitrary: s)
  case Nil
  then show ?case by simp
next
  case (Cons x xs)
  show ?case
  proof (cases x)
    case (Mark a n)
    then obtain s1 where "mark a n s = Inr s1" "good s1" "bytes s1 = bytes s \<union> byte_range a n"
      using mark_law [of a n s] Cons.prems by auto
    with Cons.IH [of s1] Cons.prems Mark show ?thesis by simp
  next
    case (Unmark a n)
    then obtain s1 where "unmark a n s = Inr s1" "good s1" "bytes s1 = bytes s - byte_range a n"
      using unmark_law [of a n s] Cons.prems by auto
    with Cons.IH [of s1] Cons.prems Unmark show ?thesis by simp
  qed
qed

lemma test_after_perform:
  assumes "list_all op_range_ok xs" "good s" "no_wrap a n"
  shows "rbind (perform xs s) (test a n) =
     Inr (set_after xs (bytes s) \<inter> byte_range a n \<noteq> {})"
  using perform_ok [OF assms(1,2)] test_law [OF assms(3)] by auto

text \<open>A byte the range does not cover keeps its mark.\<close>

lemma mark_frame:
  assumes "no_wrap a n" "good s" "mark a n s = Inr s'" "no_wrap b k"
    "byte_range a n \<inter> byte_range b k = {}"
  shows "test b k s' = test b k s"
proof -
  have "good s'" "bytes s' = bytes s \<union> byte_range a n"
    using mark_law [OF assms(1,2)] assms(3) by auto
  then show ?thesis
    using test_law [OF assms(4)] assms(2,5) by (auto simp: Int_Un_distrib2)
qed

end

definition mark_bytes :: "u64 \<Rightarrow> u64 \<Rightarrow> sym_bitmap \<Rightarrow> sym_bitmap res" where
  "mark_bytes a n bm = rbind (markSYMemBitmap a n bm) (\<lambda>(bm', m). Inr bm')"

lemma mark_bytes_spec:
  assumes "no_wrap a n" "links_ok bm"
  shows "\<exists>bm'. mark_bytes a n bm = Inr bm' \<and> links_ok bm' \<and>
     sym_bytes bm' = sym_bytes bm \<union> byte_range a n"
  using mark_spec [OF assms(1), of bm] mark_links [OF assms] by (auto simp: mark_bytes_def)

interpretation symmap: byte_marks mark_bytes unmarkSYMemBitmap testSYMemBitmap sym_bytes links_ok
  by unfold_locales (simp_all add: mark_bytes_spec unmark_spec test_spec)

text \<open>A fold of the operations, written out over the code's definitions.\<close>

definition perform_marks :: "mark_op list \<Rightarrow> sym_bitmap \<Rightarrow> sym_bitmap res" where
  "perform_marks = symmap.perform"

lemma perform_marks_simps [simp]:
  "perform_marks [] bm = Inr bm"
  "perform_marks (Mark a n # xs) bm = rbind (mark_bytes a n bm) (perform_marks xs)"
  "perform_marks (Unmark a n # xs) bm = rbind (unmarkSYMemBitmap a n bm) (perform_marks xs)"
  by (simp_all add: perform_marks_def)

section \<open>Properties\<close>

lemma sym_bytes_empty: "sym_bytes Map.empty = {}"
  by (simp add: sym_bytes_def is_sym_byte_def)

text \<open>C14. Any sequence of mark and unmark operations on ranges that do not wrap, started on an
  empty bitmap, succeeds (no shift is undefined, no link of a chunk dangles when a chunk is
  released) and a test of a range afterwards says exactly whether the range meets the set of
  bytes that were marked and not unmarked since.\<close>

theorem bitmap_is_byte_set:
  assumes "list_all op_range_ok xs" and "no_wrap a n"
  shows "rbind (perform_marks xs Map.empty) (testSYMemBitmap a n) =
     Inr (set_after xs {} \<inter> byte_range a n \<noteq> {})"
  using symmap.test_after_perform [OF assms(1) links_ok_empty assms(2)]
  by (simp add: perform_marks_def sym_bytes_empty)

lemma bitmap_is_byte_set_witness:
  "list_all op_range_ok [Mark 0x101C 8, Unmark 0x101E 4] \<and> no_wrap 0x1022 2 \<and>
   rbind (perform_marks [Mark 0x101C 8, Unmark 0x101E 4] Map.empty) (testSYMemBitmap 0x1022 2) =
     Inr (set_after [Mark 0x101C 8, Unmark 0x101E 4] {} \<inter> byte_range 0x1022 2 \<noteq> {})"
proof (intro conjI)
  show "list_all op_range_ok [Mark 0x101C 8, Unmark 0x101E 4]" by (simp add: no_wrap_def)
  show "no_wrap 0x1022 2" by (simp add: no_wrap_def)
  show "rbind (perform_marks [Mark 0x101C 8, Unmark 0x101E 4] Map.empty) (testSYMemBitmap 0x1022 2) =
     Inr (set_after [Mark 0x101C 8, Unmark 0x101E 4] {} \<inter> byte_range 0x1022 2 \<noteq> {})"
    by (rule bitmap_is_byte_set) (simp_all add: no_wrap_def)
qed

text \<open>Releasing the last symbolic bytes of a chunk while its neighbours live: unmarking any
  range succeeds on every bitmap whose links match, removes exactly the bytes of the range and
  leaves links that match, so that no later release can follow a stale link.\<close>

theorem unmark_keeps_links:
  assumes "no_wrap a n" and "links_ok bm"
  shows "\<exists>bm'. unmarkSYMemBitmap a n bm = Inr bm' \<and> links_ok bm' \<and>
     sym_bytes bm' = sym_bytes bm - byte_range a n"
  by (rule unmark_spec [OF assms])

definition two_chunks :: sym_bitmap where
  "two_chunks = Map.empty(
     0x1000 \<mapsto> \<lparr>bitmap = 0x80000000, objmask = 0, lnk_l = None, lnk_r = Some 0x1020\<rparr>,
     0x1020 \<mapsto> \<lparr>bitmap = 1, objmask = 0, lnk_l = Some 0x1000, lnk_r = None\<rparr>)"

lemma links_ok_two_chunks: "links_ok two_chunks"
proof -
  have "left_of two_chunks = Map.empty(0x1020 \<mapsto> 0x1000)"
    "right_of two_chunks = Map.empty(0x1000 \<mapsto> 0x1020)"
    by (auto simp: left_of_def right_of_def two_chunks_def fun_eq_iff)
  then show ?thesis by (auto simp: links_ok_def BLOCK_SIZE_def split: if_splits)
qed

lemma unmark_keeps_links_witness:
  "no_wrap 0x101F 1 \<and> links_ok two_chunks \<and>
   (\<exists>bm'. unmarkSYMemBitmap 0x101F 1 two_chunks = Inr bm' \<and> links_ok bm' \<and>
     sym_bytes bm' = sym_bytes two_chunks - byte_range 0x101F 1)"
proof -
  have "no_wrap 0x101F 1" by (simp add: no_wrap_def)
  with unmark_keeps_links [OF this links_ok_two_chunks] links_ok_two_chunks show ?thesis by blast
qed

text \<open>Marking a range links each chunk it covers with the next and never breaks the matching
  of links, whatever chunks existed before; the bytes become the union, and the chunk returned
  to the caller is the one that holds the first byte.\<close>

theorem mark_keeps_links:
  assumes "no_wrap a n" and "links_ok bm"
  shows "\<exists>bm'. markSYMemBitmap a n bm = Inr (bm', a AND BLOCK_MASK) \<and> links_ok bm' \<and>
     findSYMemChunk a bm' = Some (a AND BLOCK_MASK) \<and>
     sym_bytes bm' = sym_bytes bm \<union> byte_range a n"
  using mark_spec [OF assms(1), of bm] mark_links [OF assms]
  by (auto simp: findSYMemChunk_def Let_def split: option.splits)

lemma mark_keeps_links_witness:
  "no_wrap 0x1010 0x40 \<and> links_ok two_chunks \<and>
   (\<exists>bm'. markSYMemBitmap 0x1010 0x40 two_chunks = Inr (bm', 0x1010 AND BLOCK_MASK) \<and>
     links_ok bm' \<and> findSYMemChunk 0x1010 bm' = Some (0x1010 AND BLOCK_MASK) \<and>
     sym_bytes bm' = sym_bytes two_chunks \<union> byte_range 0x1010 0x40)"
proof -
  have "no_wrap 0x1010 0x40" by (simp add: no_wrap_def)
  with mark_keeps_links [OF this links_ok_two_chunks] links_ok_two_chunks show ?thesis by blast
qed

text \<open>An empty range at an aligned address: the mask computation shifts the all-ones word by
  its full width, which C++ leaves undefined.\<close>

lemma empty_range_shifts_by_width:
  "mask_chunk al 0 0 bm = Inl UndefinedShift"
  by (simp add: mask_chunk_def chunk_mask_def BLOCK_SIZE_def Let_def)

end
