(* ===== verification/Sym_Expr.thy ===== *)
theory Sym_Expr
  imports Krover_Prelude
begin

text \<open>
  Symbolic expressions (Expr.h and Expr.cpp): the class hierarchy as a datatype, its
  constructors with the sizes they compute, the printer, and CreateExprByID, which turns the
  expression saved by the last flag-changing instruction into the condition of a jump. A shared
  pointer to an expression is the expression itself, since no object of these classes is
  changed after its construction; a pointer to a symbolic object is a number.
\<close>

section \<open>Data\<close>

type_synonym obj_ptr = nat

datatype binop =
    OpAdd
  | OpSub
  | OpMul
  | OpUDiv
  | OpAnd
  | OpOr
  | OpXor
  | OpShl
  | OpLShr
  | OpAShr
  | OpSDiv
  | OpSRem
  | OpUlt
  | OpUle
  | OpUgt
  | OpUge
  | OpSlt
  | OpSle
  | OpSgt
  | OpSge

datatype uryop =
    OpNeg
  | OpNot
  | OpLNot
  | OpSignEXT
  | OpZeroEXT
  | OpEqual
  | OpDistinct
  | OpSign
  | OpNoSign
  | OpOverflow
  | OpNoOverflow

text \<open>The identifiers of Expr.h, as the C++ int they are.\<close>

definition EXPR_UNDEFINED :: int where "EXPR_UNDEFINED = - 1"
definition EXPR_LOr :: int where "EXPR_LOr = 32"
definition EXPR_LAnd :: int where "EXPR_LAnd = 33"
definition EXPR_URem :: int where "EXPR_URem = 12"
definition EXPR_Shrd :: int where "EXPR_Shrd = 37"
definition EXPR_Combine :: int where "EXPR_Combine = 42"
definition EXPR_Extract :: int where "EXPR_Extract = 43"
definition EXPR_CombineMulti :: int where "EXPR_CombineMulti = 44"

fun binop_id :: "binop \<Rightarrow> int" where
  "binop_id OpAdd = 7"
| "binop_id OpSub = 8"
| "binop_id OpMul = 9"
| "binop_id OpUDiv = 10"
| "binop_id OpAnd = 16"
| "binop_id OpOr = 17"
| "binop_id OpXor = 18"
| "binop_id OpShl = 19"
| "binop_id OpLShr = 20"
| "binop_id OpAShr = 21"
| "binop_id OpSDiv = 11"
| "binop_id OpSRem = 13"
| "binop_id OpUlt = 24"
| "binop_id OpUle = 25"
| "binop_id OpUgt = 26"
| "binop_id OpUge = 27"
| "binop_id OpSlt = 28"
| "binop_id OpSle = 29"
| "binop_id OpSgt = 30"
| "binop_id OpSge = 31"

fun uryop_id :: "uryop \<Rightarrow> int" where
  "uryop_id OpNeg = 14"
| "uryop_id OpNot = 15"
| "uryop_id OpLNot = 34"
| "uryop_id OpSignEXT = 35"
| "uryop_id OpZeroEXT = 36"
| "uryop_id OpEqual = 22"
| "uryop_id OpDistinct = 23"
| "uryop_id OpSign = 38"
| "uryop_id OpNoSign = 39"
| "uryop_id OpOverflow = 40"
| "uryop_id OpNoOverflow = 41"

text \<open>
  An object of one of the classes. The last two arguments of every constructor are the fields
  size and offset of the base class. A multi-combination holds its parts with the vectors of
  their offsets and sizes.
\<close>

datatype expr =
    UDefE "obj_ptr option" int int
  | ConstE u64 int int
  | BinE binop expr expr int int
  | UryE uryop expr int int
  | ShrdE expr expr expr int int
  | CombineE expr expr int int int int
  | ExtractE expr int int int int
  | CombineMultiE "expr list" "int list" "int list" int int

fun expr_size :: "expr \<Rightarrow> int" where
  "expr_size (UDefE ob sz off) = sz"
| "expr_size (ConstE v sz off) = sz"
| "expr_size (BinE b r l sz off) = sz"
| "expr_size (UryE u e sz off) = sz"
| "expr_size (ShrdE r m l sz off) = sz"
| "expr_size (CombineE r l rsz lsz sz off) = sz"
| "expr_size (ExtractE e s t sz off) = sz"
| "expr_size (CombineMultiE es os ss sz off) = sz"

fun expr_offset :: "expr \<Rightarrow> int" where
  "expr_offset (UDefE ob sz off) = off"
| "expr_offset (ConstE v sz off) = off"
| "expr_offset (BinE b r l sz off) = off"
| "expr_offset (UryE u e sz off) = off"
| "expr_offset (ShrdE r m l sz off) = off"
| "expr_offset (CombineE r l rsz lsz sz off) = off"
| "expr_offset (ExtractE e s t sz off) = off"
| "expr_offset (CombineMultiE es os ss sz off) = off"

fun exprID :: "expr \<Rightarrow> int" where
  "exprID (UDefE ob sz off) = EXPR_UNDEFINED"
| "exprID (ConstE v sz off) = EXPR_UNDEFINED"
| "exprID (BinE b r l sz off) = binop_id b"
| "exprID (UryE u e sz off) = uryop_id u"
| "exprID (ShrdE r m l sz off) = EXPR_Shrd"
| "exprID (CombineE r l rsz lsz sz off) = EXPR_Combine"
| "exprID (ExtractE e s t sz off) = EXPR_Extract"
| "exprID (CombineMultiE es os ss sz off) = EXPR_CombineMulti"

text \<open>The enumeration Kind: Const is 3, UNDEFINED is -1, the others are the identifiers.\<close>

fun getKind :: "expr \<Rightarrow> int" where
  "getKind (UDefE ob sz off) = - 1"
| "getKind (ConstE v sz off) = 3"
| "getKind e = exprID e"

section \<open>Constructors\<close>

text \<open>
  The constructor with two operands takes its size from the first; a symbolic object made
  without a size has the default size of the base class, 4, whatever the object's own size is.
\<close>

definition UDefExpr :: "obj_ptr option \<Rightarrow> expr" where "UDefExpr ob = UDefE ob 4 0"
definition ConstExpr :: "u64 \<Rightarrow> int \<Rightarrow> int \<Rightarrow> expr" where "ConstExpr v sz off = ConstE v sz off"

definition mk_bin :: "binop \<Rightarrow> expr \<Rightarrow> expr \<Rightarrow> expr" where
  "mk_bin b r l = BinE b r l (expr_size r) 0"

definition mk_ury :: "uryop \<Rightarrow> expr \<Rightarrow> expr" where
  "mk_ury u e = UryE u e (expr_size e) 0"

abbreviation AddExpr :: "expr \<Rightarrow> expr \<Rightarrow> expr" where "AddExpr \<equiv> mk_bin OpAdd"
abbreviation SubExpr :: "expr \<Rightarrow> expr \<Rightarrow> expr" where "SubExpr \<equiv> mk_bin OpSub"
abbreviation MulExpr :: "expr \<Rightarrow> expr \<Rightarrow> expr" where "MulExpr \<equiv> mk_bin OpMul"
abbreviation DivExpr :: "expr \<Rightarrow> expr \<Rightarrow> expr" where "DivExpr \<equiv> mk_bin OpUDiv"
abbreviation AndExpr :: "expr \<Rightarrow> expr \<Rightarrow> expr" where "AndExpr \<equiv> mk_bin OpAnd"
abbreviation OrExpr :: "expr \<Rightarrow> expr \<Rightarrow> expr" where "OrExpr \<equiv> mk_bin OpOr"
abbreviation XorExpr :: "expr \<Rightarrow> expr \<Rightarrow> expr" where "XorExpr \<equiv> mk_bin OpXor"
abbreviation Shl_SalExpr :: "expr \<Rightarrow> expr \<Rightarrow> expr" where "Shl_SalExpr \<equiv> mk_bin OpShl"
abbreviation ShrExpr :: "expr \<Rightarrow> expr \<Rightarrow> expr" where "ShrExpr \<equiv> mk_bin OpLShr"
abbreviation SarExpr :: "expr \<Rightarrow> expr \<Rightarrow> expr" where "SarExpr \<equiv> mk_bin OpAShr"
abbreviation iDivExpr :: "expr \<Rightarrow> expr \<Rightarrow> expr" where "iDivExpr \<equiv> mk_bin OpSDiv"
abbreviation iRemExpr :: "expr \<Rightarrow> expr \<Rightarrow> expr" where "iRemExpr \<equiv> mk_bin OpSRem"
abbreviation UltExpr :: "expr \<Rightarrow> expr \<Rightarrow> expr" where "UltExpr \<equiv> mk_bin OpUlt"
abbreviation UleExpr :: "expr \<Rightarrow> expr \<Rightarrow> expr" where "UleExpr \<equiv> mk_bin OpUle"
abbreviation UgtExpr :: "expr \<Rightarrow> expr \<Rightarrow> expr" where "UgtExpr \<equiv> mk_bin OpUgt"
abbreviation UgeExpr :: "expr \<Rightarrow> expr \<Rightarrow> expr" where "UgeExpr \<equiv> mk_bin OpUge"
abbreviation SltExpr :: "expr \<Rightarrow> expr \<Rightarrow> expr" where "SltExpr \<equiv> mk_bin OpSlt"
abbreviation SleExpr :: "expr \<Rightarrow> expr \<Rightarrow> expr" where "SleExpr \<equiv> mk_bin OpSle"
abbreviation SgtExpr :: "expr \<Rightarrow> expr \<Rightarrow> expr" where "SgtExpr \<equiv> mk_bin OpSgt"
abbreviation SgeExpr :: "expr \<Rightarrow> expr \<Rightarrow> expr" where "SgeExpr \<equiv> mk_bin OpSge"

abbreviation NegExpr :: "expr \<Rightarrow> expr" where "NegExpr \<equiv> mk_ury OpNeg"
abbreviation NotExpr :: "expr \<Rightarrow> expr" where "NotExpr \<equiv> mk_ury OpNot"
abbreviation LNotExpr :: "expr \<Rightarrow> expr" where "LNotExpr \<equiv> mk_ury OpLNot"
abbreviation SignExtExpr :: "expr \<Rightarrow> expr" where "SignExtExpr \<equiv> mk_ury OpSignEXT"
abbreviation ZeroExtExpr :: "expr \<Rightarrow> expr" where "ZeroExtExpr \<equiv> mk_ury OpZeroEXT"
abbreviation EqualExpr :: "expr \<Rightarrow> expr" where "EqualExpr \<equiv> mk_ury OpEqual"
abbreviation DistinctExpr :: "expr \<Rightarrow> expr" where "DistinctExpr \<equiv> mk_ury OpDistinct"
abbreviation SignExpr :: "expr \<Rightarrow> expr" where "SignExpr \<equiv> mk_ury OpSign"
abbreviation NoSignExpr :: "expr \<Rightarrow> expr" where "NoSignExpr \<equiv> mk_ury OpNoSign"
abbreviation OverflowExpr :: "expr \<Rightarrow> expr" where "OverflowExpr \<equiv> mk_ury OpOverflow"
abbreviation NoOverflowExpr :: "expr \<Rightarrow> expr" where "NoOverflowExpr \<equiv> mk_ury OpNoOverflow"

definition ShrdExpr :: "expr \<Rightarrow> expr \<Rightarrow> expr \<Rightarrow> expr" where
  "ShrdExpr r m l = ShrdE r m l (expr_size r) 0"

definition CombineExpr :: "expr \<Rightarrow> expr \<Rightarrow> int \<Rightarrow> int \<Rightarrow> int \<Rightarrow> int \<Rightarrow> expr" where
  "CombineExpr r l rsize lsize sz off = CombineE r l rsize lsize sz off"

definition ExtractExpr :: "expr \<Rightarrow> int \<Rightarrow> int \<Rightarrow> expr" where
  "ExtractExpr e s t = ExtractE e s t (t - s) 0"

definition CombineMultiExpr :: "expr list \<Rightarrow> int list \<Rightarrow> int list \<Rightarrow> int \<Rightarrow> int \<Rightarrow> expr" where
  "CombineMultiExpr es os ss sz off = CombineMultiE es os ss sz off"

lemmas expr_ctor_defs = UDefExpr_def ConstExpr_def mk_bin_def mk_ury_def ShrdExpr_def
  CombineExpr_def ExtractExpr_def CombineMultiExpr_def

declare expr_ctor_defs [krover_defs]

text \<open>The operands of an object that is a BinExpr; the cast of any other is not checked.\<close>

fun as_BinExpr :: "expr \<Rightarrow> (expr \<times> expr) res" where
  "as_BinExpr (BinE b r l sz off) = Inr (r, l)"
| "as_BinExpr (CombineE r l rsz lsz sz off) = Inr (r, l)"
| "as_BinExpr e = Inl BadCast"

section \<open>CreateExprByID\<close>

text \<open>The cases of the switch that build a comparison of the two operands of R.\<close>

definition cmp_of_id :: "int \<Rightarrow> binop option" where
  "cmp_of_id eid = map_of [(24, OpUlt), (25, OpUle), (26, OpUgt), (27, OpUge),
     (28, OpSlt), (29, OpSle), (30, OpSgt), (31, OpSge)] eid"

text \<open>The identifiers whose case is a failed assert.\<close>

definition rejected_ids :: "int list" where
  "rejected_ids = [7, 8, 9, 10, 11, 12, 13, 14, 15, 16, 17, 18, 19, 20, 21, 32, 33, 34, 36, 37]"

definition CreateExprByID :: "int \<Rightarrow> expr \<Rightarrow> int \<Rightarrow> int \<Rightarrow> expr option res" where
  "CreateExprByID eid R sz off =
     (if eid \<in> set rejected_ids then Inl AssertFail
      else if eid = 22 then Inr (Some (UryE OpEqual R sz off))
      else if eid = 23 then Inr (Some (UryE OpDistinct R sz off))
      else if eid = 38 then Inr (Some (UryE OpSign R sz off))
      else if eid = 35 then Inr (Some (UryE OpSignEXT R sz off))
      else (case cmp_of_id eid of
              Some b \<Rightarrow> rbind (as_BinExpr R) (\<lambda>(r, l). Inr (Some (BinE b r l sz off)))
            | None \<Rightarrow> Inr None))"

lemma CreateExprByID_cmp:
  "CreateExprByID (binop_id b) R sz off = rbind (as_BinExpr R) (\<lambda>(r, l). Inr (Some (BinE b r l sz off)))"
  if "b \<in> {OpUlt, OpUle, OpUgt, OpUge, OpSlt, OpSle, OpSgt, OpSge}"
  using that by (auto simp: CreateExprByID_def rejected_ids_def cmp_of_id_def)

lemma CreateExprByID_ury:
  "CreateExprByID (uryop_id u) R sz off = Inr (Some (UryE u R sz off))"
  if "u \<in> {OpEqual, OpDistinct, OpSign, OpSignEXT}"
  using that by (auto simp: CreateExprByID_def rejected_ids_def)

text \<open>The sign and overflow conditions that the switch does not name give a null pointer.\<close>

lemma CreateExprByID_null:
  "CreateExprByID (uryop_id u) R sz off = Inr None" if "u \<in> {OpNoSign, OpOverflow, OpNoOverflow}"
  using that by (auto simp: CreateExprByID_def rejected_ids_def cmp_of_id_def)

section \<open>The printer\<close>

definition exprName :: "string list" where
  "exprName = [[], [], [], [], [], [], [], ''Add'', ''Sub'', ''Mul'', ''UDiv'', ''SDiv'', ''URem'', ''SRem'',
     ''Neg'', ''Not'', ''And'', ''Or'' @ [CHR 0x09], ''Xor'', ''Shl'', ''LShr'', ''AShr'', ''Equal'', ''Distinct'',
     ''Ult'', ''Ule'', ''Ugt'', ''Uge'', ''Slt'', ''Sle'', ''Sgt'', ''Sge'', ''LOr'', ''LAnd'', ''LNot'',
     ''SignEXT'', ''ZeroEXT'', ''Shrd'', ''Sign'', ''NoSign'', ''Overflow'', ''NoOverflow'',
     ''Combine'', ''Extract'', ''CombineMulti'']"

definition digit_char :: "nat \<Rightarrow> char" where
  "digit_char d = (if d < 10 then char_of (48 + d) else char_of (87 + d))"

fun show_base :: "nat \<Rightarrow> nat \<Rightarrow> string" where
  "show_base b n = (if b < 2 \<or> n < b then [digit_char n] else show_base b (n div b) @ [digit_char (n mod b)])"

declare show_base.simps [simp del]

text \<open>
  An int on a stream whose base may have been set to sixteen: a negative value prints as its
  32-bit two's complement then, and with a minus sign otherwise.
\<close>

definition show_int :: "bool \<Rightarrow> int \<Rightarrow> string" where
  "show_int hex i =
     (if hex then show_base 16 (nat (i mod 2 ^ 32))
      else if i < 0 then CHR ''-'' # show_base 10 (nat (- i)) else show_base 10 (nat i))"

text \<open>
  Printing appends to the output. The constant printer sets the base of the stream to sixteen
  and nothing sets it back: the flag is threaded through.
\<close>

fun print_expr :: "(obj_ptr \<Rightarrow> string) \<Rightarrow> expr \<Rightarrow> bool \<Rightarrow> string \<times> bool"
  and print_list :: "(obj_ptr \<Rightarrow> string) \<Rightarrow> expr list \<Rightarrow> bool \<Rightarrow> string \<times> bool" where
  "print_expr nm (UDefE (Some ob) sz off) hex = (nm ob, hex)"
| "print_expr nm (UDefE None sz off) hex = (''OBJ'', hex)"
| "print_expr nm (ConstE v sz off) hex = (''0x'' @ show_base 16 (unat v), True)"
| "print_expr nm (BinE b r l sz off) hex =
     (let (s1, h1) = print_expr nm r hex; (s2, h2) = print_expr nm l h1
      in (exprName ! nat (binop_id b) @ ''('' @ s1 @ '','' @ s2 @ '')'', h2))"
| "print_expr nm (CombineE r l rsz lsz sz off) hex =
     (let (s1, h1) = print_expr nm r hex; (s2, h2) = print_expr nm l h1
      in (exprName ! nat EXPR_Combine @ ''('' @ s1 @ '','' @ s2 @ '')'', h2))"
| "print_expr nm (UryE u e sz off) hex =
     (let (s1, h1) = print_expr nm e hex
      in (exprName ! nat (uryop_id u) @ ''('' @ s1 @ '')'', h1))"
| "print_expr nm (ShrdE r m l sz off) hex =
     (let (s1, h1) = print_expr nm r hex; (s2, h2) = print_expr nm m h1; (s3, h3) = print_expr nm l h2
      in (exprName ! nat EXPR_Shrd @ ''('' @ s1 @ '','' @ s2 @ '','' @ s3 @ '')'', h3))"
| "print_expr nm (ExtractE e s t sz off) hex =
     (let (s1, h1) = print_expr nm e hex
      in (exprName ! nat EXPR_Extract @ ''('' @ s1 @ '', '' @ show_int h1 s @ '', '' @ show_int h1 t @ '')'', h1))"
| "print_expr nm (CombineMultiE es os ss sz off) hex =
     (let (s1, h1) = print_list nm es hex
      in (exprName ! nat EXPR_CombineMulti @ ''('' @ s1 @ '')'', h1))"
| "print_list nm [] hex = ([], hex)"
| "print_list nm (e # es) hex =
     (let (s1, h1) = print_expr nm e hex; (s2, h2) = print_list nm es h1
      in (s1 @ '', '' @ s2, h2))"

text \<open>The base an expression leaves the stream in: sixteen as soon as it holds a constant.\<close>

fun has_const :: "expr \<Rightarrow> bool" where
  "has_const (UDefE ob sz off) = False"
| "has_const (ConstE v sz off) = True"
| "has_const (BinE b r l sz off) = (has_const r \<or> has_const l)"
| "has_const (UryE u e sz off) = has_const e"
| "has_const (ShrdE r m l sz off) = (has_const r \<or> has_const m \<or> has_const l)"
| "has_const (CombineE r l rsz lsz sz off) = (has_const r \<or> has_const l)"
| "has_const (ExtractE e s t sz off) = has_const e"
| "has_const (CombineMultiE es os ss sz off) = list_ex has_const es"

lemma print_list_base:
  "(\<And>e hex. e \<in> set es \<Longrightarrow> snd (print_expr nm e hex) = (hex \<or> has_const e)) \<Longrightarrow>
     snd (print_list nm es hex) = (hex \<or> list_ex has_const es)"
  by (induction es arbitrary: hex) (auto simp: split_beta)

lemma print_base: "snd (print_expr nm e hex) = (hex \<or> has_const e)"
proof (induction e arbitrary: hex)
  case (UDefE ob sz off)
  then show ?case by (cases ob) auto
next
  case (CombineMultiE es os ss sz off)
  then show ?case by (auto simp: split_beta print_list_base)
qed (auto simp: split_beta)

section \<open>Bytes of an expression\<close>

text \<open>
  The byte at offset k of an expression: an extraction refers to a byte of the expression it
  extracts from. Two expressions with the same byte references stand for the same bytes.
\<close>

fun byte_ref :: "expr \<Rightarrow> int \<Rightarrow> expr \<times> int" where
  "byte_ref (ExtractE e s t sz off) k = byte_ref e (s + k)"
| "byte_ref e k = (e, k)"

lemma byte_ref_Extract [simp]: "byte_ref (ExtractExpr e s t) k = byte_ref e (s + k)"
  by (simp add: ExtractExpr_def)

lemma size_Extract [simp]: "expr_size (ExtractExpr e s t) = t - s"
  by (simp add: ExtractExpr_def)

section \<open>Properties\<close>

text \<open>Every condition the analyser can ask for either is refused by a failed assert, is a null
  pointer (the conditions NoSign, Overflow and NoOverflow, for which the switch has no case),
  is a predicate on the saved expression itself (Equal, Distinct, Sign, SignExt), or compares
  the two operands of the saved expression, whatever operation that expression is.\<close>

theorem CreateExprByID_cases:
  "CreateExprByID eid R sz off = Inl AssertFail \<or>
   CreateExprByID eid R sz off = Inr None \<or>
   (\<exists>u. uryop_id u = eid \<and> CreateExprByID eid R sz off = Inr (Some (UryE u R sz off))) \<or>
   (\<exists>b. binop_id b = eid \<and>
      CreateExprByID eid R sz off = rbind (as_BinExpr R) (\<lambda>(r, l). Inr (Some (BinE b r l sz off))))"
proof (cases "eid \<in> set rejected_ids \<or> (eid \<notin> {22, 23, 38, 35} \<and> cmp_of_id eid = None)")
  case True
  then show ?thesis by (auto simp: CreateExprByID_def rejected_ids_def)
next
  case False
  then consider "eid \<in> {22, 23, 38, 35}" | b where "cmp_of_id eid = Some b" by auto
  then show ?thesis
  proof cases
    case 1
    then have "eid = uryop_id OpEqual \<or> eid = uryop_id OpDistinct \<or> eid = uryop_id OpSign \<or>
        eid = uryop_id OpSignEXT" by auto
    then show ?thesis using CreateExprByID_ury [of _ R sz off] by blast
  next
    case 2
    then have "eid = binop_id b \<and> b \<in> {OpUlt, OpUle, OpUgt, OpUge, OpSlt, OpSle, OpSgt, OpSge}"
      by (auto simp: cmp_of_id_def split: if_splits)
    then show ?thesis using CreateExprByID_cmp [of b R sz off] by blast
  qed
qed

end
