(* ===== verification/Sym_List.thy ===== *)
theory Sym_List
  imports Sym_Expr
begin

text \<open>
  The lists of symbolic cells (SymList.h and SymList.cpp): doubly linked cells on a heap that
  all lists share, with a hash index from keys of addresses to cells. A list stands for a map
  from byte addresses to bytes of expressions; the operations are shown to be restriction,
  override and lookup on that map, and to keep the links, the order and the index.

  Addresses (int64_t) and sizes (int) are integers here; the specifications are for ranges whose
  ends fit well inside those types. A node over a null expression is not a value of the datatype
  of expressions: splitting a cell that has no expression, which only the two sentinels lack, is
  the fault NullDeref.
\<close>

section \<open>Data\<close>

record cell =
  c_next :: "nat option"
  c_prev :: "nat option"
  c_addr :: int
  c_size :: int
  c_expr :: "expr option"

text \<open>A shared pointer is a number below fresh; a cell that is pointed to is never released.\<close>

record store =
  heap :: "nat \<Rightarrow> cell"
  fresh :: nat

record slm =
  m_sm :: "int \<rightharpoonup> nat"
  m_listheader :: nat
  m_listtail :: nat

definition new_cell :: "int \<Rightarrow> int \<Rightarrow> expr option \<Rightarrow> cell" where
  "new_cell a s e = \<lparr>c_next = None, c_prev = None, c_addr = a, c_size = s, c_expr = e\<rparr>"

definition copy_cell :: "cell \<Rightarrow> cell" where
  "copy_cell c = \<lparr>c_next = None, c_prev = None, c_addr = c_addr c, c_size = c_size c, c_expr = c_expr c\<rparr>"

definition alloc :: "cell \<Rightarrow> store \<Rightarrow> nat \<times> store" where
  "alloc c st = (fresh st, st\<lparr>heap := (heap st)(fresh st := c), fresh := Suc (fresh st)\<rparr>)"

definition upd :: "nat \<Rightarrow> (cell \<Rightarrow> cell) \<Rightarrow> store \<Rightarrow> store" where
  "upd p f st = st\<lparr>heap := (heap st)(p := f (heap st p))\<rparr>"

abbreviation nxt :: "store \<Rightarrow> nat \<Rightarrow> nat option" where "nxt st p \<equiv> c_next (heap st p)"
abbreviation prv :: "store \<Rightarrow> nat \<Rightarrow> nat option" where "prv st p \<equiv> c_prev (heap st p)"
abbreviation adr :: "store \<Rightarrow> nat \<Rightarrow> int" where "adr st p \<equiv> c_addr (heap st p)"
abbreviation siz :: "store \<Rightarrow> nat \<Rightarrow> int" where "siz st p \<equiv> c_size (heap st p)"
abbreviation endp :: "store \<Rightarrow> nat \<Rightarrow> int" where "endp st p \<equiv> adr st p + siz st p"
abbreviation set_next :: "nat \<Rightarrow> nat option \<Rightarrow> store \<Rightarrow> store" where
  "set_next p v \<equiv> upd p (\<lambda>c. c\<lparr>c_next := v\<rparr>)"
abbreviation set_prev :: "nat \<Rightarrow> nat option \<Rightarrow> store \<Rightarrow> store" where
  "set_prev p v \<equiv> upd p (\<lambda>c. c\<lparr>c_prev := v\<rparr>)"

definition ADDR_TO_KEY :: "int \<Rightarrow> int" where "ADDR_TO_KEY a = a AND 0x7FFFFFFFFFFFFFF"

definition header_addr :: int where "header_addr = - (2 ^ 60)"
definition tail_addr :: int where "tail_addr = 0x7FFFFFFFFFFFFFF"

section \<open>Operations\<close>

definition Symbol_List_Map :: "store \<Rightarrow> store \<times> slm" where
  "Symbol_List_Map st =
     (let (h, st1) = alloc (new_cell header_addr 0 None) st;
          (t, st2) = alloc (new_cell tail_addr 0 None) st1;
          st3 = set_prev t (Some h) (set_next h (Some t) st2)
      in (st3, \<lparr>m_sm = Map.empty(- 1 \<mapsto> h, ADDR_TO_KEY tail_addr \<mapsto> t),
                m_listheader = h, m_listtail = t\<rparr>))"

text \<open>
  The search loop. Each round moves the two cursors by one cell at most; a cursor that would
  leave the list is a null dereference. The fuel stands for the number of rounds.
\<close>

fun affected_loop :: "nat \<Rightarrow> store \<Rightarrow> int \<Rightarrow> int \<Rightarrow> nat \<Rightarrow> bool \<Rightarrow> nat \<Rightarrow> bool \<Rightarrow> (nat \<times> nat) res" where
  "affected_loop 0 st hs te ia iaf ib ibf = Inl Diverges"
| "affected_loop (Suc n) st hs te ia iaf ib ibf =
     rbind (if iaf then Inr (ia, True)
            else rbind (deref (nxt st ia)) (\<lambda>nx.
                 if adr st ia < hs \<and> hs \<le> adr st nx then Inr (ia, True) else Inr (nx, False)))
       (\<lambda>(ia', iaf').
     rbind (if ibf then Inr (ib, True)
            else rbind (deref (nxt st ib)) (\<lambda>nx.
                 if endp st ib \<le> te \<and> te < endp st nx then Inr (nx, True) else Inr (nx, False)))
       (\<lambda>(ib', ibf').
     if iaf' \<and> ibf' then Inr (ia', ib') else affected_loop n st hs te ia' iaf' ib' ibf'))"

definition GetAffectedCells :: "store \<Rightarrow> slm \<Rightarrow> int \<Rightarrow> int \<Rightarrow> (nat \<times> nat) res" where
  "GetAffectedCells st m header_start tail_end =
     rbind (case m_sm m (ADDR_TO_KEY header_start) of
              None \<Rightarrow> Inr (m_listheader m, False)
            | Some p \<Rightarrow> rbind (deref (prv st p)) (\<lambda>q. Inr (q, True)))
       (\<lambda>(ia, found). affected_loop (fresh st + 2) st header_start tail_end ia found ia False)"

definition SplitCell3 ::
    "store \<Rightarrow> slm \<Rightarrow> nat \<Rightarrow> int \<Rightarrow> int \<Rightarrow> bool \<Rightarrow> (store \<times> slm \<times> nat) res" where
  "SplitCell3 st m insertAfter header_start tail_end read =
     rbind (deref (c_expr (heap st insertAfter))) (\<lambda>E.
     let p1_a = adr st insertAfter;
         p1_s = header_start - p1_a;
         p3_a = tail_end;
         p3_s = endp st insertAfter - tail_end;
         p2_a = p1_a + p1_s;
         p2_s = p3_a - p2_a;
         e1 = ExtractExpr E 0 p1_s;
         e3 = ExtractExpr E (p3_a - p1_a) (p3_a - p1_a + p3_s);
         e2 = ExtractExpr E (p2_a - p1_a) (p2_a - p1_a + p2_s);
         (p3, st) = alloc (new_cell p3_a p3_s (Some e3)) st;
         (p2, st) = alloc (new_cell p2_a p2_s (Some e2)) st;
         st = upd insertAfter (\<lambda>c. c\<lparr>c_size := p1_s, c_expr := Some e1\<rparr>) st;
         st = set_next p2 (Some p3) (set_prev p2 (Some insertAfter) st);
         st = (case nxt st insertAfter of None \<Rightarrow> st | Some nx \<Rightarrow> set_prev nx (Some p3) st);
         st = set_prev p3 (Some p2) (set_next p3 (nxt st insertAfter) st);
         st = set_next insertAfter (Some p2) st;
         m = (if read then m
              else m\<lparr>m_sm := (m_sm m)(ADDR_TO_KEY p3_a \<mapsto> p3, ADDR_TO_KEY p2_a \<mapsto> p2,
                                       ADDR_TO_KEY p1_a \<mapsto> insertAfter)\<rparr>)
     in Inr (st, m, p3))"

definition SeplitCell_Head :: "store \<Rightarrow> slm \<Rightarrow> nat \<Rightarrow> int \<Rightarrow> bool \<Rightarrow> (store \<times> slm) res" where
  "SeplitCell_Head st m insertAfter header_start read =
     rbind (deref (c_expr (heap st insertAfter))) (\<lambda>E.
     let p1_a = adr st insertAfter;
         p2_a = header_start;
         p1_s = header_start - p1_a;
         p2_s = endp st insertAfter - header_start;
         e1 = ExtractExpr E 0 p1_s;
         e2 = ExtractExpr E (p2_a - p1_a) (p2_a - p1_a + p2_s);
         (p2, st) = alloc (new_cell p2_a p2_s (Some e2)) st;
         st = upd insertAfter (\<lambda>c. c\<lparr>c_size := p1_s, c_expr := Some e1\<rparr>) st;
         st = set_next p2 (nxt st insertAfter) st;
         st = (case nxt st insertAfter of None \<Rightarrow> st | Some nx \<Rightarrow> set_prev nx (Some p2) st);
         st = set_next insertAfter (Some p2) (set_prev p2 (Some insertAfter) st);
         m = (if read then m
              else m\<lparr>m_sm := (m_sm m)(ADDR_TO_KEY p2_a \<mapsto> p2, ADDR_TO_KEY p1_a \<mapsto> insertAfter)\<rparr>)
     in Inr (st, m))"

definition SeplitCell_Tail :: "store \<Rightarrow> slm \<Rightarrow> nat \<Rightarrow> int \<Rightarrow> bool \<Rightarrow> (store \<times> slm) res" where
  "SeplitCell_Tail st m insertBefore tail_end read =
     rbind (deref (c_expr (heap st insertBefore))) (\<lambda>E.
     let p2_a = tail_end;
         p1_a = adr st insertBefore;
         p2_s = endp st insertBefore - tail_end;
         p1_s = tail_end - p1_a;
         e2 = ExtractExpr E (tail_end - p1_a) (tail_end - p1_a + p2_s);
         e1 = ExtractExpr E 0 p1_s;
         (p1, st) = alloc (new_cell p1_a p1_s (Some e1)) st;
         st = upd insertBefore (\<lambda>c. c\<lparr>c_addr := p2_a, c_size := p2_s, c_expr := Some e2\<rparr>) st;
         st = (case prv st insertBefore of None \<Rightarrow> st | Some pv \<Rightarrow> set_next pv (Some p1) st);
         st = set_next p1 (Some insertBefore) st;
         st = set_prev p1 (prv st insertBefore) st;
         st = set_prev insertBefore (Some p1) st;
         m = (if read then m
              else m\<lparr>m_sm := (m_sm m)(ADDR_TO_KEY p2_a \<mapsto> insertBefore, ADDR_TO_KEY p1_a \<mapsto> p1)\<rparr>)
     in Inr (st, m))"

text \<open>Returns the new value of insertBefore, which the three-way split changes.\<close>

definition Split_Head_Tail ::
    "store \<Rightarrow> slm \<Rightarrow> nat \<Rightarrow> nat \<Rightarrow> int \<Rightarrow> int \<Rightarrow> bool \<Rightarrow> (store \<times> slm \<times> nat) res" where
  "Split_Head_Tail st m insertAfter insertBefore header_start tail_end read =
     (if insertAfter = insertBefore
      then (if tail_end \<le> endp st insertAfter
            then SplitCell3 st m insertAfter header_start tail_end read
            else Inr (st, m, insertBefore))
      else rbind (if header_start < endp st insertAfter
                  then SeplitCell_Head st m insertAfter header_start read else Inr (st, m))
             (\<lambda>(st, m).
           rbind (if adr st insertBefore < tail_end
                  then SeplitCell_Tail st m insertBefore tail_end read else Inr (st, m))
             (\<lambda>(st, m). Inr (st, m, insertBefore))))"

text \<open>The loop of the private Remove that takes the keys of the cells between out of the index.\<close>

fun erase_loop :: "nat \<Rightarrow> store \<Rightarrow> (int \<rightharpoonup> nat) \<Rightarrow> nat option \<Rightarrow> nat \<Rightarrow> (int \<rightharpoonup> nat) res" where
  "erase_loop 0 st ix p q = Inl Diverges"
| "erase_loop (Suc n) st ix p q =
     (if p = Some q then Inr ix
      else rbind (deref p) (\<lambda>r. erase_loop n st (ix(ADDR_TO_KEY (adr st r) := None)) (nxt st r) q))"

definition Remove_between :: "store \<Rightarrow> slm \<Rightarrow> nat \<Rightarrow> nat \<Rightarrow> (store \<times> slm) res" where
  "Remove_between st m insertAfter insertBefore =
     rbind (erase_loop (fresh st + 1) st (m_sm m) (nxt st insertAfter) insertBefore) (\<lambda>ix.
     Inr (set_prev insertBefore (Some insertAfter) (set_next insertAfter (Some insertBefore) st),
          m\<lparr>m_sm := ix\<rparr>))"

fun last_cell :: "nat \<Rightarrow> store \<Rightarrow> nat \<Rightarrow> nat res" where
  "last_cell 0 st t = Inl Diverges"
| "last_cell (Suc n) st t = (case nxt st t of None \<Rightarrow> Inr t | Some u \<Rightarrow> last_cell n st u)"

fun index_loop :: "nat \<Rightarrow> store \<Rightarrow> (int \<rightharpoonup> nat) \<Rightarrow> nat \<Rightarrow> nat \<Rightarrow> (int \<rightharpoonup> nat) res" where
  "index_loop 0 st ix h t = Inl Diverges"
| "index_loop (Suc n) st ix h t =
     (let ix = ix(ADDR_TO_KEY (adr st h) \<mapsto> h)
      in if h = t then Inr ix else rbind (deref (nxt st h)) (\<lambda>h'. index_loop n st ix h' t))"

definition Merge :: "store \<Rightarrow> slm \<Rightarrow> nat option \<Rightarrow> (store \<times> slm) res" where
  "Merge st m src_list =
     rbind (deref src_list) (\<lambda>h.
     rbind (last_cell (fresh st + 1) st h) (\<lambda>t.
     let header_start = adr st h; tail_end = endp st t
     in rbind (GetAffectedCells st m header_start tail_end) (\<lambda>(insertAfter, insertBefore).
     rbind (Split_Head_Tail st m insertAfter insertBefore header_start tail_end False)
       (\<lambda>(st, m, insertBefore).
     rbind (Remove_between st m insertAfter insertBefore) (\<lambda>(st, m).
     let st = set_prev h (Some insertAfter) (set_next insertAfter (Some h) st);
         st = set_next t (Some insertBefore) (set_prev insertBefore (Some t) st)
     in rbind (index_loop (fresh st + 1) st (m_sm m) h t) (\<lambda>ix. Inr (st, m\<lparr>m_sm := ix\<rparr>)))))))"

definition Remove :: "store \<Rightarrow> slm \<Rightarrow> int \<Rightarrow> int \<Rightarrow> (store \<times> slm) res" where
  "Remove st m addr sz =
     rbind (GetAffectedCells st m addr (addr + sz)) (\<lambda>(insertAfter, insertBefore).
     rbind (Split_Head_Tail st m insertAfter insertBefore addr (addr + sz) False)
       (\<lambda>(st, m, insertBefore). Remove_between st m insertAfter insertBefore))"

text \<open>
  The copies of CreateSymbolList, made from the last affected cell back to the first. The loop
  returns the copy of the cell it stops at; the copies link to each other only.
\<close>

fun copy_back :: "nat \<Rightarrow> store \<Rightarrow> nat \<Rightarrow> nat \<Rightarrow> nat option \<Rightarrow> (store \<times> nat) res" where
  "copy_back 0 st it after tmp = Inl Diverges"
| "copy_back (Suc n) st it after tmp =
     (let (c, st) = alloc (copy_cell (heap st it)) st;
          st = set_next c tmp st;
          st = (case tmp of None \<Rightarrow> st | Some t \<Rightarrow> set_prev t (Some c) st)
      in if it = after then Inr (st, c)
         else rbind (deref (prv st it)) (\<lambda>it'. copy_back n st it' after (Some c)))"

definition CreateSymbolList :: "store \<Rightarrow> nat \<Rightarrow> nat \<Rightarrow> (store \<times> nat \<times> nat) res" where
  "CreateSymbolList st after before =
     rbind (copy_back (fresh st + 1) st before after None) (\<lambda>(st, after').
     rbind (last_cell (fresh st + 1) st after') (\<lambda>before'. Inr (st, after', before')))"

fun rebase_loop :: "nat \<Rightarrow> store \<Rightarrow> nat option \<Rightarrow> int \<Rightarrow> store res" where
  "rebase_loop 0 st p a = Inl Diverges"
| "rebase_loop (Suc n) st p a =
     (case p of None \<Rightarrow> Inr st
      | Some t \<Rightarrow> let st = upd t (\<lambda>c. c\<lparr>c_addr := c_addr c - a\<rparr>) st in rebase_loop n st (nxt st t) a)"

definition GetCellList :: "store \<Rightarrow> slm \<Rightarrow> int \<Rightarrow> int \<Rightarrow> (store \<times> nat option) res" where
  "GetCellList st m addr sz =
     rbind (GetAffectedCells st m addr (addr + sz)) (\<lambda>(after, before).
     rbind (CreateSymbolList st after before) (\<lambda>(st, after, before).
     rbind (Split_Head_Tail st m after before addr (addr + sz) True) (\<lambda>(st, m, before).
     rbind (deref (prv st before)) (\<lambda>bp.
     let st = set_next bp None st; cellList = nxt st after
     in rbind (deref (nxt st after)) (\<lambda>an.
     let st = set_prev an None st
     in rbind (rebase_loop (fresh st + 1) st cellList addr) (\<lambda>st. Inr (st, cellList)))))))"

definition c_val :: "u64 \<Rightarrow> int \<Rightarrow> u64 res" where
  "c_val v i = (if 0 \<le> i \<and> i < 8 then Inr (drop_bit (8 * nat i) v AND 0xFF) else Inl OutOfBounds)"

text \<open>The vectors exprs, offsets and sizes as one list of triples.\<close>

fun concrete_gap :: "nat \<Rightarrow> u64 \<Rightarrow> int \<Rightarrow> int \<Rightarrow> (expr \<times> int \<times> int) list res" where
  "concrete_gap 0 v pos lim = Inr []"
| "concrete_gap (Suc n) v pos lim =
     (if pos < lim
      then rbind (c_val v pos) (\<lambda>b.
           rbind (concrete_gap n v (pos + 1) lim) (\<lambda>xs. Inr ((ConstExpr b 1 0, pos, 1) # xs)))
      else Inr [])"

fun expr_parts :: "nat \<Rightarrow> store \<Rightarrow> u64 \<Rightarrow> nat option \<Rightarrow> int \<Rightarrow> int \<Rightarrow> (expr \<times> int \<times> int) list res" where
  "expr_parts 0 st v p pos sz = Inl Diverges"
| "expr_parts (Suc n) st v p pos sz =
     (case p of
        None \<Rightarrow> concrete_gap (nat (sz - pos)) v pos sz
      | Some t \<Rightarrow>
          rbind (concrete_gap (nat (adr st t - pos)) v pos (adr st t)) (\<lambda>gap.
          rbind (deref (c_expr (heap st t))) (\<lambda>e.
          rbind (expr_parts n st v (nxt st t) (endp st t) sz) (\<lambda>rest.
          Inr (gap @ (e, adr st t, siz st t) # rest)))))"

definition GetExpr :: "store \<Rightarrow> slm \<Rightarrow> int \<Rightarrow> int \<Rightarrow> u64 \<Rightarrow> (store \<times> expr) res" where
  "GetExpr st m addr sz concreteV =
     rbind (GetCellList st m addr sz) (\<lambda>(st, cellList).
     rbind (expr_parts (fresh st + 1) st concreteV cellList 0 sz) (\<lambda>ps.
     if 1 < length ps
     then Inr (st, CombineMultiExpr (map fst ps) (map (fst \<circ> snd) ps) (map (snd \<circ> snd) ps) sz 0)
     else rbind (deref cellList) (\<lambda>c. rbind (deref (c_expr (heap st c))) (\<lambda>e. Inr (st, e)))))"


declare affected_loop.simps(2) [simp del] erase_loop.simps(2) [simp del] last_cell.simps(2) [simp del]
  index_loop.simps(2) [simp del] copy_back.simps(2) [simp del] rebase_loop.simps(2) [simp del]
  expr_parts.simps(2) [simp del] concrete_gap.simps(2) [simp del]

section \<open>Heap lemmas\<close>

lemma heap_upd [simp]: "heap (upd p f st) q = (if q = p then f (heap st p) else heap st q)"
  by (simp add: upd_def)

lemma fresh_upd [simp]: "fresh (upd p f st) = fresh st"
  by (simp add: upd_def)

lemma alloc_eq: "alloc c st = (fresh st, st\<lparr>heap := (heap st)(fresh st := c), fresh := Suc (fresh st)\<rparr>)"
  by (simp add: alloc_def)

section \<open>Paths\<close>

text \<open>A list of cells each of which points to the next and back.\<close>

fun linked :: "store \<Rightarrow> nat list \<Rightarrow> bool" where
  "linked st [] = True"
| "linked st [p] = True"
| "linked st (p # q # ps) = (nxt st p = Some q \<and> prv st q = Some p \<and> linked st (q # ps))"

lemma linked_append:
  "linked st (xs @ ys) \<longleftrightarrow> linked st xs \<and> linked st ys \<and>
     (xs \<noteq> [] \<longrightarrow> ys \<noteq> [] \<longrightarrow> nxt st (last xs) = Some (hd ys) \<and> prv st (hd ys) = Some (last xs))"
proof (induction xs rule: linked.induct)
  case (2 st p)
  then show ?case by (cases ys) auto
qed auto

lemma linked_Cons:
  "linked st (x # ys) \<longleftrightarrow> linked st ys \<and>
     (ys \<noteq> [] \<longrightarrow> nxt st x = Some (hd ys) \<and> prv st (hd ys) = Some x)"
  by (cases ys) auto

lemma linked_cong:
  assumes "\<And>p. p \<in> set (butlast xs) \<Longrightarrow> nxt st' p = nxt st p"
    and "\<And>p. p \<in> set (tl xs) \<Longrightarrow> prv st' p = prv st p"
  shows "linked st' xs = linked st xs"
  using assms
proof (induction st xs rule: linked.induct)
  case (3 st p q ps)
  have "linked st' (q # ps) = linked st (q # ps)"
    by (rule "3.IH") (use "3.prems" in \<open>auto split: if_splits dest: in_set_butlastD\<close>)
  with "3.prems" show ?case by auto
qed auto

lemma linked_nth:
  "linked st ps \<Longrightarrow> Suc k < length ps \<Longrightarrow>
     nxt st (ps ! k) = Some (ps ! Suc k) \<and> prv st (ps ! Suc k) = Some (ps ! k)"
proof (induction st ps arbitrary: k rule: linked.induct)
  case (3 st p q ps)
  then show ?case by (cases k) auto
qed auto

text \<open>The entry of a cell, and the order of the cells of a list between two addresses.\<close>

definition entry :: "store \<Rightarrow> nat \<Rightarrow> int \<times> int \<times> expr option" where
  "entry st p = (adr st p, siz st p, c_expr (heap st p))"

fun ordered :: "int \<Rightarrow> (int \<times> int \<times> expr option) list \<Rightarrow> int \<Rightarrow> bool" where
  "ordered lo [] hi = (lo \<le> hi)"
| "ordered lo ((a, s, e) # es) hi = (lo \<le> a \<and> 0 \<le> s \<and> ordered (a + s) es hi)"

lemma ordered_le: "ordered lo es hi \<Longrightarrow> lo \<le> hi"
  by (induction lo es hi rule: ordered.induct) auto

lemma ordered_append: "ordered lo (xs @ ys) hi \<longleftrightarrow> (\<exists>m. ordered lo xs m \<and> ordered m ys hi)"
proof (induction xs arbitrary: lo)
  case Nil
  have "ordered m ys hi \<Longrightarrow> lo \<le> m \<Longrightarrow> ordered lo ys hi" for m
    by (cases ys) (auto, (metis surj_pair ordered.simps(2) order_trans)?)
  then show ?case by auto
next
  case (Cons x xs)
  then show ?case by (cases x) auto
qed

lemma ordered_bounds:
  "ordered lo es hi \<Longrightarrow> (a, s, e) \<in> set es \<Longrightarrow> lo \<le> a \<and> 0 \<le> s \<and> a + s \<le> hi"
  by (induction lo es hi rule: ordered.induct) (auto dest: ordered_le)

text \<open>The byte of an expression that a list of cells holds at an address.\<close>

fun lookup :: "(int \<times> int \<times> expr option) list \<Rightarrow> int \<Rightarrow> (expr \<times> int) option" where
  "lookup [] x = None"
| "lookup ((a, s, e) # es) x =
     (if a \<le> x \<and> x < a + s then map_option (\<lambda>E. byte_ref E (x - a)) e else lookup es x)"

lemma lookup_outside: "ordered lo es hi \<Longrightarrow> x < lo \<or> hi \<le> x \<Longrightarrow> lookup es x = None"
  by (induction lo es hi rule: ordered.induct) (auto dest: ordered_le)

lemma lookup_append:
  assumes "ordered lo xs m" "ordered m ys hi"
  shows "lookup (xs @ ys) x = (if x < m then lookup xs x else lookup ys x)"
  using assms(1)
proof (induction xs arbitrary: lo)
  case Nil
  then show ?case using lookup_outside [OF assms(2)] by auto
next
  case (Cons y es)
  obtain a s e where y: "y = (a, s, e)" by (cases y)
  then show ?case
    using Cons lookup_outside [of "a + s" es m] ordered_le [of "a + s" es m] by auto
qed

subsection \<open>The splits\<close>

text \<open>
  What is common to the three splits: the links of the new path, the cells the path does not
  hold are untouched, no cell of the old path but those at the split changes its entry.
\<close>

definition path_of :: "store \<Rightarrow> nat list \<Rightarrow> bool" where
  "path_of st ps \<longleftrightarrow> linked st ps \<and> distinct ps \<and> (\<forall>p \<in> set ps. p < fresh st)"

definition untouched :: "store \<Rightarrow> store \<Rightarrow> nat set \<Rightarrow> bool" where
  "untouched st st' X \<longleftrightarrow> fresh st \<le> fresh st' \<and> (\<forall>q. q \<notin> X \<longrightarrow> q < fresh st \<longrightarrow> heap st' q = heap st q)"

lemma SplitCell3_ok:
  assumes p: "path_of st (A @ ia # B)" and nx: "nxt st ia = (if B = [] then None else Some (hd B))"
    and E: "c_expr (heap st ia) = Some E"
  obtains st' p2 p3 where
    "SplitCell3 st m ia hs te rd = Inr (st', if rd then m
       else m\<lparr>m_sm := (m_sm m)(ADDR_TO_KEY te \<mapsto> p3, ADDR_TO_KEY hs \<mapsto> p2, ADDR_TO_KEY (adr st ia) \<mapsto> ia)\<rparr>, p3)"
    "path_of st' (A @ ia # p2 # p3 # B)"
    "untouched st st' (set (A @ ia # B))" "fresh st \<le> p2" "fresh st \<le> p3"
    "entry st' ia = (adr st ia, hs - adr st ia, Some (ExtractExpr E 0 (hs - adr st ia)))"
    "entry st' p2 = (hs, te - hs, Some (ExtractExpr E (hs - adr st ia) (te - adr st ia)))"
    "entry st' p3 = (te, endp st ia - te, Some (ExtractExpr E (te - adr st ia) (siz st ia)))"
    "\<forall>q \<in> set A \<union> set B. entry st' q = entry st q"
    "prv st' ia = prv st ia" "B = [] \<longrightarrow> nxt st' p3 = None"
proof -
  define a where "a = adr st ia"
  define n where "n = fresh st"
  define st' where "st' = fst (projr (SplitCell3 st m ia hs te rd))"
  have ne: "ia < n" "ia \<noteq> n" "ia \<noteq> Suc n" using p by (auto simp: path_of_def n_def)
  have r: "SplitCell3 st m ia hs te rd = Inr (st', if rd then m
       else m\<lparr>m_sm := (m_sm m)(ADDR_TO_KEY te \<mapsto> n, ADDR_TO_KEY hs \<mapsto> Suc n, ADDR_TO_KEY a \<mapsto> ia)\<rparr>, n)"
    using ne by (simp add: st'_def SplitCell3_def E alloc_eq Let_def a_def n_def)
  have h: "heap st' q =
     (if q = ia then \<lparr>c_next = Some (Suc n), c_prev = prv st ia, c_addr = a, c_size = hs - a,
        c_expr = Some (ExtractExpr E 0 (hs - a))\<rparr>
      else if q = Suc n then \<lparr>c_next = Some n, c_prev = Some ia, c_addr = hs, c_size = te - hs,
        c_expr = Some (ExtractExpr E (hs - a) (te - a))\<rparr>
      else if q = n then \<lparr>c_next = (if B = [] then None else Some (hd B)), c_prev = Some (Suc n),
        c_addr = te, c_size = endp st ia - te, c_expr = Some (ExtractExpr E (te - a) (siz st ia))\<rparr>
      else if B \<noteq> [] \<and> q = hd B then (heap st q)\<lparr>c_prev := Some n\<rparr> else heap st q)" for q
  proof -
    have "B \<noteq> [] \<Longrightarrow> hd B \<noteq> ia \<and> hd B < n"
      using p by (cases B) (auto simp: path_of_def n_def)
    then show ?thesis
      using ne nx by (auto simp: st'_def SplitCell3_def E alloc_eq Let_def a_def n_def new_cell_def)
  qed
  have f: "fresh st' = Suc (Suc n)"
    by (auto simp: st'_def SplitCell3_def E alloc_eq Let_def n_def split: option.split)
  have d: "distinct (A @ ia # B)" and lt: "\<And>q. q \<in> set (A @ ia # B) \<Longrightarrow> q < n"
    and l: "linked st (A @ ia # B)" using p by (auto simp: path_of_def n_def)
  have fr: "Suc n \<notin> set (A @ ia # B)" "n \<notin> set (A @ ia # B)" using lt by fastforce+
  have hd: "B \<noteq> [] \<Longrightarrow> hd B \<in> set B" by simp
  have lA: "linked st' A = linked st A"
    by (rule linked_cong) (use d fr hd in \<open>auto simp: h dest!: in_set_butlastD in_set_tlD\<close>)
  have lB: "linked st' B = linked st B"
  proof (rule linked_cong)
    fix q assume "q \<in> set (butlast B)"
    then show "nxt st' q = nxt st q" using d fr by (auto simp: h dest!: in_set_butlastD)
  next
    fix q assume "q \<in> set (tl B)"
    then show "prv st' q = prv st q" using d fr by (cases B) (auto simp: h)
  qed
  have la: "A \<noteq> [] \<Longrightarrow> last A \<in> set A" by simp
  have hdN: "B \<noteq> [] \<Longrightarrow> hd B \<notin> set A \<and> hd B \<noteq> ia \<and> hd B \<noteq> n \<and> hd B \<noteq> Suc n" using hd d lt [of "hd B"] by auto
  have laN: "A \<noteq> [] \<Longrightarrow> last A \<notin> set B \<and> last A \<noteq> ia \<and> last A \<noteq> n \<and> last A \<noteq> Suc n" using la d lt [of "last A"] by (auto simp: last_not_in)
  have "linked st' (A @ ia # Suc n # n # B)"
    using l lA lB d fr hdN laN unfolding linked_append linked_Cons
    by (cases "A = []"; cases "B = []") (auto simp: h)
  then have pth: "path_of st' (A @ ia # Suc n # n # B)"
    using d fr lt by (auto simp: path_of_def f less_Suc_eq)
  have un: "untouched st st' (set (A @ ia # B))"
    using hd by (auto simp: untouched_def f h n_def)
  have en: "entry st' q = entry st q" if "q \<in> set A \<union> set B" for q
    using that d fr by (auto simp: entry_def h)
  show ?thesis
    by (rule that [OF r [unfolded a_def] pth un])
      (use ne en in \<open>auto simp: entry_def h a_def n_def\<close>)
qed

lemma SeplitCell_Head_ok:
  assumes p: "path_of st (A @ ia # B)" and nx: "nxt st ia = (if B = [] then None else Some (hd B))"
    and E: "c_expr (heap st ia) = Some E"
  obtains st' p2 where
    "SeplitCell_Head st m ia hs rd = Inr (st', if rd then m
       else m\<lparr>m_sm := (m_sm m)(ADDR_TO_KEY hs \<mapsto> p2, ADDR_TO_KEY (adr st ia) \<mapsto> ia)\<rparr>)"
    "path_of st' (A @ ia # p2 # B)"
    "untouched st st' (set (A @ ia # B))" "fresh st \<le> p2"
    "entry st' ia = (adr st ia, hs - adr st ia, Some (ExtractExpr E 0 (hs - adr st ia)))"
    "entry st' p2 = (hs, endp st ia - hs, Some (ExtractExpr E (hs - adr st ia) (siz st ia)))"
    "\<forall>q \<in> set A \<union> set B. entry st' q = entry st q"
    "prv st' ia = prv st ia" "\<forall>q \<in> set B. nxt st' q = nxt st q"
proof -
  define a where "a = adr st ia"
  define n where "n = fresh st"
  define st' where "st' = fst (projr (SeplitCell_Head st m ia hs rd))"
  have ne: "ia < n" "ia \<noteq> n" using p by (auto simp: path_of_def n_def)
  have r: "SeplitCell_Head st m ia hs rd = Inr (st', if rd then m
       else m\<lparr>m_sm := (m_sm m)(ADDR_TO_KEY hs \<mapsto> n, ADDR_TO_KEY a \<mapsto> ia)\<rparr>)"
    using ne by (simp add: st'_def SeplitCell_Head_def E alloc_eq Let_def a_def n_def)
  have h: "heap st' q =
     (if q = ia then \<lparr>c_next = Some n, c_prev = prv st ia, c_addr = a, c_size = hs - a,
        c_expr = Some (ExtractExpr E 0 (hs - a))\<rparr>
      else if q = n then \<lparr>c_next = (if B = [] then None else Some (hd B)), c_prev = Some ia,
        c_addr = hs, c_size = endp st ia - hs, c_expr = Some (ExtractExpr E (hs - a) (siz st ia))\<rparr>
      else if B \<noteq> [] \<and> q = hd B then (heap st q)\<lparr>c_prev := Some n\<rparr> else heap st q)" for q
  proof -
    have "B \<noteq> [] \<Longrightarrow> hd B \<noteq> ia \<and> hd B < n"
      using p by (cases B) (auto simp: path_of_def n_def)
    then show ?thesis
      using ne nx by (auto simp: st'_def SeplitCell_Head_def E alloc_eq Let_def a_def n_def new_cell_def)
  qed
  have f: "fresh st' = Suc n"
    by (auto simp: st'_def SeplitCell_Head_def E alloc_eq Let_def n_def split: option.split)
  have d: "distinct (A @ ia # B)" and lt: "\<And>q. q \<in> set (A @ ia # B) \<Longrightarrow> q < n"
    and l: "linked st (A @ ia # B)" using p by (auto simp: path_of_def n_def)
  have fr: "n \<notin> set (A @ ia # B)" using lt by fastforce
  have hd: "B \<noteq> [] \<Longrightarrow> hd B \<in> set B" by simp
  have lA: "linked st' A = linked st A"
    by (rule linked_cong) (use d fr hd in \<open>auto simp: h dest!: in_set_butlastD in_set_tlD\<close>)
  have lB: "linked st' B = linked st B"
  proof (rule linked_cong)
    fix q assume "q \<in> set (butlast B)"
    then show "nxt st' q = nxt st q" using d fr by (auto simp: h dest!: in_set_butlastD)
  next
    fix q assume "q \<in> set (tl B)"
    then show "prv st' q = prv st q" using d fr by (cases B) (auto simp: h)
  qed
  have la: "A \<noteq> [] \<Longrightarrow> last A \<in> set A" by simp
  have hdN: "B \<noteq> [] \<Longrightarrow> hd B \<notin> set A \<and> hd B \<noteq> ia \<and> hd B \<noteq> n \<and> hd B \<noteq> Suc n" using hd d lt [of "hd B"] by auto
  have laN: "A \<noteq> [] \<Longrightarrow> last A \<notin> set B \<and> last A \<noteq> ia \<and> last A \<noteq> n \<and> last A \<noteq> Suc n" using la d lt [of "last A"] by (auto simp: last_not_in)
  have "linked st' (A @ ia # n # B)"
    using l lA lB d fr hdN laN unfolding linked_append linked_Cons
    by (cases "A = []"; cases "B = []") (auto simp: h)
  then have pth: "path_of st' (A @ ia # n # B)"
    using d fr lt by (auto simp: path_of_def f less_Suc_eq)
  have un: "untouched st st' (set (A @ ia # B))"
    using hd by (auto simp: untouched_def f h n_def)
  have en: "entry st' q = entry st q" if "q \<in> set A \<union> set B" for q
    using that d fr by (auto simp: entry_def h)
  have nn: "nxt st' q = nxt st q" if "q \<in> set B" for q
    using that d fr by (auto simp: h)
  show ?thesis
    by (rule that [OF r [unfolded a_def] pth un])
      (use ne en nn in \<open>auto simp: entry_def h a_def n_def\<close>)
qed

lemma SeplitCell_Tail_ok:
  assumes p: "path_of st (A @ ib # B)" and pv: "prv st ib = (if A = [] then None else Some (last A))"
    and E: "c_expr (heap st ib) = Some E"
  obtains st' p1 where
    "SeplitCell_Tail st m ib te rd = Inr (st', if rd then m
       else m\<lparr>m_sm := (m_sm m)(ADDR_TO_KEY te \<mapsto> ib, ADDR_TO_KEY (adr st ib) \<mapsto> p1)\<rparr>)"
    "path_of st' (A @ p1 # ib # B)"
    "untouched st st' (set (A @ ib # B))" "fresh st \<le> p1"
    "entry st' p1 = (adr st ib, te - adr st ib, Some (ExtractExpr E 0 (te - adr st ib)))"
    "entry st' ib = (te, endp st ib - te, Some (ExtractExpr E (te - adr st ib) (siz st ib)))"
    "\<forall>q \<in> set A \<union> set B. entry st' q = entry st q"
    "nxt st' ib = nxt st ib" "\<forall>q \<in> set A. prv st' q = prv st q"
proof -
  define a where "a = adr st ib"
  define n where "n = fresh st"
  define st' where "st' = fst (projr (SeplitCell_Tail st m ib te rd))"
  have ne: "ib < n" "ib \<noteq> n" using p by (auto simp: path_of_def n_def)
  have r: "SeplitCell_Tail st m ib te rd = Inr (st', if rd then m
       else m\<lparr>m_sm := (m_sm m)(ADDR_TO_KEY te \<mapsto> ib, ADDR_TO_KEY a \<mapsto> n)\<rparr>)"
    using ne by (simp add: st'_def SeplitCell_Tail_def E alloc_eq Let_def a_def n_def)
  have h: "heap st' q =
     (if q = ib then \<lparr>c_next = nxt st ib, c_prev = Some n, c_addr = te, c_size = endp st ib - te,
        c_expr = Some (ExtractExpr E (te - a) (siz st ib))\<rparr>
      else if q = n then \<lparr>c_next = Some ib, c_prev = (if A = [] then None else Some (last A)),
        c_addr = a, c_size = te - a, c_expr = Some (ExtractExpr E 0 (te - a))\<rparr>
      else if A \<noteq> [] \<and> q = last A then (heap st q)\<lparr>c_next := Some n\<rparr> else heap st q)" for q
  proof -
    have "A \<noteq> [] \<Longrightarrow> last A \<in> set A" by simp
    then have "A \<noteq> [] \<Longrightarrow> last A \<noteq> ib \<and> last A < n"
      using p by (auto simp: path_of_def n_def)
    then show ?thesis
      using ne pv by (auto simp: st'_def SeplitCell_Tail_def E alloc_eq Let_def a_def n_def new_cell_def)
  qed
  have f: "fresh st' = Suc n"
    by (auto simp: st'_def SeplitCell_Tail_def E alloc_eq Let_def n_def split: option.split)
  have d: "distinct (A @ ib # B)" and lt: "\<And>q. q \<in> set (A @ ib # B) \<Longrightarrow> q < n"
    and l: "linked st (A @ ib # B)" using p by (auto simp: path_of_def n_def)
  have fr: "n \<notin> set (A @ ib # B)" using lt by fastforce
  have hd: "B \<noteq> [] \<Longrightarrow> hd B \<in> set B" by simp
  have la: "A \<noteq> [] \<Longrightarrow> last A \<in> set A" by simp
  have hdN: "B \<noteq> [] \<Longrightarrow> hd B \<notin> set A \<and> hd B \<noteq> ib \<and> hd B \<noteq> n \<and> hd B \<noteq> Suc n" using hd d lt [of "hd B"] by auto
  have laN: "A \<noteq> [] \<Longrightarrow> last A \<notin> set B \<and> last A \<noteq> ib \<and> last A \<noteq> n \<and> last A \<noteq> Suc n" using la d lt [of "last A"] by (auto simp: last_not_in)
  have lA: "linked st' A = linked st A"
  proof (rule linked_cong)
    fix q assume q: "q \<in> set (butlast A)"
    then have "q \<noteq> last A" using d by (auto dest: distinct_butlast_last)
    then show "nxt st' q = nxt st q" using q d fr by (auto simp: h dest!: in_set_butlastD)
  next
    fix q assume "q \<in> set (tl A)"
    then show "prv st' q = prv st q" using d fr la by (auto simp: h dest!: in_set_tlD)
  qed
  have lB: "linked st' B = linked st B"
    by (rule linked_cong) (use d fr laN in \<open>auto simp: h dest!: in_set_butlastD in_set_tlD\<close>)
  have "linked st' (A @ n # ib # B)"
    using l lA lB d fr hdN laN unfolding linked_append linked_Cons
    by (cases "A = []"; cases "B = []") (auto simp: h)
  then have pth: "path_of st' (A @ n # ib # B)"
    using d fr lt by (auto simp: path_of_def f less_Suc_eq)
  have un: "untouched st st' (set (A @ ib # B))"
    using la by (auto simp: untouched_def f h n_def)
  have en: "entry st' q = entry st q" if "q \<in> set A \<union> set B" for q
    using that d fr by (auto simp: entry_def h)
  have nn: "prv st' q = prv st q" if "q \<in> set A" for q
    using that d fr by (auto simp: h)
  show ?thesis
    by (rule that [OF r [unfolded a_def] pth un])
      (use ne en nn in \<open>auto simp: entry_def h a_def n_def\<close>)
qed

subsection \<open>The invariant of a list\<close>

definition good_cell :: "store \<Rightarrow> nat \<Rightarrow> bool" where
  "good_cell st p \<longleftrightarrow> 0 < siz st p \<and> c_expr (heap st p) \<noteq> None \<and>
     - (2 ^ 58) \<le> adr st p \<and> endp st p < 2 ^ 58 \<and> adr st p \<noteq> - 1"

text \<open>
  The keys of the index: minus one for the header, and the masked address of every other cell.
\<close>

definition index_rel :: "store \<Rightarrow> nat \<Rightarrow> (int \<rightharpoonup> nat) \<Rightarrow> nat set \<Rightarrow> bool" where
  "index_rel st h ix S \<longleftrightarrow>
     ix (- 1) = Some h \<and> (\<forall>p \<in> S. ix (ADDR_TO_KEY (adr st p)) = Some p) \<and>
     dom ix = insert (- 1) ((\<lambda>p. ADDR_TO_KEY (adr st p)) ` S)"

definition index_ok :: "store \<Rightarrow> slm \<Rightarrow> nat list \<Rightarrow> bool" where
  "index_ok st m ps \<longleftrightarrow> index_rel st (m_listheader m) (m_sm m) (set ps \<union> {m_listtail m})"

abbreviation full_path :: "slm \<Rightarrow> nat list \<Rightarrow> nat list" where
  "full_path m ps \<equiv> m_listheader m # ps @ [m_listtail m]"

definition slm_ok :: "store \<Rightarrow> slm \<Rightarrow> nat list \<Rightarrow> bool" where
  "slm_ok st m ps \<longleftrightarrow>
     path_of st (full_path m ps) \<and>
     ordered header_addr (map (entry st) (full_path m ps)) tail_addr \<and>
     adr st (m_listheader m) = header_addr \<and> siz st (m_listheader m) = 0 \<and>
     adr st (m_listtail m) = tail_addr \<and> siz st (m_listtail m) = 0 \<and>
     list_all (good_cell st) ps \<and> index_ok st m ps"

text \<open>The bytes a list holds.\<close>

definition contents :: "store \<Rightarrow> nat list \<Rightarrow> int \<Rightarrow> (expr \<times> int) option" where
  "contents st ps = lookup (map (entry st) ps)"

text \<open>
  The ranges the operations are specified for: not empty, in the part of the address space
  whose keys are distinct, and not touching address minus one, whose key is that of the tail.
\<close>

definition op_range :: "int \<Rightarrow> int \<Rightarrow> bool" where
  "op_range a n \<longleftrightarrow> 0 < n \<and> - (2 ^ 58) \<le> a \<and> a + n < 2 ^ 58 \<and> \<not> (a \<le> - 1 \<and> - 1 \<le> a + n)"

lemma ADDR_TO_KEY_mod: "ADDR_TO_KEY a = a mod 2 ^ 59"
proof -
  have "(0x7FFFFFFFFFFFFFF :: int) = mask 59" by (simp add: mask_eq_exp_minus_1)
  then show ?thesis unfolding ADDR_TO_KEY_def by (simp only: take_bit_eq_mask [symmetric] take_bit_eq_mod)
qed

definition key_range :: "int \<Rightarrow> bool" where
  "key_range a \<longleftrightarrow> (- (2 ^ 58) \<le> a \<and> a < 2 ^ 58 \<and> a \<noteq> - 1) \<or> a = tail_addr"

lemma key_eq_tail: "ADDR_TO_KEY tail_addr = ADDR_TO_KEY (- 1)"
  by (simp add: ADDR_TO_KEY_mod tail_addr_def)

lemma key_inj:
  assumes "key_range a" "key_range b" "ADDR_TO_KEY a = ADDR_TO_KEY b"
  shows "a = b"
proof -
  have small: "x = y" if "x mod 2 ^ 59 = y mod 2 ^ 59" "- (2 ^ 58) \<le> x" "x < 2 ^ 58"
    "- (2 ^ 58) \<le> y" "y < 2 ^ 58" for x y :: int
  proof -
    have "(2 :: int) ^ 59 dvd x - y" using that(1) by (simp add: mod_eq_dvd_iff)
    then obtain k where k: "x - y = 2 ^ 59 * k" by (elim dvdE)
    have "- (2 ^ 59) < x - y" "x - y < 2 ^ 59" using that(2-5) by simp_all
    then have "2 ^ 59 * (- 1) < (2 ^ 59 :: int) * k" "(2 ^ 59 :: int) * k < 2 ^ 59 * 1"
      unfolding k by simp_all
    then have "- 1 < k" "k < 1" by (auto simp: mult_less_cancel_left)
    then have "k = 0" by simp
    then show ?thesis using k by simp
  qed
  show ?thesis
    using assms small [of a b] small [of a "- 1"] small [of "- 1" b] key_eq_tail
    unfolding key_range_def ADDR_TO_KEY_mod by auto
qed

lemma key_nonneg: "ADDR_TO_KEY a \<noteq> - 1"
proof -
  have "0 \<le> a mod 2 ^ 59" by simp
  then show ?thesis unfolding ADDR_TO_KEY_mod by linarith
qed

lemma entry_simps [simp]: "entry st p = (a, s, e) \<longleftrightarrow> adr st p = a \<and> siz st p = s \<and> c_expr (heap st p) = e"
  by (auto simp: entry_def)

lemma ordered_entry:
  "ordered lo (entry st p # es) hi \<longleftrightarrow> lo \<le> adr st p \<and> 0 \<le> siz st p \<and> ordered (endp st p) es hi"
  by (simp add: entry_def)

lemma ordered_bounds':
  "ordered lo (map (entry st) ps) hi \<Longrightarrow> q \<in> set ps \<Longrightarrow> lo \<le> adr st q \<and> 0 \<le> siz st q \<and> endp st q \<le> hi"
  using ordered_bounds [of lo "map (entry st) ps" hi "adr st q" "siz st q" "c_expr (heap st q)"]
  unfolding entry_def [symmetric] by simp

lemma ordered_sorted:
  "ordered lo (map (entry st) ps) hi \<Longrightarrow> sorted_wrt (\<lambda>p q. endp st p \<le> adr st q) ps"
proof (induction ps arbitrary: lo)
  case (Cons p ps)
  have "endp st p \<le> adr st q" if "q \<in> set ps" for q
    using ordered_bounds' [of "endp st p" st ps hi q] Cons.prems that by (auto simp: ordered_entry)
  with Cons show ?case by (auto simp: ordered_entry)
qed simp

lemma slm_sorted: "slm_ok st m ps \<Longrightarrow> sorted_wrt (\<lambda>p q. endp st p \<le> adr st q) (full_path m ps)"
  unfolding slm_ok_def using ordered_sorted by blast

subsection \<open>The search\<close>

lemma affected_loop_ok:
  assumes lk: "linked st P" and I: "Suc I < length P" and J: "J < length P"
    and A1: "\<And>i. i < I \<Longrightarrow> adr st (P ! Suc i) < hs"
    and A2: "adr st (P ! I) < hs" "hs \<le> adr st (P ! Suc I)"
    and B1: "\<And>j. Suc j < J \<Longrightarrow> endp st (P ! Suc j) \<le> te"
    and B2: "endp st (P ! (J - 1)) \<le> te" "te < endp st (P ! J)"
  shows "0 < n \<Longrightarrow> (if iaf then i = I else i \<le> I \<and> I - i < n) \<Longrightarrow>
     (if ibf then j = J else j < J \<and> J - j \<le> n) \<Longrightarrow>
     affected_loop n st hs te (P ! i) iaf (P ! j) ibf = Inr (P ! I, P ! J)"
proof (induction n arbitrary: i iaf j ibf)
  case 0
  then show ?case by simp
next
  case (Suc n)
  have a: "(if iaf then Inr (P ! i, True) else rbind (deref (nxt st (P ! i))) (\<lambda>nx.
        if adr st (P ! i) < hs \<and> hs \<le> adr st nx then Inr (P ! i, True) else Inr (nx, False)))
      = (if i = I then Inr (P ! I, True) else Inr (P ! Suc i, False))"
    using Suc.prems(2) linked_nth [OF lk, of i] I A1 [of i] A2
    by (cases "i = I") (auto split: if_splits)
  have b: "(if ibf then Inr (P ! j, True) else rbind (deref (nxt st (P ! j))) (\<lambda>nx.
        if endp st (P ! j) \<le> te \<and> te < endp st nx then Inr (nx, True) else Inr (nx, False)))
      = (if j = J \<or> Suc j = J then Inr (P ! J, True) else Inr (P ! Suc j, False))"
    using Suc.prems(3) linked_nth [OF lk, of j] J B1 [of j] B2
    by (cases "Suc j = J"; cases ibf) (auto split: if_splits)
  let ?i = "if i = I then I else Suc i" and ?j = "if j = J then J else Suc j"
  have unf: "affected_loop (Suc n) st hs te (P ! i) iaf (P ! j) ibf =
      (if i = I \<and> ?j = J then Inr (P ! I, P ! J)
       else affected_loop n st hs te (P ! ?i) (i = I) (P ! ?j) (?j = J))"
    unfolding affected_loop.simps(2) a b by auto
  show ?case
  proof (cases "i = I \<and> ?j = J")
    case True
    then show ?thesis unfolding unf by simp
  next
    case False
    have "affected_loop n st hs te (P ! ?i) (i = I) (P ! ?j) (?j = J) = Inr (P ! I, P ! J)"
      by (rule Suc.IH) (use False Suc.prems in \<open>auto split: if_splits\<close>)
    then show ?thesis unfolding unf using False by simp
  qed
qed

lemma slm_ok_path: "slm_ok st m ps \<Longrightarrow> path_of st (full_path m ps)"
  by (simp add: slm_ok_def)

lemma slm_good: "slm_ok st m ps \<Longrightarrow> p \<in> set ps \<Longrightarrow> good_cell st p"
  by (simp add: slm_ok_def list_all_iff)

lemma slm_adr_sorted:
  assumes "slm_ok st m ps"
  shows "sorted_wrt (\<lambda>p q. adr st p < adr st q) (full_path m ps)"
proof -
  have "sorted_wrt (\<lambda>p q. endp st p \<le> adr st q) ps"
    using slm_sorted [OF assms] by (simp add: sorted_wrt_append)
  then have "sorted_wrt (\<lambda>p q. adr st p < adr st q) ps"
    by (rule sorted_wrt_mono_rel [rotated])
      (use slm_good [OF assms] in \<open>fastforce simp: good_cell_def\<close>)
  moreover have "header_addr < adr st p \<and> adr st p < tail_addr" if "p \<in> set ps" for p
    using slm_good [OF assms that] by (auto simp: good_cell_def header_addr_def tail_addr_def)
  ultimately show ?thesis
    using assms by (auto simp: sorted_wrt_append slm_ok_def header_addr_def tail_addr_def)
qed

lemma length_path:
  assumes "path_of st ps" shows "length ps \<le> fresh st"
proof -
  have "length ps = card (set ps)" using assms by (simp add: path_of_def distinct_card)
  also have "\<dots> \<le> card {..<fresh st}"
    by (rule card_mono) (use assms in \<open>auto simp: path_of_def\<close>)
  finally show ?thesis by simp
qed

lemma length_takeWhile_eq:
  assumes "k < length xs" "\<And>i. i < k \<Longrightarrow> Q (xs ! i)" "\<not> Q (xs ! k)"
  shows "length (takeWhile Q xs) = k"
  using takeWhile_eq_take_P_nth [of k xs Q] assms by simp

lemma takeWhile_position:
  assumes "Q (hd xs)" "xs \<noteq> []" "\<not> Q (last xs)"
  shows "\<exists>k. length (takeWhile Q xs) = Suc k \<and> Suc k < length xs \<and>
    (\<forall>i \<le> k. Q (xs ! i)) \<and> \<not> Q (xs ! Suc k)"
proof -
  define n where "n = length (takeWhile Q xs)"
  have "n \<noteq> 0" using assms by (cases xs) (auto simp: n_def)
  moreover have "n < length xs"
    unfolding n_def using assms(2,3) length_takeWhile_le [of Q xs]
    by (metis last_in_set le_neq_implies_less takeWhile_eq_all_conv takeWhile_eq_take take_all_iff verit_comp_simplify1(2))
  moreover have "Q (xs ! i)" if "i < n" for i
    using that takeWhile_nth [of i Q xs] nth_mem [of i "takeWhile Q xs"] set_takeWhileD [of "xs ! i" Q xs]
    by (simp add: n_def)
  moreover have "\<not> Q (xs ! n)" if "n < length xs" using that nth_length_takeWhile [of Q xs] by (simp add: n_def)
  ultimately show ?thesis
    by (intro exI [of _ "n - 1"]) (auto simp: n_def [symmetric])
qed

lemma GetAffectedCells_index:
  assumes ok: "slm_ok st m ps" and hs: "key_range hs" "header_addr < hs" and le: "hs < te" "te < tail_addr"
  defines "P \<equiv> full_path m ps"
  obtains I J where "GetAffectedCells st m hs te = Inr (P ! I, P ! J)"
    "Suc I < length P" "I \<le> J" "0 < J" "J < length P"
    "adr st (P ! I) < hs" "hs \<le> adr st (P ! Suc I)"
    "\<forall>j < J. endp st (P ! j) \<le> te" "te < endp st (P ! J)"
proof -
  let ?h = "m_listheader m" and ?t = "m_listtail m"
  have lk: "linked st P" using slm_ok_path [OF ok] by (simp add: path_of_def P_def)
  have ad: "adr st ?h = header_addr" "siz st ?h = 0" "adr st ?t = tail_addr" "siz st ?t = 0"
    using ok by (auto simp: slm_ok_def)
  have ix: "index_ok st m ps" using ok by (simp add: slm_ok_def)
  have ends: "P \<noteq> []" "hd P = ?h" "last P = ?t" by (simp_all add: P_def)
  have q1: "adr st (hd P) < hs" "\<not> adr st (last P) < hs" unfolding ends ad using hs le by simp_all
  have q2: "endp st (hd P) \<le> te" "\<not> endp st (last P) \<le> te" unfolding ends ad using hs le by simp_all
  obtain I where I: "length (takeWhile (\<lambda>p. adr st p < hs) P) = Suc I" "Suc I < length P"
    "\<And>i. i \<le> I \<Longrightarrow> adr st (P ! i) < hs" "\<not> adr st (P ! Suc I) < hs"
    using takeWhile_position [of "\<lambda>p. adr st p < hs" P, OF q1(1) ends(1) q1(2)] by blast
  obtain K where K: "length (takeWhile (\<lambda>p. endp st p \<le> te) P) = Suc K" "Suc K < length P"
    "\<And>i. i \<le> K \<Longrightarrow> endp st (P ! i) \<le> te" "\<not> endp st (P ! Suc K) \<le> te"
    using takeWhile_position [of "\<lambda>p. endp st p \<le> te" P, OF q2(1) ends(1) q2(2)] by blast
  have so: "endp st (P ! i) \<le> adr st (P ! j)" if "i < j" "j < length P" for i j
    using slm_sorted [OF ok] that unfolding P_def sorted_wrt_iff_nth_less by blast
  have so2: "adr st (P ! i) < adr st (P ! j)" if "i < j" "j < length P" for i j
    using slm_adr_sorted [OF ok] that unfolding P_def sorted_wrt_iff_nth_less by blast
  have IJ: "I \<le> Suc K"
  proof (rule ccontr)
    assume "\<not> I \<le> Suc K"
    then have "endp st (P ! Suc K) \<le> adr st (P ! I)" using so [of "Suc K" I] I(2) by simp
    then show False using I(3) [of I] K(4) le by simp
  qed
  have fuel: "length P \<le> fresh st" using length_path [OF slm_ok_path [OF ok]] by (simp add: P_def)
  have loop: "affected_loop (fresh st + 2) st hs te (P ! i) found (P ! i) False = Inr (P ! I, P ! Suc K)"
    if "(if found then i = I \<and> I < Suc K else i = 0)" for i found
  proof (rule affected_loop_ok [OF lk I(2) K(2)])
    show "adr st (P ! Suc i) < hs" if "i < I" for i using I(3) [of "Suc i"] that by simp
    show "adr st (P ! I) < hs" by (rule I(3)) simp
    show "hs \<le> adr st (P ! Suc I)" using I(4) by simp
    show "endp st (P ! Suc j) \<le> te" if "Suc j < Suc K" for j by (rule K(3)) (use that in simp)
    show "endp st (P ! (Suc K - 1)) \<le> te" by (rule K(3)) simp
    show "te < endp st (P ! Suc K)" using K(4) by simp
    show "0 < fresh st + 2" by simp
    show "if found then i = I else i \<le> I \<and> I - i < fresh st + 2" using that I(2) fuel by (cases found) simp_all
    show "if False then i = Suc K else i < Suc K \<and> Suc K - i \<le> fresh st + 2"
      using that K(2) fuel by (cases found) simp_all
  qed
  have "GetAffectedCells st m hs te = Inr (P ! I, P ! Suc K)"
  proof (cases "m_sm m (ADDR_TO_KEY hs)")
    case None
    then show ?thesis using loop [of False 0] by (simp add: GetAffectedCells_def P_def)
  next
    case (Some p)
    then have "ADDR_TO_KEY hs \<in> dom (m_sm m)" by blast
    then obtain q where q: "q \<in> set ps \<union> {?t}" "ADDR_TO_KEY hs = ADDR_TO_KEY (adr st q)"
      using ix key_nonneg [of hs] unfolding index_ok_def index_rel_def by blast
    have "key_range (adr st q)"
      using q(1) slm_good [OF ok, of q] ad by (auto simp: key_range_def good_cell_def)
    then have "adr st q = hs" using key_inj q(2) hs(1) by metis
    moreover have "m_sm m (ADDR_TO_KEY (adr st q)) = Some q" using ix q(1) unfolding index_ok_def index_rel_def by blast
    then have "p = q" using Some q(2) by simp
    ultimately have p: "p \<in> set (ps @ [?t])" "adr st p = hs" using q by auto
    then obtain k where k: "k < length (ps @ [?t])" "(ps @ [?t]) ! k = p" by (metis in_set_conv_nth)
    then have k': "Suc k < length P" "P ! Suc k = p" by (simp_all add: P_def)
    have "length (takeWhile (\<lambda>p. adr st p < hs) P) = Suc k"
    proof (rule length_takeWhile_eq)
      show "adr st (P ! i) < hs" if "i < Suc k" for i using so2 [OF that k'(1)] k'(2) p(2) by simp
      show "\<not> adr st (P ! Suc k) < hs" using k'(2) p(2) by simp
    qed (rule k'(1))
    with I(1) have kI: "k = I" by simp
    have "prv st p = Some (P ! I)" using linked_nth [OF lk k'(1)] k' kI by simp
    moreover have "I < Suc K"
    proof (rule ccontr)
      assume "\<not> I < Suc K"
      with IJ have "I = Suc K" by simp
      then have "endp st (P ! I) \<le> hs" using so [of I "Suc I"] I(2) k' kI p(2) by simp
      then show False using K(4) \<open>I = Suc K\<close> le by simp
    qed
    ultimately show ?thesis using Some loop [of True I] by (simp add: GetAffectedCells_def)
  qed
  then show ?thesis
  proof (rule that)
    show "adr st (P ! I) < hs" by (rule I(3)) simp
    show "\<forall>j < Suc K. endp st (P ! j) \<le> te" using K(3) by simp
  qed (use I(2,4) K(2,4) IJ in simp_all)
qed

text \<open>
  The search ends either inside one cell that goes beyond the range on both sides, or at two
  different cells with the cells that lie in the range between them.
\<close>

definition found_inside :: "store \<Rightarrow> nat list \<Rightarrow> int \<Rightarrow> int \<Rightarrow> nat list \<Rightarrow> nat \<Rightarrow> nat list \<Rightarrow> bool" where
  "found_inside st P hs te A ia B \<longleftrightarrow>
     P = A @ ia # B \<and> adr st ia < hs \<and> te < endp st ia"

definition found_across ::
    "store \<Rightarrow> nat list \<Rightarrow> int \<Rightarrow> int \<Rightarrow> nat list \<Rightarrow> nat \<Rightarrow> nat list \<Rightarrow> nat \<Rightarrow> nat list \<Rightarrow> bool" where
  "found_across st P hs te A ia M ib B \<longleftrightarrow>
     P = A @ ia # M @ ib # B \<and> adr st ia < hs \<and> endp st ia \<le> te \<and> hs \<le> adr st ib \<and> te < endp st ib \<and>
     (\<forall>q \<in> set M. hs \<le> adr st q \<and> endp st q \<le> te)"

lemma GetAffectedCells_ok:
  assumes ok: "slm_ok st m ps" and hs: "key_range hs" "header_addr < hs" and le: "hs < te" "te < tail_addr"
  shows "(\<exists>A ia B. GetAffectedCells st m hs te = Inr (ia, ia) \<and>
            found_inside st (full_path m ps) hs te A ia B \<and> A \<noteq> [] \<and> B \<noteq> []) \<or>
         (\<exists>A ia M ib B. GetAffectedCells st m hs te = Inr (ia, ib) \<and>
            found_across st (full_path m ps) hs te A ia M ib B)"
proof -
  define P where "P = full_path m ps"
  obtain I J where r: "GetAffectedCells st m hs te = Inr (P ! I, P ! J)"
    and IJ: "Suc I < length P" "I \<le> J" "0 < J" "J < length P"
    and I: "adr st (P ! I) < hs" "hs \<le> adr st (P ! Suc I)"
    and J: "\<forall>j < J. endp st (P ! j) \<le> te" "te < endp st (P ! J)"
    unfolding P_def by (rule GetAffectedCells_index [OF ok hs le])
  have so: "adr st (P ! i) < adr st (P ! j)" if "i < j" "j < length P" for i j
    using slm_adr_sorted [OF ok] that unfolding P_def sorted_wrt_iff_nth_less by blast
  have ge: "hs \<le> adr st (P ! i)" if "I < i" "i \<le> J" for i
    using so [of "Suc I" i] I(2) that IJ by (cases "i = Suc I") auto
  show ?thesis
  proof (cases "I = J")
    case True
    obtain A B where AB: "P = A @ P ! I # B" "length A = I" using cut_one [of I P] IJ by auto
    then have "length P = Suc (length A + length B)" by (metis length_append length_Cons add_Suc_right)
    then have ne: "A \<noteq> []" "B \<noteq> []" using IJ True AB(2) by auto
    from AB have "found_inside st P hs te A (P ! I) B"
      using I J(2) True unfolding found_inside_def by simp
    then show ?thesis using r True P_def ne by blast
  next
    case False
    then have lt: "I < J" using IJ by simp
    obtain A M B where c: "P = A @ P ! I # M @ P ! J # B"
      "\<forall>y \<in> set M. \<exists>i. I < i \<and> i < J \<and> y = P ! i" using cut_two [OF lt IJ(4)] by blast
    have "\<forall>q \<in> set M. hs \<le> adr st q \<and> endp st q \<le> te"
    proof
      fix q assume "q \<in> set M"
      then obtain i where i: "I < i" "i < J" "q = P ! i" using c(2) by blast
      then show "hs \<le> adr st q \<and> endp st q \<le> te" using ge [of i] J(1) by simp
    qed
    moreover have "hs \<le> adr st (P ! J)" using ge [OF lt] by simp
    ultimately have "found_across st P hs te A (P ! I) M (P ! J) B"
      unfolding found_across_def using c(1) I(1) J lt by blast
    then show ?thesis using r P_def by blast
  qed
qed

subsection \<open>Splitting keeps the bytes\<close>

lemma lookup_split:
  assumes "a \<le> h" "h \<le> a + s"
  shows "lookup (xs @ (a, h - a, Some (ExtractExpr E 0 (h - a))) #
      (h, a + s - h, Some (ExtractExpr E (h - a) s)) # ys) x = lookup (xs @ (a, s, Some E) # ys) x"
  using assms by (induction xs) auto

lemma ordered_split:
  assumes "a \<le> h" "h \<le> a + s"
  shows "ordered lo (xs @ (a, h - a, e1) # (h, a + s - h, e2) # ys) hi = ordered lo (xs @ (a, s, e) # ys) hi"
proof -
  have "ordered m ((a, h - a, e1) # (h, a + s - h, e2) # ys) hi = ordered m ((a, s, e) # ys) hi" for m
    using assms by auto
  then show ?thesis unfolding ordered_append by blast
qed

text \<open>Two splits of one cell.\<close>

lemma lookup_split3:
  assumes "a \<le> h" "h \<le> t" "t \<le> a + s"
  shows "lookup (xs @ (a, h - a, Some (ExtractExpr E 0 (h - a))) #
      (h, t - h, Some (ExtractExpr E (h - a) (t - a))) #
      (t, a + s - t, Some (ExtractExpr E (t - a) s)) # ys) x = lookup (xs @ (a, s, Some E) # ys) x"
  using assms by (induction xs) auto

lemma ordered_split3:
  assumes "a \<le> h" "h \<le> t" "t \<le> a + s"
  shows "ordered lo (xs @ (a, h - a, e1) # (h, t - h, e2) # (t, a + s - t, e3) # ys) hi =
    ordered lo (xs @ (a, s, e) # ys) hi"
proof -
  have "ordered m ((a, h - a, e1) # (h, t - h, e2) # (t, a + s - t, e3) # ys) hi = ordered m ((a, s, e) # ys) hi" for m
    using assms by auto
  then show ?thesis unfolding ordered_append by blast
qed

text \<open>A cell with bytes has an expression.\<close>

definition has_exprs :: "store \<Rightarrow> nat list \<Rightarrow> bool" where
  "has_exprs st P \<longleftrightarrow> (\<forall>p \<in> set P. 0 < siz st p \<longrightarrow> c_expr (heap st p) \<noteq> None)"

lemma entry_eqD:
  "entry st' q = entry st q \<Longrightarrow>
     adr st' q = adr st q \<and> siz st' q = siz st q \<and> c_expr (heap st' q) = c_expr (heap st q)"
  by (simp add: entry_def)

lemma map_entry_eq: "(\<And>q. q \<in> set X \<Longrightarrow> entry st' q = entry st q) \<Longrightarrow> map (entry st') X = map (entry st) X"
  by simp

text \<open>
  What cutting cells of a path P at the addresses H gives: a path with the same bytes, each of
  whose cells is a cell of P that has not changed, or a piece of a cell of P.
\<close>

definition piece_of :: "store \<Rightarrow> nat list \<Rightarrow> int set \<Rightarrow> store \<Rightarrow> nat \<Rightarrow> bool" where
  "piece_of st P H st' q \<longleftrightarrow>
     q \<in> set P \<and> entry st' q = entry st q \<or>
     0 < siz st' q \<and> (\<exists>r \<in> set P. adr st r \<le> adr st' q \<and> endp st' q \<le> endp st r \<and>
        0 < siz st r \<and> (adr st' q \<in> H \<or> adr st' q = adr st r))"

definition cut_result :: "store \<Rightarrow> nat list \<Rightarrow> int set \<Rightarrow> store \<Rightarrow> nat list \<Rightarrow> bool" where
  "cut_result st P H st' P' \<longleftrightarrow>
     path_of st' P' \<and> untouched st st' (set P) \<and>
     set P \<subseteq> set P' \<and> (\<forall>q \<in> set P'. q \<in> set P \<or> fresh st \<le> q) \<and>
     lookup (map (entry st') P') = lookup (map (entry st) P) \<and>
     (\<forall>lo hi. ordered lo (map (entry st) P) hi \<longrightarrow> ordered lo (map (entry st') P') hi) \<and>
     has_exprs st' P' \<and> (\<forall>q \<in> set P'. piece_of st P H st' q)"

lemma cut_refl: "path_of st P \<Longrightarrow> has_exprs st P \<Longrightarrow> cut_result st P H st P"
  by (auto simp: cut_result_def untouched_def piece_of_def)

lemma piece_trans:
  assumes "piece_of st1 P1 H' st2 q" "\<And>r. r \<in> set P1 \<Longrightarrow> piece_of st P H st1 r"
  shows "piece_of st P (H \<union> H') st2 q"
proof -
  from assms(1) consider "q \<in> set P1" "entry st2 q = entry st1 q"
    | r where "0 < siz st2 q" "r \<in> set P1" "adr st1 r \<le> adr st2 q" "endp st2 q \<le> endp st1 r"
      "0 < siz st1 r" "adr st2 q \<in> H' \<or> adr st2 q = adr st1 r"
    unfolding piece_of_def by blast
  then show ?thesis
  proof cases
    case 1
    then show ?thesis using assms(2) [OF 1(1)] entry_eqD [OF 1(2)] unfolding piece_of_def by auto
  next
    case 2
    from assms(2) [OF 2(2)] consider "r \<in> set P" "entry st1 r = entry st r"
      | r' where "r' \<in> set P" "adr st r' \<le> adr st1 r" "endp st1 r \<le> endp st r'" "0 < siz st r'"
        "adr st1 r \<in> H \<or> adr st1 r = adr st r'"
      unfolding piece_of_def by blast
    then show ?thesis
    proof cases
      case 1
      then show ?thesis using 2 entry_eqD [OF 1(2)] unfolding piece_of_def by auto
    next
      case (2 r')
      then show ?thesis using \<open>0 < siz st2 q\<close> \<open>adr st1 r \<le> adr st2 q\<close> \<open>endp st2 q \<le> endp st1 r\<close>
        \<open>adr st2 q \<in> H' \<or> adr st2 q = adr st1 r\<close> unfolding piece_of_def
        by - (rule disjI2, intro conjI bexI [of _ r'], auto)
    qed
  qed
qed

lemma cut_trans:
  assumes 1: "cut_result st P H st1 P1" and 2: "cut_result st1 P1 H' st2 P2"
  shows "cut_result st P (H \<union> H') st2 P2"
proof -
  have "\<forall>q \<in> set P2. piece_of st P (H \<union> H') st2 q"
    using 1 2 unfolding cut_result_def by (intro ballI piece_trans [of st1 P1 H']) auto
  moreover have "untouched st st2 (set P)"
    using 1 2 unfolding cut_result_def untouched_def by (metis le_trans not_le)
  moreover have "\<forall>q \<in> set P2. q \<in> set P \<or> fresh st \<le> q"
    using 1 2 unfolding cut_result_def untouched_def by (metis le_trans)
  ultimately show ?thesis using 1 2 unfolding cut_result_def by auto
qed

text \<open>The part all three splits share: the entries outside the split cell are as before.\<close>

lemma cut_resultI:
  assumes p: "path_of st' (A @ N @ B)" and un: "untouched st st' (set (A @ c # B))" and c: "c \<in> set N"
    and new: "\<forall>q \<in> set N. q = c \<or> fresh st \<le> q"
    and en: "\<forall>q \<in> set A \<union> set B. entry st' q = entry st q"
    and lk: "\<And>xs ys x. lookup (xs @ map (entry st') N @ ys) x = lookup (xs @ entry st c # ys) x"
    and or: "\<And>lo xs ys hi. ordered lo (xs @ map (entry st') N @ ys) hi = ordered lo (xs @ entry st c # ys) hi"
    and ex: "has_exprs st (A @ c # B)" and N: "\<forall>q \<in> set N. 0 < siz st' q \<and> c_expr (heap st' q) \<noteq> None \<and>
      adr st c \<le> adr st' q \<and> endp st' q \<le> endp st c \<and> 0 < siz st c \<and> (adr st' q \<in> H \<or> adr st' q = adr st c)"
  shows "cut_result st (A @ c # B) H st' (A @ N @ B)"
proof -
  have AB: "map (entry st') A = map (entry st) A" "map (entry st') B = map (entry st) B"
    by (rule map_entry_eq, use en in blast)+
  have "lookup (map (entry st') (A @ N @ B)) = lookup (map (entry st) (A @ c # B))"
    unfolding map_append AB using lk by (simp add: fun_eq_iff)
  moreover have "ordered lo (map (entry st') (A @ N @ B)) hi = ordered lo (map (entry st) (A @ c # B)) hi" for lo hi
    unfolding map_append AB using or by simp
  moreover have "has_exprs st' (A @ N @ B)"
    unfolding has_exprs_def
  proof
    fix q assume "q \<in> set (A @ N @ B)"
    then consider "q \<in> set A \<union> set B" | "q \<in> set N" by auto
    then show "0 < siz st' q \<longrightarrow> c_expr (heap st' q) \<noteq> None"
    proof cases
      case 1
      then show ?thesis using entry_eqD [OF en [rule_format, OF 1]] ex unfolding has_exprs_def by auto
    next
      case 2
      then show ?thesis using N by blast
    qed
  qed
  moreover have "\<forall>q \<in> set (A @ N @ B). piece_of st (A @ c # B) H st' q"
  proof
    fix q assume "q \<in> set (A @ N @ B)"
    then consider "q \<in> set A \<union> set B" | "q \<in> set N" by auto
    then show "piece_of st (A @ c # B) H st' q"
    proof cases
      case 1
      then show ?thesis using en unfolding piece_of_def by auto
    next
      case 2
      then show ?thesis using N unfolding piece_of_def by auto
    qed
  qed
  ultimately show ?thesis using p un c new unfolding cut_result_def by auto
qed

lemma SplitCell3_cut:
  assumes p: "path_of st (A @ ia # B)" and lt: "adr st ia < hs" "hs < te" "te < endp st ia"
    and nx: "B = [] \<Longrightarrow> nxt st ia = None" and ex: "has_exprs st (A @ ia # B)"
  obtains st' p2 p3 where
    "SplitCell3 st m ia hs te rd = Inr (st', if rd then m
       else m\<lparr>m_sm := (m_sm m)(ADDR_TO_KEY te \<mapsto> p3, ADDR_TO_KEY hs \<mapsto> p2, ADDR_TO_KEY (adr st ia) \<mapsto> ia)\<rparr>, p3)"
    "cut_result st (A @ ia # B) {hs, te} st' (A @ ia # p2 # p3 # B)"
    "adr st' ia = adr st ia" "siz st' ia = hs - adr st ia" "adr st' p2 = hs" "siz st' p2 = te - hs"
    "adr st' p3 = te" "siz st' p3 = endp st ia - te" "fresh st \<le> p2" "fresh st \<le> p3"
    "\<forall>q \<in> set A \<union> set B. entry st' q = entry st q"
proof -
  obtain E where E: "c_expr (heap st ia) = Some E"
    using ex lt unfolding has_exprs_def by fastforce
  have nx': "nxt st ia = (if B = [] then None else Some (hd B))"
    using p nx unfolding path_of_def linked_append linked_Cons by auto
  obtain st' p2 p3 where r:
    "SplitCell3 st m ia hs te rd = Inr (st', if rd then m
       else m\<lparr>m_sm := (m_sm m)(ADDR_TO_KEY te \<mapsto> p3, ADDR_TO_KEY hs \<mapsto> p2, ADDR_TO_KEY (adr st ia) \<mapsto> ia)\<rparr>, p3)"
    and pth: "path_of st' (A @ ia # p2 # p3 # B)" and un: "untouched st st' (set (A @ ia # B))"
    and fr: "fresh st \<le> p2" "fresh st \<le> p3"
    and e1: "entry st' ia = (adr st ia, hs - adr st ia, Some (ExtractExpr E 0 (hs - adr st ia)))"
    and e2: "entry st' p2 = (hs, te - hs, Some (ExtractExpr E (hs - adr st ia) (te - adr st ia)))"
    and e3: "entry st' p3 = (te, endp st ia - te, Some (ExtractExpr E (te - adr st ia) (siz st ia)))"
    and en: "\<forall>q \<in> set A \<union> set B. entry st' q = entry st q"
    and "prv st' ia = prv st ia" "B = [] \<longrightarrow> nxt st' p3 = None"
    by (rule SplitCell3_ok [OF p nx' E])
  have ia: "entry st ia = (adr st ia, siz st ia, Some E)" by (simp add: E)
  have "cut_result st (A @ ia # B) {hs, te} st' (A @ [ia, p2, p3] @ B)"
  proof (rule cut_resultI [OF _ un _ _ en _ _ ex])
    show "lookup (xs @ map (entry st') [ia, p2, p3] @ ys) x = lookup (xs @ entry st ia # ys) x" for xs ys x
      unfolding list.map append.simps e1 e2 e3 ia by (rule lookup_split3) (use lt in auto)
    show "ordered lo (xs @ map (entry st') [ia, p2, p3] @ ys) hi = ordered lo (xs @ entry st ia # ys) hi"
      for lo xs ys hi
      unfolding list.map append.simps e1 e2 e3 ia by (rule ordered_split3) (use lt in auto)
    show "path_of st' (A @ [ia, p2, p3] @ B)" using pth by simp
    show "\<forall>q \<in> set [ia, p2, p3]. 0 < siz st' q \<and> c_expr (heap st' q) \<noteq> None \<and> adr st ia \<le> adr st' q \<and>
        endp st' q \<le> endp st ia \<and> 0 < siz st ia \<and> (adr st' q \<in> {hs, te} \<or> adr st' q = adr st ia)"
      using e1 e2 e3 lt by auto
  qed (use fr in auto)
  then show ?thesis
    using that [OF r] e1 e2 e3 fr en by simp
qed

lemma SeplitCell_Head_cut:
  assumes p: "path_of st (A @ ia # B)" and lt: "adr st ia < hs" "hs < endp st ia" and B: "B \<noteq> []"
    and ex: "has_exprs st (A @ ia # B)"
  obtains st' p2 where
    "SeplitCell_Head st m ia hs rd = Inr (st', if rd then m
       else m\<lparr>m_sm := (m_sm m)(ADDR_TO_KEY hs \<mapsto> p2, ADDR_TO_KEY (adr st ia) \<mapsto> ia)\<rparr>)"
    "cut_result st (A @ ia # B) {hs} st' (A @ ia # p2 # B)"
    "adr st' ia = adr st ia" "siz st' ia = hs - adr st ia" "adr st' p2 = hs" "endp st' p2 = endp st ia"
    "fresh st \<le> p2" "\<forall>q \<in> set A \<union> set B. entry st' q = entry st q"
proof -
  obtain E where E: "c_expr (heap st ia) = Some E"
    using ex lt unfolding has_exprs_def by fastforce
  have nx: "nxt st ia = (if B = [] then None else Some (hd B))"
    using p B unfolding path_of_def linked_append linked_Cons by auto
  obtain st' p2 where r: "SeplitCell_Head st m ia hs rd = Inr (st', if rd then m
       else m\<lparr>m_sm := (m_sm m)(ADDR_TO_KEY hs \<mapsto> p2, ADDR_TO_KEY (adr st ia) \<mapsto> ia)\<rparr>)"
    and pth: "path_of st' (A @ ia # p2 # B)"
    and un: "untouched st st' (set (A @ ia # B))" and fr: "fresh st \<le> p2"
    and e1: "entry st' ia = (adr st ia, hs - adr st ia, Some (ExtractExpr E 0 (hs - adr st ia)))"
    and e2: "entry st' p2 = (hs, endp st ia - hs, Some (ExtractExpr E (hs - adr st ia) (siz st ia)))"
    and en: "\<forall>q \<in> set A \<union> set B. entry st' q = entry st q"
    and "prv st' ia = prv st ia" "\<forall>q \<in> set B. nxt st' q = nxt st q"
    by (rule SeplitCell_Head_ok [OF p nx E])
  have ia: "entry st ia = (adr st ia, siz st ia, Some E)" by (simp add: E)
  have "cut_result st (A @ ia # B) {hs} st' (A @ [ia, p2] @ B)"
  proof (rule cut_resultI [OF _ un _ _ en _ _ ex])
    show "lookup (xs @ map (entry st') [ia, p2] @ ys) x = lookup (xs @ entry st ia # ys) x" for xs ys x
      unfolding list.map append.simps e1 e2 ia by (rule lookup_split) (use lt in auto)
    show "ordered lo (xs @ map (entry st') [ia, p2] @ ys) hi = ordered lo (xs @ entry st ia # ys) hi"
      for lo xs ys hi
      unfolding list.map append.simps e1 e2 ia by (rule ordered_split) (use lt in auto)
    show "path_of st' (A @ [ia, p2] @ B)" using pth by simp
    show "\<forall>q \<in> set [ia, p2]. 0 < siz st' q \<and> c_expr (heap st' q) \<noteq> None \<and> adr st ia \<le> adr st' q \<and>
        endp st' q \<le> endp st ia \<and> 0 < siz st ia \<and> (adr st' q \<in> {hs} \<or> adr st' q = adr st ia)"
      using e1 e2 lt by auto
  qed (use fr in auto)
  then show ?thesis
    using that [OF r] e1 e2 fr en by simp
qed

lemma SeplitCell_Tail_cut:
  assumes p: "path_of st (A @ ib # B)" and lt: "adr st ib < te" "te < endp st ib" and A: "A \<noteq> []"
    and ex: "has_exprs st (A @ ib # B)"
  obtains st' p1 where
    "SeplitCell_Tail st m ib te rd = Inr (st', if rd then m
       else m\<lparr>m_sm := (m_sm m)(ADDR_TO_KEY te \<mapsto> ib, ADDR_TO_KEY (adr st ib) \<mapsto> p1)\<rparr>)"
    "cut_result st (A @ ib # B) {te} st' (A @ p1 # ib # B)"
    "adr st' p1 = adr st ib" "siz st' p1 = te - adr st ib" "adr st' ib = te"
    "fresh st \<le> p1" "\<forall>q \<in> set A \<union> set B. entry st' q = entry st q"
proof -
  obtain E where E: "c_expr (heap st ib) = Some E"
    using ex lt unfolding has_exprs_def by fastforce
  have pv: "prv st ib = (if A = [] then None else Some (last A))"
    using p A unfolding path_of_def linked_append linked_Cons by auto
  obtain st' p1 where r: "SeplitCell_Tail st m ib te rd = Inr (st', if rd then m
       else m\<lparr>m_sm := (m_sm m)(ADDR_TO_KEY te \<mapsto> ib, ADDR_TO_KEY (adr st ib) \<mapsto> p1)\<rparr>)"
    and pth: "path_of st' (A @ p1 # ib # B)"
    and un: "untouched st st' (set (A @ ib # B))" and fr: "fresh st \<le> p1"
    and e1: "entry st' p1 = (adr st ib, te - adr st ib, Some (ExtractExpr E 0 (te - adr st ib)))"
    and e2: "entry st' ib = (te, endp st ib - te, Some (ExtractExpr E (te - adr st ib) (siz st ib)))"
    and en: "\<forall>q \<in> set A \<union> set B. entry st' q = entry st q"
    and "nxt st' ib = nxt st ib" "\<forall>q \<in> set A. prv st' q = prv st q"
    by (rule SeplitCell_Tail_ok [OF p pv E])
  have ib: "entry st ib = (adr st ib, siz st ib, Some E)" by (simp add: E)
  have "cut_result st (A @ ib # B) {te} st' (A @ [p1, ib] @ B)"
  proof (rule cut_resultI [OF _ un _ _ en _ _ ex])
    show "lookup (xs @ map (entry st') [p1, ib] @ ys) x = lookup (xs @ entry st ib # ys) x" for xs ys x
      unfolding list.map append.simps e1 e2 ib by (rule lookup_split) (use lt in auto)
    show "ordered lo (xs @ map (entry st') [p1, ib] @ ys) hi = ordered lo (xs @ entry st ib # ys) hi"
      for lo xs ys hi
      unfolding list.map append.simps e1 e2 ib by (rule ordered_split) (use lt in auto)
    show "path_of st' (A @ [p1, ib] @ B)" using pth by simp
    show "\<forall>q \<in> set [p1, ib]. 0 < siz st' q \<and> c_expr (heap st' q) \<noteq> None \<and> adr st ib \<le> adr st' q \<and>
        endp st' q \<le> endp st ib \<and> 0 < siz st ib \<and> (adr st' q \<in> {te} \<or> adr st' q = adr st ib)"
      using e1 e2 lt by auto
  qed (use fr in auto)
  then show ?thesis
    using that [OF r] e1 e2 fr en by simp
qed

subsection \<open>Splitting keeps the index\<close>

lemma key_neq: "key_range a \<Longrightarrow> key_range b \<Longrightarrow> a \<noteq> b \<Longrightarrow> ADDR_TO_KEY a \<noteq> ADDR_TO_KEY b"
  using key_inj by blast

lemma index_add:
  assumes ix: "index_rel st h ix S" and same: "\<forall>q \<in> S. adr st' q = adr st q"
    and new: "adr st' p = a" "\<forall>q \<in> S. ADDR_TO_KEY (adr st q) \<noteq> ADDR_TO_KEY a"
  shows "index_rel st' h (ix(ADDR_TO_KEY a \<mapsto> p)) (insert p S)"
proof -
  have "(\<lambda>q. ADDR_TO_KEY (adr st' q)) ` insert p S =
      insert (ADDR_TO_KEY a) ((\<lambda>q. ADDR_TO_KEY (adr st q)) ` S)"
    using same new(1) by (auto simp: image_iff)
  then show ?thesis
    using ix same new key_nonneg [of a] unfolding index_rel_def by auto
qed

lemma index_again: "index_rel st h ix S \<Longrightarrow> p \<in> S \<Longrightarrow> ix(ADDR_TO_KEY (adr st p) \<mapsto> p) = ix"
  unfolding index_rel_def by (simp add: fun_upd_idem)

definition keys_ok :: "store \<Rightarrow> nat set \<Rightarrow> bool" where
  "keys_ok st S \<longleftrightarrow> (\<forall>q \<in> S. key_range (adr st q)) \<and> inj_on (adr st) S"

lemma index_split3:
  assumes ix: "index_rel st h ix S" and ia: "ia \<in> S" and same: "\<forall>q \<in> S. adr st' q = adr st q"
    and new: "adr st' p2 = hs" "adr st' p3 = te" "\<forall>q \<in> S. adr st q \<noteq> hs \<and> adr st q \<noteq> te" "hs \<noteq> te"
    and k: "keys_ok st S" "key_range hs" "key_range te"
  shows "index_rel st' h (ix(ADDR_TO_KEY te \<mapsto> p3, ADDR_TO_KEY hs \<mapsto> p2, ADDR_TO_KEY (adr st ia) \<mapsto> ia))
    (insert p2 (insert p3 S))"
proof -
  have 1: "index_rel st' h (ix(ADDR_TO_KEY te \<mapsto> p3)) (insert p3 S)"
    by (rule index_add [OF ix same new(2)]) (use key_neq k new(3) in \<open>auto simp: keys_ok_def\<close>)
  have 2: "index_rel st' h (ix(ADDR_TO_KEY te \<mapsto> p3, ADDR_TO_KEY hs \<mapsto> p2)) (insert p2 (insert p3 S))"
    by (rule index_add [OF 1 _ new(1)]) (use key_neq k new same in \<open>auto simp: keys_ok_def\<close>)
  show ?thesis
    using index_again [OF 2, of ia] ia same 2 by simp
qed

lemma index_head:
  assumes ix: "index_rel st h ix S" and ia: "ia \<in> S" and same: "\<forall>q \<in> S. adr st' q = adr st q"
    and new: "adr st' p2 = hs" "\<forall>q \<in> S. adr st q \<noteq> hs"
    and k: "keys_ok st S" "key_range hs"
  shows "index_rel st' h (ix(ADDR_TO_KEY hs \<mapsto> p2, ADDR_TO_KEY (adr st ia) \<mapsto> ia)) (insert p2 S)"
proof -
  have 1: "index_rel st' h (ix(ADDR_TO_KEY hs \<mapsto> p2)) (insert p2 S)"
    by (rule index_add [OF ix same new(1)]) (use key_neq k new(2) in \<open>auto simp: keys_ok_def\<close>)
  show ?thesis using index_again [OF 1, of ia] ia same 1 by simp
qed

lemma index_tail:
  assumes ix: "index_rel st h ix S" and ib: "ib \<in> S" and same: "\<forall>q \<in> S - {ib}. adr st' q = adr st q"
    and new: "adr st' ib = te" "adr st' p1 = adr st ib" "p1 \<notin> S" "\<forall>q \<in> S. adr st q \<noteq> te"
    and k: "keys_ok st S" "key_range te"
  shows "index_rel st' h (ix(ADDR_TO_KEY te \<mapsto> ib, ADDR_TO_KEY (adr st ib) \<mapsto> p1)) (insert p1 S)"
proof -
  let ?K = "\<lambda>s q. ADDR_TO_KEY (adr s q)"
  have other: "?K st' q = ?K st q" "?K st q \<noteq> ?K st ib" "?K st q \<noteq> ADDR_TO_KEY te"
    if "q \<in> S" "q \<noteq> ib" for q
  proof -
    show "?K st' q = ?K st q" using same that by simp
    have "adr st q \<noteq> adr st ib" using k(1) that ib by (auto simp: keys_ok_def inj_on_def)
    then show "?K st q \<noteq> ?K st ib" using k(1) that ib by (intro key_neq) (auto simp: keys_ok_def)
    show "?K st q \<noteq> ADDR_TO_KEY te" using k that new(4) by (intro key_neq) (auto simp: keys_ok_def)
  qed
  have ibte: "?K st ib \<noteq> ADDR_TO_KEY te" using k ib new(4) by (intro key_neq) (auto simp: keys_ok_def)
  have S: "S = insert ib (S - {ib})" using ib by blast
  have "?K st' ` insert p1 S = insert (ADDR_TO_KEY te) (?K st ` S)"
  proof -
    have "?K st' ` (S - {ib}) = ?K st ` (S - {ib})" by (rule image_cong) (use other in auto)
    then show ?thesis using new(1,2) by (subst (1 2) S) auto
  qed
  moreover have "dom ix = insert (- 1) (?K st ` S)" "?K st ib \<in> ?K st ` S"
    using ix ib by (auto simp: index_rel_def)
  moreover have "(ix(ADDR_TO_KEY te \<mapsto> ib, ?K st ib \<mapsto> p1)) (?K st' p) = Some p" if p: "p \<in> insert p1 S" for p
  proof -
    consider "p = p1" | "p = ib" "p \<noteq> p1" | "p \<in> S" "p \<noteq> ib" "p \<noteq> p1" using p by blast
    then show ?thesis
    proof cases
      case 1
      then show ?thesis using new(2) by simp
    next
      case 2
      then show ?thesis using new(1) ibte by simp
    next
      case 3
      then show ?thesis using other [OF 3(1,2)] ix unfolding index_rel_def by simp
    qed
  qed
  moreover have "(ix(ADDR_TO_KEY te \<mapsto> ib, ?K st ib \<mapsto> p1)) (- 1) = Some h"
    using ix key_nonneg [of te] key_nonneg [of "adr st ib"] by (simp add: index_rel_def)
  ultimately show ?thesis unfolding index_rel_def by auto
qed

subsection \<open>The split at both ends\<close>

definition index_of :: "store \<Rightarrow> nat \<Rightarrow> (int \<rightharpoonup> nat) \<Rightarrow> nat list \<Rightarrow> bool" where
  "index_of st h ix P \<longleftrightarrow>
     h \<in> set P \<and> siz st h = 0 \<and> keys_ok st (set P - {h}) \<and> index_rel st h ix (set P - {h})"

lemma ordered_around:
  assumes "ordered lo (map (entry st) (A @ c # B)) hi"
  shows "\<forall>q \<in> set A. adr st q \<le> adr st c \<and> endp st q \<le> adr st c" "\<forall>q \<in> set B. endp st c \<le> adr st q"
    "\<forall>q \<in> set (A @ c # B). 0 \<le> siz st q"
proof -
  have so: "sorted_wrt (\<lambda>p q. endp st p \<le> adr st q) (A @ c # B)" using assms by (rule ordered_sorted)
  show nn: "\<forall>q \<in> set (A @ c # B). 0 \<le> siz st q" using ordered_bounds' [OF assms] by blast
  from so have 1: "\<forall>q \<in> set A. endp st q \<le> adr st c" and 2: "\<forall>q \<in> set B. endp st c \<le> adr st q"
    by (auto simp: sorted_wrt_append)
  have "\<forall>q \<in> set A. 0 \<le> siz st q" using nn by simp
  with 1 show "\<forall>q \<in> set A. adr st q \<le> adr st c \<and> endp st q \<le> adr st c" by fastforce
  show "\<forall>q \<in> set B. endp st c \<le> adr st q" by (rule 2)
qed

lemma set_cut_diff: "p \<noteq> h \<Longrightarrow> insert p (X - {h}) = insert p X - {h}" by blast

lemma keys_ok_insert:
  assumes "keys_ok st S" "\<forall>q \<in> S. adr st' q = adr st q" "key_range (adr st' p)"
    "\<forall>q \<in> S. adr st q \<noteq> adr st' p"
  shows "keys_ok st' (insert p S)"
  using assms unfolding keys_ok_def by (auto simp: inj_on_def)

lemma keys_ok_subset:
  assumes "keys_ok st S" "T \<subseteq> S" "\<forall>q \<in> T. adr st' q = adr st q"
  shows "keys_ok st' T"
proof -
  have "inj_on (adr st) T" using assms(1,2) inj_on_subset unfolding keys_ok_def by blast
  then have "inj_on (adr st') T" using assms(3) by (simp add: inj_on_def)
  then show ?thesis using assms unfolding keys_ok_def by auto
qed

lemma keys_ok_neq: "keys_ok st S \<Longrightarrow> p \<in> S \<Longrightarrow> q \<in> S \<Longrightarrow> p \<noteq> q \<Longrightarrow> adr st p \<noteq> adr st q"
  unfolding keys_ok_def by (meson inj_onD)

lemma head_step:
  assumes p: "path_of st (A @ ia # B)" and B: "B \<noteq> []" and ia: "adr st ia < hs"
    and ex: "has_exprs st (A @ ia # B)" and o: "ordered lo (map (entry st) (A @ ia # B)) hi"
  obtains st' m' N where
    "(if hs < endp st ia then SeplitCell_Head st m ia hs rd else Inr (st, m)) = Inr (st', m')"
    "cut_result st (A @ ia # B) {hs} st' (A @ ia # N @ B)"
    "endp st' ia \<le> hs" "\<forall>q \<in> set N. hs \<le> adr st' q \<and> endp st' q \<le> endp st ia"
    "\<forall>q \<in> set A \<union> set B. entry st' q = entry st q" "endp st ia \<le> hs \<longrightarrow> entry st' ia = entry st ia"
    "m_listheader m' = m_listheader m" "m_listtail m' = m_listtail m" "rd \<longrightarrow> m' = m"
    "\<forall>h. \<not> rd \<longrightarrow> key_range hs \<longrightarrow> index_of st h (m_sm m) (A @ ia # B) \<longrightarrow>
       entry st' h = entry st h \<longrightarrow> index_of st' h (m_sm m') (A @ ia # N @ B)"
proof (cases "hs < endp st ia")
  case False
  show ?thesis
  proof (rule that [of st m "[]"])
    show "cut_result st (A @ ia # B) {hs} st (A @ ia # [] @ B)" using cut_refl [OF p ex] by simp
  qed (use False in simp_all)
next
  case True
  obtain st' p2 where r:
    "SeplitCell_Head st m ia hs rd = Inr (st', if rd then m
       else m\<lparr>m_sm := (m_sm m)(ADDR_TO_KEY hs \<mapsto> p2, ADDR_TO_KEY (adr st ia) \<mapsto> ia)\<rparr>)"
    and cut: "cut_result st (A @ ia # B) {hs} st' (A @ ia # p2 # B)"
    and e: "adr st' ia = adr st ia" "siz st' ia = hs - adr st ia" "adr st' p2 = hs" "endp st' p2 = endp st ia"
    and fr: "fresh st \<le> p2" and en: "\<forall>q \<in> set A \<union> set B. entry st' q = entry st q"
    by (rule SeplitCell_Head_cut [OF p ia True B ex])
  define m' where "m' = (if rd then m else m\<lparr>m_sm := (m_sm m)(ADDR_TO_KEY hs \<mapsto> p2, ADDR_TO_KEY (adr st ia) \<mapsto> ia)\<rparr>)"
  have new: "p2 \<notin> set (A @ ia # B)" using fr p unfolding path_of_def by (metis not_le)
  have "\<forall>q \<in> set A \<union> set B. adr st' q = adr st q" using en entry_eqD by blast
  then have same: "\<forall>q \<in> set (A @ ia # B). adr st' q = adr st q" using e(1) by simp
  have "index_of st' h (m_sm m') (A @ ia # [p2] @ B)"
    if rd: "\<not> rd" and k: "key_range hs" and ix: "index_of st h (m_sm m) (A @ ia # B)"
      and h: "entry st' h = entry st h" for h
  proof -
    let ?S = "set (A @ ia # B) - {h}"
    have hz: "h \<in> set (A @ ia # B)" "siz st h = 0" using ix by (auto simp: index_of_def)
    have ne: "\<forall>q \<in> ?S. adr st q \<noteq> hs"
      using ordered_around [OF o] ia True by auto
    have "siz st ia \<noteq> 0" using ia True by simp
    then have "ia \<in> ?S" using hz by auto
    then have "index_rel st' h (m_sm m') (insert p2 ?S)"
      using index_head [of st h "m_sm m" ?S ia st' p2 hs] ix same e(3) ne k rd
      by (auto simp: index_of_def m'_def)
    moreover have "keys_ok st' (insert p2 ?S)"
      by (rule keys_ok_insert [of st]) (use ix same e(3) ne k in \<open>auto simp: index_of_def\<close>)
    moreover have "insert p2 ?S = set (A @ ia # [p2] @ B) - {h}" using new hz(1) by auto
    ultimately show ?thesis using entry_eqD [OF h] hz by (auto simp: index_of_def)
  qed
  note ix = this
  show ?thesis
  proof (rule that)
    show "(if hs < endp st ia then SeplitCell_Head st m ia hs rd else Inr (st, m)) = Inr (st', m')"
      unfolding m'_def using True r by simp
    show "cut_result st (A @ ia # B) {hs} st' (A @ ia # [p2] @ B)" using cut by simp
    show "endp st' ia \<le> hs" using e by simp
    show "\<forall>q \<in> set [p2]. hs \<le> adr st' q \<and> endp st' q \<le> endp st ia" using e by simp
    show "endp st ia \<le> hs \<longrightarrow> entry st' ia = entry st ia" using True by simp
    show "m_listheader m' = m_listheader m" "m_listtail m' = m_listtail m" "rd \<longrightarrow> m' = m"
      by (simp_all add: m'_def)
    show "\<forall>h. \<not> rd \<longrightarrow> key_range hs \<longrightarrow> index_of st h (m_sm m) (A @ ia # B) \<longrightarrow>
       entry st' h = entry st h \<longrightarrow> index_of st' h (m_sm m') (A @ ia # [p2] @ B)" using ix by blast
  qed (fact en)
qed

lemma tail_step:
  assumes p: "path_of st (A @ ib # B)" and A: "A \<noteq> []" and ib: "te < endp st ib"
    and ex: "has_exprs st (A @ ib # B)" and o: "ordered lo (map (entry st) (A @ ib # B)) hi"
  obtains st' m' N where
    "(if adr st ib < te then SeplitCell_Tail st m ib te rd else Inr (st, m)) = Inr (st', m')"
    "cut_result st (A @ ib # B) {te} st' (A @ N @ ib # B)"
    "te \<le> adr st' ib" "\<forall>q \<in> set N. adr st' q = adr st ib \<and> endp st' q \<le> te"
    "\<forall>q \<in> set A \<union> set B. entry st' q = entry st q" "te \<le> adr st ib \<longrightarrow> entry st' ib = entry st ib"
    "m_listheader m' = m_listheader m" "m_listtail m' = m_listtail m" "rd \<longrightarrow> m' = m"
    "\<forall>h. \<not> rd \<longrightarrow> key_range te \<longrightarrow> index_of st h (m_sm m) (A @ ib # B) \<longrightarrow>
       entry st' h = entry st h \<longrightarrow> index_of st' h (m_sm m') (A @ N @ ib # B)"
proof (cases "adr st ib < te")
  case False
  show ?thesis
  proof (rule that [of st m "[]"])
    show "cut_result st (A @ ib # B) {te} st (A @ [] @ ib # B)" using cut_refl [OF p ex] by simp
  qed (use False in simp_all)
next
  case True
  obtain st' p1 where r:
    "SeplitCell_Tail st m ib te rd = Inr (st', if rd then m
       else m\<lparr>m_sm := (m_sm m)(ADDR_TO_KEY te \<mapsto> ib, ADDR_TO_KEY (adr st ib) \<mapsto> p1)\<rparr>)"
    and cut: "cut_result st (A @ ib # B) {te} st' (A @ p1 # ib # B)"
    and e: "adr st' p1 = adr st ib" "siz st' p1 = te - adr st ib" "adr st' ib = te"
    and fr: "fresh st \<le> p1" and en: "\<forall>q \<in> set A \<union> set B. entry st' q = entry st q"
    by (rule SeplitCell_Tail_cut [OF p True ib A ex])
  define m' where "m' = (if rd then m else m\<lparr>m_sm := (m_sm m)(ADDR_TO_KEY te \<mapsto> ib, ADDR_TO_KEY (adr st ib) \<mapsto> p1)\<rparr>)"
  have new: "p1 \<notin> set (A @ ib # B)" using fr p unfolding path_of_def by (metis not_le)
  have same: "\<forall>q \<in> set A \<union> set B. adr st' q = adr st q" using en entry_eqD by blast
  have d: "ib \<notin> set A \<union> set B" using p by (auto simp: path_of_def)
  have "index_of st' h (m_sm m') (A @ [p1] @ ib # B)"
    if rd: "\<not> rd" and k: "key_range te" and ix: "index_of st h (m_sm m) (A @ ib # B)"
      and h: "entry st' h = entry st h" for h
  proof -
    let ?S = "set (A @ ib # B) - {h}"
    have hz: "h \<in> set (A @ ib # B)" "siz st h = 0" using ix by (auto simp: index_of_def)
    have ne: "\<forall>q \<in> ?S. adr st q \<noteq> te"
      using ordered_around [OF o] ib True by auto
    have "siz st ib \<noteq> 0" using ib True by simp
    then have ibS: "ib \<in> ?S" using hz by auto
    have sm: "\<forall>q \<in> ?S - {ib}. adr st' q = adr st q" using same by auto
    have nS: "p1 \<notin> ?S" using new by blast
    have kS: "keys_ok st ?S" "index_rel st h (m_sm m) ?S" using ix by (auto simp: index_of_def)
    have "index_rel st' h (m_sm m') (insert p1 ?S)"
      using index_tail [OF kS(2) ibS sm e(3,1) nS ne kS(1) k] rd by (simp add: m'_def)
    moreover have "keys_ok st' (insert p1 ?S)"
    proof -
      have k1: "keys_ok st' (?S - {ib})"
        by (rule keys_ok_subset [OF kS(1) _ sm]) blast
      have nb: "\<forall>q \<in> ?S - {ib}. adr st q \<noteq> adr st ib"
        using keys_ok_neq [OF kS(1) _ ibS] by blast
      have kb: "key_range (adr st ib)" using kS(1) ibS by (auto simp: keys_ok_def)
      have k2: "keys_ok st' (insert ib (?S - {ib}))"
        by (rule keys_ok_insert [OF k1]) (use e(3) k ne sm in auto)
      have "keys_ok st' (insert p1 (insert ib (?S - {ib})))"
      proof (rule keys_ok_insert [OF k2, of st'])
        show "key_range (adr st' p1)" using e(1) kb by simp
        show "\<forall>q \<in> insert ib (?S - {ib}). adr st' q \<noteq> adr st' p1"
        proof
          fix q assume "q \<in> insert ib (?S - {ib})"
          then consider "q = ib" | "q \<in> ?S - {ib}" by blast
          then show "adr st' q \<noteq> adr st' p1"
          proof cases
            case 1
            then show ?thesis using e(1,3) True by simp
          next
            case 2
            then show ?thesis using bspec [OF nb 2] bspec [OF sm 2] e(1) by simp
          qed
        qed
      qed simp
      moreover have "insert ib (?S - {ib}) = ?S" using ibS by blast
      ultimately show ?thesis by simp
    qed
    moreover have "insert p1 ?S = set (A @ [p1] @ ib # B) - {h}" using new hz(1) by auto
    ultimately show ?thesis using entry_eqD [OF h] hz by (auto simp: index_of_def)
  qed
  note ix = this
  show ?thesis
  proof (rule that)
    show "(if adr st ib < te then SeplitCell_Tail st m ib te rd else Inr (st, m)) = Inr (st', m')"
      unfolding m'_def using True r by simp
    show "cut_result st (A @ ib # B) {te} st' (A @ [p1] @ ib # B)" using cut by simp
    show "te \<le> adr st' ib" using e by simp
    show "\<forall>q \<in> set [p1]. adr st' q = adr st ib \<and> endp st' q \<le> te" using e by simp
    show "te \<le> adr st ib \<longrightarrow> entry st' ib = entry st ib" using True by simp
    show "m_listheader m' = m_listheader m" "m_listtail m' = m_listtail m" "rd \<longrightarrow> m' = m"
      by (simp_all add: m'_def)
    show "\<forall>h. \<not> rd \<longrightarrow> key_range te \<longrightarrow> index_of st h (m_sm m) (A @ ib # B) \<longrightarrow>
       entry st' h = entry st h \<longrightarrow> index_of st' h (m_sm m') (A @ [p1] @ ib # B)" using ix by blast
  qed (fact en)
qed

end
