(* ===== verification/Sym_List_Ops.thy ===== *)
theory Sym_List_Ops
  imports Sym_List
begin

text \<open>
  The operations of a list of symbolic cells, specified: removing a range restricts the map from
  addresses to bytes, merging a list overrides it on the range the list spans, and reading
  returns fresh cells that hold the bytes of the range.
\<close>

section \<open>The split at both ends of a range\<close>

definition cut_at_range ::
    "store \<Rightarrow> slm \<Rightarrow> nat list \<Rightarrow> int \<Rightarrow> int \<Rightarrow> bool \<Rightarrow> store \<Rightarrow> slm \<Rightarrow> nat list \<Rightarrow> nat \<Rightarrow> nat list \<Rightarrow> nat \<Rightarrow> nat list \<Rightarrow> bool" where
  "cut_at_range st m P hs te rd st' m' A ia M ib B \<longleftrightarrow>
     cut_result st P {hs, te} st' (A @ ia # M @ ib # B) \<and>
     endp st' ia \<le> hs \<and> te \<le> adr st' ib \<and> (\<forall>q \<in> set M. hs \<le> adr st' q \<and> endp st' q \<le> te) \<and>
     (\<forall>q \<in> set A \<union> set B. entry st' q = entry st q) \<and>
     m_listheader m' = m_listheader m \<and> m_listtail m' = m_listtail m \<and> (rd \<longrightarrow> m' = m) \<and>
     (\<forall>h. \<not> rd \<longrightarrow> key_range hs \<longrightarrow> key_range te \<longrightarrow> index_of st h (m_sm m) P \<longrightarrow>
        entry st' h = entry st h \<longrightarrow> index_of st' h (m_sm m') (A @ ia # M @ ib # B))"

lemma split_inside:
  assumes p: "path_of st P" and f: "found_inside st P hs te A ia B" and le: "hs < te"
    and nx: "B = [] \<Longrightarrow> nxt st ia = None" and ex: "has_exprs st P"
    and o: "ordered lo (map (entry st) P) hi"
  shows "\<exists>st' m' M ib. Split_Head_Tail st m ia ia hs te rd = Inr (st', m', ib) \<and>
    cut_at_range st m P hs te rd st' m' A ia M ib B \<and> siz st' ib = endp st ia - te"
proof -
  have P: "P = A @ ia # B" and lt: "adr st ia < hs" "te < endp st ia"
    using f by (auto simp: found_inside_def)
  obtain st' p2 p3 where r:
    "SplitCell3 st m ia hs te rd = Inr (st', if rd then m
       else m\<lparr>m_sm := (m_sm m)(ADDR_TO_KEY te \<mapsto> p3, ADDR_TO_KEY hs \<mapsto> p2, ADDR_TO_KEY (adr st ia) \<mapsto> ia)\<rparr>, p3)"
    and cut: "cut_result st P {hs, te} st' (A @ ia # p2 # p3 # B)"
    and e: "adr st' ia = adr st ia" "siz st' ia = hs - adr st ia" "adr st' p2 = hs" "siz st' p2 = te - hs"
    "adr st' p3 = te" "siz st' p3 = endp st ia - te" and fr: "fresh st \<le> p2" "fresh st \<le> p3"
    and en: "\<forall>q \<in> set A \<union> set B. entry st' q = entry st q"
    by (rule SplitCell3_cut [OF p [unfolded P] lt(1) le lt(2) nx ex [unfolded P], folded P])
  define m' where "m' = (if rd then m else m\<lparr>m_sm := (m_sm m)(ADDR_TO_KEY te \<mapsto> p3, ADDR_TO_KEY hs \<mapsto> p2,
      ADDR_TO_KEY (adr st ia) \<mapsto> ia)\<rparr>)"
  have new: "p2 \<notin> set P" "p3 \<notin> set P" using fr p unfolding path_of_def by (metis not_le)+
  have "\<forall>q \<in> set A \<union> set B. adr st' q = adr st q" using en entry_eqD by blast
  then have same: "\<forall>q \<in> set P. adr st' q = adr st q" using e(1) by (simp add: P)
  have pth: "path_of st' (A @ ia # p2 # p3 # B)" using cut by (simp add: cut_result_def)
  have ix: "index_of st' h (m_sm m') (A @ ia # [p2] @ p3 # B)"
    if rd: "\<not> rd" and k: "key_range hs" "key_range te" and ix: "index_of st h (m_sm m) P"
      and h: "entry st' h = entry st h" for h
  proof -
    let ?S = "set P - {h}"
    have hz: "h \<in> set P" "siz st h = 0" using ix by (auto simp: index_of_def)
    have ne: "\<forall>q \<in> ?S. adr st q \<noteq> hs \<and> adr st q \<noteq> te"
      using ordered_around [OF o [unfolded P]] lt le unfolding P by fastforce
    have "siz st ia \<noteq> 0" using lt le by simp
    then have ia: "ia \<in> ?S" using hz P by auto
    have kS: "keys_ok st ?S" "index_rel st h (m_sm m) ?S" using ix by (auto simp: index_of_def)
    have sm: "\<forall>q \<in> ?S. adr st' q = adr st q" using same by blast
    have "index_rel st' h (m_sm m') (insert p2 (insert p3 ?S))"
      using index_split3 [OF kS(2) ia sm e(3,5) ne _ kS(1) k] le rd by (simp add: m'_def)
    moreover have "keys_ok st' (insert p2 (insert p3 ?S))"
    proof -
      have k3: "keys_ok st' (insert p3 ?S)"
        by (rule keys_ok_insert [OF kS(1) sm]) (use e(5) k ne in auto)
      show ?thesis
        by (rule keys_ok_insert [OF k3, of st']) (use e(3,5) k ne sm le in auto)
    qed
    moreover have "insert p2 (insert p3 ?S) = set (A @ ia # [p2] @ p3 # B) - {h}"
      using new hz(1) unfolding P by auto
    ultimately show ?thesis using entry_eqD [OF h] hz unfolding index_of_def P by auto
  qed
  have "cut_at_range st m P hs te rd st' m' A ia [p2] p3 B"
    unfolding cut_at_range_def
  proof (intro conjI)
    show "cut_result st P {hs, te} st' (A @ ia # [p2] @ p3 # B)" using cut by simp
    show "endp st' ia \<le> hs" "te \<le> adr st' p3" "\<forall>q \<in> set [p2]. hs \<le> adr st' q \<and> endp st' q \<le> te"
      using e by simp_all
    show "m_listheader m' = m_listheader m" "m_listtail m' = m_listtail m" "rd \<longrightarrow> m' = m"
      by (simp_all add: m'_def)
    show "\<forall>h. \<not> rd \<longrightarrow> key_range hs \<longrightarrow> key_range te \<longrightarrow> index_of st h (m_sm m) P \<longrightarrow>
        entry st' h = entry st h \<longrightarrow> index_of st' h (m_sm m') (A @ ia # [p2] @ p3 # B)"
      using ix by blast
  qed (fact en)
  moreover have "Split_Head_Tail st m ia ia hs te rd = Inr (st', m', p3)"
    using r lt by (simp add: Split_Head_Tail_def m'_def)
  ultimately show ?thesis using e(6) by blast
qed

lemma split_across:
  assumes p: "path_of st P" and f: "found_across st P hs te A ia M ib B" and le: "hs < te"
    and ex: "has_exprs st P" and o: "ordered lo (map (entry st) P) hi"
  shows "\<exists>st' m' M'. Split_Head_Tail st m ia ib hs te rd = Inr (st', m', ib) \<and>
    cut_at_range st m P hs te rd st' m' A ia M' ib B \<and>
    (endp st ia \<le> hs \<longrightarrow> entry st' ia = entry st ia) \<and> (te \<le> adr st ib \<longrightarrow> entry st' ib = entry st ib)"
proof -
  have P: "P = A @ ia # M @ ib # B" and lt: "adr st ia < hs" "endp st ia \<le> te" "hs \<le> adr st ib" "te < endp st ib"
    and M: "\<forall>q \<in> set M. hs \<le> adr st q \<and> endp st q \<le> te"
    using f by (auto simp: found_across_def)
  have P1: "P = A @ ia # (M @ ib # B)" using P by simp
  have iab: "ia \<noteq> ib" using p P by (auto simp: path_of_def)
  obtain st1 m1 N where h: "(if hs < endp st ia then SeplitCell_Head st m ia hs rd else Inr (st, m)) = Inr (st1, m1)"
    and hcut: "cut_result st P {hs} st1 (A @ ia # N @ M @ ib # B)"
    and hend: "endp st1 ia \<le> hs" "\<forall>q \<in> set N. hs \<le> adr st1 q \<and> endp st1 q \<le> endp st ia"
    and hen: "\<forall>q \<in> set A \<union> set (M @ ib # B). entry st1 q = entry st q" "endp st ia \<le> hs \<longrightarrow> entry st1 ia = entry st ia"
    and hm: "m_listheader m1 = m_listheader m" "m_listtail m1 = m_listtail m" "rd \<longrightarrow> m1 = m"
    and hix: "\<forall>h. \<not> rd \<longrightarrow> key_range hs \<longrightarrow> index_of st h (m_sm m) P \<longrightarrow>
       entry st1 h = entry st h \<longrightarrow> index_of st1 h (m_sm m1) (A @ ia # N @ M @ ib # B)"
    by (rule head_step [OF p [unfolded P1] _ lt(1) ex [unfolded P1] o [unfolded P1], folded P1]) simp
  define P2 where "P2 = (A @ ia # N @ M) @ ib # B"
  have P2': "A @ ia # N @ M @ ib # B = P2" by (simp add: P2_def)
  have p2: "path_of st1 P2" "has_exprs st1 P2" "ordered lo (map (entry st1) P2) hi"
    using hcut o unfolding P2' cut_result_def by blast+
  have eib: "entry st1 ib = entry st ib" using hen(1) by simp
  have ib1: "adr st1 ib = adr st ib" "te < endp st1 ib" using entry_eqD [OF eib] lt by auto
  obtain st2 m2 K where t: "(if adr st1 ib < te then SeplitCell_Tail st1 m1 ib te rd else Inr (st1, m1)) = Inr (st2, m2)"
    and tcut: "cut_result st1 P2 {te} st2 ((A @ ia # N @ M) @ K @ ib # B)"
    and tend: "te \<le> adr st2 ib" "\<forall>q \<in> set K. adr st2 q = adr st1 ib \<and> endp st2 q \<le> te"
    and ten: "\<forall>q \<in> set (A @ ia # N @ M) \<union> set B. entry st2 q = entry st1 q" "te \<le> adr st1 ib \<longrightarrow> entry st2 ib = entry st1 ib"
    and tm: "m_listheader m2 = m_listheader m1" "m_listtail m2 = m_listtail m1" "rd \<longrightarrow> m2 = m1"
    and tix: "\<forall>h. \<not> rd \<longrightarrow> key_range te \<longrightarrow> index_of st1 h (m_sm m1) P2 \<longrightarrow>
       entry st2 h = entry st1 h \<longrightarrow> index_of st2 h (m_sm m2) ((A @ ia # N @ M) @ K @ ib # B)"
    by (rule tail_step [OF p2(1) [unfolded P2_def] _ ib1(2) p2(2) [unfolded P2_def] p2(3) [unfolded P2_def], folded P2_def]) simp
  have e2: "entry st2 q = entry st1 q" if "q \<in> set (A @ ia # N @ M) \<union> set B" for q using ten(1) that by blast
  have r: "Split_Head_Tail st m ia ib hs te rd = Inr (st2, m2, ib)"
    unfolding Split_Head_Tail_def using iab h t by simp
  have cut: "cut_result st P {hs, te} st2 (A @ ia # (N @ M @ K) @ ib # B)"
    using cut_trans [OF hcut [unfolded P2'] tcut] by (simp add: insert_commute)
  have MM: "\<forall>q \<in> set (N @ M @ K). hs \<le> adr st2 q \<and> endp st2 q \<le> te"
  proof
    fix q assume "q \<in> set (N @ M @ K)"
    then consider "q \<in> set N" | "q \<in> set M" | "q \<in> set K" by auto
    then show "hs \<le> adr st2 q \<and> endp st2 q \<le> te"
    proof cases
      case 1
      then show ?thesis using entry_eqD [OF e2 [of q]] hend(2) lt(2) by auto
    next
      case 2
      then have "entry st1 q = entry st q" using hen(1) by simp
      then show ?thesis using 2 entry_eqD [OF e2 [of q]] entry_eqD [of st1 q st] M by auto
    next
      case 3
      then show ?thesis using tend(2) ib1 lt by auto
    qed
  qed
  have AB: "entry st2 q = entry st q" if "q \<in> set A \<union> set B" for q
    using e2 [of q] hen(1) that by auto
  have eia: "entry st2 ia = entry st1 ia" using e2 [of ia] by simp
  have hstab: "entry st1 h = entry st h" if "entry st2 h = entry st h" "index_of st h (m_sm m) P" for h
  proof -
    have "h \<in> set P" "siz st h = 0" using that(2) by (auto simp: index_of_def)
    then show ?thesis using hen eia that(1) P by (cases "h = ia") auto
  qed
  have ix: "index_of st2 h (m_sm m2) (A @ ia # (N @ M @ K) @ ib # B)"
    if "\<not> rd" "key_range hs" "key_range te" "index_of st h (m_sm m) P" "entry st2 h = entry st h" for h
  proof -
    have "index_of st1 h (m_sm m1) P2"
      using hix that hstab unfolding P2' by blast
    moreover have "entry st2 h = entry st1 h" using hstab that by simp
    ultimately show ?thesis using tix that by simp
  qed
  have "cut_at_range st m P hs te rd st2 m2 A ia (N @ M @ K) ib B"
    unfolding cut_at_range_def
  proof (intro conjI)
    show "endp st2 ia \<le> hs" using entry_eqD [OF eia] hend(1) by simp
    show "\<forall>q \<in> set A \<union> set B. entry st2 q = entry st q" using AB by blast
    show "m_listheader m2 = m_listheader m" "m_listtail m2 = m_listtail m" "rd \<longrightarrow> m2 = m"
      using hm tm by simp_all
    show "\<forall>h. \<not> rd \<longrightarrow> key_range hs \<longrightarrow> key_range te \<longrightarrow> index_of st h (m_sm m) P \<longrightarrow>
        entry st2 h = entry st h \<longrightarrow> index_of st2 h (m_sm m2) (A @ ia # (N @ M @ K) @ ib # B)"
      using ix by blast
  qed (fact cut tend(1) MM)+
  moreover have "endp st ia \<le> hs \<longrightarrow> entry st2 ia = entry st ia" using eia hen(2) by simp
  moreover have "te \<le> adr st ib \<longrightarrow> entry st2 ib = entry st ib" using ten(2) ib1(1) eib by simp
  ultimately show ?thesis using r by blast
qed

section \<open>Splitting a list\<close>

lemma slm_has_exprs: "slm_ok st m ps \<Longrightarrow> has_exprs st (full_path m ps)"
  using slm_good unfolding has_exprs_def slm_ok_def by (auto simp: list_all_iff good_cell_def)

lemma slm_ordered: "slm_ok st m ps \<Longrightarrow> ordered header_addr (map (entry st) (full_path m ps)) tail_addr"
  by (simp add: slm_ok_def)

lemma slm_inj: "slm_ok st m ps \<Longrightarrow> inj_on (adr st) (set (full_path m ps))"
proof (rule inj_onI)
  fix p q assume ok: "slm_ok st m ps" and pq: "p \<in> set (full_path m ps)" "q \<in> set (full_path m ps)"
    and eq: "adr st p = adr st q"
  obtain i j where ij: "i < length (full_path m ps)" "full_path m ps ! i = p"
    "j < length (full_path m ps)" "full_path m ps ! j = q" using pq by (metis in_set_conv_nth)
  have "\<not> i < j" "\<not> j < i"
    using slm_adr_sorted [OF ok] ij eq unfolding sorted_wrt_iff_nth_less by fastforce+
  then show "p = q" using ij by simp
qed

lemma slm_distinct: "slm_ok st m ps \<Longrightarrow> distinct (full_path m ps)"
  by (simp add: slm_ok_def path_of_def)

lemma slm_index_of:
  assumes "slm_ok st m ps"
  shows "index_of st (m_listheader m) (m_sm m) (full_path m ps)"
proof -
  have S: "set (full_path m ps) - {m_listheader m} = set ps \<union> {m_listtail m}"
    using slm_distinct [OF assms] by auto
  have "keys_ok st (set ps \<union> {m_listtail m})"
    unfolding keys_ok_def
  proof
    show "\<forall>q \<in> set ps \<union> {m_listtail m}. key_range (adr st q)"
    proof
      fix q assume "q \<in> set ps \<union> {m_listtail m}"
      then consider "q \<in> set ps" | "adr st q = tail_addr" using assms by (auto simp: slm_ok_def)
      then show "key_range (adr st q)"
      proof cases
        case 1
        then show ?thesis using slm_good [OF assms 1] by (auto simp: key_range_def good_cell_def)
      qed (simp add: key_range_def)
    qed
    show "inj_on (adr st) (set ps \<union> {m_listtail m})"
      by (rule inj_on_subset [OF slm_inj [OF assms]]) auto
  qed
  then show ?thesis using assms unfolding index_of_def S by (auto simp: slm_ok_def index_ok_def)
qed

definition slm_path :: "store \<Rightarrow> slm \<Rightarrow> nat list \<Rightarrow> bool" where
  "slm_path st m P \<longleftrightarrow> (\<exists>ps. P = full_path m ps \<and> slm_ok st m ps)"

lemma lookup_empty_cell: "lookup (xs @ (a, 0, e) # ys) = lookup (xs @ ys)"
proof
  fix x show "lookup (xs @ (a, 0, e) # ys) x = lookup (xs @ ys) x" by (induction xs) auto
qed

lemma contents_full: "slm_ok st m ps \<Longrightarrow> lookup (map (entry st) (full_path m ps)) = contents st ps"
  using lookup_empty_cell [of "[]"] lookup_empty_cell [of "map (entry st) ps" _ _ "[]"]
  by (simp add: slm_ok_def contents_def entry_def)

lemma path_ends:
  assumes "hd P = h" "last P = t" "2 \<le> length P"
  shows "P = h # butlast (tl P) @ [t]"
  using assms by (cases P; cases "tl P" rule: rev_cases) auto

text \<open>
  When the cells of a list have been cut at both ends of a range, with header and tail as they
  were, the result is a list again.
\<close>

lemma slm_path_after_cut:
  assumes ok: "slm_ok st m ps" and cut: "cut_result st (full_path m ps) {hs, te} st' P'"
    and ends: "hd P' = m_listheader m" "last P' = m_listtail m"
    and en: "entry st' (m_listheader m) = entry st (m_listheader m)" "entry st' (m_listtail m) = entry st (m_listtail m)"
    and m': "m_listheader m' = m_listheader m" "m_listtail m' = m_listtail m"
    and ix: "index_of st' (m_listheader m) (m_sm m') P'"
    and r: "hs \<noteq> - 1" "te \<noteq> - 1"
  shows "slm_path st' m' P'"
proof -
  define qs where "qs = butlast (tl P')"
  let ?h = "m_listheader m" and ?t = "m_listtail m"
  have sub: "{?h, ?t} \<subseteq> set P'" "?h \<noteq> ?t" using cut slm_distinct [OF ok] by (auto simp: cut_result_def)
  then have "2 \<le> length P'" by (cases P'; cases "tl P'") auto
  then have P': "P' = full_path m' qs" unfolding qs_def m' by (rule path_ends [OF ends])
  have pth: "path_of st' P'" and hx: "has_exprs st' P'" and pc: "\<And>q. q \<in> set P' \<Longrightarrow> piece_of st (full_path m ps) {hs, te} st' q"
    and o: "ordered header_addr (map (entry st') P') tail_addr"
    using cut slm_ordered [OF ok] by (auto simp: cut_result_def)
  have hne: "?h \<notin> set qs" "?t \<notin> set qs" using pth unfolding P' path_of_def m' by auto
  have good: "good_cell st' q" if q: "q \<in> set qs" for q
  proof -
    have qP: "q \<in> set P'" using q P' by auto
    from pc [OF qP] consider "q \<in> set (full_path m ps)" "entry st' q = entry st q"
      | r where "0 < siz st' q" "r \<in> set (full_path m ps)" "adr st r \<le> adr st' q" "endp st' q \<le> endp st r"
        "0 < siz st r" "adr st' q \<in> {hs, te} \<or> adr st' q = adr st r"
      unfolding piece_of_def by blast
    then show ?thesis
    proof cases
      case 1
      then have "q \<in> set ps" using q hne by auto
      from slm_good [OF ok this] show ?thesis using entry_eqD [OF 1(2)] by (simp add: good_cell_def)
    next
      case 2
      then have "r \<in> set ps" using ok by (auto simp: slm_ok_def)
      from slm_good [OF ok this] have "- (2 ^ 58) \<le> adr st r" "endp st r < 2 ^ 58" "adr st r \<noteq> - 1"
        by (auto simp: good_cell_def)
      then show ?thesis
        using 2 r hx qP unfolding good_cell_def has_exprs_def by auto
    qed
  qed
  have "set P' - {?h} = set qs \<union> {?t}" using pth unfolding P' path_of_def m' by auto
  then have "index_ok st' m' qs" using ix unfolding index_of_def index_ok_def m' by simp
  then have "slm_ok st' m' qs"
    using pth o good ok en unfolding slm_ok_def P' m' by (auto simp: list_all_iff entry_def)
  then show ?thesis unfolding slm_path_def using P' by blast
qed

definition range_ok :: "int \<Rightarrow> int \<Rightarrow> bool" where
  "range_ok hs te \<longleftrightarrow> hs < te \<and> - (2 ^ 58) \<le> hs \<and> te < 2 ^ 58 \<and> hs \<noteq> - 1 \<and> te \<noteq> - 1"

lemma range_okD:
  "range_ok hs te \<Longrightarrow> key_range hs \<and> key_range te \<and> header_addr < hs \<and> te < tail_addr \<and> hs < te"
  by (auto simp: range_ok_def key_range_def header_addr_def tail_addr_def)

text \<open>A list cut at both ends of a range: the cells in the range are those between two cells.\<close>

definition slm_cut ::
    "store \<Rightarrow> slm \<Rightarrow> nat list \<Rightarrow> int \<Rightarrow> int \<Rightarrow> store \<Rightarrow> slm \<Rightarrow> nat list \<Rightarrow> nat \<Rightarrow> nat list \<Rightarrow> nat \<Rightarrow> nat list \<Rightarrow> bool" where
  "slm_cut st m ps hs te st' m' A ia M ib B \<longleftrightarrow>
     slm_path st' m' (A @ ia # M @ ib # B) \<and>
     lookup (map (entry st') (A @ ia # M @ ib # B)) = contents st ps \<and>
     endp st' ia \<le> hs \<and> te \<le> adr st' ib \<and> (\<forall>q \<in> set M. hs \<le> adr st' q \<and> endp st' q \<le> te) \<and>
     untouched st st' (set (full_path m ps)) \<and>
     (\<forall>q \<in> set (A @ ia # M @ ib # B). q \<in> set (full_path m ps) \<or> fresh st \<le> q) \<and>
     m_listheader m' = m_listheader m \<and> m_listtail m' = m_listtail m"

lemma slm_cutI:
  assumes ok: "slm_ok st m ps" and r: "range_ok hs te"
    and c: "cut_at_range st m (full_path m ps) hs te False st' m' A ia M ib B"
    and ends: "hd (A @ ia # M @ ib # B) = m_listheader m" "last (A @ ia # M @ ib # B) = m_listtail m"
    and en: "entry st' (m_listheader m) = entry st (m_listheader m)" "entry st' (m_listtail m) = entry st (m_listtail m)"
  shows "slm_cut st m ps hs te st' m' A ia M ib B"
proof -
  have cut: "cut_result st (full_path m ps) {hs, te} st' (A @ ia # M @ ib # B)"
    and m': "m_listheader m' = m_listheader m" "m_listtail m' = m_listtail m"
    using c by (auto simp: cut_at_range_def)
  have "index_of st' (m_listheader m) (m_sm m') (A @ ia # M @ ib # B)"
    using c slm_index_of [OF ok] range_okD [OF r] en(1) unfolding cut_at_range_def by blast
  then have "slm_path st' m' (A @ ia # M @ ib # B)"
    using slm_path_after_cut [OF ok cut ends en m'] r by (simp add: range_ok_def)
  moreover have "lookup (map (entry st') (A @ ia # M @ ib # B)) = contents st ps"
    using cut contents_full [OF ok] by (simp add: cut_result_def)
  moreover have "untouched st st' (set (full_path m ps))"
    "\<forall>q \<in> set (A @ ia # M @ ib # B). q \<in> set (full_path m ps) \<or> fresh st \<le> q"
    using cut unfolding cut_result_def by blast+
  ultimately show ?thesis using c unfolding slm_cut_def cut_at_range_def by blast
qed

lemma slm_split:
  assumes ok: "slm_ok st m ps" and r: "range_ok hs te"
  shows "\<exists>ia ib0 st' m' A M ib B. GetAffectedCells st m hs te = Inr (ia, ib0) \<and>
    Split_Head_Tail st m ia ib0 hs te False = Inr (st', m', ib) \<and> slm_cut st m ps hs te st' m' A ia M ib B"
proof -
  let ?P = "full_path m ps" and ?h = "m_listheader m" and ?t = "m_listtail m"
  have rr: "key_range hs" "header_addr < hs" "hs < te" "te < tail_addr" using range_okD [OF r] by auto
  note pth = slm_ok_path [OF ok] and hx = slm_has_exprs [OF ok] and o = slm_ordered [OF ok]
  have sent: "adr st ?h = header_addr" "siz st ?h = 0" "adr st ?t = tail_addr" "siz st ?t = 0"
    using ok by (auto simp: slm_ok_def)
  from GetAffectedCells_ok [OF ok rr] consider
      (inside) A ia B where "GetAffectedCells st m hs te = Inr (ia, ia)" "found_inside st ?P hs te A ia B" "A \<noteq> []" "B \<noteq> []"
    | (across) A ia M ib B where "GetAffectedCells st m hs te = Inr (ia, ib)" "found_across st ?P hs te A ia M ib B"
    by blast
  then show ?thesis
  proof cases
    case inside
    have P: "?P = A @ ia # B" using inside(2) by (simp add: found_inside_def)
    have AB: "?h \<in> set A" "hd A = ?h" "?t \<in> set B" "last B = ?t"
      using P inside(3,4) by (cases A; cases B rule: rev_cases; auto)+
    obtain st' m' M ib where s: "Split_Head_Tail st m ia ia hs te False = Inr (st', m', ib)"
      and c: "cut_at_range st m ?P hs te False st' m' A ia M ib B"
      using split_inside [OF pth inside(2) rr(3) _ hx o, of m False] inside(4) by blast
    have en: "entry st' ?h = entry st ?h" "entry st' ?t = entry st ?t"
      using c AB unfolding cut_at_range_def by blast+
    have "slm_cut st m ps hs te st' m' A ia M ib B"
      by (rule slm_cutI [OF ok r c _ _ en]) (use AB inside(3,4) in auto)
    then show ?thesis using inside(1) s by blast
  next
    case across
    have P: "?P = A @ ia # M @ ib # B" using across(2) by (simp add: found_across_def)
    obtain st' m' M' where s: "Split_Head_Tail st m ia ib hs te False = Inr (st', m', ib)"
      and c: "cut_at_range st m ?P hs te False st' m' A ia M' ib B"
      and ii: "endp st ia \<le> hs \<longrightarrow> entry st' ia = entry st ia" "te \<le> adr st ib \<longrightarrow> entry st' ib = entry st ib"
      using split_across [OF pth across(2) rr(3) hx o, of m False] by blast
    have h: "hd (A @ [ia]) = ?h" using P by (cases A) auto
    have t: "last (ib # B) = ?t"
    proof -
      have "last ?P = last (ib # B)" unfolding P by simp
      then show ?thesis by simp
    qed
    have cen: "\<forall>q \<in> set A \<union> set B. entry st' q = entry st q" using c by (simp add: cut_at_range_def)
    have en1: "entry st' ?h = entry st ?h"
    proof (cases "A = []")
      case True
      then have "ia = ?h" using h by simp
      then show ?thesis using ii(1) sent rr(2) by simp
    next
      case False
      then have "?h \<in> set A" using h hd_in_set [of A] by simp
      then show ?thesis using cen by blast
    qed
    have en2: "entry st' ?t = entry st ?t"
    proof (cases "B = []")
      case True
      then have "ib = ?t" using t by simp
      then show ?thesis using ii(2) sent rr(4) by simp
    next
      case False
      then have "?t \<in> set B" using t last_in_set [of B] by simp
      then show ?thesis using cen by blast
    qed
    have "slm_cut st m ps hs te st' m' A ia M' ib B"
      by (rule slm_cutI [OF ok r c _ _ en1 en2]) (use h t in \<open>cases A; simp\<close>)+
    then show ?thesis using across(1) s by blast
  qed
qed

section \<open>Taking out the cells of the range\<close>

lemma ordered_raise: "ordered lo es m \<Longrightarrow> m \<le> m' \<Longrightarrow> ordered lo es m'"
  by (induction lo es m rule: ordered.induct) auto

lemma ordered_last: "ordered lo (map (entry st) (xs @ [c])) hi \<Longrightarrow> endp st c \<le> m \<Longrightarrow> ordered lo (map (entry st) (xs @ [c])) m"
  by (induction xs arbitrary: lo) (auto simp: ordered_entry)

lemma ordered_first: "ordered lo (entry st c # es) hi \<Longrightarrow> m \<le> adr st c \<Longrightarrow> ordered m (entry st c # es) hi"
  by (simp add: ordered_entry)

lemma ordered_within:
  "ordered lo (map (entry st) M) hi \<Longrightarrow> \<forall>q \<in> set M. hs \<le> adr st q \<and> endp st q \<le> te \<Longrightarrow> hs \<le> te \<Longrightarrow>
     ordered hs (map (entry st) M) te"
proof (induction M arbitrary: lo hs)
  case (Cons p M)
  have "\<forall>q \<in> set M. endp st p \<le> adr st q \<and> endp st q \<le> te"
    using ordered_bounds' [of "endp st p" st M hi] Cons.prems(1,2) by (auto simp: ordered_entry)
  then have "ordered (endp st p) (map (entry st) M) te"
    using Cons.IH [of "endp st p" "endp st p"] Cons.prems by (auto simp: ordered_entry)
  then show ?case using Cons.prems by (auto simp: ordered_entry)
qed simp

text \<open>The three parts of a list around a range.\<close>

lemma slm_parts:
  assumes "ordered lo (map (entry st) (A @ ia # M @ ib # B)) hi" "endp st ia \<le> hs" "te \<le> adr st ib" "hs \<le> te"
    "\<forall>q \<in> set M. hs \<le> adr st q \<and> endp st q \<le> te"
  shows "ordered lo (map (entry st) (A @ [ia])) hs" "ordered hs (map (entry st) M) te"
    "ordered te (map (entry st) (ib # B)) hi"
proof -
  have "ordered lo (map (entry st) (A @ [ia]) @ map (entry st) M @ map (entry st) (ib # B)) hi"
    using assms(1) by simp
  then obtain m1 m2 where m: "ordered lo (map (entry st) (A @ [ia])) m1" "ordered m1 (map (entry st) M) m2"
    "ordered m2 (map (entry st) (ib # B)) hi" unfolding ordered_append by blast
  show "ordered lo (map (entry st) (A @ [ia])) hs" by (rule ordered_last [OF m(1) assms(2)])
  show "ordered hs (map (entry st) M) te" by (rule ordered_within [OF m(2) assms(5,4)])
  show "ordered te (map (entry st) (ib # B)) hi"
    using ordered_first [of m2 st ib "map (entry st) B" hi te] m(3) assms(3) by simp
qed

lemma lookup_parts:
  assumes "ordered lo X hs" "ordered hs Y te" "ordered te Z hi"
  shows "lookup (X @ Y @ Z) x = (if x < hs then lookup X x else if x < te then lookup Y x else lookup Z x)"
proof -
  have "ordered hs (Y @ Z) hi" using assms(2,3) unfolding ordered_append by blast
  then show ?thesis using lookup_append [OF assms(1), of "Y @ Z" hi x] lookup_append [OF assms(2,3), of x] by simp
qed

text \<open>Replacing what lies between the two cells.\<close>

lemma lookup_replace:
  assumes "ordered lo X hs" "ordered hs Y te" "ordered hs Y' te" "ordered te Z hi"
  shows "lookup (X @ Y' @ Z) x = (if hs \<le> x \<and> x < te then lookup Y' x else lookup (X @ Y @ Z) x)"
  using lookup_parts [OF assms(1,2,4), of x] lookup_parts [OF assms(1,3,4), of x] by auto

lemma erase_loop_ok:
  "linked st (M @ [ib]) \<Longrightarrow> ib \<notin> set M \<Longrightarrow> length M < n \<Longrightarrow>
     erase_loop n st ix (Some (hd (M @ [ib]))) ib =
       Inr (\<lambda>k. if k \<in> (\<lambda>p. ADDR_TO_KEY (adr st p)) ` set M then None else ix k)"
proof (induction M arbitrary: n ix)
  case Nil
  then show ?case by (cases n) (simp_all add: erase_loop.simps(2))
next
  case (Cons p M)
  obtain k where n: "n = Suc k" using Cons.prems by (cases n) auto
  have nx: "nxt st p = Some (hd (M @ [ib]))" using Cons.prems(1) by (simp add: linked_Cons)
  have "erase_loop n st ix (Some (hd ((p # M) @ [ib]))) ib =
      erase_loop k st (ix(ADDR_TO_KEY (adr st p) := None)) (Some (hd (M @ [ib]))) ib"
    using Cons.prems by (simp add: n erase_loop.simps(2) nx)
  also have "\<dots> = Inr (\<lambda>k. if k \<in> (\<lambda>p. ADDR_TO_KEY (adr st p)) ` set M then None
      else (ix(ADDR_TO_KEY (adr st p) := None)) k)"
    by (rule Cons.IH) (use Cons.prems n in \<open>auto simp: linked_Cons\<close>)
  finally show ?case by (auto simp: fun_eq_iff)
qed

lemma index_remove:
  assumes ix: "index_rel st h ix S" and M: "M \<subseteq> S" and k: "keys_ok st S"
    and same: "\<forall>q \<in> S. adr st' q = adr st q"
  shows "index_rel st' h (\<lambda>k. if k \<in> (\<lambda>p. ADDR_TO_KEY (adr st p)) ` M then None else ix k) (S - M)"
proof -
  define K where "K = (\<lambda>p. ADDR_TO_KEY (adr st p))"
  define ix' where "ix' = (\<lambda>k. if k \<in> K ` M then None else ix k)"
  have inj: "inj_on K S"
    using k key_inj unfolding K_def keys_ok_def inj_on_def by blast
  have neg: "- 1 \<notin> K ` X" for X using key_nonneg unfolding K_def by (metis imageE)
  have img: "K ` (S - M) = K ` S - K ` M"
    by (rule inj_on_image_set_diff [OF inj]) (use M in blast)+
  have ixK: "ix (- 1) = Some h" "\<And>p. p \<in> S \<Longrightarrow> ix (K p) = Some p" "dom ix = insert (- 1) (K ` S)"
    using ix by (auto simp: index_rel_def K_def)
  have K': "ADDR_TO_KEY (adr st' p) = K p" if "p \<in> S - M" for p using same that by (simp add: K_def)
  have "dom ix' = dom ix - K ` M" by (auto simp: ix'_def split: if_splits)
  then have "dom ix' = insert (- 1) (K ` (S - M))" unfolding ixK(3) img using neg [of M] by blast
  moreover have "(\<lambda>p. ADDR_TO_KEY (adr st' p)) ` (S - M) = K ` (S - M)"
    by (rule image_cong) (use K' in simp_all)
  moreover have "ix' (ADDR_TO_KEY (adr st' p)) = Some p" if "p \<in> S - M" for p
  proof -
    have "K p \<notin> K ` M" using that img by blast
    then show ?thesis using K' [OF that] ixK(2) that by (simp add: ix'_def)
  qed
  moreover have "ix' (- 1) = Some h" using neg [of M] ixK(1) by (simp add: ix'_def)
  ultimately show ?thesis unfolding index_rel_def ix'_def K_def by simp
qed

lemma entry_set_links [simp]:
  "entry (set_next p v st) q = entry st q" "entry (set_prev p v st) q = entry st q"
  by (auto simp: entry_def)

text \<open>
  Joining two cells of a path, with the cells between them left out: the links of the result.
\<close>

lemma path_join:
  assumes p: "path_of st (A @ ia # M @ ib # B)"
  shows "path_of (set_prev ib (Some ia) (set_next ia (Some ib) st)) (A @ ia # ib # B)"
proof -
  let ?st = "set_prev ib (Some ia) (set_next ia (Some ib) st)"
  have d: "distinct (A @ ia # M @ ib # B)" and l: "linked st (A @ ia # M @ ib # B)"
    using p by (auto simp: path_of_def)
  have lA: "linked st (A @ [ia])" using l linked_append [of st "A @ [ia]" "M @ ib # B"] by simp
  have lB: "linked st (ib # B)" using l linked_append [of st "A @ ia # M" "ib # B"] by simp
  have "linked ?st (A @ [ia]) = linked st (A @ [ia])"
    by (rule linked_cong) (use d in \<open>auto dest!: in_set_tlD split: if_splits\<close>)
  moreover have "linked ?st (ib # B) = linked st (ib # B)"
    by (rule linked_cong) (use d in \<open>auto dest!: in_set_butlastD split: if_splits\<close>)
  ultimately have "linked ?st ((A @ [ia]) @ ib # B)"
    using linked_append [of ?st "A @ [ia]" "ib # B"] lA lB d by auto
  then show ?thesis using p by (auto simp: path_of_def)
qed

lemma good_cell_entry: "entry st' q = entry st q \<Longrightarrow> good_cell st' q = good_cell st q"
  by (simp add: good_cell_def entry_def)

lemma slm_path_hd_last:
  assumes "slm_path st m P" shows "hd P = m_listheader m" "last P = m_listtail m"
  using assms by (auto simp: slm_path_def)

lemma ordered_drop: "ordered lo (X @ Y @ Z) hi \<Longrightarrow> ordered lo (X @ Z) hi"
proof -
  assume "ordered lo (X @ Y @ Z) hi"
  then obtain m1 m2 where m: "ordered lo X m1" "ordered m1 Y m2" "ordered m2 Z hi"
    unfolding ordered_append by blast
  then have "ordered lo X m2" using ordered_raise ordered_le by blast
  then show ?thesis using m(3) unfolding ordered_append by blast
qed

text \<open>
  A path with the header and the tail at its ends, good cells between and a matching index is a
  list.
\<close>

lemma slm_pathI:
  assumes "path_of st P" "hd P = m_listheader m" "last P = m_listtail m" "m_listheader m \<noteq> m_listtail m"
    "P \<noteq> []" "ordered header_addr (map (entry st) P) tail_addr"
    "adr st (m_listheader m) = header_addr" "siz st (m_listheader m) = 0"
    "adr st (m_listtail m) = tail_addr" "siz st (m_listtail m) = 0"
    "\<forall>q \<in> set P - {m_listheader m, m_listtail m}. good_cell st q"
    "index_rel st (m_listheader m) (m_sm m) (set P - {m_listheader m})"
  shows "slm_path st m P"
proof -
  define qs where "qs = butlast (tl P)"
  have "2 \<le> length P" using assms(2-5) by (cases P; cases "tl P") auto
  then have P: "P = full_path m qs" unfolding qs_def using path_ends [OF assms(2,3)] by simp
  have d: "distinct (full_path m qs)" using assms(1) P by (simp add: path_of_def)
  then have "set P - {m_listheader m} = set qs \<union> {m_listtail m}"
    "set P - {m_listheader m, m_listtail m} = set qs" unfolding P by auto
  then have "slm_ok st m qs"
    using assms unfolding slm_ok_def index_ok_def P by (simp add: list_all_iff)
  then show ?thesis unfolding slm_path_def using P by blast
qed

lemma slm_pathD:
  assumes "slm_path st m P"
  shows "path_of st P" "m_listheader m \<noteq> m_listtail m" "ordered header_addr (map (entry st) P) tail_addr"
    "adr st (m_listheader m) = header_addr" "siz st (m_listheader m) = 0"
    "adr st (m_listtail m) = tail_addr" "siz st (m_listtail m) = 0"
    "\<forall>q \<in> set P - {m_listheader m, m_listtail m}. good_cell st q"
    "index_of st (m_listheader m) (m_sm m) P"
proof -
  obtain ps where ps: "P = full_path m ps" "slm_ok st m ps" using assms by (auto simp: slm_path_def)
  show "index_of st (m_listheader m) (m_sm m) P" unfolding ps(1) by (rule slm_index_of [OF ps(2)])
  show "path_of st P" "m_listheader m \<noteq> m_listtail m" "ordered header_addr (map (entry st) P) tail_addr"
    "adr st (m_listheader m) = header_addr" "siz st (m_listheader m) = 0"
    "adr st (m_listtail m) = tail_addr" "siz st (m_listtail m) = 0"
    "\<forall>q \<in> set P - {m_listheader m, m_listtail m}. good_cell st q"
    using ps slm_distinct [OF ps(2)] by (auto simp: slm_ok_def list_all_iff)
qed

lemma Remove_between_ok:
  assumes sp: "slm_path st m (A @ ia # M @ ib # B)"
  shows "\<exists>st' m'. Remove_between st m ia ib = Inr (st', m') \<and> slm_path st' m' (A @ ia # ib # B) \<and>
    st' = set_prev ib (Some ia) (set_next ia (Some ib) st) \<and>
    m_listheader m' = m_listheader m \<and> m_listtail m' = m_listtail m"
proof -
  let ?P = "A @ ia # M @ ib # B" and ?h = "m_listheader m" and ?t = "m_listtail m"
  note D = slm_pathD [OF sp]
  note E = slm_path_hd_last [OF sp]
  have d: "distinct ?P" and l: "linked st ?P" using D(1) by (auto simp: path_of_def)
  have hM: "?h \<notin> set M" "?t \<notin> set M"
  proof -
    have "?h \<in> set (A @ [ia])" using E(1) by (cases A) auto
    then show "?h \<notin> set M" using d by auto
    have "?t \<in> set (ib # B)" using E(2) last_in_set [of "ib # B"] by simp
    then show "?t \<notin> set M" using d by auto
  qed
  have lM: "linked st (M @ [ib])"
    using l linked_append [of st "A @ [ia]" "M @ ib # B"] linked_append [of st "M @ [ib]" B] by simp
  have nx: "nxt st ia = Some (hd (M @ [ib]))"
    using l linked_append [of st "A @ [ia]" "M @ ib # B"] by (cases M) auto
  have len: "length M < fresh st + 1" using length_path [OF D(1)] by simp
  define ix where "ix = (\<lambda>k. if k \<in> (\<lambda>p. ADDR_TO_KEY (adr st p)) ` set M then None else m_sm m k)"
  define st' where "st' = set_prev ib (Some ia) (set_next ia (Some ib) st)"
  define m' where "m' = m\<lparr>m_sm := ix\<rparr>"
  have er: "erase_loop (fresh st + 1) st (m_sm m) (nxt st ia) ib = Inr ix"
    unfolding nx ix_def by (rule erase_loop_ok [OF lM _ len]) (use d in simp)
  have r: "Remove_between st m ia ib = Inr (st', m')"
    unfolding Remove_between_def er by (simp add: st'_def m'_def)
  have en: "entry st' q = entry st q" for q by (simp add: st'_def)
  have ae: "adr st' q = adr st q" "siz st' q = siz st q" for q using entry_eqD [OF en [of q]] by simp_all
  have pth: "path_of st' (A @ ia # ib # B)" unfolding st'_def by (rule path_join [OF D(1)])
  have or: "ordered header_addr (map (entry st') (A @ ia # ib # B)) tail_addr"
    using ordered_drop [of header_addr "map (entry st) (A @ [ia])" "map (entry st) M" "map (entry st) (ib # B)" tail_addr] D(3)
    by (simp add: ext [of "entry st'", OF en])
  have S: "set (A @ ia # ib # B) - {?h} = (set ?P - {?h}) - set M" using d hM by auto
  have ixr: "index_rel st' ?h ix (set (A @ ia # ib # B) - {?h})"
    unfolding ix_def S
    by (rule index_remove) (use D(9) hM ae in \<open>auto simp: index_of_def\<close>)
  have "slm_path st' m' (A @ ia # ib # B)"
  proof (rule slm_pathI [OF pth])
    show "hd (A @ ia # ib # B) = m_listheader m'" using E(1) by (cases A) (auto simp: m'_def)
    show "last (A @ ia # ib # B) = m_listtail m'" using E(2) by (auto simp: m'_def)
    show "\<forall>q \<in> set (A @ ia # ib # B) - {m_listheader m', m_listtail m'}. good_cell st' q"
      using D(8) good_cell_entry [OF en] by (auto simp: m'_def)
    show "index_rel st' (m_listheader m') (m_sm m') (set (A @ ia # ib # B) - {m_listheader m'})"
      using ixr by (simp add: m'_def)
  qed (use D(2,4-7) or ae in \<open>simp_all add: m'_def\<close>)
  then show ?thesis using r unfolding st'_def by (auto simp: m'_def)
qed

section \<open>Remove\<close>

text \<open>
  What an operation may change besides its own list: nothing. The cells of the new list were
  cells of the old one, are new, or come from the extra set (the list that is merged in).
\<close>

definition list_step :: "nat set \<Rightarrow> store \<Rightarrow> slm \<Rightarrow> nat list \<Rightarrow> store \<Rightarrow> slm \<Rightarrow> nat list \<Rightarrow> bool" where
  "list_step X st m ps st' m' ps' \<longleftrightarrow>
     slm_ok st' m' ps' \<and> untouched st st' (set (full_path m ps) \<union> X) \<and>
     (\<forall>q \<in> set (full_path m' ps'). q \<in> set (full_path m ps) \<union> X \<or> fresh st \<le> q) \<and>
     m_listheader m' = m_listheader m \<and> m_listtail m' = m_listtail m"

lemma untouched_upd: "untouched st st1 X \<Longrightarrow> q \<in> X \<or> fresh st \<le> q \<Longrightarrow> untouched st (upd q f st1) X"
  by (auto simp: untouched_def)

lemma op_range_range_ok: "op_range a n \<Longrightarrow> range_ok a (a + n)"
  by (auto simp: op_range_def range_ok_def)

lemma Remove_ok:
  assumes ok: "slm_ok st m ps" and r: "range_ok hs te"
  shows "\<exists>st' m' ps'. Remove st m hs (te - hs) = Inr (st', m') \<and> list_step {} st m ps st' m' ps' \<and>
    contents st' ps' = (\<lambda>x. if hs \<le> x \<and> x < te then None else contents st ps x)"
proof -
  obtain ia ib0 st1 m1 A M ib B where g: "GetAffectedCells st m hs te = Inr (ia, ib0)"
    and s: "Split_Head_Tail st m ia ib0 hs te False = Inr (st1, m1, ib)"
    and c: "slm_cut st m ps hs te st1 m1 A ia M ib B" using slm_split [OF ok r] by blast
  have sp: "slm_path st1 m1 (A @ ia # M @ ib # B)"
    and lk: "lookup (map (entry st1) (A @ ia # M @ ib # B)) = contents st ps"
    and ba: "endp st1 ia \<le> hs" "te \<le> adr st1 ib" "\<forall>q \<in> set M. hs \<le> adr st1 q \<and> endp st1 q \<le> te"
    and un: "untouched st st1 (set (full_path m ps))"
    and fr: "\<forall>q \<in> set (A @ ia # M @ ib # B). q \<in> set (full_path m ps) \<or> fresh st \<le> q"
    and m1: "m_listheader m1 = m_listheader m" "m_listtail m1 = m_listtail m"
    using c by (auto simp: slm_cut_def)
  obtain st' m' where rb: "Remove_between st1 m1 ia ib = Inr (st', m')"
    and sp': "slm_path st' m' (A @ ia # ib # B)"
    and st': "st' = set_prev ib (Some ia) (set_next ia (Some ib) st1)"
    and m': "m_listheader m' = m_listheader m1" "m_listtail m' = m_listtail m1"
    using Remove_between_ok [OF sp] by blast
  obtain ps' where ps': "A @ ia # ib # B = full_path m' ps'" "slm_ok st' m' ps'"
    using sp' by (auto simp: slm_path_def)
  have le: "hs \<le> te" using r by (simp add: range_ok_def)
  note parts = slm_parts [OF slm_pathD(3) [OF sp] ba(1,2) le ba(3)]
  have en: "entry st' = entry st1" by (rule ext) (simp add: st')
  have emp: "ordered hs [] te" using le by simp
  have "contents st' ps' = lookup (map (entry st1) (A @ [ia]) @ [] @ map (entry st1) (ib # B))"
    using contents_full [OF ps'(2)] unfolding ps'(1) [symmetric] en by simp
  moreover have "contents st ps = lookup (map (entry st1) (A @ [ia]) @ map (entry st1) M @ map (entry st1) (ib # B))"
    unfolding lk [symmetric] by simp
  ultimately have co: "contents st' ps' = (\<lambda>x. if hs \<le> x \<and> x < te then None else contents st ps x)"
    using lookup_replace [OF parts(1,2) emp parts(3)] by (auto simp: fun_eq_iff)
  have "ia \<in> set (full_path m ps) \<or> fresh st \<le> ia" "ib \<in> set (full_path m ps) \<or> fresh st \<le> ib"
    using fr by simp_all
  then have "untouched st st' (set (full_path m ps) \<union> {})"
    unfolding st' using un by (simp add: untouched_upd)
  moreover have "\<forall>q \<in> set (full_path m' ps'). q \<in> set (full_path m ps) \<union> {} \<or> fresh st \<le> q"
    unfolding ps'(1) [symmetric] using fr by auto
  ultimately have "list_step {} st m ps st' m' ps'"
    unfolding list_step_def using ps'(2) m' m1 by simp
  moreover have "Remove st m hs (te - hs) = Inr (st', m')"
    using g s rb by (simp add: Remove_def)
  ultimately show ?thesis using co by blast
qed

section \<open>Merge\<close>

lemma last_cell_ok:
  "linked st S \<Longrightarrow> S \<noteq> [] \<Longrightarrow> nxt st (last S) = None \<Longrightarrow> length S \<le> n \<Longrightarrow> last_cell n st (hd S) = Inr (last S)"
proof (induction S arbitrary: n)
  case (Cons p S)
  then obtain k where n: "n = Suc k" by (cases n) auto
  show ?case
  proof (cases "S = []")
    case True
    then show ?thesis using Cons.prems by (simp add: n last_cell.simps(2))
  next
    case False
    then have "nxt st p = Some (hd S)" "linked st S" using Cons.prems(1) by (simp_all add: linked_Cons)
    then show ?thesis using Cons.IH [of k] Cons.prems False by (simp add: n last_cell.simps(2))
  qed
qed simp

definition index_all :: "store \<Rightarrow> nat list \<Rightarrow> (int \<rightharpoonup> nat) \<Rightarrow> int \<rightharpoonup> nat" where
  "index_all st S ix = foldl (\<lambda>ix p. ix(ADDR_TO_KEY (adr st p) \<mapsto> p)) ix S"

lemma index_loop_ok:
  "linked st S \<Longrightarrow> S \<noteq> [] \<Longrightarrow> distinct S \<Longrightarrow> length S \<le> n \<Longrightarrow>
     index_loop n st ix (hd S) (last S) = Inr (index_all st S ix)"
proof (induction S arbitrary: n ix)
  case (Cons p S)
  then obtain k where n: "n = Suc k" by (cases n) auto
  show ?case
  proof (cases "S = []")
    case True
    then show ?thesis by (simp add: n index_loop.simps(2) index_all_def fun_upd_def Let_def)
  next
    case False
    then have "nxt st p = Some (hd S)" "linked st S" using Cons.prems(1) by (simp_all add: linked_Cons)
    moreover have "p \<noteq> last S" using Cons.prems(3) False last_in_set [of S] by auto
    ultimately show ?thesis
      using Cons.IH [of k "ix(ADDR_TO_KEY (adr st p) \<mapsto> p)"] Cons.prems False
      by (simp add: n index_loop.simps(2) index_all_def Let_def fun_upd_def)
  qed
qed simp

lemma index_all_rel:
  "index_rel st h ix X \<Longrightarrow> keys_ok st (X \<union> set S) \<Longrightarrow> distinct S \<Longrightarrow> set S \<inter> X = {} \<Longrightarrow>
     index_rel st h (index_all st S ix) (X \<union> set S)"
proof (induction S arbitrary: ix X)
  case Nil
  then show ?case by (simp add: index_all_def)
next
  case (Cons p S)
  have k: "keys_ok st X" using keys_ok_subset [OF Cons.prems(2), of X st] by auto
  have "\<forall>q \<in> X. ADDR_TO_KEY (adr st q) \<noteq> ADDR_TO_KEY (adr st p)"
  proof
    fix q assume q: "q \<in> X"
    then have "adr st q \<noteq> adr st p"
      using keys_ok_neq [OF Cons.prems(2), of q p] Cons.prems(4) by auto
    then show "ADDR_TO_KEY (adr st q) \<noteq> ADDR_TO_KEY (adr st p)"
      by (rule key_neq [rotated 2]) (use Cons.prems(2) q in \<open>auto simp: keys_ok_def\<close>)
  qed
  then have 1: "index_rel st h (ix(ADDR_TO_KEY (adr st p) \<mapsto> p)) (insert p X)"
    by (intro index_add [OF Cons.prems(1)]) simp_all
  have "index_rel st h (index_all st S (ix(ADDR_TO_KEY (adr st p) \<mapsto> p))) (insert p X \<union> set S)"
    by (rule Cons.IH [OF 1]) (use Cons.prems in auto)
  then show ?case by (simp add: index_all_def)
qed

text \<open>
  The list that is merged in: linked cells of its own, in order and not overlapping, that
  end with a null pointer.
\<close>

definition source_list :: "store \<Rightarrow> nat list \<Rightarrow> int \<Rightarrow> int \<Rightarrow> bool" where
  "source_list st S hs te \<longleftrightarrow>
     S \<noteq> [] \<and> path_of st S \<and> nxt st (last S) = None \<and> adr st (hd S) = hs \<and> endp st (last S) = te \<and>
     ordered hs (map (entry st) S) te \<and> list_all (good_cell st) S"

lemma source_range:
  assumes "source_list st S hs te" "te \<noteq> - 1"
  shows "range_ok hs te"
proof -
  have g: "good_cell st (hd S)" "good_cell st (last S)" using assms by (auto simp: source_list_def list_all_iff)
  have "ordered hs (map (entry st) S) te" "S \<noteq> []" using assms by (auto simp: source_list_def)
  then have "endp st (hd S) \<le> te" using ordered_bounds' [of hs st S te "hd S"] by simp
  then show ?thesis using assms g by (auto simp: source_list_def good_cell_def range_ok_def)
qed

text \<open>Linking a path in between two adjacent cells of another.\<close>

lemma path_insert:
  assumes p: "path_of st (A @ ia # ib # B)" and s: "path_of st S" "S \<noteq> []"
    and dj: "set S \<inter> set (A @ ia # ib # B) = {}"
  shows "path_of (set_next (last S) (Some ib) (set_prev ib (Some (last S))
      (set_prev (hd S) (Some ia) (set_next ia (Some (hd S)) st)))) (A @ ia # S @ ib # B)"
proof -
  define st' where "st' = set_next (last S) (Some ib) (set_prev ib (Some (last S))
      (set_prev (hd S) (Some ia) (set_next ia (Some (hd S)) st)))"
  have d: "distinct (A @ ia # ib # B)" "distinct S" using p s by (auto simp: path_of_def)
  have l: "linked st (A @ ia # ib # B)" "linked st S" using p s by (auto simp: path_of_def)
  have hl: "hd S \<in> set S" "last S \<in> set S" using s(2) by simp_all
  have ne: "hd S \<noteq> ia" "hd S \<noteq> ib" "last S \<noteq> ia" "last S \<noteq> ib" using hl dj by auto
  have iab: "ia \<noteq> ib" using d by simp
  have hn: "nxt st' q = (if q = last S then Some ib else if q = ia then Some (hd S) else nxt st q)" for q
    using ne by (simp add: st'_def)
  have hp: "prv st' q = (if q = ib then Some (last S) else if q = hd S then Some ia else prv st q)" for q
    using ne by (simp add: st'_def)
  have lA: "linked st (A @ [ia])" using l(1) linked_append [of st "A @ [ia]" "ib # B"] by simp
  have lB: "linked st (ib # B)" using l(1) linked_append [of st "A @ [ia]" "ib # B"] by simp
  have nA: "last S \<notin> set A" "hd S \<notin> set A" "last S \<notin> set B" "hd S \<notin> set B" using hl dj by auto
  have A: "linked st' (A @ [ia])"
  proof -
    have "linked st' (A @ [ia]) = linked st (A @ [ia])"
    proof (rule linked_cong)
      fix q assume "q \<in> set (butlast (A @ [ia]))"
      then have "q \<in> set A" by simp
      then have "q \<noteq> last S" "q \<noteq> ia" using nA d by auto
      then show "nxt st' q = nxt st q" by (simp add: hn)
    next
      fix q assume "q \<in> set (tl (A @ [ia]))"
      then have "q \<in> set (A @ [ia])" by (rule in_set_tlD)
      then have "q \<noteq> ib" "q \<noteq> hd S" using nA d ne by auto
      then show "prv st' q = prv st q" by (simp add: hp)
    qed
    then show ?thesis using lA by simp
  qed
  have B: "linked st' (ib # B)"
  proof -
    have "linked st' (ib # B) = linked st (ib # B)"
    proof (rule linked_cong)
      fix q assume "q \<in> set (butlast (ib # B))"
      then have "q \<in> set (ib # B)" by (rule in_set_butlastD)
      then have "q \<noteq> last S" "q \<noteq> ia" using nA d ne by auto
      then show "nxt st' q = nxt st q" by (simp add: hn)
    next
      fix q assume "q \<in> set (tl (ib # B))"
      then have "q \<in> set B" by simp
      then have "q \<noteq> ib" "q \<noteq> hd S" using nA d by auto
      then show "prv st' q = prv st q" by (simp add: hp)
    qed
    then show ?thesis using lB by simp
  qed
  have S: "linked st' S"
  proof -
    have "linked st' S = linked st S"
    proof (rule linked_cong)
      fix q assume q: "q \<in> set (butlast S)"
      then have "q \<noteq> last S" using distinct_butlast_last [OF d(2) q] by simp
      moreover have "q \<noteq> ia" using in_set_butlastD [OF q] dj by auto
      ultimately show "nxt st' q = nxt st q" by (simp add: hn)
    next
      fix q assume q: "q \<in> set (tl S)"
      then have "q \<noteq> hd S" using distinct_tl_hd [OF d(2) q] by simp
      moreover have "q \<noteq> ib" using in_set_tlD [OF q] dj by auto
      ultimately show "prv st' q = prv st q" by (simp add: hp)
    qed
    then show ?thesis using l(2) by simp
  qed
  have "linked st' (S @ ib # B)"
    using linked_append [of st' S "ib # B"] S B hn [of "last S"] hp [of ib] by simp
  then have "linked st' ((A @ [ia]) @ S @ ib # B)"
    using linked_append [of st' "A @ [ia]" "S @ ib # B"] A s(2) hn [of ia] hp [of "hd S"] ne by simp
  moreover have "distinct (A @ ia # S @ ib # B)" using d dj by auto
  moreover have "\<forall>q \<in> set (A @ ia # S @ ib # B). q < fresh st'"
    using p s by (auto simp: path_of_def st'_def)
  ultimately show ?thesis unfolding path_of_def st'_def by simp
qed

lemma source_inj:
  assumes "ordered lo (map (entry st) S) hi" "list_all (good_cell st) S"
  shows "keys_ok st (set S)"
proof -
  have so: "sorted_wrt (\<lambda>p q. adr st p < adr st q) S"
    by (rule sorted_wrt_mono_rel [OF _ ordered_sorted [OF assms(1)]])
      (use assms(2) in \<open>fastforce simp: list_all_iff good_cell_def\<close>)
  have "inj_on (adr st) (set S)"
  proof (rule inj_onI)
    fix p q assume pq: "p \<in> set S" "q \<in> set S" and eq: "adr st p = adr st q"
    obtain i j where ij: "i < length S" "S ! i = p" "j < length S" "S ! j = q"
      using pq by (metis in_set_conv_nth)
    have "\<not> i < j" "\<not> j < i" using so ij eq unfolding sorted_wrt_iff_nth_less by fastforce+
    then show "p = q" using ij by simp
  qed
  moreover have "key_range (adr st q)" if "q \<in> set S" for q
  proof -
    have "good_cell st q" using assms(2) that by (simp add: list_all_iff)
    then show ?thesis by (auto simp: good_cell_def key_range_def)
  qed
  ultimately show ?thesis by (simp add: keys_ok_def)
qed

text \<open>Where the cells of a list around a range lie: before it, or at or after its end.\<close>

lemma slm_sides:
  assumes sp: "slm_path st m (A @ ia # ib # B)" and ba: "endp st ia \<le> hs" "te \<le> adr st ib"
    and r: "range_ok hs te"
  shows "\<forall>q \<in> set (A @ [ia]). adr st q < hs" "\<forall>q \<in> set (ib # B). te \<le> adr st q"
proof -
  note D = slm_pathD [OF sp]
  note E = slm_path_hd_last [OF sp]
  have le: "hs \<le> te" using r by (simp add: range_ok_def)
  have o: "ordered header_addr (map (entry st) (A @ ia # [] @ ib # B)) tail_addr" using D(3) by simp
  have emp: "\<forall>q \<in> set []. hs \<le> adr st q \<and> endp st q \<le> te" by simp
  note parts = slm_parts [OF o ba le emp]
  have d: "distinct (A @ ia # ib # B)" using D(1) by (simp add: path_of_def)
  have t: "m_listtail m \<in> set (ib # B)" using E(2) last_in_set [of "ib # B"] by simp
  show "\<forall>q \<in> set (A @ [ia]). adr st q < hs"
  proof
    fix q assume q: "q \<in> set (A @ [ia])"
    have en: "endp st q \<le> hs" using ordered_bounds' [OF parts(1) q] by simp
    have nt: "q \<noteq> m_listtail m" using q t d by auto
    show "adr st q < hs"
    proof (cases "q = m_listheader m")
      case True
      then show ?thesis using D(4) range_okD [OF r] by simp
    next
      case False
      have "good_cell st q" using D(8) q False nt by auto
      then show ?thesis using en by (simp add: good_cell_def)
    qed
  qed
  show "\<forall>q \<in> set (ib # B). te \<le> adr st q" using ordered_bounds' [OF parts(3)] by simp
qed

lemma Merge_ok:
  assumes ok: "slm_ok st m ps" and src: "source_list st S hs te" and te: "te \<noteq> - 1"
    and dj: "set S \<inter> set (full_path m ps) = {}"
  shows "\<exists>st' m' ps'. Merge st m (Some (hd S)) = Inr (st', m') \<and> list_step (set S) st m ps st' m' ps' \<and>
    contents st' ps' = (\<lambda>x. if hs \<le> x \<and> x < te then lookup (map (entry st) S) x else contents st ps x)"
proof -
  have r: "range_ok hs te" by (rule source_range [OF src te])
  have S: "S \<noteq> []" "path_of st S" "nxt st (last S) = None" "adr st (hd S) = hs" "endp st (last S) = te"
    "ordered hs (map (entry st) S) te" "list_all (good_cell st) S"
    using src by (auto simp: source_list_def)
  have dS: "distinct S" and lS: "linked st S" and SF: "\<And>q. q \<in> set S \<Longrightarrow> q < fresh st"
    using S(2) by (auto simp: path_of_def)
  let ?h = "m_listheader m"
  have lc: "last_cell (fresh st + 1) st (hd S) = Inr (last S)"
    by (rule last_cell_ok [OF lS S(1,3)]) (use length_path [OF S(2)] in simp)
  obtain ia ib0 st1 m1 A M ib B where g: "GetAffectedCells st m hs te = Inr (ia, ib0)"
    and s: "Split_Head_Tail st m ia ib0 hs te False = Inr (st1, m1, ib)"
    and c: "slm_cut st m ps hs te st1 m1 A ia M ib B" using slm_split [OF ok r] by blast
  have sp: "slm_path st1 m1 (A @ ia # M @ ib # B)"
    and lk: "lookup (map (entry st1) (A @ ia # M @ ib # B)) = contents st ps"
    and ba: "endp st1 ia \<le> hs" "te \<le> adr st1 ib" "\<forall>q \<in> set M. hs \<le> adr st1 q \<and> endp st1 q \<le> te"
    and un: "untouched st st1 (set (full_path m ps))"
    and fr: "\<forall>q \<in> set (A @ ia # M @ ib # B). q \<in> set (full_path m ps) \<or> fresh st \<le> q"
    and m1: "m_listheader m1 = m_listheader m" "m_listtail m1 = m_listtail m"
    using c by (auto simp: slm_cut_def)
  obtain st2 m2 where rb: "Remove_between st1 m1 ia ib = Inr (st2, m2)"
    and sp2: "slm_path st2 m2 (A @ ia # ib # B)"
    and st2: "st2 = set_prev ib (Some ia) (set_next ia (Some ib) st1)"
    and m2: "m_listheader m2 = m_listheader m1" "m_listtail m2 = m_listtail m1"
    using Remove_between_ok [OF sp] by blast
  define st3 where "st3 = set_next (last S) (Some ib) (set_prev ib (Some (last S))
      (set_prev (hd S) (Some ia) (set_next ia (Some (hd S)) st2)))"
  define m3 where "m3 = m2\<lparr>m_sm := index_all st3 S (m_sm m2)\<rparr>"
  define P where "P = A @ ia # ib # B"
  have le: "hs \<le> te" using r by (simp add: range_ok_def)
  note parts = slm_parts [OF slm_pathD(3) [OF sp] ba(1,2) le ba(3)]
  have en2: "entry st2 = entry st1" by (rule ext) (simp add: st2)
  have en3: "entry st3 = entry st1" by (rule ext) (simp add: st3_def st2)
  have ad3: "adr st3 q = adr st1 q" "siz st3 q = siz st1 q" for q
    using fun_cong [OF en3, of q] by (auto simp: entry_def)
  have ad2: "adr st2 q = adr st1 q" "siz st2 q = siz st1 q" for q
    using fun_cong [OF en2, of q] by (auto simp: entry_def)
  have Snew: "q \<notin> set (A @ ia # M @ ib # B)" if "q \<in> set S" for q
    using fr dj SF [OF that] that by fastforce
  have hS1: "heap st1 q = heap st q" if "q \<in> set S" for q
    using un dj SF [OF that] that unfolding untouched_def by blast
  have hS2: "heap st2 q = heap st q" if "q \<in> set S" for q
    using hS1 [OF that] Snew [OF that] by (simp add: st2)
  have enS: "map (entry st1) S = map (entry st) S" using hS1 by (simp add: entry_def)
  have pS: "path_of st2 S"
  proof -
    have "linked st2 S = linked st S" by (rule linked_cong) (use hS2 in \<open>auto dest: in_set_butlastD in_set_tlD\<close>)
    moreover have "fresh st \<le> fresh st2" using un by (simp add: st2 untouched_def)
    ultimately show ?thesis using S(2) unfolding path_of_def by fastforce
  qed
  have djP: "set S \<inter> set (A @ ia # ib # B) = {}" using Snew by auto
  have pth: "path_of st3 (A @ ia # S @ ib # B)"
    unfolding st3_def by (rule path_insert [OF slm_pathD(1) [OF sp2] pS S(1) djP])
  note D = slm_pathD [OF sp2]
  note E = slm_path_hd_last [OF sp2]
  have lS3: "linked st3 S" "length S \<le> fresh st3"
  proof -
    show "linked st3 S"
      using pth linked_append [of st3 "A @ [ia]" "S @ ib # B"] linked_append [of st3 S "ib # B"]
      by (simp add: path_of_def)
    show "length S \<le> fresh st3" using length_path [OF pS] by (simp add: st3_def)
  qed
  have il: "index_loop (fresh st3 + 1) st3 (m_sm m2) (hd S) (last S) = Inr (index_all st3 S (m_sm m2))"
    by (rule index_loop_ok [OF lS3(1) S(1) dS]) (use lS3(2) in simp)
  have mg: "Merge st m (Some (hd S)) = Inr (st3, m3)"
    using lc g s rb il by (simp add: Merge_def S(4,5) st3_def m3_def Let_def)
  have hm: "m_listheader m2 \<in> set (A @ ia # ib # B)" "m_listtail m2 \<in> set (A @ ia # ib # B)"
    using E by (metis append_is_Nil_conv hd_in_set last_in_set list.distinct(1))+
  then have hn: "m_listheader m2 \<notin> set S" "m_listtail m2 \<notin> set S" using djP by auto
  let ?X = "set (A @ ia # ib # B) - {m_listheader m2}"
  have side: "\<forall>q \<in> set (A @ [ia]). adr st2 q < hs" "\<forall>q \<in> set (ib # B). te \<le> adr st2 q"
    using slm_sides [OF sp2 _ _ r] ba(1,2) ad2 by simp_all
  have mid: "hs \<le> adr st3 q \<and> adr st3 q < te" if "q \<in> set S" for q
  proof -
    have "good_cell st q" using S(7) that by (simp add: list_all_iff)
    then show ?thesis
      using ordered_bounds' [OF S(6) that] hS1 [OF that] ad3 [of q] by (auto simp: good_cell_def)
  qed
  have kX: "keys_ok st3 ?X"
  proof -
    have "keys_ok st2 ?X" using D(9) by (simp add: index_of_def)
    then show ?thesis by (rule keys_ok_subset) (use ad2 ad3 in auto)
  qed
  have kS: "keys_ok st3 (set S)"
  proof -
    have "keys_ok st (set S)" by (rule source_inj [OF S(6,7)])
    then show ?thesis by (rule keys_ok_subset) (use hS1 ad3 in auto)
  qed
  have kU: "keys_ok st3 (?X \<union> set S)"
  proof -
    have "adr st3 p \<noteq> adr st3 q" if "p \<in> ?X" "q \<in> set S" for p q
    proof -
      have "p \<in> set (A @ [ia]) \<or> p \<in> set (ib # B)" using that(1) by auto
      then show ?thesis using side mid [OF that(2)] ad2 [of p] ad3 [of p] by fastforce
    qed
    then have "inj_on (adr st3) (?X \<union> set S)"
      using kX kS by (intro inj_on_disjoint) (simp_all add: keys_ok_def)
    then show ?thesis using kX kS by (auto simp: keys_ok_def)
  qed
  have ixX: "index_rel st3 (m_listheader m2) (m_sm m2) ?X"
    using D(9) ad2 ad3 by (simp add: index_of_def index_rel_def)
  have "index_rel st3 (m_listheader m2) (index_all st3 S (m_sm m2)) (?X \<union> set S)"
    by (rule index_all_rel [OF ixX kU dS]) (use djP in auto)
  moreover have "?X \<union> set S = set (A @ ia # S @ ib # B) - {m_listheader m2}" using hn by auto
  ultimately have ix3: "index_rel st3 (m_listheader m3) (m_sm m3) (set (A @ ia # S @ ib # B) - {m_listheader m3})"
    by (simp add: m3_def)
  have oS: "ordered hs (map (entry st1) S) te" unfolding enS by (rule S(6))
  have or3: "ordered header_addr (map (entry st3) (A @ ia # S @ ib # B)) tail_addr"
  proof -
    have "ordered header_addr (map (entry st1) (A @ [ia]) @ map (entry st1) S @ map (entry st1) (ib # B)) tail_addr"
      unfolding ordered_append using parts(1,3) oS by blast
    then show ?thesis unfolding en3 by simp
  qed
  have sp3: "slm_path st3 m3 (A @ ia # S @ ib # B)"
  proof (rule slm_pathI [OF pth])
    show "hd (A @ ia # S @ ib # B) = m_listheader m3" using E(1) by (cases A) (auto simp: m3_def)
    show "last (A @ ia # S @ ib # B) = m_listtail m3" using E(2) by (auto simp: m3_def)
    show "\<forall>q \<in> set (A @ ia # S @ ib # B) - {m_listheader m3, m_listtail m3}. good_cell st3 q"
    proof
      fix q assume q: "q \<in> set (A @ ia # S @ ib # B) - {m_listheader m3, m_listtail m3}"
      show "good_cell st3 q"
      proof (cases "q \<in> set S")
        case True
        then have "good_cell st q" using S(7) by (simp add: list_all_iff)
        moreover have "entry st3 q = entry st q" using hS1 [OF True] fun_cong [OF en3, of q] by (simp add: entry_def)
        ultimately show ?thesis using good_cell_entry by blast
      next
        case False
        then have "good_cell st2 q" using D(8) q by (auto simp: m3_def)
        moreover have "entry st3 q = entry st2 q" using en2 en3 by simp
        ultimately show ?thesis using good_cell_entry by blast
      qed
    qed
  qed (use D(2,4-7) or3 ix3 ad2 ad3 in \<open>simp_all add: m3_def\<close>)
  then obtain ps' where ps': "A @ ia # S @ ib # B = full_path m3 ps'" "slm_ok st3 m3 ps'"
    by (auto simp: slm_path_def)
  have "contents st3 ps' = lookup (map (entry st1) (A @ [ia]) @ map (entry st1) S @ map (entry st1) (ib # B))"
    using contents_full [OF ps'(2)] unfolding ps'(1) [symmetric] en3 by simp
  moreover have "contents st ps = lookup (map (entry st1) (A @ [ia]) @ map (entry st1) M @ map (entry st1) (ib # B))"
    unfolding lk [symmetric] by simp
  ultimately have co: "contents st3 ps' =
      (\<lambda>x. if hs \<le> x \<and> x < te then lookup (map (entry st) S) x else contents st ps x)"
    using lookup_replace [OF parts(1,2) oS parts(3)] unfolding enS by (simp add: fun_eq_iff)
  have iab: "ia \<in> set (full_path m ps) \<or> fresh st \<le> ia" "ib \<in> set (full_path m ps) \<or> fresh st \<le> ib"
    using fr by simp_all
  have hlS: "hd S \<in> set S" "last S \<in> set S" using S(1) by simp_all
  have "untouched st st3 (set (full_path m ps) \<union> set S)"
  proof -
    have "untouched st st1 (set (full_path m ps) \<union> set S)" using un by (auto simp: untouched_def)
    then show ?thesis
      unfolding st3_def st2 by (intro untouched_upd) (use iab hlS in blast)+
  qed
  moreover have "\<forall>q \<in> set (full_path m3 ps'). q \<in> set (full_path m ps) \<union> set S \<or> fresh st \<le> q"
    unfolding ps'(1) [symmetric] using fr by auto
  ultimately have "list_step (set S) st m ps st3 m3 ps'"
    unfolding list_step_def using ps'(2) m1 m2 by (simp add: m3_def)
  then show ?thesis using mg co by blast
qed

end
