(* ===== verification/Sym_List_Read.thy ===== *)
theory Sym_List_Read
  imports Sym_List_Ops
begin

text \<open>
  Reading from a list of symbolic cells: GetCellList returns fresh cells that hold the symbolic
  bytes of the range, numbered from zero, and GetExpr combines them with the concrete bytes of
  the gaps. Neither changes a cell that existed before.
\<close>

section \<open>The copies\<close>

lemma copy_back_ok:
  "linked st (ys @ [it]) \<Longrightarrow> distinct (ys @ [it]) \<Longrightarrow> hd (ys @ [it]) = after \<Longrightarrow>
     \<forall>q \<in> set (ys @ [it]). q < fresh st \<Longrightarrow> length ys < n \<Longrightarrow>
     tmp = (if C = [] then None else Some (hd C)) \<Longrightarrow> path_of st C \<Longrightarrow> set C \<inter> set (ys @ [it]) = {} \<Longrightarrow>
     (C \<noteq> [] \<longrightarrow> nxt st (last C) = None) \<Longrightarrow>
     \<exists>st' D. copy_back n st it after tmp = Inr (st', hd D) \<and> D \<noteq> [] \<and> path_of st' (D @ C) \<and>
       map (entry st') D = map (entry st) (ys @ [it]) \<and> map (entry st') C = map (entry st) C \<and>
       untouched st st' (set C) \<and> (\<forall>q \<in> set D. fresh st \<le> q) \<and> nxt st' (last (D @ C)) = None"
proof (induction ys arbitrary: n st it tmp C rule: rev_induct)
  case Nil
  then obtain k where n: "n = Suc k" by (cases n) auto
  have it: "it = after" using Nil.prems(3) by simp
  define c where "c = fresh st"
  define st1 where "st1 = set_next c tmp (snd (alloc (copy_cell (heap st it)) st))"
  define st' where "st' = (case tmp of None \<Rightarrow> st1 | Some t \<Rightarrow> set_prev t (Some c) st1)"
  have r: "copy_back n st it after tmp = Inr (st', c)"
    by (simp add: n copy_back.simps(2) it alloc_eq st'_def st1_def c_def Let_def split: option.split)
  have cC: "c \<notin> set C" using Nil.prems(7) by (auto simp: path_of_def c_def)
  have itc: "it \<noteq> c" using Nil.prems(4) by (simp add: c_def)
  have hC: "C \<noteq> [] \<Longrightarrow> hd C \<noteq> c" using cC by auto
  have h: "heap st' q = (if q = c then (copy_cell (heap st it))\<lparr>c_next := tmp\<rparr>
      else if C \<noteq> [] \<and> q = hd C then (heap st q)\<lparr>c_prev := Some c\<rparr> else heap st q)" for q
    using hC Nil.prems(6) by (simp add: st'_def st1_def alloc_eq c_def)
  have f: "fresh st' = Suc (fresh st)" by (simp add: st'_def st1_def alloc_eq split: option.split)
  have lC: "linked st' C"
  proof -
    have "linked st' C = linked st C"
    proof (rule linked_cong)
      fix q assume "q \<in> set (butlast C)"
      then show "nxt st' q = nxt st q" using cC by (auto simp: h dest: in_set_butlastD)
    next
      fix q assume q: "q \<in> set (tl C)"
      then have "q \<noteq> hd C" using distinct_tl_hd [OF _ q] Nil.prems(7) by (simp add: path_of_def)
      then show "prv st' q = prv st q" using in_set_tlD [OF q] cC by (auto simp: h)
    qed
    then show ?thesis using Nil.prems(7) by (simp add: path_of_def)
  qed
  have "linked st' ([c] @ C)"
    using lC hC Nil.prems(6) by (cases C) (auto simp: h)
  then have pth: "path_of st' ([c] @ C)"
    using Nil.prems(7) cC by (auto simp: path_of_def f c_def less_Suc_eq)
  have e1: "map (entry st') [c] = map (entry st) ([] @ [it])"
    by (simp add: entry_def h copy_cell_def)
  have e2: "map (entry st') C = map (entry st) C"
    using cC by (auto simp: entry_def h)
  have un: "untouched st st' (set C)"
    using hd_in_set [of C] by (auto simp: untouched_def f h c_def)
  have ln: "nxt st' (last ([c] @ C)) = None"
    using Nil.prems(6,9) cC last_in_set [of C] by (auto simp: h)
  show ?case
    by (intro exI [of _ st'] exI [of _ "[c]"]) (use r pth e1 e2 un ln in \<open>auto simp: c_def\<close>)
next
  case (snoc y ys)
  then obtain k where n: "n = Suc k" by (cases n) auto
  have ne: "it \<noteq> after" using snoc.prems(2,3) by (cases ys) auto
  define c where "c = fresh st"
  define st1 where "st1 = set_next c tmp (snd (alloc (copy_cell (heap st it)) st))"
  define st2 where "st2 = (case tmp of None \<Rightarrow> st1 | Some t \<Rightarrow> set_prev t (Some c) st1)"
  have ltf: "\<forall>q \<in> set ((ys @ [y]) @ [it]). q < c" using snoc.prems(4) by (simp add: c_def)
  have pv: "prv st it = Some y"
    using snoc.prems(1) linked_append [of st "ys @ [y]" "[it]"] by simp
  have cC: "c \<notin> set C" using snoc.prems(7) by (auto simp: path_of_def c_def)
  have hC: "C \<noteq> [] \<Longrightarrow> hd C \<noteq> c" using cC by auto
  have itC: "it \<notin> set C" using snoc.prems(8) by auto
  have h: "heap st2 q = (if q = c then (copy_cell (heap st it))\<lparr>c_next := tmp\<rparr>
      else if C \<noteq> [] \<and> q = hd C then (heap st q)\<lparr>c_prev := Some c\<rparr> else heap st q)" for q
    using hC snoc.prems(6) by (simp add: st2_def st1_def alloc_eq c_def)
  have f: "fresh st2 = Suc (fresh st)" by (simp add: st2_def st1_def alloc_eq split: option.split)
  have r: "copy_back n st it after tmp = copy_back k st2 y after (Some c)"
  proof -
    have "prv st2 it = Some y" using pv itC ltf hd_in_set [of C] by (auto simp: h)
    moreover have "copy_back n st it after tmp =
        (if it = after then Inr (st2, c) else rbind (deref (prv st2 it)) (\<lambda>it'. copy_back k st2 it' after (Some c)))"
      unfolding n copy_back.simps(2) alloc_eq Let_def prod.case c_def st2_def st1_def snd_conv by (rule refl)
    ultimately show ?thesis using ne by simp
  qed
  have lC: "linked st2 C"
  proof -
    have "linked st2 C = linked st C"
    proof (rule linked_cong)
      fix q assume "q \<in> set (butlast C)"
      then show "nxt st2 q = nxt st q" using cC by (auto simp: h dest: in_set_butlastD)
    next
      fix q assume q: "q \<in> set (tl C)"
      then have "q \<noteq> hd C" using distinct_tl_hd [OF _ q] snoc.prems(7) by (simp add: path_of_def)
      then show "prv st2 q = prv st q" using in_set_tlD [OF q] cC by (auto simp: h)
    qed
    then show ?thesis using snoc.prems(7) by (simp add: path_of_def)
  qed
  have "linked st2 (c # C)"
    using lC hC snoc.prems(6) by (cases C) (auto simp: h)
  then have pth: "path_of st2 (c # C)"
    using snoc.prems(7) cC by (auto simp: path_of_def f c_def less_Suc_eq)
  have hys: "heap st2 q = heap st q" if "q \<in> set (ys @ [y])" for q
  proof -
    have "set C \<inter> set (ys @ [y]) = {}" using snoc.prems(8) by auto
    then have "C \<noteq> [] \<Longrightarrow> q \<noteq> hd C" using hd_not_in [of C "set (ys @ [y])"] that by auto
    moreover have "q \<noteq> c" using ltf that by auto
    ultimately show ?thesis by (auto simp: h)
  qed
  have lys: "linked st2 (ys @ [y])"
  proof -
    have "linked st (ys @ [y])" using snoc.prems(1) linked_append [of st "ys @ [y]" "[it]"] by simp
    moreover have "linked st2 (ys @ [y]) = linked st (ys @ [y])"
      by (rule linked_cong) (use hys in \<open>auto dest!: in_set_butlastD in_set_tlD\<close>)
    ultimately show ?thesis by simp
  qed
  have "\<exists>st' D. copy_back k st2 y after (Some c) = Inr (st', hd D) \<and> D \<noteq> [] \<and> path_of st' (D @ (c # C)) \<and>
       map (entry st') D = map (entry st2) (ys @ [y]) \<and> map (entry st') (c # C) = map (entry st2) (c # C) \<and>
       untouched st2 st' (set (c # C)) \<and> (\<forall>q \<in> set D. fresh st2 \<le> q) \<and> nxt st' (last (D @ (c # C))) = None"
  proof (rule snoc.IH [OF lys])
    show "distinct (ys @ [y])" using snoc.prems(2) by simp
    show "hd (ys @ [y]) = after" using snoc.prems(3) by (cases ys) auto
    show "\<forall>q \<in> set (ys @ [y]). q < fresh st2" using ltf by (auto simp: f c_def)
    show "length ys < k" using snoc.prems(5) n by simp
    show "set (c # C) \<inter> set (ys @ [y]) = {}" using snoc.prems(8) ltf by auto
    show "c # C \<noteq> [] \<longrightarrow> nxt st2 (last (c # C)) = None"
      using snoc.prems(6,9) cC last_in_set [of C] by (auto simp: h)
  qed (use pth in simp_all)
  then obtain st' D where D: "copy_back k st2 y after (Some c) = Inr (st', hd D)" "D \<noteq> []"
    "path_of st' (D @ (c # C))" "map (entry st') D = map (entry st2) (ys @ [y])"
    "map (entry st') (c # C) = map (entry st2) (c # C)" "untouched st2 st' (set (c # C))"
    "\<forall>q \<in> set D. fresh st2 \<le> q" "nxt st' (last (D @ (c # C))) = None" by blast
  have "map (entry st') (D @ [c]) = map (entry st) ((ys @ [y]) @ [it])"
    using D(4,5) hys by (simp add: entry_def h copy_cell_def)
  moreover have "map (entry st') C = map (entry st) C"
  proof -
    have "map (entry st2) C = map (entry st) C" using cC by (auto simp: entry_def h)
    then show ?thesis using D(5) by simp
  qed
  moreover have "untouched st st' (set C)"
    using D(6) hd_in_set [of C] unfolding untouched_def by (auto simp: f h c_def)
  moreover have "\<forall>q \<in> set (D @ [c]). fresh st \<le> q" using D(7) by (auto simp: f c_def)
  ultimately show ?case
    by (intro exI [of _ st'] exI [of _ "D @ [c]"]) (use r D in simp)
qed

lemma CreateSymbolList_ok:
  assumes p: "path_of st seg" and ne: "seg \<noteq> []"
  shows "\<exists>st' D. CreateSymbolList st (hd seg) (last seg) = Inr (st', hd D, last D) \<and> D \<noteq> [] \<and>
    path_of st' D \<and> map (entry st') D = map (entry st) seg \<and> untouched st st' {} \<and>
    (\<forall>q \<in> set D. fresh st \<le> q) \<and> nxt st' (last D) = None"
proof -
  obtain ys it where seg: "seg = ys @ [it]" using ne by (cases seg rule: rev_cases) auto
  have len: "length seg \<le> fresh st" by (rule length_path [OF p])
  have "\<exists>st' D. copy_back (fresh st + 1) st it (hd seg) None = Inr (st', hd D) \<and> D \<noteq> [] \<and> path_of st' (D @ []) \<and>
       map (entry st') D = map (entry st) (ys @ [it]) \<and> map (entry st') [] = map (entry st) [] \<and>
       untouched st st' (set []) \<and> (\<forall>q \<in> set D. fresh st \<le> q) \<and> nxt st' (last (D @ [])) = None"
    by (rule copy_back_ok) (use p len in \<open>auto simp: seg path_of_def\<close>)
  then obtain st' D where D: "copy_back (fresh st + 1) st it (hd seg) None = Inr (st', hd D)" "D \<noteq> []"
    "path_of st' D" "map (entry st') D = map (entry st) seg" "untouched st st' {}"
    "\<forall>q \<in> set D. fresh st \<le> q" "nxt st' (last D) = None" unfolding seg by auto
  have "last_cell (fresh st' + 1) st' (hd D) = Inr (last D)"
    by (rule last_cell_ok) (use D length_path [OF D(3)] in \<open>auto simp: path_of_def\<close>)
  then have "CreateSymbolList st (hd seg) (last seg) = Inr (st', hd D, last D)"
    using D(1) by (simp add: CreateSymbolList_def seg)
  then show ?thesis using D by blast
qed

section \<open>Rebasing\<close>

lemma rebase_loop_ok:
  "linked st R \<Longrightarrow> distinct R \<Longrightarrow> (R \<noteq> [] \<longrightarrow> nxt st (last R) = None) \<Longrightarrow> length R < n \<Longrightarrow>
     \<exists>st'. rebase_loop n st (if R = [] then None else Some (hd R)) a = Inr st' \<and> fresh st' = fresh st \<and>
       (\<forall>q. heap st' q = (if q \<in> set R then (heap st q)\<lparr>c_addr := adr st q - a\<rparr> else heap st q))"
proof (induction R arbitrary: n st)
  case Nil
  then show ?case by (cases n) (simp_all add: rebase_loop.simps(2))
next
  case (Cons p R)
  then obtain k where n: "n = Suc k" by (cases n) auto
  define st1 where "st1 = upd p (\<lambda>c. c\<lparr>c_addr := c_addr c - a\<rparr>) st"
  have nx: "nxt st1 p = (if R = [] then None else Some (hd R))"
    using Cons.prems(1,3) by (cases R) (auto simp: st1_def)
  have l: "linked st1 R"
  proof -
    have "linked st1 R = linked st R" by (rule linked_cong) (auto simp: st1_def)
    then show ?thesis using Cons.prems(1) by (simp add: linked_Cons)
  qed
  have "R \<noteq> [] \<longrightarrow> nxt st1 (last R) = None" using Cons.prems(3) by (auto simp: st1_def)
  then obtain st' where st': "rebase_loop k st1 (if R = [] then None else Some (hd R)) a = Inr st'"
    "fresh st' = fresh st1"
    "\<forall>q. heap st' q = (if q \<in> set R then (heap st1 q)\<lparr>c_addr := adr st1 q - a\<rparr> else heap st1 q)"
    using Cons.IH [OF l, of k] Cons.prems n by auto
  have "rebase_loop n st (Some p) a = Inr st'"
    using st'(1) nx by (simp add: n rebase_loop.simps(2) Let_def st1_def)
  then show ?case using st' Cons.prems(2) by (auto simp: st1_def)
qed

lemma lookup_shift:
  "lookup (map (\<lambda>(b, s, e). (b - a, s, e)) es) x = lookup es (a + x)"
  by (induction es) (auto simp: algebra_simps)

lemma ordered_shift:
  "ordered (lo - a) (map (\<lambda>(b, s, e). (b - a, s, e)) es) (hi - a) = ordered lo es hi"
  by (induction es arbitrary: lo) (auto simp: algebra_simps)

section \<open>GetCellList\<close>

lemma path_of_sub: "path_of st (X @ Y @ Z) \<Longrightarrow> path_of st Y"
  using linked_append [of st X "Y @ Z"] linked_append [of st Y Z] by (auto simp: path_of_def)

text \<open>Between the cells before the segment and those after it, the segment decides.\<close>

lemma lookup_middle:
  assumes o: "ordered lo (X @ map (entry st) (ia # seg) @ Z) hi" and x: "adr st ia \<le> x" "x < endp st (last (ia # seg))"
  shows "lookup (X @ map (entry st) (ia # seg) @ Z) x = lookup (map (entry st) (ia # seg)) x"
proof -
  obtain m1 m2 where m: "ordered lo X m1" "ordered m1 (map (entry st) (ia # seg)) m2" "ordered m2 Z hi"
    using o unfolding ordered_append by blast
  have "m1 \<le> adr st ia" using m(2) by (simp add: ordered_entry)
  moreover have "endp st (last (ia # seg)) \<le> m2" using ordered_bounds' [OF m(2), of "last (ia # seg)"] by simp
  ultimately show ?thesis using lookup_parts [OF m, of x] x by simp
qed

text \<open>
  The result of reading n bytes at address a from a list that holds the bytes f: a chain of
  fresh cells, in order from address zero, with the bytes of the range.
\<close>

definition read_result ::
    "store \<Rightarrow> store \<Rightarrow> nat list \<Rightarrow> int \<Rightarrow> int \<Rightarrow> (int \<Rightarrow> (expr \<times> int) option) \<Rightarrow> bool" where
  "read_result st st' R a n f \<longleftrightarrow>
     path_of st' R \<and> (R \<noteq> [] \<longrightarrow> nxt st' (last R) = None) \<and> untouched st st' {} \<and> (\<forall>q \<in> set R. fresh st \<le> q) \<and>
     ordered 0 (map (entry st') R) n \<and> (\<forall>q \<in> set R. 0 < siz st' q \<and> c_expr (heap st' q) \<noteq> None) \<and>
     (\<forall>x. 0 \<le> x \<longrightarrow> x < n \<longrightarrow> lookup (map (entry st') R) x = f (a + x))"

lemma affected_segment:
  assumes ok: "slm_ok st m ps" and r: "range_ok hs te"
  obtains A ia seg B where "GetAffectedCells st m hs te = Inr (ia, last (ia # seg))"
    "full_path m ps = A @ (ia # seg) @ B" "adr st ia < hs" "te < endp st (last (ia # seg))"
    "seg = [] \<or> (endp st ia \<le> te \<and> hs \<le> adr st (last seg) \<and> (\<forall>q \<in> set (butlast seg). hs \<le> adr st q \<and> endp st q \<le> te))"
proof -
  have rr: "key_range hs" "header_addr < hs" "hs < te" "te < tail_addr" using range_okD [OF r] by auto
  from GetAffectedCells_ok [OF ok rr] consider
      (inside) A ia B where "GetAffectedCells st m hs te = Inr (ia, ia)" "found_inside st (full_path m ps) hs te A ia B"
    | (across) A ia M ib B where "GetAffectedCells st m hs te = Inr (ia, ib)"
        "found_across st (full_path m ps) hs te A ia M ib B" by blast
  then show ?thesis
  proof cases
    case inside
    then show ?thesis using that [of ia "[]" A B] by (simp add: found_inside_def)
  next
    case across
    then show ?thesis using that [of ia "M @ [ib]" A B] by (simp add: found_across_def)
  qed
qed

lemma map_entry_Cons: "map (entry st') D = map (entry st) (x # X) \<Longrightarrow>
    \<exists>d D'. D = d # D' \<and> entry st' d = entry st x \<and> map (entry st') D' = map (entry st) X"
  by (cases D) auto

lemma map_entry_snoc: "map (entry st') D = map (entry st) (X @ [x]) \<Longrightarrow>
    \<exists>D' d. D = D' @ [d] \<and> entry st' d = entry st x \<and> map (entry st') D' = map (entry st) X"
  by (cases D rule: rev_cases) auto

lemma entries_transfer:
  assumes "map (entry st') D = map (entry st) X" "q \<in> set D"
  shows "\<exists>p \<in> set X. entry st' q = entry st p"
proof -
  have "entry st' q \<in> set (map (entry st') D)" using assms(2) by simp
  then show ?thesis unfolding assms(1) by auto
qed

text \<open>The split of the copies.\<close>

lemma split_copies:
  assumes p: "path_of st1 D" and en: "map (entry st1) D = map (entry st) (ia # seg)" and ln: "nxt st1 (last D) = None"
    and hx: "has_exprs st (ia # seg)" and o: "ordered lo (map (entry st) (ia # seg)) hi" and le: "hs < te"
    and ba: "adr st ia < hs" "te < endp st (last (ia # seg))"
    and sg: "seg = [] \<or> (endp st ia \<le> te \<and> hs \<le> adr st (last seg) \<and> (\<forall>q \<in> set (butlast seg). hs \<le> adr st q \<and> endp st q \<le> te))"
  shows "\<exists>st2 a M b. Split_Head_Tail st1 m (hd D) (last D) hs te True = Inr (st2, m, b) \<and> hd D = a \<and>
    cut_result st1 D {hs, te} st2 (a # M @ [b]) \<and> endp st2 a \<le> hs \<and> te \<le> adr st2 b \<and>
    (\<forall>q \<in> set M. hs \<le> adr st2 q \<and> endp st2 q \<le> te)"
proof -
  have hxD: "has_exprs st1 D"
    unfolding has_exprs_def
  proof
    fix q assume "q \<in> set D"
    then obtain p where "p \<in> set (ia # seg)" "entry st1 q = entry st p" using entries_transfer [OF en] by blast
    then show "0 < siz st1 q \<longrightarrow> c_expr (heap st1 q) \<noteq> None"
      using hx entry_eqD [of st1 q st] unfolding has_exprs_def by (metis entry_def prod.inject)
  qed
  have oD: "ordered lo (map (entry st1) D) hi" unfolding en by (rule o)
  obtain d D' where D: "D = d # D'" and ed: "entry st1 d = entry st ia" and eD': "map (entry st1) D' = map (entry st) seg"
    using map_entry_Cons [OF en] by blast
  have ad: "adr st1 d = adr st ia" "endp st1 d = endp st ia" using ed by (simp_all add: entry_def)
  show ?thesis
  proof (cases "seg = []")
    case True
    then have D1: "D = [d]" using D eD' by simp
    have f: "found_inside st1 D hs te [] d []" using D1 ad ba True by (simp add: found_inside_def)
    obtain st2 m' M b where "Split_Head_Tail st1 m d d hs te True = Inr (st2, m', b)"
      "cut_at_range st1 m D hs te True st2 m' [] d M b []"
      using split_inside [OF p f le _ hxD oD, of m True] ln D1 by auto
    then show ?thesis using D1 unfolding cut_at_range_def by (intro exI [of _ st2] exI [of _ d] exI [of _ M] exI [of _ b]) simp
  next
    case False
    then obtain X y where X: "seg = X @ [y]" by (cases seg rule: rev_cases) auto
    obtain M e where M: "D' = M @ [e]" "entry st1 e = entry st y" "map (entry st1) M = map (entry st) X"
      using map_entry_snoc [OF eD' [unfolded X]] by blast
    have ae: "adr st1 e = adr st y" "endp st1 e = endp st y" using M(2) by (simp_all add: entry_def)
    have "\<forall>q \<in> set M. hs \<le> adr st1 q \<and> endp st1 q \<le> te"
    proof
      fix q assume "q \<in> set M"
      then obtain p where p: "p \<in> set X" "entry st1 q = entry st p" using entries_transfer [OF M(3)] by blast
      then have "adr st1 q = adr st p" "endp st1 q = endp st p" by (simp_all add: entry_def)
      then show "hs \<le> adr st1 q \<and> endp st1 q \<le> te" using sg p(1) by (simp add: X)
    qed
    then have f: "found_across st1 D hs te [] d M e []"
      using D M(1) ad ae ba sg by (simp add: found_across_def X)
    obtain st2 m' M' where "Split_Head_Tail st1 m d e hs te True = Inr (st2, m', e)"
      "cut_at_range st1 m D hs te True st2 m' [] d M' e []"
      using split_across [OF p f le hxD oD, of m True] by blast
    then show ?thesis using D M(1) unfolding cut_at_range_def
      by (intro exI [of _ st2] exI [of _ d] exI [of _ M'] exI [of _ e]) simp
  qed
qed

text \<open>Cutting the range out of the copies and numbering it from zero.\<close>

lemma extract_range:
  assumes p: "path_of st2 (a # M @ [b])" and M: "M \<noteq> []"
  shows "\<exists>st'. rebase_loop (fresh st2 + 1) (set_prev (hd M) None (set_next (last M) None st2)) (Some (hd M)) hs = Inr st' \<and>
    path_of st' M \<and> nxt st' (last M) = None \<and> fresh st' = fresh st2 \<and>
    map (entry st') M = map (\<lambda>(b, s, e). (b - hs, s, e)) (map (entry st2) M) \<and>
    (\<forall>q. q \<notin> set M \<longrightarrow> heap st' q = heap st2 q)"
proof -
  define st4 where "st4 = set_prev (hd M) None (set_next (last M) None st2)"
  have hl: "hd M \<in> set M" "last M \<in> set M" using M by simp_all
  have dM: "distinct M" and lM: "linked st2 M"
    using path_of_sub [of st2 "[a]" M "[b]"] p by (auto simp: path_of_def)
  have "linked st4 M = linked st2 M"
  proof (rule linked_cong)
    fix q assume "q \<in> set (butlast M)"
    then show "nxt st4 q = nxt st2 q" using distinct_butlast_last [OF dM] by (simp add: st4_def)
  next
    fix q assume "q \<in> set (tl M)"
    then show "prv st4 q = prv st2 q" using distinct_tl_hd [OF dM] by (simp add: st4_def)
  qed
  then have l4: "linked st4 M" using lM by simp
  have ln: "nxt st4 (last M) = None" by (simp add: st4_def)
  have "length M < fresh st2 + 1" using length_path [OF p] by simp
  then obtain st' where st': "rebase_loop (fresh st2 + 1) st4 (Some (hd M)) hs = Inr st'" "fresh st' = fresh st4"
    "\<forall>q. heap st' q = (if q \<in> set M then (heap st4 q)\<lparr>c_addr := adr st4 q - hs\<rparr> else heap st4 q)"
    using rebase_loop_ok [OF l4 dM, of "fresh st2 + 1" hs] ln M by auto
  have "linked st' M = linked st4 M" by (rule linked_cong) (use st'(3) in simp_all)
  then have "path_of st' M" using l4 dM p st'(2) by (auto simp: path_of_def st4_def)
  moreover have "map (entry st') M = map (\<lambda>(b, s, e). (b - hs, s, e)) (map (entry st2) M)"
    using st'(3) by (auto simp: entry_def st4_def)
  moreover have "nxt st' (last M) = None" using st'(3) ln by simp
  moreover have "\<forall>q. q \<notin> set M \<longrightarrow> heap st' q = heap st2 q" using st'(3) hl by (auto simp: st4_def)
  ultimately show ?thesis using st'(1,2) unfolding st4_def by auto
qed

lemma lookup_at_cell:
  assumes "ordered lo (map (entry st) S) hi" "q \<in> set S" "0 < siz st q" "c_expr (heap st q) \<noteq> None"
  shows "lookup (map (entry st) S) (adr st q) \<noteq> None"
  using assms
proof (induction S arbitrary: lo)
  case (Cons p S)
  show ?case
  proof (cases "q = p")
    case True
    then show ?thesis using Cons.prems by (auto simp: entry_def)
  next
    case False
    then have q: "q \<in> set S" using Cons.prems(2) by simp
    have o: "ordered (endp st p) (map (entry st) S) hi" using Cons.prems(1) by (simp add: ordered_entry)
    have "endp st p \<le> adr st q" using ordered_bounds' [OF o q] by simp
    then show ?thesis using Cons.IH [OF o q Cons.prems(3,4)] by (simp add: entry_def)
  qed
qed simp

lemma rest_of_read:
  assumes "GetAffectedCells st m hs (hs + n) = Inr (ia, ib)"
    and "CreateSymbolList st ia ib = Inr (st1, a1, b1)"
    and "Split_Head_Tail st1 m a1 b1 hs (hs + n) True = Inr (st2, m', b)"
    and "path_of st2 (a1 # M @ [b])"
  shows "GetCellList st m hs n =
    (if M = [] then Inl NullDeref
     else rbind (rebase_loop (fresh st2 + 1) (set_prev (hd M) None (set_next (last M) None st2)) (Some (hd M)) hs)
       (\<lambda>st'. Inr (st', Some (hd M))))"
proof -
  have d: "distinct (a1 # M @ [b])" and l: "linked st2 (a1 # M @ [b])" using assms(4) by (auto simp: path_of_def)
  have pv: "prv st2 b = Some (last (a1 # M))" using l linked_append [of st2 "a1 # M" "[b]"] by simp
  show ?thesis
  proof (cases "M = []")
    case True
    then show ?thesis using assms(1-3) pv by (simp add: GetCellList_def Let_def)
  next
    case False
    have nx: "nxt st2 a1 = Some (hd M)" using l False by (cases M) auto
    have ne: "last M \<noteq> a1" using d last_in_set [OF False] by auto
    show ?thesis using assms(1-3) pv nx ne False by (simp add: GetCellList_def Let_def)
  qed
qed

lemma GetCellList_ok:
  assumes ok: "slm_ok st m ps" and r: "range_ok hs te"
  shows "if \<exists>x. hs \<le> x \<and> x < te \<and> contents st ps x \<noteq> None
    then \<exists>st' R. GetCellList st m hs (te - hs) = Inr (st', Some (hd R)) \<and> R \<noteq> [] \<and>
      read_result st st' R hs (te - hs) (contents st ps)
    else GetCellList st m hs (te - hs) = Inl NullDeref"
proof -
  have le: "hs < te" using range_okD [OF r] by simp
  obtain A ia seg B where g: "GetAffectedCells st m hs te = Inr (ia, last (ia # seg))"
    and P: "full_path m ps = A @ (ia # seg) @ B" and ba: "adr st ia < hs" "te < endp st (last (ia # seg))"
    and sg: "seg = [] \<or> (endp st ia \<le> te \<and> hs \<le> adr st (last seg) \<and> (\<forall>q \<in> set (butlast seg). hs \<le> adr st q \<and> endp st q \<le> te))"
    by (rule affected_segment [OF ok r])
  have pseg: "path_of st (ia # seg)" using path_of_sub [of st A "ia # seg" B] slm_ok_path [OF ok] P by simp
  obtain st1 D where cs: "CreateSymbolList st ia (last (ia # seg)) = Inr (st1, hd D, last D)" and D: "D \<noteq> []"
    "path_of st1 D" "map (entry st1) D = map (entry st) (ia # seg)" and un1: "untouched st st1 {}"
    and fr1: "\<forall>q \<in> set D. fresh st \<le> q" and ln: "nxt st1 (last D) = None"
    using CreateSymbolList_ok [OF pseg] unfolding list.sel(1) by blast
  have hx: "has_exprs st (ia # seg)" using slm_has_exprs [OF ok] unfolding P by (simp add: has_exprs_def)
  have oP: "ordered header_addr (map (entry st) A @ map (entry st) (ia # seg) @ map (entry st) B) tail_addr"
    using slm_ordered [OF ok] unfolding P by simp
  obtain lo hi where o: "ordered lo (map (entry st) (ia # seg)) hi" using oP unfolding ordered_append by blast
  obtain st2 M b where sp: "Split_Head_Tail st1 m (hd D) (last D) hs te True = Inr (st2, m, b)"
    and cut: "cut_result st1 D {hs, te} st2 (hd D # M @ [b])" and bb: "endp st2 (hd D) \<le> hs" "te \<le> adr st2 b"
    and M: "\<forall>q \<in> set M. hs \<le> adr st2 q \<and> endp st2 q \<le> te"
    using split_copies [OF D(2,3) ln hx o le ba sg, of m] by blast
  define a where "a = hd D"
  have p2: "path_of st2 (a # M @ [b])" and lk2: "lookup (map (entry st2) (a # M @ [b])) = lookup (map (entry st1) D)"
    and o2: "ordered lo (map (entry st2) (a # M @ [b])) hi" and hx2: "has_exprs st2 (a # M @ [b])"
    and un2: "untouched st1 st2 (set D)" and fr2: "\<forall>q \<in> set (a # M @ [b]). q \<in> set D \<or> fresh st1 \<le> q"
    using cut o unfolding D(3) [symmetric] a_def cut_result_def by blast+
  have teq: "hs + (te - hs) = te" by simp
  have rest: "GetCellList st m hs (te - hs) =
    (if M = [] then Inl NullDeref
     else rbind (rebase_loop (fresh st2 + 1) (set_prev (hd M) None (set_next (last M) None st2)) (Some (hd M)) hs)
       (\<lambda>st'. Inr (st', Some (hd M))))"
    by (rule rest_of_read [of st m hs "te - hs" ia "last (ia # seg)" st1 a "last D" st2 m b M])
      (use g cs sp p2 in \<open>simp_all add: a_def\<close>)
  have o2': "ordered lo (map (entry st2) ([] @ a # M @ b # [])) hi" using o2 by simp
  have bb': "endp st2 a \<le> hs" using bb(1) by (simp add: a_def)
  note parts = slm_parts [OF o2' bb' bb(2) less_imp_le [OF le] M]
  have lkM: "lookup (map (entry st2) M) x = contents st ps x" if x: "hs \<le> x" "x < te" for x
  proof -
    have "contents st ps x = lookup (map (entry st) A @ map (entry st) (ia # seg) @ map (entry st) B) x"
      using contents_full [OF ok] unfolding P by simp
    also have "\<dots> = lookup (map (entry st) (ia # seg)) x"
      by (rule lookup_middle [OF oP]) (use ba x in simp_all)
    also have "\<dots> = lookup (map (entry st2) ([] @ [a]) @ map (entry st2) M @ map (entry st2) (b # [])) x"
      using lk2 unfolding D(3) by simp
    also have "\<dots> = lookup (map (entry st2) M) x" using lookup_parts [OF parts, of x] x by simp
    finally show ?thesis by simp
  qed
  have pos: "0 < siz st2 q" if q: "q \<in> set M" for q
  proof -
    have "piece_of st1 D {hs, te} st2 q" using cut q by (simp add: cut_result_def)
    then consider "0 < siz st2 q" | "q \<in> set D" "entry st2 q = entry st1 q" unfolding piece_of_def by blast
    then show ?thesis
    proof cases
      case 2
      then obtain p where p: "p \<in> set (ia # seg)" "entry st1 q = entry st p" using entries_transfer [OF D(3)] by blast
      then have e: "adr st2 q = adr st p" "siz st2 q = siz st p" using 2 by (simp_all add: entry_def)
      have "p \<in> set (full_path m ps)" using p(1) P by auto
      moreover have "p \<noteq> m_listheader m"
        using M q e range_okD [OF r] ok by (auto simp: slm_ok_def)
      moreover have "p \<noteq> m_listtail m"
        using M q e range_okD [OF r] ok by (auto simp: slm_ok_def)
      ultimately have "p \<in> set ps" by auto
      then show ?thesis using slm_good [OF ok] e by (simp add: good_cell_def)
    qed
  qed
  have iff: "M \<noteq> [] \<longleftrightarrow> (\<exists>x. hs \<le> x \<and> x < te \<and> contents st ps x \<noteq> None)"
  proof
    assume "M \<noteq> []"
    then have q: "hd M \<in> set M" by simp
    have "c_expr (heap st2 (hd M)) \<noteq> None" using hx2 pos [OF q] q by (simp add: has_exprs_def)
    then have "lookup (map (entry st2) M) (adr st2 (hd M)) \<noteq> None"
      by (rule lookup_at_cell [OF parts(2) q pos [OF q]])
    then show "\<exists>x. hs \<le> x \<and> x < te \<and> contents st ps x \<noteq> None"
      using lkM [of "adr st2 (hd M)"] M q pos [OF q] by fastforce
  next
    assume "\<exists>x. hs \<le> x \<and> x < te \<and> contents st ps x \<noteq> None"
    then obtain x where "hs \<le> x" "x < te" "contents st ps x \<noteq> None" by blast
    then show "M \<noteq> []" using lkM [of x] by auto
  qed
  show ?thesis
  proof (cases "M = []")
    case True
    then show ?thesis using rest iff by simp
  next
    case False
    obtain st' where rb: "rebase_loop (fresh st2 + 1) (set_prev (hd M) None (set_next (last M) None st2)) (Some (hd M)) hs = Inr st'"
      and p': "path_of st' M" and ln': "nxt st' (last M) = None" and f': "fresh st' = fresh st2"
      and en': "map (entry st') M = map (\<lambda>(b, s, e). (b - hs, s, e)) (map (entry st2) M)"
      and h': "\<forall>q. q \<notin> set M \<longrightarrow> heap st' q = heap st2 q"
      using extract_range [OF p2 False] by blast
    have frM: "fresh st \<le> q" if "q \<in> set M" for q
    proof -
      have "q \<in> set D \<or> fresh st1 \<le> q" using fr2 that by simp
      moreover have "fresh st \<le> fresh st1" using un1 by (simp add: untouched_def)
      ultimately show ?thesis using bspec [OF fr1, of q] by (metis le_trans)
    qed
    have "untouched st st' {}"
      unfolding untouched_def
    proof (intro conjI allI impI)
      show "fresh st \<le> fresh st'" using un1 un2 f' by (simp add: untouched_def)
      fix q assume q: "q \<notin> {}" "q < fresh st"
      then have "q \<notin> set M" "q \<notin> set D" using frM fr1 by (auto simp: not_le [symmetric])
      then have "heap st' q = heap st2 q" "heap st2 q = heap st1 q"
        using h' un1 un2 q(2) by (auto simp: untouched_def)
      then show "heap st' q = heap st q" using un1 q(2) by (simp add: untouched_def)
    qed
    moreover have "ordered 0 (map (entry st') M) (te - hs)"
      using ordered_shift [of hs hs "map (entry st2) M" te] parts(2) unfolding en' by simp
    moreover have "\<forall>q \<in> set M. 0 < siz st' q \<and> c_expr (heap st' q) \<noteq> None"
    proof
      fix q assume q: "q \<in> set M"
      have "entry st' q = (\<lambda>(b, s, e). (b - hs, s, e)) (entry st2 q)" using en' q by simp
      then have "siz st' q = siz st2 q" "c_expr (heap st' q) = c_expr (heap st2 q)" by (simp_all add: entry_def)
      then show "0 < siz st' q \<and> c_expr (heap st' q) \<noteq> None" using pos [OF q] hx2 q by (simp add: has_exprs_def)
    qed
    moreover have "\<forall>x. 0 \<le> x \<longrightarrow> x < te - hs \<longrightarrow> lookup (map (entry st') M) x = contents st ps (hs + x)"
      unfolding en' lookup_shift using lkM by simp
    ultimately have "read_result st st' M hs (te - hs) (contents st ps)"
      unfolding read_result_def using p' ln' frM by blast
    then show ?thesis using rest rb iff False by auto
  qed
qed

section \<open>GetExpr\<close>

text \<open>The parts of a multi-combination, as cells.\<close>

definition part_cell :: "expr \<times> int \<times> int \<Rightarrow> int \<times> int \<times> expr option" where
  "part_cell = (\<lambda>(e, off, sz). (off, sz, Some e))"

definition conc_byte :: "u64 \<Rightarrow> int \<Rightarrow> u64" where
  "conc_byte v i = drop_bit (8 * nat i) v AND 0xFF"

text \<open>A symbolic byte where there is one, else the concrete byte.\<close>

definition or_concrete :: "(int \<Rightarrow> (expr \<times> int) option) \<Rightarrow> u64 \<Rightarrow> int \<Rightarrow> (expr \<times> int) option" where
  "or_concrete f v x = (case f x of Some r \<Rightarrow> Some r | None \<Rightarrow> Some (ConstExpr (conc_byte v x) 1 0, 0))"

lemma byte_ref_Const [simp]: "byte_ref (ConstExpr v sz off) k = (ConstExpr v sz off, k)"
  by (simp add: ConstExpr_def)

lemma c_val_ok: "0 \<le> i \<Longrightarrow> i < 8 \<Longrightarrow> c_val v i = Inr (conc_byte v i)"
  by (simp add: c_val_def conc_byte_def)

lemma concrete_gap_ok:
  "0 \<le> pos \<Longrightarrow> lim \<le> 8 \<Longrightarrow> pos \<le> lim \<Longrightarrow> n = nat (lim - pos) \<Longrightarrow>
     \<exists>xs. concrete_gap n v pos lim = Inr xs \<and> ordered pos (map part_cell xs) lim \<and>
       (\<forall>x. pos \<le> x \<longrightarrow> x < lim \<longrightarrow> lookup (map part_cell xs) x = Some (ConstExpr (conc_byte v x) 1 0, 0)) \<and>
       (xs = [] \<longleftrightarrow> pos = lim)"
proof (induction n arbitrary: pos)
  case 0
  then show ?case by (auto intro!: exI [of _ "[]"])
next
  case (Suc n)
  then have lt: "pos < lim" by simp
  obtain xs where xs: "concrete_gap n v (pos + 1) lim = Inr xs" "ordered (pos + 1) (map part_cell xs) lim"
    "\<forall>x. pos + 1 \<le> x \<longrightarrow> x < lim \<longrightarrow> lookup (map part_cell xs) x = Some (ConstExpr (conc_byte v x) 1 0, 0)"
  proof -
    have "0 \<le> pos + 1" "pos + 1 \<le> lim" "n = nat (lim - (pos + 1))" using Suc.prems lt by simp_all
    then show ?thesis using Suc.IH [of "pos + 1"] Suc.prems(2) that by blast
  qed
  have "concrete_gap (Suc n) v pos lim = Inr ((ConstExpr (conc_byte v pos) 1 0, pos, 1) # xs)"
    using Suc.prems(1,2) lt c_val_ok [of pos v] xs(1) by (simp add: concrete_gap.simps(2))
  then show ?case
    using xs(2,3) lt by (intro exI [of _ "(ConstExpr (conc_byte v pos) 1 0, pos, 1) # xs"]) (auto simp: part_cell_def)
qed

lemma expr_parts_ok:
  "linked st R \<Longrightarrow> (R \<noteq> [] \<longrightarrow> nxt st (last R) = None) \<Longrightarrow> ordered pos (map (entry st) R) n \<Longrightarrow>
     \<forall>q \<in> set R. 0 < siz st q \<and> c_expr (heap st q) \<noteq> None \<Longrightarrow> 0 \<le> pos \<Longrightarrow> n \<le> 8 \<Longrightarrow> length R < k \<Longrightarrow>
     \<exists>ps. expr_parts k st v (if R = [] then None else Some (hd R)) pos n = Inr ps \<and>
       ordered pos (map part_cell ps) n \<and>
       (\<forall>x. pos \<le> x \<longrightarrow> x < n \<longrightarrow> lookup (map part_cell ps) x = or_concrete (lookup (map (entry st) R)) v x) \<and>
       (R \<noteq> [] \<longrightarrow> length ps \<le> 1 \<longrightarrow> (\<exists>e. R = [hd R] \<and> c_expr (heap st (hd R)) = Some e \<and> ps = [(e, adr st (hd R), siz st (hd R))]))"
proof (induction R arbitrary: k pos)
  case Nil
  obtain k' where k: "k = Suc k'" using Nil.prems by (cases k) auto
  have "pos \<le> n" using Nil.prems(3) by simp
  then obtain xs where "concrete_gap (nat (n - pos)) v pos n = Inr xs" "ordered pos (map part_cell xs) n"
    "\<forall>x. pos \<le> x \<longrightarrow> x < n \<longrightarrow> lookup (map part_cell xs) x = Some (ConstExpr (conc_byte v x) 1 0, 0)"
    using concrete_gap_ok [OF Nil.prems(5,6)] by blast
  then show ?case by (auto simp: k expr_parts.simps(2) or_concrete_def)
next
  case (Cons p R)
  obtain k' where k: "k = Suc k'" using Cons.prems(7) by (cases k) auto
  have nx: "nxt st p = (if R = [] then None else Some (hd R))"
    using Cons.prems(1,2) by (cases R) auto
  have le: "pos \<le> adr st p" "0 \<le> siz st p" and oR: "ordered (endp st p) (map (entry st) R) n"
    using Cons.prems(3) by (simp_all add: ordered_entry)
  have en: "endp st p \<le> n" using ordered_le [OF oR] .
  have sp: "0 < siz st p" using Cons.prems(4) by simp
  obtain e where e: "c_expr (heap st p) = Some e" using Cons.prems(4) by auto
  obtain gap where gap: "concrete_gap (nat (adr st p - pos)) v pos (adr st p) = Inr gap"
    "ordered pos (map part_cell gap) (adr st p)"
    "\<forall>x. pos \<le> x \<longrightarrow> x < adr st p \<longrightarrow> lookup (map part_cell gap) x = Some (ConstExpr (conc_byte v x) 1 0, 0)"
    "gap = [] \<longleftrightarrow> pos = adr st p"
    using concrete_gap_ok [OF Cons.prems(5) _ le(1) refl, of v] Cons.prems(6) en le(2) by auto
  have lR: "linked st R" using Cons.prems(1) by (simp add: linked_Cons)
  have p0: "0 \<le> endp st p" using Cons.prems(5) le by simp
  obtain ps where ps: "expr_parts k' st v (if R = [] then None else Some (hd R)) (endp st p) n = Inr ps"
    "ordered (endp st p) (map part_cell ps) n"
    "\<forall>x. endp st p \<le> x \<longrightarrow> x < n \<longrightarrow> lookup (map part_cell ps) x = or_concrete (lookup (map (entry st) R)) v x"
    "R \<noteq> [] \<longrightarrow> length ps \<le> 1 \<longrightarrow> (\<exists>e. R = [hd R] \<and> c_expr (heap st (hd R)) = Some e \<and> ps = [(e, adr st (hd R), siz st (hd R))])"
  proof -
    have "R \<noteq> [] \<longrightarrow> nxt st (last R) = None" using Cons.prems(2) by auto
    moreover have "\<forall>q \<in> set R. 0 < siz st q \<and> c_expr (heap st q) \<noteq> None" using Cons.prems(4) by simp
    moreover have "length R < k'" using Cons.prems(7) k by simp
    ultimately show ?thesis using Cons.IH [OF lR _ oR _ p0 Cons.prems(6), of k'] that by blast
  qed
  define qs where "qs = gap @ (e, adr st p, siz st p) # ps"
  have r: "expr_parts k st v (if p # R = [] then None else Some (hd (p # R))) pos n = Inr qs"
    using gap(1) e ps(1) nx by (simp add: k expr_parts.simps(2) qs_def)
  have c1: "ordered (adr st p) (map part_cell ((e, adr st p, siz st p) # ps)) n"
    using ps(2) le(2) by (simp add: part_cell_def)
  have o: "ordered pos (map part_cell qs) n"
    unfolding qs_def map_append ordered_append using gap(2) c1 by blast
  have lk: "lookup (map part_cell qs) x = or_concrete (lookup (map (entry st) (p # R))) v x"
    if x: "pos \<le> x" "x < n" for x
  proof -
    have "lookup (map part_cell qs) x = (if x < adr st p then lookup (map part_cell gap) x
        else lookup (map part_cell ((e, adr st p, siz st p) # ps)) x)"
      unfolding qs_def map_append by (rule lookup_append [OF gap(2) c1])
    moreover have "lookup (map (entry st) R) x = None" if "x < endp st p"
      using lookup_outside [OF oR] that by blast
    ultimately show ?thesis
      using gap(3) ps(3) x le e by (auto simp: part_cell_def or_concrete_def entry_def)
  qed
  have one: "\<exists>e. p # R = [p] \<and> c_expr (heap st p) = Some e \<and> qs = [(e, adr st p, siz st p)]" if "length qs \<le> 1"
  proof -
    have "gap = []" "ps = []" using that by (simp_all add: qs_def)
    moreover have "R = []" using ps(4) \<open>ps = []\<close> by auto
    ultimately show ?thesis using e by (simp add: qs_def)
  qed
  show ?case
    by (intro exI [of _ qs]) (use r o lk one in auto)
qed

text \<open>
  What the expression read for n bytes stands for: its byte k, by the vectors of a
  multi-combination or by the expression itself, is byte k of f.
\<close>

definition reads_as :: "expr \<Rightarrow> int \<Rightarrow> (int \<Rightarrow> (expr \<times> int) option) \<Rightarrow> bool" where
  "reads_as e n f \<longleftrightarrow>
     (\<exists>ps. e = CombineMultiExpr (map fst ps) (map (fst \<circ> snd) ps) (map (snd \<circ> snd) ps) n 0 \<and>
        (\<forall>k. 0 \<le> k \<longrightarrow> k < n \<longrightarrow> lookup (map part_cell ps) k = f k)) \<or>
     (\<forall>k. 0 \<le> k \<longrightarrow> k < n \<longrightarrow> Some (byte_ref e k) = f k)"

lemma GetExpr_ok:
  assumes ok: "slm_ok st m ps" and r: "range_ok hs te" and n: "te - hs \<le> 8"
    and ne: "\<exists>x. hs \<le> x \<and> x < te \<and> contents st ps x \<noteq> None"
  shows "\<exists>st' e. GetExpr st m hs (te - hs) v = Inr (st', e) \<and> untouched st st' {} \<and>
    reads_as e (te - hs) (or_concrete (\<lambda>k. contents st ps (hs + k)) v)"
proof -
  have le: "hs < te" using range_okD [OF r] by simp
  obtain st' R where g: "GetCellList st m hs (te - hs) = Inr (st', Some (hd R))" and R: "R \<noteq> []"
    and rr: "read_result st st' R hs (te - hs) (contents st ps)"
    using GetCellList_ok [OF ok r] ne by auto
  have p: "path_of st' R" "nxt st' (last R) = None" "untouched st st' {}" "ordered 0 (map (entry st') R) (te - hs)"
    "\<forall>q \<in> set R. 0 < siz st' q \<and> c_expr (heap st' q) \<noteq> None"
    "\<forall>x. 0 \<le> x \<longrightarrow> x < te - hs \<longrightarrow> lookup (map (entry st') R) x = contents st ps (hs + x)"
    using rr R by (auto simp: read_result_def)
  have lR: "linked st' R" "length R < fresh st' + 1" using p(1) length_path [OF p(1)] by (auto simp: path_of_def)
  obtain qs where qs: "expr_parts (fresh st' + 1) st' v (Some (hd R)) 0 (te - hs) = Inr qs"
    "\<forall>x. 0 \<le> x \<longrightarrow> x < te - hs \<longrightarrow> lookup (map part_cell qs) x = or_concrete (lookup (map (entry st') R)) v x"
    "length qs \<le> 1 \<longrightarrow> (\<exists>e. R = [hd R] \<and> c_expr (heap st' (hd R)) = Some e \<and> qs = [(e, adr st' (hd R), siz st' (hd R))])"
    using expr_parts_ok [OF lR(1) _ p(4,5) _ n lR(2), of v] p(2) R by auto
  have lk: "lookup (map part_cell qs) x = or_concrete (\<lambda>k. contents st ps (hs + k)) v x"
    if "0 \<le> x" "x < te - hs" for x
    using qs(2) p(6) that by (simp add: or_concrete_def)
  show ?thesis
  proof (cases "1 < length qs")
    case True
    define e where "e = CombineMultiExpr (map fst qs) (map (fst \<circ> snd) qs) (map (snd \<circ> snd) qs) (te - hs) 0"
    have "GetExpr st m hs (te - hs) v = Inr (st', e)"
      using g qs(1) True by (simp add: GetExpr_def e_def)
    moreover have "reads_as e (te - hs) (or_concrete (\<lambda>k. contents st ps (hs + k)) v)"
      unfolding reads_as_def e_def using lk by blast
    ultimately show ?thesis using p(3) by blast
  next
    case False
    then obtain e where e: "R = [hd R]" "c_expr (heap st' (hd R)) = Some e" "qs = [(e, adr st' (hd R), siz st' (hd R))]"
      using qs(3) by auto
    have "GetExpr st m hs (te - hs) v = Inr (st', e)"
      using g qs(1) e False by (simp add: GetExpr_def)
    moreover have "reads_as e (te - hs) (or_concrete (\<lambda>k. contents st ps (hs + k)) v)"
    proof -
      have ob: "0 \<le> adr st' (hd R)"
        using ordered_bounds' [OF p(4), of "hd R"] R by simp
      have "lookup (map part_cell qs) 0 \<noteq> None"
        using lk [of 0] le by (auto simp: or_concrete_def split: option.split)
      then have "adr st' (hd R) = 0" using ob by (auto simp: e(3) part_cell_def split: if_splits)
      then have one: "lookup (map part_cell qs) k = (if k < siz st' (hd R) then Some (byte_ref e k) else None)"
        if "0 \<le> k" for k using that by (simp add: e(3) part_cell_def)
      have "Some (byte_ref e k) = or_concrete (\<lambda>k. contents st ps (hs + k)) v k" if k: "0 \<le> k" "k < te - hs" for k
      proof -
        have "or_concrete (\<lambda>k. contents st ps (hs + k)) v k \<noteq> None" by (simp add: or_concrete_def split: option.split)
        then show ?thesis using lk [OF k] one [OF k(1)] by (simp split: if_splits)
      qed
      then show ?thesis unfolding reads_as_def by blast
    qed
    ultimately show ?thesis using p(3) by blast
  qed
qed

end
