(* ===== verification/Sym_List_Map.thy ===== *)
theory Sym_List_Map
  imports Sym_List_Read
begin

text \<open>
  The contract of a list of symbolic cells for its clients, the memory and the registers: it is
  a map from byte addresses to bytes of expressions. The contract is a locale; the list of the
  code satisfies it, and what the clients need is derived from it once.
\<close>

section \<open>The cells of a list as a function of the state\<close>

fun walk :: "nat \<Rightarrow> store \<Rightarrow> nat \<Rightarrow> nat option \<Rightarrow> nat list" where
  "walk 0 st t p = []"
| "walk (Suc n) st t p =
     (case p of None \<Rightarrow> [] | Some q \<Rightarrow> if q = t then [] else q # walk n st t (nxt st q))"

definition cells_of :: "store \<times> slm \<Rightarrow> nat list" where
  "cells_of s = (case s of (st, m) \<Rightarrow> walk (fresh st + 1) st (m_listtail m) (nxt st (m_listheader m)))"

definition slm_wf :: "store \<times> slm \<Rightarrow> bool" where
  "slm_wf s \<longleftrightarrow> (case s of (st, m) \<Rightarrow> slm_ok st m (cells_of s))"

definition bytes_of :: "store \<times> slm \<Rightarrow> int \<Rightarrow> (expr \<times> int) option" where
  "bytes_of s = (case s of (st, m) \<Rightarrow> contents st (cells_of s))"

lemma walk_ok:
  "linked st (ps @ [t]) \<Longrightarrow> t \<notin> set ps \<Longrightarrow> length ps < n \<Longrightarrow> walk n st t (Some (hd (ps @ [t]))) = ps"
proof (induction ps arbitrary: n)
  case Nil
  then show ?case by (cases n) auto
next
  case (Cons p ps)
  then obtain k where n: "n = Suc k" by (cases n) auto
  have "nxt st p = Some (hd (ps @ [t]))" "linked st (ps @ [t])" using Cons.prems(1) by (simp_all add: linked_Cons)
  then show ?case using Cons n by auto
qed

lemma cells_of_ok: "slm_ok st m ps \<Longrightarrow> cells_of (st, m) = ps"
proof -
  assume ok: "slm_ok st m ps"
  have l: "linked st (full_path m ps)" and d: "distinct (full_path m ps)"
    using slm_ok_path [OF ok] by (auto simp: path_of_def)
  have "length (full_path m ps) \<le> fresh st" by (rule length_path [OF slm_ok_path [OF ok]])
  moreover have "nxt st (m_listheader m) = Some (hd (ps @ [m_listtail m]))" "linked st (ps @ [m_listtail m])"
    using l by (simp_all add: linked_Cons)
  ultimately show ?thesis using walk_ok [of st ps "m_listtail m" "fresh st + 1"] d by (simp add: cells_of_def)
qed

lemma slm_wf_iff: "slm_wf (st, m) \<longleftrightarrow> (\<exists>ps. slm_ok st m ps)"
  using cells_of_ok by (auto simp: slm_wf_def)

lemma slm_wfI: "slm_ok st m ps \<Longrightarrow> slm_wf (st, m) \<and> bytes_of (st, m) = contents st ps"
  using cells_of_ok by (auto simp: slm_wf_def bytes_of_def)

section \<open>The operations on the state\<close>

definition rem :: "int \<Rightarrow> int \<Rightarrow> store \<times> slm \<Rightarrow> (store \<times> slm) res" where
  "rem a n s = (case s of (st, m) \<Rightarrow> Remove st m a n)"

text \<open>Merging a list of one new cell, as both the memory and the registers do for an expression.\<close>

definition put_expr :: "int \<Rightarrow> int \<Rightarrow> expr \<Rightarrow> store \<times> slm \<Rightarrow> (store \<times> slm) res" where
  "put_expr a n e s = (case s of (st, m) \<Rightarrow>
     let (p, st) = alloc (new_cell a n (Some e)) st in Merge st m (Some p))"

definition get_expr :: "int \<Rightarrow> int \<Rightarrow> u64 \<Rightarrow> store \<times> slm \<Rightarrow> ((store \<times> slm) \<times> expr) res" where
  "get_expr a n v s = (case s of (st, m) \<Rightarrow>
     rbind (GetExpr st m a n v) (\<lambda>(st, e). Inr ((st, m), e)))"

lemma rem_step:
  assumes "slm_ok st m ps" "range_ok a (a + n)"
  shows "\<exists>st' m' ps'. rem a n (st, m) = Inr (st', m') \<and> list_step {} st m ps st' m' ps' \<and>
    bytes_of (st', m') = (\<lambda>x. if a \<le> x \<and> x < a + n then None else bytes_of (st, m) x)"
proof -
  obtain st' m' ps' where r: "Remove st m a n = Inr (st', m')" "list_step {} st m ps st' m' ps'"
    "contents st' ps' = (\<lambda>x. if a \<le> x \<and> x < a + n then None else contents st ps x)"
    using Remove_ok [OF assms] by auto
  then have "slm_ok st' m' ps'" by (simp add: list_step_def)
  with r show ?thesis using slm_wfI [OF assms(1)] slm_wfI [of st' m' ps'] by (auto simp: rem_def)
qed

lemma list_step_wf: "list_step X st m ps st' m' ps' \<Longrightarrow> slm_wf (st', m')"
  by (auto simp: list_step_def slm_wf_iff)

lemma rem_spec:
  assumes "slm_wf s" "range_ok a (a + n)"
  shows "\<exists>s'. rem a n s = Inr s' \<and> slm_wf s' \<and>
    bytes_of s' = (\<lambda>x. if a \<le> x \<and> x < a + n then None else bytes_of s x)"
proof -
  obtain st m where s: "s = (st, m)" by (cases s)
  obtain ps where "slm_ok st m ps" using assms(1) by (auto simp: s slm_wf_iff)
  from rem_step [OF this assms(2)] show ?thesis unfolding s using list_step_wf by blast
qed

lemma slm_ok_same:
  assumes "slm_ok st m ps" "fresh st \<le> fresh st'"
    and h: "\<And>p. p \<in> set (full_path m ps) \<Longrightarrow> heap st' p = heap st p"
  shows "slm_ok st' m ps" "contents st' ps = contents st ps"
proof -
  have lt: "\<forall>p \<in> set (full_path m ps). p < fresh st" using slm_ok_path [OF assms(1)] by (simp add: path_of_def)
  have hd: "heap st' (m_listheader m) = heap st (m_listheader m)" "heap st' (m_listtail m) = heap st (m_listtail m)"
    by (rule h, simp)+
  have hp: "heap st' p = heap st p" if "p \<in> set ps" for p using h that by simp
  have "linked st' (full_path m ps) = linked st (full_path m ps)"
    by (rule linked_cong; drule in_set_butlastD in_set_tlD; simp add: h)
  moreover have "p < fresh st'" if "p \<in> set (full_path m ps)" for p using lt assms(2) that by fastforce
  ultimately have "path_of st' (full_path m ps)"
    using slm_ok_path [OF assms(1)] unfolding path_of_def by blast
  moreover have en: "map (entry st') (full_path m ps) = map (entry st) (full_path m ps)"
    by (rule map_cong [OF refl]) (simp add: h entry_def)
  moreover have "list_all (good_cell st') ps" using assms hp by (auto simp: slm_ok_def list_all_iff good_cell_def)
  moreover have "index_ok st' m ps"
  proof -
    have "\<forall>p \<in> set ps \<union> {m_listtail m}. adr st' p = adr st p" using hp hd by auto
    then have "(\<lambda>p. ADDR_TO_KEY (adr st' p)) ` (set ps \<union> {m_listtail m}) =
        (\<lambda>p. ADDR_TO_KEY (adr st p)) ` (set ps \<union> {m_listtail m})" by (intro image_cong) auto
    then show ?thesis using assms hp hd unfolding slm_ok_def index_ok_def index_rel_def by auto
  qed
  ultimately show "slm_ok st' m ps" using assms hd unfolding slm_ok_def en by simp
  have "map (entry st') ps = map (entry st) ps" by (rule map_cong [OF refl]) (simp add: hp entry_def)
  then show "contents st' ps = contents st ps" unfolding contents_def by (rule arg_cong)
qed

lemma slm_ok_untouched:
  assumes "slm_ok st m ps" "untouched st st' {}"
  shows "slm_ok st' m ps" "contents st' ps = contents st ps"
proof -
  have lt: "\<forall>p \<in> set (full_path m ps). p < fresh st" using slm_ok_path [OF assms(1)] by (simp add: path_of_def)
  have fr: "fresh st \<le> fresh st'" using assms(2) by (simp add: untouched_def)
  have h: "heap st' p = heap st p" if "p \<in> set (full_path m ps)" for p
    using lt that assms(2) unfolding untouched_def by blast
  show "slm_ok st' m ps" "contents st' ps = contents st ps"
    using slm_ok_same [OF assms(1) fr h] by blast+
qed

lemma alloc_untouched: "untouched st (snd (alloc c st)) {}"
  by (simp add: untouched_def alloc_eq)

lemma put_step:
  assumes ok: "slm_ok st m ps" and r0: "range_ok a (a + n)"
  shows "\<exists>st' m' ps'. put_expr a n e (st, m) = Inr (st', m') \<and> list_step {} st m ps st' m' ps' \<and>
    bytes_of (st', m') = (\<lambda>x. if a \<le> x \<and> x < a + n then Some (byte_ref e (x - a)) else bytes_of (st, m) x)"
proof -
  define p where "p = fresh st"
  define st1 where "st1 = snd (alloc (new_cell a n (Some e)) st)"
  have un: "untouched st st1 {}" unfolding st1_def by (rule alloc_untouched)
  note ok1 = slm_ok_untouched [OF ok un]
  have hp: "heap st1 p = new_cell a n (Some e)" "fresh st1 = Suc p" by (simp_all add: st1_def alloc_eq p_def)
  have r: "0 < n" "- (2 ^ 58) \<le> a" "a + n < 2 ^ 58" "a \<noteq> - 1" "a + n \<noteq> - 1" using r0 by (auto simp: range_ok_def)
  have src: "source_list st1 [p] a (a + n)"
    unfolding source_list_def using hp r by (simp add: path_of_def new_cell_def good_cell_def entry_def)
  have "p \<notin> set (full_path m ps)" using slm_ok_path [OF ok] by (auto simp: path_of_def p_def)
  then obtain st' m' ps' where mg: "Merge st1 m (Some p) = Inr (st', m')" "list_step (set [p]) st1 m ps st' m' ps'"
    "contents st' ps' = (\<lambda>x. if a \<le> x \<and> x < a + n then lookup (map (entry st1) [p]) x else contents st1 ps x)"
    using Merge_ok [OF ok1(1) src r(5)] by auto
  have "put_expr a n e (st, m) = Inr (st', m')"
    using mg(1) by (simp add: put_expr_def st1_def p_def alloc_eq)
  moreover have ok': "slm_ok st' m' ps'" using mg(2) by (simp add: list_step_def)
  moreover have "list_step {} st m ps st' m' ps'"
    using mg(2) un hp(2) unfolding list_step_def untouched_def by (auto simp: p_def)
  moreover have "contents st' ps' = (\<lambda>x. if a \<le> x \<and> x < a + n then Some (byte_ref e (x - a)) else contents st ps x)"
    using mg(3) ok1(2) hp by (auto simp: entry_def new_cell_def fun_eq_iff)
  ultimately show ?thesis using slm_wfI [OF ok] slm_wfI [OF ok'] by auto
qed

lemma put_expr_spec:
  assumes "slm_wf s" "range_ok a (a + n)"
  shows "\<exists>s'. put_expr a n e s = Inr s' \<and> slm_wf s' \<and>
    bytes_of s' = (\<lambda>x. if a \<le> x \<and> x < a + n then Some (byte_ref e (x - a)) else bytes_of s x)"
proof -
  obtain st m where s: "s = (st, m)" by (cases s)
  obtain ps where "slm_ok st m ps" using assms(1) by (auto simp: s slm_wf_iff)
  from put_step [OF this assms(2), of e] show ?thesis unfolding s using list_step_wf by blast
qed

lemma get_expr_spec:
  assumes "slm_wf s" "range_ok a (a + n)" "n \<le> 8" "\<exists>x. a \<le> x \<and> x < a + n \<and> bytes_of s x \<noteq> None"
  shows "\<exists>s' e. get_expr a n v s = Inr (s', e) \<and> slm_wf s' \<and> bytes_of s' = bytes_of s \<and>
    reads_as e n (or_concrete (\<lambda>k. bytes_of s (a + k)) v)"
proof -
  obtain st m where s: "s = (st, m)" by (cases s)
  obtain ps where ok: "slm_ok st m ps" using assms(1) by (auto simp: s slm_wf_iff)
  have b: "bytes_of s = contents st ps" using slm_wfI [OF ok] by (simp add: s)
  obtain st' e where g: "GetExpr st m a n v = Inr (st', e)" "untouched st st' {}"
    "reads_as e n (or_concrete (\<lambda>k. contents st ps (a + k)) v)"
    using GetExpr_ok [OF ok assms(2), of v] assms(3,4) b by auto
  have "slm_wf (st', m) \<and> bytes_of (st', m) = bytes_of s"
    using slm_wfI [OF slm_ok_untouched(1) [OF ok g(2)]] slm_ok_untouched(2) [OF ok g(2)] b by simp
  then show ?thesis using g(1,3) b by (simp add: get_expr_def s)
qed

section \<open>The contract\<close>

datatype byte_op = Put int int expr | Del int int

fun byte_op_ok :: "byte_op \<Rightarrow> bool" where
  "byte_op_ok (Put a n e) = range_ok a (a + n)"
| "byte_op_ok (Del a n) = range_ok a (a + n)"

fun map_after :: "byte_op list \<Rightarrow> (int \<Rightarrow> (expr \<times> int) option) \<Rightarrow> int \<Rightarrow> (expr \<times> int) option" where
  "map_after [] f = f"
| "map_after (Put a n e # xs) f = map_after xs (\<lambda>x. if a \<le> x \<and> x < a + n then Some (byte_ref e (x - a)) else f x)"
| "map_after (Del a n # xs) f = map_after xs (\<lambda>x. if a \<le> x \<and> x < a + n then None else f x)"

locale byte_map =
  fixes good :: "'s \<Rightarrow> bool"
    and bytes :: "'s \<Rightarrow> int \<Rightarrow> (expr \<times> int) option"
    and put :: "int \<Rightarrow> int \<Rightarrow> expr \<Rightarrow> 's \<Rightarrow> 's res"
    and del :: "int \<Rightarrow> int \<Rightarrow> 's \<Rightarrow> 's res"
    and get :: "int \<Rightarrow> int \<Rightarrow> u64 \<Rightarrow> 's \<Rightarrow> ('s \<times> expr) res"
  assumes put_law: "good s \<Longrightarrow> range_ok a (a + n) \<Longrightarrow> \<exists>s'. put a n e s = Inr s' \<and> good s' \<and>
      bytes s' = (\<lambda>x. if a \<le> x \<and> x < a + n then Some (byte_ref e (x - a)) else bytes s x)"
    and del_law: "good s \<Longrightarrow> range_ok a (a + n) \<Longrightarrow> \<exists>s'. del a n s = Inr s' \<and> good s' \<and>
      bytes s' = (\<lambda>x. if a \<le> x \<and> x < a + n then None else bytes s x)"
    and get_law: "good s \<Longrightarrow> range_ok a (a + n) \<Longrightarrow> n \<le> 8 \<Longrightarrow> \<exists>x. a \<le> x \<and> x < a + n \<and> bytes s x \<noteq> None \<Longrightarrow>
      \<exists>t e. get a n v s = Inr (t, e) \<and> good t \<and> bytes t = bytes s \<and> reads_as e n (or_concrete (\<lambda>k. bytes s (a + k)) v)"
begin

primrec perform :: "byte_op list \<Rightarrow> 's \<Rightarrow> 's res" where
  "perform [] s = Inr s"
| "perform (x # xs) s = rbind (case x of Put a n e \<Rightarrow> put a n e s | Del a n \<Rightarrow> del a n s) (perform xs)"

lemma perform_ok:
  "list_all byte_op_ok xs \<Longrightarrow> good s \<Longrightarrow>
     \<exists>s'. perform xs s = Inr s' \<and> good s' \<and> bytes s' = map_after xs (bytes s)"
proof (induction xs arbitrary: s)
  case (Cons x xs)
  show ?case
  proof (cases x)
    case (Put a n e)
    then obtain s1 where "put a n e s = Inr s1" "good s1"
      "bytes s1 = (\<lambda>x. if a \<le> x \<and> x < a + n then Some (byte_ref e (x - a)) else bytes s x)"
      using put_law [of s a n e] Cons.prems by auto
    with Cons.IH [of s1] Cons.prems Put show ?thesis by simp
  next
    case (Del a n)
    then obtain s1 where "del a n s = Inr s1" "good s1"
      "bytes s1 = (\<lambda>x. if a \<le> x \<and> x < a + n then None else bytes s x)"
      using del_law [of s a n] Cons.prems by auto
    with Cons.IH [of s1] Cons.prems Del show ?thesis by simp
  qed
qed simp

lemma read_after_perform:
  assumes "list_all byte_op_ok xs" "good s" "range_ok a (a + n)" "n \<le> 8"
    "\<exists>x. a \<le> x \<and> x < a + n \<and> map_after xs (bytes s) x \<noteq> None"
  shows "\<exists>s' t e. perform xs s = Inr s' \<and> get a n v s' = Inr (t, e) \<and>
    reads_as e n (or_concrete (\<lambda>k. map_after xs (bytes s) (a + k)) v)"
  using perform_ok [OF assms(1,2)] get_law [OF _ assms(3,4)] assms(5) by metis

text \<open>Reading back an expression just written, and reading beside it.\<close>

lemma read_back:
  assumes "good s" "range_ok a (a + n)" "n \<le> 8"
  shows "\<exists>s' t e'. put a n e s = Inr s' \<and> good s' \<and> get a n v s' = Inr (t, e') \<and>
    reads_as e' n (\<lambda>k. Some (byte_ref e k))"
proof -
  obtain s' where s': "put a n e s = Inr s'" "good s'"
    "bytes s' = (\<lambda>x. if a \<le> x \<and> x < a + n then Some (byte_ref e (x - a)) else bytes s x)"
    using put_law [OF assms(1,2)] by blast
  have "0 < n" using assms(2) by (simp add: range_ok_def)
  then have "\<exists>x. a \<le> x \<and> x < a + n \<and> bytes s' x \<noteq> None" using s'(3) by (intro exI [of _ a]) simp
  then obtain t e' where g: "get a n v s' = Inr (t, e')"
    "reads_as e' n (or_concrete (\<lambda>k. bytes s' (a + k)) v)" using get_law [OF s'(2) assms(2,3)] by blast
  have "or_concrete (\<lambda>k. bytes s' (a + k)) v k = Some (byte_ref e k)" if "0 \<le> k" "k < n" for k
    using that s'(3) by (simp add: or_concrete_def)
  then have "reads_as e' n (\<lambda>k. Some (byte_ref e k))" using g(2) by (auto simp: reads_as_def)
  then show ?thesis using s'(1,2) g(1) by blast
qed

end

interpretation symlist: byte_map slm_wf bytes_of put_expr rem get_expr
  by unfold_locales (fact put_expr_spec rem_spec get_expr_spec)+

definition perform_list :: "byte_op list \<Rightarrow> store \<times> slm \<Rightarrow> (store \<times> slm) res" where
  "perform_list = symlist.perform"

lemma perform_list_simps [simp]:
  "perform_list [] s = Inr s"
  "perform_list (Put a n e # xs) s = rbind (put_expr a n e s) (perform_list xs)"
  "perform_list (Del a n # xs) s = rbind (rem a n s) (perform_list xs)"
  by (simp_all add: perform_list_def)

section \<open>A new list\<close>

lemma slm_ok_new: "slm_ok (fst (Symbol_List_Map st)) (snd (Symbol_List_Map st)) []"
proof -
  define h where "h = fresh st"
  define st' where "st' = fst (Symbol_List_Map st)"
  define m where "m = snd (Symbol_List_Map st)"
  have m: "m_listheader m = h" "m_listtail m = Suc h" "m_sm m = Map.empty(- 1 \<mapsto> h, ADDR_TO_KEY tail_addr \<mapsto> Suc h)"
    by (simp_all add: m_def Symbol_List_Map_def alloc_eq h_def)
  have f: "fresh st' = Suc (Suc h)" by (simp add: st'_def Symbol_List_Map_def alloc_eq h_def upd_def)
  have c: "heap st' h = (new_cell header_addr 0 None)\<lparr>c_next := Some (Suc h)\<rparr>"
    "heap st' (Suc h) = (new_cell tail_addr 0 None)\<lparr>c_prev := Some h\<rparr>"
    by (simp_all add: st'_def Symbol_List_Map_def alloc_eq h_def upd_def)
  have k: "ADDR_TO_KEY tail_addr \<noteq> - 1" by (simp add: ADDR_TO_KEY_mod tail_addr_def)
  have "path_of st' [h, Suc h]" using f c by (simp add: path_of_def new_cell_def)
  moreover have "ordered header_addr (map (entry st') [h, Suc h]) tail_addr"
    using c by (simp add: entry_def new_cell_def header_addr_def tail_addr_def)
  moreover have "index_rel st' h (m_sm m) {Suc h}" using c k m by (auto simp: index_rel_def new_cell_def)
  ultimately have "slm_ok st' m []" using m c by (simp add: slm_ok_def index_ok_def new_cell_def)
  then show ?thesis by (simp add: st'_def m_def)
qed

lemma slm_wf_new: "slm_wf (Symbol_List_Map st) \<and> bytes_of (Symbol_List_Map st) = (\<lambda>x. None)"
  using slm_wfI [OF slm_ok_new, of st] by (simp add: contents_def fun_eq_iff)

section \<open>What the clients of a list rely on\<close>

text \<open>C13. From a new list, any sequence of merges of a one-cell list and removals, over ranges of
  addresses that are not empty, not wrapping and off the two addresses that share a key, succeeds;
  reading an expression of up to eight bytes over a range with a symbolic byte then succeeds, and
  each byte of it is the byte of the last expression written over that address since the last
  removal, or the byte of the concrete value the caller passed where no symbolic byte is left.\<close>

theorem symbol_list_is_byte_map:
  assumes "list_all byte_op_ok xs" "range_ok a (a + n)" "n \<le> 8"
    and "\<exists>x. a \<le> x \<and> x < a + n \<and> map_after xs (\<lambda>x. None) x \<noteq> None"
  shows "\<exists>s s' e. perform_list xs (Symbol_List_Map st) = Inr s \<and> get_expr a n v s = Inr (s', e) \<and>
    reads_as e n (or_concrete (\<lambda>k. map_after xs (\<lambda>x. None) (a + k)) v)"
  using symlist.read_after_perform [OF assms(1) _ assms(2,3), of "Symbol_List_Map st" v] slm_wf_new [of st] assms(4)
  by (simp add: perform_list_def)

theorem symbol_list_is_byte_map_witness:
  "\<exists>s s' e. perform_list [Put 16 4 (ConstExpr 7 4 0), Del 17 1] (Symbol_List_Map \<lparr>heap = \<lambda>_. new_cell 0 0 None, fresh = 0\<rparr>) = Inr s \<and>
     get_expr 16 2 513 s = Inr (s', e) \<and>
     reads_as e 2 (or_concrete (\<lambda>k. map_after [Put 16 4 (ConstExpr 7 4 0), Del 17 1] (\<lambda>x. None) (16 + k)) 513)"
  by (rule symbol_list_is_byte_map; (rule exI [of _ 16])?; simp add: range_ok_def)

text \<open>Writing an expression into a list and reading the same range back gives an expression
  whose bytes are those of the one written, whatever the list held and whatever concrete value
  the caller passes.\<close>

theorem read_own_write:
  assumes "slm_wf s" "range_ok a (a + n)" "n \<le> 8"
  shows "\<exists>s' t e'. put_expr a n e s = Inr s' \<and> slm_wf s' \<and> get_expr a n v s' = Inr (t, e') \<and>
    reads_as e' n (\<lambda>k. Some (byte_ref e k))"
  by (rule symlist.read_back [OF assms])

theorem read_own_write_witness:
  "\<exists>s' t e'. put_expr 64 8 (ConstExpr 3 8 0) (Symbol_List_Map \<lparr>heap = \<lambda>_. new_cell 0 0 None, fresh = 0\<rparr>) = Inr s' \<and>
     slm_wf s' \<and> get_expr 64 8 0 s' = Inr (t, e') \<and> reads_as e' 8 (\<lambda>k. Some (byte_ref (ConstExpr 3 8 0) k))"
  by (rule read_own_write) (use slm_wf_new in \<open>simp_all add: range_ok_def\<close>)

text \<open>Removing a range keeps the list well formed (linked both ways, ordered, without overlap,
  indexed) and removes exactly the bytes of the range, cutting the cells that reach out of it.\<close>

theorem Remove_is_restriction:
  assumes "slm_wf (st, m)" "range_ok a (a + n)"
  shows "\<exists>s'. Remove st m a n = Inr s' \<and> slm_wf s' \<and>
    bytes_of s' = (\<lambda>x. if a \<le> x \<and> x < a + n then None else bytes_of (st, m) x)"
  using rem_spec [OF assms] by (simp add: rem_def)

theorem Remove_is_restriction_witness:
  "let (st, m) = Symbol_List_Map \<lparr>heap = \<lambda>_. new_cell 0 0 None, fresh = 0\<rparr> in
     \<exists>s'. Remove st m 8 4 = Inr s' \<and> slm_wf s' \<and>
       bytes_of s' = (\<lambda>x. if 8 \<le> x \<and> x < 8 + 4 then None else bytes_of (st, m) x)"
  using Remove_is_restriction [of "fst (Symbol_List_Map \<lparr>heap = \<lambda>_. new_cell 0 0 None, fresh = 0\<rparr>)"
      "snd (Symbol_List_Map \<lparr>heap = \<lambda>_. new_cell 0 0 None, fresh = 0\<rparr>)" 8 4]
    slm_wf_new [of "\<lparr>heap = \<lambda>_. new_cell 0 0 None, fresh = 0\<rparr>"]
  by (simp add: range_ok_def split_beta Let_def)

text \<open>Copying the cells of a range gives new cells that hold exactly the symbolic bytes of the
  range, at addresses relative to its start, when there is one; when the range has no symbolic
  byte the function dereferences the null head of its empty result.\<close>

theorem GetCellList_of_range:
  assumes "slm_ok st m ps" "range_ok a (a + n)"
  shows "if \<exists>x. a \<le> x \<and> x < a + n \<and> contents st ps x \<noteq> None
    then \<exists>st' R. GetCellList st m a n = Inr (st', Some (hd R)) \<and> R \<noteq> [] \<and> read_result st st' R a n (contents st ps)
    else GetCellList st m a n = Inl NullDeref"
  using GetCellList_ok [OF assms] unfolding add_diff_cancel_left' .

theorem GetCellList_of_range_witness:
  "let (st, m) = Symbol_List_Map \<lparr>heap = \<lambda>_. new_cell 0 0 None, fresh = 0\<rparr> in
     GetCellList st m 8 4 = Inl NullDeref"
  using GetCellList_of_range [OF slm_ok_new [of "\<lparr>heap = \<lambda>_. new_cell 0 0 None, fresh = 0\<rparr>"], of 8 4]
  by (simp add: range_ok_def split_beta Let_def contents_def)

end
