(* ===== verification/Mem_State.thy ===== *)
theory Mem_State
  imports Sym_Bitmap Sym_List_Map
begin

text \<open>
  The synthetic memory (class SYMemState of MemState.h and MemState.cpp): the bitmap of symbolic
  bytes, the list of symbolic cells, and the physical memory below them, which the code reads and
  writes through raw pointers. An address is a 64-bit word; the list is keyed by its value as an
  int64_t. The invariant is that the two symbolic components agree byte by byte.
\<close>

section \<open>Data\<close>

text \<open>The union of integers is its 64 bits; expr and symcellPtr may be null.\<close>

record MemValue =
  mv_addr :: u64
  mv_size :: u64
  mv_bsym :: bool
  mv_isSymList :: bool
  mv_i64 :: u64
  mv_expr :: "expr option"
  mv_symcellPtr :: "nat option"

record SYMemState =
  m_Bitmap :: sym_bitmap
  m_AllSymbolList :: slm
  phys :: "u64 \<Rightarrow> u8"

definition new_SYMemState :: "(u64 \<Rightarrow> u8) \<Rightarrow> store \<Rightarrow> store \<times> SYMemState" where
  "new_SYMemState ph st =
     (let (st, m) = Symbol_List_Map st
      in (st, \<lparr>m_Bitmap = Map.empty, m_AllSymbolList = m, phys = ph\<rparr>))"

section \<open>Physical memory\<close>

text \<open>Little-endian stores and loads of n bytes.\<close>

fun put_bytes :: "nat \<Rightarrow> u64 \<Rightarrow> u64 \<Rightarrow> (u64 \<Rightarrow> u8) \<Rightarrow> u64 \<Rightarrow> u8" where
  "put_bytes 0 a v ph = ph"
| "put_bytes (Suc n) a v ph = put_bytes n (a + 1) (drop_bit 8 v) (ph(a := ucast v))"

fun get_bytes :: "nat \<Rightarrow> u64 \<Rightarrow> (u64 \<Rightarrow> u8) \<Rightarrow> u64" where
  "get_bytes 0 a ph = 0"
| "get_bytes (Suc n) a ph = ucast (ph a) OR push_bit 8 (get_bytes n (a + 1) ph)"

definition int_sizes :: "u64 list" where "int_sizes = [1, 2, 4, 8]"

text \<open>The boolean is the value returned: another size is reported and nothing is written.\<close>

definition mem_writeConcreteValue :: "u64 \<Rightarrow> u64 \<Rightarrow> u64 \<Rightarrow> (u64 \<Rightarrow> u8) \<Rightarrow> (u64 \<Rightarrow> u8) \<times> bool" where
  "mem_writeConcreteValue address sz v ph =
     (if sz \<in> set int_sizes then (put_bytes (unat sz) address v ph, True) else (ph, False))"

text \<open>
  A load goes through a signed type and is sign-extended by the conversion to 64 bits. None: the
  size is not one of the four, false is returned and the variable keeps the value it had.
\<close>

definition mem_readConcreteValue :: "u64 \<Rightarrow> u64 \<Rightarrow> (u64 \<Rightarrow> u8) \<Rightarrow> u64 option" where
  "mem_readConcreteValue address sz ph =
     (if sz \<in> set int_sizes
      then Some (signed_take_bit (8 * unat sz - 1) (get_bytes (unat sz) address ph))
      else None)"

section \<open>Symbolic values\<close>

text \<open>The conversions of an address to int64_t and of a size to int.\<close>

definition as_int :: "u64 \<Rightarrow> int" where "as_int s = sint (ucast s :: 32 word)"

definition head_cave :: "u64 \<Rightarrow> u64" where "head_cave addr = addr - (addr AND BLOCK_MASK)"

text \<open>The loop that moves the cells of a list to their place and marks their bytes.\<close>

fun mark_cells :: "nat \<Rightarrow> store \<Rightarrow> sym_bitmap \<Rightarrow> nat option \<Rightarrow> u64 \<Rightarrow> (store \<times> sym_bitmap) res" where
  "mark_cells 0 st bm p addr = Inl Diverges"
| "mark_cells (Suc n) st bm p addr =
     (case p of
        None \<Rightarrow> Inr (st, bm)
      | Some t \<Rightarrow>
          let st = upd t (\<lambda>c. c\<lparr>c_addr := c_addr c + sint addr\<rparr>) st
          in rbind (markSYMemBitmap (word_of_int (adr st t)) (word_of_int (siz st t)) bm) (\<lambda>(bm, c).
             mark_cells n st bm (nxt st t) addr))"

definition mem_writeSymbolicList ::
    "store \<Rightarrow> SYMemState \<Rightarrow> u64 \<Rightarrow> u64 \<Rightarrow> nat option \<Rightarrow> (store \<times> SYMemState \<times> bool) res" where
  "mem_writeSymbolicList st M addr sz SymList =
     (if BLOCK_SIZE < head_cave addr + sz then Inr (st, M, False)
      else rassert ((addr AND 0xf) + sz \<le> 16)
        (rbind (unmarkSYMemBitmap addr sz (m_Bitmap M)) (\<lambda>bm.
         rbind (mark_cells (fresh st + 1) st bm SymList addr) (\<lambda>(st, bm).
         rbind (Merge st (m_AllSymbolList M) SymList) (\<lambda>(st, m).
         Inr (st, M\<lparr>m_Bitmap := bm, m_AllSymbolList := m\<rparr>, True))))))"

definition mem_writeSymbolicExpr ::
    "store \<Rightarrow> SYMemState \<Rightarrow> u64 \<Rightarrow> u64 \<Rightarrow> expr option \<Rightarrow> (store \<times> SYMemState \<times> bool) res" where
  "mem_writeSymbolicExpr st M addr sz e =
     (if BLOCK_SIZE < head_cave addr + sz then Inr (st, M, False)
      else rassert ((addr AND 0xf) + sz \<le> 16)
        (rbind (markSYMemBitmap addr sz (m_Bitmap M)) (\<lambda>(bm, c).
         let (p, st) = alloc (new_cell (sint addr) (as_int sz) e) st
         in rbind (Merge st (m_AllSymbolList M) (Some p)) (\<lambda>(st, m).
            Inr (st, M\<lparr>m_Bitmap := bm, m_AllSymbolList := m\<rparr>, True)))))"

text \<open>
  Both reads start with the same checks and compute masks they do not use; the shifts of those
  masks can still be undefined. None: a range across two chunks, for which false is returned.
\<close>

definition mem_read_checks :: "SYMemState \<Rightarrow> u64 \<Rightarrow> u64 \<Rightarrow> bool res" where
  "mem_read_checks M addr sz =
     (if BLOCK_SIZE < head_cave addr + sz then Inr False
      else rassert (findSYMemChunk (addr AND BLOCK_MASK) (m_Bitmap M) \<noteq> None)
        (rbind (chunk_mask (head_cave addr) sz) (\<lambda>mm. Inr True)))"

definition mem_readSymbolicList ::
    "store \<Rightarrow> SYMemState \<Rightarrow> u64 \<Rightarrow> u64 \<Rightarrow> (store \<times> nat option option) res" where
  "mem_readSymbolicList st M addr sz =
     rbind (mem_read_checks M addr sz) (\<lambda>ok.
     if \<not> ok then Inr (st, None)
     else rbind (GetCellList st (m_AllSymbolList M) (sint addr) (as_int sz)) (\<lambda>(st, l). Inr (st, Some l)))"

definition mem_readSymbolicExpr ::
    "store \<Rightarrow> SYMemState \<Rightarrow> u64 \<Rightarrow> u64 \<Rightarrow> (store \<times> expr option) res" where
  "mem_readSymbolicExpr st M addr sz =
     rbind (mem_read_checks M addr sz) (\<lambda>ok.
     if \<not> ok then Inr (st, None)
     else (case mem_readConcreteValue addr sz (phys M) of
             None \<Rightarrow> Inl Uninit
           | Some v \<Rightarrow> rbind (GetExpr st (m_AllSymbolList M) (sint addr) (as_int sz) v) (\<lambda>(st, e). Inr (st, Some e))))"

section \<open>Memory cells\<close>

definition isSYMemoryCell :: "SYMemState \<Rightarrow> u64 \<Rightarrow> u64 \<Rightarrow> bool res" where
  "isSYMemoryCell M addr sz = testSYMemBitmap addr sz (m_Bitmap M)"

definition writeMemoryCell :: "store \<Rightarrow> SYMemState \<Rightarrow> MemValue \<Rightarrow> (store \<times> SYMemState \<times> bool) res" where
  "writeMemoryCell st M v =
     (let addr = mv_addr v; sz = mv_size v; (ph, ok) = mem_writeConcreteValue addr sz (mv_i64 v) (phys M)
      in if mv_bsym v
         then let M = M\<lparr>phys := ph\<rparr>
              in if mv_isSymList v then mem_writeSymbolicList st M addr sz (mv_symcellPtr v)
                 else mem_writeSymbolicExpr st M addr sz (mv_expr v)
         else rbind (unmarkSYMemBitmap addr sz (m_Bitmap M)) (\<lambda>bm.
              rbind (Remove st (m_AllSymbolList M) (sint addr) (as_int sz)) (\<lambda>(st, m).
              Inr (st, M\<lparr>m_Bitmap := bm, m_AllSymbolList := m, phys := ph\<rparr>, ok))))"

text \<open>The value is passed by reference: the result holds it updated, and the boolean returned.\<close>

definition readMemoryCell :: "store \<Rightarrow> SYMemState \<Rightarrow> MemValue \<Rightarrow> (store \<times> MemValue \<times> bool) res" where
  "readMemoryCell st M v =
     (let addr = mv_addr v; sz = mv_size v
      in rbind (testSYMemBitmap addr sz (m_Bitmap M)) (\<lambda>b.
         let conc = mem_readConcreteValue addr sz (phys M);
             v = v\<lparr>mv_bsym := b, mv_i64 := (case conc of None \<Rightarrow> mv_i64 v | Some x \<Rightarrow> x)\<rparr>
         in if b
            then if mv_isSymList v
                 then rbind (mem_readSymbolicList st M addr sz) (\<lambda>(st, r).
                      case r of None \<Rightarrow> Inr (st, v, False)
                      | Some l \<Rightarrow> Inr (st, v\<lparr>mv_symcellPtr := l\<rparr>, True))
                 else rbind (mem_readSymbolicExpr st M addr sz) (\<lambda>(st, r).
                      case r of None \<Rightarrow> Inr (st, v, False)
                      | Some e \<Rightarrow> Inr (st, v\<lparr>mv_expr := Some e\<rparr>, True))
            else Inr (st, v\<lparr>mv_isSymList := False\<rparr>, conc \<noteq> None)))"

section \<open>Ranges of one value\<close>

lemma sint_u64: "sint (a :: u64) = (uint a + 2 ^ 63) mod 2 ^ 64 - 2 ^ 63"
  by (simp add: sint_uint signed_take_bit_eq_take_bit_shift take_bit_eq_mod)

lemma sint_u64_cases: "sint (a :: u64) = (if unat a < 2 ^ 63 then int (unat a) else int (unat a) - 2 ^ 64)"
proof -
  define n where "n = unat a"
  have u: "uint a = int n" by (simp add: n_def)
  have lt: "n < 2 ^ 64" unfolding n_def by (rule unat_u64_less)
  have "(int n + 2 ^ 63) mod 2 ^ 64 = (if n < 2 ^ 63 then int n + 2 ^ 63 else int n - 2 ^ 63)"
  proof (cases "n < 2 ^ 63")
    case False
    have "(int n - 2 ^ 63 + 1 * 2 ^ 64) mod 2 ^ 64 = (int n - 2 ^ 63) mod 2 ^ 64" by (rule mod_mult_self1)
    moreover have "int n - 2 ^ 63 + 1 * 2 ^ 64 = int n + 2 ^ 63" by simp
    moreover have "(int n - 2 ^ 63) mod 2 ^ 64 = int n - 2 ^ 63"
      using False lt by (intro mod_pos_pos_trivial) simp_all
    ultimately have "(int n + 2 ^ 63) mod 2 ^ 64 = int n - 2 ^ 63" by metis
    then show ?thesis unfolding if_not_P [OF False] .
  qed simp
  then show ?thesis unfolding sint_u64 u n_def [symmetric] by simp
qed

text \<open>
  A value of 1, 2, 4 or 8 bytes inside an aligned block of 16 bytes, in the part of the address
  space the list is specified for.
\<close>

definition mem_range :: "u64 \<Rightarrow> u64 \<Rightarrow> bool" where
  "mem_range addr sz \<longleftrightarrow> sz \<in> set int_sizes \<and> unat addr mod 16 + unat sz \<le> 16 \<and>
     op_range (sint addr) (int (unat sz))"

lemma int_sizes_cases: "sz \<in> set int_sizes \<longleftrightarrow> unat sz \<in> {1, 2, 4, 8}"
proof
  assume "unat sz \<in> {1, 2, 4, 8}"
  then have "unat sz = unat (1 :: u64) \<or> unat sz = unat (2 :: u64) \<or> unat sz = unat (4 :: u64) \<or> unat sz = unat (8 :: u64)"
    by auto
  then show "sz \<in> set int_sizes" unfolding word_unat_eq_iff [symmetric] by (simp add: int_sizes_def)
qed (auto simp: int_sizes_def)

lemma as_int_size: "sz \<in> set int_sizes \<Longrightarrow> as_int sz = int (unat sz)"
  by (auto simp: int_sizes_def as_int_def)

lemma unat_head_cave: "unat (head_cave addr) = unat addr mod 32"
  by (simp add: head_cave_def unat_hcave)

lemma mem_rangeD:
  assumes "mem_range addr sz"
  shows "sz \<in> set int_sizes" "as_int sz = int (unat sz)" "0 < unat sz" "unat sz \<le> 8" "no_wrap addr sz"
    "range_ok (sint addr) (sint addr + int (unat sz))" "\<not> BLOCK_SIZE < head_cave addr + sz"
    "(addr AND 0xf) + sz \<le> 16" "unat addr mod 32 + unat sz \<le> 32"
proof -
  show s: "sz \<in> set int_sizes" and r: "range_ok (sint addr) (sint addr + int (unat sz))"
    using assms by (auto simp: mem_range_def intro: op_range_range_ok)
  show "as_int sz = int (unat sz)" by (rule as_int_size [OF s])
  show p: "0 < unat sz" and l: "unat sz \<le> 8" using s by (auto simp: int_sizes_cases)
  have m: "unat addr mod 16 + unat sz \<le> 16" using assms by (simp add: mem_range_def)
  have d: "unat addr = 16 * (unat addr div 16) + unat addr mod 16" by simp
  have "unat addr div 16 < 2 ^ 60" using unat_u64_less [of addr] by (simp add: less_mult_imp_div_less)
  then have e: "16 * (unat addr div 16) + 16 \<le> 2 ^ 64" by simp
  then have "unat addr + unat sz \<le> 2 ^ 64" using m d by linarith
  then show "no_wrap addr sz" using p l unfolding no_wrap_def by simp
  have mm: "unat addr mod 32 = 16 * (unat addr div 16 mod 2) + unat addr mod 16"
    using mod_mult2_eq [of "unat addr" 16 2] by simp
  then show m32: "unat addr mod 32 + unat sz \<le> 32" using m by linarith
  have "unat (head_cave addr + sz) = unat addr mod 32 + unat sz"
    using m32 unat_add_lem [of "head_cave addr" sz] by (simp add: unat_head_cave)
  then show "\<not> BLOCK_SIZE < head_cave addr + sz" using m32 by (simp add: word_less_nat_alt BLOCK_SIZE_def)
  have "addr AND 0xf = take_bit 4 addr" by (simp add: take_bit_eq_mask mask_eq_exp_minus_1)
  then have "unat (addr AND 0xf) = unat addr mod 16" by (simp add: take_bit_eq_mod unat_mod)
  then show "(addr AND 0xf) + sz \<le> 16"
    using m unat_add_lem [of "addr AND 0xf" sz] by (simp add: word_le_nat_alt)
qed

lemma byte_range_sint:
  assumes "mem_range addr sz"
  shows "a \<in> byte_range addr sz \<longleftrightarrow> sint addr \<le> sint a \<and> sint a < sint addr + int (unat sz)"
proof -
  have m: "unat addr mod 16 + unat sz \<le> 16" using assms by (simp add: mem_range_def)
  have d: "unat addr = 16 * (unat addr div 16) + unat addr mod 16" by simp
  have half: "unat addr + unat sz \<le> 2 ^ 63" if "unat addr < 2 ^ 63"
  proof -
    have "unat addr div 16 < 2 ^ 59" using that by (simp add: less_mult_imp_div_less)
    then have "16 * (unat addr div 16) + 16 \<le> 2 ^ 63" by simp
    then show ?thesis using m d by linarith
  qed
  have all: "unat addr + unat sz \<le> 2 ^ 64" using mem_rangeD(5) [OF assms] by (simp add: no_wrap_def)
  have lt: "unat a < 2 ^ 64" by (rule unat_u64_less)
  define A where "A = unat addr"
  define S where "S = unat sz"
  define X where "X = unat a"
  note defs = A_def [symmetric] S_def [symmetric] X_def [symmetric]
  show ?thesis
  proof (cases "A < 2 ^ 63")
    case True
    then show ?thesis using half [unfolded defs] lt [unfolded defs]
      unfolding byte_range_def mem_Collect_eq sint_u64_cases defs by (cases "X < 2 ^ 63") auto
  next
    case False
    then show ?thesis using all [unfolded defs] lt [unfolded defs]
      unfolding byte_range_def mem_Collect_eq sint_u64_cases defs by (cases "X < 2 ^ 63") auto
  qed
qed

section \<open>The invariant\<close>

text \<open>What the list holds at an address.\<close>

definition sym_at :: "store \<Rightarrow> SYMemState \<Rightarrow> u64 \<Rightarrow> (expr \<times> int) option" where
  "sym_at st M a = bytes_of (st, m_AllSymbolList M) (sint a)"

definition mem_wf :: "store \<Rightarrow> SYMemState \<Rightarrow> bool" where
  "mem_wf st M \<longleftrightarrow> links_ok (m_Bitmap M) \<and> slm_wf (st, m_AllSymbolList M) \<and>
     (\<forall>a. a \<in> sym_bytes (m_Bitmap M) \<longleftrightarrow> sym_at st M a \<noteq> None)"

lemma mem_wf_new: "mem_wf (fst (new_SYMemState ph st)) (snd (new_SYMemState ph st))"
  using slm_wf_new [of st] links_ok_empty
  by (simp add: mem_wf_def new_SYMemState_def sym_at_def sym_bytes_empty split_beta Let_def)

lemma sym_at_phys [simp]: "sym_at st (M\<lparr>phys := ph\<rparr>) = sym_at st M"
  by (simp add: sym_at_def fun_eq_iff)

lemma mem_wf_phys [simp]: "mem_wf st (M\<lparr>phys := ph\<rparr>) = mem_wf st M"
  by (simp add: mem_wf_def)

lemma isSYMemoryCell_ok:
  assumes "mem_wf st M" "mem_range addr sz"
  shows "isSYMemoryCell M addr sz = Inr (\<exists>a \<in> byte_range addr sz. sym_at st M a \<noteq> None)"
  using test_spec [OF mem_rangeD(5) [OF assms(2)], of "m_Bitmap M"] assms(1)
  by (auto simp: isSYMemoryCell_def mem_wf_def)

section \<open>Writes\<close>

lemma mem_writeSymbolicExpr_ok:
  assumes wf: "mem_wf st M" and r: "mem_range addr sz"
  shows "\<exists>st' M'. mem_writeSymbolicExpr st M addr sz (Some e) = Inr (st', M', True) \<and> mem_wf st' M' \<and>
    phys M' = phys M \<and>
    sym_at st' M' = (\<lambda>a. if a \<in> byte_range addr sz then Some (byte_ref e (sint a - sint addr)) else sym_at st M a)"
proof -
  note D = mem_rangeD [OF r]
  have lk: "links_ok (m_Bitmap M)" using wf by (simp add: mem_wf_def)
  obtain bm' where bm: "markSYMemBitmap addr sz (m_Bitmap M) = Inr (bm', addr AND BLOCK_MASK)"
    "links_ok bm'" "sym_bytes bm' = sym_bytes (m_Bitmap M) \<union> byte_range addr sz"
    using mark_spec [OF D(5), of "m_Bitmap M"] mark_links [OF D(5) lk] by blast
  obtain s' where s: "put_expr (sint addr) (int (unat sz)) e (st, m_AllSymbolList M) = Inr s'" "slm_wf s'"
    "bytes_of s' = (\<lambda>x. if sint addr \<le> x \<and> x < sint addr + int (unat sz) then Some (byte_ref e (x - sint addr))
        else bytes_of (st, m_AllSymbolList M) x)"
    using put_expr_spec [OF _ D(6), of "(st, m_AllSymbolList M)" e] wf by (auto simp: mem_wf_def)
  obtain st' m' where s': "s' = (st', m')" by (cases s')
  define M' where "M' = M\<lparr>m_Bitmap := bm', m_AllSymbolList := m'\<rparr>"
  have mg: "(let (p, st) = alloc (new_cell (sint addr) (as_int sz) (Some e)) st
      in Merge st (m_AllSymbolList M) (Some p)) = Inr (st', m')"
    using s(1) s' D(2) by (simp add: put_expr_def)
  have "mem_writeSymbolicExpr st M addr sz (Some e) = Inr (st', M', True)"
    using mg D(7,8) bm(1) by (simp add: mem_writeSymbolicExpr_def alloc_eq M'_def)
  moreover have at: "sym_at st' M' = (\<lambda>a. if a \<in> byte_range addr sz
      then Some (byte_ref e (sint a - sint addr)) else sym_at st M a)"
    using s(3) s' by (simp add: sym_at_def M'_def fun_eq_iff byte_range_sint [OF r])
  moreover have "mem_wf st' M'"
    using wf bm(2,3) s(2) unfolding mem_wf_def at by (simp add: M'_def s')
  ultimately show ?thesis by (auto simp: M'_def)
qed

lemma mem_remove_ok:
  assumes wf: "mem_wf st M" and r: "mem_range addr sz"
  shows "\<exists>bm' st' m'. unmarkSYMemBitmap addr sz (m_Bitmap M) = Inr bm' \<and>
    Remove st (m_AllSymbolList M) (sint addr) (as_int sz) = Inr (st', m') \<and>
    mem_wf st' (M\<lparr>m_Bitmap := bm', m_AllSymbolList := m'\<rparr>) \<and>
    sym_at st' (M\<lparr>m_Bitmap := bm', m_AllSymbolList := m'\<rparr>) =
      (\<lambda>a. if a \<in> byte_range addr sz then None else sym_at st M a)"
proof -
  note D = mem_rangeD [OF r]
  have lk: "links_ok (m_Bitmap M)" using wf by (simp add: mem_wf_def)
  obtain bm' where bm: "unmarkSYMemBitmap addr sz (m_Bitmap M) = Inr bm'" "links_ok bm'"
    "sym_bytes bm' = sym_bytes (m_Bitmap M) - byte_range addr sz" using unmark_spec [OF D(5) lk] by blast
  obtain s' where s: "rem (sint addr) (int (unat sz)) (st, m_AllSymbolList M) = Inr s'" "slm_wf s'"
    "bytes_of s' = (\<lambda>x. if sint addr \<le> x \<and> x < sint addr + int (unat sz) then None
        else bytes_of (st, m_AllSymbolList M) x)"
    using rem_spec [OF _ D(6), of "(st, m_AllSymbolList M)"] wf by (auto simp: mem_wf_def)
  obtain st' m' where s': "s' = (st', m')" by (cases s')
  define M' where "M' = M\<lparr>m_Bitmap := bm', m_AllSymbolList := m'\<rparr>"
  have "Remove st (m_AllSymbolList M) (sint addr) (as_int sz) = Inr (st', m')"
    using s(1) s' D(2) by (simp add: rem_def)
  moreover have at: "sym_at st' M' = (\<lambda>a. if a \<in> byte_range addr sz then None else sym_at st M a)"
    using s(3) s' by (simp add: sym_at_def M'_def fun_eq_iff byte_range_sint [OF r])
  moreover have "mem_wf st' M'"
    using wf bm(2,3) s(2) unfolding mem_wf_def at by (simp add: M'_def s')
  ultimately show ?thesis using bm(1) unfolding M'_def by blast
qed

section \<open>Reads\<close>

lemma sym_byte_chunk:
  assumes "a \<in> sym_bytes bm" "a \<in> byte_range addr sz" "unat addr mod 32 + unat sz \<le> 32"
  shows "findSYMemChunk (addr AND BLOCK_MASK) bm \<noteq> None"
proof -
  define q where "q = unat addr div 32"
  have "unat addr = 32 * q + unat addr mod 32" by (simp add: q_def)
  then have "32 * q \<le> unat a" "unat a < 32 * q + 32"
    using assms(2,3) unfolding byte_range_def mem_Collect_eq by linarith+
  then have "unat a div 32 = q" by (intro div_nat_eqI) simp_all
  then have "unat a div 32 = unat addr div 32" by (simp add: q_def)
  then have "a AND BLOCK_MASK = addr AND BLOCK_MASK" by (simp add: block_eq_iff)
  then have "bm (addr AND BLOCK_MASK) \<noteq> None" using assms(1) by (auto simp: sym_bytes_def is_sym_byte_def split: option.splits)
  moreover have "(addr AND BLOCK_MASK) AND BLOCK_MASK = addr AND BLOCK_MASK" by (simp add: and.assoc)
  ultimately show ?thesis by (auto simp: findSYMemChunk_def Let_def split: option.split)
qed

lemma mem_read_checks_ok:
  assumes "mem_range addr sz" "a \<in> sym_bytes (m_Bitmap M)" "a \<in> byte_range addr sz"
  shows "mem_read_checks M addr sz = Inr True"
proof -
  note D = mem_rangeD [OF assms(1)]
  have "\<exists>mm. chunk_mask (head_cave addr) sz = Inr mm"
    using chunk_mask_ok [of "head_cave addr" sz] D(3,9) by (auto simp: unat_head_cave)
  then show ?thesis using D(7) sym_byte_chunk [OF assms(2,3) D(9)] by (auto simp: mem_read_checks_def)
qed

lemma readMemoryCell_conc:
  assumes "mem_wf st M" "mem_range (mv_addr v) (mv_size v)" "\<forall>a \<in> byte_range (mv_addr v) (mv_size v). sym_at st M a = None"
  shows "readMemoryCell st M v = Inr (st, v\<lparr>mv_bsym := False, mv_isSymList := False,
    mv_i64 := signed_take_bit (8 * unat (mv_size v) - 1) (get_bytes (unat (mv_size v)) (mv_addr v) (phys M))\<rparr>, True)"
  using isSYMemoryCell_ok [OF assms(1,2)] assms(3) mem_rangeD(1) [OF assms(2)]
  by (simp add: readMemoryCell_def isSYMemoryCell_def mem_readConcreteValue_def Let_def)

lemma readMemoryCell_expr:
  assumes wf: "mem_wf st M" and r: "mem_range (mv_addr v) (mv_size v)" and l: "\<not> mv_isSymList v"
    and s: "a \<in> byte_range (mv_addr v) (mv_size v)" "sym_at st M a \<noteq> None"
  shows "\<exists>st' e. readMemoryCell st M v = Inr (st', v\<lparr>mv_bsym := True, mv_expr := Some e,
      mv_i64 := signed_take_bit (8 * unat (mv_size v) - 1) (get_bytes (unat (mv_size v)) (mv_addr v) (phys M))\<rparr>, True) \<and>
    mem_wf st' M \<and> sym_at st' M = sym_at st M \<and>
    reads_as e (int (unat (mv_size v))) (or_concrete (\<lambda>k. bytes_of (st, m_AllSymbolList M) (sint (mv_addr v) + k))
      (signed_take_bit (8 * unat (mv_size v) - 1) (get_bytes (unat (mv_size v)) (mv_addr v) (phys M))))"
proof -
  let ?a = "mv_addr v" and ?n = "mv_size v"
  let ?c = "signed_take_bit (8 * unat ?n - 1) (get_bytes (unat ?n) ?a (phys M))"
  note D = mem_rangeD [OF r]
  have w: "slm_wf (st, m_AllSymbolList M)" using wf by (simp add: mem_wf_def)
  have n: "int (unat ?n) \<le> 8" using D(4) by linarith
  have ex: "\<exists>x. sint ?a \<le> x \<and> x < sint ?a + int (unat ?n) \<and> bytes_of (st, m_AllSymbolList M) x \<noteq> None"
    using s by (intro exI [of _ "sint a"]) (simp add: byte_range_sint [OF r] sym_at_def)
  obtain s' e where g: "get_expr (sint ?a) (int (unat ?n)) ?c (st, m_AllSymbolList M) = Inr (s', e)" "slm_wf s'"
    "bytes_of s' = bytes_of (st, m_AllSymbolList M)"
    "reads_as e (int (unat ?n)) (or_concrete (\<lambda>k. bytes_of (st, m_AllSymbolList M) (sint ?a + k)) ?c)"
    using get_expr_spec [OF w D(6) n ex] by blast
  then obtain st' where s': "s' = (st', m_AllSymbolList M)"
    "GetExpr st (m_AllSymbolList M) (sint ?a) (int (unat ?n)) ?c = Inr (st', e)"
    by (auto simp: get_expr_def rbind_eq_Inr_iff split: prod.splits)
  have b: "isSYMemoryCell M ?a ?n = Inr True" using isSYMemoryCell_ok [OF wf r] s by auto
  have "a \<in> sym_bytes (m_Bitmap M)" using wf s(2) by (simp add: mem_wf_def)
  then have ck: "mem_read_checks M ?a ?n = Inr True" by (rule mem_read_checks_ok [OF r _ s(1)])
  have "readMemoryCell st M v = Inr (st', v\<lparr>mv_bsym := True, mv_expr := Some e, mv_i64 := ?c\<rparr>, True)"
    using b ck s'(2) D(1,2) l
    by (simp add: readMemoryCell_def isSYMemoryCell_def mem_readSymbolicExpr_def mem_readConcreteValue_def Let_def)
  moreover have at: "sym_at st' M = sym_at st M" using g(3) by (simp add: sym_at_def s'(1) fun_eq_iff)
  moreover have "mem_wf st' M" using wf g(2) unfolding mem_wf_def at by (simp add: s'(1))
  ultimately show ?thesis using g(4) by blast
qed

section \<open>Loads and stores of bytes\<close>

lemma put_bytes_at:
  "n \<le> 8 \<Longrightarrow> put_bytes n a v ph x = (if unat (x - a) < n then ucast (drop_bit (8 * unat (x - a)) v) else ph x)"
proof (induction n arbitrary: a v ph)
  case (Suc n)
  have IH: "put_bytes n (a + 1) (drop_bit 8 v) (ph(a := ucast v)) x = (if unat (x - (a + 1)) < n
      then ucast (drop_bit (8 * unat (x - (a + 1))) (drop_bit 8 v)) else (ph(a := ucast v)) x)"
    by (rule Suc.IH) (use Suc.prems in simp)
  show ?case
  proof (cases "x = a")
    case True
    have "unat (x - (a + 1)) = 2 ^ 64 - 1" using True by (simp add: unsigned_minus_1_eq_mask mask_eq_exp_minus_1)
    then have "\<not> unat (x - (a + 1)) < n" using Suc.prems by simp
    then show ?thesis unfolding put_bytes.simps IH using True by simp
  next
    case False
    define d where "d = x - a"
    have d: "d \<noteq> 0" "x - (a + 1) = d - 1" using False by (simp_all add: d_def)
    then have "unat d = Suc (unat (d - 1))" using unat_minus_one [OF d(1)] unat_gt_0 [of d] by simp
    then show ?thesis unfolding put_bytes.simps IH d(2) using False unfolding d_def [symmetric]
      by (simp add: add.commute)
  qed
qed simp

lemma bit_get_bytes:
  "n \<le> 8 \<Longrightarrow> bit (get_bytes n a ph) k \<longleftrightarrow> k < 8 * n \<and> bit (ph (a + of_nat (k div 8))) (k mod 8)"
proof (induction n arbitrary: a k)
  case (Suc n)
  show ?case
  proof (cases "k < 8")
    case True
    then show ?thesis using Suc.prems by (simp add: bit_simps)
  next
    case False
    then obtain j where k: "k = 8 + j" by (metis le_add_diff_inverse not_less)
    have "k div 8 = 1 + j div 8" "k mod 8 = j mod 8" by (simp_all add: k)
    then have "(of_nat (k div 8) :: u64) = 1 + of_nat (j div 8)" "k mod 8 = j mod 8" by (simp_all only: of_nat_add of_nat_1)
    moreover have "\<not> bit (ucast (ph a) :: u64) k"
      using False bit_imp_le_length [of "ph a" k] by (auto simp: bit_simps)
    moreover have "j < 8 * n \<Longrightarrow> k < 64" using Suc.prems k by simp
    ultimately show ?thesis using Suc.IH [of "a + 1" j] Suc.prems by (auto simp: k bit_simps add.assoc)
  qed
qed simp

lemma get_put_bytes: "n \<le> 8 \<Longrightarrow> get_bytes n a (put_bytes n a v ph) = take_bit (8 * n) v"
proof (rule bit_word_eqI)
  fix k assume n: "n \<le> 8" and k: "k < LENGTH(64)"
  have "unat (of_nat (k div 8) :: u64) = k div 8" using k by (simp add: unat_of_nat)
  moreover have "k < 8 * n \<Longrightarrow> k div 8 < n" by (simp add: less_mult_imp_div_less mult.commute)
  ultimately show "bit (get_bytes n a (put_bytes n a v ph)) k = bit (take_bit (8 * n) v) k"
    using k n by (auto simp: bit_get_bytes put_bytes_at bit_simps)
qed

lemma sign_read_write:
  assumes "0 < n" "n \<le> 8"
  shows "signed_take_bit (8 * n - 1) (get_bytes n a (put_bytes n a v ph)) = signed_take_bit (8 * n - 1) v"
proof -
  have "\<not> 8 * n \<le> 8 * n - 1" using assms by simp
  then show ?thesis unfolding get_put_bytes [OF assms(2)] signed_take_bit_take_bit by simp
qed

section \<open>Writing a list of cells\<close>

lemma byte_offset:
  assumes "mem_range addr sz" "a \<in> byte_range addr sz"
  shows "sint a - sint addr = int (unat a) - int (unat addr)"
proof -
  define A where "A = unat addr"
  define S where "S = unat sz"
  define X where "X = unat a"
  note defs = A_def [symmetric] S_def [symmetric] X_def [symmetric]
  have b: "A \<le> X" "X < A + S" "sint addr \<le> sint a" "sint a < sint addr + int S"
    using assms(2) byte_range_sint [OF assms(1), of a] by (auto simp: byte_range_def A_def S_def X_def)
  have "S \<le> 8" unfolding S_def by (rule mem_rangeD(4) [OF assms(1)])
  then show ?thesis using b unfolding sint_u64_cases defs by (auto split: if_splits)
qed

lemma sub_range:
  assumes r: "mem_range addr sz" and o: "0 \<le> d" "0 < k" "d + k \<le> int (unat sz)"
  shows "no_wrap (word_of_int (d + sint addr)) (word_of_int k)"
    "byte_range (word_of_int (d + sint addr)) (word_of_int k) =
       {a \<in> byte_range addr sz. d \<le> sint a - sint addr \<and> sint a - sint addr < d + k}"
proof -
  define D where "D = nat d"
  define K where "K = nat k"
  have dk: "d = int D" "k = int K" "0 < K" using o by (auto simp: D_def K_def)
  have "int D + int K \<le> int (unat sz)" using o(3) unfolding dk(1,2) .
  then have DK: "D + K \<le> unat sz" by linarith
  note dk = dk DK
  have le: "unat sz \<le> 8" "unat addr + unat sz \<le> 2 ^ 64"
    using mem_rangeD(4,5) [OF r] by (auto simp: no_wrap_def)
  have w: "(word_of_int (d + sint addr) :: u64) = addr + of_nat D" by (simp add: dk of_int_add add.commute)
  have uD: "unat (of_nat D :: u64) = D" "unat (of_nat K :: u64) = K"
    using dk(4) le(1) by (simp_all add: unat_of_nat)
  have ua: "unat (addr + of_nat D) = unat addr + D"
    using dk(3,4) le unat_add_lem [of addr "of_nat D"] by (simp add: uD)
  have uk: "unat (word_of_int k :: u64) = K" by (simp add: dk(2) uD)
  show "no_wrap (word_of_int (d + sint addr)) (word_of_int k)"
    unfolding no_wrap_def w ua uk using dk(3,4) le by simp
  have "a \<in> byte_range (word_of_int (d + sint addr)) (word_of_int k) \<longleftrightarrow>
      a \<in> byte_range addr sz \<and> d \<le> sint a - sint addr \<and> sint a - sint addr < d + k" for a
  proof (cases "a \<in> byte_range addr sz")
    case True
    then show ?thesis unfolding byte_offset [OF r True] unfolding byte_range_def mem_Collect_eq w ua uk
      unfolding dk(1,2) by (intro iffI conjI; elim conjE; linarith)
  next
    case False
    then show ?thesis using dk(4) unfolding byte_range_def mem_Collect_eq w ua uk by auto
  qed
  then show "byte_range (word_of_int (d + sint addr)) (word_of_int k) =
       {a \<in> byte_range addr sz. d \<le> sint a - sint addr \<and> sint a - sint addr < d + k}" by blast
qed

declare mark_cells.simps(2) [simp del]

lemma mark_cells_ok:
  assumes r: "mem_range addr sz"
  shows "linked st R \<Longrightarrow> distinct R \<Longrightarrow> (R \<noteq> [] \<longrightarrow> nxt st (last R) = None) \<Longrightarrow> length R < n \<Longrightarrow> links_ok bm \<Longrightarrow>
     \<forall>q \<in> set R. 0 \<le> adr st q \<and> 0 < siz st q \<and> endp st q \<le> int (unat sz) \<Longrightarrow>
     \<exists>st' bm'. mark_cells n st bm (if R = [] then None else Some (hd R)) addr = Inr (st', bm') \<and>
       fresh st' = fresh st \<and>
       (\<forall>q. heap st' q = (if q \<in> set R then (heap st q)\<lparr>c_addr := adr st q + sint addr\<rparr> else heap st q)) \<and>
       links_ok bm' \<and> sym_bytes bm' = sym_bytes bm \<union>
         {a \<in> byte_range addr sz. \<exists>q \<in> set R. adr st q \<le> sint a - sint addr \<and> sint a - sint addr < endp st q}"
proof (induction R arbitrary: n st bm)
  case Nil
  then show ?case by (cases n) (simp_all add: mark_cells.simps(2))
next
  case (Cons p R)
  then obtain k where n: "n = Suc k" by (cases n) auto
  define st1 where "st1 = upd p (\<lambda>c. c\<lparr>c_addr := c_addr c + sint addr\<rparr>) st"
  have p: "p \<notin> set R" using Cons.prems(2) by simp
  have cell: "adr st1 p = adr st p + sint addr" "siz st1 p = siz st p" by (simp_all add: st1_def)
  have nx: "nxt st1 p = (if R = [] then None else Some (hd R))"
    using Cons.prems(1,3) by (cases R) (auto simp: st1_def)
  have l: "linked st1 R"
  proof -
    have "linked st R" using Cons.prems(1) by (cases R) auto
    moreover have "linked st1 R = linked st R" by (rule linked_cong) (auto simp: st1_def)
    ultimately show ?thesis by simp
  qed
  have o: "0 \<le> adr st p" "0 < siz st p" "endp st p \<le> int (unat sz)" using Cons.prems(6) by auto
  note sr = sub_range [OF r o]
  obtain bm1 c where m: "markSYMemBitmap (word_of_int (adr st1 p)) (word_of_int (siz st1 p)) bm = Inr (bm1, c)" "links_ok bm1"
    "sym_bytes bm1 = sym_bytes bm \<union> {a \<in> byte_range addr sz. adr st p \<le> sint a - sint addr \<and> sint a - sint addr < endp st p}"
    unfolding cell sr(2) [symmetric] using mark_spec [OF sr(1), of bm] mark_links [OF sr(1) Cons.prems(5)] by blast
  have hR: "heap st1 q = heap st q" if "q \<in> set R" for q using that p by (auto simp: st1_def)
  have pr: "\<forall>q \<in> set R. 0 \<le> adr st1 q \<and> 0 < siz st1 q \<and> endp st1 q \<le> int (unat sz)"
    using Cons.prems(6) hR by simp
  have ls: "R \<noteq> [] \<longrightarrow> nxt st1 (last R) = None" using Cons.prems(3) by (auto simp: st1_def)
  obtain st' bm' where IH: "mark_cells k st1 bm1 (nxt st1 p) addr = Inr (st', bm')" "fresh st' = fresh st1"
    "\<forall>q. heap st' q = (if q \<in> set R then (heap st1 q)\<lparr>c_addr := adr st1 q + sint addr\<rparr> else heap st1 q)"
    "links_ok bm'" "sym_bytes bm' = sym_bytes bm1 \<union>
         {a \<in> byte_range addr sz. \<exists>q \<in> set R. adr st1 q \<le> sint a - sint addr \<and> sint a - sint addr < endp st1 q}"
    using Cons.IH [OF l _ ls _ m(2) pr, of k] Cons.prems(2,4) n unfolding nx by auto
  have "mark_cells n st bm (Some p) addr = Inr (st', bm')"
    unfolding n mark_cells.simps(2) st1_def [symmetric] Let_def option.case m(1) rbind.simps prod.case by (rule IH(1))
  moreover have "\<forall>q. heap st' q = (if q \<in> set (p # R) then (heap st q)\<lparr>c_addr := adr st q + sint addr\<rparr> else heap st q)"
    using IH(3) p by (auto simp: st1_def)
  moreover have "sym_bytes bm' = sym_bytes bm \<union> {a \<in> byte_range addr sz.
      \<exists>q \<in> set (p # R). adr st q \<le> sint a - sint addr \<and> sint a - sint addr < endp st q}"
    unfolding IH(5) m(3) using hR by (auto simp: st1_def)
  ultimately show ?case using IH(2,4) by (auto simp: st1_def)
qed

text \<open>
  A value given as a list of cells: fresh cells at relative addresses, as GetCellList returns
  them for a value of sz bytes.
\<close>

definition list_value :: "store \<Rightarrow> SYMemState \<Rightarrow> nat list \<Rightarrow> u64 \<Rightarrow> bool" where
  "list_value st M R sz \<longleftrightarrow> R \<noteq> [] \<and> path_of st R \<and> nxt st (last R) = None \<and>
     ordered 0 (map (entry st) R) (int (unat sz)) \<and>
     (\<forall>q \<in> set R. 0 < siz st q \<and> c_expr (heap st q) \<noteq> None) \<and>
     set R \<inter> set (full_path (m_AllSymbolList M) (cells_of (st, m_AllSymbolList M))) = {}"

text \<open>The bytes between the first and the last cell of the value.\<close>

definition in_hull :: "store \<Rightarrow> nat list \<Rightarrow> int \<Rightarrow> bool" where
  "in_hull st R k \<longleftrightarrow> adr st (hd R) \<le> k \<and> k < endp st (last R)"

lemma lookup_cells:
  "\<forall>q \<in> set R. c_expr (heap st q) \<noteq> None \<Longrightarrow>
     lookup (map (entry st) R) x \<noteq> None \<longleftrightarrow> (\<exists>q \<in> set R. adr st q \<le> x \<and> x < endp st q)"
  by (induction R) (auto simp: entry_def)

lemma lookup_hull:
  assumes "ordered lo (map (entry st) R) hi" "R \<noteq> []" "lookup (map (entry st) R) x \<noteq> None"
  shows "in_hull st R x"
proof -
  have "ordered (adr st (hd R)) (map (entry st) R) (endp st (last R))"
  proof -
    obtain X c where R: "R = X @ [c]" using assms(2) by (metis append_butlast_last_id)
    have "ordered lo (map (entry st) R) (endp st (last R))" using ordered_last [of lo st X c hi] assms(1) by (simp add: R)
    then show ?thesis using assms(2) by (cases R) (simp_all add: ordered_entry)
  qed
  then have "\<not> (x < adr st (hd R) \<or> endp st (last R) \<le> x)" using lookup_outside [of "adr st (hd R)" "map (entry st) R" "endp st (last R)" x] assms(3) by blast
  then show ?thesis by (simp add: in_hull_def)
qed

lemma shifted_entries:
  assumes "\<forall>q \<in> set R. heap st' q = (heap st q)\<lparr>c_addr := adr st q + a\<rparr>"
  shows "map (entry st') R = map (\<lambda>(b, s, e). (b - (- a), s, e)) (map (entry st) R)"
  using assms by (auto simp: entry_def)

lemma mem_writeSymbolicList_ok:
  assumes wf: "mem_wf st M" and r: "mem_range addr sz" and v: "list_value st M R sz"
  shows "\<exists>st' M'. mem_writeSymbolicList st M addr sz (Some (hd R)) = Inr (st', M', True) \<and> phys M' = phys M \<and>
    links_ok (m_Bitmap M') \<and> slm_wf (st', m_AllSymbolList M') \<and>
    sym_bytes (m_Bitmap M') = sym_bytes (m_Bitmap M) - byte_range addr sz \<union>
      {a \<in> byte_range addr sz. lookup (map (entry st) R) (sint a - sint addr) \<noteq> None} \<and>
    sym_at st' M' = (\<lambda>a. if in_hull st R (sint a - sint addr)
      then lookup (map (entry st) R) (sint a - sint addr) else sym_at st M a)"
proof -
  note D = mem_rangeD [OF r]
  define m where "m = m_AllSymbolList M"
  define ps where "ps = cells_of (st, m)"
  have lk: "links_ok (m_Bitmap M)" and ok: "slm_ok st m ps"
    using wf by (auto simp: mem_wf_def slm_wf_def ps_def m_def)
  have V: "R \<noteq> []" "path_of st R" "nxt st (last R) = None" "ordered 0 (map (entry st) R) (int (unat sz))"
    "\<forall>q \<in> set R. 0 < siz st q \<and> c_expr (heap st q) \<noteq> None" "set R \<inter> set (full_path m ps) = {}"
    using v by (auto simp: list_value_def ps_def m_def)
  have bd: "\<forall>q \<in> set R. 0 \<le> adr st q \<and> 0 < siz st q \<and> endp st q \<le> int (unat sz)"
    using ordered_bounds' [OF V(4)] V(5) by blast
  obtain bm1 where b1: "unmarkSYMemBitmap addr sz (m_Bitmap M) = Inr bm1" "links_ok bm1"
    "sym_bytes bm1 = sym_bytes (m_Bitmap M) - byte_range addr sz" using unmark_spec [OF D(5) lk] by blast
  have lR: "linked st R" "distinct R" using V(2) by (auto simp: path_of_def)
  have len: "length R < fresh st + 1" using length_path [OF V(2)] by simp
  obtain st1 bm' where mk: "mark_cells (fresh st + 1) st bm1 (Some (hd R)) addr = Inr (st1, bm')" "fresh st1 = fresh st"
    "\<forall>q. heap st1 q = (if q \<in> set R then (heap st q)\<lparr>c_addr := adr st q + sint addr\<rparr> else heap st q)"
    "links_ok bm'" "sym_bytes bm' = sym_bytes bm1 \<union>
         {a \<in> byte_range addr sz. \<exists>q \<in> set R. adr st q \<le> sint a - sint addr \<and> sint a - sint addr < endp st q}"
    using mark_cells_ok [OF r lR _ len b1(2) bd] V(1,3) by auto
  have hm: "heap st1 q = heap st q" if "q \<in> set (full_path m ps)" for q using mk(3) V(6) that by auto
  have ok1: "slm_ok st1 m ps" and c1: "contents st1 ps = contents st ps"
    using slm_ok_same [OF ok _ hm] mk(2) by simp_all
  have h: "\<forall>q \<in> set R. heap st1 q = (heap st q)\<lparr>c_addr := adr st q + sint addr\<rparr>" using mk(3) by simp
  have hd: "hd R \<in> set R" and la: "last R \<in> set R" using V(1) by auto
  have en: "map (entry st1) R = map (\<lambda>(b, s, e). (b - (- sint addr), s, e)) (map (entry st) R)"
    by (rule shifted_entries [OF h])
  have o1: "ordered (sint addr) (map (entry st1) R) (int (unat sz) + sint addr)"
    using V(4) ordered_shift [of 0 "- sint addr" "map (entry st) R" "int (unat sz)"] unfolding en by simp
  have opr: "op_range (sint addr) (int (unat sz))" using r by (simp add: mem_range_def)
  have src: "source_list st1 R (sint addr + adr st (hd R)) (sint addr + endp st (last R))"
  proof -
    have "linked st1 R = linked st R" by (rule linked_cong; drule in_set_butlastD in_set_tlD; simp add: h)
    then have p1: "path_of st1 R" using V(2) mk(2) by (simp add: path_of_def)
    have "ordered (sint addr + adr st (hd R)) (map (entry st1) R) (sint addr + endp st (last R))"
    proof -
      obtain X c where R: "R = X @ [c]" using V(1) by (metis append_butlast_last_id)
      have "ordered (sint addr) (map (entry st1) R) (sint addr + endp st (last R))"
        using ordered_last [of "sint addr" st1 X c "int (unat sz) + sint addr"] o1 h by (simp add: R)
      then show ?thesis using V(1) h by (cases R) (simp_all add: ordered_entry add.commute)
    qed
    moreover have "list_all (good_cell st1) R"
      using bd V(5) h opr by (fastforce simp: list_all_iff good_cell_def op_range_def)
    ultimately show ?thesis using V(1,3) p1 h hd la by (simp add: source_list_def)
  qed
  have "endp st (last R) \<le> int (unat sz)" "0 < endp st (last R)" using bd la by force+
  then have te: "sint addr + endp st (last R) \<noteq> - 1" using opr by (auto simp: op_range_def)
  obtain st' m' ps' where mg: "Merge st1 m (Some (hd R)) = Inr (st', m')" "list_step (set R) st1 m ps st' m' ps'"
    "contents st' ps' = (\<lambda>x. if sint addr + adr st (hd R) \<le> x \<and> x < sint addr + endp st (last R)
       then lookup (map (entry st1) R) x else contents st1 ps x)"
    using Merge_ok [OF ok1 src te V(6)] by blast
  define M' where "M' = M\<lparr>m_Bitmap := bm', m_AllSymbolList := m'\<rparr>"
  have ok': "slm_ok st' m' ps'" using mg(2) by (simp add: list_step_def)
  have "mem_writeSymbolicList st M addr sz (Some (hd R)) = Inr (st', M', True)"
    using D(7,8) b1(1) mk(1) mg(1) by (simp add: mem_writeSymbolicList_def M'_def m_def)
  moreover have "sym_bytes bm' = sym_bytes (m_Bitmap M) - byte_range addr sz \<union>
      {a \<in> byte_range addr sz. lookup (map (entry st) R) (sint a - sint addr) \<noteq> None}"
    unfolding mk(5) b1(3) using lookup_cells [of R st] V(5) by blast
  moreover have "sym_at st' M' = (\<lambda>a. if in_hull st R (sint a - sint addr)
      then lookup (map (entry st) R) (sint a - sint addr) else sym_at st M a)"
  proof
    fix a :: u64
    have "lookup (map (entry st1) R) (sint a) = lookup (map (entry st) R) (sint a - sint addr)"
      unfolding en lookup_shift by (simp add: add.commute)
    moreover have "bytes_of (st', m') = contents st' ps'" "bytes_of (st, m) = contents st ps"
      using slm_wfI [OF ok'] slm_wfI [OF ok] by auto
    ultimately show "sym_at st' M' a = (if in_hull st R (sint a - sint addr)
      then lookup (map (entry st) R) (sint a - sint addr) else sym_at st M a)"
      by (auto simp: sym_at_def M'_def m_def [symmetric] mg(3) c1 in_hull_def)
  qed
  moreover have "slm_wf (st', m')" using slm_wfI [OF ok'] by simp
  ultimately show ?thesis using mk(4) unfolding M'_def by (intro exI conjI) (assumption | simp)+
qed

section \<open>What the instruction handlers rely on\<close>

lemma writeMemoryCell_conc:
  assumes "mem_wf st M" "mem_range (mv_addr v) (mv_size v)" "\<not> mv_bsym v"
  shows "\<exists>st' M'. writeMemoryCell st M v = Inr (st', M', True) \<and> mem_wf st' M' \<and>
    phys M' = put_bytes (unat (mv_size v)) (mv_addr v) (mv_i64 v) (phys M) \<and>
    sym_at st' M' = (\<lambda>a. if a \<in> byte_range (mv_addr v) (mv_size v) then None else sym_at st M a)"
proof -
  let ?a = "mv_addr v" and ?n = "mv_size v"
  obtain bm' st' m' where h: "unmarkSYMemBitmap ?a ?n (m_Bitmap M) = Inr bm'"
    "Remove st (m_AllSymbolList M) (sint ?a) (as_int ?n) = Inr (st', m')"
    "mem_wf st' (M\<lparr>m_Bitmap := bm', m_AllSymbolList := m'\<rparr>)"
    "sym_at st' (M\<lparr>m_Bitmap := bm', m_AllSymbolList := m'\<rparr>) = (\<lambda>c. if c \<in> byte_range ?a ?n then None else sym_at st M c)"
    using mem_remove_ok [OF assms(1,2)] by blast
  let ?M = "M\<lparr>m_Bitmap := bm', m_AllSymbolList := m', phys := put_bytes (unat ?n) ?a (mv_i64 v) (phys M)\<rparr>"
  have "sym_at st' ?M = (\<lambda>c. if c \<in> byte_range ?a ?n then None else sym_at st M c)" "mem_wf st' ?M"
    using h(3,4) by (simp_all add: sym_at_def mem_wf_def)
  moreover have "writeMemoryCell st M v = Inr (st', ?M, True)"
    using h(1,2) mem_rangeD(1) [OF assms(2)] assms(3) by (simp add: writeMemoryCell_def mem_writeConcreteValue_def Let_def)
  ultimately show ?thesis by (intro exI [of _ st'] exI [of _ ?M]) simp
qed

text \<open>C30. Writing a concrete value or one expression to a memory cell of 1, 2, 4 or 8 bytes keeps
  the bitmap and the list of cells in agreement, stores the bytes of the value in physical memory,
  makes exactly the bytes written symbolic with that expression (or none of them symbolic, for a
  concrete value) and leaves the symbolic state of every other byte alone.\<close>

theorem writeMemoryCell_ok:
  assumes "mem_wf st M" "mem_range (mv_addr v) (mv_size v)" "\<not> mv_isSymList v"
    and "if mv_bsym v then mv_expr v = Some e else True"
  shows "\<exists>st' M'. writeMemoryCell st M v = Inr (st', M', True) \<and> mem_wf st' M' \<and>
    phys M' = put_bytes (unat (mv_size v)) (mv_addr v) (mv_i64 v) (phys M) \<and>
    sym_at st' M' = (\<lambda>a. if a \<in> byte_range (mv_addr v) (mv_size v)
      then (if mv_bsym v then Some (byte_ref e (sint a - sint (mv_addr v))) else None) else sym_at st M a)"
proof -
  let ?ph = "put_bytes (unat (mv_size v)) (mv_addr v) (mv_i64 v) (phys M)"
  have c: "mem_writeConcreteValue (mv_addr v) (mv_size v) (mv_i64 v) (phys M) = (?ph, True)"
    using mem_rangeD(1) [OF assms(2)] by (simp add: mem_writeConcreteValue_def)
  show ?thesis
  proof (cases "mv_bsym v")
    case True
    then show ?thesis
      using mem_writeSymbolicExpr_ok [of st "M\<lparr>phys := ?ph\<rparr>" "mv_addr v" "mv_size v" e, unfolded sym_at_phys mem_wf_phys] assms c
      by (simp add: writeMemoryCell_def Let_def cong: if_cong)
  next
    case False
    then show ?thesis using writeMemoryCell_conc [OF assms(1,2)] by (simp cong: if_cong)
  qed
qed

definition empty_store :: store where "empty_store = \<lparr>heap = \<lambda>_. new_cell 0 0 None, fresh = 0\<rparr>"

definition zero_memory :: "store \<times> SYMemState" where "zero_memory = new_SYMemState (\<lambda>_. 0) empty_store"

lemma zero_memory_wf: "mem_wf (fst zero_memory) (snd zero_memory)"
  unfolding zero_memory_def by (rule mem_wf_new)

lemma zero_memory_concrete: "sym_at (fst zero_memory) (snd zero_memory) a = None"
  using slm_wf_new [of empty_store]
  by (simp add: zero_memory_def new_SYMemState_def sym_at_def split_beta Let_def)

lemma mem_range_1000: "mem_range 0x1000 4" "mem_range 0x1000 8" "mem_range 0x1004 4"
  by (simp_all add: mem_range_def int_sizes_def op_range_def)

theorem writeMemoryCell_ok_witness:
  "\<exists>st' M'. writeMemoryCell (fst zero_memory) (snd zero_memory)
     \<lparr>mv_addr = 0x1000, mv_size = 4, mv_bsym = True, mv_isSymList = False, mv_i64 = 7,
      mv_expr = Some (UDefExpr (Some 1)), mv_symcellPtr = None\<rparr> = Inr (st', M', True) \<and> mem_wf st' M'"
  using writeMemoryCell_ok [OF zero_memory_wf, of "\<lparr>mv_addr = 0x1000, mv_size = 4, mv_bsym = True, mv_isSymList = False,
      mv_i64 = 7, mv_expr = Some (UDefExpr (Some 1)), mv_symcellPtr = None\<rparr>" "UDefExpr (Some 1)"] mem_range_1000
  by auto

text \<open>C31. Reading a memory cell of 1, 2, 4 or 8 bytes reports it symbolic exactly when one of its
  bytes is. The concrete value read is the sign extension of the stored bytes in either case; the
  expression read has, byte by byte, the symbolic byte of memory where there is one and the byte of
  that concrete value elsewhere. Reading leaves the symbolic state of memory unchanged.\<close>

theorem readMemoryCell_ok:
  assumes "mem_wf st M" "mem_range (mv_addr v) (mv_size v)" "\<not> mv_isSymList v"
  defines "c \<equiv> signed_take_bit (8 * unat (mv_size v) - 1) (get_bytes (unat (mv_size v)) (mv_addr v) (phys M))"
  shows "if \<exists>a \<in> byte_range (mv_addr v) (mv_size v). sym_at st M a \<noteq> None
    then \<exists>st' e. readMemoryCell st M v = Inr (st', v\<lparr>mv_bsym := True, mv_expr := Some e, mv_i64 := c\<rparr>, True) \<and>
      mem_wf st' M \<and> sym_at st' M = sym_at st M \<and>
      reads_as e (int (unat (mv_size v)))
        (or_concrete (\<lambda>k. bytes_of (st, m_AllSymbolList M) (sint (mv_addr v) + k)) c)
    else readMemoryCell st M v = Inr (st, v\<lparr>mv_bsym := False, mv_isSymList := False, mv_i64 := c\<rparr>, True)"
proof (cases "\<exists>a \<in> byte_range (mv_addr v) (mv_size v). sym_at st M a \<noteq> None")
  case True
  then obtain a where "a \<in> byte_range (mv_addr v) (mv_size v)" "sym_at st M a \<noteq> None" by blast
  from readMemoryCell_expr [OF assms(1-3) this] show ?thesis unfolding c_def if_P [OF True] .
next
  case False
  then have "\<forall>a \<in> byte_range (mv_addr v) (mv_size v). sym_at st M a = None" by blast
  from readMemoryCell_conc [OF assms(1,2) this] show ?thesis unfolding c_def if_not_P [OF False] .
qed

theorem readMemoryCell_ok_witness:
  "readMemoryCell (fst zero_memory) (snd zero_memory)
     \<lparr>mv_addr = 0x1000, mv_size = 4, mv_bsym = True, mv_isSymList = False, mv_i64 = 7, mv_expr = None, mv_symcellPtr = None\<rparr> =
   Inr (fst zero_memory,
     \<lparr>mv_addr = 0x1000, mv_size = 4, mv_bsym = False, mv_isSymList = False,
      mv_i64 = signed_take_bit 31 (get_bytes 4 0x1000 (phys (snd zero_memory))), mv_expr = None, mv_symcellPtr = None\<rparr>, True)"
  using readMemoryCell_ok [OF zero_memory_wf, of "\<lparr>mv_addr = 0x1000, mv_size = 4, mv_bsym = True, mv_isSymList = False,
      mv_i64 = 7, mv_expr = None, mv_symcellPtr = None\<rparr>"] mem_range_1000 zero_memory_concrete
  by simp

text \<open>A concrete value written to a memory cell is read back concrete, truncated to the size of
  the cell and sign-extended, whatever was symbolic there before.\<close>

theorem concrete_roundtrip:
  assumes "mem_wf st M" "mem_range a n"
  shows "\<exists>st' M'. writeMemoryCell st M \<lparr>mv_addr = a, mv_size = n, mv_bsym = False, mv_isSymList = False,
      mv_i64 = x, mv_expr = None, mv_symcellPtr = None\<rparr> = Inr (st', M', True) \<and>
    readMemoryCell st' M' \<lparr>mv_addr = a, mv_size = n, mv_bsym = b, mv_isSymList = l, mv_i64 = y,
      mv_expr = eo, mv_symcellPtr = co\<rparr> =
      Inr (st', \<lparr>mv_addr = a, mv_size = n, mv_bsym = False, mv_isSymList = False,
        mv_i64 = signed_take_bit (8 * unat n - 1) x, mv_expr = eo, mv_symcellPtr = co\<rparr>, True)"
proof -
  let ?v = "\<lparr>mv_addr = a, mv_size = n, mv_bsym = False, mv_isSymList = False, mv_i64 = x, mv_expr = None, mv_symcellPtr = None\<rparr>"
  note D = mem_rangeD [OF assms(2)]
  obtain st' M' where w: "writeMemoryCell st M ?v = Inr (st', M', True)" "mem_wf st' M'"
    "phys M' = put_bytes (unat n) a x (phys M)" "\<forall>c \<in> byte_range a n. sym_at st' M' c = None"
    using writeMemoryCell_conc [OF assms(1), of ?v] assms(2) by auto
  show ?thesis
    using readMemoryCell_conc [OF w(2), of "\<lparr>mv_addr = a, mv_size = n, mv_bsym = b, mv_isSymList = l, mv_i64 = y,
      mv_expr = eo, mv_symcellPtr = co\<rparr>"] assms(2) w sign_read_write [OF D(3,4), of a x "phys M"]
    by (intro exI [of _ st'] exI [of _ M']) simp
qed

theorem concrete_roundtrip_witness:
  "\<exists>st' M'. writeMemoryCell (fst zero_memory) (snd zero_memory) \<lparr>mv_addr = 0x1000, mv_size = 4, mv_bsym = False,
      mv_isSymList = False, mv_i64 = 0x1FFFFFFFE, mv_expr = None, mv_symcellPtr = None\<rparr> = Inr (st', M', True) \<and>
    readMemoryCell st' M' \<lparr>mv_addr = 0x1000, mv_size = 4, mv_bsym = True, mv_isSymList = False, mv_i64 = 0,
      mv_expr = None, mv_symcellPtr = None\<rparr> =
      Inr (st', \<lparr>mv_addr = 0x1000, mv_size = 4, mv_bsym = False, mv_isSymList = False,
        mv_i64 = - 2, mv_expr = None, mv_symcellPtr = None\<rparr>, True)"
  using concrete_roundtrip [OF zero_memory_wf mem_range_1000(1), where x = "0x1FFFFFFFE" and b = True and l = False and y = 0 and eo = None and co = None] by simp

text \<open>A write of a symbolic value to a range that crosses two chunks of the bitmap returns false,
  but only after the concrete value has been stored: the bytes in memory change while the bitmap
  and the list of symbolic cells keep describing what was there before.\<close>

theorem cross_chunk_write:
  assumes "mv_size v \<in> set int_sizes" "32 < unat (mv_addr v) mod 32 + unat (mv_size v)" "mv_bsym v"
  shows "writeMemoryCell st M v =
    Inr (st, M\<lparr>phys := put_bytes (unat (mv_size v)) (mv_addr v) (mv_i64 v) (phys M)\<rparr>, False)"
proof -
  have "unat (mv_size v) \<le> 8" using assms(1) by (auto simp: int_sizes_cases)
  then have "unat (mv_addr v) mod 32 + unat (mv_size v) < 2 ^ 64"
    using mod_less_divisor [of 32 "unat (mv_addr v)"] by simp
  then have "unat (head_cave (mv_addr v) + mv_size v) = unat (mv_addr v) mod 32 + unat (mv_size v)"
    using unat_add_lem [of "head_cave (mv_addr v)" "mv_size v"]
    by (simp add: unat_head_cave)
  then have "BLOCK_SIZE < head_cave (mv_addr v) + mv_size v"
    using assms(2) by (simp add: word_less_nat_alt BLOCK_SIZE_def)
  then show ?thesis using assms(1,3)
    by (simp add: writeMemoryCell_def mem_writeConcreteValue_def mem_writeSymbolicList_def mem_writeSymbolicExpr_def Let_def)
qed

theorem cross_chunk_write_witness:
  "writeMemoryCell (fst zero_memory) (snd zero_memory) \<lparr>mv_addr = 0x101E, mv_size = 4, mv_bsym = True, mv_isSymList = False,
      mv_i64 = 5, mv_expr = Some (UDefExpr None), mv_symcellPtr = None\<rparr> =
    Inr (fst zero_memory, (snd zero_memory)\<lparr>phys := put_bytes 4 0x101E 5 (phys (snd zero_memory))\<rparr>, False)"
  using cross_chunk_write [of "\<lparr>mv_addr = 0x101E, mv_size = 4, mv_bsym = True, mv_isSymList = False,
      mv_i64 = 5, mv_expr = Some (UDefExpr None), mv_symcellPtr = None\<rparr>" "fst zero_memory" "snd zero_memory"]
  by (simp add: int_sizes_def)

text \<open>Writing a value given as a list of cells marks exactly the bytes the cells cover, but it
  replaces in the list only the bytes between the first and the last of them. Bitmap and list still
  agree afterwards if and only if no byte of the range outside that span was symbolic before.\<close>

theorem list_write_agrees_iff:
  assumes "mem_wf st M" "mem_range addr sz" "list_value st M R sz"
  shows "\<exists>st' M'. mem_writeSymbolicList st M addr sz (Some (hd R)) = Inr (st', M', True) \<and>
    (mem_wf st' M' \<longleftrightarrow>
      (\<forall>a \<in> byte_range addr sz. \<not> in_hull st R (sint a - sint addr) \<longrightarrow> sym_at st M a = None))"
proof -
  obtain st' M' where w: "mem_writeSymbolicList st M addr sz (Some (hd R)) = Inr (st', M', True)"
    "links_ok (m_Bitmap M')" "slm_wf (st', m_AllSymbolList M')"
    "sym_bytes (m_Bitmap M') = sym_bytes (m_Bitmap M) - byte_range addr sz \<union>
      {a \<in> byte_range addr sz. lookup (map (entry st) R) (sint a - sint addr) \<noteq> None}"
    "sym_at st' M' = (\<lambda>a. if in_hull st R (sint a - sint addr)
      then lookup (map (entry st) R) (sint a - sint addr) else sym_at st M a)"
    using mem_writeSymbolicList_ok [OF assms] by blast
  have V: "R \<noteq> []" "ordered 0 (map (entry st) R) (int (unat sz))" using assms(3) by (auto simp: list_value_def)
  have hull: "a \<in> byte_range addr sz" if "in_hull st R (sint a - sint addr)" for a
    using that ordered_bounds' [OF V(2), of "hd R"] ordered_bounds' [OF V(2), of "last R"] V(1)
    unfolding byte_range_sint [OF assms(2)] in_hull_def by auto
  have agree: "a \<in> sym_bytes (m_Bitmap M) \<longleftrightarrow> sym_at st M a \<noteq> None" for a using assms(1) by (simp add: mem_wf_def)
  have "mem_wf st' M' \<longleftrightarrow> (\<forall>a. a \<in> sym_bytes (m_Bitmap M') \<longleftrightarrow> sym_at st' M' a \<noteq> None)"
    using w(2,3) by (simp add: mem_wf_def)
  also have "\<dots> \<longleftrightarrow> (\<forall>a \<in> byte_range addr sz. \<not> in_hull st R (sint a - sint addr) \<longrightarrow> sym_at st M a = None)"
    unfolding w(4,5) using lookup_hull [OF V(2,1)] hull agree by auto
  finally show ?thesis using w(1) by blast
qed

text \<open>A new cell changes nothing that memory knows, and is a value of its own.\<close>

lemma fresh_list_value:
  fixes e :: expr
  assumes wf: "mem_wf st M" and o: "0 \<le> d" "0 < k" "d + k \<le> int (unat sz)"
  defines "st' \<equiv> snd (alloc (new_cell d k (Some e)) st)"
  shows "mem_wf st' M" "sym_at st' M = sym_at st M" "list_value st' M [fresh st] sz"
    "in_hull st' [fresh st] x \<longleftrightarrow> d \<le> x \<and> x < d + k"
proof -
  define m where "m = m_AllSymbolList M"
  obtain ps where ok: "slm_ok st m ps" using wf by (auto simp: mem_wf_def slm_wf_iff m_def)
  have ok': "slm_ok st' m ps" "contents st' ps = contents st ps"
    unfolding st'_def by (rule slm_ok_untouched [OF ok alloc_untouched])+
  note b = slm_wfI [OF ok] slm_wfI [OF ok'(1)]
  show at: "sym_at st' M = sym_at st M" using b ok'(2) by (simp add: sym_at_def m_def [symmetric] fun_eq_iff)
  show "mem_wf st' M" using wf b unfolding mem_wf_def at m_def [symmetric] by blast
  have c: "heap st' (fresh st) = new_cell d k (Some e)" "fresh st' = Suc (fresh st)"
    by (simp_all add: st'_def alloc_eq)
  have "fresh st \<notin> set (full_path m ps)" using slm_ok_path [OF ok] by (auto simp: path_of_def)
  then show "list_value st' M [fresh st] sz"
    using c o cells_of_ok [OF ok'(1)]
    by (simp add: list_value_def m_def [symmetric] path_of_def new_cell_def entry_def)
  show "in_hull st' [fresh st] x \<longleftrightarrow> d \<le> x \<and> x < d + k" using c by (simp add: in_hull_def new_cell_def)
qed

text \<open>The situation is reached: after an expression of four bytes, a value whose only symbolic
  bytes are the two in the middle leaves memory with a bitmap and a list that disagree.\<close>

theorem list_write_agrees_iff_witness:
  "\<exists>st M R st' M'. mem_wf st M \<and> list_value st M R 4 \<and>
     mem_writeSymbolicList st M 0x1000 4 (Some (hd R)) = Inr (st', M', True) \<and> \<not> mem_wf st' M'"
proof -
  obtain st1 M1 where w: "mem_wf st1 M1" "sym_at st1 M1 0x1000 \<noteq> None"
  proof -
    have "0x1000 \<in> byte_range 0x1000 4" by (simp add: byte_range_def)
    then show ?thesis
      using that mem_writeSymbolicExpr_ok [OF zero_memory_wf mem_range_1000(1), of "UDefExpr None"] by fastforce
  qed
  define st where "st = snd (alloc (new_cell 1 2 (Some (UDefExpr None))) st1)"
  have "0 \<le> (1 :: int)" "0 < (2 :: int)" "1 + 2 \<le> int (unat (4 :: u64))" by simp_all
  note f = fresh_list_value [OF w(1) this, of "UDefExpr None", folded st_def]
  obtain st' M' where r: "mem_writeSymbolicList st M1 0x1000 4 (Some (hd [fresh st1])) = Inr (st', M', True)"
    "mem_wf st' M' \<longleftrightarrow> (\<forall>a \<in> byte_range 0x1000 4. \<not> in_hull st [fresh st1] (sint a - sint (0x1000 :: u64)) \<longrightarrow> sym_at st M1 a = None)"
    using list_write_agrees_iff [OF f(1) mem_range_1000(1) f(3)] by blast
  have "0x1000 \<in> byte_range 0x1000 4" by (simp add: byte_range_def)
  then have "\<not> mem_wf st' M'" using r(2) w(2) f(2) f(4) [of 0] by force
  then show ?thesis using f(1,3) r(1) by blast
qed

end
