(* ===== verification/Sym_List_Family.thy ===== *)
theory Sym_List_Family
  imports Sym_List_Map
begin

text \<open>
  Memory and every register have a list of symbolic cells of their own; all lists live on the same
  heap. A family of lists is well formed when each list is and no two share a cell; an operation on
  one member then leaves the bytes of all others alone.
\<close>

definition cells_in :: "store \<Rightarrow> slm \<Rightarrow> nat set" where
  "cells_in st m = set (full_path m (cells_of (st, m)))"

definition family_ok :: "store \<Rightarrow> slm list \<Rightarrow> bool" where
  "family_ok st ms \<longleftrightarrow> (\<forall>i < length ms. slm_wf (st, ms ! i)) \<and>
     (\<forall>i < length ms. \<forall>j < length ms. i \<noteq> j \<longrightarrow> cells_in st (ms ! i) \<inter> cells_in st (ms ! j) = {})"

lemma family_okD:
  assumes "family_ok st ms" "i < length ms"
  shows "slm_wf (st, ms ! i)" "slm_ok st (ms ! i) (cells_of (st, ms ! i))"
  using assms by (auto simp: family_ok_def slm_wf_def)

text \<open>A change of the heap that keeps the cells of a list keeps the list.\<close>

lemma same_list:
  assumes wf: "slm_wf (st, m)" and fr: "fresh st \<le> fresh st'"
    and h: "\<And>p. p \<in> cells_in st m \<Longrightarrow> heap st' p = heap st p"
  shows "slm_wf (st', m)" "bytes_of (st', m) = bytes_of (st, m)" "cells_in st' m = cells_in st m"
proof -
  have ok: "slm_ok st m (cells_of (st, m))" using wf by (simp add: slm_wf_def)
  have same: "slm_ok st' m (cells_of (st, m))" "contents st' (cells_of (st, m)) = contents st (cells_of (st, m))"
    using slm_ok_same [OF ok fr h] by (simp_all add: cells_in_def)
  show "slm_wf (st', m)" "bytes_of (st', m) = bytes_of (st, m)"
    using slm_wfI [OF same(1)] slm_wfI [OF ok] same(2) by auto
  show "cells_in st' m = cells_in st m" using cells_of_ok [OF same(1)] by (simp add: cells_in_def)
qed

lemma cells_fresh: "slm_wf (st, m) \<Longrightarrow> p \<in> cells_in st m \<Longrightarrow> p < fresh st"
  using slm_ok_path [of st m "cells_of (st, m)"] by (auto simp: slm_wf_def path_of_def cells_in_def)

lemma family_step:
  assumes fam: "family_ok st ms" and i: "i < length ms"
    and step: "list_step X st (ms ! i) (cells_of (st, ms ! i)) st' m' ps'"
    and X: "\<And>j. j < length ms \<Longrightarrow> j \<noteq> i \<Longrightarrow> X \<inter> cells_in st (ms ! j) = {}"
  shows "family_ok st' (ms[i := m'])"
    "\<And>j. j < length ms \<Longrightarrow> j \<noteq> i \<Longrightarrow> bytes_of (st', ms ! j) = bytes_of (st, ms ! j)"
proof -
  have ok': "slm_ok st' m' ps'" and fr: "fresh st \<le> fresh st'"
    and un: "\<And>q. q \<notin> cells_in st (ms ! i) \<union> X \<Longrightarrow> q < fresh st \<Longrightarrow> heap st' q = heap st q"
    and new: "\<And>q. q \<in> set (full_path m' ps') \<Longrightarrow> q \<in> cells_in st (ms ! i) \<union> X \<or> fresh st \<le> q"
    using step unfolding list_step_def untouched_def cells_in_def by blast+
  have ci: "cells_in st' m' = set (full_path m' ps')" using cells_of_ok [OF ok'] by (simp add: cells_in_def)
  have wf: "slm_wf (st, ms ! j)" if "j < length ms" for j using fam that by (simp add: family_ok_def)
  have dj: "cells_in st (ms ! j) \<inter> cells_in st (ms ! k) = {}" if "j < length ms" "k < length ms" "j \<noteq> k" for j k
    using fam that by (simp add: family_ok_def)
  have h: "heap st' p = heap st p" if "j < length ms" "j \<noteq> i" "p \<in> cells_in st (ms ! j)" for j p
    using un [of p] dj [OF that(1) i that(2)] X [OF that(1,2)] cells_fresh [OF wf [OF that(1)] that(3)] that(3) by blast
  have same: "slm_wf (st', ms ! j)" "bytes_of (st', ms ! j) = bytes_of (st, ms ! j)"
    "cells_in st' (ms ! j) = cells_in st (ms ! j)" if "j < length ms" "j \<noteq> i" for j
    using same_list [OF wf [OF that(1)] fr h [OF that]] by blast+
  show "bytes_of (st', ms ! j) = bytes_of (st, ms ! j)" if "j < length ms" "j \<noteq> i" for j
    using same(2) [OF that] .
  have apart: "cells_in st' m' \<inter> cells_in st' (ms ! j) = {}" if "j < length ms" "j \<noteq> i" for j
  proof -
    have "p \<notin> cells_in st (ms ! j)" if p: "p \<in> set (full_path m' ps')" for p
      using new [OF p] dj [OF \<open>j < length ms\<close> i \<open>j \<noteq> i\<close>] X [OF \<open>j < length ms\<close> \<open>j \<noteq> i\<close>]
        cells_fresh [OF wf [OF \<open>j < length ms\<close>], of p] by fastforce
    then show ?thesis unfolding ci same(3) [OF that] by blast
  qed
  have wf': "slm_wf (st', m')" using slm_wfI [OF ok'] by simp
  show "family_ok st' (ms[i := m'])"
    unfolding family_ok_def length_list_update
  proof (intro conjI allI impI)
    fix j assume "j < length ms"
    then show "slm_wf (st', ms[i := m'] ! j)" using wf' same(1) [of j] by (cases "j = i") simp_all
  next
    fix j k assume jk: "j < length ms" "k < length ms" "j \<noteq> k"
    then consider "j = i" "k \<noteq> i" | "j \<noteq> i" "k = i" | "j \<noteq> i" "k \<noteq> i" by blast
    then show "cells_in st' (ms[i := m'] ! j) \<inter> cells_in st' (ms[i := m'] ! k) = {}"
    proof cases
      case 1
      then show ?thesis using apart [of k] jk by simp
    next
      case 2
      then show ?thesis using apart [of j] jk by auto
    next
      case 3
      then show ?thesis using same(3) [of j] same(3) [of k] dj [OF jk] jk by simp
    qed
  qed
qed

text \<open>The same with the bytes of all members in one equation.\<close>

lemma family_update:
  assumes "family_ok st ms" "i < length ms"
    and "list_step {} st (ms ! i) (cells_of (st, ms ! i)) st' m' ps'" and "bytes_of (st', m') = f"
  shows "family_ok st' (ms[i := m']) \<and>
    (\<forall>j < length ms. bytes_of (st', ms[i := m'] ! j) = (if j = i then f else bytes_of (st, ms ! j)))"
proof (intro conjI allI impI)
  note f = family_step [OF assms(1-3)]
  show "family_ok st' (ms[i := m'])" using f(1) by simp
  fix j assume j: "j < length ms"
  show "bytes_of (st', ms[i := m'] ! j) = (if j = i then f else bytes_of (st, ms ! j))"
    by (cases "j = i") (use assms(2,4) f(2) [OF _ j] in simp_all)
qed

text \<open>The operations a client uses, on one member of a family.\<close>

lemma family_put:
  assumes "family_ok st ms" "i < length ms" "range_ok a (a + n)"
  shows "\<exists>st' m'. put_expr a n e (st, ms ! i) = Inr (st', m') \<and> family_ok st' (ms[i := m']) \<and>
    (\<forall>j < length ms. bytes_of (st', ms[i := m'] ! j) =
      (if j = i then (\<lambda>x. if a \<le> x \<and> x < a + n then Some (byte_ref e (x - a)) else bytes_of (st, ms ! i) x)
       else bytes_of (st, ms ! j)))"
  using put_step [OF family_okD(2) [OF assms(1,2)] assms(3), of e] family_update [OF assms(1,2)] by blast

lemma family_rem:
  assumes "family_ok st ms" "i < length ms" "range_ok a (a + n)"
  shows "\<exists>st' m'. rem a n (st, ms ! i) = Inr (st', m') \<and> family_ok st' (ms[i := m']) \<and>
    (\<forall>j < length ms. bytes_of (st', ms[i := m'] ! j) =
      (if j = i then (\<lambda>x. if a \<le> x \<and> x < a + n then None else bytes_of (st, ms ! i) x)
       else bytes_of (st, ms ! j)))"
  using rem_step [OF family_okD(2) [OF assms(1,2)] assms(3)] family_update [OF assms(1,2)] by blast

lemma family_get:
  assumes fam: "family_ok st ms" and i: "i < length ms" and r: "range_ok a (a + n)" "n \<le> 8"
    and ex: "\<exists>x. a \<le> x \<and> x < a + n \<and> bytes_of (st, ms ! i) x \<noteq> None"
  shows "\<exists>st' e. GetExpr st (ms ! i) a n v = Inr (st', e) \<and> family_ok st' ms \<and>
    (\<forall>j < length ms. bytes_of (st', ms ! j) = bytes_of (st, ms ! j)) \<and>
    reads_as e n (or_concrete (\<lambda>k. bytes_of (st, ms ! i) (a + k)) v)"
proof -
  note ok = family_okD(2) [OF fam i]
  have b: "bytes_of (st, ms ! i) = contents st (cells_of (st, ms ! i))" using slm_wfI [OF ok] by simp
  have ex': "\<exists>x. a \<le> x \<and> x < a + n \<and> contents st (cells_of (st, ms ! i)) x \<noteq> None" using ex unfolding b .
  have n: "a + n - a \<le> 8" using r(2) by simp
  obtain st' e where g: "GetExpr st (ms ! i) a n v = Inr (st', e)" "untouched st st' {}"
    "reads_as e n (or_concrete (\<lambda>k. bytes_of (st, ms ! i) (a + k)) v)"
    using GetExpr_ok [OF ok r(1) n ex', of v] unfolding b by auto
  have same: "slm_wf (st', ms ! j) \<and> bytes_of (st', ms ! j) = bytes_of (st, ms ! j) \<and> cells_in st' (ms ! j) = cells_in st (ms ! j)"
    if j: "j < length ms" for j
  proof -
    note wf = family_okD(1) [OF fam j]
    have "heap st' p = heap st p" if "p \<in> cells_in st (ms ! j)" for p
      using g(2) cells_fresh [OF wf that] by (simp add: untouched_def)
    then show ?thesis using same_list [OF wf, of st'] g(2) by (simp add: untouched_def)
  qed
  then have "family_ok st' ms" using fam unfolding family_ok_def by simp
  then show ?thesis using g(1,3) same by blast
qed

text \<open>A new list is apart from all others.\<close>

lemma family_new:
  assumes "family_ok st ms"
  shows "family_ok (fst (Symbol_List_Map st)) (ms @ [snd (Symbol_List_Map st)])"
    "\<And>j. j < length ms \<Longrightarrow> bytes_of (fst (Symbol_List_Map st), ms ! j) = bytes_of (st, ms ! j)"
proof -
  define st' where "st' = fst (Symbol_List_Map st)"
  define m where "m = snd (Symbol_List_Map st)"
  have fr: "fresh st' = Suc (Suc (fresh st))" by (simp add: st'_def Symbol_List_Map_def alloc_eq)
  have h: "heap st' p = heap st p" if "p < fresh st" for p
    using that by (simp add: st'_def Symbol_List_Map_def alloc_eq)
  have cm: "cells_in st' m = {fresh st, Suc (fresh st)}"
    using cells_of_ok [OF slm_ok_new [of st]] by (simp add: cells_in_def st'_def m_def Symbol_List_Map_def alloc_eq)
  have wfm: "slm_wf (st', m)" using slm_wf_new [of st] by (simp add: st'_def m_def)
  have wf: "slm_wf (st, ms ! j)" if "j < length ms" for j using family_okD(1) [OF assms that] .
  have same: "slm_wf (st', ms ! j) \<and> bytes_of (st', ms ! j) = bytes_of (st, ms ! j) \<and> cells_in st' (ms ! j) = cells_in st (ms ! j)"
    if "j < length ms" for j
    using same_list [OF wf [OF that], of st'] h cells_fresh [OF wf [OF that]] fr by simp
  have apart: "cells_in st' (ms ! j) \<inter> cells_in st' m = {}" if "j < length ms" for j
    using same [OF that] cells_fresh [OF wf [OF that]] cm by fastforce
  show "bytes_of (fst (Symbol_List_Map st), ms ! j) = bytes_of (st, ms ! j)" if "j < length ms" for j
    using same [OF that] by (simp add: st'_def)
  have "family_ok st' (ms @ [m])"
    unfolding family_ok_def
  proof (intro conjI allI impI)
    fix j assume "j < length (ms @ [m])"
    then show "slm_wf (st', (ms @ [m]) ! j)" using same [of j] wfm by (auto simp: nth_append)
  next
    fix j k assume jk: "j < length (ms @ [m])" "k < length (ms @ [m])" "j \<noteq> k"
    then consider "j < length ms" "k < length ms" | "j < length ms" "k = length ms" | "j = length ms" "k < length ms"
      by fastforce
    then show "cells_in st' ((ms @ [m]) ! j) \<inter> cells_in st' ((ms @ [m]) ! k) = {}"
    proof cases
      case 1
      then have "cells_in st (ms ! j) \<inter> cells_in st (ms ! k) = {}" using assms jk(3) by (simp add: family_ok_def)
      then show ?thesis using 1 same [of j] same [of k] by (simp add: nth_append)
    next
      case 2
      then show ?thesis using apart [of j] by (simp add: nth_append)
    next
      case 3
      then show ?thesis using apart [of k] by (auto simp: nth_append)
    qed
  qed
  then show "family_ok (fst (Symbol_List_Map st)) (ms @ [snd (Symbol_List_Map st)])" by (simp add: st'_def m_def)
qed

end
