(* ===== verification/Cpu_State.thy ===== *)
theory Cpu_State
  imports Sym_List_Family
begin

text \<open>
  The registers of the analysed CPU (class SYCPUState of CPUState.h and CPUState.cpp): an array of
  64-bit words, and for each word a bitmap of its symbolic bytes and a list of symbolic cells whose
  addresses are the byte positions 0 to 7. A register of the machine is a view of some low bytes of
  one word. The numbers of the registers and a few constants come from Dyninst, which is not part of
  the repository: they are the record dapi, an argument of the definitions that use them.
\<close>

section \<open>What comes from Dyninst\<close>

text \<open>The registers that are named, by their width; the names of the code are abbreviations.\<close>

datatype reg64 =
    q_r8 | q_r9 | q_r10 | q_r11 | q_r12 | q_r13 | q_r14 | q_r15 | q_rax | q_rbx | q_rcx | q_rdx
  | q_rsi | q_rdi | q_rbp | q_rsp | q_rip | q_flags | q_fs | q_gs

datatype reg32 =
    d_r8d | d_r9d | d_r10d | d_r11d | d_r12d | d_r13d | d_r14d | d_r15d | d_eax | d_ebx | d_ecx
  | d_edx | d_esi | d_edi | d_ebp | d_esp

datatype reg16 =
    w_r8w | w_r9w | w_r10w | w_r11w | w_r12w | w_r13w | w_r14w | w_r15w | w_ax | w_bx | w_cx | w_dx
  | w_si | w_di | w_bp | w_sp

datatype reg8 =
    b_r8b | b_r9b | b_r10b | b_r11b | b_r12b | b_r13b | b_r14b | b_r15b | b_al | b_bl | b_cl | b_dl
  | b_sil | b_dil | b_bpl | b_spl

datatype reg_flag =
    f_cf | f_pf | f_af | f_zf | f_sf | f_tf | f_df | f_of | f_rf

datatype x86_reg = Reg64 reg64 | Reg32 reg32 | Reg16 reg16 | Reg8 reg8 | RegFlag reg_flag

abbreviation x86_r8 :: x86_reg where "x86_r8 \<equiv> Reg64 q_r8"
abbreviation x86_r9 :: x86_reg where "x86_r9 \<equiv> Reg64 q_r9"
abbreviation x86_r10 :: x86_reg where "x86_r10 \<equiv> Reg64 q_r10"
abbreviation x86_r11 :: x86_reg where "x86_r11 \<equiv> Reg64 q_r11"
abbreviation x86_r12 :: x86_reg where "x86_r12 \<equiv> Reg64 q_r12"
abbreviation x86_r13 :: x86_reg where "x86_r13 \<equiv> Reg64 q_r13"
abbreviation x86_r14 :: x86_reg where "x86_r14 \<equiv> Reg64 q_r14"
abbreviation x86_r15 :: x86_reg where "x86_r15 \<equiv> Reg64 q_r15"
abbreviation x86_rax :: x86_reg where "x86_rax \<equiv> Reg64 q_rax"
abbreviation x86_rbx :: x86_reg where "x86_rbx \<equiv> Reg64 q_rbx"
abbreviation x86_rcx :: x86_reg where "x86_rcx \<equiv> Reg64 q_rcx"
abbreviation x86_rdx :: x86_reg where "x86_rdx \<equiv> Reg64 q_rdx"
abbreviation x86_rsi :: x86_reg where "x86_rsi \<equiv> Reg64 q_rsi"
abbreviation x86_rdi :: x86_reg where "x86_rdi \<equiv> Reg64 q_rdi"
abbreviation x86_rbp :: x86_reg where "x86_rbp \<equiv> Reg64 q_rbp"
abbreviation x86_rsp :: x86_reg where "x86_rsp \<equiv> Reg64 q_rsp"
abbreviation x86_rip :: x86_reg where "x86_rip \<equiv> Reg64 q_rip"
abbreviation x86_flags :: x86_reg where "x86_flags \<equiv> Reg64 q_flags"
abbreviation x86_fs :: x86_reg where "x86_fs \<equiv> Reg64 q_fs"
abbreviation x86_gs :: x86_reg where "x86_gs \<equiv> Reg64 q_gs"

abbreviation x86_r8d :: x86_reg where "x86_r8d \<equiv> Reg32 d_r8d"
abbreviation x86_r9d :: x86_reg where "x86_r9d \<equiv> Reg32 d_r9d"
abbreviation x86_r10d :: x86_reg where "x86_r10d \<equiv> Reg32 d_r10d"
abbreviation x86_r11d :: x86_reg where "x86_r11d \<equiv> Reg32 d_r11d"
abbreviation x86_r12d :: x86_reg where "x86_r12d \<equiv> Reg32 d_r12d"
abbreviation x86_r13d :: x86_reg where "x86_r13d \<equiv> Reg32 d_r13d"
abbreviation x86_r14d :: x86_reg where "x86_r14d \<equiv> Reg32 d_r14d"
abbreviation x86_r15d :: x86_reg where "x86_r15d \<equiv> Reg32 d_r15d"
abbreviation x86_eax :: x86_reg where "x86_eax \<equiv> Reg32 d_eax"
abbreviation x86_ebx :: x86_reg where "x86_ebx \<equiv> Reg32 d_ebx"
abbreviation x86_ecx :: x86_reg where "x86_ecx \<equiv> Reg32 d_ecx"
abbreviation x86_edx :: x86_reg where "x86_edx \<equiv> Reg32 d_edx"
abbreviation x86_esi :: x86_reg where "x86_esi \<equiv> Reg32 d_esi"
abbreviation x86_edi :: x86_reg where "x86_edi \<equiv> Reg32 d_edi"
abbreviation x86_ebp :: x86_reg where "x86_ebp \<equiv> Reg32 d_ebp"
abbreviation x86_esp :: x86_reg where "x86_esp \<equiv> Reg32 d_esp"

abbreviation x86_r8w :: x86_reg where "x86_r8w \<equiv> Reg16 w_r8w"
abbreviation x86_r9w :: x86_reg where "x86_r9w \<equiv> Reg16 w_r9w"
abbreviation x86_r10w :: x86_reg where "x86_r10w \<equiv> Reg16 w_r10w"
abbreviation x86_r11w :: x86_reg where "x86_r11w \<equiv> Reg16 w_r11w"
abbreviation x86_r12w :: x86_reg where "x86_r12w \<equiv> Reg16 w_r12w"
abbreviation x86_r13w :: x86_reg where "x86_r13w \<equiv> Reg16 w_r13w"
abbreviation x86_r14w :: x86_reg where "x86_r14w \<equiv> Reg16 w_r14w"
abbreviation x86_r15w :: x86_reg where "x86_r15w \<equiv> Reg16 w_r15w"
abbreviation x86_ax :: x86_reg where "x86_ax \<equiv> Reg16 w_ax"
abbreviation x86_bx :: x86_reg where "x86_bx \<equiv> Reg16 w_bx"
abbreviation x86_cx :: x86_reg where "x86_cx \<equiv> Reg16 w_cx"
abbreviation x86_dx :: x86_reg where "x86_dx \<equiv> Reg16 w_dx"
abbreviation x86_si :: x86_reg where "x86_si \<equiv> Reg16 w_si"
abbreviation x86_di :: x86_reg where "x86_di \<equiv> Reg16 w_di"
abbreviation x86_bp :: x86_reg where "x86_bp \<equiv> Reg16 w_bp"
abbreviation x86_sp :: x86_reg where "x86_sp \<equiv> Reg16 w_sp"

abbreviation x86_r8b :: x86_reg where "x86_r8b \<equiv> Reg8 b_r8b"
abbreviation x86_r9b :: x86_reg where "x86_r9b \<equiv> Reg8 b_r9b"
abbreviation x86_r10b :: x86_reg where "x86_r10b \<equiv> Reg8 b_r10b"
abbreviation x86_r11b :: x86_reg where "x86_r11b \<equiv> Reg8 b_r11b"
abbreviation x86_r12b :: x86_reg where "x86_r12b \<equiv> Reg8 b_r12b"
abbreviation x86_r13b :: x86_reg where "x86_r13b \<equiv> Reg8 b_r13b"
abbreviation x86_r14b :: x86_reg where "x86_r14b \<equiv> Reg8 b_r14b"
abbreviation x86_r15b :: x86_reg where "x86_r15b \<equiv> Reg8 b_r15b"
abbreviation x86_al :: x86_reg where "x86_al \<equiv> Reg8 b_al"
abbreviation x86_bl :: x86_reg where "x86_bl \<equiv> Reg8 b_bl"
abbreviation x86_cl :: x86_reg where "x86_cl \<equiv> Reg8 b_cl"
abbreviation x86_dl :: x86_reg where "x86_dl \<equiv> Reg8 b_dl"
abbreviation x86_sil :: x86_reg where "x86_sil \<equiv> Reg8 b_sil"
abbreviation x86_dil :: x86_reg where "x86_dil \<equiv> Reg8 b_dil"
abbreviation x86_bpl :: x86_reg where "x86_bpl \<equiv> Reg8 b_bpl"
abbreviation x86_spl :: x86_reg where "x86_spl \<equiv> Reg8 b_spl"

abbreviation x86_cf :: x86_reg where "x86_cf \<equiv> RegFlag f_cf"
abbreviation x86_pf :: x86_reg where "x86_pf \<equiv> RegFlag f_pf"
abbreviation x86_af :: x86_reg where "x86_af \<equiv> RegFlag f_af"
abbreviation x86_zf :: x86_reg where "x86_zf \<equiv> RegFlag f_zf"
abbreviation x86_sf :: x86_reg where "x86_sf \<equiv> RegFlag f_sf"
abbreviation x86_tf :: x86_reg where "x86_tf \<equiv> RegFlag f_tf"
abbreviation x86_df :: x86_reg where "x86_df \<equiv> RegFlag f_df"
abbreviation x86_of :: x86_reg where "x86_of \<equiv> RegFlag f_of"
abbreviation x86_rf :: x86_reg where "x86_rf \<equiv> RegFlag f_rf"

record dapi =
  reg_id :: "x86_reg \<Rightarrow> u32"
  D_REG :: u32
  L_REG :: u32
  BIT :: u32
  FLAG :: u32
  Arch_x86_64 :: u32

text \<open>
  The documented encoding: distinct numbers, whose second nibble from the right of the low twelve
  bits names the part of the register (CPUState.h repeats the list): 0 all of it, 1 the first byte,
  3 the first two and f the first four.
\<close>

section \<open>Data\<close>

definition R15_PTRIDX :: nat where "R15_PTRIDX = 0"
definition R14_PTRIDX :: nat where "R14_PTRIDX = 1"
definition R13_PTRIDX :: nat where "R13_PTRIDX = 2"
definition R12_PTRIDX :: nat where "R12_PTRIDX = 3"
definition RBP_PTRIDX :: nat where "RBP_PTRIDX = 4"
definition RBX_PTRIDX :: nat where "RBX_PTRIDX = 5"
definition R11_PTRIDX :: nat where "R11_PTRIDX = 6"
definition R10_PTRIDX :: nat where "R10_PTRIDX = 7"
definition R9_PTRIDX :: nat where "R9_PTRIDX = 8"
definition R8_PTRIDX :: nat where "R8_PTRIDX = 9"
definition RAX_PTRIDX :: nat where "RAX_PTRIDX = 10"
definition RCX_PTRIDX :: nat where "RCX_PTRIDX = 11"
definition RDX_PTRIDX :: nat where "RDX_PTRIDX = 12"
definition RSI_PTRIDX :: nat where "RSI_PTRIDX = 13"
definition RDI_PTRIDX :: nat where "RDI_PTRIDX = 14"
definition ORAX_PTRIDX :: nat where "ORAX_PTRIDX = 15"
definition RIP_PTRIDX :: nat where "RIP_PTRIDX = 16"
definition CS_PTRIDX :: nat where "CS_PTRIDX = 17"
definition EFL_PTRIDX :: nat where "EFL_PTRIDX = 18"
definition RSP_PTRIDX :: nat where "RSP_PTRIDX = 19"
definition SS_PTRIDX :: nat where "SS_PTRIDX = 20"
definition FS_PTRIDX :: nat where "FS_PTRIDX = 21"
definition GS_PTRIDX :: nat where "GS_PTRIDX = 22"

definition PTREGS_REG_TOTAL :: nat where "PTREGS_REG_TOTAL = 23"
definition DYINST_REG_TOTAL :: nat where "DYINST_REG_TOTAL = 32"

definition REG_FULL :: nat where "REG_FULL = 0"
definition REG_L :: nat where "REG_L = 1"
definition REG_H :: nat where "REG_H = 2"
definition REG_W :: nat where "REG_W = 3"
definition REG_D :: nat where "REG_D = 4"

lemmas ptridx_defs = R15_PTRIDX_def R14_PTRIDX_def R13_PTRIDX_def R12_PTRIDX_def RBP_PTRIDX_def RBX_PTRIDX_def R11_PTRIDX_def R10_PTRIDX_def R9_PTRIDX_def R8_PTRIDX_def RAX_PTRIDX_def RCX_PTRIDX_def RDX_PTRIDX_def RSI_PTRIDX_def RDI_PTRIDX_def ORAX_PTRIDX_def RIP_PTRIDX_def CS_PTRIDX_def EFL_PTRIDX_def RSP_PTRIDX_def SS_PTRIDX_def FS_PTRIDX_def GS_PTRIDX_def
lemmas reg_part_defs = REG_FULL_def REG_L_def REG_H_def REG_W_def REG_D_def

text \<open>The word a register is a view of, and its size in bytes.\<close>

definition regs_64 :: "(x86_reg \<times> nat \<times> u32) list" where
  "regs_64 =
    [(x86_r8, R8_PTRIDX, 8), (x86_r9, R9_PTRIDX, 8), (x86_r10, R10_PTRIDX, 8),
     (x86_r11, R11_PTRIDX, 8), (x86_r12, R12_PTRIDX, 8), (x86_r13, R13_PTRIDX, 8),
     (x86_r14, R14_PTRIDX, 8), (x86_r15, R15_PTRIDX, 8), (x86_rax, RAX_PTRIDX, 8),
     (x86_rbx, RBX_PTRIDX, 8), (x86_rcx, RCX_PTRIDX, 8), (x86_rdx, RDX_PTRIDX, 8),
     (x86_rsi, RSI_PTRIDX, 8), (x86_rdi, RDI_PTRIDX, 8), (x86_rbp, RBP_PTRIDX, 8),
     (x86_rsp, RSP_PTRIDX, 8), (x86_rip, RIP_PTRIDX, 8), (x86_flags, EFL_PTRIDX, 8),
     (x86_fs, FS_PTRIDX, 8), (x86_gs, GS_PTRIDX, 8)]"

definition regs_32 :: "(x86_reg \<times> nat \<times> u32) list" where
  "regs_32 =
    [(x86_r8d, R8_PTRIDX, 4), (x86_r9d, R9_PTRIDX, 4), (x86_r10d, R10_PTRIDX, 4),
     (x86_r11d, R11_PTRIDX, 4), (x86_r12d, R12_PTRIDX, 4), (x86_r13d, R13_PTRIDX, 4),
     (x86_r14d, R14_PTRIDX, 4), (x86_r15d, R15_PTRIDX, 4), (x86_eax, RAX_PTRIDX, 4),
     (x86_ebx, RBX_PTRIDX, 4), (x86_ecx, RCX_PTRIDX, 4), (x86_edx, RDX_PTRIDX, 4),
     (x86_esi, RSI_PTRIDX, 4), (x86_edi, RDI_PTRIDX, 4), (x86_ebp, RBP_PTRIDX, 4),
     (x86_esp, RSP_PTRIDX, 4)]"

definition regs_16 :: "(x86_reg \<times> nat \<times> u32) list" where
  "regs_16 =
    [(x86_r8w, R8_PTRIDX, 2), (x86_r9w, R9_PTRIDX, 2), (x86_r10w, R10_PTRIDX, 2),
     (x86_r11w, R11_PTRIDX, 2), (x86_r12w, R12_PTRIDX, 2), (x86_r13w, R13_PTRIDX, 2),
     (x86_r14w, R14_PTRIDX, 2), (x86_r15w, R15_PTRIDX, 2), (x86_ax, RAX_PTRIDX, 2),
     (x86_bx, RBX_PTRIDX, 2), (x86_cx, RCX_PTRIDX, 2), (x86_dx, RDX_PTRIDX, 2),
     (x86_si, RSI_PTRIDX, 2), (x86_di, RDI_PTRIDX, 2), (x86_bp, RBP_PTRIDX, 2),
     (x86_sp, RSP_PTRIDX, 2)]"

definition regs_8 :: "(x86_reg \<times> nat \<times> u32) list" where
  "regs_8 =
    [(x86_r8b, R8_PTRIDX, 1), (x86_r9b, R9_PTRIDX, 1), (x86_r10b, R10_PTRIDX, 1),
     (x86_r11b, R11_PTRIDX, 1), (x86_r12b, R12_PTRIDX, 1), (x86_r13b, R13_PTRIDX, 1),
     (x86_r14b, R14_PTRIDX, 1), (x86_r15b, R15_PTRIDX, 1), (x86_al, RAX_PTRIDX, 1),
     (x86_bl, RBX_PTRIDX, 1), (x86_cl, RCX_PTRIDX, 1), (x86_dl, RDX_PTRIDX, 1),
     (x86_sil, RSI_PTRIDX, 1), (x86_dil, RDI_PTRIDX, 1), (x86_bpl, RBP_PTRIDX, 1),
     (x86_spl, RSP_PTRIDX, 1)]"

definition reg_flags :: "(x86_reg \<times> nat \<times> u32) list" where
  "reg_flags =
    [(x86_cf, PTREGS_REG_TOTAL + 1, 1), (x86_pf, PTREGS_REG_TOTAL + 2, 1),
     (x86_af, PTREGS_REG_TOTAL + 3, 1), (x86_zf, PTREGS_REG_TOTAL + 4, 1),
     (x86_sf, PTREGS_REG_TOTAL + 5, 1), (x86_tf, PTREGS_REG_TOTAL + 6, 1),
     (x86_df, PTREGS_REG_TOTAL + 7, 1), (x86_of, PTREGS_REG_TOTAL + 8, 1),
     (x86_rf, PTREGS_REG_TOTAL + 9, 1)]"

definition DyinstEncoding :: "(x86_reg \<times> nat \<times> u32) list" where
  "DyinstEncoding = regs_64 @ regs_32 @ regs_16 @ regs_8 @ reg_flags"

lemmas table_defs = DyinstEncoding_def regs_64_def regs_32_def regs_16_def regs_8_def reg_flags_def

record RegValue =
  rv_indx :: u32
  rv_size :: u32
  rv_bsym :: bool
  rv_isSymList :: bool
  rv_i64 :: u64
  rv_expr :: "expr option"
  rv_symcellPtr :: "nat option"

text \<open>The pointers of a MachineReg into the three arrays are one index.\<close>

record MachineReg =
  indx :: u32
  reg_size :: u32
  bsym_flag :: bool
  slot :: nat
  fsinstr :: "nat option"

record SYCPUState =
  m_ArrRegs :: "u64 list"
  m_symBitmap :: "u64 list"
  m_symList :: "slm list"
  m_Regs :: "u32 \<rightharpoonup> MachineReg"

definition reg_mask_bits :: "u64 list" where "reg_mask_bits = [0xff, 0x1, 0x2, 0x3, 0xF, 0xC0, 0xF0]"

text \<open>The lists of all words are made one after the other on the heap.\<close>

primrec new_lists :: "nat \<Rightarrow> store \<Rightarrow> store \<times> slm list" where
  "new_lists 0 st = (st, [])"
| "new_lists (Suc n) st = (let (st, ms) = new_lists n st; (st, m) = Symbol_List_Map st in (st, ms @ [m]))"

text \<open>The arrays of words and bitmaps are not initialised: their contents are arguments.\<close>

definition new_SYCPUState :: "dapi \<Rightarrow> u64 list \<Rightarrow> u64 list \<Rightarrow> store \<Rightarrow> store \<times> SYCPUState" where
  "new_SYCPUState D arr bits st =
     (let (st, ms) = new_lists DYINST_REG_TOTAL st
      in (st, \<lparr>m_ArrRegs = arr, m_symBitmap = bits, m_symList = ms,
               m_Regs = map_of (map (\<lambda>(r, offt, sz). (reg_id D r,
                  \<lparr>indx = reg_id D r, reg_size = sz, bsym_flag = False, slot = offt, fsinstr = None\<rparr>)) DyinstEncoding)\<rparr>))"

section \<open>Words of the array\<close>

definition arr_get :: "'a list \<Rightarrow> nat \<Rightarrow> 'a res" where
  "arr_get xs i = (if i < length xs then Inr (xs ! i) else Inl OutOfBounds)"

definition arr_set :: "'a list \<Rightarrow> nat \<Rightarrow> 'a \<Rightarrow> 'a list res" where
  "arr_set xs i v = (if i < length xs then Inr (xs[i := v]) else Inl OutOfBounds)"

text \<open>An assignment through a pointer to the low n bytes of a 64-bit word, or to a union member.\<close>

definition set_low :: "nat \<Rightarrow> u64 \<Rightarrow> u64 \<Rightarrow> u64" where
  "set_low n v w = (w AND NOT (mask (8 * n))) OR take_bit (8 * n) v"

text \<open>The int expression \<open>1 << i\<close>, converted to 64 bits.\<close>

definition int_one_shl :: "int \<Rightarrow> u64 res" where
  "int_one_shl i = (if 0 \<le> i \<and> i < 32 then Inr (signed_take_bit 31 (push_bit (nat i) 1)) else Inl UndefinedShift)"

section \<open>Concrete state\<close>

definition setConcreteCPUState :: "u64 list \<Rightarrow> SYCPUState \<Rightarrow> SYCPUState" where
  "setConcreteCPUState regs C = C\<lparr>m_ArrRegs := take PTREGS_REG_TOTAL regs @ drop PTREGS_REG_TOTAL (m_ArrRegs C)\<rparr>"

definition readConcreteCPUState :: "SYCPUState \<Rightarrow> u64 list" where
  "readConcreteCPUState C = take PTREGS_REG_TOTAL (m_ArrRegs C)"

definition idxToReg :: "SYCPUState \<Rightarrow> u32 \<Rightarrow> MachineReg res" where
  "idxToReg C reg_index = (case m_Regs C reg_index of None \<Rightarrow> Inl AssertFail | Some R \<Rightarrow> Inr R)"

definition upd_reg :: "u32 \<Rightarrow> (MachineReg \<Rightarrow> MachineReg) \<Rightarrow> SYCPUState \<Rightarrow> SYCPUState res" where
  "upd_reg i f C = rbind (idxToReg C i) (\<lambda>R. Inr (C\<lparr>m_Regs := (m_Regs C)(i \<mapsto> f R)\<rparr>))"

fun clear_flags :: "u32 list \<Rightarrow> SYCPUState \<Rightarrow> SYCPUState res" where
  "clear_flags [] C = Inr C"
| "clear_flags (f # fs) C = rbind (upd_reg f (\<lambda>R. R\<lparr>bsym_flag := False\<rparr>) C) (clear_flags fs)"

definition flag_regs :: "x86_reg list" where
  "flag_regs = [x86_cf, x86_pf, x86_af, x86_zf, x86_sf, x86_tf, x86_df, x86_of, x86_rf]"

definition clearAllSymFlag :: "dapi \<Rightarrow> SYCPUState \<Rightarrow> SYCPUState res" where
  "clearAllSymFlag D C = clear_flags (map (reg_id D) flag_regs) C"

definition readConReg :: "SYCPUState \<Rightarrow> u32 \<Rightarrow> u64 res" where
  "readConReg C reg_idx = rbind (idxToReg C reg_idx) (\<lambda>R. arr_get (m_ArrRegs C) (slot R))"

definition poke_word :: "SYCPUState \<Rightarrow> nat \<Rightarrow> (u64 \<Rightarrow> u64) \<Rightarrow> SYCPUState res" where
  "poke_word C i f = rbind (arr_get (m_ArrRegs C) i) (\<lambda>w. Inr (C\<lparr>m_ArrRegs := (m_ArrRegs C)[i := f w]\<rparr>))"

definition writeConReg :: "SYCPUState \<Rightarrow> u32 \<Rightarrow> u64 \<Rightarrow> SYCPUState res" where
  "writeConReg C reg_idx val =
     rbind (idxToReg C reg_idx) (\<lambda>R.
     if reg_size R = 8 then poke_word C (slot R) (\<lambda>w. val)
     else if reg_size R = 4 then poke_word C (slot R) (set_low 4 val)
     else if reg_size R = 2 then poke_word C (slot R) (set_low 2 val)
     else if reg_size R = 1 then poke_word C (slot R) (set_low 1 val)
     else Inl AssertFail)"

section \<open>Which part of a word a register is\<close>

definition RegToSubIndex :: "dapi \<Rightarrow> MachineReg \<Rightarrow> nat res" where
  "RegToSubIndex D R =
     (let part = indx R AND 0xf00;
          subIdx = (if part = D_REG D then REG_D else unat (drop_bit 8 part))
      in rassert (subIdx < 7) (Inr subIdx))"

text \<open>The array of masks has seven entries and a part below seven indexes it.\<close>

definition part_mask :: "nat \<Rightarrow> u64" where "part_mask s = reg_mask_bits ! s"

definition isSYReg_part :: "SYCPUState \<Rightarrow> MachineReg \<Rightarrow> nat \<Rightarrow> bool res" where
  "isSYReg_part C R s = rbind (arr_get (m_symBitmap C) (slot R)) (\<lambda>b. Inr (b AND part_mask s \<noteq> 0))"

definition isSYReg :: "dapi \<Rightarrow> SYCPUState \<Rightarrow> u32 \<Rightarrow> bool res" where
  "isSYReg D C reg_index =
     rbind (idxToReg C reg_index) (\<lambda>R. rbind (RegToSubIndex D R) (isSYReg_part C R))"

definition poke_bits :: "SYCPUState \<Rightarrow> nat \<Rightarrow> (u64 \<Rightarrow> u64) \<Rightarrow> SYCPUState res" where
  "poke_bits C i f = rbind (arr_get (m_symBitmap C) i) (\<lambda>b. Inr (C\<lparr>m_symBitmap := (m_symBitmap C)[i := f b]\<rparr>))"

definition setSYReg :: "dapi \<Rightarrow> SYCPUState \<Rightarrow> MachineReg \<Rightarrow> SYCPUState res" where
  "setSYReg D C R = rbind (RegToSubIndex D R) (\<lambda>s. poke_bits C (slot R) (\<lambda>b. b OR part_mask s))"

definition clrSYReg :: "dapi \<Rightarrow> SYCPUState \<Rightarrow> MachineReg \<Rightarrow> SYCPUState res" where
  "clrSYReg D C R = rbind (RegToSubIndex D R) (\<lambda>s. poke_bits C (slot R) (\<lambda>b. b AND NOT (part_mask s)))"

definition regIdxToAddrSize :: "nat \<Rightarrow> (int \<times> int) res" where
  "regIdxToAddrSize idx =
     (if idx = REG_FULL then Inr (0, 8)
      else if idx = REG_D then Inr (0, 4)
      else if idx = REG_W then Inr (0, 2)
      else if idx = REG_L then Inr (0, 1)
      else if idx = REG_H then Inr (1, 1)
      else Inl AssertFail)"

section \<open>Concrete values\<close>

text \<open>The test by which both functions tell the first byte of a word from the second.\<close>

definition is_first_byte :: "dapi \<Rightarrow> MachineReg \<Rightarrow> bool" where
  "is_first_byte D R \<longleftrightarrow> indx R AND 0xf00 = push_bit 8 (L_REG D)"

text \<open>None: a size that is not one of the four; false is returned and nothing changes.\<close>

definition cpu_writeConcreteValue :: "dapi \<Rightarrow> SYCPUState \<Rightarrow> MachineReg \<Rightarrow> u64 \<Rightarrow> SYCPUState option res" where
  "cpu_writeConcreteValue D C R v =
     (if reg_size R = 1
      then map_sum id Some (if is_first_byte D R then poke_word C (slot R) (set_low 1 v)
            else poke_word C (slot R) (\<lambda>w. set_low 2 ((w AND 0xff) OR push_bit 8 (take_bit 8 v)) w))
      else if reg_size R = 2 then map_sum id Some (poke_word C (slot R) (set_low 2 v))
      else if reg_size R = 4 then map_sum id Some (poke_word C (slot R) (set_low 4 v))
      else if reg_size R = 8 then map_sum id Some (poke_word C (slot R) (\<lambda>w. v))
      else Inr None)"

text \<open>The result is the union of the value with the member of the register's size assigned.\<close>

definition cpu_readConcreteValue :: "dapi \<Rightarrow> SYCPUState \<Rightarrow> MachineReg \<Rightarrow> u64 \<Rightarrow> u64 option res" where
  "cpu_readConcreteValue D C R old =
     rbind (arr_get (m_ArrRegs C) (slot R)) (\<lambda>w.
     if reg_size R = 1
     then Inr (Some (if is_first_byte D R then set_low 1 w old else set_low 1 (drop_bit 8 w) old))
     else if reg_size R = 2 then Inr (Some (set_low 2 w old))
     else if reg_size R = 4 then Inr (Some (set_low 4 w old))
     else if reg_size R = 8 then Inr (Some w)
     else Inr None)"

section \<open>Reading and writing registers\<close>

text \<open>The value is passed by reference; the result holds it updated and the boolean returned.\<close>

definition readRegister :: "dapi \<Rightarrow> store \<Rightarrow> SYCPUState \<Rightarrow> RegValue \<Rightarrow> (store \<times> RegValue \<times> bool) res" where
  "readRegister D st C V =
     rbind (idxToReg C (rv_indx V)) (\<lambda>R.
     rassert (indx R = rv_indx V) (rassert (reg_size R = rv_size V) (
     rbind (RegToSubIndex D R) (\<lambda>s.
     rbind (isSYReg_part C R s) (\<lambda>bSym.
     let V = V\<lparr>rv_bsym := bSym\<rparr>
     in if \<not> bSym
        then rbind (cpu_readConcreteValue D C R (rv_i64 V)) (\<lambda>r.
             let V = V\<lparr>rv_isSymList := False\<rparr>
             in Inr (st, (case r of None \<Rightarrow> V | Some x \<Rightarrow> V\<lparr>rv_i64 := x\<rparr>), r \<noteq> None))
        else rbind (regIdxToAddrSize s) (\<lambda>(addr, sz).
             rbind (cpu_readConcreteValue D C R (rv_i64 V)) (\<lambda>r.
             let V = (case r of None \<Rightarrow> V | Some x \<Rightarrow> V\<lparr>rv_i64 := x\<rparr>)
             in rbind (arr_get (m_symList C) (slot R)) (\<lambda>m.
                if rv_isSymList V
                then rbind (GetCellList st m addr sz) (\<lambda>(st, l). Inr (st, V\<lparr>rv_symcellPtr := l\<rparr>, True))
                else rbind (GetExpr st m addr sz (rv_i64 V)) (\<lambda>(st, e). Inr (st, V\<lparr>rv_expr := Some e\<rparr>, True))))))))))"

text \<open>The bits of the cells of a list: the outer loop runs over the cells, the inner over their bytes.\<close>

fun cell_bits :: "nat \<Rightarrow> int \<Rightarrow> u64 res" where
  "cell_bits 0 i = Inr 0"
| "cell_bits (Suc n) i = rbind (int_one_shl i) (\<lambda>b. rbind (cell_bits n (i + 1)) (\<lambda>bs. Inr (b OR bs)))"

fun list_bits :: "nat \<Rightarrow> store \<Rightarrow> nat option \<Rightarrow> u64 res" where
  "list_bits 0 st p = Inl Diverges"
| "list_bits (Suc n) st p =
     (case p of None \<Rightarrow> Inr 0
      | Some t \<Rightarrow> rbind (cell_bits (nat (siz st t)) (adr st t)) (\<lambda>b.
          rbind (list_bits n st (nxt st t)) (\<lambda>bs. Inr (b OR bs))))"

definition set_list :: "SYCPUState \<Rightarrow> nat \<Rightarrow> slm \<Rightarrow> SYCPUState" where
  "set_list C i m = C\<lparr>m_symList := (m_symList C)[i := m]\<rparr>"

text \<open>The address of the first cell is compared as an unsigned number: a negative one is large.\<close>

definition writeRegister :: "dapi \<Rightarrow> store \<Rightarrow> SYCPUState \<Rightarrow> RegValue \<Rightarrow> (store \<times> SYCPUState \<times> bool) res" where
  "writeRegister D st C V =
     rbind (idxToReg C (rv_indx V)) (\<lambda>R.
     rassert (indx R = rv_indx V) (rassert (reg_size R = rv_size V) (
     rbind (RegToSubIndex D R) (\<lambda>s.
     rbind (regIdxToAddrSize s) (\<lambda>(addr, sz).
     if \<not> rv_bsym V
     then rbind (clrSYReg D C R) (\<lambda>C.
          rbind (arr_get (m_symList C) (slot R)) (\<lambda>m.
          rbind (Remove st m addr sz) (\<lambda>(st, m).
          let C = set_list C (slot R) m
          in rbind (cpu_writeConcreteValue D C R (rv_i64 V)) (\<lambda>r.
             Inr (st, (case r of None \<Rightarrow> C | Some C' \<Rightarrow> C'), r \<noteq> None)))))
     else rbind (cpu_writeConcreteValue D C R (rv_i64 V)) (\<lambda>r.
          let C = (case r of None \<Rightarrow> C | Some C' \<Rightarrow> C')
          in if rv_isSymList V
             then rbind (deref (rv_symcellPtr V)) (\<lambda>p.
                  let start = adr st p
                  in rbind (if 0 \<le> start \<and> start < 8 then Inr st else rebase_loop (fresh st + 1) st (Some p) start) (\<lambda>st.
                     rbind (list_bits (fresh st + 1) st (Some p)) (\<lambda>tmpbitmap.
                     rbind (clrSYReg D C R) (\<lambda>C.
                     rbind (poke_bits C (slot R) (\<lambda>b. b OR tmpbitmap)) (\<lambda>C.
                     rbind (arr_get (m_symList C) (slot R)) (\<lambda>m.
                     rbind (Merge st m (Some p)) (\<lambda>(st, m). Inr (st, set_list C (slot R) m, True))))))))
             else rbind (setSYReg D C R) (\<lambda>C.
                  let (p, st) = alloc (new_cell addr sz (rv_expr V)) st
                  in rbind (arr_get (m_symList C) (slot R)) (\<lambda>m.
                     rbind (Merge st m (Some p)) (\<lambda>(st, m). Inr (st, set_list C (slot R) m, True))))))))))"

section \<open>Flags\<close>

datatype FLAG_STAT = FLAG_CLEAR | FLAG_SET | FLAG_UNCERTAIN

definition getFlagBit_instr :: "SYCPUState \<Rightarrow> u32 \<Rightarrow> nat option res" where
  "getFlagBit_instr C flag_index = rbind (idxToReg C flag_index) (\<lambda>R. Inr (fsinstr R))"

definition setFlagBit_instr :: "SYCPUState \<Rightarrow> u32 \<Rightarrow> nat option \<Rightarrow> SYCPUState res" where
  "setFlagBit_instr C flag_index ptr = upd_reg flag_index (\<lambda>R. R\<lparr>fsinstr := ptr\<rparr>) C"

text \<open>The flags word is word 18; the bit of a flag is the low byte of its number.\<close>

definition is_flag :: "dapi \<Rightarrow> u32 \<Rightarrow> bool" where
  "is_flag D flag_index \<longleftrightarrow>
     (let k = BIT D OR FLAG D OR Arch_x86_64 D in flag_index AND k = k)"

definition getFlagBit :: "dapi \<Rightarrow> SYCPUState \<Rightarrow> u32 \<Rightarrow> FLAG_STAT res" where
  "getFlagBit D C flag_index =
     rbind (idxToReg C flag_index) (\<lambda>R.
     rassert (is_flag D flag_index) (
     if \<not> bsym_flag R
     then rbind (arr_get (m_ArrRegs C) EFL_PTRIDX) (\<lambda>w.
          rbind (int_one_shl (uint (flag_index AND 0xff))) (\<lambda>b.
          Inr (if w AND b \<noteq> 0 then FLAG_SET else FLAG_CLEAR)))
     else Inr FLAG_UNCERTAIN))"

definition setFlagBit :: "dapi \<Rightarrow> SYCPUState \<Rightarrow> u32 \<Rightarrow> FLAG_STAT \<Rightarrow> SYCPUState res" where
  "setFlagBit D C flag_index flag =
     rbind (idxToReg C flag_index) (\<lambda>R.
     rassert (is_flag D flag_index) (
     case flag of
       FLAG_UNCERTAIN \<Rightarrow> upd_reg flag_index (\<lambda>R. R\<lparr>bsym_flag := True\<rparr>) C
     | FLAG_SET \<Rightarrow> rbind (int_one_shl (uint (flag_index AND 0xff))) (\<lambda>b. poke_word C EFL_PTRIDX (\<lambda>w. w OR b))
     | FLAG_CLEAR \<Rightarrow> rbind (int_one_shl (uint (flag_index AND 0xff))) (\<lambda>b. poke_word C EFL_PTRIDX (\<lambda>w. w AND NOT b))))"

definition FlagBitDefinited :: "SYCPUState \<Rightarrow> u32 \<Rightarrow> bool res" where
  "FlagBitDefinited C flag_index = rbind (idxToReg C flag_index) (\<lambda>R. Inr (\<not> bsym_flag R))"

section \<open>The documented encoding of Dyninst\<close>

text \<open>
  The registers that are parts of a saved word: those of the table whose word is one of the 23 of
  the saved state. The nibble of a register's number that gives its part, by its size.
\<close>

definition part_nibble :: "u32 \<Rightarrow> u32" where
  "part_nibble sz = (if sz = 8 then 0 else if sz = 4 then 0xf00 else if sz = 2 then 0x300 else 0x100)"

definition dapi_ok :: "dapi \<Rightarrow> bool" where
  "dapi_ok D \<longleftrightarrow> distinct (map (\<lambda>(r, i, sz). reg_id D r) DyinstEncoding) \<and> D_REG D = 0xf00 \<and> L_REG D = 0x100 \<and>
     list_all (\<lambda>(r, i, sz). i < PTREGS_REG_TOTAL \<longrightarrow> reg_id D r AND 0xf00 = part_nibble sz) DyinstEncoding"

definition part_of :: "u32 \<Rightarrow> nat" where
  "part_of sz = (if sz = 8 then REG_FULL else if sz = 4 then REG_D else if sz = 2 then REG_W else REG_L)"

definition saved_reg :: "x86_reg \<Rightarrow> nat \<Rightarrow> u32 \<Rightarrow> bool" where
  "saved_reg r i sz \<longleftrightarrow> (r, i, sz) \<in> set DyinstEncoding \<and> i < PTREGS_REG_TOTAL"

text \<open>The table of registers is the one the constructor built, up to the flag fields.\<close>

definition regs_ok :: "dapi \<Rightarrow> SYCPUState \<Rightarrow> bool" where
  "regs_ok D C \<longleftrightarrow> (\<forall>(r, i, sz) \<in> set DyinstEncoding. \<exists>R. m_Regs C (reg_id D r) = Some R \<and>
     indx R = reg_id D r \<and> reg_size R = sz \<and> slot R = i)"

lemma table_sizes: "list_all (\<lambda>(r, i, sz). sz \<in> {1, 2, 4, 8} \<and> i \<le> 32) DyinstEncoding"
  by (simp add: table_defs ptridx_defs PTREGS_REG_TOTAL_def)

lemma saved_reg_size: "saved_reg r i sz \<Longrightarrow> sz \<in> {1, 2, 4, 8} \<and> i < 23"
  using table_sizes by (auto simp: saved_reg_def list_all_iff PTREGS_REG_TOTAL_def)

lemma new_regs_ok:
  assumes "distinct (map (\<lambda>(r, i, sz). reg_id D r) DyinstEncoding)"
  shows "regs_ok D (snd (new_SYCPUState D arr bits st))"
proof -
  let ?f = "\<lambda>(r, offt, sz). (reg_id D r, \<lparr>indx = reg_id D r, reg_size = sz, bsym_flag = False, slot = offt, fsinstr = None\<rparr>)"
  have "map fst (map ?f DyinstEncoding) = map (\<lambda>(r, i, sz). reg_id D r) DyinstEncoding" by (simp add: case_prod_unfold)
  then have d: "distinct (map fst (map ?f DyinstEncoding))" using assms by (simp only:)
  have "map_of (map ?f DyinstEncoding) (reg_id D r) =
      Some \<lparr>indx = reg_id D r, reg_size = sz, bsym_flag = False, slot = i, fsinstr = None\<rparr>"
    if "(r, i, sz) \<in> set DyinstEncoding" for r i sz
    by (rule map_of_is_SomeI [OF d]) (use that in force)
  then show ?thesis by (auto simp: regs_ok_def new_SYCPUState_def split_beta)
qed

lemma reg_found:
  assumes "dapi_ok D" "regs_ok D C" "saved_reg r i sz"
  obtains R where "idxToReg C (reg_id D r) = Inr R" "indx R = reg_id D r" "reg_size R = sz" "slot R = i"
    "RegToSubIndex D R = Inr (part_of sz)" "\<not> is_first_byte D R"
proof -
  obtain R where R: "m_Regs C (reg_id D r) = Some R" "indx R = reg_id D r" "reg_size R = sz" "slot R = i"
    using assms(2,3) by (fastforce simp: regs_ok_def saved_reg_def)
  have n: "indx R AND 0xf00 = part_nibble sz"
    using assms(1,3) R(2) by (auto simp: dapi_ok_def saved_reg_def list_all_iff)
  have DL: "D_REG D = 0xf00" "L_REG D = 0x100" using assms(1) by (auto simp: dapi_ok_def)
  have "RegToSubIndex D R = Inr (part_of sz)" "\<not> is_first_byte D R"
    using saved_reg_size [OF assms(3)]
    by (auto simp: RegToSubIndex_def is_first_byte_def n DL part_nibble_def part_of_def reg_part_defs)
  then show ?thesis using that [of R] R by (simp add: idxToReg_def)
qed

lemma part_range: "sz \<in> {1, 2, 4, 8} \<Longrightarrow> regIdxToAddrSize (part_of sz) = Inr (0, int (unat sz))"
  by (auto simp: regIdxToAddrSize_def part_of_def reg_part_defs)

lemma part_mask_mask: "sz \<in> {1, 2, 4, 8} \<Longrightarrow> part_mask (part_of sz) = mask (unat sz)"
  by (auto simp: part_mask_def part_of_def reg_part_defs reg_mask_bits_def mask_eq_exp_minus_1)

lemma bit_part_mask: "sz \<in> {1, 2, 4, 8} \<Longrightarrow> bit (part_mask (part_of sz)) k \<longleftrightarrow> k < unat sz"
  by (auto simp: part_mask_mask bit_simps)

section \<open>The invariant\<close>

text \<open>For each word, the bitmap and the list agree on which of its eight bytes are symbolic.\<close>

definition cpu_wf :: "store \<Rightarrow> SYCPUState \<Rightarrow> bool" where
  "cpu_wf st C \<longleftrightarrow> length (m_ArrRegs C) = 32 \<and> length (m_symBitmap C) = 32 \<and> length (m_symList C) = 32 \<and>
     family_ok st (m_symList C) \<and>
     (\<forall>i < 32. \<forall>k < 8. bit (m_symBitmap C ! i) k \<longleftrightarrow> bytes_of (st, m_symList C ! i) (int k) \<noteq> None)"

lemma cpu_wfD:
  assumes "cpu_wf st C"
  shows "length (m_ArrRegs C) = 32" "length (m_symBitmap C) = 32" "length (m_symList C) = 32"
    "family_ok st (m_symList C)"
    "\<And>i k. i < 32 \<Longrightarrow> k < 8 \<Longrightarrow> bit (m_symBitmap C ! i) k \<longleftrightarrow> bytes_of (st, m_symList C ! i) (int k) \<noteq> None"
  using assms by (auto simp: cpu_wf_def)

lemma new_lists_ok:
  "length (snd (new_lists n st)) = n \<and> family_ok (fst (new_lists n st)) (snd (new_lists n st)) \<and>
     (\<forall>j < n. bytes_of (fst (new_lists n st), snd (new_lists n st) ! j) = (\<lambda>x. None))"
proof (induction n)
  case 0
  then show ?case by (simp add: family_ok_def)
next
  case (Suc n)
  obtain st1 ms where s: "new_lists n st = (st1, ms)" by (cases "new_lists n st")
  have IH: "length ms = n" "family_ok st1 ms" "\<forall>j < n. bytes_of (st1, ms ! j) = (\<lambda>x. None)" using Suc s by auto
  note f = family_new [OF IH(2)]
  have "bytes_of (fst (Symbol_List_Map st1), (ms @ [snd (Symbol_List_Map st1)]) ! j) = (\<lambda>x. None)" if "j < Suc n" for j
    using f(2) [of j] IH(1,3) slm_wf_new [of st1] that by (cases "j < n") (auto simp: nth_append less_Suc_eq)
  then show ?case using f(1) IH(1) by (simp add: s split_beta)
qed

lemma new_cpu_wf:
  assumes "length arr = 32"
  shows "cpu_wf (fst (new_SYCPUState D arr (replicate 32 0) st)) (snd (new_SYCPUState D arr (replicate 32 0) st))"
  using new_lists_ok [of 32 st] assms
  by (simp add: cpu_wf_def new_SYCPUState_def split_beta DYINST_REG_TOTAL_def)

lemma isSYReg_part_ok:
  assumes "cpu_wf st C" "slot R < 32" "sz \<in> {1, 2, 4, 8}"
  shows "isSYReg_part C R (part_of sz) =
    Inr (\<exists>k. 0 \<le> k \<and> k < int (unat sz) \<and> bytes_of (st, m_symList C ! slot R) k \<noteq> None)"
proof -
  let ?b = "m_symBitmap C ! slot R"
  have n: "unat sz \<le> 8" using assms(3) by auto
  have "?b AND part_mask (part_of sz) \<noteq> 0 \<longleftrightarrow> (\<exists>k. bit ?b k \<and> k < unat sz)"
  proof -
    have "k < 64" if "k < unat sz" for k using that n by simp
    then show ?thesis using bit_part_mask [OF assms(3)] by (auto simp: bit_eq_iff bit_simps)
  qed
  also have "\<dots> \<longleftrightarrow> (\<exists>k < unat sz. bytes_of (st, m_symList C ! slot R) (int k) \<noteq> None)"
    using cpu_wfD(5) [OF assms(1,2)] n by (metis (no_types, lifting) order_less_le_trans)
  also have "\<dots> \<longleftrightarrow> (\<exists>k. 0 \<le> k \<and> k < int (unat sz) \<and> bytes_of (st, m_symList C ! slot R) k \<noteq> None)"
    by (metis nonneg_int_cases of_nat_0_le_iff of_nat_less_iff)
  finally show ?thesis using assms(1,2) by (simp add: isSYReg_part_def arr_get_def cpu_wf_def)
qed

section \<open>Writing and reading a register\<close>

text \<open>
  The word after a concrete write: the low bytes of the register's size change, except for a
  register of one byte, whose write goes to the second byte.
\<close>

definition written_word :: "u32 \<Rightarrow> u64 \<Rightarrow> u64 \<Rightarrow> u64" where
  "written_word sz v w =
     (if sz = 1 then set_low 2 ((w AND 0xff) OR push_bit 8 (take_bit 8 v)) w
      else if sz = 8 then v else set_low (unat sz) v w)"

definition read_word :: "u32 \<Rightarrow> u64 \<Rightarrow> u64 \<Rightarrow> u64" where
  "read_word sz w old =
     (if sz = 1 then set_low 1 (drop_bit 8 w) old
      else if sz = 8 then w else set_low (unat sz) w old)"

text \<open>
  Bit by bit. The number of a register lies in its word from bit 0 on, except that of a register of one byte, which
  the code keeps from bit 8 on, in the second byte (the low byte of the word, which the register is, is not looked at).
\<close>

definition conc_pos :: "u32 \<Rightarrow> nat" where
  "conc_pos sz = (if sz = 1 then 8 else 0)"

lemma bit_set_low:
  assumes "n \<le> 8"
  shows "bit (set_low n v w) b \<longleftrightarrow> (if b < 8 * n then bit v b else bit w b)"
  using assms bit_imp_le_length [of w b] bit_imp_le_length [of v b] by (auto simp: set_low_def bit_simps)

lemma written_word_bits:
  assumes "sz \<in> {1, 2, 4, 8}"
  shows "bit (written_word sz v w) b \<longleftrightarrow>
    (if conc_pos sz \<le> b \<and> b < conc_pos sz + 8 * unat sz then bit v (b - conc_pos sz) else bit w b)"
proof (cases "sz = 1")
  case True
  have ff: "(0xff :: u64) = mask 8" by (simp add: mask_eq_exp_minus_1)
  have m: "bit (0xff :: u64) b \<longleftrightarrow> b < 8" unfolding ff bit_mask_iff by auto
  show ?thesis using True m by (auto simp: written_word_def conc_pos_def bit_set_low bit_simps)
next
  case False
  then show ?thesis using assms bit_imp_le_length [of w b] bit_imp_le_length [of v b]
    by (auto simp: written_word_def conc_pos_def bit_set_low)
qed

lemma read_word_bits:
  assumes "sz \<in> {1, 2, 4, 8}"
  shows "bit (read_word sz w old) b \<longleftrightarrow> (if b < 8 * unat sz then bit w (conc_pos sz + b) else bit old b)"
  using assms bit_imp_le_length [of old b] bit_imp_le_length [of w b] by (auto simp: read_word_def conc_pos_def bit_set_low bit_simps)

lemma cpu_writeConcreteValue_ok:
  assumes "reg_size R = sz" "sz \<in> {1, 2, 4, 8}" "slot R = i" "i < length (m_ArrRegs C)" "\<not> is_first_byte D R"
  shows "cpu_writeConcreteValue D C R v =
    Inr (Some (C\<lparr>m_ArrRegs := (m_ArrRegs C)[i := written_word sz v (m_ArrRegs C ! i)]\<rparr>))"
  using assms by (auto simp: cpu_writeConcreteValue_def poke_word_def arr_get_def written_word_def)

lemma cpu_readConcreteValue_ok:
  assumes "reg_size R = sz" "sz \<in> {1, 2, 4, 8}" "slot R = i" "i < length (m_ArrRegs C)" "\<not> is_first_byte D R"
  shows "cpu_readConcreteValue D C R old = Inr (Some (read_word sz (m_ArrRegs C ! i) old))"
  using assms by (auto simp: cpu_readConcreteValue_def arr_get_def read_word_def)

text \<open>What every write has in common: the bits of word i below n are set or cleared, and its list changes.\<close>

lemma cpu_wf_write:
  assumes wf: "cpu_wf st C" and i: "i < 32" and n: "n \<le> 8"
    and fam: "family_ok st' ((m_symList C)[i := m'])"
    and bits: "\<And>k. k < 8 \<Longrightarrow> bit b' k \<longleftrightarrow> (if k < n then v \<noteq> None else bit (m_symBitmap C ! i) k)"
    and bytes: "\<forall>j < 32. bytes_of (st', (m_symList C)[i := m'] ! j) =
      (if j = i then (\<lambda>x. if 0 \<le> x \<and> x < 0 + int n then map_option (\<lambda>e. byte_ref e (x - 0)) v
         else bytes_of (st, m_symList C ! i) x) else bytes_of (st, m_symList C ! j))"
    and C': "m_symBitmap C' = (m_symBitmap C)[i := b']" "m_symList C' = (m_symList C)[i := m']" "length (m_ArrRegs C') = 32"
  shows "cpu_wf st' C'"
  unfolding cpu_wf_def
proof (intro conjI allI impI)
  note W = cpu_wfD [OF wf]
  show "length (m_ArrRegs C') = 32" "length (m_symBitmap C') = 32" "length (m_symList C') = 32"
    "family_ok st' (m_symList C')" using C' W fam by simp_all
  fix j k :: nat
  assume j: "j < 32" and k: "k < 8"
  have b: "bytes_of (st', m_symList C' ! j) = (if j = i then (\<lambda>x. if 0 \<le> x \<and> x < 0 + int n then map_option (\<lambda>e. byte_ref e (x - 0)) v
         else bytes_of (st, m_symList C ! i) x) else bytes_of (st, m_symList C ! j))"
    using bytes j C'(2) by simp
  show "bit (m_symBitmap C' ! j) k = (bytes_of (st', m_symList C' ! j) (int k) \<noteq> None)"
  proof (cases "j = i")
    case True
    have "(v \<noteq> None) = (map_option (\<lambda>e. byte_ref e (int k - 0)) v \<noteq> None)" by (cases v) simp_all
    then show ?thesis using True bits [OF k] W(5) [OF i k] W(2) i b C'(1) by (cases "k < n") simp_all
  next
    case False
    then show ?thesis using W(5) [OF j k] b C'(1) by simp
  qed
qed

lemma bits_after:
  assumes "sz \<in> {1, 2, 4, 8}" "k < 8"
  shows "bit (b OR part_mask (part_of sz)) k \<longleftrightarrow> (if k < unat sz then True else bit b k)"
    "bit (b AND NOT (part_mask (part_of sz))) k \<longleftrightarrow> (if k < unat sz then False else bit b k)"
  using assms(2) bit_part_mask [OF assms(1), of k] by (auto simp: bit_simps)

lemma reg_range: "sz \<in> {1, 2, 4, 8} \<Longrightarrow> range_ok 0 (0 + int (unat (sz :: u32)))"
  by (auto simp: range_ok_def)

lemma writeRegister_spec:
  assumes D: "dapi_ok D" "regs_ok D C" and r: "saved_reg r i sz" and wf: "cpu_wf st C"
    and V: "rv_indx V = reg_id D r" "rv_size V = sz" "\<not> rv_isSymList V"
    and v: "v = (if rv_bsym V then rv_expr V else None)" "rv_bsym V \<longrightarrow> rv_expr V \<noteq> None"
  shows "\<exists>st' C'. writeRegister D st C V = Inr (st', C', True) \<and> cpu_wf st' C' \<and> m_Regs C' = m_Regs C \<and>
    m_ArrRegs C' = (m_ArrRegs C)[i := written_word sz (rv_i64 V) (m_ArrRegs C ! i)] \<and>
    (\<forall>j < 32. bytes_of (st', m_symList C' ! j) =
      (if j = i then (\<lambda>x. if 0 \<le> x \<and> x < int (unat sz) then map_option (\<lambda>e. byte_ref e x) v
         else bytes_of (st, m_symList C ! i) x) else bytes_of (st, m_symList C ! j)))"
proof -
  obtain R where R: "idxToReg C (reg_id D r) = Inr R" "indx R = reg_id D r" "reg_size R = sz" "slot R = i"
    "RegToSubIndex D R = Inr (part_of sz)" "\<not> is_first_byte D R" by (rule reg_found [OF D r])
  have s: "sz \<in> {1, 2, 4, 8}" and i: "i < 32" using saved_reg_size [OF r] by auto
  note W = cpu_wfD [OF wf]
  have n: "unat sz \<le> 8" using s by auto
  define A where "A = (m_ArrRegs C)[i := written_word sz (rv_i64 V) (m_ArrRegs C ! i)]"
  have cw: "cpu_writeConcreteValue D (C\<lparr>m_symBitmap := b, m_symList := l\<rparr>) R (rv_i64 V) =
      Inr (Some (C\<lparr>m_symBitmap := b, m_symList := l, m_ArrRegs := A\<rparr>))" for b l
    using cpu_writeConcreteValue_ok [OF R(3) s R(4), of "C\<lparr>m_symBitmap := b, m_symList := l\<rparr>" D] i W(1) R(6)
    by (simp add: A_def)
  have cw0: "cpu_writeConcreteValue D C R (rv_i64 V) = Inr (Some (C\<lparr>m_ArrRegs := A\<rparr>))"
    using cpu_writeConcreteValue_ok [OF R(3) s R(4), of C D] i W(1) R(6) by (simp add: A_def)
  have il: "i < length (m_symList C)" using i W(3) by simp
  show ?thesis
  proof (cases "rv_bsym V")
    case False
    obtain st' m' where m: "rem 0 (int (unat sz)) (st, m_symList C ! i) = Inr (st', m')"
      "family_ok st' ((m_symList C)[i := m'])"
      "\<forall>j < length (m_symList C). bytes_of (st', (m_symList C)[i := m'] ! j) =
        (if j = i then (\<lambda>x. if 0 \<le> x \<and> x < 0 + int (unat sz) then None else bytes_of (st, m_symList C ! i) x)
         else bytes_of (st, m_symList C ! j))"
      using family_rem [OF W(4) il reg_range [OF s]] by blast
    define b' where "b' = m_symBitmap C ! i AND NOT (part_mask (part_of sz))"
    define C' where "C' = C\<lparr>m_symBitmap := (m_symBitmap C)[i := b'], m_symList := (m_symList C)[i := m'], m_ArrRegs := A\<rparr>"
    have "writeRegister D st C V = Inr (st', C', True)"
      using R V False part_range [OF s] m(1) i W cw
      by (simp add: writeRegister_def clrSYReg_def poke_bits_def arr_get_def rem_def set_list_def C'_def b'_def)
    moreover have "cpu_wf st' C'"
      by (rule cpu_wf_write [OF wf i n m(2), of b' v])
        (use bits_after(2) [OF s] m(3) W v False in \<open>simp_all add: C'_def b'_def A_def cong: if_cong\<close>)
    moreover have "\<forall>j < 32. bytes_of (st', m_symList C' ! j) =
      (if j = i then (\<lambda>x. if 0 \<le> x \<and> x < int (unat sz) then map_option (\<lambda>e. byte_ref e x) v
         else bytes_of (st, m_symList C ! i) x) else bytes_of (st, m_symList C ! j))"
      using m(3) W(3) v False by (simp add: C'_def cong: if_cong)
    ultimately show ?thesis unfolding A_def [symmetric] by (intro exI [of _ st'] exI [of _ C']) (simp add: C'_def)
  next
    case True
    then obtain e where e: "rv_expr V = Some e" using v(2) by blast
    obtain st' m' where m: "put_expr 0 (int (unat sz)) e (st, m_symList C ! i) = Inr (st', m')"
      "family_ok st' ((m_symList C)[i := m'])"
      "\<forall>j < length (m_symList C). bytes_of (st', (m_symList C)[i := m'] ! j) =
        (if j = i then (\<lambda>x. if 0 \<le> x \<and> x < 0 + int (unat sz) then Some (byte_ref e (x - 0)) else bytes_of (st, m_symList C ! i) x)
         else bytes_of (st, m_symList C ! j))"
      using family_put [OF W(4) il reg_range [OF s]] by blast
    define b' where "b' = m_symBitmap C ! i OR part_mask (part_of sz)"
    define C' where "C' = C\<lparr>m_symBitmap := (m_symBitmap C)[i := b'], m_symList := (m_symList C)[i := m'], m_ArrRegs := A\<rparr>"
    have "writeRegister D st C V = Inr (st', C', True)"
      using R V True part_range [OF s] m(1) i W cw0 e
      by (simp add: writeRegister_def setSYReg_def poke_bits_def arr_get_def put_expr_def alloc_eq set_list_def C'_def b'_def)
    moreover have "cpu_wf st' C'"
      by (rule cpu_wf_write [OF wf i n m(2), of b' v])
        (use bits_after(1) [OF s] m(3) W v True e in \<open>simp_all add: C'_def b'_def A_def cong: if_cong\<close>)
    moreover have "\<forall>j < 32. bytes_of (st', m_symList C' ! j) =
      (if j = i then (\<lambda>x. if 0 \<le> x \<and> x < int (unat sz) then map_option (\<lambda>e. byte_ref e x) v
         else bytes_of (st, m_symList C ! i) x) else bytes_of (st, m_symList C ! j))"
      using m(3) W(3) v True e by (simp add: C'_def cong: if_cong)
    ultimately show ?thesis unfolding A_def [symmetric] by (intro exI [of _ st'] exI [of _ C']) (simp add: C'_def)
  qed
qed

lemma readRegister_spec:
  assumes D: "dapi_ok D" "regs_ok D C" and r: "saved_reg r i sz" and wf: "cpu_wf st C"
    and V: "rv_indx V = reg_id D r" "rv_size V = sz" "\<not> rv_isSymList V"
  defines "c \<equiv> read_word sz (m_ArrRegs C ! i) (rv_i64 V)"
  shows "if \<exists>k. 0 \<le> k \<and> k < int (unat sz) \<and> bytes_of (st, m_symList C ! i) k \<noteq> None
    then \<exists>st' e. readRegister D st C V = Inr (st', V\<lparr>rv_bsym := True, rv_i64 := c, rv_expr := Some e\<rparr>, True) \<and>
      cpu_wf st' C \<and> (\<forall>j < 32. bytes_of (st', m_symList C ! j) = bytes_of (st, m_symList C ! j)) \<and>
      reads_as e (int (unat sz)) (or_concrete (bytes_of (st, m_symList C ! i)) c)
    else readRegister D st C V = Inr (st, V\<lparr>rv_bsym := False, rv_isSymList := False, rv_i64 := c\<rparr>, True)"
proof -
  obtain R where R: "idxToReg C (reg_id D r) = Inr R" "indx R = reg_id D r" "reg_size R = sz" "slot R = i"
    "RegToSubIndex D R = Inr (part_of sz)" "\<not> is_first_byte D R" by (rule reg_found [OF D r])
  have s: "sz \<in> {1, 2, 4, 8}" and i: "i < 32" using saved_reg_size [OF r] by auto
  note W = cpu_wfD [OF wf]
  have iR: "slot R < 32" using i R(4) by simp
  let ?ex = "\<exists>k. 0 \<le> k \<and> k < int (unat sz) \<and> bytes_of (st, m_symList C ! i) k \<noteq> None"
  have b: "isSYReg_part C R (part_of sz) = Inr ?ex" using isSYReg_part_ok [OF wf iR s] unfolding R(4) .
  have cr: "cpu_readConcreteValue D C R (rv_i64 V) = Inr (Some c)"
    using cpu_readConcreteValue_ok [OF R(3) s R(4)] i W(1) R(6) by (simp add: c_def)
  show ?thesis
  proof (cases ?ex)
    case True
    have il: "i < length (m_symList C)" using i W(3) by simp
    have n: "int (unat sz) \<le> 8" using s by auto
    have ex: "\<exists>x. 0 \<le> x \<and> x < 0 + int (unat sz) \<and> bytes_of (st, m_symList C ! i) x \<noteq> None"
      using True by simp
    obtain st' e where g: "GetExpr st (m_symList C ! i) 0 (int (unat sz)) c = Inr (st', e)" "family_ok st' (m_symList C)"
      "\<forall>j < length (m_symList C). bytes_of (st', m_symList C ! j) = bytes_of (st, m_symList C ! j)"
      "reads_as e (int (unat sz)) (or_concrete (\<lambda>k. bytes_of (st, m_symList C ! i) (0 + k)) c)"
      using family_get [OF W(4) il reg_range [OF s] n ex, of c] by blast
    have "readRegister D st C V = Inr (st', V\<lparr>rv_bsym := True, rv_i64 := c, rv_expr := Some e\<rparr>, True)"
      using R V b True cr part_range [OF s] g(1) il by (simp add: readRegister_def arr_get_def)
    moreover have "cpu_wf st' C" using wf g(2,3) W(3) unfolding cpu_wf_def by simp
    ultimately show ?thesis unfolding if_P [OF True] using g(3,4) W(3) by auto
  next
    case False
    then have "readRegister D st C V = Inr (st, V\<lparr>rv_bsym := False, rv_isSymList := False, rv_i64 := c\<rparr>, True)"
      using R V b cr by (simp add: readRegister_def)
    then show ?thesis unfolding if_not_P [OF False] .
  qed
qed

section \<open>Flags in the saved word\<close>

text \<open>The documented low bytes of the flag numbers: the position of the flag in the flags word.\<close>

definition flag_bits :: "(x86_reg \<times> nat) list" where
  "flag_bits = [(x86_cf, 0), (x86_pf, 2), (x86_af, 4), (x86_zf, 6), (x86_sf, 7), (x86_tf, 8), (x86_df, 10),
     (x86_of, 11), (x86_rf, 16)]"

definition flags_ok :: "dapi \<Rightarrow> bool" where
  "flags_ok D \<longleftrightarrow> list_all (\<lambda>(f, b). is_flag D (reg_id D f) \<and> reg_id D f AND 0xff = of_nat b) flag_bits"

lemma flag_bit_less: "(f, b) \<in> set flag_bits \<Longrightarrow> b < 31"
  by (auto simp: flag_bits_def)

lemma flag_bits_inj: "(f, b) \<in> set flag_bits \<Longrightarrow> (g, b) \<in> set flag_bits \<Longrightarrow> f = g"
  by (auto simp: flag_bits_def)

lemma flag_bits_fun: "(f, b) \<in> set flag_bits \<Longrightarrow> (f, c) \<in> set flag_bits \<Longrightarrow> b = c"
  by (auto simp: flag_bits_def)

lemma flag_of_reg: "(f, b) \<in> set flag_bits \<Longrightarrow> \<exists>i. (f, i, 1) \<in> set DyinstEncoding"
  by (auto simp: flag_bits_def DyinstEncoding_def reg_flags_def)

lemma int_one_shl_bit: "b < 31 \<Longrightarrow> int_one_shl (int b) = Inr (push_bit b 1)"
proof -
  assume b: "b < 31"
  have "signed_take_bit 31 (push_bit b 1 :: u64) = push_bit b 1"
    by (rule bit_word_eqI) (use b in \<open>auto simp: bit_simps\<close>)
  then show ?thesis using b by (simp add: int_one_shl_def)
qed

lemma flag_shift:
  assumes "flags_ok D" "(f, b) \<in> set flag_bits"
  shows "is_flag D (reg_id D f)" "int_one_shl (uint (reg_id D f AND 0xff)) = Inr (push_bit b 1)"
proof -
  have "is_flag D (reg_id D f) \<and> reg_id D f AND 0xff = of_nat b"
    using assms by (fastforce simp: flags_ok_def list_all_iff)
  moreover have "uint (of_nat b :: u32) = int b" using flag_bit_less [OF assms(2)] by (simp add: uint_nat unat_of_nat)
  ultimately show "is_flag D (reg_id D f)" "int_one_shl (uint (reg_id D f AND 0xff)) = Inr (push_bit b 1)"
    using int_one_shl_bit [OF flag_bit_less [OF assms(2)]] by simp_all
qed

lemma flag_found:
  assumes "regs_ok D C" "(f, b) \<in> set flag_bits"
  obtains R where "m_Regs C (reg_id D f) = Some R"
  using assms flag_of_reg by (fastforce simp: regs_ok_def)

lemma getFlagBit_ok:
  assumes "flags_ok D" "(f, b) \<in> set flag_bits" "m_Regs C (reg_id D f) = Some R" "18 < length (m_ArrRegs C)"
  shows "getFlagBit D C (reg_id D f) =
    Inr (if bsym_flag R then FLAG_UNCERTAIN else if bit (m_ArrRegs C ! 18) b then FLAG_SET else FLAG_CLEAR)"
  using flag_shift [OF assms(1,2)] assms(3,4) flag_bit_less [OF assms(2)]
  by (simp add: getFlagBit_def idxToReg_def arr_get_def EFL_PTRIDX_def and_exp_eq_0_iff_not_bit)

lemma setFlagBit_ok:
  assumes "flags_ok D" "(f, b) \<in> set flag_bits" "m_Regs C (reg_id D f) = Some R" "18 < length (m_ArrRegs C)"
  shows "setFlagBit D C (reg_id D f) v = Inr
    (case v of FLAG_UNCERTAIN \<Rightarrow> C\<lparr>m_Regs := (m_Regs C)(reg_id D f \<mapsto> R\<lparr>bsym_flag := True\<rparr>)\<rparr>
     | FLAG_SET \<Rightarrow> C\<lparr>m_ArrRegs := (m_ArrRegs C)[18 := m_ArrRegs C ! 18 OR push_bit b 1]\<rparr>
     | FLAG_CLEAR \<Rightarrow> C\<lparr>m_ArrRegs := (m_ArrRegs C)[18 := m_ArrRegs C ! 18 AND NOT (push_bit b 1)]\<rparr>)"
  using flag_shift [OF assms(1,2)] assms(3,4)
  by (simp add: setFlagBit_def idxToReg_def upd_reg_def poke_word_def arr_get_def EFL_PTRIDX_def split: FLAG_STAT.split)

lemma reg_id_inj:
  assumes "dapi_ok D" "(r, i, n) \<in> set DyinstEncoding" "(s, j, k) \<in> set DyinstEncoding" "reg_id D r = reg_id D s"
  shows "r = s"
proof -
  have "distinct (map (\<lambda>(r, i, sz). reg_id D r) DyinstEncoding)" using assms(1) by (simp add: dapi_ok_def)
  then have "inj_on (\<lambda>(r, i, sz). reg_id D r) (set DyinstEncoding)" by (simp add: distinct_map)
  then have "(r, i, n) = (s, j, k)" using inj_onD [OF _ _ assms(2,3)] assms(4) by fastforce
  then show ?thesis by simp
qed

section \<open>What the instruction handlers rely on\<close>

text \<open>C32. Writing a concrete value or an expression to a register keeps bitmap and list of every
  word in agreement, makes exactly the register's bytes of its own word symbolic with the
  expression (or concrete), and stores the number in the low bits of the word, as many as the register has; but
  the number of a register of one byte goes to bits 8 to 15. No other bit of the word, and no other word, changes.\<close>

theorem writeRegister_ok:
  assumes "dapi_ok D" "regs_ok D C" "saved_reg r i sz" "cpu_wf st C"
    and "rv_indx V = reg_id D r" "rv_size V = sz" "\<not> rv_isSymList V" "rv_bsym V \<longrightarrow> rv_expr V \<noteq> None"
  shows "\<exists>st' C' w. writeRegister D st C V = Inr (st', C', True) \<and> cpu_wf st' C' \<and> m_Regs C' = m_Regs C \<and>
    m_ArrRegs C' = (m_ArrRegs C)[i := w] \<and>
    (\<forall>b. bit w b \<longleftrightarrow> (if conc_pos sz \<le> b \<and> b < conc_pos sz + 8 * unat sz then bit (rv_i64 V) (b - conc_pos sz)
       else bit (m_ArrRegs C ! i) b)) \<and>
    (\<forall>j < 32. bytes_of (st', m_symList C' ! j) =
      (if j = i then (\<lambda>k. if 0 \<le> k \<and> k < int (unat sz)
         then map_option (\<lambda>e. byte_ref e k) (if rv_bsym V then rv_expr V else None)
         else bytes_of (st, m_symList C ! i) k) else bytes_of (st, m_symList C ! j)))"
proof -
  have s: "sz \<in> {1, 2, 4, 8}" using saved_reg_size [OF assms(3)] by simp
  show ?thesis using writeRegister_spec [OF assms(1-7) refl assms(8)] written_word_bits [OF s] by blast
qed

text \<open>An encoding as documented, for the witnesses.\<close>

primrec ex_reg64 :: "reg64 \<Rightarrow> u32" where
  "ex_reg64 q_r8 = 0x10000000" | "ex_reg64 q_r9 = 0x10001000" | "ex_reg64 q_r10 = 0x10002000"
| "ex_reg64 q_r11 = 0x10003000" | "ex_reg64 q_r12 = 0x10004000" | "ex_reg64 q_r13 = 0x10005000"
| "ex_reg64 q_r14 = 0x10006000" | "ex_reg64 q_r15 = 0x10007000" | "ex_reg64 q_rax = 0x10008000"
| "ex_reg64 q_rbx = 0x10009000" | "ex_reg64 q_rcx = 0x1000a000" | "ex_reg64 q_rdx = 0x1000b000"
| "ex_reg64 q_rsi = 0x1000c000" | "ex_reg64 q_rdi = 0x1000d000" | "ex_reg64 q_rbp = 0x1000e000"
| "ex_reg64 q_rsp = 0x1000f000" | "ex_reg64 q_rip = 0x10010000" | "ex_reg64 q_flags = 0x10011000"
| "ex_reg64 q_fs = 0x10012000" | "ex_reg64 q_gs = 0x10013000"

primrec ex_reg32 :: "reg32 \<Rightarrow> u32" where
  "ex_reg32 d_r8d = 0x10014f00" | "ex_reg32 d_r9d = 0x10015f00" | "ex_reg32 d_r10d = 0x10016f00"
| "ex_reg32 d_r11d = 0x10017f00" | "ex_reg32 d_r12d = 0x10018f00" | "ex_reg32 d_r13d = 0x10019f00"
| "ex_reg32 d_r14d = 0x1001af00" | "ex_reg32 d_r15d = 0x1001bf00" | "ex_reg32 d_eax = 0x1001cf00"
| "ex_reg32 d_ebx = 0x1001df00" | "ex_reg32 d_ecx = 0x1001ef00" | "ex_reg32 d_edx = 0x1001ff00"
| "ex_reg32 d_esi = 0x10020f00" | "ex_reg32 d_edi = 0x10021f00" | "ex_reg32 d_ebp = 0x10022f00"
| "ex_reg32 d_esp = 0x10023f00"

primrec ex_reg16 :: "reg16 \<Rightarrow> u32" where
  "ex_reg16 w_r8w = 0x10024300" | "ex_reg16 w_r9w = 0x10025300" | "ex_reg16 w_r10w = 0x10026300"
| "ex_reg16 w_r11w = 0x10027300" | "ex_reg16 w_r12w = 0x10028300" | "ex_reg16 w_r13w = 0x10029300"
| "ex_reg16 w_r14w = 0x1002a300" | "ex_reg16 w_r15w = 0x1002b300" | "ex_reg16 w_ax = 0x1002c300"
| "ex_reg16 w_bx = 0x1002d300" | "ex_reg16 w_cx = 0x1002e300" | "ex_reg16 w_dx = 0x1002f300"
| "ex_reg16 w_si = 0x10030300" | "ex_reg16 w_di = 0x10031300" | "ex_reg16 w_bp = 0x10032300"
| "ex_reg16 w_sp = 0x10033300"

primrec ex_reg8 :: "reg8 \<Rightarrow> u32" where
  "ex_reg8 b_r8b = 0x10034100" | "ex_reg8 b_r9b = 0x10035100" | "ex_reg8 b_r10b = 0x10036100"
| "ex_reg8 b_r11b = 0x10037100" | "ex_reg8 b_r12b = 0x10038100" | "ex_reg8 b_r13b = 0x10039100"
| "ex_reg8 b_r14b = 0x1003a100" | "ex_reg8 b_r15b = 0x1003b100" | "ex_reg8 b_al = 0x1003c100"
| "ex_reg8 b_bl = 0x1003d100" | "ex_reg8 b_cl = 0x1003e100" | "ex_reg8 b_dl = 0x1003f100"
| "ex_reg8 b_sil = 0x10040100" | "ex_reg8 b_dil = 0x10041100" | "ex_reg8 b_bpl = 0x10042100"
| "ex_reg8 b_spl = 0x10043100"

primrec ex_reg_flag :: "reg_flag \<Rightarrow> u32" where
  "ex_reg_flag f_cf = 0x18140400" | "ex_reg_flag f_pf = 0x18140402" | "ex_reg_flag f_af = 0x18140404"
| "ex_reg_flag f_zf = 0x18140406" | "ex_reg_flag f_sf = 0x18140407" | "ex_reg_flag f_tf = 0x18140408"
| "ex_reg_flag f_df = 0x1814040a" | "ex_reg_flag f_of = 0x1814040b" | "ex_reg_flag f_rf = 0x18140410"

primrec ex_id :: "x86_reg \<Rightarrow> u32" where
  "ex_id (Reg64 r) = ex_reg64 r"
| "ex_id (Reg32 r) = ex_reg32 r"
| "ex_id (Reg16 r) = ex_reg16 r"
| "ex_id (Reg8 r) = ex_reg8 r"
| "ex_id (RegFlag r) = ex_reg_flag r"

definition ex_dapi :: dapi where
  "ex_dapi = \<lparr>reg_id = ex_id, D_REG = 0xf00, L_REG = 0x100, BIT = 0x400, FLAG = 0x140000, Arch_x86_64 = 0x18000000\<rparr>"

lemma distinct_increasing: "successively (<) xs \<Longrightarrow> distinct (xs :: u32 list)"
  using strict_sorted_iff [of xs] successively_conv_sorted_wrt [of "(<) :: u32 \<Rightarrow> u32 \<Rightarrow> bool" xs]
  by (auto intro: transpI)

lemma ex_dapi_ok: "dapi_ok ex_dapi"
proof -
  have "successively (<) (map (\<lambda>(r, i, sz). reg_id ex_dapi r) DyinstEncoding)"
    by (simp add: table_defs ex_dapi_def)
  moreover have "list_all (\<lambda>(r, i, sz). i < PTREGS_REG_TOTAL \<longrightarrow> reg_id ex_dapi r AND 0xf00 = part_nibble sz) DyinstEncoding"
    by (simp add: table_defs ex_dapi_def ptridx_defs PTREGS_REG_TOTAL_def part_nibble_def)
  ultimately show ?thesis using distinct_increasing unfolding dapi_ok_def by (simp add: ex_dapi_def)
qed

lemma ex_flags_ok: "flags_ok ex_dapi"
  by (simp add: flags_ok_def flag_bits_def is_flag_def ex_dapi_def)

definition ex_cpu :: "store \<times> SYCPUState" where
  "ex_cpu = new_SYCPUState ex_dapi (replicate 32 0) (replicate 32 0) \<lparr>heap = \<lambda>_. new_cell 0 0 None, fresh = 0\<rparr>"

lemma ex_cpu_wf: "cpu_wf (fst ex_cpu) (snd ex_cpu)"
  unfolding ex_cpu_def by (rule new_cpu_wf) simp

lemma ex_cpu_regs: "regs_ok ex_dapi (snd ex_cpu)"
  unfolding ex_cpu_def by (rule new_regs_ok) (use ex_dapi_ok in \<open>simp add: dapi_ok_def\<close>)

lemma saved_examples: "saved_reg x86_rax 10 8" "saved_reg x86_eax 10 4" "saved_reg x86_al 10 1"
  by (simp_all add: saved_reg_def DyinstEncoding_def regs_64_def regs_32_def regs_8_def RAX_PTRIDX_def PTREGS_REG_TOTAL_def)

theorem writeRegister_ok_witness:
  "\<exists>st' C'. writeRegister ex_dapi (fst ex_cpu) (snd ex_cpu) \<lparr>rv_indx = ex_id x86_eax, rv_size = 4, rv_bsym = True,
      rv_isSymList = False, rv_i64 = 5, rv_expr = Some (UDefExpr None), rv_symcellPtr = None\<rparr> = Inr (st', C', True) \<and>
    cpu_wf st' C' \<and> bytes_of (st', m_symList C' ! 10) 3 = Some (UDefExpr None, 3)"
  using writeRegister_ok [OF ex_dapi_ok ex_cpu_regs saved_examples(2) ex_cpu_wf, of "\<lparr>rv_indx = ex_id x86_eax, rv_size = 4,
      rv_bsym = True, rv_isSymList = False, rv_i64 = 5, rv_expr = Some (UDefExpr None), rv_symcellPtr = None\<rparr>"]
  by (auto simp: ex_dapi_def UDefExpr_def simp del: ex_id.simps)

text \<open>C34. Registers that share a word see each other's bytes: after an expression is written to one of
  them, reading any register of the same word gives, byte by byte, the expression written in the
  bytes of the register written, and what was symbolic before in the others; a byte that is neither is the
  byte of the number returned. That number has, bit by bit, what was written where the two registers keep their numbers in
  the same bits of the word, and the bits of the older word elsewhere; a register of one byte keeps its number in bits 8 to 15.\<close>

theorem register_aliasing:
  assumes "dapi_ok D" "regs_ok D C" "saved_reg r i n" "saved_reg q i k" "cpu_wf st C"
    and "rv_indx V = reg_id D r" "rv_size V = n" "\<not> rv_isSymList V" "rv_bsym V" "rv_expr V = Some e"
    and "rv_indx U = reg_id D q" "rv_size U = k" "\<not> rv_isSymList U"
  shows "\<exists>st' C' st'' c e'. writeRegister D st C V = Inr (st', C', True) \<and>
    readRegister D st' C' U = Inr (st'', U\<lparr>rv_bsym := True, rv_i64 := c, rv_expr := Some e'\<rparr>, True) \<and>
    reads_as e' (int (unat k)) (or_concrete (\<lambda>x. if 0 \<le> x \<and> x < int (unat n) then Some (byte_ref e x)
       else bytes_of (st, m_symList C ! i) x) c) \<and>
    (\<forall>b. bit c b \<longleftrightarrow>
      (if 8 * unat k \<le> b then bit (rv_i64 U) b
       else if conc_pos n \<le> conc_pos k + b \<and> conc_pos k + b < conc_pos n + 8 * unat n
       then bit (rv_i64 V) (conc_pos k + b - conc_pos n) else bit (m_ArrRegs C ! i) (conc_pos k + b)))"
proof -
  obtain st' C' where w: "writeRegister D st C V = Inr (st', C', True)" "cpu_wf st' C'" "m_Regs C' = m_Regs C"
    "m_ArrRegs C' = (m_ArrRegs C)[i := written_word n (rv_i64 V) (m_ArrRegs C ! i)]"
    "\<forall>j < 32. bytes_of (st', m_symList C' ! j) =
      (if j = i then (\<lambda>x. if 0 \<le> x \<and> x < int (unat n) then map_option (\<lambda>e. byte_ref e x) (Some e)
         else bytes_of (st, m_symList C ! i) x) else bytes_of (st, m_symList C ! j))"
    using writeRegister_spec [OF assms(1-3,5-8), of "Some e"] assms(9,10) by auto
  have s: "n \<in> {1, 2, 4, 8}" "k \<in> {1, 2, 4, 8}" and i: "i < 32"
    using saved_reg_size [OF assms(3)] saved_reg_size [OF assms(4)] by simp_all
  then have nk: "0 < int (unat n)" "0 < int (unat k)" by auto
  have b: "bytes_of (st', m_symList C' ! i) = (\<lambda>x. if 0 \<le> x \<and> x < int (unat n) then Some (byte_ref e x)
       else bytes_of (st, m_symList C ! i) x)" using w(5) i by (simp cong: if_cong)
  have ro: "regs_ok D C'" using assms(2) w(3) by (simp add: regs_ok_def)
  have ex: "\<exists>x. 0 \<le> x \<and> x < int (unat k) \<and> bytes_of (st', m_symList C' ! i) x \<noteq> None"
    unfolding b by (rule exI [of _ 0]) (use nk in simp)
  define c where "c = read_word k (m_ArrRegs C' ! i) (rv_i64 U)"
  obtain st'' e' where g: "readRegister D st' C' U = Inr (st'', U\<lparr>rv_bsym := True, rv_i64 := c, rv_expr := Some e'\<rparr>, True)"
    "reads_as e' (int (unat k)) (or_concrete (bytes_of (st', m_symList C' ! i)) c)"
    using readRegister_spec [OF assms(1) ro assms(4) w(2) assms(11-13)] unfolding if_P [OF ex] c_def by blast
  have "m_ArrRegs C' ! i = written_word n (rv_i64 V) (m_ArrRegs C ! i)" using w(4) i cpu_wfD(1) [OF assms(5)] by simp
  then have "bit c x \<longleftrightarrow>
      (if 8 * unat k \<le> x then bit (rv_i64 U) x
       else if conc_pos n \<le> conc_pos k + x \<and> conc_pos k + x < conc_pos n + 8 * unat n
       then bit (rv_i64 V) (conc_pos k + x - conc_pos n) else bit (m_ArrRegs C ! i) (conc_pos k + x))" for x
    by (simp add: c_def read_word_bits [OF s(2)] written_word_bits [OF s(1)])
  then show ?thesis using w(1) g unfolding b by blast
qed

theorem register_aliasing_witness:
  "\<exists>st' C' st'' c e'. writeRegister ex_dapi (fst ex_cpu) (snd ex_cpu) \<lparr>rv_indx = ex_id x86_eax, rv_size = 4, rv_bsym = True,
      rv_isSymList = False, rv_i64 = 5, rv_expr = Some (ConstExpr 5 4 0), rv_symcellPtr = None\<rparr> = Inr (st', C', True) \<and>
    readRegister ex_dapi st' C' \<lparr>rv_indx = ex_id x86_rax, rv_size = 8, rv_bsym = False,
      rv_isSymList = False, rv_i64 = 0, rv_expr = None, rv_symcellPtr = None\<rparr> =
    Inr (st'', \<lparr>rv_indx = ex_id x86_rax, rv_size = 8, rv_bsym = True,
      rv_isSymList = False, rv_i64 = c, rv_expr = Some e', rv_symcellPtr = None\<rparr>, True) \<and> bit c 0 \<and> \<not> bit c 1"
proof -
  let ?V = "\<lparr>rv_indx = ex_id x86_eax, rv_size = 4, rv_bsym = True, rv_isSymList = False, rv_i64 = 5,
        rv_expr = Some (ConstExpr 5 4 0), rv_symcellPtr = None\<rparr>"
  let ?U = "\<lparr>rv_indx = ex_id x86_rax, rv_size = 8, rv_bsym = False, rv_isSymList = False, rv_i64 = 0, rv_expr = None, rv_symcellPtr = None\<rparr>"
  obtain st' C' st'' c e' where r: "writeRegister ex_dapi (fst ex_cpu) (snd ex_cpu) ?V = Inr (st', C', True)"
    "readRegister ex_dapi st' C' ?U = Inr (st'', ?U\<lparr>rv_bsym := True, rv_i64 := c, rv_expr := Some e'\<rparr>, True)"
    and c: "\<forall>b. bit c b \<longleftrightarrow> (if 8 * unat (8 :: u32) \<le> b then bit (rv_i64 ?U) b
       else if conc_pos 4 \<le> conc_pos 8 + b \<and> conc_pos 8 + b < conc_pos 4 + 8 * unat (4 :: u32)
       then bit (rv_i64 ?V) (conc_pos 8 + b - conc_pos 4) else bit (m_ArrRegs (snd ex_cpu) ! 10) (conc_pos 8 + b))"
    using register_aliasing [OF ex_dapi_ok ex_cpu_regs saved_examples(2,1) ex_cpu_wf, of ?V "ConstExpr 5 4 0" ?U]
    by (simp add: ex_dapi_def del: ex_id.simps split del: if_split) blast
  have "bit c 0" "\<not> bit c 1" using c [rule_format, of 0] c [rule_format, of 1]
    by (simp_all add: conc_pos_def bit_iff_odd_drop_bit drop_bit_eq_div)
  then show ?thesis using r by auto
qed

text \<open>C33. Reading a register reports it symbolic exactly when one of its bytes is, and returns the
  symbolic bytes of its word where there are some and, elsewhere, the bytes of the number it returns: the low bits of the word, as
  many as the register has, but bits 8 to 15 for a register of one byte. The upper bits of the number stay those of the value given.\<close>

theorem readRegister_ok:
  assumes "dapi_ok D" "regs_ok D C" "saved_reg r i sz" "cpu_wf st C"
    and "rv_indx V = reg_id D r" "rv_size V = sz" "\<not> rv_isSymList V"
  shows "\<exists>c. (\<forall>b. bit c b \<longleftrightarrow> (if b < 8 * unat sz then bit (m_ArrRegs C ! i) (conc_pos sz + b) else bit (rv_i64 V) b)) \<and>
    (if \<exists>k. 0 \<le> k \<and> k < int (unat sz) \<and> bytes_of (st, m_symList C ! i) k \<noteq> None
     then \<exists>st' e. readRegister D st C V = Inr (st', V\<lparr>rv_bsym := True, rv_i64 := c, rv_expr := Some e\<rparr>, True) \<and>
       cpu_wf st' C \<and> (\<forall>j < 32. bytes_of (st', m_symList C ! j) = bytes_of (st, m_symList C ! j)) \<and>
       reads_as e (int (unat sz)) (or_concrete (bytes_of (st, m_symList C ! i)) c)
     else readRegister D st C V = Inr (st, V\<lparr>rv_bsym := False, rv_isSymList := False, rv_i64 := c\<rparr>, True))"
proof -
  have s: "sz \<in> {1, 2, 4, 8}" using saved_reg_size [OF assms(3)] by simp
  show ?thesis
    by (rule exI [of _ "read_word sz (m_ArrRegs C ! i) (rv_i64 V)"], rule conjI)
      (use read_word_bits [OF s] in simp, rule readRegister_spec [OF assms])
qed

lemma ex_cpu_concrete: "i < 32 \<Longrightarrow> bytes_of (fst ex_cpu, m_symList (snd ex_cpu) ! i) k = None"
  using new_lists_ok [of 32 "\<lparr>heap = \<lambda>_. new_cell 0 0 None, fresh = 0\<rparr>"]
  by (simp add: ex_cpu_def new_SYCPUState_def split_beta DYINST_REG_TOTAL_def)

theorem readRegister_ok_witness:
  "\<exists>x. readRegister ex_dapi (fst ex_cpu) (snd ex_cpu) \<lparr>rv_indx = ex_id x86_eax, rv_size = 4, rv_bsym = True,
      rv_isSymList = False, rv_i64 = 0, rv_expr = None, rv_symcellPtr = None\<rparr> =
    Inr (fst ex_cpu, \<lparr>rv_indx = ex_id x86_eax, rv_size = 4, rv_bsym = False,
      rv_isSymList = False, rv_i64 = x, rv_expr = None, rv_symcellPtr = None\<rparr>, True)"
  using readRegister_ok [OF ex_dapi_ok ex_cpu_regs saved_examples(2) ex_cpu_wf, of "\<lparr>rv_indx = ex_id x86_eax, rv_size = 4,
      rv_bsym = True, rv_isSymList = False, rv_i64 = 0, rv_expr = None, rv_symcellPtr = None\<rparr>"] ex_cpu_concrete [of 10]
  by (auto simp: ex_dapi_def simp del: ex_id.simps)

text \<open>A concrete write to a register of one byte (al, cl, spl, r8b, ...) changes the second byte of
  the word, and leaves the first byte, which the register is, as it was: the test that tells al from
  ah shifts a constant of Dyninst that is already in place, and never holds.\<close>

theorem byte_register_write:
  assumes "dapi_ok D" "regs_ok D C" "saved_reg r i 1" "cpu_wf st C"
    and "rv_indx V = reg_id D r" "rv_size V = 1" "\<not> rv_isSymList V" "\<not> rv_bsym V"
  shows "\<exists>st' C'. writeRegister D st C V = Inr (st', C', True) \<and>
    take_bit 8 (m_ArrRegs C' ! i) = take_bit 8 (m_ArrRegs C ! i) \<and>
    take_bit 8 (drop_bit 8 (m_ArrRegs C' ! i)) = take_bit 8 (rv_i64 V)"
proof -
  obtain st' C' where w: "writeRegister D st C V = Inr (st', C', True)"
    "m_ArrRegs C' = (m_ArrRegs C)[i := written_word 1 (rv_i64 V) (m_ArrRegs C ! i)]"
    using writeRegister_spec [OF assms(1-7), of None] assms(8) by auto
  have "i < length (m_ArrRegs C)" using saved_reg_size [OF assms(3)] cpu_wfD(1) [OF assms(4)] by simp
  then have a: "m_ArrRegs C' ! i = written_word 1 (rv_i64 V) (m_ArrRegs C ! i)" using w(2) by simp
  have "(0xff :: u64) = mask 8" by (simp add: mask_eq_exp_minus_1)
  then have "take_bit 8 (m_ArrRegs C' ! i) = take_bit 8 (m_ArrRegs C ! i) \<and>
    take_bit 8 (drop_bit 8 (m_ArrRegs C' ! i)) = take_bit 8 (rv_i64 V)"
    unfolding a written_word_def set_low_def by (auto simp: bit_eq_iff bit_simps)
  then show ?thesis using w(1) by blast
qed

theorem byte_register_write_witness:
  "\<exists>st' C'. writeRegister ex_dapi (fst ex_cpu) (snd ex_cpu) \<lparr>rv_indx = ex_id x86_al, rv_size = 1, rv_bsym = False,
      rv_isSymList = False, rv_i64 = 0x7f, rv_expr = None, rv_symcellPtr = None\<rparr> = Inr (st', C', True) \<and>
    take_bit 8 (drop_bit 8 (m_ArrRegs C' ! 10)) = 0x7f"
  using byte_register_write [OF ex_dapi_ok ex_cpu_regs saved_examples(3) ex_cpu_wf, of "\<lparr>rv_indx = ex_id x86_al, rv_size = 1,
      rv_bsym = False, rv_isSymList = False, rv_i64 = 0x7f, rv_expr = None, rv_symcellPtr = None\<rparr>"]
  by (auto simp: ex_dapi_def simp del: ex_id.simps)

text \<open>A write to a 32-bit register keeps the upper half of the 64-bit register it is part of,
  concrete and symbolic: the processor would clear it.\<close>

theorem write32_keeps_upper_half:
  assumes "dapi_ok D" "regs_ok D C" "saved_reg r i 4" "cpu_wf st C"
    and "rv_indx V = reg_id D r" "rv_size V = 4" "\<not> rv_isSymList V" "rv_bsym V \<longrightarrow> rv_expr V \<noteq> None"
  shows "\<exists>st' C'. writeRegister D st C V = Inr (st', C', True) \<and>
    drop_bit 32 (m_ArrRegs C' ! i) = drop_bit 32 (m_ArrRegs C ! i) \<and>
    take_bit 32 (m_ArrRegs C' ! i) = take_bit 32 (rv_i64 V) \<and>
    (\<forall>k \<ge> 4. bytes_of (st', m_symList C' ! i) k = bytes_of (st, m_symList C ! i) k)"
proof -
  obtain st' C' where w: "writeRegister D st C V = Inr (st', C', True)"
    "m_ArrRegs C' = (m_ArrRegs C)[i := written_word 4 (rv_i64 V) (m_ArrRegs C ! i)]"
    "\<forall>j < 32. bytes_of (st', m_symList C' ! j) =
      (if j = i then (\<lambda>x. if 0 \<le> x \<and> x < int (unat (4 :: u32)) then map_option (\<lambda>e. byte_ref e x) (if rv_bsym V then rv_expr V else None)
         else bytes_of (st, m_symList C ! i) x) else bytes_of (st, m_symList C ! j))"
    using writeRegister_spec [OF assms(1-7) refl assms(8)] by blast
  have "i < length (m_ArrRegs C)" and i: "i < 32" using saved_reg_size [OF assms(3)] cpu_wfD(1) [OF assms(4)] by simp_all
  then have a: "m_ArrRegs C' ! i = set_low 4 (rv_i64 V) (m_ArrRegs C ! i)" using w(2) by (simp add: written_word_def)
  have "drop_bit 32 (m_ArrRegs C' ! i) = drop_bit 32 (m_ArrRegs C ! i) \<and>
    take_bit 32 (m_ArrRegs C' ! i) = take_bit 32 (rv_i64 V)"
  proof -
    have "n < 32" if "bit (m_ArrRegs C ! i) (32 + n)" for n using bit_imp_le_length [OF that] by simp
    then show ?thesis unfolding a set_low_def by (auto simp: bit_eq_iff bit_simps)
  qed
  then show ?thesis using w(1,3) i by (intro exI [of _ st'] exI [of _ C']) auto
qed

theorem write32_keeps_upper_half_witness:
  "\<exists>st' C'. writeRegister ex_dapi (fst ex_cpu) (snd ex_cpu) \<lparr>rv_indx = ex_id x86_eax, rv_size = 4, rv_bsym = False,
      rv_isSymList = False, rv_i64 = 9, rv_expr = None, rv_symcellPtr = None\<rparr> = Inr (st', C', True) \<and>
    drop_bit 32 (m_ArrRegs C' ! 10) = drop_bit 32 (m_ArrRegs (snd ex_cpu) ! 10)"
  using write32_keeps_upper_half [OF ex_dapi_ok ex_cpu_regs saved_examples(2) ex_cpu_wf, of "\<lparr>rv_indx = ex_id x86_eax, rv_size = 4,
      rv_bsym = False, rv_isSymList = False, rv_i64 = 9, rv_expr = None, rv_symcellPtr = None\<rparr>"]
  by (auto simp: ex_dapi_def simp del: ex_id.simps)

text \<open>Setting a flag to a value and reading any flag back: another flag reads as before, and the
  flag written reads as uncertain if it was uncertain before, whatever it is set to; only otherwise
  does it read as written. Making a flag definite never clears its mark of being symbolic.\<close>

theorem setFlagBit_getFlagBit:
  assumes "flags_ok D" "dapi_ok D" "regs_ok D C" "length (m_ArrRegs C) = 32"
    and "(f, b) \<in> set flag_bits" "(g, c) \<in> set flag_bits"
  shows "\<exists>C'. setFlagBit D C (reg_id D f) v = Inr C' \<and> getFlagBit D C' (reg_id D g) =
    (if g \<noteq> f \<or> getFlagBit D C (reg_id D f) = Inr FLAG_UNCERTAIN then getFlagBit D C (reg_id D g) else Inr v)"
proof -
  obtain R where R: "m_Regs C (reg_id D f) = Some R" by (rule flag_found [OF assms(3,5)])
  obtain S where S: "m_Regs C (reg_id D g) = Some S" by (rule flag_found [OF assms(3,6)])
  have l: "18 < length (m_ArrRegs C)" using assms(4) by simp
  have eq: "reg_id D f = reg_id D g \<longleftrightarrow> f = g"
    using reg_id_inj [OF assms(2)] flag_of_reg [OF assms(5)] flag_of_reg [OF assms(6)] by blast
  have bc: "b = c \<longleftrightarrow> f = g" using flag_bits_inj [of f b g] flag_bits_fun [of f b c] assms(5,6) by blast
  have lt: "b < 31" "c < 31" using flag_bit_less assms(5,6) by auto
  note gf = getFlagBit_ok [OF assms(1,5) R l] and gg = getFlagBit_ok [OF assms(1,6) S l]
  show ?thesis
  proof (cases v)
    case FLAG_UNCERTAIN
    let ?C = "C\<lparr>m_Regs := (m_Regs C)(reg_id D f \<mapsto> R\<lparr>bsym_flag := True\<rparr>)\<rparr>"
    have "getFlagBit D ?C (reg_id D g) = (if g \<noteq> f \<or> getFlagBit D C (reg_id D f) = Inr FLAG_UNCERTAIN
        then getFlagBit D C (reg_id D g) else Inr v)"
      using getFlagBit_ok [OF assms(1,6), of ?C "if f = g then R\<lparr>bsym_flag := True\<rparr> else S"] S R l eq gf gg FLAG_UNCERTAIN
      by (cases "f = g") simp_all
    then show ?thesis using setFlagBit_ok [OF assms(1,5) R l, of v] FLAG_UNCERTAIN by simp
  next
    case FLAG_SET
    let ?C = "C\<lparr>m_ArrRegs := (m_ArrRegs C)[18 := m_ArrRegs C ! 18 OR push_bit b 1]\<rparr>"
    have "bit (m_ArrRegs C ! 18 OR push_bit b 1) c \<longleftrightarrow> f = g \<or> bit (m_ArrRegs C ! 18) c"
      using lt bc by (auto simp: bit_simps)
    then have "getFlagBit D ?C (reg_id D g) = (if g \<noteq> f \<or> getFlagBit D C (reg_id D f) = Inr FLAG_UNCERTAIN
        then getFlagBit D C (reg_id D g) else Inr v)"
      using getFlagBit_ok [OF assms(1,6), of ?C S] S R l gf gg FLAG_SET by (cases "f = g") (simp_all split: if_splits)
    then show ?thesis using setFlagBit_ok [OF assms(1,5) R l, of v] FLAG_SET by simp
  next
    case FLAG_CLEAR
    let ?C = "C\<lparr>m_ArrRegs := (m_ArrRegs C)[18 := m_ArrRegs C ! 18 AND NOT (push_bit b 1)]\<rparr>"
    have "bit (m_ArrRegs C ! 18 AND NOT (push_bit b 1)) c \<longleftrightarrow> f \<noteq> g \<and> bit (m_ArrRegs C ! 18) c"
      using lt bc by (auto simp: bit_simps)
    then have "getFlagBit D ?C (reg_id D g) = (if g \<noteq> f \<or> getFlagBit D C (reg_id D f) = Inr FLAG_UNCERTAIN
        then getFlagBit D C (reg_id D g) else Inr v)"
      using getFlagBit_ok [OF assms(1,6), of ?C S] S R l gf gg FLAG_CLEAR by (cases "f = g") (simp_all split: if_splits)
    then show ?thesis using setFlagBit_ok [OF assms(1,5) R l, of v] FLAG_CLEAR by simp
  qed
qed

theorem setFlagBit_getFlagBit_witness:
  "\<exists>C'. setFlagBit ex_dapi (snd ex_cpu) (ex_id x86_zf) FLAG_SET = Inr C' \<and>
    getFlagBit ex_dapi C' (ex_id x86_cf) = getFlagBit ex_dapi (snd ex_cpu) (ex_id x86_cf)"
  using setFlagBit_getFlagBit [OF ex_flags_ok ex_dapi_ok ex_cpu_regs cpu_wfD(1) [OF ex_cpu_wf], of x86_zf 6 x86_cf 0 FLAG_SET]
  by (simp add: flag_bits_def ex_dapi_def del: ex_id.simps)

text \<open>The bitmaps of symbolic bytes are never initialised: if the memory the constructor gets has a
  bit set there, reading the register as an expression asks an empty list for its cells and
  dereferences a null pointer.\<close>

theorem uninitialised_bitmap_read:
  assumes "dapi_ok D" "saved_reg r i sz" "length arr = 32" "length bits = 32" "k < unat sz" "bit (bits ! i) k"
    and "rv_indx V = reg_id D r" "rv_size V = sz"
  shows "(let (st', C) = new_SYCPUState D arr bits st in readRegister D st' C V) = Inl NullDeref"
proof -
  define C where "C = snd (new_SYCPUState D arr bits st)"
  define st' where "st' = fst (new_SYCPUState D arr bits st)"
  have ro: "regs_ok D C" unfolding C_def by (rule new_regs_ok) (use assms(1) in \<open>simp add: dapi_ok_def\<close>)
  obtain R where R: "idxToReg C (reg_id D r) = Inr R" "indx R = reg_id D r" "reg_size R = sz" "slot R = i"
    "RegToSubIndex D R = Inr (part_of sz)" "\<not> is_first_byte D R" by (rule reg_found [OF assms(1) ro assms(2)])
  have s: "sz \<in> {1, 2, 4, 8}" and i: "i < 32" using saved_reg_size [OF assms(2)] by auto
  have C: "m_ArrRegs C = arr" "m_symBitmap C = bits" "m_symList C = snd (new_lists 32 st)" "st' = fst (new_lists 32 st)"
    by (simp_all add: C_def st'_def new_SYCPUState_def split_beta DYINST_REG_TOTAL_def)
  note L = new_lists_ok [of 32 st, folded C(3,4)]
  have il: "i < length (m_symList C)" using L i by simp
  have "bit (bits ! i AND part_mask (part_of sz)) k" using assms(5,6) bit_part_mask [OF s] by (simp add: bit_simps)
  then have "bits ! i AND part_mask (part_of sz) \<noteq> 0" by (metis bit_0_eq bot_apply bot_bool_def)
  then have b: "isSYReg_part C R (part_of sz) = Inr True" using R(4) C(2) assms(4) i by (simp add: isSYReg_part_def arr_get_def)
  have fam: "family_ok st' (m_symList C)" using L by simp
  note ok = family_okD(2) [OF fam il]
  have "contents st' (cells_of (st', m_symList C ! i)) = (\<lambda>x. None)" using slm_wfI [OF ok] L i by simp
  then have "GetCellList st' (m_symList C ! i) 0 (int (unat sz)) = Inl NullDeref"
    using GetCellList_ok [OF ok reg_range [OF s]] by simp
  then have "readRegister D st' C V = Inl NullDeref"
    using R assms(7,8) b part_range [OF s] il cpu_readConcreteValue_ok [OF R(3) s R(4) _ R(6), of C "rv_i64 V"] i C(1) assms(3)
    by (simp add: readRegister_def arr_get_def GetExpr_def Let_def)
  then show ?thesis by (simp add: C_def st'_def split_beta)
qed

theorem uninitialised_bitmap_read_witness:
  "(let (st', C) = new_SYCPUState ex_dapi (replicate 32 0) (replicate 32 1) (fst ex_cpu) in readRegister ex_dapi st' C
      \<lparr>rv_indx = ex_id x86_eax, rv_size = 4, rv_bsym = False, rv_isSymList = False, rv_i64 = 0,
       rv_expr = None, rv_symcellPtr = None\<rparr>) = Inl NullDeref"
  by (rule uninitialised_bitmap_read [OF ex_dapi_ok saved_examples(2), of _ _ 0])
    (simp_all add: ex_dapi_def bit_1_iff del: ex_id.simps)

end
