(* ===== verification/Entry_Id.thy ===== *)
theory Entry_Id
  imports Krover_Prelude
begin

text \<open>
  The identifiers of instructions (entryID of Dyninst) that the code names, with their names there,
  one datatype for each family and their sum; the large families are sums again, and the names are abbreviations. The numbers Dyninst gives them are not in the repository: they are an
  argument of the definitions that use them (instrAttr in EFlagsManager.cpp is indexed by them).
\<close>

datatype jcc_id =
    e_ja | e_jb | e_jb_jnaej_j | e_jbe | e_jcxz_jec | e_je | e_jg | e_jge | e_jl | e_jle | e_jmp
  | e_jmpe | e_jmpq | e_jnb | e_jnb_jae_j | e_jnbe | e_jne | e_jnl | e_jnle | e_jno | e_jnp
  | e_jns | e_jnz | e_jo | e_jp | e_jrcxz | e_js | e_jz

datatype cmov_id =
    e_cmovbe | e_cmove | e_cmovnae | e_cmovnb | e_cmovnbe | e_cmovne | e_cmovng | e_cmovnge
  | e_cmovnl | e_cmovnle | e_cmovno | e_cmovns | e_cmovo | e_cmovpe | e_cmovpo | e_cmovs

datatype set_id =
    e_setb | e_setbe | e_setl | e_setle | e_setnb | e_setnbe | e_setnl | e_setnle | e_setno
  | e_setnp | e_setns | e_setnz | e_seto | e_setp | e_sets | e_setz

datatype arith_id =
    a_adc | a_add | a_cmp | a_cmpw | a_cmpxch | a_cmpxch8b | a_dec | a_decl | a_div | a_idiv
  | a_imul | a_inc | a_mul | a_neg | a_sbb | a_sbbl | a_sub | a_xadd

datatype bits_id =
    b_and | b_bsf | b_bsr | b_bt | b_btc | b_btr | b_bts | b_not | b_or | b_popcnt | b_rol | b_rolb
  | b_ror | b_sar | b_sarb | b_shl_sal | b_shld | b_shr | b_shrb | b_shrd | b_test | b_tzcnt | b_xor

datatype state_id =
    s_popf | s_popfd | s_popfq | s_rdrand | s_sahf | s_salc | s_scas | s_scasb | s_scasd | s_scasw
  | s_sysret

datatype alu_id = Arith arith_id | Bits bits_id | State state_id

abbreviation e_adc :: alu_id where "e_adc \<equiv> Arith a_adc"
abbreviation e_add :: alu_id where "e_add \<equiv> Arith a_add"
abbreviation e_cmp :: alu_id where "e_cmp \<equiv> Arith a_cmp"
abbreviation e_cmpw :: alu_id where "e_cmpw \<equiv> Arith a_cmpw"
abbreviation e_cmpxch :: alu_id where "e_cmpxch \<equiv> Arith a_cmpxch"
abbreviation e_cmpxch8b :: alu_id where "e_cmpxch8b \<equiv> Arith a_cmpxch8b"
abbreviation e_dec :: alu_id where "e_dec \<equiv> Arith a_dec"
abbreviation e_decl :: alu_id where "e_decl \<equiv> Arith a_decl"
abbreviation e_div :: alu_id where "e_div \<equiv> Arith a_div"
abbreviation e_idiv :: alu_id where "e_idiv \<equiv> Arith a_idiv"
abbreviation e_imul :: alu_id where "e_imul \<equiv> Arith a_imul"
abbreviation e_inc :: alu_id where "e_inc \<equiv> Arith a_inc"
abbreviation e_mul :: alu_id where "e_mul \<equiv> Arith a_mul"
abbreviation e_neg :: alu_id where "e_neg \<equiv> Arith a_neg"
abbreviation e_sbb :: alu_id where "e_sbb \<equiv> Arith a_sbb"
abbreviation e_sbbl :: alu_id where "e_sbbl \<equiv> Arith a_sbbl"
abbreviation e_sub :: alu_id where "e_sub \<equiv> Arith a_sub"
abbreviation e_xadd :: alu_id where "e_xadd \<equiv> Arith a_xadd"
abbreviation e_and :: alu_id where "e_and \<equiv> Bits b_and"
abbreviation e_bsf :: alu_id where "e_bsf \<equiv> Bits b_bsf"
abbreviation e_bsr :: alu_id where "e_bsr \<equiv> Bits b_bsr"
abbreviation e_bt :: alu_id where "e_bt \<equiv> Bits b_bt"
abbreviation e_btc :: alu_id where "e_btc \<equiv> Bits b_btc"
abbreviation e_btr :: alu_id where "e_btr \<equiv> Bits b_btr"
abbreviation e_bts :: alu_id where "e_bts \<equiv> Bits b_bts"
abbreviation e_not :: alu_id where "e_not \<equiv> Bits b_not"
abbreviation e_or :: alu_id where "e_or \<equiv> Bits b_or"
abbreviation e_popcnt :: alu_id where "e_popcnt \<equiv> Bits b_popcnt"
abbreviation e_rol :: alu_id where "e_rol \<equiv> Bits b_rol"
abbreviation e_rolb :: alu_id where "e_rolb \<equiv> Bits b_rolb"
abbreviation e_ror :: alu_id where "e_ror \<equiv> Bits b_ror"
abbreviation e_sar :: alu_id where "e_sar \<equiv> Bits b_sar"
abbreviation e_sarb :: alu_id where "e_sarb \<equiv> Bits b_sarb"
abbreviation e_shl_sal :: alu_id where "e_shl_sal \<equiv> Bits b_shl_sal"
abbreviation e_shld :: alu_id where "e_shld \<equiv> Bits b_shld"
abbreviation e_shr :: alu_id where "e_shr \<equiv> Bits b_shr"
abbreviation e_shrb :: alu_id where "e_shrb \<equiv> Bits b_shrb"
abbreviation e_shrd :: alu_id where "e_shrd \<equiv> Bits b_shrd"
abbreviation e_test :: alu_id where "e_test \<equiv> Bits b_test"
abbreviation e_tzcnt :: alu_id where "e_tzcnt \<equiv> Bits b_tzcnt"
abbreviation e_xor :: alu_id where "e_xor \<equiv> Bits b_xor"
abbreviation e_popf :: alu_id where "e_popf \<equiv> State s_popf"
abbreviation e_popfd :: alu_id where "e_popfd \<equiv> State s_popfd"
abbreviation e_popfq :: alu_id where "e_popfq \<equiv> State s_popfq"
abbreviation e_rdrand :: alu_id where "e_rdrand \<equiv> State s_rdrand"
abbreviation e_sahf :: alu_id where "e_sahf \<equiv> State s_sahf"
abbreviation e_salc :: alu_id where "e_salc \<equiv> State s_salc"
abbreviation e_scas :: alu_id where "e_scas \<equiv> State s_scas"
abbreviation e_scasb :: alu_id where "e_scasb \<equiv> State s_scasb"
abbreviation e_scasd :: alu_id where "e_scasd \<equiv> State s_scasd"
abbreviation e_scasw :: alu_id where "e_scasw \<equiv> State s_scasw"
abbreviation e_sysret :: alu_id where "e_sysret \<equiv> State s_sysret"

datatype move_id =
    m_mov | m_movabs | m_movbe | m_movd | m_movq | m_movsb | m_movsd | m_movsl | m_movslq | m_movsw
  | m_movsx | m_movsxd | m_movzx | m_movnti

datatype packed_id =
    p_movapd | p_movaps | p_movddup | p_movhpd | p_movhps | p_movhps_movlhps | p_movlpd | p_movlps
  | p_movlps_movhlps | p_movmskpd | p_movmskps | p_movntpd | p_movntps | p_movshdup | p_movsldup
  | p_movupd | p_movups

datatype vecmove_id =
    v_movdq2q | v_movdqa | v_movdqu | v_movntdq | v_movntdqa | v_movntq | v_movntsd | v_movntss
  | v_movq2dq | v_movsd_sse | v_movss

datatype mov_id = Move move_id | MovePacked packed_id | MoveVec vecmove_id

abbreviation e_mov :: mov_id where "e_mov \<equiv> Move m_mov"
abbreviation e_movabs :: mov_id where "e_movabs \<equiv> Move m_movabs"
abbreviation e_movbe :: mov_id where "e_movbe \<equiv> Move m_movbe"
abbreviation e_movd :: mov_id where "e_movd \<equiv> Move m_movd"
abbreviation e_movq :: mov_id where "e_movq \<equiv> Move m_movq"
abbreviation e_movsb :: mov_id where "e_movsb \<equiv> Move m_movsb"
abbreviation e_movsd :: mov_id where "e_movsd \<equiv> Move m_movsd"
abbreviation e_movsl :: mov_id where "e_movsl \<equiv> Move m_movsl"
abbreviation e_movslq :: mov_id where "e_movslq \<equiv> Move m_movslq"
abbreviation e_movsw :: mov_id where "e_movsw \<equiv> Move m_movsw"
abbreviation e_movsx :: mov_id where "e_movsx \<equiv> Move m_movsx"
abbreviation e_movsxd :: mov_id where "e_movsxd \<equiv> Move m_movsxd"
abbreviation e_movzx :: mov_id where "e_movzx \<equiv> Move m_movzx"
abbreviation e_movnti :: mov_id where "e_movnti \<equiv> Move m_movnti"
abbreviation e_movapd :: mov_id where "e_movapd \<equiv> MovePacked p_movapd"
abbreviation e_movaps :: mov_id where "e_movaps \<equiv> MovePacked p_movaps"
abbreviation e_movddup :: mov_id where "e_movddup \<equiv> MovePacked p_movddup"
abbreviation e_movhpd :: mov_id where "e_movhpd \<equiv> MovePacked p_movhpd"
abbreviation e_movhps :: mov_id where "e_movhps \<equiv> MovePacked p_movhps"
abbreviation e_movhps_movlhps :: mov_id where "e_movhps_movlhps \<equiv> MovePacked p_movhps_movlhps"
abbreviation e_movlpd :: mov_id where "e_movlpd \<equiv> MovePacked p_movlpd"
abbreviation e_movlps :: mov_id where "e_movlps \<equiv> MovePacked p_movlps"
abbreviation e_movlps_movhlps :: mov_id where "e_movlps_movhlps \<equiv> MovePacked p_movlps_movhlps"
abbreviation e_movmskpd :: mov_id where "e_movmskpd \<equiv> MovePacked p_movmskpd"
abbreviation e_movmskps :: mov_id where "e_movmskps \<equiv> MovePacked p_movmskps"
abbreviation e_movntpd :: mov_id where "e_movntpd \<equiv> MovePacked p_movntpd"
abbreviation e_movntps :: mov_id where "e_movntps \<equiv> MovePacked p_movntps"
abbreviation e_movshdup :: mov_id where "e_movshdup \<equiv> MovePacked p_movshdup"
abbreviation e_movsldup :: mov_id where "e_movsldup \<equiv> MovePacked p_movsldup"
abbreviation e_movupd :: mov_id where "e_movupd \<equiv> MovePacked p_movupd"
abbreviation e_movups :: mov_id where "e_movups \<equiv> MovePacked p_movups"
abbreviation e_movdq2q :: mov_id where "e_movdq2q \<equiv> MoveVec v_movdq2q"
abbreviation e_movdqa :: mov_id where "e_movdqa \<equiv> MoveVec v_movdqa"
abbreviation e_movdqu :: mov_id where "e_movdqu \<equiv> MoveVec v_movdqu"
abbreviation e_movntdq :: mov_id where "e_movntdq \<equiv> MoveVec v_movntdq"
abbreviation e_movntdqa :: mov_id where "e_movntdqa \<equiv> MoveVec v_movntdqa"
abbreviation e_movntq :: mov_id where "e_movntq \<equiv> MoveVec v_movntq"
abbreviation e_movntsd :: mov_id where "e_movntsd \<equiv> MoveVec v_movntsd"
abbreviation e_movntss :: mov_id where "e_movntss \<equiv> MoveVec v_movntss"
abbreviation e_movq2dq :: mov_id where "e_movq2dq \<equiv> MoveVec v_movq2dq"
abbreviation e_movsd_sse :: mov_id where "e_movsd_sse \<equiv> MoveVec v_movsd_sse"
abbreviation e_movss :: mov_id where "e_movss \<equiv> MoveVec v_movss"

datatype sse_id =
    e_addpd | e_addps | e_addsd | e_addss | e_addsubpd | e_addsubps | e_andnpd | e_andnps
  | e_andpd | e_andps | e_divpd | e_divps | e_divsd | e_divss | e_mulpd | e_mulps | e_mulsd
  | e_mulss | e_orpd | e_orps | e_subpd | e_subps | e_subsd | e_subss

datatype misc_id =
    e_cbw | e_cdq | e_cqo | e_cwd | e_cwde | e_cwtl | e_lea | e_pop | e_push | e_rdtsc | e_xchg

datatype entryID =
    Jcc jcc_id | Cmov cmov_id | Setcc set_id | Alu alu_id | Mov mov_id | Sse sse_id | Misc misc_id
  | other_id nat

text \<open>The conditions of x86 on the status flags, one for each group of case labels of the code.\<close>

datatype flag_cond =
    CondAE | CondA | CondBE | CondB | CondGE | CondG | CondLE | CondL | CondE | CondNE
  | CondNS | CondS | CondNO | CondO

text \<open>
  The case labels that the four switches of EFlagsManager.cpp share. None is a label of the
  group that fails an assert (parity, rcxz) or the default, which does the same.
\<close>

primrec jcc_cond :: "jcc_id \<Rightarrow> flag_cond option" where
  "jcc_cond e_ja = Some CondA"
| "jcc_cond e_jb = Some CondB"
| "jcc_cond e_jb_jnaej_j = Some CondB"
| "jcc_cond e_jbe = Some CondBE"
| "jcc_cond e_jcxz_jec = None"
| "jcc_cond e_je = Some CondE"
| "jcc_cond e_jg = Some CondG"
| "jcc_cond e_jge = Some CondGE"
| "jcc_cond e_jl = Some CondL"
| "jcc_cond e_jle = Some CondLE"
| "jcc_cond e_jmp = None"
| "jcc_cond e_jmpe = None"
| "jcc_cond e_jmpq = None"
| "jcc_cond e_jnb = Some CondAE"
| "jcc_cond e_jnb_jae_j = Some CondAE"
| "jcc_cond e_jnbe = Some CondA"
| "jcc_cond e_jne = Some CondNE"
| "jcc_cond e_jnl = Some CondGE"
| "jcc_cond e_jnle = Some CondG"
| "jcc_cond e_jno = Some CondNO"
| "jcc_cond e_jnp = None"
| "jcc_cond e_jns = Some CondNS"
| "jcc_cond e_jnz = Some CondNE"
| "jcc_cond e_jo = Some CondO"
| "jcc_cond e_jp = None"
| "jcc_cond e_jrcxz = None"
| "jcc_cond e_js = Some CondS"
| "jcc_cond e_jz = Some CondE"

primrec cmov_cond :: "cmov_id \<Rightarrow> flag_cond option" where
  "cmov_cond e_cmovbe = Some CondBE"
| "cmov_cond e_cmove = Some CondE"
| "cmov_cond e_cmovnae = Some CondB"
| "cmov_cond e_cmovnb = Some CondAE"
| "cmov_cond e_cmovnbe = Some CondA"
| "cmov_cond e_cmovne = Some CondNE"
| "cmov_cond e_cmovng = Some CondLE"
| "cmov_cond e_cmovnge = Some CondL"
| "cmov_cond e_cmovnl = Some CondGE"
| "cmov_cond e_cmovnle = None"
| "cmov_cond e_cmovno = Some CondNO"
| "cmov_cond e_cmovns = Some CondNS"
| "cmov_cond e_cmovo = Some CondO"
| "cmov_cond e_cmovpe = None"
| "cmov_cond e_cmovpo = None"
| "cmov_cond e_cmovs = Some CondS"

primrec set_cond :: "set_id \<Rightarrow> flag_cond option" where
  "set_cond e_setb = Some CondB"
| "set_cond e_setbe = Some CondBE"
| "set_cond e_setl = Some CondL"
| "set_cond e_setle = Some CondLE"
| "set_cond e_setnb = Some CondAE"
| "set_cond e_setnbe = Some CondA"
| "set_cond e_setnl = Some CondGE"
| "set_cond e_setnle = Some CondG"
| "set_cond e_setno = Some CondNO"
| "set_cond e_setnp = None"
| "set_cond e_setns = Some CondNS"
| "set_cond e_setnz = Some CondNE"
| "set_cond e_seto = Some CondO"
| "set_cond e_setp = None"
| "set_cond e_sets = Some CondS"
| "set_cond e_setz = Some CondE"

primrec switch_cond :: "entryID \<Rightarrow> flag_cond option" where
  "switch_cond (Jcc j) = jcc_cond j"
| "switch_cond (Cmov c) = cmov_cond c"
| "switch_cond (Setcc s) = set_cond s"
| "switch_cond (Alu a) = None"
| "switch_cond (Mov m) = None"
| "switch_cond (Sse x) = None"
| "switch_cond (Misc m) = None"
| "switch_cond (other_id n) = None"

text \<open>DependencyFlagConcreted and GetCondition have one label more, the subtraction with borrow.\<close>

definition switch_cond_sbb :: "entryID \<Rightarrow> flag_cond option" where
  "switch_cond_sbb i = (if i = Alu e_sbb then Some CondB else switch_cond i)"

end
