(* ===== verification/EFlags_Manager.thy ===== *)
theory EFlags_Manager
  imports Cpu_State Entry_Id
begin

text \<open>
  The flags manager (EFlagsManager.h and EFlagsManager.cpp): it remembers the expression of the
  last instruction that changed the status flags, tells whether a conditional instruction can be
  decided from the flags alone, and otherwise turns it into a condition on that expression, which
  joins the path constraint. The numbers of the instructions (argument N) come from Dyninst, the
  verdict on a condition (argument Z3SolveConcritize) from the solver's handler.
\<close>

section \<open>State\<close>

text \<open>
  The set of constraints holds pointers, each to an expression made for it: a list, the last one
  inserted at its end. A null pointer can be in it.
\<close>

record EFlagsManager =
  m_Constraint :: "expr option list"
  m_LastExpr :: "expr option"
  m_LastInstr :: "nat option"
  m_AddrBool :: "u64 \<rightharpoonup> bool"

section \<open>Attributes of the instructions\<close>

definition FLAG_CHANGING_ATTR :: u32 where "FLAG_CHANGING_ATTR = 0x1"
definition FLAG_SETING_ATTR :: u32 where "FLAG_SETING_ATTR = 0x2"
definition CONDITIONAL_EXEC_ATTR :: u32 where "CONDITIONAL_EXEC_ATTR = 0x4"

definition stateChangingInstrList :: "entryID list" where
  "stateChangingInstrList = map Alu [e_adc, e_add, e_cmp, e_cmpw, e_cmpxch, e_cmpxch8b, e_and,
     e_bsf, e_bsr, e_bt, e_btc, e_btr, e_bts, e_dec, e_decl, e_div, e_idiv, e_imul, e_inc, e_neg, e_or,
     e_popcnt, e_popf, e_popfq, e_popfd, e_rdrand, e_rol, e_rolb, e_ror, e_salc, e_sar, e_sarb, e_sbb, e_sbbl,
     e_scas, e_scasb, e_scasd, e_scasw, e_shl_sal, e_shld, e_shr, e_shrb, e_shrd, e_sub, e_sysret, e_test,
     e_tzcnt, e_xadd, e_xor, e_sahf]"

text \<open>The entry of the table of attributes at index i.\<close>

definition InitInstructionAttr :: "(entryID \<Rightarrow> nat) \<Rightarrow> nat \<Rightarrow> u32" where
  "InitInstructionAttr N i =
     (let a = (if i \<in> set (map N stateChangingInstrList) then FLAG_CHANGING_ATTR else 0);
          b = (if i = N (Alu e_cmp) \<or> i = N (Alu e_cmpw) \<or> i = N (Alu e_test) \<or> i = N (Alu e_bt)
               then a OR FLAG_SETING_ATTR else a)
      in if (N (Jcc e_jb) \<le> i \<and> i \<le> N (Jcc e_jrcxz) \<and> i \<noteq> N (Jcc e_jmp)) \<or>
            (N (Cmov e_cmovbe) \<le> i \<and> i \<le> N (Cmov e_cmovs)) \<or>
            (N (Setcc e_setb) \<le> i \<and> i \<le> N (Setcc e_setz)) \<or>
            i = N (Alu e_adc) \<or> i = N (Alu e_sbb) \<or> i = N (Alu e_sbbl)
         then b OR CONDITIONAL_EXEC_ATTR else b)"

definition isFlagSettingInstr :: "(entryID \<Rightarrow> nat) \<Rightarrow> entryID \<Rightarrow> bool" where
  "isFlagSettingInstr N iid \<longleftrightarrow> InitInstructionAttr N (N iid) AND FLAG_SETING_ATTR \<noteq> 0"

definition isFlagChangingInstr :: "(entryID \<Rightarrow> nat) \<Rightarrow> entryID \<Rightarrow> bool" where
  "isFlagChangingInstr N iid \<longleftrightarrow> InitInstructionAttr N (N iid) AND FLAG_CHANGING_ATTR \<noteq> 0"

definition isConditionalExecuteInstr :: "(entryID \<Rightarrow> nat) \<Rightarrow> entryID \<Rightarrow> bool" where
  "isConditionalExecuteInstr N iid \<longleftrightarrow> InitInstructionAttr N (N iid) AND CONDITIONAL_EXEC_ATTR \<noteq> 0"

lemmas attr_defs = FLAG_CHANGING_ATTR_def FLAG_SETING_ATTR_def CONDITIONAL_EXEC_ATTR_def

section \<open>The flags after a decision\<close>

text \<open>What is written for an instruction that was executed, or not, in the order of the code.\<close>

definition flag_if :: "bool \<Rightarrow> FLAG_STAT" where
  "flag_if b = (if b then FLAG_SET else FLAG_CLEAR)"

fun concrete_writes :: "flag_cond \<Rightarrow> bool \<Rightarrow> (x86_reg \<times> FLAG_STAT) list" where
  "concrete_writes CondAE bExecute = [(x86_cf, flag_if (\<not> bExecute))]"
| "concrete_writes CondA bExecute =
     (if bExecute then [(x86_cf, FLAG_CLEAR), (x86_zf, FLAG_CLEAR)] else [])"
| "concrete_writes CondBE bExecute = []"
| "concrete_writes CondB bExecute = [(x86_cf, flag_if bExecute)]"
| "concrete_writes CondGE bExecute = []"
| "concrete_writes CondG bExecute = (if bExecute then [(x86_zf, FLAG_CLEAR)] else [])"
| "concrete_writes CondLE bExecute = [(x86_zf, flag_if bExecute)]"
| "concrete_writes CondL bExecute = []"
| "concrete_writes CondE bExecute = [(x86_zf, flag_if bExecute)]"
| "concrete_writes CondNE bExecute = [(x86_zf, flag_if (\<not> bExecute))]"
| "concrete_writes CondNS bExecute = [(x86_sf, flag_if (\<not> bExecute))]"
| "concrete_writes CondS bExecute = [(x86_sf, flag_if bExecute)]"
| "concrete_writes CondNO bExecute = [(x86_of, flag_if (\<not> bExecute))]"
| "concrete_writes CondO bExecute = [(x86_of, flag_if bExecute)]"

fun set_flags :: "dapi \<Rightarrow> (x86_reg \<times> FLAG_STAT) list \<Rightarrow> SYCPUState \<Rightarrow> SYCPUState res" where
  "set_flags D [] C = Inr C"
| "set_flags D ((f, v) # ws) C = rbind (setFlagBit D C (reg_id D f) v) (set_flags D ws)"

definition ConcreteFlag ::
  "(entryID \<Rightarrow> nat) \<Rightarrow> dapi \<Rightarrow> SYCPUState \<Rightarrow> entryID \<Rightarrow> bool \<Rightarrow> (SYCPUState \<times> bool) res" where
  "ConcreteFlag N D C instrID bExecute =
     (if \<not> isConditionalExecuteInstr N instrID then Inr (C, False)
      else case switch_cond instrID of
        None \<Rightarrow> Inl AssertFail
      | Some c \<Rightarrow> rbind (set_flags D (concrete_writes c bExecute) C) (\<lambda>C'. Inr (C', True)))"

section \<open>The last flag-changing instruction\<close>

definition SaveFlagChangingInstruction :: "EFlagsManager \<Rightarrow> nat option \<Rightarrow> EFlagsManager \<times> bool" where
  "SaveFlagChangingInstruction E ptr = (E\<lparr>m_LastInstr := ptr\<rparr>, True)"

definition saved_flags :: "x86_reg list" where
  "saved_flags = [x86_zf, x86_cf, x86_of, x86_af, x86_pf, x86_sf]"

definition SaveFlagChangingInstructionExpr ::
  "(entryID \<Rightarrow> nat) \<Rightarrow> dapi \<Rightarrow> EFlagsManager \<Rightarrow> SYCPUState \<Rightarrow> entryID \<Rightarrow> expr option \<Rightarrow>
     (EFlagsManager \<times> SYCPUState \<times> bool) res" where
  "SaveFlagChangingInstructionExpr N D E C instrID exprPtr =
     (if isFlagChangingInstr N instrID \<or> isFlagSettingInstr N instrID
      then rbind (set_flags D (map (\<lambda>f. (f, FLAG_UNCERTAIN)) saved_flags) C)
        (\<lambda>C'. Inr (E\<lparr>m_LastExpr := exprPtr\<rparr>, C', True))
      else Inr (E, C, False))"

section \<open>Deciding a condition from the flags\<close>

text \<open>The flags each group tests and reads, in order; the test stops at the first uncertain one.\<close>

fun needed_flags :: "flag_cond \<Rightarrow> x86_reg list" where
  "needed_flags CondAE = [x86_cf]"
| "needed_flags CondA = [x86_cf, x86_zf]"
| "needed_flags CondBE = [x86_cf, x86_zf]"
| "needed_flags CondB = [x86_cf]"
| "needed_flags CondGE = [x86_sf, x86_of]"
| "needed_flags CondG = [x86_zf, x86_sf, x86_of]"
| "needed_flags CondLE = [x86_zf, x86_sf, x86_of]"
| "needed_flags CondL = [x86_sf, x86_of]"
| "needed_flags CondE = [x86_zf]"
| "needed_flags CondNE = [x86_zf]"
| "needed_flags CondNS = [x86_sf]"
| "needed_flags CondS = [x86_sf]"
| "needed_flags CondNO = [x86_of]"
| "needed_flags CondO = [x86_of]"

fun all_definited :: "dapi \<Rightarrow> SYCPUState \<Rightarrow> x86_reg list \<Rightarrow> bool res" where
  "all_definited D C [] = Inr True"
| "all_definited D C (f # fs) =
     rbind (FlagBitDefinited C (reg_id D f)) (\<lambda>d. if d then all_definited D C fs else Inr False)"

fun read_flags :: "dapi \<Rightarrow> SYCPUState \<Rightarrow> x86_reg list \<Rightarrow> FLAG_STAT list res" where
  "read_flags D C [] = Inr []"
| "read_flags D C (f # fs) =
     rbind (getFlagBit D C (reg_id D f)) (\<lambda>v. rbind (read_flags D C fs) (\<lambda>vs. Inr (v # vs)))"

text \<open>The value assigned to bExecute, as a function of the flags read.\<close>

fun decide_flags :: "flag_cond \<Rightarrow> FLAG_STAT list \<Rightarrow> bool" where
  "decide_flags CondAE v = (v ! 0 = FLAG_CLEAR)"
| "decide_flags CondA v = (v ! 0 = FLAG_CLEAR \<and> v ! 1 = FLAG_CLEAR)"
| "decide_flags CondBE v = (v ! 0 = FLAG_SET \<or> v ! 1 = FLAG_SET)"
| "decide_flags CondB v = (v ! 0 = FLAG_SET)"
| "decide_flags CondGE v = (v ! 0 = v ! 1)"
| "decide_flags CondG v = (v ! 0 = FLAG_CLEAR \<and> v ! 1 = v ! 2)"
| "decide_flags CondLE v = (v ! 0 = FLAG_SET \<and> v ! 1 \<noteq> v ! 2)"
| "decide_flags CondL v = (v ! 0 \<noteq> v ! 1)"
| "decide_flags CondE v = (v ! 0 = FLAG_SET)"
| "decide_flags CondNE v = (v ! 0 = FLAG_CLEAR)"
| "decide_flags CondNS v = (v ! 0 = FLAG_CLEAR)"
| "decide_flags CondS v = (v ! 0 = FLAG_SET)"
| "decide_flags CondNO v = (v ! 0 = FLAG_CLEAR)"
| "decide_flags CondO v = (v ! 0 = FLAG_SET)"

text \<open>The value returned, and bExecute afterwards.\<close>

definition DependencyFlagConcreted ::
  "(entryID \<Rightarrow> nat) \<Rightarrow> dapi \<Rightarrow> SYCPUState \<Rightarrow> entryID \<Rightarrow> bool \<Rightarrow> (bool \<times> bool) res" where
  "DependencyFlagConcreted N D C instrID bExecute =
     rassert (isConditionalExecuteInstr N instrID) (
     case switch_cond_sbb instrID of
       None \<Rightarrow> Inl AssertFail
     | Some c \<Rightarrow> rbind (all_definited D C (needed_flags c)) (\<lambda>ret.
         if ret then rbind (read_flags D C (needed_flags c)) (\<lambda>v. Inr (True, decide_flags c v))
         else Inr (False, bExecute)))"

section \<open>Conditions on the saved expression\<close>

fun cond_exprID :: "flag_cond \<Rightarrow> int" where
  "cond_exprID CondAE = binop_id OpUge"
| "cond_exprID CondA = binop_id OpUgt"
| "cond_exprID CondBE = binop_id OpUle"
| "cond_exprID CondB = binop_id OpUlt"
| "cond_exprID CondGE = binop_id OpSge"
| "cond_exprID CondG = binop_id OpSgt"
| "cond_exprID CondLE = binop_id OpSle"
| "cond_exprID CondL = binop_id OpSlt"
| "cond_exprID CondE = uryop_id OpEqual"
| "cond_exprID CondNE = uryop_id OpDistinct"
| "cond_exprID CondNS = uryop_id OpNoSign"
| "cond_exprID CondS = uryop_id OpSign"
| "cond_exprID CondNO = uryop_id OpNoOverflow"
| "cond_exprID CondO = uryop_id OpOverflow"

text \<open>The negation of a condition takes its size and offset: a null pointer is dereferenced.\<close>

definition not_cond :: "expr option \<Rightarrow> expr option res" where
  "not_cond c = rbind (deref c) (\<lambda>e. Inr (Some (UryE OpLNot e (expr_size e) (expr_offset e))))"

definition DoGetCondition :: "EFlagsManager \<Rightarrow> int \<Rightarrow> expr option res" where
  "DoGetCondition E eid =
     (case m_LastExpr E of
        None \<Rightarrow> Inl AssertFail
      | Some e \<Rightarrow> CreateExprByID eid e (expr_size e) (expr_offset e))"

definition DoCreateConstraint :: "EFlagsManager \<Rightarrow> int \<Rightarrow> bool \<Rightarrow> (EFlagsManager \<times> bool) res" where
  "DoCreateConstraint E eid bExecute =
     rbind (case m_LastExpr E of
         None \<Rightarrow> Inl AssertFail
       | Some e \<Rightarrow> CreateExprByID eid e (expr_size e) (expr_offset e)) (\<lambda>cstnt.
     rbind (if bExecute then Inr cstnt else not_cond cstnt) (\<lambda>cstnt'.
     Inr (E\<lparr>m_Constraint := m_Constraint E @ [cstnt']\<rparr>, True)))"

definition CreateConstraint ::
  "(entryID \<Rightarrow> nat) \<Rightarrow> EFlagsManager \<Rightarrow> entryID \<Rightarrow> bool \<Rightarrow> (EFlagsManager \<times> bool) res" where
  "CreateConstraint N E instrID bExecute =
     (if \<not> isConditionalExecuteInstr N instrID then Inr (E, False)
      else case switch_cond instrID of
        None \<Rightarrow> Inl AssertFail
      | Some c \<Rightarrow>
          (if cond_exprID c \<noteq> EXPR_UNDEFINED
           then rbind (DoCreateConstraint E (cond_exprID c) bExecute) (\<lambda>(E', r). Inr (E', True))
           else Inr (E, False)))"

definition GetCondition :: "(entryID \<Rightarrow> nat) \<Rightarrow> EFlagsManager \<Rightarrow> entryID \<Rightarrow> expr option res" where
  "GetCondition N E instrID =
     (if \<not> isConditionalExecuteInstr N instrID then Inr None
      else case switch_cond_sbb instrID of
        None \<Rightarrow> Inl AssertFail
      | Some c \<Rightarrow> (if cond_exprID c \<noteq> EXPR_UNDEFINED then DoGetCondition E (cond_exprID c) else Inr None))"

definition EvalCondition ::
  "(entryID \<Rightarrow> nat) \<Rightarrow> (expr list \<Rightarrow> bool res) \<Rightarrow> EFlagsManager \<Rightarrow> entryID \<Rightarrow> (EFlagsManager \<times> bool) res" where
  "EvalCondition N Z3SolveConcritize E insnID =
     rbind (GetCondition N E insnID) (\<lambda>exprPtr.
     case exprPtr of
       None \<Rightarrow> Inl AssertFail
     | Some e \<Rightarrow> rbind (Z3SolveConcritize [e]) (\<lambda>bExecute.
         rbind (if bExecute then Inr (Some e) else not_cond (Some e)) (\<lambda>c.
         Inr (E\<lparr>m_Constraint := m_Constraint E @ [c]\<rparr>, bExecute))))"

section \<open>Recorded decisions\<close>

text \<open>
  The scan of a line of the file for a hexadecimal number, a comma and a decimal number, as sscanf
  does it with the format of the code: what it assigns, and to which of its two variables.
\<close>

definition is_space :: "char \<Rightarrow> bool" where
  "is_space c \<longleftrightarrow> of_char c \<in> {9, 10, 11, 12, 13, 32 :: nat}"

definition digit_of :: "char \<Rightarrow> nat option" where
  "digit_of c =
     (let k = of_char c :: nat
      in if 48 \<le> k \<and> k \<le> 57 then Some (k - 48)
         else if 97 \<le> k \<and> k \<le> 102 then Some (k - 87)
         else if 65 \<le> k \<and> k \<le> 70 then Some (k - 55) else None)"

fun scan_digits :: "nat \<Rightarrow> nat \<Rightarrow> string \<Rightarrow> nat \<times> string" where
  "scan_digits base acc [] = (acc, [])"
| "scan_digits base acc (c # s) =
     (case digit_of c of
        Some d \<Rightarrow> (if d < base then scan_digits base (base * acc + d) s else (acc, c # s))
      | None \<Rightarrow> (acc, c # s))"

definition scan_sign :: "string \<Rightarrow> bool \<times> string" where
  "scan_sign s = (if s \<noteq> [] \<and> hd s = CHR ''-'' then (True, tl s)
     else if s \<noteq> [] \<and> hd s = CHR ''+'' then (False, tl s) else (False, s))"

definition scan_prefix :: "string \<Rightarrow> string" where
  "scan_prefix s = (if take 2 s = ''0x'' \<or> take 2 s = ''0X'' then drop 2 s else s)"

text \<open>A number needs a digit; one that does not fit is the largest (for the int: cut to its width).\<close>

definition scan_llx :: "string \<Rightarrow> (u64 \<times> string) option" where
  "scan_llx s =
     (let (neg, s1) = scan_sign (dropWhile is_space s); (n, s2) = scan_digits 16 0 (scan_prefix s1)
      in if s2 = scan_prefix s1 then None
         else Some (if n \<ge> 2 ^ 64 then (- 1, s2) else (if neg then - of_nat n else of_nat n, s2)))"

definition scan_d :: "string \<Rightarrow> int option" where
  "scan_d s =
     (let (neg, s1) = scan_sign (dropWhile is_space s); (n, s2) = scan_digits 10 0 s1;
          v = (if neg then - int n else int n); w = max (- (2 ^ 63)) (min (2 ^ 63 - 1) v)
      in if s2 = s1 then None else Some (signed_take_bit 31 w))"

definition scan_line :: "string \<Rightarrow> u64 option \<times> int option" where
  "scan_line s =
     (case scan_llx s of
        None \<Rightarrow> (None, None)
      | Some (k, s1) \<Rightarrow> (Some k, if s1 \<noteq> [] \<and> hd s1 = CHR '','' then scan_d (tl s1) else None))"

text \<open>The key of the decision that was recorded as the counter-th, at an address.\<close>

definition decision_key :: "u64 \<Rightarrow> u64 \<Rightarrow> u64" where
  "decision_key addr counter = (addr AND 0xFFFFFFFFFFFF) OR push_bit 48 counter"

text \<open>
  The two variables of the loop keep the values of the line before when the scan of a line stops
  early; before the first line they hold nothing.
\<close>

fun read_lines :: "string list \<Rightarrow> u64 option \<Rightarrow> int option \<Rightarrow> u64 \<Rightarrow> (u64 \<rightharpoonup> bool) \<Rightarrow> (u64 \<rightharpoonup> bool) res" where
  "read_lines [] key val counter m = Inr m"
| "read_lines (line # ls) key val counter m =
     (let (k, v) = scan_line line; key = (if k \<noteq> None then k else key); val = (if v \<noteq> None then v else val)
      in case (key, val) of
           (Some a, Some d) \<Rightarrow>
             read_lines ls (Some (decision_key a (counter + 1))) (Some d) (counter + 1)
               (m(decision_key a (counter + 1) \<mapsto> d = 1))
         | _ \<Rightarrow> Inl Uninit)"

text \<open>A file that cannot be opened is None.\<close>

definition ReadAddrBoolMapFromFile :: "string list option \<Rightarrow> EFlagsManager \<Rightarrow> (EFlagsManager \<times> bool) res" where
  "ReadAddrBoolMapFromFile file E =
     (case file of
        None \<Rightarrow> Inr (E, False)
      | Some ls \<Rightarrow> rbind (read_lines ls None None 0 (m_AddrBool E)) (\<lambda>m. Inr (E\<lparr>m_AddrBool := m\<rparr>, True)))"

text \<open>The subscript operator of the map inserts False at a key that is not there.\<close>

definition findDecision :: "EFlagsManager \<Rightarrow> u64 \<Rightarrow> u64 \<Rightarrow> EFlagsManager \<times> bool" where
  "findDecision E addr counter =
     (let key = decision_key addr counter
      in case m_AddrBool E key of
           None \<Rightarrow> (E\<lparr>m_AddrBool := (m_AddrBool E)(key \<mapsto> False)\<rparr>, False)
         | Some b \<Rightarrow> (E, b))"

definition new_EFlagsManager :: "string list option \<Rightarrow> EFlagsManager res" where
  "new_EFlagsManager file =
     rbind (ReadAddrBoolMapFromFile file
       \<lparr>m_Constraint = [], m_LastExpr = None, m_LastInstr = None, m_AddrBool = Map.empty\<rparr>)
       (\<lambda>(E, r). Inr E)"


section \<open>Reading the tables\<close>

lemma isFlagChanging_iff: "isFlagChangingInstr N iid \<longleftrightarrow> N iid \<in> set (map N stateChangingInstrList)"
  by (simp add: isFlagChangingInstr_def InitInstructionAttr_def attr_defs Let_def)

lemma isFlagSetting_iff:
  "isFlagSettingInstr N iid \<longleftrightarrow> N iid \<in> set (map N (map Alu [e_cmp, e_cmpw, e_test, e_bt]))"
  by (simp add: isFlagSettingInstr_def InitInstructionAttr_def attr_defs Let_def)

lemma isConditional_iff:
  "isConditionalExecuteInstr N iid \<longleftrightarrow>
     (N (Jcc e_jb) \<le> N iid \<and> N iid \<le> N (Jcc e_jrcxz) \<and> N iid \<noteq> N (Jcc e_jmp)) \<or>
     (N (Cmov e_cmovbe) \<le> N iid \<and> N iid \<le> N (Cmov e_cmovs)) \<or>
     (N (Setcc e_setb) \<le> N iid \<and> N iid \<le> N (Setcc e_setz)) \<or>
     N iid \<in> {N (Alu e_adc), N (Alu e_sbb), N (Alu e_sbbl)}"
  by (simp add: isConditionalExecuteInstr_def InitInstructionAttr_def attr_defs Let_def)

section \<open>The flags, as values and marks\<close>

text \<open>
  What the flags manager sees of the processor: whether a status flag is marked symbolic, and
  its bit in the word of flags.
\<close>

definition status_flags :: "x86_reg set" where
  "status_flags = {x86_cf, x86_pf, x86_af, x86_zf, x86_sf, x86_of}"

definition flag_pos :: "x86_reg \<Rightarrow> nat" where
  "flag_pos f = the (map_of flag_bits f)"

definition flag_sym :: "dapi \<Rightarrow> SYCPUState \<Rightarrow> x86_reg \<Rightarrow> bool" where
  "flag_sym D C f \<longleftrightarrow> (\<exists>R. m_Regs C (reg_id D f) = Some R \<and> bsym_flag R)"

definition flag_val :: "SYCPUState \<Rightarrow> x86_reg \<Rightarrow> bool" where
  "flag_val C f \<longleftrightarrow> bit (m_ArrRegs C ! 18) (flag_pos f)"

definition cpu_flags :: "dapi \<Rightarrow> SYCPUState \<Rightarrow> bool" where
  "cpu_flags D C \<longleftrightarrow> flags_ok D \<and> dapi_ok D \<and> regs_ok D C \<and> length (m_ArrRegs C) = 32"

lemma status_flag_pos: "f \<in> status_flags \<Longrightarrow> (f, flag_pos f) \<in> set flag_bits"
  by (auto simp: status_flags_def flag_pos_def flag_bits_def)

lemma needed_status: "set (needed_flags c) \<subseteq> status_flags"
  by (cases c) (auto simp: status_flags_def)

lemma saved_status: "set saved_flags = status_flags"
  by (auto simp: saved_flags_def status_flags_def)

lemma flag_reg:
  assumes "cpu_flags D C" "f \<in> status_flags"
  obtains R where "m_Regs C (reg_id D f) = Some R" "flag_sym D C f = bsym_flag R"
  using flag_found [OF _ status_flag_pos [OF assms(2)], of D C] assms(1)
  by (auto simp: cpu_flags_def flag_sym_def)

lemma flag_id_eq:
  assumes "cpu_flags D C" "f \<in> status_flags" "g \<in> status_flags"
  shows "reg_id D f = reg_id D g \<longleftrightarrow> f = g"
  using reg_id_inj [of D f _ 1 g _ 1] flag_of_reg [OF status_flag_pos [OF assms(2)]]
    flag_of_reg [OF status_flag_pos [OF assms(3)]] assms(1) unfolding cpu_flags_def by blast

lemma flag_pos_eq: "f \<in> status_flags \<Longrightarrow> g \<in> status_flags \<Longrightarrow> flag_pos f = flag_pos g \<longleftrightarrow> f = g"
  using flag_bits_inj status_flag_pos by metis

lemma getFlagBit_view:
  assumes "cpu_flags D C" "f \<in> status_flags"
  shows "getFlagBit D C (reg_id D f) = Inr (if flag_sym D C f then FLAG_UNCERTAIN else flag_if (flag_val C f))"
proof -
  obtain R where R: "m_Regs C (reg_id D f) = Some R" "flag_sym D C f = bsym_flag R" by (rule flag_reg [OF assms])
  show ?thesis
    using getFlagBit_ok [OF _ status_flag_pos [OF assms(2)] R(1)] assms(1) R(2)
    by (simp add: cpu_flags_def flag_if_def flag_val_def)
qed

lemma FlagBitDefinited_view:
  assumes "cpu_flags D C" "f \<in> status_flags"
  shows "FlagBitDefinited C (reg_id D f) = Inr (\<not> flag_sym D C f)"
proof -
  obtain R where R: "m_Regs C (reg_id D f) = Some R" "flag_sym D C f = bsym_flag R" by (rule flag_reg [OF assms])
  then show ?thesis by (simp add: FlagBitDefinited_def idxToReg_def)
qed

lemma all_definited_view:
  "cpu_flags D C \<Longrightarrow> set fs \<subseteq> status_flags \<Longrightarrow> all_definited D C fs = Inr (\<forall>f \<in> set fs. \<not> flag_sym D C f)"
  by (induction fs) (simp_all add: FlagBitDefinited_view)

lemma read_flags_view:
  "cpu_flags D C \<Longrightarrow> set fs \<subseteq> status_flags \<Longrightarrow> \<forall>f \<in> set fs. \<not> flag_sym D C f \<Longrightarrow>
     read_flags D C fs = Inr (map (\<lambda>f. flag_if (flag_val C f)) fs)"
  by (induction fs) (simp_all add: getFlagBit_view)

lemma bit_set_flag: "b < 31 \<Longrightarrow> bit (w OR 2 ^ b :: u64) c \<longleftrightarrow> bit w c \<or> c = b"
  by (auto simp: bit_simps)

lemma bit_clear_flag: "b < 31 \<Longrightarrow> c < 31 \<Longrightarrow> bit (w AND NOT (2 ^ b) :: u64) c \<longleftrightarrow> bit w c \<and> c \<noteq> b"
  by (auto simp: bit_simps)

text \<open>Only the word of flags and the marks of the flags change.\<close>

definition same_but_flags :: "SYCPUState \<Rightarrow> SYCPUState \<Rightarrow> bool" where
  "same_but_flags C C' \<longleftrightarrow> m_symBitmap C' = m_symBitmap C \<and> m_symList C' = m_symList C \<and>
     length (m_ArrRegs C') = length (m_ArrRegs C) \<and> (\<forall>i. i \<noteq> 18 \<longrightarrow> m_ArrRegs C' ! i = m_ArrRegs C ! i)"

lemma same_but_flags_trans: "same_but_flags C C' \<Longrightarrow> same_but_flags C' C'' \<Longrightarrow> same_but_flags C C''"
  by (simp add: same_but_flags_def)

lemma same_but_flags_refl [simp]: "same_but_flags C C"
  by (simp add: same_but_flags_def)

lemma same_but_flags_wf: "same_but_flags C C' \<Longrightarrow> cpu_wf st C' = cpu_wf st C"
  by (simp add: same_but_flags_def cpu_wf_def)

lemma setFlagBit_view:
  assumes "cpu_flags D C" "f \<in> status_flags"
  shows "\<exists>C'. setFlagBit D C (reg_id D f) v = Inr C' \<and> cpu_flags D C' \<and> same_but_flags C C' \<and>
    (\<forall>g \<in> status_flags. flag_sym D C' g = (flag_sym D C g \<or> g = f \<and> v = FLAG_UNCERTAIN) \<and>
       flag_val C' g = (if g = f \<and> v \<noteq> FLAG_UNCERTAIN then v = FLAG_SET else flag_val C g))"
proof -
  obtain R where R: "m_Regs C (reg_id D f) = Some R" by (rule flag_reg [OF assms])
  have l: "18 < length (m_ArrRegs C)" and D: "flags_ok D" using assms(1) by (simp_all add: cpu_flags_def)
  have b: "flag_pos g < 31" if "g \<in> status_flags" for g by (rule flag_bit_less [OF status_flag_pos [OF that]])
  have eq: "reg_id D f = reg_id D g \<longleftrightarrow> f = g" "reg_id D g = reg_id D f \<longleftrightarrow> f = g" "flag_pos g = flag_pos f \<longleftrightarrow> f = g"
    if "g \<in> status_flags" for g
    using flag_id_eq [OF assms that] flag_id_eq [OF assms(1) that assms(2)] flag_pos_eq [OF that assms(2)] by auto
  note s = setFlagBit_ok [OF D status_flag_pos [OF assms(2)] R l, of v]
  show ?thesis
  proof (cases v)
    case FLAG_UNCERTAIN
    let ?C = "C\<lparr>m_Regs := (m_Regs C)(reg_id D f \<mapsto> R\<lparr>bsym_flag := True\<rparr>)\<rparr>"
    have "regs_ok D ?C" using assms(1) R unfolding regs_ok_def cpu_flags_def by fastforce
    then have "cpu_flags D ?C" using assms(1) by (simp add: cpu_flags_def)
    then show ?thesis using s FLAG_UNCERTAIN R eq
      by (auto simp: same_but_flags_def flag_sym_def flag_val_def)
  next
    case FLAG_SET
    then show ?thesis using s l assms(1) b [OF assms(2)] eq
      by (auto simp: same_but_flags_def flag_sym_def flag_val_def cpu_flags_def regs_ok_def bit_set_flag)
  next
    case FLAG_CLEAR
    then show ?thesis using s l assms(1) b [OF assms(2)] b eq
      by (auto simp: same_but_flags_def flag_sym_def flag_val_def cpu_flags_def regs_ok_def bit_clear_flag)
  qed
qed

text \<open>The effect of a sequence of writes on the values.\<close>

fun after_writes :: "(x86_reg \<times> FLAG_STAT) list \<Rightarrow> (x86_reg \<Rightarrow> bool) \<Rightarrow> x86_reg \<Rightarrow> bool" where
  "after_writes [] F = F"
| "after_writes ((f, v) # ws) F = after_writes ws (if v = FLAG_UNCERTAIN then F else F(f := v = FLAG_SET))"

lemma after_writes_cong:
  "(\<And>g. g \<in> S \<Longrightarrow> F g = G g) \<Longrightarrow> g \<in> S \<Longrightarrow> after_writes ws F g = after_writes ws G g"
proof (induction ws arbitrary: F G)
  case (Cons w ws)
  obtain f v where w: "w = (f, v)" by (cases w)
  show ?case
  proof (cases "v = FLAG_UNCERTAIN")
    case True
    have "after_writes ws F g = after_writes ws G g" by (rule Cons.IH) (fact Cons.prems)+
    then show ?thesis using True w by simp
  next
    case False
    have "after_writes ws (F(f := v = FLAG_SET)) g = after_writes ws (G(f := v = FLAG_SET)) g"
      by (rule Cons.IH) (use Cons.prems in auto)
    then show ?thesis using False w by simp
  qed
qed simp

lemma set_flags_view:
  assumes "cpu_flags D C" "fst ` set ws \<subseteq> status_flags"
  shows "\<exists>C'. set_flags D ws C = Inr C' \<and> cpu_flags D C' \<and> same_but_flags C C' \<and>
    (\<forall>g \<in> status_flags. flag_sym D C' g = (flag_sym D C g \<or> (g, FLAG_UNCERTAIN) \<in> set ws) \<and>
       flag_val C' g = after_writes ws (flag_val C) g)"
  using assms
proof (induction ws arbitrary: C)
  case (Cons w ws)
  obtain f v where w: "w = (f, v)" by (cases w)
  obtain C1 where 1: "setFlagBit D C (reg_id D f) v = Inr C1" "cpu_flags D C1" "same_but_flags C C1"
    "\<forall>g \<in> status_flags. flag_sym D C1 g = (flag_sym D C g \<or> g = f \<and> v = FLAG_UNCERTAIN) \<and>
       flag_val C1 g = (if g = f \<and> v \<noteq> FLAG_UNCERTAIN then v = FLAG_SET else flag_val C g)"
    using setFlagBit_view [OF Cons.prems(1), of f v] Cons.prems(2) w by auto
  have "fst ` set ws \<subseteq> status_flags" using Cons.prems(2) by auto
  then obtain C2 where 2: "set_flags D ws C1 = Inr C2" "cpu_flags D C2" "same_but_flags C1 C2"
    "\<forall>g \<in> status_flags. flag_sym D C2 g = (flag_sym D C1 g \<or> (g, FLAG_UNCERTAIN) \<in> set ws) \<and>
       flag_val C2 g = after_writes ws (flag_val C1) g" using Cons.IH [OF 1(2)] by blast
  have "after_writes ws (flag_val C1) g = after_writes ws (if v = FLAG_UNCERTAIN then flag_val C
      else (flag_val C)(f := v = FLAG_SET)) g" if "g \<in> status_flags" for g
    by (rule after_writes_cong [OF _ that]) (use 1(4) in auto)
  then show ?case using 1 2 w same_but_flags_trans by (intro exI [of _ C2]) auto
qed simp


section \<open>Conditions as x86 defines them\<close>

fun x86_cond :: "flag_cond \<Rightarrow> (x86_reg \<Rightarrow> bool) \<Rightarrow> bool" where
  "x86_cond CondAE F = (\<not> F x86_cf)"
| "x86_cond CondA F = (\<not> F x86_cf \<and> \<not> F x86_zf)"
| "x86_cond CondBE F = (F x86_cf \<or> F x86_zf)"
| "x86_cond CondB F = F x86_cf"
| "x86_cond CondGE F = (F x86_sf = F x86_of)"
| "x86_cond CondG F = (\<not> F x86_zf \<and> F x86_sf = F x86_of)"
| "x86_cond CondLE F = (F x86_zf \<or> F x86_sf \<noteq> F x86_of)"
| "x86_cond CondL F = (F x86_sf \<noteq> F x86_of)"
| "x86_cond CondE F = F x86_zf"
| "x86_cond CondNE F = (\<not> F x86_zf)"
| "x86_cond CondNS F = (\<not> F x86_sf)"
| "x86_cond CondS F = F x86_sf"
| "x86_cond CondNO F = (\<not> F x86_of)"
| "x86_cond CondO F = F x86_of"

lemma flag_if_eq [simp]:
  "flag_if a = FLAG_SET \<longleftrightarrow> a" "flag_if a = FLAG_CLEAR \<longleftrightarrow> \<not> a" "flag_if a \<noteq> FLAG_UNCERTAIN"
  "flag_if a = flag_if b \<longleftrightarrow> a = b"
  by (auto simp: flag_if_def)

lemma decide_flags_cond:
  "decide_flags c (map (\<lambda>f. flag_if (F f)) (needed_flags c)) =
     (if c = CondLE then F x86_zf \<and> F x86_sf \<noteq> F x86_of else x86_cond c F)"
  by (cases c) simp_all

lemma DependencyFlagConcreted_view:
  assumes "cpu_flags D C" "isConditionalExecuteInstr N iid" "switch_cond_sbb iid = Some c"
  shows "DependencyFlagConcreted N D C iid b0 =
    Inr (if \<forall>f \<in> set (needed_flags c). \<not> flag_sym D C f
      then (True, decide_flags c (map (\<lambda>f. flag_if (flag_val C f)) (needed_flags c))) else (False, b0))"
  using assms all_definited_view [OF assms(1) needed_status, of c] read_flags_view [OF assms(1) needed_status, of c]
  by (auto simp: DependencyFlagConcreted_def)

lemma concrete_writes_status: "fst ` set (concrete_writes c b) \<subseteq> status_flags"
  by (cases c) (auto simp: status_flags_def)

lemma concrete_writes_definite: "(g, FLAG_UNCERTAIN) \<notin> set (concrete_writes c b)"
  by (cases c) (auto simp: flag_if_def)

text \<open>
  Every write of a decision is implied by it, but for the zero flag of a less-or-equal that was
  taken: any flags that agree with the decision have the values written.
\<close>

lemma concrete_writes_implied:
  assumes "x86_cond c F = b" "\<not> (c = CondLE \<and> b)"
  shows "after_writes (concrete_writes c b) G f = F f \<or> after_writes (concrete_writes c b) G f = G f"
  using assms by (cases c) (auto simp: flag_if_def)

lemma ConcreteFlag_view:
  assumes "cpu_flags D C" "isConditionalExecuteInstr N iid" "switch_cond iid = Some c"
  shows "\<exists>C'. ConcreteFlag N D C iid b = Inr (C', True) \<and> cpu_flags D C' \<and> same_but_flags C C' \<and>
    (\<forall>g \<in> status_flags. flag_sym D C' g = flag_sym D C g \<and>
       flag_val C' g = after_writes (concrete_writes c b) (flag_val C) g)"
  using set_flags_view [OF assms(1) concrete_writes_status, of c b] assms concrete_writes_definite
  by (auto simp: ConcreteFlag_def)

section \<open>Conditions built for an instruction\<close>

definition cond_of_last :: "flag_cond \<Rightarrow> expr \<Rightarrow> expr option res" where
  "cond_of_last c e =
     (if c = CondE then Inr (Some (UryE OpEqual e (expr_size e) (expr_offset e)))
      else if c = CondNE then Inr (Some (UryE OpDistinct e (expr_size e) (expr_offset e)))
      else if c = CondS then Inr (Some (UryE OpSign e (expr_size e) (expr_offset e)))
      else if c \<in> {CondNS, CondNO, CondO} then Inr None
      else rbind (as_BinExpr e) (\<lambda>(r, l).
        Inr (Some (BinE (the (cmp_of_id (cond_exprID c))) r l (expr_size e) (expr_offset e)))))"

lemma CreateExprByID_cond:
  "CreateExprByID (cond_exprID c) e (expr_size e) (expr_offset e) = cond_of_last c e"
proof (cases c)
  case CondAE
  then show ?thesis using CreateExprByID_cmp [of OpUge] by (simp add: cond_of_last_def cmp_of_id_def)
next
  case CondA
  then show ?thesis using CreateExprByID_cmp [of OpUgt] by (simp add: cond_of_last_def cmp_of_id_def)
next
  case CondBE
  then show ?thesis using CreateExprByID_cmp [of OpUle] by (simp add: cond_of_last_def cmp_of_id_def)
next
  case CondB
  then show ?thesis using CreateExprByID_cmp [of OpUlt] by (simp add: cond_of_last_def cmp_of_id_def)
next
  case CondGE
  then show ?thesis using CreateExprByID_cmp [of OpSge] by (simp add: cond_of_last_def cmp_of_id_def)
next
  case CondG
  then show ?thesis using CreateExprByID_cmp [of OpSgt] by (simp add: cond_of_last_def cmp_of_id_def)
next
  case CondLE
  then show ?thesis using CreateExprByID_cmp [of OpSle] by (simp add: cond_of_last_def cmp_of_id_def)
next
  case CondL
  then show ?thesis using CreateExprByID_cmp [of OpSlt] by (simp add: cond_of_last_def cmp_of_id_def)
qed (simp_all add: cond_of_last_def CreateExprByID_def rejected_ids_def cmp_of_id_def)

lemma cond_exprID_defined: "cond_exprID c \<noteq> EXPR_UNDEFINED"
  by (cases c) (simp_all add: EXPR_UNDEFINED_def)

lemma GetCondition_view:
  assumes "isConditionalExecuteInstr N iid" "switch_cond_sbb iid = Some c" "m_LastExpr E = Some e"
  shows "GetCondition N E iid = cond_of_last c e"
  using assms by (simp add: GetCondition_def cond_exprID_defined DoGetCondition_def CreateExprByID_cond)

lemma CreateConstraint_view:
  assumes "isConditionalExecuteInstr N iid" "switch_cond iid = Some c" "m_LastExpr E = Some e"
  shows "CreateConstraint N E iid b =
    rbind (cond_of_last c e) (\<lambda>x. rbind (if b then Inr x else not_cond x)
      (\<lambda>y. Inr (E\<lparr>m_Constraint := m_Constraint E @ [y]\<rparr>, True)))"
  using assms
  by (simp add: CreateConstraint_def cond_exprID_defined DoCreateConstraint_def CreateExprByID_cond rbind_assoc
      cong: if_cong)

section \<open>Recorded decisions, by their keys\<close>

lemma bit_decision_key:
  "bit (decision_key a c) n \<longleftrightarrow> (if n < 48 then bit a n else n < 64 \<and> bit c (n - 48))"
proof -
  have m: "(0xFFFFFFFFFFFF :: u64) = mask 48" by (simp add: mask_eq_exp_minus_1)
  show ?thesis unfolding decision_key_def m by (auto simp: bit_simps)
qed

lemma decision_key_eq_iff:
  assumes "i < 2 ^ 16" "j < 2 ^ 16"
  shows "decision_key a (of_nat i) = decision_key a' (of_nat j) \<longleftrightarrow>
    i = j \<and> a AND 0xFFFFFFFFFFFF = a' AND 0xFFFFFFFFFFFF"
proof
  have m: "(0xFFFFFFFFFFFF :: u64) = mask 48" by (simp add: mask_eq_exp_minus_1)
  assume eq: "decision_key a (of_nat i) = decision_key a' (of_nat j)"
  have "bit a n = bit a' n" if "n < 48" for n
    using eq bit_decision_key [of a "of_nat i" n] bit_decision_key [of a' "of_nat j" n] that by simp
  then have 1: "a AND 0xFFFFFFFFFFFF = a' AND 0xFFFFFFFFFFFF"
    unfolding m by (intro bit_word_eqI) (auto simp: bit_simps)
  have "bit i n = bit j n" for n
  proof (cases "n < 16")
    case True
    then show ?thesis
      using eq bit_decision_key [of a "of_nat i" "n + 48"] bit_decision_key [of a' "of_nat j" "n + 48"]
      by (simp add: bit_simps)
  next
    case False
    then have "i < 2 ^ n" "j < 2 ^ n"
      using assms power_increasing [of 16 n "2 :: nat"] by linarith+
    then show ?thesis by (simp add: bit_iff_odd)
  qed
  then have "i = j" by (rule bit_eqI)
  with 1 show "i = j \<and> a AND 0xFFFFFFFFFFFF = a' AND 0xFFFFFFFFFFFF" by simp
qed (simp add: decision_key_def)

text \<open>The map after a whole file was read: its n-th line answers for its address at count n.\<close>

lemma read_lines_ok:
  assumes "\<forall>l \<in> set ls. \<exists>a d. scan_line l = (Some a, Some d)" "k + length ls < 2 ^ 16"
  shows "\<exists>m'. read_lines ls key val (of_nat k) m = Inr m' \<and>
    (\<forall>a n. n < 2 ^ 16 \<longrightarrow> m' (decision_key a (of_nat n)) =
      (if k < n \<and> n \<le> k + length ls \<and>
          the (fst (scan_line (ls ! (n - Suc k)))) AND 0xFFFFFFFFFFFF = a AND 0xFFFFFFFFFFFF
       then Some (the (snd (scan_line (ls ! (n - Suc k)))) = 1)
       else m (decision_key a (of_nat n))))"
  using assms
proof (induction ls arbitrary: k key val m)
  case (Cons l ls)
  obtain b d where l: "scan_line l = (Some b, Some d)" using Cons.prems by auto
  define m1 where "m1 = m(decision_key b (of_nat (Suc k)) \<mapsto> d = 1)"
  obtain m' where m': "read_lines ls (Some (decision_key b (of_nat (Suc k)))) (Some d) (of_nat (Suc k)) m1 = Inr m'"
    "\<forall>a n. n < 2 ^ 16 \<longrightarrow> m' (decision_key a (of_nat n)) =
      (if Suc k < n \<and> n \<le> Suc k + length ls \<and>
          the (fst (scan_line (ls ! (n - Suc (Suc k))))) AND 0xFFFFFFFFFFFF = a AND 0xFFFFFFFFFFFF
       then Some (the (snd (scan_line (ls ! (n - Suc (Suc k))))) = 1)
       else m1 (decision_key a (of_nat n)))"
    using Cons.IH [of "Suc k" "Some (decision_key b (of_nat (Suc k)))" "Some d" m1] Cons.prems by auto
  have r: "read_lines (l # ls) key val (of_nat k) m = Inr m'"
    using m'(1) l by (simp add: m1_def add.commute)
  have "m' (decision_key a (of_nat n)) =
      (if k < n \<and> n \<le> k + length (l # ls) \<and>
          the (fst (scan_line ((l # ls) ! (n - Suc k)))) AND 0xFFFFFFFFFFFF = a AND 0xFFFFFFFFFFFF
       then Some (the (snd (scan_line ((l # ls) ! (n - Suc k)))) = 1)
       else m (decision_key a (of_nat n)))" if n: "n < 2 ^ 16" for a n
  proof -
    have sk: "Suc k < 2 ^ 16" using Cons.prems by simp
    consider "n \<le> k" | "n = Suc k" | "Suc k < n" by linarith
    then show ?thesis
    proof cases
      case 1
      then show ?thesis using m'(2) n decision_key_eq_iff [OF n sk, of a b] by (simp add: m1_def del: of_nat_Suc)
    next
      case 2
      then show ?thesis using m'(2) n decision_key_eq_iff [OF n sk, of a b] l by (auto simp: m1_def simp del: of_nat_Suc)
    next
      case 3
      then have "n - Suc k = Suc (n - Suc (Suc k))" by simp
      then show ?thesis using m'(2) n 3 decision_key_eq_iff [OF n sk, of a b] by (simp add: m1_def del: of_nat_Suc)
    qed
  qed
  then show ?case using r by blast
qed auto

section \<open>Properties\<close>

text \<open>Numbers as the ranges of the code need them, for the witnesses.\<close>

fun pos_of :: "'a list \<Rightarrow> 'a \<Rightarrow> nat" where
  "pos_of [] x = 0"
| "pos_of (y # ys) x = (if x = y then 0 else Suc (pos_of ys x))"

primrec ex_num :: "entryID \<Rightarrow> nat" where
  "ex_num (Jcc j) = pos_of [e_jb, e_jb_jnaej_j, e_jbe, e_jcxz_jec, e_jl, e_jle, e_jmp, e_jmpe, e_jnb, e_jnb_jae_j,
     e_jnbe, e_jnl, e_jnle, e_jno, e_jnp, e_jns, e_jnz, e_jo, e_jp, e_js, e_jz, e_jrcxz] j"
| "ex_num (Cmov c) = 100 + pos_of [e_cmovbe, e_cmove, e_cmovnae, e_cmovnb, e_cmovnbe, e_cmovne, e_cmovng,
     e_cmovnge, e_cmovnl, e_cmovnle, e_cmovno, e_cmovns, e_cmovo, e_cmovpe, e_cmovpo, e_cmovs] c"
| "ex_num (Setcc s) = 200 + pos_of [e_setb, e_setbe, e_setl, e_setle, e_setnb, e_setnbe, e_setnl, e_setnle,
     e_setno, e_setnp, e_setns, e_setnz, e_seto, e_setp, e_sets, e_setz] s"
| "ex_num (Alu a) = 300 + pos_of [e_adc, e_add, e_cmp, e_cmpw, e_cmpxch, e_cmpxch8b, e_and,
     e_bsf, e_bsr, e_bt, e_btc, e_btr, e_bts, e_dec, e_decl, e_div, e_idiv, e_imul, e_inc, e_neg, e_or,
     e_popcnt, e_popf, e_popfq, e_popfd, e_rdrand, e_rol, e_rolb, e_ror, e_salc, e_sar, e_sarb, e_sbb, e_sbbl,
     e_scas, e_scasb, e_scasd, e_scasw, e_shl_sal, e_shld, e_shr, e_shrb, e_shrd, e_sub, e_sysret, e_test,
     e_tzcnt, e_xadd, e_xor, e_sahf, e_not] a"
| "ex_num (Mov m) = 400"
| "ex_num (Sse x) = 500"
| "ex_num (Misc m) = 600"
| "ex_num (other_id n) = 700 + n"

lemma ex_conditional:
  "isConditionalExecuteInstr ex_num (Jcc e_jle)" "isConditionalExecuteInstr ex_num (Jcc e_jo)"
  by (simp_all add: isConditional_iff)

lemma ex_cpu_flags: "cpu_flags ex_dapi (snd ex_cpu)"
  using ex_flags_ok ex_dapi_ok ex_cpu_regs cpu_wfD(1) [OF ex_cpu_wf] by (simp add: cpu_flags_def)

definition ex_manager :: EFlagsManager where
  "ex_manager = \<lparr>m_Constraint = [], m_LastExpr = Some (SubExpr (ConstExpr 1 4 0) (ConstExpr 2 4 0)),
     m_LastInstr = None, m_AddrBool = Map.empty\<rparr>"

text \<open>C36. A conditional instruction is decided from the flags exactly when none of the flags of its
  condition is marked symbolic, and the decision is that of x86 on these flags for every condition
  but less-or-equal, for which both halves of the condition are required instead of one.\<close>

theorem DependencyFlagConcreted_decides:
  assumes "cpu_flags D C" "isConditionalExecuteInstr N iid" "switch_cond_sbb iid = Some c"
  shows "DependencyFlagConcreted N D C iid b0 =
    Inr (if \<forall>f \<in> set (needed_flags c). \<not> flag_sym D C f
      then (True, if c = CondLE then flag_val C x86_zf \<and> flag_val C x86_sf \<noteq> flag_val C x86_of
                  else x86_cond c (flag_val C))
      else (False, b0))"
  unfolding DependencyFlagConcreted_view [OF assms] decide_flags_cond by simp

theorem DependencyFlagConcreted_decides_witness:
  "DependencyFlagConcreted ex_num ex_dapi (snd ex_cpu) (Jcc e_jle) False =
    Inr (if \<forall>f \<in> set (needed_flags CondLE). \<not> flag_sym ex_dapi (snd ex_cpu) f
      then (True, if CondLE = CondLE then flag_val (snd ex_cpu) x86_zf \<and> flag_val (snd ex_cpu) x86_sf \<noteq> flag_val (snd ex_cpu) x86_of
                  else x86_cond CondLE (flag_val (snd ex_cpu)))
      else (False, False))"
  by (rule DependencyFlagConcreted_decides [OF ex_cpu_flags ex_conditional(1)]) (simp add: switch_cond_sbb_def)

text \<open>Writing the flags that a decision fixes leaves every mark alone, and each flag value then is
  either as it was or as in every flag state that agrees with the decision, unless a
  less-or-equal was taken while the zero flag was clear: then the zero flag is set although
  the decision does not imply it.\<close>

theorem ConcreteFlag_implied:
  assumes "cpu_flags D C" "isConditionalExecuteInstr N iid" "switch_cond iid = Some c"
  shows "\<exists>C'. ConcreteFlag N D C iid b = Inr (C', True) \<and> same_but_flags C C' \<and>
    (\<forall>f \<in> status_flags. flag_sym D C' f = flag_sym D C f) \<and>
    ((\<forall>F. x86_cond c F = b \<longrightarrow> (\<forall>f \<in> status_flags. flag_val C' f = F f \<or> flag_val C' f = flag_val C f)) \<longleftrightarrow>
     \<not> (c = CondLE \<and> b \<and> \<not> flag_val C x86_zf))"
proof -
  obtain C' where C': "ConcreteFlag N D C iid b = Inr (C', True)" "same_but_flags C C'"
    "\<forall>g \<in> status_flags. flag_sym D C' g = flag_sym D C g \<and>
       flag_val C' g = after_writes (concrete_writes c b) (flag_val C) g"
    using ConcreteFlag_view [OF assms, of b] by blast
  have "(\<forall>F. x86_cond c F = b \<longrightarrow> (\<forall>f \<in> status_flags. flag_val C' f = F f \<or> flag_val C' f = flag_val C f)) \<longleftrightarrow>
     \<not> (c = CondLE \<and> b \<and> \<not> flag_val C x86_zf)" (is "?all \<longleftrightarrow> _")
  proof (cases "c = CondLE \<and> b")
    case True
    then have w: "flag_val C' f = (f = x86_zf \<or> flag_val C f)" if "f \<in> status_flags" for f
      using C'(3) that by (simp add: flag_if_def)
    let ?F = "\<lambda>f. f = x86_sf"
    have z: "x86_zf \<in> status_flags" by (simp add: status_flags_def)
    have "?all \<Longrightarrow> flag_val C x86_zf" using w [OF z] z True by (auto dest!: spec [of _ ?F])
    moreover have "flag_val C x86_zf \<Longrightarrow> ?all" using w by auto
    ultimately show ?thesis using True by blast
  next
    case False
    then show ?thesis using C'(3) concrete_writes_implied [of c _ b "flag_val C"] by metis
  qed
  then show ?thesis using C' by blast
qed

theorem ConcreteFlag_implied_witness:
  "\<exists>C'. ConcreteFlag ex_num ex_dapi (snd ex_cpu) (Jcc e_jle) True = Inr (C', True) \<and> same_but_flags (snd ex_cpu) C' \<and>
    (\<forall>f \<in> status_flags. flag_sym ex_dapi C' f = flag_sym ex_dapi (snd ex_cpu) f) \<and>
    ((\<forall>F. x86_cond CondLE F = True \<longrightarrow>
        (\<forall>f \<in> status_flags. flag_val C' f = F f \<or> flag_val C' f = flag_val (snd ex_cpu) f)) \<longleftrightarrow>
     \<not> (CondLE = CondLE \<and> True \<and> \<not> flag_val (snd ex_cpu) x86_zf))"
  by (rule ConcreteFlag_implied [OF ex_cpu_flags ex_conditional(1)]) simp

lemma setting_changes: "set (map Alu [e_cmp, e_cmpw, e_test, e_bt]) \<subseteq> set stateChangingInstrList"
  by (simp add: stateChangingInstrList_def)

lemma flag_instr_iff:
  assumes "\<And>j. N j = N iid \<Longrightarrow> j = iid"
  shows "isFlagChangingInstr N iid \<or> isFlagSettingInstr N iid \<longleftrightarrow> iid \<in> set stateChangingInstrList"
proof -
  have "N iid \<in> set (map N xs) \<longleftrightarrow> iid \<in> set xs" for xs
    unfolding set_map image_iff using assms by metis
  then show ?thesis unfolding isFlagChanging_iff isFlagSetting_iff using setting_changes by blast
qed

lemma needed_hd: "hd (needed_flags c) \<in> set (needed_flags c)"
  by (cases c) simp_all

text \<open>C35. An instruction whose number is that of a flag-changing one in the list saves its expression
  and marks the six status flags; no conditional instruction can be decided from the flags after
  that. Any other instruction is refused, with nothing changed.\<close>

theorem SaveFlagChangingInstructionExpr_effect:
  assumes "cpu_flags D C" "\<And>j. N j = N iid \<Longrightarrow> j = iid"
  shows "if iid \<in> set stateChangingInstrList
    then \<exists>C'. SaveFlagChangingInstructionExpr N D E C iid e = Inr (E\<lparr>m_LastExpr := e\<rparr>, C', True) \<and>
      same_but_flags C C' \<and> cpu_flags D C' \<and>
      (\<forall>f \<in> status_flags. flag_sym D C' f \<and> flag_val C' f = flag_val C f) \<and>
      (\<forall>jid c b. isConditionalExecuteInstr N jid \<and> switch_cond_sbb jid = Some c \<longrightarrow>
         DependencyFlagConcreted N D C' jid b = Inr (False, b))
    else SaveFlagChangingInstructionExpr N D E C iid e = Inr (E, C, False)"
proof -
  let ?ws = "map (\<lambda>f. (f, FLAG_UNCERTAIN)) saved_flags"
  have aw: "after_writes (map (\<lambda>f. (f, FLAG_UNCERTAIN)) fs) F = F" for fs F by (induction fs) simp_all
  have img: "fst ` set ?ws \<subseteq> status_flags" by (simp add: saved_status image_image)
  obtain C' where C': "set_flags D ?ws C = Inr C'" "cpu_flags D C'" "same_but_flags C C'"
    "\<forall>g \<in> status_flags. flag_sym D C' g = (flag_sym D C g \<or> (g, FLAG_UNCERTAIN) \<in> set ?ws) \<and>
       flag_val C' g = after_writes ?ws (flag_val C) g"
    using set_flags_view [OF assms(1) img] by blast
  have sym: "\<forall>f \<in> status_flags. flag_sym D C' f \<and> flag_val C' f = flag_val C f"
  proof
    fix f assume f: "f \<in> status_flags"
    then have "(f, FLAG_UNCERTAIN) \<in> set ?ws" by (simp add: saved_status image_iff)
    then show "flag_sym D C' f \<and> flag_val C' f = flag_val C f"
      using bspec [OF C'(4) f] unfolding aw by simp
  qed
  note acc = flag_instr_iff [OF assms(2)]
  have dep: "DependencyFlagConcreted N D C' jid b = Inr (False, b)"
    if "isConditionalExecuteInstr N jid" "switch_cond_sbb jid = Some c" for jid c b
  proof -
    have "\<exists>f \<in> set (needed_flags c). flag_sym D C' f" using sym needed_status [of c] needed_hd [of c] by blast
    then have "\<not> (\<forall>f \<in> set (needed_flags c). \<not> flag_sym D C' f)" by blast
    then show ?thesis using DependencyFlagConcreted_view [OF C'(2) that, of b] by (simp only: if_False)
  qed
  show ?thesis
  proof (cases "iid \<in> set stateChangingInstrList")
    case True
    then have "SaveFlagChangingInstructionExpr N D E C iid e = Inr (E\<lparr>m_LastExpr := e\<rparr>, C', True)"
      using acc C'(1) by (simp add: SaveFlagChangingInstructionExpr_def)
    moreover have "\<forall>jid c b. isConditionalExecuteInstr N jid \<and> switch_cond_sbb jid = Some c \<longrightarrow>
        DependencyFlagConcreted N D C' jid b = Inr (False, b)" using dep by simp
    ultimately show ?thesis unfolding if_P [OF True] using C'(2,3) sym by (intro exI [of _ C'] conjI)
  next
    case False
    then show ?thesis using acc by (simp add: SaveFlagChangingInstructionExpr_def)
  qed
qed

lemma ex_num_not: "ex_num j = ex_num (Alu e_not) \<Longrightarrow> j = Alu e_not"
proof (cases j)
  case (Jcc x)
  then show "ex_num j = ex_num (Alu e_not) \<Longrightarrow> ?thesis" by (cases x) simp_all
next
  case (Cmov x)
  then show "ex_num j = ex_num (Alu e_not) \<Longrightarrow> ?thesis" by (cases x) simp_all
next
  case (Setcc x)
  then show "ex_num j = ex_num (Alu e_not) \<Longrightarrow> ?thesis" by (cases x) simp_all
next
  case (Alu x)
  have "ex_num (Alu x) = ex_num (Alu e_not) \<Longrightarrow> x = e_not"
  proof (cases x)
    case (Arith y)
    then show "ex_num (Alu x) = ex_num (Alu e_not) \<Longrightarrow> x = e_not" by (cases y) simp_all
  next
    case (Bits y)
    then show "ex_num (Alu x) = ex_num (Alu e_not) \<Longrightarrow> x = e_not" by (cases y) simp_all
  next
    case (State y)
    then show "ex_num (Alu x) = ex_num (Alu e_not) \<Longrightarrow> x = e_not" by (cases y) simp_all
  qed
  then show "ex_num j = ex_num (Alu e_not) \<Longrightarrow> ?thesis" using Alu by simp
qed simp_all

theorem SaveFlagChangingInstructionExpr_effect_witness:
  "SaveFlagChangingInstructionExpr ex_num ex_dapi ex_manager (snd ex_cpu) (Alu e_not) None =
     Inr (ex_manager, snd ex_cpu, False)"
  using SaveFlagChangingInstructionExpr_effect [OF ex_cpu_flags ex_num_not, where E = ex_manager and e = None]
  by (simp add: stateChangingInstrList_def)

text \<open>The condition of a jump is asked of the solver and joins the constraint, negated when the
  verdict is that the jump is not executed; for the conditions NoSign, NoOverflow and Overflow
  the analysis aborts, and for the orderings it compares the operands of the saved expression whatever
  operation it is, or casts it wrongly when it has none.\<close>

theorem EvalCondition_outcome:
  assumes "isConditionalExecuteInstr N iid" "switch_cond_sbb iid = Some c" "m_LastExpr E = Some e"
    and "\<And>cs. solve cs = Inr (verdict cs)"
  shows "EvalCondition N solve E iid =
    (if c \<in> {CondNS, CondNO, CondO} then Inl AssertFail
     else rbind (case c of
          CondE \<Rightarrow> Inr (UryE OpEqual e (expr_size e) (expr_offset e))
        | CondNE \<Rightarrow> Inr (UryE OpDistinct e (expr_size e) (expr_offset e))
        | CondS \<Rightarrow> Inr (UryE OpSign e (expr_size e) (expr_offset e))
        | _ \<Rightarrow> rbind (as_BinExpr e) (\<lambda>(r, l). Inr (BinE (case c of CondAE \<Rightarrow> OpUge | CondA \<Rightarrow> OpUgt
            | CondBE \<Rightarrow> OpUle | CondB \<Rightarrow> OpUlt | CondGE \<Rightarrow> OpSge | CondG \<Rightarrow> OpSgt | CondLE \<Rightarrow> OpSle | _ \<Rightarrow> OpSlt)
            r l (expr_size e) (expr_offset e)))) (\<lambda>x.
       Inr (E\<lparr>m_Constraint := m_Constraint E @
              [Some (if verdict [x] then x else UryE OpLNot x (expr_size x) (expr_offset x))]\<rparr>, verdict [x])))"
proof -
  have g: "GetCondition N E iid = cond_of_last c e" by (rule GetCondition_view [OF assms(1-3)])
  show ?thesis
    by (cases "as_BinExpr e"; cases c)
      (simp_all add: EvalCondition_def g cond_of_last_def assms(4) not_cond_def cmp_of_id_def split_beta)
qed

theorem EvalCondition_outcome_witness:
  "EvalCondition ex_num (\<lambda>cs. Inr False) ex_manager (Jcc e_jle) =
    Inr (ex_manager\<lparr>m_Constraint := [Some (UryE OpLNot (BinE OpSle (ConstE 1 4 0) (ConstE 2 4 0) 4 0) 4 0)]\<rparr>, False)"
  using EvalCondition_outcome [OF ex_conditional(1), where c = CondLE and E = ex_manager and
      e = "SubExpr (ConstExpr 1 4 0) (ConstExpr 2 4 0)" and solve = "\<lambda>cs. Inr False" and verdict = "\<lambda>cs. False"]
  by (simp add: switch_cond_sbb_def ex_manager_def expr_ctor_defs)

text \<open>A constraint asked for with a decision: of an instruction that was not executed, for the
  conditions NoSign, NoOverflow and Overflow, it dereferences a null pointer; executed, it puts a null
  pointer among the constraints. Every other condition is added as it is or negated.\<close>

theorem CreateConstraint_outcome:
  assumes "isConditionalExecuteInstr N iid" "switch_cond iid = Some c" "m_LastExpr E = Some e"
  shows "CreateConstraint N E iid b =
    (if c \<in> {CondNS, CondNO, CondO}
     then if b then Inr (E\<lparr>m_Constraint := m_Constraint E @ [None]\<rparr>, True) else Inl NullDeref
     else rbind (cond_of_last c e) (\<lambda>x. case x of None \<Rightarrow> Inl NullDeref | Some y \<Rightarrow>
       Inr (E\<lparr>m_Constraint := m_Constraint E @
              [Some (if b then y else UryE OpLNot y (expr_size y) (expr_offset y))]\<rparr>, True)))"
  unfolding CreateConstraint_view [OF assms]
  by (cases "as_BinExpr e"; cases c) (simp_all add: cond_of_last_def not_cond_def split_beta)

theorem CreateConstraint_outcome_witness:
  "CreateConstraint ex_num ex_manager (Jcc e_jo) False = Inl NullDeref"
  using CreateConstraint_outcome [OF ex_conditional(2), where c = CondO and E = ex_manager] by (simp add: ex_manager_def)



lemma ex_lines:
  "scan_line ''ffffffff81000010, 1'' = (Some 0xffffffff81000010, Some 1)"
  "scan_line ''ffffffff81000010, 0'' = (Some 0xffffffff81000010, Some 0)"
  by (simp_all add: scan_line_def scan_llx_def scan_d_def scan_sign_def scan_prefix_def is_space_def digit_of_def
      split_beta Let_def)


end
