(* ===== verification/VM_State.thy ===== *)
theory VM_State
  imports Mem_State EFlags_Manager
begin

text \<open>
  The analyser's virtual machine (VMState.h and VMState.cpp): processor state, memory state and flags
  manager, which share one heap of symbolic cells, and the objects the user declares symbolic. An
  expression refers to a declared object by its address.
\<close>

section \<open>State\<close>

text \<open>
  The value of an object is a union that the constructor fills for the four sizes only: None is a
  value never assigned. The tables map a hash to the address of an object.
\<close>

record SYMemObject =
  mo_name :: string
  mo_addr :: u64
  mo_size :: u64
  mo_is_signed :: bool
  mo_has_seed :: bool
  mo_expr :: expr
  mo_val :: "u64 option"

record SYRegObject =
  ro_name :: string
  ro_indx :: u32
  ro_size :: u32
  ro_is_signed :: bool
  ro_has_seed :: bool
  ro_expr :: expr
  ro_val :: "u64 option"

record VMState =
  m_SYMemObjects :: "u64 \<rightharpoonup> nat"
  m_SYRegObjects :: "u64 \<rightharpoonup> nat"
  m_CPU :: SYCPUState
  m_MEM :: SYMemState
  m_EFlagsMgr :: EFlagsManager
  vm_cells :: store
  mem_objs :: "nat \<rightharpoonup> SYMemObject"
  reg_objs :: "nat \<rightharpoonup> SYRegObject"
  next_obj :: nat

definition new_VMState ::
  "dapi \<Rightarrow> u64 list \<Rightarrow> u64 list \<Rightarrow> (u64 \<Rightarrow> u8) \<Rightarrow> string list option \<Rightarrow> store \<Rightarrow> VMState res" where
  "new_VMState D arr bits ph file st =
     (let (st, C) = new_SYCPUState D arr bits st; (st, M) = new_SYMemState ph st
      in rbind (new_EFlagsManager file) (\<lambda>E.
         Inr \<lparr>m_SYMemObjects = Map.empty, m_SYRegObjects = Map.empty, m_CPU = C, m_MEM = M, m_EFlagsMgr = E,
           vm_cells = st, mem_objs = Map.empty, reg_objs = Map.empty, next_obj = 0\<rparr>))"

section \<open>Registers, memory and flags\<close>

definition vm_isSYReg :: "dapi \<Rightarrow> VMState \<Rightarrow> u32 \<Rightarrow> bool res" where
  "vm_isSYReg D vm reg_index = isSYReg D (m_CPU vm) reg_index"

definition vm_readRegister :: "dapi \<Rightarrow> VMState \<Rightarrow> RegValue \<Rightarrow> (VMState \<times> RegValue \<times> bool) res" where
  "vm_readRegister D vm V =
     rbind (readRegister D (vm_cells vm) (m_CPU vm) V) (\<lambda>(st, V, r). Inr (vm\<lparr>vm_cells := st\<rparr>, V, r))"

definition vm_writeRegister :: "dapi \<Rightarrow> VMState \<Rightarrow> RegValue \<Rightarrow> (VMState \<times> bool) res" where
  "vm_writeRegister D vm V =
     rbind (writeRegister D (vm_cells vm) (m_CPU vm) V) (\<lambda>(st, C, r). Inr (vm\<lparr>vm_cells := st, m_CPU := C\<rparr>, r))"

definition vm_isSYMemoryCell :: "VMState \<Rightarrow> u64 \<Rightarrow> u64 \<Rightarrow> bool res" where
  "vm_isSYMemoryCell vm addr sz = isSYMemoryCell (m_MEM vm) addr sz"

definition vm_readMemory :: "VMState \<Rightarrow> MemValue \<Rightarrow> (VMState \<times> MemValue \<times> bool) res" where
  "vm_readMemory vm V =
     rbind (readMemoryCell (vm_cells vm) (m_MEM vm) V) (\<lambda>(st, V, r). Inr (vm\<lparr>vm_cells := st\<rparr>, V, r))"

definition vm_writeMemory :: "VMState \<Rightarrow> MemValue \<Rightarrow> (VMState \<times> bool) res" where
  "vm_writeMemory vm V =
     rbind (writeMemoryCell (vm_cells vm) (m_MEM vm) V) (\<lambda>(st, M, r). Inr (vm\<lparr>vm_cells := st, m_MEM := M\<rparr>, r))"

definition SetCPUState :: "VMState \<Rightarrow> u64 list \<Rightarrow> VMState" where
  "SetCPUState vm regs = vm\<lparr>m_CPU := setConcreteCPUState regs (m_CPU vm)\<rparr>"

definition ReadCPUState :: "VMState \<Rightarrow> u64 list" where
  "ReadCPUState vm = readConcreteCPUState (m_CPU vm)"

definition vm_readConReg :: "VMState \<Rightarrow> u32 \<Rightarrow> u64 res" where
  "vm_readConReg vm idx = readConReg (m_CPU vm) idx"

definition vm_writeConReg :: "VMState \<Rightarrow> u32 \<Rightarrow> u64 \<Rightarrow> VMState res" where
  "vm_writeConReg vm idx val = rbind (writeConReg (m_CPU vm) idx val) (\<lambda>C. Inr (vm\<lparr>m_CPU := C\<rparr>))"

definition vm_clearAllSymFlag :: "dapi \<Rightarrow> VMState \<Rightarrow> VMState res" where
  "vm_clearAllSymFlag D vm = rbind (clearAllSymFlag D (m_CPU vm)) (\<lambda>C. Inr (vm\<lparr>m_CPU := C\<rparr>))"

definition vm_getFlagBit :: "dapi \<Rightarrow> VMState \<Rightarrow> u32 \<Rightarrow> FLAG_STAT res" where
  "vm_getFlagBit D vm flag_index = getFlagBit D (m_CPU vm) flag_index"

definition vm_setFlagBit :: "dapi \<Rightarrow> VMState \<Rightarrow> u32 \<Rightarrow> FLAG_STAT \<Rightarrow> VMState res" where
  "vm_setFlagBit D vm flag_index flag =
     rbind (setFlagBit D (m_CPU vm) flag_index flag) (\<lambda>C. Inr (vm\<lparr>m_CPU := C\<rparr>))"

definition vm_getFlagBit_instr :: "VMState \<Rightarrow> u32 \<Rightarrow> nat option res" where
  "vm_getFlagBit_instr vm flag_index = getFlagBit_instr (m_CPU vm) flag_index"

definition vm_setFlagBit_instr :: "VMState \<Rightarrow> u32 \<Rightarrow> nat option \<Rightarrow> VMState res" where
  "vm_setFlagBit_instr vm flag_index ptr =
     rbind (setFlagBit_instr (m_CPU vm) flag_index ptr) (\<lambda>C. Inr (vm\<lparr>m_CPU := C\<rparr>))"

definition vm_FlagBitDefinited :: "VMState \<Rightarrow> u32 \<Rightarrow> bool res" where
  "vm_FlagBitDefinited vm flag_index = FlagBitDefinited (m_CPU vm) flag_index"

definition vm_SaveFlagChangingInstruction :: "VMState \<Rightarrow> nat option \<Rightarrow> VMState \<times> bool" where
  "vm_SaveFlagChangingInstruction vm ptr =
     (let (E, r) = SaveFlagChangingInstruction (m_EFlagsMgr vm) ptr in (vm\<lparr>m_EFlagsMgr := E\<rparr>, r))"

definition vm_SaveFlagChangingInstructionExpr ::
  "(entryID \<Rightarrow> nat) \<Rightarrow> dapi \<Rightarrow> VMState \<Rightarrow> entryID \<Rightarrow> expr option \<Rightarrow> (VMState \<times> bool) res" where
  "vm_SaveFlagChangingInstructionExpr N D vm instrID e =
     rbind (SaveFlagChangingInstructionExpr N D (m_EFlagsMgr vm) (m_CPU vm) instrID e) (\<lambda>(E, C, r).
       Inr (vm\<lparr>m_EFlagsMgr := E, m_CPU := C\<rparr>, r))"

section \<open>Symbolic objects\<close>

text \<open>The shift count is the size and three more; the precedence of the operators is the code's.\<close>

definition HashTogether :: "u64 \<Rightarrow> u64 \<Rightarrow> u64 res" where
  "HashTogether addr sz =
     (if unat (3 + sz) < 64 then Inr (push_bit (unat (3 + sz)) addr) else Inl UndefinedShift)"

definition obj_value :: "u64 \<Rightarrow> u64 \<Rightarrow> u64 option" where
  "obj_value sz conVal = (if sz \<in> set int_sizes then Some (take_bit (8 * unat sz) conVal) else None)"

text \<open>
  The name is a C string and may be null, which std::string refuses with an exception. The cell is
  written as symbolic with the concrete value 0, not with the value given.
\<close>

definition createSYMemObject ::
  "VMState \<Rightarrow> u64 \<Rightarrow> u64 \<Rightarrow> bool \<Rightarrow> bool \<Rightarrow> u64 \<Rightarrow> string option \<Rightarrow> (VMState \<times> bool) res" where
  "createSYMemObject vm addr sz isSigned hasSeed conVal name =
     (case name of
        None \<Rightarrow> Inl Thrown
      | Some nm \<Rightarrow>
          let ptr = next_obj vm; e = UDefExpr (Some ptr);
              obj = \<lparr>mo_name = nm, mo_addr = addr, mo_size = sz, mo_is_signed = isSigned, mo_has_seed = hasSeed,
                mo_expr = e, mo_val = obj_value sz conVal\<rparr>
          in rbind (HashTogether addr sz) (\<lambda>h.
             vm_writeMemory (vm\<lparr>m_SYMemObjects := (m_SYMemObjects vm)(h \<mapsto> ptr),
                 mem_objs := (mem_objs vm)(ptr \<mapsto> obj), next_obj := ptr + 1\<rparr>)
               \<lparr>mv_addr = addr, mv_size = sz, mv_bsym = True, mv_isSymList = False, mv_i64 = 0,
                mv_expr = Some e, mv_symcellPtr = None\<rparr>))"

definition destroySYMemObject :: "VMState \<Rightarrow> u64 \<Rightarrow> u64 \<Rightarrow> VMState res" where
  "destroySYMemObject vm addr sz =
     rbind (HashTogether addr sz) (\<lambda>h.
     case m_SYMemObjects vm h of
       None \<Rightarrow> Inl AssertFail
     | Some ptr \<Rightarrow>
         rbind (vm_writeMemory (vm\<lparr>m_SYMemObjects := (m_SYMemObjects vm)(h := None),
             mem_objs := (mem_objs vm)(ptr := None)\<rparr>)
           \<lparr>mv_addr = addr, mv_size = sz, mv_bsym = False, mv_isSymList = False, mv_i64 = 0,
            mv_expr = None, mv_symcellPtr = None\<rparr>) (\<lambda>(vm, r). Inr vm))"

text \<open>The expression of a register object refers to no object.\<close>

definition reg_obj_name :: "u32 \<Rightarrow> u32 \<Rightarrow> string" where
  "reg_obj_name index sz = ''REG_0x'' @ show_base 16 (unat index) @ ''_'' @ show_int False (sint sz)"

definition createSYRegObject ::
  "dapi \<Rightarrow> VMState \<Rightarrow> u32 \<Rightarrow> u32 \<Rightarrow> bool \<Rightarrow> bool \<Rightarrow> u64 \<Rightarrow> (VMState \<times> bool) res" where
  "createSYRegObject D vm index sz isSigned hasSeed conVal =
     (let ptr = next_obj vm; e = UDefExpr None;
          obj = \<lparr>ro_name = reg_obj_name index sz, ro_indx = index, ro_size = sz, ro_is_signed = isSigned,
            ro_has_seed = hasSeed, ro_expr = e, ro_val = obj_value (ucast sz) conVal\<rparr>
      in rbind (HashTogether (ucast index) (ucast sz)) (\<lambda>h.
         vm_writeRegister D (vm\<lparr>m_SYRegObjects := (m_SYRegObjects vm)(h \<mapsto> ptr),
             reg_objs := (reg_objs vm)(ptr \<mapsto> obj), next_obj := ptr + 1\<rparr>)
           \<lparr>rv_indx = index, rv_size = sz, rv_bsym = True, rv_isSymList = False, rv_i64 = 0,
            rv_expr = Some e, rv_symcellPtr = None\<rparr>))"

definition destroySYRegObject :: "dapi \<Rightarrow> VMState \<Rightarrow> u32 \<Rightarrow> u32 \<Rightarrow> VMState res" where
  "destroySYRegObject D vm index sz =
     rbind (HashTogether (ucast index) (ucast sz)) (\<lambda>h.
     case m_SYRegObjects vm h of
       None \<Rightarrow> Inl AssertFail
     | Some ptr \<Rightarrow>
         rbind (vm_writeRegister D (vm\<lparr>m_SYRegObjects := (m_SYRegObjects vm)(h := None),
             reg_objs := (reg_objs vm)(ptr := None)\<rparr>)
           \<lparr>rv_indx = index, rv_size = sz, rv_bsym = False, rv_isSymList = False, rv_i64 = 0,
            rv_expr = None, rv_symcellPtr = None\<rparr>) (\<lambda>(vm, r). Inr vm))"


section \<open>The invariant\<close>

text \<open>
  Memory and processor are well formed, and the lists of both are apart on the heap they share.
  The views of a state: the symbolic byte at an address, and at a position of a register's word.
\<close>

definition vm_lists :: "VMState \<Rightarrow> slm list" where
  "vm_lists vm = m_AllSymbolList (m_MEM vm) # m_symList (m_CPU vm)"

definition vm_wf :: "VMState \<Rightarrow> bool" where
  "vm_wf vm \<longleftrightarrow> mem_wf (vm_cells vm) (m_MEM vm) \<and> cpu_wf (vm_cells vm) (m_CPU vm) \<and>
     family_ok (vm_cells vm) (vm_lists vm)"

definition vm_mem :: "VMState \<Rightarrow> u64 \<Rightarrow> (expr \<times> int) option" where
  "vm_mem vm = sym_at (vm_cells vm) (m_MEM vm)"

definition vm_word :: "VMState \<Rightarrow> nat \<Rightarrow> int \<Rightarrow> (expr \<times> int) option" where
  "vm_word vm i = bytes_of (vm_cells vm, m_symList (m_CPU vm) ! i)"

lemma family_tail: "family_ok st (m # ms) \<Longrightarrow> family_ok st ms"
  unfolding family_ok_def by (metis Suc_less_eq length_Cons nth_Cons_Suc old.nat.inject)

lemma cpu_wf_same_bytes:
  assumes "cpu_wf st C" "family_ok st' (m_symList C)"
    and "\<And>i. i < 32 \<Longrightarrow> bytes_of (st', m_symList C ! i) = bytes_of (st, m_symList C ! i)"
  shows "cpu_wf st' C"
  using assms by (simp add: cpu_wf_def)

lemma mem_wf_same_bytes:
  assumes "mem_wf st M" "slm_wf (st', m_AllSymbolList M)"
    and "bytes_of (st', m_AllSymbolList M) = bytes_of (st, m_AllSymbolList M)"
  shows "mem_wf st' M" "sym_at st' M = sym_at st M"
  using assms by (simp_all add: mem_wf_def sym_at_def fun_eq_iff)

text \<open>The change of the list a write makes is one of the two steps the family knows.\<close>

lemma writeMemoryCell_prim:
  assumes w: "writeMemoryCell st M v = Inr (st', M', True)" and r: "mem_range (mv_addr v) (mv_size v)"
    and v: "\<not> mv_isSymList v" "mv_bsym v \<longrightarrow> mv_expr v = Some e"
  shows "(if mv_bsym v then put_expr (sint (mv_addr v)) (int (unat (mv_size v))) e (st, m_AllSymbolList M)
      else rem (sint (mv_addr v)) (int (unat (mv_size v))) (st, m_AllSymbolList M)) = Inr (st', m_AllSymbolList M')"
  using w v mem_rangeD(2) [OF r]
  by (cases "mv_bsym v")
    (auto simp: writeMemoryCell_def Let_def split_beta mem_writeSymbolicExpr_def put_expr_def rem_def
      rbind_eq_Inr_iff rassert_eq_Inr_iff split: if_splits)

lemma writeRegister_prim:
  assumes w: "writeRegister D st C V = Inr (st', C', True)"
    and D: "dapi_ok D" "regs_ok D C" and r: "saved_reg r i sz" and len: "length (m_symList C) = 32"
    and V: "rv_indx V = reg_id D r" "rv_size V = sz" "\<not> rv_isSymList V" "rv_bsym V \<longrightarrow> rv_expr V = Some e"
  shows "\<exists>m'. (if rv_bsym V then put_expr 0 (int (unat sz)) e (st, m_symList C ! i)
      else rem 0 (int (unat sz)) (st, m_symList C ! i)) = Inr (st', m') \<and> m_symList C' = (m_symList C)[i := m']"
proof -
  obtain R where R: "idxToReg C (reg_id D r) = Inr R" "indx R = reg_id D r" "reg_size R = sz" "slot R = i"
    "RegToSubIndex D R = Inr (part_of sz)" "\<not> is_first_byte D R" by (rule reg_found [OF D r])
  have s: "sz \<in> {1, 2, 4, 8}" and i: "i < 32" using saved_reg_size [OF r] by auto
  show ?thesis
  proof (cases "rv_bsym V")
    case True
    then show ?thesis
      using w R V part_range [OF s] i len s
      by (auto simp: writeRegister_def cpu_writeConcreteValue_def poke_word_def arr_get_def setSYReg_def poke_bits_def
          put_expr_def set_list_def split_beta Let_def rbind_eq_Inr_iff split: if_splits)
  next
    case False
    then show ?thesis
      using w R V part_range [OF s] i len s
      by (auto simp: writeRegister_def cpu_writeConcreteValue_def poke_word_def arr_get_def clrSYReg_def poke_bits_def
          rem_def set_list_def split_beta Let_def rbind_eq_Inr_iff split: if_splits)
  qed
qed

lemma vm_wfD:
  assumes "vm_wf vm"
  shows "mem_wf (vm_cells vm) (m_MEM vm)" "cpu_wf (vm_cells vm) (m_CPU vm)" "family_ok (vm_cells vm) (vm_lists vm)"
    "length (m_symList (m_CPU vm)) = 32" "length (vm_lists vm) = 33"
  using assms by (auto simp: vm_wf_def vm_lists_def cpu_wf_def)

lemma vm_wf_cong:
  "m_CPU vm' = m_CPU vm \<Longrightarrow> m_MEM vm' = m_MEM vm \<Longrightarrow> vm_cells vm' = vm_cells vm \<Longrightarrow> vm_wf vm' = vm_wf vm"
  by (simp add: vm_wf_def vm_lists_def)

text \<open>Memory operations leave the registers alone.\<close>

lemma vm_writeMemory_view:
  assumes wf: "vm_wf vm" and r: "mem_range (mv_addr v) (mv_size v)"
    and v: "\<not> mv_isSymList v" "mv_bsym v \<longrightarrow> mv_expr v = Some e"
  shows "\<exists>st' M'. vm_writeMemory vm v = Inr (vm\<lparr>vm_cells := st', m_MEM := M'\<rparr>, True) \<and>
    vm_wf (vm\<lparr>vm_cells := st', m_MEM := M'\<rparr>) \<and>
    phys M' = put_bytes (unat (mv_size v)) (mv_addr v) (mv_i64 v) (phys (m_MEM vm)) \<and>
    vm_mem (vm\<lparr>vm_cells := st', m_MEM := M'\<rparr>) = (\<lambda>a. if a \<in> byte_range (mv_addr v) (mv_size v)
      then (if mv_bsym v then Some (byte_ref e (sint a - sint (mv_addr v))) else None) else vm_mem vm a) \<and>
    (\<forall>i < 32. vm_word (vm\<lparr>vm_cells := st', m_MEM := M'\<rparr>) i = vm_word vm i)"
proof -
  note W = vm_wfD [OF wf]
  have e: "if mv_bsym v then mv_expr v = Some e else True" using v(2) by simp
  obtain st' M' where w: "writeMemoryCell (vm_cells vm) (m_MEM vm) v = Inr (st', M', True)" "mem_wf st' M'"
    "phys M' = put_bytes (unat (mv_size v)) (mv_addr v) (mv_i64 v) (phys (m_MEM vm))"
    "sym_at st' M' = (\<lambda>a. if a \<in> byte_range (mv_addr v) (mv_size v)
      then (if mv_bsym v then Some (byte_ref e (sint a - sint (mv_addr v))) else None) else sym_at (vm_cells vm) (m_MEM vm) a)"
    using writeMemoryCell_ok [OF W(1) r v(1) e] by blast
  note p = writeMemoryCell_prim [OF w(1) r v]
  have l: "vm_lists vm ! 0 = m_AllSymbolList (m_MEM vm)" "0 < length (vm_lists vm)"
    "(vm_lists vm)[0 := m] = m # m_symList (m_CPU vm)" for m by (simp_all add: vm_lists_def)
  have fam: "family_ok st' (m_AllSymbolList M' # m_symList (m_CPU vm))"
    "\<forall>j < 33. 0 < j \<longrightarrow> bytes_of (st', (m_AllSymbolList M' # m_symList (m_CPU vm)) ! j) = bytes_of (vm_cells vm, vm_lists vm ! j)"
  proof -
    have "family_ok st' (m_AllSymbolList M' # m_symList (m_CPU vm)) \<and>
      (\<forall>j < 33. 0 < j \<longrightarrow> bytes_of (st', (m_AllSymbolList M' # m_symList (m_CPU vm)) ! j) = bytes_of (vm_cells vm, vm_lists vm ! j))"
    proof (cases "mv_bsym v")
      case True
      then show ?thesis
        using p family_put [OF W(3) l(2) mem_rangeD(6) [OF r], of e] by (auto simp: l(1,3) W(5))
    next
      case False
      then show ?thesis
        using p family_rem [OF W(3) l(2) mem_rangeD(6) [OF r]] by (auto simp: l(1,3) W(5))
    qed
    then show "family_ok st' (m_AllSymbolList M' # m_symList (m_CPU vm))"
      "\<forall>j < 33. 0 < j \<longrightarrow> bytes_of (st', (m_AllSymbolList M' # m_symList (m_CPU vm)) ! j) = bytes_of (vm_cells vm, vm_lists vm ! j)"
      by blast+
  qed
  have same: "bytes_of (st', m_symList (m_CPU vm) ! i) = bytes_of (vm_cells vm, m_symList (m_CPU vm) ! i)" if "i < 32" for i
    using fam(2) [rule_format, of "Suc i"] that by (simp add: vm_lists_def)
  have "cpu_wf st' (m_CPU vm)" by (rule cpu_wf_same_bytes [OF W(2) family_tail [OF fam(1)]]) (rule same)
  then have "vm_wf (vm\<lparr>vm_cells := st', m_MEM := M'\<rparr>)" using w(2) fam(1) by (simp add: vm_wf_def vm_lists_def)
  then show ?thesis using w same by (intro exI [of _ st'] exI [of _ M']) (simp add: vm_writeMemory_def vm_mem_def vm_word_def cong: if_cong)
qed

text \<open>Register operations leave memory alone.\<close>

lemma vm_writeRegister_view:
  assumes wf: "vm_wf vm" and D: "dapi_ok D" "regs_ok D (m_CPU vm)" and r: "saved_reg r i sz"
    and V: "rv_indx V = reg_id D r" "rv_size V = sz" "\<not> rv_isSymList V" "rv_bsym V \<longrightarrow> rv_expr V = Some e"
  shows "\<exists>st' C'. vm_writeRegister D vm V = Inr (vm\<lparr>vm_cells := st', m_CPU := C'\<rparr>, True) \<and>
    vm_wf (vm\<lparr>vm_cells := st', m_CPU := C'\<rparr>) \<and> m_Regs C' = m_Regs (m_CPU vm) \<and>
    m_ArrRegs C' = (m_ArrRegs (m_CPU vm))[i := written_word sz (rv_i64 V) (m_ArrRegs (m_CPU vm) ! i)] \<and>
    (\<forall>j < 32. vm_word (vm\<lparr>vm_cells := st', m_CPU := C'\<rparr>) j =
      (if j = i then (\<lambda>k. if 0 \<le> k \<and> k < int (unat sz)
         then (if rv_bsym V then Some (byte_ref e k) else None) else vm_word vm i k) else vm_word vm j)) \<and>
    vm_mem (vm\<lparr>vm_cells := st', m_CPU := C'\<rparr>) = vm_mem vm"
proof -
  note W = vm_wfD [OF wf]
  have s: "sz \<in> {1, 2, 4, 8}" and i: "i < 32" using saved_reg_size [OF r] by auto
  have e: "rv_bsym V \<longrightarrow> rv_expr V \<noteq> None" using V(4) by auto
  obtain st' C' where w: "writeRegister D (vm_cells vm) (m_CPU vm) V = Inr (st', C', True)" "cpu_wf st' C'"
    "m_Regs C' = m_Regs (m_CPU vm)"
    "m_ArrRegs C' = (m_ArrRegs (m_CPU vm))[i := written_word sz (rv_i64 V) (m_ArrRegs (m_CPU vm) ! i)]"
    "\<forall>j < 32. bytes_of (st', m_symList C' ! j) = (if j = i then (\<lambda>k. if 0 \<le> k \<and> k < int (unat sz)
         then map_option (\<lambda>e. byte_ref e k) (if rv_bsym V then rv_expr V else None)
         else bytes_of (vm_cells vm, m_symList (m_CPU vm) ! i) k) else bytes_of (vm_cells vm, m_symList (m_CPU vm) ! j))"
    using writeRegister_spec [OF D r W(2) V(1-3) refl e] by blast
  obtain m' where m': "(if rv_bsym V then put_expr 0 (int (unat sz)) e (vm_cells vm, m_symList (m_CPU vm) ! i)
      else rem 0 (int (unat sz)) (vm_cells vm, m_symList (m_CPU vm) ! i)) = Inr (st', m')"
    "m_symList C' = (m_symList (m_CPU vm))[i := m']"
    using writeRegister_prim [OF w(1) D r W(4) V] by blast
  have l: "vm_lists vm ! Suc i = m_symList (m_CPU vm) ! i" "Suc i < length (vm_lists vm)"
    "(vm_lists vm)[Suc i := m'] = m_AllSymbolList (m_MEM vm) # m_symList C'"
    using i W(5) m'(2) by (simp_all add: vm_lists_def)
  have fam: "family_ok st' (m_AllSymbolList (m_MEM vm) # m_symList C') \<and>
      bytes_of (st', m_AllSymbolList (m_MEM vm)) = bytes_of (vm_cells vm, m_AllSymbolList (m_MEM vm))"
  proof (cases "rv_bsym V")
    case True
    obtain st2 m2 where f: "put_expr 0 (int (unat sz)) e (vm_cells vm, vm_lists vm ! Suc i) = Inr (st2, m2)"
      "family_ok st2 ((vm_lists vm)[Suc i := m2])"
      "\<forall>j < length (vm_lists vm). bytes_of (st2, (vm_lists vm)[Suc i := m2] ! j) = (if j = Suc i
         then (\<lambda>x. if 0 \<le> x \<and> x < 0 + int (unat sz) then Some (byte_ref e (x - 0)) else bytes_of (vm_cells vm, vm_lists vm ! Suc i) x)
         else bytes_of (vm_cells vm, vm_lists vm ! j))"
      using family_put [OF W(3) l(2) reg_range [OF s], of e] by blast
    then have "st2 = st'" "m2 = m'" using m'(1) True by (simp_all add: l(1))
    then show ?thesis using f(2) f(3) [rule_format, of 0] l(3) W(5) by (simp add: vm_lists_def)
  next
    case False
    obtain st2 m2 where f: "rem 0 (int (unat sz)) (vm_cells vm, vm_lists vm ! Suc i) = Inr (st2, m2)"
      "family_ok st2 ((vm_lists vm)[Suc i := m2])"
      "\<forall>j < length (vm_lists vm). bytes_of (st2, (vm_lists vm)[Suc i := m2] ! j) = (if j = Suc i
         then (\<lambda>x. if 0 \<le> x \<and> x < 0 + int (unat sz) then None else bytes_of (vm_cells vm, vm_lists vm ! Suc i) x)
         else bytes_of (vm_cells vm, vm_lists vm ! j))"
      using family_rem [OF W(3) l(2) reg_range [OF s]] by blast
    then have "st2 = st'" "m2 = m'" using m'(1) False by (simp_all add: l(1))
    then show ?thesis using f(2) f(3) [rule_format, of 0] l(3) W(5) by (simp add: vm_lists_def)
  qed
  have ml: "slm_wf (st', m_AllSymbolList (m_MEM vm))" using family_okD(1) [of st' _ 0] fam by fastforce
  have M: "mem_wf st' (m_MEM vm)" "sym_at st' (m_MEM vm) = sym_at (vm_cells vm) (m_MEM vm)"
    using mem_wf_same_bytes [OF W(1) ml] fam by auto
  have "vm_wf (vm\<lparr>vm_cells := st', m_CPU := C'\<rparr>)" using w(2) fam M by (simp add: vm_wf_def vm_lists_def)
  moreover have "vm_word (vm\<lparr>vm_cells := st', m_CPU := C'\<rparr>) j =
      (if j = i then (\<lambda>k. if 0 \<le> k \<and> k < int (unat sz)
         then (if rv_bsym V then Some (byte_ref e k) else None) else vm_word vm i k) else vm_word vm j)" if "j < 32" for j
    using w(5) that V(4) by (simp add: vm_word_def fun_eq_iff)
  ultimately show ?thesis using w M(2)
    by (intro exI [of _ st'] exI [of _ C']) (simp add: vm_writeRegister_def vm_mem_def)
qed

text \<open>A read may allocate cells; nothing else changes.\<close>

definition same_vm :: "VMState \<Rightarrow> VMState \<Rightarrow> bool" where
  "same_vm vm vm' \<longleftrightarrow> vm' = vm\<lparr>vm_cells := vm_cells vm'\<rparr> \<and> vm_wf vm' \<and> vm_mem vm' = vm_mem vm \<and>
     (\<forall>i < 32. vm_word vm' i = vm_word vm i)"

lemma same_vm_refl: "vm_wf vm \<Longrightarrow> same_vm vm vm"
  by (simp add: same_vm_def)

lemma same_vm_trans: "same_vm vm vm' \<Longrightarrow> same_vm vm' vm'' \<Longrightarrow> same_vm vm vm''"
  unfolding same_vm_def by (metis VMState.surjective VMState.update_convs(6))

lemma same_vm_cells:
  assumes wf: "vm_wf vm" and fam: "family_ok st' (vm_lists vm)"
    and b: "\<forall>j < length (vm_lists vm). bytes_of (st', vm_lists vm ! j) = bytes_of (vm_cells vm, vm_lists vm ! j)"
  shows "same_vm vm (vm\<lparr>vm_cells := st'\<rparr>)"
proof -
  note W = vm_wfD [OF wf]
  have l: "vm_lists vm = m_AllSymbolList (m_MEM vm) # m_symList (m_CPU vm)" by (simp add: vm_lists_def)
  have w: "bytes_of (st', m_symList (m_CPU vm) ! i) = bytes_of (vm_cells vm, m_symList (m_CPU vm) ! i)" if "i < 32" for i
    using b [rule_format, of "Suc i"] that W(5) by (simp add: l)
  have m: "bytes_of (st', m_AllSymbolList (m_MEM vm)) = bytes_of (vm_cells vm, m_AllSymbolList (m_MEM vm))"
    using b [rule_format, of 0] W(5) by (simp add: l)
  have "slm_wf (st', m_AllSymbolList (m_MEM vm))" using family_okD(1) [OF fam, of 0] by (simp add: l)
  note M = mem_wf_same_bytes [OF W(1) this m]
  have "cpu_wf st' (m_CPU vm)"
    by (rule cpu_wf_same_bytes [OF W(2)]) (use fam w family_tail l in auto)
  then show ?thesis using M fam w by (simp add: same_vm_def vm_wf_def vm_lists_def vm_mem_def vm_word_def)
qed

lemma vm_readMemory_view:
  assumes wf: "vm_wf vm" and r: "mem_range (mv_addr v) (mv_size v)" and v: "\<not> mv_isSymList v"
  defines "c \<equiv> signed_take_bit (8 * unat (mv_size v) - 1) (get_bytes (unat (mv_size v)) (mv_addr v) (phys (m_MEM vm)))"
  shows "if \<exists>a \<in> byte_range (mv_addr v) (mv_size v). vm_mem vm a \<noteq> None
    then \<exists>vm' e. vm_readMemory vm v = Inr (vm', v\<lparr>mv_bsym := True, mv_expr := Some e, mv_i64 := c\<rparr>, True) \<and>
      same_vm vm vm' \<and>
      reads_as e (int (unat (mv_size v))) (or_concrete (\<lambda>k. bytes_of (vm_cells vm, m_AllSymbolList (m_MEM vm)) (sint (mv_addr v) + k)) c)
    else vm_readMemory vm v = Inr (vm, v\<lparr>mv_bsym := False, mv_isSymList := False, mv_i64 := c\<rparr>, True)"
proof (cases "\<exists>a \<in> byte_range (mv_addr v) (mv_size v). vm_mem vm a \<noteq> None")
  case False
  then have "\<forall>a \<in> byte_range (mv_addr v) (mv_size v). sym_at (vm_cells vm) (m_MEM vm) a = None"
    unfolding vm_mem_def by blast
  from readMemoryCell_conc [OF vm_wfD(1) [OF wf] r this] show ?thesis
    unfolding if_not_P [OF False] by (simp add: vm_readMemory_def c_def)
next
  case True
  note W = vm_wfD [OF wf]
  let ?a = "mv_addr v" and ?n = "mv_size v" and ?l = "m_AllSymbolList (m_MEM vm)"
  obtain a where a: "a \<in> byte_range ?a ?n" "sym_at (vm_cells vm) (m_MEM vm) a \<noteq> None" using True by (auto simp: vm_mem_def)
  note D = mem_rangeD [OF r]
  have ll: "vm_lists vm ! 0 = ?l" "0 < length (vm_lists vm)" by (simp_all add: vm_lists_def)
  have n: "int (unat ?n) \<le> 8" using D(4) by linarith
  have ex: "\<exists>x. sint ?a \<le> x \<and> x < sint ?a + int (unat ?n) \<and> bytes_of (vm_cells vm, vm_lists vm ! 0) x \<noteq> None"
    using a by (intro exI [of _ "sint a"]) (simp add: byte_range_sint [OF r] sym_at_def ll)
  obtain st' e where g: "GetExpr (vm_cells vm) ?l (sint ?a) (int (unat ?n)) c = Inr (st', e)" "family_ok st' (vm_lists vm)"
    "\<forall>j < length (vm_lists vm). bytes_of (st', vm_lists vm ! j) = bytes_of (vm_cells vm, vm_lists vm ! j)"
    "reads_as e (int (unat ?n)) (or_concrete (\<lambda>k. bytes_of (vm_cells vm, ?l) (sint ?a + k)) c)"
    using family_get [OF W(3) ll(2) D(6) n ex, of c] unfolding ll(1) by blast
  have b: "isSYMemoryCell (m_MEM vm) ?a ?n = Inr True" using isSYMemoryCell_ok [OF W(1) r] a by auto
  have "a \<in> sym_bytes (m_Bitmap (m_MEM vm))" using W(1) a(2) by (simp add: mem_wf_def)
  then have ck: "mem_read_checks (m_MEM vm) ?a ?n = Inr True" by (rule mem_read_checks_ok [OF r _ a(1)])
  have "readMemoryCell (vm_cells vm) (m_MEM vm) v = Inr (st', v\<lparr>mv_bsym := True, mv_expr := Some e, mv_i64 := c\<rparr>, True)"
    using b ck g(1) D(1,2) v
    by (simp add: readMemoryCell_def isSYMemoryCell_def mem_readSymbolicExpr_def mem_readConcreteValue_def Let_def c_def)
  then show ?thesis unfolding if_P [OF True] using same_vm_cells [OF wf g(2,3)] g(4)
    by (intro exI [of _ "vm\<lparr>vm_cells := st'\<rparr>"] exI [of _ e]) (simp add: vm_readMemory_def)
qed

lemma vm_readRegister_view:
  assumes wf: "vm_wf vm" and D: "dapi_ok D" "regs_ok D (m_CPU vm)" and r: "saved_reg r i sz"
    and V: "rv_indx V = reg_id D r" "rv_size V = sz" "\<not> rv_isSymList V"
  defines "c \<equiv> read_word sz (m_ArrRegs (m_CPU vm) ! i) (rv_i64 V)"
  shows "if \<exists>k. 0 \<le> k \<and> k < int (unat sz) \<and> vm_word vm i k \<noteq> None
    then \<exists>vm' e. vm_readRegister D vm V = Inr (vm', V\<lparr>rv_bsym := True, rv_i64 := c, rv_expr := Some e\<rparr>, True) \<and>
      same_vm vm vm' \<and> reads_as e (int (unat sz)) (or_concrete (vm_word vm i) c)
    else vm_readRegister D vm V = Inr (vm, V\<lparr>rv_bsym := False, rv_isSymList := False, rv_i64 := c\<rparr>, True)"
proof (cases "\<exists>k. 0 \<le> k \<and> k < int (unat sz) \<and> vm_word vm i k \<noteq> None")
  case False
  note s = readRegister_spec [OF D r vm_wfD(2) [OF wf] V]
  have "\<not> (\<exists>k. 0 \<le> k \<and> k < int (unat sz) \<and> bytes_of (vm_cells vm, m_symList (m_CPU vm) ! i) k \<noteq> None)"
    using False by (simp add: vm_word_def)
  then show ?thesis unfolding if_not_P [OF False] using s by (simp add: vm_readRegister_def c_def)
next
  case True
  note W = vm_wfD [OF wf]
  obtain R where R: "idxToReg (m_CPU vm) (reg_id D r) = Inr R" "indx R = reg_id D r" "reg_size R = sz" "slot R = i"
    "RegToSubIndex D R = Inr (part_of sz)" "\<not> is_first_byte D R" by (rule reg_found [OF D r])
  have s: "sz \<in> {1, 2, 4, 8}" and i: "i < 32" using saved_reg_size [OF r] by auto
  have iR: "slot R < 32" using i R(4) by simp
  let ?l = "m_symList (m_CPU vm) ! i"
  have ll: "vm_lists vm ! Suc i = ?l" "Suc i < length (vm_lists vm)" using i W(5) by (simp_all add: vm_lists_def)
  have b: "isSYReg_part (m_CPU vm) R (part_of sz) = Inr True"
    using isSYReg_part_ok [OF W(2) iR s] True unfolding R(4) by (simp add: vm_word_def)
  have cr: "cpu_readConcreteValue D (m_CPU vm) R (rv_i64 V) = Inr (Some c)"
    using cpu_readConcreteValue_ok [OF R(3) s R(4)] i cpu_wfD(1) [OF W(2)] R(6) by (simp add: c_def)
  have n: "int (unat sz) \<le> 8" using s by auto
  have ex: "\<exists>x. 0 \<le> x \<and> x < 0 + int (unat sz) \<and> bytes_of (vm_cells vm, vm_lists vm ! Suc i) x \<noteq> None"
    using True by (simp add: vm_word_def ll)
  obtain st' e where g: "GetExpr (vm_cells vm) ?l 0 (int (unat sz)) c = Inr (st', e)" "family_ok st' (vm_lists vm)"
    "\<forall>j < length (vm_lists vm). bytes_of (st', vm_lists vm ! j) = bytes_of (vm_cells vm, vm_lists vm ! j)"
    "reads_as e (int (unat sz)) (or_concrete (\<lambda>k. bytes_of (vm_cells vm, ?l) (0 + k)) c)"
    using family_get [OF W(3) ll(2) reg_range [OF s] n ex, of c] unfolding ll(1) by blast
  have "readRegister D (vm_cells vm) (m_CPU vm) V = Inr (st', V\<lparr>rv_bsym := True, rv_i64 := c, rv_expr := Some e\<rparr>, True)"
    using R V b cr part_range [OF s] g(1) i W(4) by (simp add: readRegister_def arr_get_def)
  then show ?thesis unfolding if_P [OF True] using same_vm_cells [OF wf g(2,3)] g(4)
    by (intro exI [of _ "vm\<lparr>vm_cells := st'\<rparr>"] exI [of _ e]) (simp add: vm_readRegister_def vm_word_def)
qed

section \<open>What memory and registers promise together\<close>

text \<open>A sequence of writes, each of a place, a value and a number; the last one whose place has a byte, and where it has it.\<close>

fun write_all :: "('l \<Rightarrow> expr option \<Rightarrow> u64 \<Rightarrow> 'v \<Rightarrow> 'v res) \<Rightarrow> ('l \<times> expr option \<times> u64) list \<Rightarrow> 'v \<Rightarrow> 'v res" where
  "write_all wr [] v = Inr v"
| "write_all wr ((l, x, c) # ws) v = rbind (wr l x c v) (write_all wr ws)"

fun last_cover :: "('l \<Rightarrow> 'b \<Rightarrow> int option) \<Rightarrow> ('l \<times> expr option \<times> u64) list \<Rightarrow> 'b \<Rightarrow> (expr option \<times> u64 \<times> int) option" where
  "last_cover pos [] b = None"
| "last_cover pos ((l, x, c) # ws) b =
     (case last_cover pos ws b of Some y \<Rightarrow> Some y | None \<Rightarrow> map_option (\<lambda>k. (x, c, k)) (pos l b))"

lemma last_cover_none: "\<forall>w \<in> set ws. pos (fst w) b = None \<Longrightarrow> last_cover pos ws b = None"
  by (induction ws) auto

lemma last_cover_at:
  "pos l b = Some k \<Longrightarrow> \<forall>w \<in> set ys. pos (fst w) b = None \<Longrightarrow> last_cover pos (xs @ (l, x, c) # ys) b = Some (x, c, k)"
  by (induction xs) (auto simp: last_cover_none)

text \<open>
  A store of bytes: places can be written with an expression or a concrete value, and a write
  changes the bytes of its place only, to what is stored there. Sequences of writes are dealt with once; the
  symbolic and the concrete bytes of the machine are two such stores.
\<close>

locale byte_store =
  fixes wf :: "'v \<Rightarrow> bool" and place_ok :: "'l \<Rightarrow> bool"
    and wr :: "'l \<Rightarrow> expr option \<Rightarrow> u64 \<Rightarrow> 'v \<Rightarrow> 'v res"
    and bytes :: "'v \<Rightarrow> 'b \<Rightarrow> 'c" and pos :: "'l \<Rightarrow> 'b \<Rightarrow> int option" and stored :: "expr option \<Rightarrow> u64 \<Rightarrow> int \<Rightarrow> 'c"
  assumes wr_ok: "wf v \<Longrightarrow> place_ok l \<Longrightarrow> \<exists>v'. wr l x c v = Inr v' \<and> wf v' \<and>
    bytes v' = (\<lambda>b. case pos l b of None \<Rightarrow> bytes v b | Some k \<Rightarrow> stored x c k)"
begin

lemma write_all_ok:
  "wf v \<Longrightarrow> \<forall>w \<in> set ws. place_ok (fst w) \<Longrightarrow> \<exists>v'. write_all wr ws v = Inr v' \<and> wf v' \<and>
     bytes v' = (\<lambda>b. case last_cover pos ws b of None \<Rightarrow> bytes v b | Some (x, c, k) \<Rightarrow> stored x c k)"
proof (induction ws arbitrary: v)
  case (Cons w ws)
  obtain l x c where w: "w = (l, x, c)" by (cases w)
  obtain v1 where 1: "wr l x c v = Inr v1" "wf v1"
    "bytes v1 = (\<lambda>b. case pos l b of None \<Rightarrow> bytes v b | Some k \<Rightarrow> stored x c k)"
    using wr_ok [of v l x c] Cons.prems w by auto
  obtain v' where "write_all wr ws v1 = Inr v'" "wf v'"
    "bytes v' = (\<lambda>b. case last_cover pos ws b of None \<Rightarrow> bytes v1 b | Some (x, c, k) \<Rightarrow> stored x c k)"
    using Cons.IH [OF 1(2)] Cons.prems(2) by auto
  then show ?case using 1 w by (auto simp: fun_eq_iff split: option.split)
qed simp

end

text \<open>The places of the virtual machine: cells of memory and registers. Its bytes: addresses, and positions of words.\<close>

datatype place = MemCell u64 u64 | Register x86_reg nat u32

datatype byte_at = InMem u64 | InWord nat int

primrec place_ok :: "place \<Rightarrow> bool" where
  "place_ok (MemCell a n) = mem_range a n"
| "place_ok (Register r i sz) = saved_reg r i sz"

fun vm_bytes :: "VMState \<Rightarrow> byte_at \<Rightarrow> (expr \<times> int) option" where
  "vm_bytes vm (InMem a) = vm_mem vm a"
| "vm_bytes vm (InWord i k) = (if i < 32 then vm_word vm i k else None)"

fun place_pos :: "place \<Rightarrow> byte_at \<Rightarrow> int option" where
  "place_pos (MemCell a n) (InMem b) = (if b \<in> byte_range a n then Some (sint b - sint a) else None)"
| "place_pos (MemCell a n) (InWord i k) = None"
| "place_pos (Register r i sz) (InMem b) = None"
| "place_pos (Register r i sz) (InWord j k) = (if j = i \<and> 0 \<le> k \<and> k < int (unat sz) then Some k else None)"

text \<open>
  The concrete bytes: those of physical memory and of the words of the registers. The bytes of a number go where the
  symbolic bytes of the place are, from the lowest on; only that of a register of one byte goes to the second byte of the word.
\<close>

fun conc_byte :: "VMState \<Rightarrow> byte_at \<Rightarrow> u8" where
  "conc_byte vm (InMem a) = phys (m_MEM vm) a"
| "conc_byte vm (InWord i k) = (if i < 32 \<and> 0 \<le> k \<and> k < 8 then ucast (drop_bit (8 * nat k) (m_ArrRegs (m_CPU vm) ! i)) else 0)"

fun num_pos :: "place \<Rightarrow> byte_at \<Rightarrow> int option" where
  "num_pos (Register r i sz) (InWord j k) =
     (if j = i \<and> sz = 1 then (if k = 1 then Some 0 else None)
      else if j = i \<and> 0 \<le> k \<and> k < int (unat sz) then Some k else None)"
| "num_pos l b = place_pos l b"

primrec vm_put :: "dapi \<Rightarrow> place \<Rightarrow> expr option \<Rightarrow> u64 \<Rightarrow> VMState \<Rightarrow> VMState res" where
  "vm_put D (MemCell a n) x c vm =
     rbind (vm_writeMemory vm \<lparr>mv_addr = a, mv_size = n, mv_bsym = (x \<noteq> None), mv_isSymList = False, mv_i64 = c,
       mv_expr = x, mv_symcellPtr = None\<rparr>) (\<lambda>(vm, r). rassert r (Inr vm))"
| "vm_put D (Register r i sz) x c vm =
     rbind (vm_writeRegister D vm \<lparr>rv_indx = reg_id D r, rv_size = sz, rv_bsym = (x \<noteq> None), rv_isSymList = False,
       rv_i64 = c, rv_expr = x, rv_symcellPtr = None\<rparr>) (\<lambda>(vm, r). rassert r (Inr vm))"

definition vm_ok :: "dapi \<Rightarrow> VMState \<Rightarrow> bool" where
  "vm_ok D vm \<longleftrightarrow> dapi_ok D \<and> regs_ok D (m_CPU vm) \<and> vm_wf vm"

lemma regs_ok_cong: "m_Regs C' = m_Regs C \<Longrightarrow> regs_ok D C' = regs_ok D C"
  by (simp add: regs_ok_def)

lemma vm_put_ok:
  assumes "vm_ok D vm" "place_ok l"
  shows "\<exists>vm'. vm_put D l x c vm = Inr vm' \<and> vm_ok D vm' \<and>
    vm_bytes vm' = (\<lambda>b. case place_pos l b of None \<Rightarrow> vm_bytes vm b | Some k \<Rightarrow> map_option (\<lambda>e. byte_ref e k) x)"
proof -
  have wf: "vm_wf vm" and D: "dapi_ok D" "regs_ok D (m_CPU vm)" using assms(1) by (simp_all add: vm_ok_def)
  have sx: "x \<noteq> None \<longrightarrow> x = Some (the x)" by simp
  show ?thesis
  proof (cases l)
    case (MemCell a n)
    let ?v = "\<lparr>mv_addr = a, mv_size = n, mv_bsym = (x \<noteq> None), mv_isSymList = False, mv_i64 = c,
       mv_expr = x, mv_symcellPtr = None\<rparr>"
    obtain st' M' where w: "vm_writeMemory vm ?v = Inr (vm\<lparr>vm_cells := st', m_MEM := M'\<rparr>, True)"
      "vm_wf (vm\<lparr>vm_cells := st', m_MEM := M'\<rparr>)"
      "vm_mem (vm\<lparr>vm_cells := st', m_MEM := M'\<rparr>) = (\<lambda>b. if b \<in> byte_range a n
        then (if x \<noteq> None then Some (byte_ref (the x) (sint b - sint a)) else None) else vm_mem vm b)"
      "\<forall>i < 32. vm_word (vm\<lparr>vm_cells := st', m_MEM := M'\<rparr>) i = vm_word vm i"
      using vm_writeMemory_view [OF wf, of ?v "the x", unfolded MemValue.select_convs] assms(2) MemCell sx by fastforce
    have "vm_bytes (vm\<lparr>vm_cells := st', m_MEM := M'\<rparr>) b =
        (case place_pos l b of None \<Rightarrow> vm_bytes vm b | Some k \<Rightarrow> map_option (\<lambda>e. byte_ref e k) x)" for b
      using w(3,4) MemCell by (cases b; cases x) auto
    then show ?thesis using w(1,2) D MemCell by (auto simp: vm_ok_def)
  next
    case (Register r i sz)
    let ?V = "\<lparr>rv_indx = reg_id D r, rv_size = sz, rv_bsym = (x \<noteq> None), rv_isSymList = False,
       rv_i64 = c, rv_expr = x, rv_symcellPtr = None\<rparr>"
    have r: "saved_reg r i sz" using assms(2) Register by simp
    obtain st' C' where w: "vm_writeRegister D vm ?V = Inr (vm\<lparr>vm_cells := st', m_CPU := C'\<rparr>, True)"
      "vm_wf (vm\<lparr>vm_cells := st', m_CPU := C'\<rparr>)" "m_Regs C' = m_Regs (m_CPU vm)"
      "\<forall>j < 32. vm_word (vm\<lparr>vm_cells := st', m_CPU := C'\<rparr>) j =
        (if j = i then (\<lambda>k. if 0 \<le> k \<and> k < int (unat sz)
           then (if x \<noteq> None then Some (byte_ref (the x) k) else None) else vm_word vm i k) else vm_word vm j)"
      "vm_mem (vm\<lparr>vm_cells := st', m_CPU := C'\<rparr>) = vm_mem vm"
      using vm_writeRegister_view [OF wf D r, of ?V "the x", unfolded RegValue.select_convs] sx by fastforce
    have i: "i < 32" using saved_reg_size [OF r] by simp
    have "vm_bytes (vm\<lparr>vm_cells := st', m_CPU := C'\<rparr>) b =
        (case place_pos l b of None \<Rightarrow> vm_bytes vm b | Some k \<Rightarrow> map_option (\<lambda>e. byte_ref e k) x)" for b
      using w(4,5) Register i by (cases b; cases x) auto
    then show ?thesis using w(1-3) D Register regs_ok_cong [OF w(3)] by (auto simp: vm_ok_def)
  qed
qed

lemma put_bytes_conc:
  assumes "mem_range a n"
  shows "put_bytes (unat n) a c ph b = (case num_pos (MemCell a n) (InMem b) of None \<Rightarrow> ph b
    | Some k \<Rightarrow> ucast (drop_bit (8 * nat k) c))"
proof -
  note D = mem_rangeD(4,5) [OF assms]
  have "unat (b - a) < unat n \<longleftrightarrow> b \<in> byte_range a n"
    using D by (auto simp: byte_range_def no_wrap_def unat_sub_if')
  moreover have "unat (b - a) = nat (sint b - sint a)" if b: "b \<in> byte_range a n"
  proof -
    have le: "unat a \<le> unat b" using b by (simp add: byte_range_def)
    show ?thesis unfolding byte_offset [OF assms b] by (simp only: unat_sub_if' if_P [OF le] of_nat_diff [OF le, symmetric] nat_int)
  qed
  ultimately show ?thesis using put_bytes_at [OF D(1), of a c ph b] by simp
qed

lemma written_word_conc:
  assumes "saved_reg r i sz" "0 \<le> k" "k < 8"
  shows "(ucast (drop_bit (8 * nat k) (written_word sz c w)) :: u8) = (case num_pos (Register r i sz) (InWord i k) of
      None \<Rightarrow> ucast (drop_bit (8 * nat k) w) | Some k' \<Rightarrow> ucast (drop_bit (8 * nat k') c))"
proof (rule bit_word_eqI)
  fix m assume m: "m < LENGTH(8)"
  have sz: "sz \<in> {1, 2, 4, 8}" using saved_reg_size [OF assms(1)] by simp
  obtain q where q: "k = int q" using assms(2) by (metis nonneg_int_cases)
  have le: "conc_pos sz \<le> 8 * q + m \<and> 8 * q + m < conc_pos sz + 8 * unat sz \<longleftrightarrow> (if sz = 1 then q = 1 else q < unat sz)"
    using sz m by (auto simp: conc_pos_def)
  have u: "int q < int (unat sz) \<longleftrightarrow> q < unat sz" "int q = 1 \<longleftrightarrow> q = 1" by (simp_all only: of_nat_less_iff of_nat_eq_1_iff)
  have "bit (ucast (drop_bit (8 * nat k) (written_word sz c w)) :: u8) m \<longleftrightarrow> bit (written_word sz c w) (8 * q + m)"
    using m by (simp add: q bit_simps)
  also have "\<dots> \<longleftrightarrow> (if if sz = 1 then q = 1 else q < unat sz then bit c (8 * q + m - conc_pos sz) else bit w (8 * q + m))"
    unfolding written_word_bits [OF sz] le ..
  also have "\<dots> \<longleftrightarrow> bit ((case num_pos (Register r i sz) (InWord i k) of
      None \<Rightarrow> ucast (drop_bit (8 * nat k) w) | Some k' \<Rightarrow> ucast (drop_bit (8 * nat k') c)) :: u8) m"
    unfolding q num_pos.simps u using m by (cases "sz = 1") (simp_all add: conc_pos_def bit_simps)
  finally show "bit (ucast (drop_bit (8 * nat k) (written_word sz c w)) :: u8) m \<longleftrightarrow> bit ((case num_pos (Register r i sz) (InWord i k) of
      None \<Rightarrow> ucast (drop_bit (8 * nat k) w) | Some k' \<Rightarrow> ucast (drop_bit (8 * nat k') c)) :: u8) m" .
qed

lemma vm_put_conc:
  assumes "vm_ok D vm" "place_ok l" "vm_put D l x c vm = Inr vm'"
  shows "conc_byte vm' b = (case num_pos l b of None \<Rightarrow> conc_byte vm b | Some k \<Rightarrow> ucast (drop_bit (8 * nat k) c))"
proof -
  have wf: "vm_wf vm" and D: "dapi_ok D" "regs_ok D (m_CPU vm)" using assms(1) by (simp_all add: vm_ok_def)
  have sx: "x \<noteq> None \<longrightarrow> x = Some (the x)" by simp
  show ?thesis
  proof (cases l)
    case (MemCell a n)
    obtain st' M' where w: "vm' = vm\<lparr>vm_cells := st', m_MEM := M'\<rparr>" "phys M' = put_bytes (unat n) a c (phys (m_MEM vm))"
      using vm_writeMemory_view [OF wf, of "\<lparr>mv_addr = a, mv_size = n, mv_bsym = (x \<noteq> None), mv_isSymList = False, mv_i64 = c,
       mv_expr = x, mv_symcellPtr = None\<rparr>" "the x", unfolded MemValue.select_convs] assms(2,3) MemCell sx by fastforce
    show ?thesis using w put_bytes_conc [of a n c "phys (m_MEM vm)"] assms(2) MemCell
      by (cases b) (simp_all del: num_pos.simps, simp_all)
  next
    case (Register r i sz)
    have r: "saved_reg r i sz" using assms(2) Register by simp
    obtain st' C' where w: "vm' = vm\<lparr>vm_cells := st', m_CPU := C'\<rparr>"
      "m_ArrRegs C' = (m_ArrRegs (m_CPU vm))[i := written_word sz c (m_ArrRegs (m_CPU vm) ! i)]"
      using vm_writeRegister_view [OF wf D r, of "\<lparr>rv_indx = reg_id D r, rv_size = sz, rv_bsym = (x \<noteq> None), rv_isSymList = False,
       rv_i64 = c, rv_expr = x, rv_symcellPtr = None\<rparr>" "the x", unfolded RegValue.select_convs] assms(3) Register sx by fastforce
    have i: "i < 32" using saved_reg_size [OF r] by simp
    have l: "length (m_ArrRegs (m_CPU vm)) = 32" using cpu_wfD(1) [OF vm_wfD(2) [OF wf]] .
    have sz: "uint sz \<le> 8" using saved_reg_size [OF r] by auto
    show ?thesis
    proof (cases b)
      case (InMem a)
      then show ?thesis using w Register by simp
    next
      case (InWord j k)
      show ?thesis
      proof (cases "j = i \<and> 0 \<le> k \<and> k < 8")
        case True
        then show ?thesis using written_word_conc [OF r, of k c "m_ArrRegs (m_CPU vm) ! i"] w l i InWord Register
          by (simp del: num_pos.simps split: option.split)
      next
        case False
        then have "num_pos l b = None" using InWord Register sz by auto
        then show ?thesis using False w l i InWord Register by (auto simp del: num_pos.simps)
      qed
    qed
  qed
qed

lemma vm_put_conc_ok:
  assumes "vm_ok D vm" "place_ok l"
  shows "\<exists>vm'. vm_put D l x c vm = Inr vm' \<and> vm_ok D vm' \<and>
    conc_byte vm' = (\<lambda>b. case num_pos l b of None \<Rightarrow> conc_byte vm b | Some k \<Rightarrow> ucast (drop_bit (8 * nat k) c))"
  using vm_put_ok [OF assms, of x c] vm_put_conc [OF assms] by blast

interpretation vmb: byte_store "vm_ok D" place_ok "vm_put D" vm_bytes place_pos "\<lambda>x c k. map_option (\<lambda>e. byte_ref e k) x" for D
  by unfold_locales (rule vm_put_ok)

interpretation vmc: byte_store "vm_ok D" place_ok "vm_put D" conc_byte num_pos "\<lambda>x c k. ucast (drop_bit (8 * nat k) c)" for D
  by unfold_locales (rule vm_put_conc_ok)

text \<open>The state a new machine starts in.\<close>

lemma family_rotate:
  assumes fam: "family_ok st (ms @ [m])"
  shows "family_ok st (m # ms)"
proof -
  let ?f = "\<lambda>j. if j = 0 then length ms else j - 1"
  have at: "(ms @ [m]) ! ?f j = (m # ms) ! j" "?f j < length (ms @ [m])" if "j < length (m # ms)" for j
    using that by (cases j; simp add: nth_append)+
  have inj: "?f j \<noteq> ?f k" if "j < length (m # ms)" "k < length (m # ms)" "j \<noteq> k" for j k
    using that by (cases j; cases k) auto
  have wf: "slm_wf (st, (m # ms) ! j)" if "j < length (m # ms)" for j
    using family_okD(1) [OF fam at(2) [OF that]] unfolding at(1) [OF that] .
  have dj: "\<forall>i < length (ms @ [m]). \<forall>j < length (ms @ [m]). i \<noteq> j \<longrightarrow>
      cells_in st ((ms @ [m]) ! i) \<inter> cells_in st ((ms @ [m]) ! j) = {}" using fam unfolding family_ok_def by blast
  have "cells_in st ((m # ms) ! j) \<inter> cells_in st ((m # ms) ! k) = {}"
    if j: "j < length (m # ms)" and k: "k < length (m # ms)" and ne: "j \<noteq> k" for j k
    using dj [rule_format, OF at(2) [OF j] at(2) [OF k] inj [OF j k ne]] unfolding at(1) [OF j] at(1) [OF k] .
  with wf show ?thesis unfolding family_ok_def by blast
qed

lemma new_cpu_view:
  fixes st :: store
  assumes "dapi_ok D" "length arr = 32"
  defines "s \<equiv> new_SYCPUState D arr (replicate 32 0) st"
  shows "cpu_wf (fst s) (snd s)" "regs_ok D (snd s)"
    "\<And>i. i < 32 \<Longrightarrow> bytes_of (fst s, m_symList (snd s) ! i) = (\<lambda>x. None)"
proof -
  show "cpu_wf (fst s) (snd s)" unfolding s_def by (rule new_cpu_wf [OF assms(2)])
  show "regs_ok D (snd s)" unfolding s_def by (rule new_regs_ok) (use assms(1) in \<open>simp add: dapi_ok_def\<close>)
  show "bytes_of (fst s, m_symList (snd s) ! i) = (\<lambda>x. None)" if "i < 32" for i
    using new_lists_ok [of 32 st] that by (simp add: s_def new_SYCPUState_def split_beta DYINST_REG_TOTAL_def)
qed

lemma new_vm_ok:
  assumes D: "dapi_ok D" and l: "length arr = 32" and n: "new_VMState D arr (replicate 32 0) ph file st = Inr vm"
  shows "vm_ok D vm" "vm_bytes vm = (\<lambda>b. None)" "next_obj vm = 0" "m_SYMemObjects vm = Map.empty"
proof -
  define s where "s = new_SYCPUState D arr (replicate 32 0) st"
  define st1 where "st1 = fst s"
  define C where "C = snd s"
  define st2 where "st2 = fst (new_SYMemState ph st1)"
  define M where "M = snd (new_SYMemState ph st1)"
  have vm: "m_CPU vm = C" "m_MEM vm = M" "vm_cells vm = st2" "next_obj vm = 0" "m_SYMemObjects vm = Map.empty"
    using n by (auto simp: new_VMState_def split_beta Let_def rbind_eq_Inr_iff C_def M_def st1_def st2_def s_def)
  note c = new_cpu_view [OF D l, where st = st, folded s_def, folded st1_def C_def]
  have m: "st2 = fst (Symbol_List_Map st1)" "m_AllSymbolList M = snd (Symbol_List_Map st1)"
    by (simp_all add: st2_def M_def new_SYMemState_def split_beta)
  have mw: "mem_wf st2 M" unfolding st2_def M_def by (rule mem_wf_new)
  have sy: "sym_at st2 M a = None" for a using slm_wf_new [of st1] by (simp add: sym_at_def m)
  have len: "length (m_symList C) = 32" by (rule cpu_wfD(3) [OF c(1)])
  note F = family_new [OF cpu_wfD(4) [OF c(1)], folded m]
  have w1: "bytes_of (st2, m_symList C ! i) = bytes_of (st1, m_symList C ! i)" if "i < 32" for i
    using F(2) [of i] that len by simp
  have w2: "bytes_of (st2, m_symList C ! i) = (\<lambda>x. None)" if "i < 32" for i using w1 [OF that] c(3) [OF that] by simp
  note rot = family_rotate [OF F(1)]
  have "cpu_wf st2 C" by (rule cpu_wf_same_bytes [OF c(1) family_tail [OF rot]]) (rule w1)
  then have "vm_wf vm" using mw rot by (simp add: vm_wf_def vm_lists_def vm)
  then show "vm_ok D vm" using D c(2) by (simp add: vm_ok_def vm)
  show "vm_bytes vm = (\<lambda>b. None)"
  proof
    show "vm_bytes vm b = None" for b using sy w2 by (cases b) (simp_all add: vm_mem_def vm_word_def vm)
  qed
  show "next_obj vm = 0" "m_SYMemObjects vm = Map.empty" by (fact vm)+
qed

section \<open>Properties\<close>

definition ex_vm :: VMState where
  "ex_vm = (case new_VMState ex_dapi (replicate 32 0) (replicate 32 0) (\<lambda>_. 0) None empty_store of Inr vm \<Rightarrow> vm)"

lemma ex_vm_new: "new_VMState ex_dapi (replicate 32 0) (replicate 32 0) (\<lambda>_. 0) None empty_store = Inr ex_vm"
  by (simp add: ex_vm_def new_VMState_def new_EFlagsManager_def ReadAddrBoolMapFromFile_def split_beta Let_def)

lemmas ex_vm_ok = new_vm_ok [OF ex_dapi_ok _ ex_vm_new, simplified]

text \<open>C1. Any sequence of writes of expressions and concrete values to registers and to memory cells (of 1, 2, 4 or 8 bytes
  inside an aligned block of 16) succeeds and keeps the invariant of the whole machine. Afterwards each byte is symbolic or not as the last write that
  covers it says (as before where none does), and each concrete byte of physical memory and of the words of the
  registers is the byte of the last number written there (as before where none was). A place keeps its number where its
  symbolic bytes are, but a register of one byte in the second byte of its word. So a write to memory never changes a
  register, and a write to a register changes no memory, nor another register's word.\<close>

theorem last_write_decides:
  assumes "vm_ok D vm" "\<forall>w \<in> set ws. place_ok (fst w)"
  shows "\<exists>vm'. write_all (vm_put D) ws vm = Inr vm' \<and> vm_ok D vm' \<and>
    (\<forall>b. vm_bytes vm' b = (case last_cover place_pos ws b of None \<Rightarrow> vm_bytes vm b
      | Some (x, c, k) \<Rightarrow> map_option (\<lambda>e. byte_ref e k) x)) \<and>
    (\<forall>b. conc_byte vm' b = (case last_cover num_pos ws b of None \<Rightarrow> conc_byte vm b
      | Some (x, c, k) \<Rightarrow> ucast (drop_bit (8 * nat k) c)))"
  using vmb.write_all_ok [OF assms] vmc.write_all_ok [OF assms] by auto

theorem last_write_decides_witness:
  "\<exists>vm'. write_all (vm_put ex_dapi) [(Register x86_rax 10 8, Some (UDefExpr None), 0), (Register x86_al 10 1, None, 7),
      (MemCell 0x1000 8, None, 0x1234)] ex_vm = Inr vm' \<and> vm_ok ex_dapi vm' \<and>
    vm_bytes vm' (InWord 10 0) = None \<and> vm_bytes vm' (InWord 10 1) = Some (byte_ref (UDefExpr None) 1) \<and>
    conc_byte vm' (InWord 10 0) = 0 \<and> conc_byte vm' (InWord 10 1) = 7 \<and> conc_byte vm' (InMem 0x1000) = 0x34"
proof -
  let ?ws = "[(Register x86_rax 10 8, Some (UDefExpr None), 0), (Register x86_al 10 1, None, 7), (MemCell 0x1000 8, None, 0x1234)]"
  have b: "0x1000 \<in> byte_range 0x1000 8" by (simp add: byte_range_def)
  obtain vm' where r: "write_all (vm_put ex_dapi) ?ws ex_vm = Inr vm'" "vm_ok ex_dapi vm'"
    "\<forall>b. vm_bytes vm' b = (case last_cover place_pos ?ws b of None \<Rightarrow> vm_bytes ex_vm b
      | Some (x, c, k) \<Rightarrow> map_option (\<lambda>e. byte_ref e k) x)"
    "\<forall>b. conc_byte vm' b = (case last_cover num_pos ?ws b of None \<Rightarrow> conc_byte ex_vm b
      | Some (x, c, k) \<Rightarrow> ucast (drop_bit (8 * nat k) c))"
    using last_write_decides [OF ex_vm_ok(1), of ?ws] by (auto simp: saved_examples mem_range_1000)
  show ?thesis
    using r(1,2) r(3) [rule_format, of "InWord 10 0"] r(3) [rule_format, of "InWord 10 1"] r(4) [rule_format, of "InWord 10 0"]
      r(4) [rule_format, of "InWord 10 1"] r(4) [rule_format, of "InMem 0x1000"] b
    by auto
qed

lemma HashTogether_eq: "unat (3 + sz) < 64 \<Longrightarrow> HashTogether addr sz = Inr (push_bit (unat (3 + sz)) addr)"
  by (simp add: HashTogether_def)

lemma mem_range_size: "mem_range addr sz \<Longrightarrow> sz \<in> {1, 2, 4, 8}"
  using mem_rangeD(1) [of addr sz] by (auto simp: int_sizes_def)

lemma hash_of_range: "mem_range addr sz \<Longrightarrow> HashTogether addr sz = Inr (push_bit (unat (3 + sz)) addr)"
  using mem_range_size [of addr sz] by (auto intro!: HashTogether_eq)

lemma createSYMemObject_view:
  assumes wf: "vm_wf vm" and r: "mem_range addr sz"
  defines "h \<equiv> push_bit (unat (3 + sz)) addr"
  shows "\<exists>vm'. createSYMemObject vm addr sz sg sd cv (Some nm) = Inr (vm', True) \<and> vm_wf vm' \<and>
    vm_mem vm' = (\<lambda>a. if a \<in> byte_range addr sz then Some (UDefE (Some (next_obj vm)) 4 0, sint a - sint addr) else vm_mem vm a) \<and>
    phys (m_MEM vm') = put_bytes (unat sz) addr 0 (phys (m_MEM vm)) \<and>
    m_SYMemObjects vm' = (m_SYMemObjects vm)(h \<mapsto> next_obj vm) \<and>
    mem_objs vm' = (mem_objs vm)(next_obj vm \<mapsto> \<lparr>mo_name = nm, mo_addr = addr, mo_size = sz, mo_is_signed = sg,
      mo_has_seed = sd, mo_expr = UDefE (Some (next_obj vm)) 4 0, mo_val = Some (take_bit (8 * unat sz) cv)\<rparr>) \<and>
    next_obj vm' = next_obj vm + 1 \<and> (\<forall>i < 32. vm_word vm' i = vm_word vm i)"
proof -
  let ?e = "UDefExpr (Some (next_obj vm))"
  let ?v = "\<lparr>mv_addr = addr, mv_size = sz, mv_bsym = True, mv_isSymList = False, mv_i64 = 0,
                mv_expr = Some ?e, mv_symcellPtr = None\<rparr>"
  let ?obj = "\<lparr>mo_name = nm, mo_addr = addr, mo_size = sz, mo_is_signed = sg,
      mo_has_seed = sd, mo_expr = ?e, mo_val = Some (take_bit (8 * unat sz) cv)\<rparr>"
  let ?vm = "vm\<lparr>m_SYMemObjects := (m_SYMemObjects vm)(h \<mapsto> next_obj vm),
                 mem_objs := (mem_objs vm)(next_obj vm \<mapsto> ?obj), next_obj := next_obj vm + 1\<rparr>"
  have wf': "vm_wf ?vm" using wf by (simp add: vm_wf_def vm_lists_def)
  have same: "vm_mem ?vm = vm_mem vm" "vm_word ?vm = vm_word vm" by (simp_all add: vm_mem_def vm_word_def fun_eq_iff)
  have sz: "obj_value sz cv = Some (take_bit (8 * unat sz) cv)" using mem_rangeD(1) [OF r] by (simp add: obj_value_def)
  obtain st' M' where w: "vm_writeMemory ?vm ?v = Inr (?vm\<lparr>vm_cells := st', m_MEM := M'\<rparr>, True)"
    "vm_wf (?vm\<lparr>vm_cells := st', m_MEM := M'\<rparr>)"
    "phys M' = put_bytes (unat sz) addr 0 (phys (m_MEM ?vm))"
    "vm_mem (?vm\<lparr>vm_cells := st', m_MEM := M'\<rparr>) = (\<lambda>a. if a \<in> byte_range addr sz
      then (if True then Some (byte_ref ?e (sint a - sint addr)) else None) else vm_mem ?vm a)"
    "\<forall>i < 32. vm_word (?vm\<lparr>vm_cells := st', m_MEM := M'\<rparr>) i = vm_word ?vm i"
    using vm_writeMemory_view [OF wf', of ?v ?e, unfolded MemValue.select_convs] r by blast
  have c: "createSYMemObject vm addr sz sg sd cv (Some nm) = vm_writeMemory ?vm ?v"
    using hash_of_range [OF r] sz by (simp add: createSYMemObject_def h_def Let_def)
  have m: "vm_mem (?vm\<lparr>vm_cells := st', m_MEM := M'\<rparr>) = (\<lambda>a. if a \<in> byte_range addr sz
      then Some (UDefE (Some (next_obj vm)) 4 0, sint a - sint addr) else vm_mem vm a)"
    unfolding w(4) same by (simp add: UDefExpr_def fun_eq_iff)
  show ?thesis unfolding c
    by (intro exI [of _ "?vm\<lparr>vm_cells := st', m_MEM := M'\<rparr>"])
      (use w(1,2,3,5) m same in \<open>simp add: UDefExpr_def cong: if_cong\<close>)
qed

text \<open>Declaring a symbolic object of 1, 2, 4 or 8 bytes enters it in the table under its hash and
  makes exactly its bytes symbolic, each a reference to the object through an expression whose size
  is 4 whatever the size of the object; physical memory at its place is overwritten with zeroes, not with the
  value given for it, and the registers keep their state.\<close>

theorem createSYMemObject_effect:
  assumes "vm_wf vm" "mem_range addr sz"
  shows "\<exists>vm'. createSYMemObject vm addr sz sg sd cv (Some nm) = Inr (vm', True) \<and> vm_wf vm' \<and>
    vm_mem vm' = (\<lambda>a. if a \<in> byte_range addr sz then Some (UDefE (Some (next_obj vm)) 4 0, sint a - sint addr) else vm_mem vm a) \<and>
    phys (m_MEM vm') = put_bytes (unat sz) addr 0 (phys (m_MEM vm)) \<and>
    m_SYMemObjects vm' = (m_SYMemObjects vm)(push_bit (unat (3 + sz)) addr \<mapsto> next_obj vm) \<and>
    (\<forall>i < 32. vm_word vm' i = vm_word vm i)"
  using createSYMemObject_view [OF assms, of sg sd cv nm] by blast

theorem createSYMemObject_effect_witness:
  "\<exists>vm'. createSYMemObject ex_vm 0x1000 8 False True 42 (Some ''x'') = Inr (vm', True) \<and> vm_wf vm' \<and>
    vm_mem vm' = (\<lambda>a. if a \<in> byte_range 0x1000 8 then Some (UDefE (Some (next_obj ex_vm)) 4 0, sint a - sint (0x1000 :: u64)) else vm_mem ex_vm a) \<and>
    phys (m_MEM vm') = put_bytes (unat (8 :: u64)) 0x1000 0 (phys (m_MEM ex_vm)) \<and>
    m_SYMemObjects vm' = (m_SYMemObjects ex_vm)(push_bit (unat (3 + 8 :: u64)) 0x1000 \<mapsto> next_obj ex_vm) \<and>
    (\<forall>i < 32. vm_word vm' i = vm_word ex_vm i)"
  by (rule createSYMemObject_effect [OF _ mem_range_1000(2)]) (use ex_vm_ok(1) in \<open>simp add: vm_ok_def\<close>)

text \<open>Two objects at places that do not overlap have the same hash when their addresses, shifted by
  three more than their sizes, are equal: declaring the second drops the first from the table,
  though its bytes are still symbolic.\<close>

theorem hash_collision_loses_object:
  assumes "vm_wf vm" "mem_range a n" "mem_range b m" "byte_range a n \<inter> byte_range b m = {}"
    and "push_bit (unat (3 + n)) a = push_bit (unat (3 + m)) b" "\<forall>p \<in> ran (m_SYMemObjects vm). p < next_obj vm"
  shows "\<exists>vm1 vm2. createSYMemObject vm a n sg sd cv (Some nm) = Inr (vm1, True) \<and>
    createSYMemObject vm1 b m sg' sd' cv' (Some nm') = Inr (vm2, True) \<and>
    vm_mem vm2 a = Some (UDefE (Some (next_obj vm)) 4 0, 0) \<and> next_obj vm \<notin> ran (m_SYMemObjects vm2)"
proof -
  obtain vm1 where 1: "createSYMemObject vm a n sg sd cv (Some nm) = Inr (vm1, True)" "vm_wf vm1"
    "vm_mem vm1 = (\<lambda>x. if x \<in> byte_range a n then Some (UDefE (Some (next_obj vm)) 4 0, sint x - sint a) else vm_mem vm x)"
    "m_SYMemObjects vm1 = (m_SYMemObjects vm)(push_bit (unat (3 + n)) a \<mapsto> next_obj vm)" "next_obj vm1 = next_obj vm + 1"
    using createSYMemObject_view [OF assms(1,2)] by blast
  obtain vm2 where 2: "createSYMemObject vm1 b m sg' sd' cv' (Some nm') = Inr (vm2, True)"
    "vm_mem vm2 = (\<lambda>x. if x \<in> byte_range b m then Some (UDefE (Some (next_obj vm1)) 4 0, sint x - sint b) else vm_mem vm1 x)"
    "m_SYMemObjects vm2 = (m_SYMemObjects vm1)(push_bit (unat (3 + m)) b \<mapsto> next_obj vm1)"
    using createSYMemObject_view [OF 1(2) assms(3)] by blast
  have "0 < unat n" using mem_range_size [OF assms(2)] by auto
  then have a: "a \<in> byte_range a n" by (simp add: byte_range_def)
  then have "a \<notin> byte_range b m" using assms(4) by blast
  then have "vm_mem vm2 a = Some (UDefE (Some (next_obj vm)) 4 0, 0)" using 1(3) 2(2) a by simp
  moreover have "m_SYMemObjects vm2 = (m_SYMemObjects vm)(push_bit (unat (3 + m)) b \<mapsto> next_obj vm + 1)"
    using 1(4,5) 2(3) assms(5) by simp
  then have "next_obj vm \<notin> ran (m_SYMemObjects vm2)" using assms(6) by (auto simp: ran_def)
  ultimately show ?thesis using 1(1) 2(1) by blast
qed

lemma ex_ranges: "mem_range 0x2000 1" "mem_range 0x1000 2" "byte_range 0x2000 1 \<inter> byte_range 0x1000 2 = {}"
  by (auto simp: mem_range_def int_sizes_def byte_range_def op_range_def)

theorem hash_collision_loses_object_witness:
  "\<exists>vm1 vm2. createSYMemObject ex_vm 0x2000 1 False False 0 (Some ''a'') = Inr (vm1, True) \<and>
    createSYMemObject vm1 0x1000 2 False False 0 (Some ''b'') = Inr (vm2, True) \<and>
    vm_mem vm2 0x2000 = Some (UDefE (Some (next_obj ex_vm)) 4 0, 0) \<and> next_obj ex_vm \<notin> ran (m_SYMemObjects vm2)"
  by (rule hash_collision_loses_object [OF _ ex_ranges])
    (use ex_vm_ok in \<open>simp_all add: vm_ok_def push_bit_eq_mult\<close>)

text \<open>Destroying an object that was declared takes it out of the table and makes its bytes concrete
  again, as zeroes: what memory held before the declaration is gone.\<close>

theorem destroy_after_create:
  assumes "vm_wf vm" "mem_range addr sz" "m_SYMemObjects vm (push_bit (unat (3 + sz)) addr) = None"
  shows "\<exists>vm1 vm2. createSYMemObject vm addr sz sg sd cv (Some nm) = Inr (vm1, True) \<and>
    destroySYMemObject vm1 addr sz = Inr vm2 \<and> vm_wf vm2 \<and> m_SYMemObjects vm2 = m_SYMemObjects vm \<and>
    vm_mem vm2 = (\<lambda>a. if a \<in> byte_range addr sz then None else vm_mem vm a) \<and>
    phys (m_MEM vm2) = put_bytes (unat sz) addr 0 (put_bytes (unat sz) addr 0 (phys (m_MEM vm)))"
proof -
  let ?h = "push_bit (unat (3 + sz)) addr"
  let ?v = "\<lparr>mv_addr = addr, mv_size = sz, mv_bsym = False, mv_isSymList = False, mv_i64 = 0,
            mv_expr = None, mv_symcellPtr = None\<rparr>"
  obtain vm1 where 1: "createSYMemObject vm addr sz sg sd cv (Some nm) = Inr (vm1, True)" "vm_wf vm1"
    "vm_mem vm1 = (\<lambda>x. if x \<in> byte_range addr sz then Some (UDefE (Some (next_obj vm)) 4 0, sint x - sint addr) else vm_mem vm x)"
    "phys (m_MEM vm1) = put_bytes (unat sz) addr 0 (phys (m_MEM vm))"
    "m_SYMemObjects vm1 = (m_SYMemObjects vm)(?h \<mapsto> next_obj vm)"
    using createSYMemObject_view [OF assms(1,2)] by blast
  let ?vm = "vm1\<lparr>m_SYMemObjects := (m_SYMemObjects vm1)(?h := None), mem_objs := (mem_objs vm1)(next_obj vm := None)\<rparr>"
  have wf: "vm_wf ?vm" using 1(2) by (simp add: vm_wf_def vm_lists_def)
  obtain st' M' where w: "vm_writeMemory ?vm ?v = Inr (?vm\<lparr>vm_cells := st', m_MEM := M'\<rparr>, True)"
    "vm_wf (?vm\<lparr>vm_cells := st', m_MEM := M'\<rparr>)" "phys M' = put_bytes (unat sz) addr 0 (phys (m_MEM ?vm))"
    "vm_mem (?vm\<lparr>vm_cells := st', m_MEM := M'\<rparr>) = (\<lambda>a. if a \<in> byte_range addr sz
      then (if False then Some (byte_ref (UDefExpr None) (sint a - sint addr)) else None) else vm_mem ?vm a)"
    using vm_writeMemory_view [OF wf, of ?v "UDefExpr None", unfolded MemValue.select_convs] assms(2) by blast
  have s: "vm_mem ?vm = vm_mem vm1" by (simp add: vm_mem_def fun_eq_iff)
  have m: "vm_mem (?vm\<lparr>vm_cells := st', m_MEM := M'\<rparr>) = (\<lambda>a. if a \<in> byte_range addr sz then None else vm_mem vm a)"
    unfolding w(4) s 1(3) by auto
  have "destroySYMemObject vm1 addr sz = Inr (?vm\<lparr>vm_cells := st', m_MEM := M'\<rparr>)"
    using hash_of_range [OF assms(2)] 1(5) w(1) by (simp add: destroySYMemObject_def)
  moreover have "(m_SYMemObjects vm1)(?h := None) = m_SYMemObjects vm" using 1(5) assms(3) by auto
  ultimately show ?thesis using 1(1,4) w(2,3) m
    by (intro exI [of _ vm1] exI [of _ "?vm\<lparr>vm_cells := st', m_MEM := M'\<rparr>"]) simp
qed

theorem destroy_after_create_witness:
  "\<exists>vm1 vm2. createSYMemObject ex_vm 0x1000 4 False False 0 (Some ''a'') = Inr (vm1, True) \<and>
    destroySYMemObject vm1 0x1000 4 = Inr vm2 \<and> vm_wf vm2 \<and> m_SYMemObjects vm2 = m_SYMemObjects ex_vm \<and>
    vm_mem vm2 = (\<lambda>a. if a \<in> byte_range 0x1000 4 then None else vm_mem ex_vm a) \<and>
    phys (m_MEM vm2) = put_bytes (unat (4 :: u64)) 0x1000 0 (put_bytes (unat (4 :: u64)) 0x1000 0 (phys (m_MEM ex_vm)))"
  by (rule destroy_after_create [OF _ mem_range_1000(1)]) (use ex_vm_ok in \<open>simp_all add: vm_ok_def\<close>)

end
