(* ===== verification/Operand.thy ===== *)
theory Operand
  imports VM_State
begin

text \<open>
  Operands of instructions (oprand.h, oprand.cpp and the helpers at the end of VMState.cpp): what
  kind of place an operand is, how it is accessed and the value that was read from it.
\<close>

section \<open>Data\<close>

datatype OperandType =
    OPTY_UNK | OPTY_IMM | OPTY_REG | OPTY_REGCON | OPTY_REGSYM | OPTY_MEMCELL | OPTY_MEMCELLCON
  | OPTY_MEMADDRSYM | OPTY_MEMCELLSYM

datatype OperandAccs = OPAC_UNK | OPAC_RD | OPAC_WR | OPAC_RDWR

definition accs_reads :: "OperandAccs \<Rightarrow> bool" where
  "accs_reads a \<longleftrightarrow> a = OPAC_RD \<or> a = OPAC_RDWR"

text \<open>
  imm_value, reg_index and mem_conaddr share a union, the index being its low half; so do
  reg_conval and mem_conval. The expressions share that union too, but a value is read as a number
  or as an expression only after it was set as one: the model keeps them apart.
\<close>

record OprndInfo =
  opty :: OperandType
  rdwr :: OperandAccs
  oi_size :: u32
  symb :: bool
  oi_place :: u64
  oi_conval :: u64
  oi_symval :: "expr option"
  isSymList :: bool
  conVal :: u64
  symList :: "nat option"

abbreviation reg_index :: "OprndInfo \<Rightarrow> u32" where "reg_index oi \<equiv> ucast (oi_place oi)"

text \<open>
  The constructor sets the type, the access and symb; the expression starts as a null pointer.
  What it leaves unset is read by the code only after parsing has set it.
\<close>

definition new_OprndInfo :: "u32 \<Rightarrow> OprndInfo" where
  "new_OprndInfo sz = \<lparr>opty = OPTY_UNK, rdwr = OPAC_UNK, oi_size = sz, symb = False, oi_place = 0, oi_conval = 0,
     oi_symval = None, isSymList = False, conVal = 0, symList = None\<rparr>"

section \<open>Values of operands\<close>

definition getConValue :: "OprndInfo \<Rightarrow> u64 res" where
  "getConValue oi =
     (if symb oi \<or> \<not> accs_reads (rdwr oi) then Inl ExitFailure
      else case opty oi of
        OPTY_IMM \<Rightarrow> Inr (oi_place oi)
      | OPTY_REGCON \<Rightarrow> Inr (oi_conval oi)
      | OPTY_MEMCELLCON \<Rightarrow> Inr (oi_conval oi)
      | _ \<Rightarrow> Inl ExitFailure)"

text \<open>The values the setters write to a register and to a cell of memory.\<close>

definition reg_value :: "OprndInfo \<Rightarrow> bool \<Rightarrow> bool \<Rightarrow> u64 \<Rightarrow> expr option \<Rightarrow> nat option \<Rightarrow> RegValue" where
  "reg_value oi bsym lst v e l = \<lparr>rv_indx = reg_index oi, rv_size = oi_size oi, rv_bsym = bsym, rv_isSymList = lst,
     rv_i64 = v, rv_expr = e, rv_symcellPtr = l\<rparr>"

definition mem_value :: "OprndInfo \<Rightarrow> bool \<Rightarrow> bool \<Rightarrow> u64 \<Rightarrow> expr option \<Rightarrow> nat option \<Rightarrow> MemValue" where
  "mem_value oi bsym lst v e l = \<lparr>mv_addr = oi_place oi, mv_size = ucast (oi_size oi), mv_bsym = bsym,
     mv_isSymList = lst, mv_i64 = v, mv_expr = e, mv_symcellPtr = l\<rparr>"

definition setConValue :: "dapi \<Rightarrow> VMState \<Rightarrow> OprndInfo \<Rightarrow> u64 \<Rightarrow> (VMState \<times> bool) res" where
  "setConValue D vm oi v =
     (if opty oi \<in> {OPTY_REG, OPTY_REGCON, OPTY_REGSYM}
      then rbind (vm_writeRegister D vm (reg_value oi False False v None None)) (\<lambda>(vm, r). rassert r (Inr (vm, r)))
      else if opty oi \<in> {OPTY_MEMCELL, OPTY_MEMCELLCON}
      then rbind (vm_writeMemory vm (mem_value oi False False v None None)) (\<lambda>(vm, r). rassert r (Inr (vm, r)))
      else Inl ExitFailure)"

text \<open>The expression read can be a null pointer.\<close>

definition getSymValue :: "OprndInfo \<Rightarrow> expr option res" where
  "getSymValue oi = (if opty oi \<in> {OPTY_REGSYM, OPTY_MEMCELLSYM} then Inr (oi_symval oi) else Inl ExitFailure)"

definition getSymList :: "OprndInfo \<Rightarrow> (nat option \<times> u64) res" where
  "getSymList oi = rassert (isSymList oi) (Inr (symList oi, conVal oi))"

definition setSymList :: "dapi \<Rightarrow> VMState \<Rightarrow> OprndInfo \<Rightarrow> nat option \<Rightarrow> u64 \<Rightarrow> (VMState \<times> bool) res" where
  "setSymList D vm oi l v =
     (if opty oi \<in> {OPTY_REG, OPTY_REGCON, OPTY_REGSYM}
      then vm_writeRegister D vm (reg_value oi True True v None l)
      else if opty oi \<in> {OPTY_MEMCELL, OPTY_MEMCELLCON, OPTY_MEMCELLSYM}
      then vm_writeMemory vm (mem_value oi True True v None l)
      else Inl ExitFailure)"

definition setSymValue :: "dapi \<Rightarrow> VMState \<Rightarrow> OprndInfo \<Rightarrow> expr option \<Rightarrow> (VMState \<times> bool) res" where
  "setSymValue D vm oi e =
     (if opty oi \<in> {OPTY_REG, OPTY_REGCON, OPTY_REGSYM}
      then vm_writeRegister D vm (reg_value oi True False 0 e None)
      else if opty oi \<in> {OPTY_MEMCELL, OPTY_MEMCELLCON, OPTY_MEMCELLSYM}
      then vm_writeMemory vm (mem_value oi True False 0 e None)
      else Inl ExitFailure)"

definition CellHash :: "u64 \<Rightarrow> u64 \<Rightarrow> u64" where
  "CellHash addr sz = addr AND NOT 0xf"

definition ExprHash :: "u64 \<Rightarrow> u64 \<Rightarrow> u64" where
  "ExprHash addr sz = push_bit 4 (addr AND 0xf) OR (sz - 1)"

section \<open>Helpers of VMState.cpp\<close>

definition ReadConOperand_RM :: "dapi \<Rightarrow> VMState \<Rightarrow> OprndInfo \<Rightarrow> (VMState \<times> OprndInfo \<times> bool) res" where
  "ReadConOperand_RM D vm oi =
     (case opty oi of
        OPTY_REGCON \<Rightarrow>
          rbind (vm_readRegister D vm (reg_value oi False False 0 None None)) (\<lambda>(vm, V, r).
          rassert (\<not> rv_bsym V) (Inr (vm, oi\<lparr>oi_conval := rv_i64 V\<rparr>, r)))
      | OPTY_MEMCELLCON \<Rightarrow>
          rbind (vm_readMemory vm (mem_value oi False False 0 None None)) (\<lambda>(vm, V, r).
          rassert (\<not> mv_bsym V) (Inr (vm, oi\<lparr>oi_conval := mv_i64 V\<rparr>, r)))
      | _ \<Rightarrow> Inl ExitFailure)"

text \<open>
  The initializers give the value to the fourth field, isSymList, and the cell of memory is marked
  symbolic: the number written is 0 and the expression a null pointer.
\<close>

definition WriteConOPerand_RM :: "dapi \<Rightarrow> VMState \<Rightarrow> OprndInfo \<Rightarrow> (VMState \<times> bool) res" where
  "WriteConOPerand_RM D vm oi =
     (case opty oi of
        OPTY_REGCON \<Rightarrow> vm_writeRegister D vm (reg_value oi False (oi_conval oi \<noteq> 0) 0 None None)
      | OPTY_MEMCELLCON \<Rightarrow> vm_writeMemory vm (mem_value oi True (oi_conval oi \<noteq> 0) 0 None None)
      | _ \<Rightarrow> Inl ExitFailure)"

text \<open>The value returned by the two symbolic helpers is never the one of an access.\<close>

definition ReadSymOPerand_RM :: "dapi \<Rightarrow> VMState \<Rightarrow> OprndInfo \<Rightarrow> VMState res" where
  "ReadSymOPerand_RM D vm oi =
     (case opty oi of
        OPTY_REGSYM \<Rightarrow>
          rbind (vm_readRegister D vm (reg_value oi False False 0 None None)) (\<lambda>(vm, V, r). Inr vm)
      | OPTY_MEMCELLSYM \<Rightarrow> Inr vm
      | _ \<Rightarrow> Inl ExitFailure)"

definition WriteSymOPerand_RM :: "VMState \<Rightarrow> OprndInfo \<Rightarrow> VMState res" where
  "WriteSymOPerand_RM vm oi = Inl ExitFailure"

section \<open>Operands as places\<close>

text \<open>An operand that names a register of the saved state or a cell the analyser can hold.\<close>

fun op_place :: "dapi \<Rightarrow> OprndInfo \<Rightarrow> place \<Rightarrow> bool" where
  "op_place D oi (MemCell a n) \<longleftrightarrow> opty oi \<in> {OPTY_MEMCELL, OPTY_MEMCELLCON, OPTY_MEMCELLSYM} \<and>
     oi_place oi = a \<and> ucast (oi_size oi) = n"
| "op_place D oi (Register r i sz) \<longleftrightarrow> opty oi \<in> {OPTY_REG, OPTY_REGCON, OPTY_REGSYM} \<and>
     reg_index oi = reg_id D r \<and> oi_size oi = sz"

lemma setSymValue_put:
  assumes "op_place D oi l" "vm_put D l (Some e) 0 vm = Inr vm'"
  shows "setSymValue D vm oi (Some e) = Inr (vm', True)"
proof (cases l)
  case (MemCell a n)
  have "opty oi \<notin> {OPTY_REG, OPTY_REGCON, OPTY_REGSYM}" "opty oi \<in> {OPTY_MEMCELL, OPTY_MEMCELLCON, OPTY_MEMCELLSYM}"
    using assms(1) MemCell by auto
  then show ?thesis
    using assms MemCell by (auto simp: setSymValue_def mem_value_def rbind_eq_Inr_iff rassert_eq_Inr_iff)
next
  case (Register r i sz)
  then show ?thesis
    using assms by (auto simp: setSymValue_def reg_value_def rbind_eq_Inr_iff rassert_eq_Inr_iff)
qed

lemma setConValue_put:
  assumes "op_place D oi l" "vm_put D l None v vm = Inr vm'" "opty oi \<noteq> OPTY_MEMCELLSYM"
  shows "setConValue D vm oi v = Inr (vm', True)"
proof (cases l)
  case (MemCell a n)
  have "opty oi \<notin> {OPTY_REG, OPTY_REGCON, OPTY_REGSYM}" "opty oi \<in> {OPTY_MEMCELL, OPTY_MEMCELLCON}"
    using assms(1,3) MemCell by auto
  then show ?thesis
    using assms MemCell by (auto simp: setConValue_def mem_value_def rbind_eq_Inr_iff rassert_eq_Inr_iff)
next
  case (Register r i sz)
  then show ?thesis
    using assms by (auto simp: setConValue_def reg_value_def rbind_eq_Inr_iff rassert_eq_Inr_iff)
qed

end
