(* ===== verification/Sym_Parse.thy ===== *)
theory Sym_Parse
  imports Operand
begin

text \<open>
  Operands of an instruction, as the symbolic executor reads them before it runs mov, push and pop
  (parseOperands and its helpers in symexec.cpp). The instruction itself comes from Dyninst: the record instr
  holds what the code asks of it.
\<close>

section \<open>What comes from Dyninst\<close>

text \<open>
  The values bound to the registers of an instruction, by number: setValue binds one, eval of an
  expression uses them. None is a result that is not defined.
\<close>

type_synonym bindings = "u32 \<rightharpoonup> u64"

record operand =
  od_size :: u32
  readsMemory :: bool
  writesMemory :: bool
  isRead :: bool
  isWritten :: bool
  getReadSet :: "(u32 \<times> u32) list" \<comment> \<open>number and size\<close>
  getWriteSet :: "(u32 \<times> u32) list"
  od_children :: nat \<comment> \<open>children of the value\<close>
  od_eval :: "bindings \<Rightarrow> u64 option"
  od_addr :: "bindings \<Rightarrow> u64 option" \<comment> \<open>the first child, evaluated\<close>

record instr =
  in_id :: entryID
  in_operands :: "operand list"
  in_reads :: "(u32 \<times> u32) list"
  in_implicit :: "u32 list"
  in_size :: u64

text \<open>What the executor needs from Dyninst besides: numbers of registers and instructions, and x86::FLAG.\<close>

record ctx =
  cx_D :: dapi
  cx_N :: "entryID \<Rightarrow> nat"
  cx_xflag :: u32

record InstrInfo =
  PI :: instr
  vecOI :: "OprndInfo list"
  hasSymbOprand :: bool
  bound :: bindings

definition new_InstrInfo :: "instr \<Rightarrow> bindings \<Rightarrow> InstrInfo" where
  "new_InstrInfo I env = \<lparr>PI = I, vecOI = [], hasSymbOprand = False, bound = env\<rparr>"

section \<open>Registers read\<close>

definition maySymbolicRegister :: "ctx \<Rightarrow> VMState \<Rightarrow> u32 \<Rightarrow> bool res" where
  "maySymbolicRegister X vm i = vm_isSYReg (cx_D X) vm i"

definition plain_reg :: "u32 \<Rightarrow> u32 \<Rightarrow> bool \<Rightarrow> RegValue" where
  "plain_reg i sz lst = \<lparr>rv_indx = i, rv_size = sz, rv_bsym = False, rv_isSymList = lst, rv_i64 = 0,
     rv_expr = None, rv_symcellPtr = None\<rparr>"

text \<open>A register is bound to its value, sign-extended from its size; of another size it is not bound.\<close>

definition bind_reg :: "u32 \<Rightarrow> u32 \<Rightarrow> u64 \<Rightarrow> bindings \<Rightarrow> bindings" where
  "bind_reg i sz v env =
     (if sz \<in> {1, 2, 4, 8} then env(i \<mapsto> signed_take_bit (8 * unat sz - 1) v) else env)"

fun setReadRegs :: "ctx \<Rightarrow> VMState \<Rightarrow> (u32 \<times> u32) list \<Rightarrow> bindings \<Rightarrow> (VMState \<times> bindings) res" where
  "setReadRegs X vm [] env = Inr (vm, env)"
| "setReadRegs X vm ((i, sz) # rs) env =
     (if i AND cx_xflag X = cx_xflag X then setReadRegs X vm rs env
      else rbind (vm_readRegister (cx_D X) vm (plain_reg i sz False)) (\<lambda>(vm, V, r).
           rassert r (setReadRegs X vm rs (if rv_bsym V then env else bind_reg i sz (rv_i64 V) env))))"

text \<open>The base of gs when the instruction reads gs implicitly, and 0 otherwise.\<close>

fun gs_base_of :: "ctx \<Rightarrow> VMState \<Rightarrow> u32 list \<Rightarrow> (VMState \<times> u64) res" where
  "gs_base_of X vm [] = Inr (vm, 0)"
| "gs_base_of X vm (i # is) =
     (if i = reg_id (cx_D X) x86_gs
      then rbind (vm_readRegister (cx_D X) vm (plain_reg i 8 False)) (\<lambda>(vm, V, r).
           rassert r (Inr (vm, rv_i64 V)))
      else gs_base_of X vm is)"

definition isUseGS :: "ctx \<Rightarrow> VMState \<Rightarrow> instr \<Rightarrow> (VMState \<times> u64) res" where
  "isUseGS X vm I = gs_base_of X vm (in_implicit I)"

text \<open>All registers are asked, also after one was found symbolic.\<close>

fun any_symbolic :: "ctx \<Rightarrow> VMState \<Rightarrow> (u32 \<times> u32) list \<Rightarrow> bool res" where
  "any_symbolic X vm [] = Inr False"
| "any_symbolic X vm ((i, sz) # rs) =
     rbind (maySymbolicRegister X vm i) (\<lambda>b. rbind (any_symbolic X vm rs) (\<lambda>c. Inr (b \<or> c)))"

definition eval_defined :: "u64 option \<Rightarrow> u64 res" where
  "eval_defined r = (case r of None \<Rightarrow> Inl AssertFail | Some v \<Rightarrow> Inr v)"

section \<open>The four kinds of operands\<close>

text \<open>Neither reads nor writes memory: an immediate or a register.\<close>

definition parseOperand_XX ::
  "ctx \<Rightarrow> VMState \<Rightarrow> operand \<Rightarrow> bindings \<Rightarrow> OprndInfo \<Rightarrow> (VMState \<times> OprndInfo \<times> bool) res" where
  "parseOperand_XX X vm Q env oi =
     (if isRead Q
      then let oi = oi\<lparr>rdwr := OPAC_RD\<rparr>
           in if getReadSet Q = []
              then rbind (eval_defined (od_eval Q env)) (\<lambda>v.
                   Inr (vm, oi\<lparr>opty := OPTY_IMM, oi_place := v\<rparr>, True))
              else rassert (length (getReadSet Q) = 1)
                (let (i, sz) = hd (getReadSet Q); oi = oi\<lparr>opty := OPTY_REG, oi_place := ucast i\<rparr>
                 in rbind (vm_readRegister (cx_D X) vm (plain_reg i sz True)) (\<lambda>(vm, V, r).
                    rassert r (
                    if rv_bsym V
                    then let oi = oi\<lparr>opty := OPTY_REGSYM, symb := True, isSymList := True\<rparr>
                         in Inr (vm, (if od_children Q > 1 then oi
                              else oi\<lparr>conVal := rv_i64 V, symList := rv_symcellPtr V\<rparr>), True)
                    else rbind (eval_defined (od_eval Q env)) (\<lambda>v.
                         Inr (vm, oi\<lparr>opty := OPTY_REGCON, oi_conval := v\<rparr>, True)))))
      else if isWritten Q
      then rassert (length (getWriteSet Q) = 1)
             (let (i, sz) = hd (getWriteSet Q)
              in rbind (vm_isSYReg (cx_D X) vm i) (\<lambda>b.
                 Inr (vm, oi\<lparr>rdwr := OPAC_WR, opty := OPTY_REG, oi_place := ucast i, symb := b\<rparr>, True)))
      else Inl ExitFailure)"

text \<open>The value of the cell an operand reads, as a list when it is symbolic.\<close>

definition read_cell :: "VMState \<Rightarrow> OprndInfo \<Rightarrow> (VMState \<times> OprndInfo) res" where
  "read_cell vm oi =
     rbind (vm_readMemory vm (mem_value oi False True 0 None None)) (\<lambda>(vm, V, r).
     rassert r (
     if mv_bsym V
     then Inr (vm, oi\<lparr>opty := OPTY_MEMCELLSYM, symb := True, conVal := mv_i64 V, symList := mv_symcellPtr V,
            isSymList := True\<rparr>)
     else Inr (vm, oi\<lparr>opty := OPTY_MEMCELLCON, oi_conval := mv_i64 V\<rparr>)))"

text \<open>
  Reads memory. The branch of a direct access ends without a return, so the value the caller joins
  to its result is not defined.
\<close>

definition parseOperand_RX ::
  "ctx \<Rightarrow> VMState \<Rightarrow> instr \<Rightarrow> operand \<Rightarrow> bindings \<Rightarrow> OprndInfo \<Rightarrow> (VMState \<times> OprndInfo \<times> bool) res" where
  "parseOperand_RX X vm I Q env oi =
     (if isRead Q
      then let oi = oi\<lparr>rdwr := OPAC_RD, opty := OPTY_MEMCELL\<rparr>
           in rbind (isUseGS X vm I) (\<lambda>(vm, gs_base).
              if getReadSet Q = []
              then rassert (gs_base \<noteq> 0) (rassert (od_children Q = 1)
                   (rbind (eval_defined (od_addr Q env)) (\<lambda>a.
                    rbind (read_cell vm (oi\<lparr>oi_place := a + gs_base\<rparr>)) (\<lambda>(vm, oi). Inl Uninit))))
              else rbind (any_symbolic X vm (getReadSet Q)) (\<lambda>hasSymReg.
                   rassert (\<not> hasSymReg) (rassert (od_children Q = 1)
                   (rbind (eval_defined (od_addr Q env)) (\<lambda>a.
                    rbind (read_cell vm (oi\<lparr>oi_place := (if gs_base = 0 then a else a + gs_base)\<rparr>)) (\<lambda>(vm, oi).
                    Inr (vm, oi, True)))))))
      else if isWritten Q then Inl AssertFail
      else Inr (vm, oi, False))"

text \<open>Writes memory: the address only; symb keeps the value False the caller gave it.\<close>

definition parseOperand_XW ::
  "ctx \<Rightarrow> VMState \<Rightarrow> instr \<Rightarrow> operand \<Rightarrow> bindings \<Rightarrow> OprndInfo \<Rightarrow> (VMState \<times> OprndInfo \<times> bool) res" where
  "parseOperand_XW X vm I Q env oi =
     (if isRead Q then Inl AssertFail
      else if isWritten Q
      then let oi = oi\<lparr>rdwr := OPAC_WR, opty := OPTY_MEMCELL\<rparr>
           in rbind (isUseGS X vm I) (\<lambda>(vm, gs_base).
              if getReadSet Q = [] then Inl AssertFail
              else rbind (any_symbolic X vm (getReadSet Q)) (\<lambda>hasSymReg.
                   rassert (\<not> hasSymReg) (rassert (od_children Q = 1)
                   (rbind (eval_defined (od_addr Q env)) (\<lambda>a.
                    Inr (vm, oi\<lparr>oi_place := (if gs_base = 0 then a else a + gs_base)\<rparr>, True))))))
      else Inl AssertFail)"

text \<open>Reads and writes memory.\<close>

definition parseOperand_RW ::
  "ctx \<Rightarrow> VMState \<Rightarrow> instr \<Rightarrow> operand \<Rightarrow> bindings \<Rightarrow> OprndInfo \<Rightarrow> (VMState \<times> OprndInfo \<times> bool) res" where
  "parseOperand_RW X vm I Q env oi =
     (let oi = oi\<lparr>rdwr := OPAC_RDWR, opty := OPTY_MEMCELL\<rparr>
      in rbind (isUseGS X vm I) (\<lambda>(vm, gs_base).
         if getReadSet Q = [] then Inl AssertFail
         else rbind (any_symbolic X vm (getReadSet Q)) (\<lambda>hasSymReg.
              rassert (\<not> hasSymReg) (rassert (od_children Q = 1)
              (rbind (eval_defined (od_addr Q env)) (\<lambda>a.
               rbind (read_cell vm (oi\<lparr>oi_place := (if gs_base = 0 then a else a + gs_base)\<rparr>)) (\<lambda>(vm, oi).
               Inr (vm, oi, True))))))))"

definition parse_operand ::
  "ctx \<Rightarrow> VMState \<Rightarrow> instr \<Rightarrow> operand \<Rightarrow> bindings \<Rightarrow> (VMState \<times> OprndInfo \<times> bool) res" where
  "parse_operand X vm I Q env =
     (let oi = new_OprndInfo (od_size Q)
      in if \<not> readsMemory Q \<and> \<not> writesMemory Q then parseOperand_XX X vm Q env oi
         else if readsMemory Q \<and> \<not> writesMemory Q then parseOperand_RX X vm I Q env oi
         else if \<not> readsMemory Q \<and> writesMemory Q then parseOperand_XW X vm I Q env oi
         else parseOperand_RW X vm I Q env oi)"

fun parse_list ::
  "ctx \<Rightarrow> VMState \<Rightarrow> instr \<Rightarrow> operand list \<Rightarrow> bindings \<Rightarrow> (VMState \<times> OprndInfo list \<times> bool) res" where
  "parse_list X vm I [] env = Inr (vm, [], False)"
| "parse_list X vm I (Q # Qs) env =
     rbind (parse_operand X vm I Q env) (\<lambda>(vm, oi, b).
     rbind (parse_list X vm I Qs env) (\<lambda>(vm, ois, c). Inr (vm, oi # ois, b \<or> c)))"

definition parseOperands :: "ctx \<Rightarrow> VMState \<Rightarrow> InstrInfo \<Rightarrow> (VMState \<times> InstrInfo \<times> bool) res" where
  "parseOperands X vm info =
     rbind (setReadRegs X vm (in_reads (PI info)) (bound info)) (\<lambda>(vm, env).
     rbind (parse_list X vm (PI info) (in_operands (PI info)) env) (\<lambda>(vm, ois, bUS).
     Inr (vm, info\<lparr>vecOI := vecOI info @ ois, bound := env\<rparr>, bUS)))"

end
