(* ===== verification/Sym_Exec.thy ===== *)
theory Sym_Exec
  imports Sym_Parse
begin

text \<open>
  The symbolic executor (symexec.h and symexec.cpp): the handlers of the instructions with a symbolic
  operand, and run, which dispatches on the instruction. The operands of an instruction arrive
  parsed; mov, push and pop parse them again, to move whole lists of symbolic cells. The value the
  handlers return is always true and ignored by run.
\<close>

section \<open>Operands and expressions\<close>

definition opnd :: "InstrInfo \<Rightarrow> nat \<Rightarrow> OprndInfo res" where
  "opnd info i = arr_get (vecOI info) i"

text \<open>
  A null expression is dereferenced by the constructor it is given to, for its size, or by the
  first use of the expression built: the model reports it where it is read.
\<close>

definition sym_of :: "OprndInfo \<Rightarrow> expr res" where
  "sym_of oi = rbind (getSymValue oi) deref"

definition set_expr :: "ctx \<Rightarrow> VMState \<Rightarrow> OprndInfo \<Rightarrow> expr \<Rightarrow> VMState res" where
  "set_expr X vm oi e = rbind (setSymValue (cx_D X) vm oi (Some e)) (\<lambda>(vm, r). rassert r (Inr vm))"

definition set_con :: "ctx \<Rightarrow> VMState \<Rightarrow> OprndInfo \<Rightarrow> u64 \<Rightarrow> VMState res" where
  "set_con X vm oi v = rbind (setConValue (cx_D X) vm oi v) (\<lambda>(vm, r). rassert r (Inr vm))"

definition set_cells :: "ctx \<Rightarrow> VMState \<Rightarrow> OprndInfo \<Rightarrow> nat option \<Rightarrow> u64 \<Rightarrow> VMState res" where
  "set_cells X vm oi l v = rbind (setSymList (cx_D X) vm oi l v) (\<lambda>(vm, r). rassert r (Inr vm))"

text \<open>Saves the expression; the boolean is asserted by all callers but two.\<close>

definition save_flags :: "ctx \<Rightarrow> VMState \<Rightarrow> entryID \<Rightarrow> expr \<Rightarrow> VMState res" where
  "save_flags X vm iid e =
     rbind (vm_SaveFlagChangingInstructionExpr (cx_N X) (cx_D X) vm iid (Some e)) (\<lambda>(vm, r). rassert r (Inr vm))"

definition save_flags_any :: "ctx \<Rightarrow> VMState \<Rightarrow> entryID \<Rightarrow> expr \<Rightarrow> VMState res" where
  "save_flags_any X vm iid e =
     rbind (vm_SaveFlagChangingInstructionExpr (cx_N X) (cx_D X) vm iid (Some e)) (\<lambda>(vm, r). Inr vm)"

definition size_of :: "OprndInfo \<Rightarrow> int" where
  "size_of oi = sint (oi_size oi)"

text \<open>
  The expression of an operation on two operands, one of them symbolic: a concrete one becomes a
  constant, of the sizes given for a constant second and first operand.
\<close>

definition bin_expr :: "binop \<Rightarrow> OprndInfo \<Rightarrow> OprndInfo \<Rightarrow> int \<Rightarrow> int \<Rightarrow> expr res" where
  "bin_expr b o1 o2 sz2 sz1 =
     (if symb o1 \<and> symb o2
      then rbind (sym_of o1) (\<lambda>e1. rbind (sym_of o2) (\<lambda>e2. Inr (mk_bin b e1 e2)))
      else if symb o1 \<and> \<not> symb o2
      then rbind (sym_of o1) (\<lambda>e1. rbind (getConValue o2) (\<lambda>v2. Inr (mk_bin b e1 (ConstExpr v2 sz2 0))))
      else if \<not> symb o1 \<and> symb o2
      then rbind (sym_of o2) (\<lambda>e2. rbind (getConValue o1) (\<lambda>v1. Inr (mk_bin b (ConstExpr v1 sz1 0) e2)))
      else Inl AssertFail)"

section \<open>Arithmetic, logic and comparison\<close>

definition process_add :: "ctx \<Rightarrow> VMState \<Rightarrow> InstrInfo \<Rightarrow> VMState res" where
  "process_add X vm info =
     rbind (opnd info 0) (\<lambda>o1. rbind (opnd info 1) (\<lambda>o2.
     rbind (bin_expr OpAdd o1 o2 (size_of o2) (size_of o1)) (\<lambda>oe.
     rbind (set_expr X vm o1 oe) (\<lambda>vm. save_flags_any X vm (Alu e_add) oe))))"

definition process_test :: "ctx \<Rightarrow> VMState \<Rightarrow> InstrInfo \<Rightarrow> VMState res" where
  "process_test X vm info =
     rbind (opnd info 0) (\<lambda>o1. rbind (opnd info 1) (\<lambda>o2.
     rbind (bin_expr OpAnd o1 o2 (size_of o2) (size_of o1)) (\<lambda>oe.
     save_flags_any X vm (Alu e_test) oe)))"

text \<open>The constant of a comparison has the size of the symbolic operand.\<close>

definition process_cmp :: "ctx \<Rightarrow> VMState \<Rightarrow> InstrInfo \<Rightarrow> VMState res" where
  "process_cmp X vm info =
     rbind (opnd info 0) (\<lambda>o1. rbind (opnd info 1) (\<lambda>o2.
     rbind (bin_expr OpSub o1 o2 (size_of o1) (size_of o2)) (\<lambda>oe.
     save_flags X vm (Alu e_cmp) oe)))"

definition process_sub :: "ctx \<Rightarrow> VMState \<Rightarrow> InstrInfo \<Rightarrow> VMState res" where
  "process_sub X vm info =
     rbind (opnd info 0) (\<lambda>o1. rbind (opnd info 1) (\<lambda>o2.
     rbind (bin_expr OpSub o1 o2 (size_of o2) (size_of o1)) (\<lambda>oe.
     rbind (set_expr X vm o1 oe) (\<lambda>vm. save_flags X vm (Alu e_sub) oe))))"

definition process_and :: "ctx \<Rightarrow> VMState \<Rightarrow> InstrInfo \<Rightarrow> VMState res" where
  "process_and X vm info =
     rbind (opnd info 0) (\<lambda>o1. rbind (opnd info 1) (\<lambda>o2.
     rbind (bin_expr OpAnd o1 o2 (size_of o2) (size_of o1)) (\<lambda>oe.
     rbind (set_expr X vm o1 oe) (\<lambda>vm. save_flags X vm (Alu e_and) oe))))"

definition process_or :: "ctx \<Rightarrow> VMState \<Rightarrow> InstrInfo \<Rightarrow> VMState res" where
  "process_or X vm info =
     rbind (opnd info 0) (\<lambda>o1. rbind (opnd info 1) (\<lambda>o2.
     rbind (bin_expr OpOr o1 o2 (size_of o2) (size_of o1)) (\<lambda>oe.
     rbind (set_expr X vm o1 oe) (\<lambda>vm. save_flags X vm (Alu e_or) oe))))"

definition process_xor :: "ctx \<Rightarrow> VMState \<Rightarrow> InstrInfo \<Rightarrow> VMState res" where
  "process_xor X vm info =
     rbind (opnd info 0) (\<lambda>o1. rbind (opnd info 1) (\<lambda>o2.
     rbind (bin_expr OpXor o1 o2 (size_of o2) (size_of o1)) (\<lambda>oe.
     rbind (set_expr X vm o1 oe) (\<lambda>vm. save_flags X vm (Alu e_xor) oe))))"

text \<open>The two right shifts read the count from the first operand.\<close>

definition process_shl_sal :: "ctx \<Rightarrow> VMState \<Rightarrow> InstrInfo \<Rightarrow> VMState res" where
  "process_shl_sal X vm info =
     rbind (opnd info 0) (\<lambda>o1. rbind (opnd info 1) (\<lambda>o2.
     rassert (symb o1) (rassert (\<not> symb o2) (
     rbind (sym_of o1) (\<lambda>e1. rbind (getConValue o2) (\<lambda>v2.
     let oe = Shl_SalExpr e1 (ConstExpr v2 (size_of o2) 0)
     in rbind (set_expr X vm o1 oe) (\<lambda>vm. save_flags X vm (Alu e_shl_sal) oe)))))))"

definition process_shr :: "ctx \<Rightarrow> VMState \<Rightarrow> InstrInfo \<Rightarrow> VMState res" where
  "process_shr X vm info =
     rbind (opnd info 0) (\<lambda>o1. rbind (opnd info 1) (\<lambda>o2.
     rassert (symb o1) (rassert (\<not> symb o2) (
     rbind (sym_of o1) (\<lambda>e1. rbind (getConValue o1) (\<lambda>v2.
     let oe = ShrExpr e1 (ConstExpr v2 (size_of o2) 0)
     in rbind (set_expr X vm o1 oe) (\<lambda>vm. save_flags X vm (Alu e_shr) oe)))))))"

definition process_sar :: "ctx \<Rightarrow> VMState \<Rightarrow> InstrInfo \<Rightarrow> VMState res" where
  "process_sar X vm info =
     rbind (opnd info 0) (\<lambda>o1. rbind (opnd info 1) (\<lambda>o2.
     rassert (symb o1) (rassert (\<not> symb o2) (
     rbind (sym_of o1) (\<lambda>e1. rbind (getConValue o1) (\<lambda>v2.
     let oe = SarExpr e1 (ConstExpr v2 (size_of o2) 0)
     in rbind (set_expr X vm o1 oe) (\<lambda>vm. save_flags X vm (Alu e_sar) oe)))))))"

definition process_not :: "ctx \<Rightarrow> VMState \<Rightarrow> InstrInfo \<Rightarrow> VMState res" where
  "process_not X vm info =
     rbind (opnd info 0) (\<lambda>o1.
     if symb o1
     then rbind (sym_of o1) (\<lambda>e1.
          let oe = NotExpr e1
          in rbind (set_expr X vm o1 oe) (\<lambda>vm. save_flags X vm (Alu e_not) oe))
     else Inl AssertFail)"

definition process_neg :: "ctx \<Rightarrow> VMState \<Rightarrow> InstrInfo \<Rightarrow> VMState res" where
  "process_neg X vm info =
     rbind (opnd info 0) (\<lambda>o1.
     rassert (symb o1) (
     rbind (sym_of o1) (\<lambda>e1.
     let oe = NegExpr e1
     in rbind (set_expr X vm o1 oe) (\<lambda>vm. save_flags X vm (Alu e_neg) oe))))"

text \<open>A symbolic operand's expression, or the constant of a concrete one.\<close>

definition expr_or_const :: "OprndInfo \<Rightarrow> expr res" where
  "expr_or_const oi =
     (if symb oi then sym_of oi else rbind (getConValue oi) (\<lambda>v. Inr (ConstExpr v (size_of oi) 0)))"

text \<open>Both results of the division are built as quotients.\<close>

definition process_idiv :: "ctx \<Rightarrow> VMState \<Rightarrow> InstrInfo \<Rightarrow> VMState res" where
  "process_idiv X vm info =
     rbind (opnd info 0) (\<lambda>o_d. rbind (opnd info 1) (\<lambda>o_a. rbind (opnd info 2) (\<lambda>o_v.
     rbind (expr_or_const o_d) (\<lambda>e_d. rbind (expr_or_const o_a) (\<lambda>e_a.
     let e_Dividend = CombineExpr e_d e_a (size_of o_d) (size_of o_a) (sint (oi_size o_d + oi_size o_a)) 0
     in rbind (expr_or_const o_v) (\<lambda>e_Divisor.
        let e_Quotient = BinE OpSDiv e_Dividend e_Divisor (size_of o_v) 0;
            e_Remainder = BinE OpSDiv e_Dividend e_Divisor (size_of o_v) 0
        in rbind (set_expr X vm o_a e_Quotient) (\<lambda>vm. set_expr X vm o_d e_Remainder)))))))"

text \<open>The low bytes of a number, as a 128-bit one.\<close>

definition SignedTOUnsigned :: "u64 \<Rightarrow> int \<Rightarrow> int res" where
  "SignedTOUnsigned v sz =
     (if sz = 1 then Inr (uint (take_bit 8 v)) else if sz = 2 then Inr (uint (take_bit 16 v))
      else if sz = 4 then Inr (uint (take_bit 32 v)) else if sz = 8 then Inr (uint v) else Inl AssertFail)"

text \<open>
  The product of two concrete operands, of mul in 128 bits and of imul in a long (which wraps here;
  its overflow is undefined) that is then widened; and the two halves written.
\<close>

definition con_product :: "bool \<Rightarrow> u64 \<Rightarrow> int \<Rightarrow> u64 \<Rightarrow> int \<Rightarrow> int res" where
  "con_product is_mul v_a sz_a v_m sz_m =
     (if is_mul
      then rbind (SignedTOUnsigned v_a sz_a) (\<lambda>u_a. rbind (SignedTOUnsigned v_m sz_m) (\<lambda>u_m. Inr ((u_a * u_m) mod 2 ^ 128)))
      else Inr (sint (v_a * v_m) mod 2 ^ 128))"

definition product_part :: "int \<Rightarrow> u32 \<Rightarrow> bool \<Rightarrow> u64 res" where
  "product_part v_r sz high =
     (let n = unat (sz * 8)
      in if n \<ge> 128 then Inl UndefinedShift
         else Inr (word_of_int ((if high then v_r div 2 ^ n else v_r) mod 2 ^ n)))"

text \<open>
  The variable res is asserted after a symbolic first operand was read, when nothing has set it.
\<close>

definition process_mul :: "ctx \<Rightarrow> VMState \<Rightarrow> InstrInfo \<Rightarrow> VMState res" where
  "process_mul X vm info =
     rbind (opnd info 0) (\<lambda>o_d. rbind (opnd info 1) (\<lambda>o_a. rbind (opnd info 2) (\<lambda>o_m.
     if symb o_a then rbind (getSymValue o_a) (\<lambda>e. Inl Uninit)
     else rbind (getConValue o_a) (\<lambda>v_a.
          let e_a = ConstExpr v_a (size_of o_a) 0
          in if \<not> symb o_m
             then rbind (getConValue o_m) (\<lambda>v_m.
                  rbind (con_product (in_id (PI info) = Alu e_mul) v_a (size_of o_a) v_m (size_of o_m)) (\<lambda>v_r.
                  rbind (product_part v_r (oi_size o_a) False) (\<lambda>vrl.
                  rbind (product_part v_r (oi_size o_d) True) (\<lambda>vrh.
                  rbind (set_con X vm o_a vrl) (\<lambda>vm. set_con X vm o_d vrh)))))
             else rbind (sym_of o_m) (\<lambda>e_m.
                  let e_r = BinE OpMul e_a e_m (size_of o_m) 0;
                      r_a = ExtractE e_r 0 (size_of o_a) (size_of o_a) 0;
                      r_d = ExtractE e_r (size_of o_a) (sint (oi_size o_a * 2)) (size_of o_a) 0
                  in rbind (set_expr X vm o_a r_a) (\<lambda>vm. set_expr X vm o_d r_d))))))"

section \<open>Moves\<close>

text \<open>Source symbolic: the expression; else its value. The flag says whether the destination must be symbolic.\<close>

definition move_value :: "bool \<Rightarrow> (expr \<Rightarrow> expr) \<Rightarrow> ctx \<Rightarrow> VMState \<Rightarrow> InstrInfo \<Rightarrow> VMState res" where
  "move_value need f X vm info =
     rbind (opnd info 0) (\<lambda>oidst. rbind (opnd info 1) (\<lambda>oisrc.
     if symb oisrc
     then rbind (sym_of oisrc) (\<lambda>e. set_expr X vm oidst (f e))
     else rassert (need \<longrightarrow> symb oidst) (rbind (getConValue oisrc) (\<lambda>val. set_con X vm oidst val))))"

definition process_lea :: "ctx \<Rightarrow> VMState \<Rightarrow> InstrInfo \<Rightarrow> VMState res" where
  "process_lea = move_value True (\<lambda>e. e)"

definition process_cmovxx :: "ctx \<Rightarrow> VMState \<Rightarrow> InstrInfo \<Rightarrow> VMState res" where
  "process_cmovxx = move_value False (\<lambda>e. e)"

definition process_movsx :: "ctx \<Rightarrow> VMState \<Rightarrow> InstrInfo \<Rightarrow> VMState res" where
  "process_movsx = move_value True SignExtExpr"

definition process_movzx :: "ctx \<Rightarrow> VMState \<Rightarrow> InstrInfo \<Rightarrow> VMState res" where
  "process_movzx = move_value True ZeroExtExpr"

definition process_jcc :: "ctx \<Rightarrow> VMState \<Rightarrow> InstrInfo \<Rightarrow> VMState res" where
  "process_jcc X vm info = Inr vm"

text \<open>The value is the fourth member of the initializer, isSymList: the number written is 0. The mark m_RIPUpdated, set
  here and reset by run, is read nowhere and left out.\<close>

definition process_jmp :: "ctx \<Rightarrow> VMState \<Rightarrow> InstrInfo \<Rightarrow> VMState res" where
  "process_jmp X vm info =
     rbind (opnd info 0) (\<lambda>oisrc. rassert (\<not> symb oisrc) (rbind (getConValue oisrc) (\<lambda>val.
     rbind (vm_writeRegister (cx_D X) vm (plain_reg (reg_id (cx_D X) x86_rip) 8 (val \<noteq> 0))) (\<lambda>(vm, r). Inr vm))))"

definition process_jxx :: "VMState res" where
  "process_jxx = Inl AssertFail"

text \<open>A copy of the instruction is parsed again, its values as lists.\<close>

definition reparse :: "ctx \<Rightarrow> VMState \<Rightarrow> InstrInfo \<Rightarrow> (VMState \<times> InstrInfo) res" where
  "reparse X vm info =
     rbind (parseOperands X vm (new_InstrInfo (PI info) (bound info))) (\<lambda>(vm, ioi, b). Inr (vm, ioi))"

definition process_mov :: "ctx \<Rightarrow> VMState \<Rightarrow> InstrInfo \<Rightarrow> VMState res" where
  "process_mov X vm info =
     rbind (reparse X vm info) (\<lambda>(vm, ioi).
     rbind (opnd ioi 0) (\<lambda>oidst. rbind (opnd ioi 1) (\<lambda>oisrc.
     if symb oisrc
     then rbind (getSymList oisrc) (\<lambda>(cellList, val). set_cells X vm oidst cellList val)
     else rassert (symb oidst) (rbind (getConValue oisrc) (\<lambda>val. set_con X vm oidst val)))))"

definition process_pop :: "ctx \<Rightarrow> VMState \<Rightarrow> InstrInfo \<Rightarrow> VMState res" where
  "process_pop X vm info =
     rbind (reparse X vm info) (\<lambda>(vm, ioi).
     rbind (opnd ioi 0) (\<lambda>o1. rbind (opnd ioi 1) (\<lambda>o2.
     rassert (\<not> symb o2) (
     rbind (vm_readRegister (cx_D X) vm (plain_reg (reg_index o2) (oi_size o2) False)) (\<lambda>(vm, V, r).
     rassert r (rassert (rv_size V = 8) (
     rbind (vm_readMemory vm \<lparr>mv_addr = rv_i64 V, mv_size = ucast (oi_size o1), mv_bsym = False,
       mv_isSymList = True, mv_i64 = 0, mv_expr = None, mv_symcellPtr = None\<rparr>) (\<lambda>(vm, MV, r).
     rassert r (
     rbind (if mv_bsym MV then set_cells X vm o1 (mv_symcellPtr MV) (mv_i64 MV)
            else set_con X vm o1 (mv_i64 MV)) (\<lambda>vm.
     rbind (vm_writeRegister (cx_D X) vm (V\<lparr>rv_i64 := rv_i64 V + ucast (rv_size V)\<rparr>)) (\<lambda>(vm, r).
     rassert r (Inr vm))))))))))))"

definition process_push :: "ctx \<Rightarrow> VMState \<Rightarrow> InstrInfo \<Rightarrow> VMState res" where
  "process_push X vm info =
     rbind (reparse X vm info) (\<lambda>(vm, ioi).
     rbind (opnd ioi 0) (\<lambda>o1. rbind (opnd ioi 1) (\<lambda>o2.
     rassert (\<not> symb o2) (
     rbind (vm_readRegister (cx_D X) vm (plain_reg (reg_index o2) (oi_size o2) False)) (\<lambda>(vm, V, r).
     rassert r (rassert (rv_size V = 8) (
     let V = V\<lparr>rv_i64 := rv_i64 V - ucast (rv_size V)\<rparr>
     in rbind (vm_writeRegister (cx_D X) vm V) (\<lambda>(vm, r).
     rassert r (
     let MV = \<lparr>mv_addr = rv_i64 V, mv_size = ucast (oi_size o1), mv_bsym = False,
       mv_isSymList = False, mv_i64 = 0, mv_expr = None, mv_symcellPtr = None\<rparr>
     in rbind (if symb o1
               then rbind (getSymList o1) (\<lambda>(l, v).
                    Inr (MV\<lparr>mv_bsym := True, mv_symcellPtr := l, mv_isSymList := True, mv_i64 := v\<rparr>))
               else rbind (getConValue o1) (\<lambda>v. Inr (MV\<lparr>mv_i64 := v\<rparr>))) (\<lambda>MV.
        rbind (vm_writeMemory vm MV) (\<lambda>(vm, r). rassert r (Inr vm))))))))))))"

definition process_xchg :: "ctx \<Rightarrow> VMState \<Rightarrow> InstrInfo \<Rightarrow> VMState res" where
  "process_xchg X vm info =
     rbind (opnd info 0) (\<lambda>o1. rbind (opnd info 1) (\<lambda>o2.
     if symb o1 \<and> symb o2
     then rbind (sym_of o1) (\<lambda>e1. rbind (sym_of o2) (\<lambda>e2.
          rbind (set_expr X vm o1 e2) (\<lambda>vm. set_expr X vm o2 e1)))
     else if symb o1 \<and> \<not> symb o2
     then rbind (sym_of o1) (\<lambda>e1. rbind (getConValue o2) (\<lambda>v2.
          rbind (set_con X vm o1 v2) (\<lambda>vm. set_expr X vm o2 e1)))
     else if \<not> symb o1 \<and> symb o2
     then rbind (sym_of o2) (\<lambda>e2. rbind (getConValue o1) (\<lambda>v1.
          rbind (set_expr X vm o1 e2) (\<lambda>vm. set_con X vm o2 v1)))
     else Inl AssertFail))"

section \<open>Extensions\<close>

text \<open>The register that is half of the operand, and its size.\<close>

definition half_reg :: "u32 \<Rightarrow> (x86_reg \<times> u32) res" where
  "half_reg sz = (if sz = 2 then Inr (x86_al, 1) else if sz = 4 then Inr (x86_ax, 2)
     else if sz = 8 then Inr (x86_eax, 4) else Inl AssertFail)"

definition full_reg :: "u32 \<Rightarrow> x86_reg res" where
  "full_reg sz = (if sz = 2 then Inr x86_ax else if sz = 4 then Inr x86_eax
     else if sz = 8 then Inr x86_rax else Inl AssertFail)"

text \<open>The half, as a signed number, joined to ones above it when its top bit is set.\<close>

definition extend_half :: "u32 \<Rightarrow> u64 \<Rightarrow> u64" where
  "extend_half sz v =
     (if sz = 2 then (let h = signed_take_bit 7 v in if h AND 0x80 \<noteq> 0 then 0xff00 OR h else h)
      else if sz = 4 then (let h = signed_take_bit 15 v in if h AND 0x8000 \<noteq> 0 then 0xffff0000 OR h else h)
      else (let h = signed_take_bit 31 v in if h AND 0x80000000 \<noteq> 0 then 0xffffffff00000000 OR h else h))"

text \<open>When the half is symbolic, it is the whole operand's expression that is extended.\<close>

definition process_cbw :: "ctx \<Rightarrow> VMState \<Rightarrow> InstrInfo \<Rightarrow> VMState res" where
  "process_cbw X vm info =
     rbind (opnd info 0) (\<lambda>oisrc.
     rassert (symb oisrc) (
     rbind (sym_of oisrc) (\<lambda>e.
     rbind (half_reg (oi_size oisrc)) (\<lambda>(h, hsz).
     rbind (vm_readRegister (cx_D X) vm (plain_reg (reg_id (cx_D X) h) hsz False)) (\<lambda>(vm, rv, r).
     rassert r (
     if rv_bsym rv then set_expr X vm oisrc (UryE OpSignEXT e (size_of oisrc) 0)
     else rbind (full_reg (oi_size oisrc)) (\<lambda>f.
          rbind (vm_writeRegister (cx_D X) vm
            ((plain_reg (reg_id (cx_D X) f) (oi_size oisrc) False)\<lparr>rv_i64 := extend_half (oi_size oisrc) (rv_i64 rv)\<rparr>))
            (\<lambda>(vm, r). rassert r (Inr vm)))))))))"

definition process_cdq :: "ctx \<Rightarrow> VMState \<Rightarrow> InstrInfo \<Rightarrow> VMState res" where
  "process_cdq X vm info =
     rbind (opnd info 0) (\<lambda>o_d. rbind (opnd info 1) (\<lambda>o_a.
     if symb o_a
     then rbind (sym_of o_a) (\<lambda>e_a.
          let e_r = UryE OpSignEXT e_a (sint (oi_size o_a * 2)) 0;
              e_d = ExtractE e_r (size_of o_a) (sint (oi_size o_a * 2)) (size_of o_d) 0
          in set_expr X vm o_d e_d)
     else rbind (getConValue o_a) (\<lambda>v_a. set_con X vm o_d (if 0 \<le> sint v_a then 0 else - 1))))"

text \<open>The condition is not looked at.\<close>

definition process_set :: "ctx \<Rightarrow> VMState \<Rightarrow> InstrInfo \<Rightarrow> VMState res" where
  "process_set X vm info = rbind (opnd info 0) (\<lambda>oidst. set_con X vm oidst 1)"

definition process_shrd :: "ctx \<Rightarrow> VMState \<Rightarrow> InstrInfo \<Rightarrow> VMState res" where
  "process_shrd X vm info = Inl AssertFail"

section \<open>Dispatch\<close>

definition plain_jccs :: "jcc_id list" where
  "plain_jccs = [e_jbe, e_je, e_jge, e_jl, e_jle, e_jmp, e_jmpq, e_jne, e_jz, e_jnz, e_jns, e_js]"

primrec arith_handler :: "arith_id \<Rightarrow> (ctx \<Rightarrow> VMState \<Rightarrow> InstrInfo \<Rightarrow> VMState res) option" where
  "arith_handler a_adc = None" | "arith_handler a_add = Some process_add" | "arith_handler a_cmp = Some process_cmp"
| "arith_handler a_cmpw = Some process_cmp" | "arith_handler a_cmpxch = None" | "arith_handler a_cmpxch8b = None"
| "arith_handler a_dec = None" | "arith_handler a_decl = None" | "arith_handler a_div = None"
| "arith_handler a_idiv = Some process_idiv" | "arith_handler a_imul = Some process_mul" | "arith_handler a_inc = None"
| "arith_handler a_mul = Some process_mul" | "arith_handler a_neg = Some process_neg" | "arith_handler a_sbb = None"
| "arith_handler a_sbbl = None" | "arith_handler a_sub = Some process_sub" | "arith_handler a_xadd = None"

primrec bits_handler :: "bits_id \<Rightarrow> (ctx \<Rightarrow> VMState \<Rightarrow> InstrInfo \<Rightarrow> VMState res) option" where
  "bits_handler b_and = Some process_and" | "bits_handler b_bsf = None" | "bits_handler b_bsr = None"
| "bits_handler b_bt = None" | "bits_handler b_btc = None" | "bits_handler b_btr = None"
| "bits_handler b_bts = None" | "bits_handler b_not = Some process_not" | "bits_handler b_or = Some process_or"
| "bits_handler b_popcnt = None" | "bits_handler b_rol = None" | "bits_handler b_rolb = None"
| "bits_handler b_ror = None" | "bits_handler b_sar = Some process_sar" | "bits_handler b_sarb = None"
| "bits_handler b_shl_sal = Some process_shl_sal" | "bits_handler b_shld = None" | "bits_handler b_shr = Some process_shr"
| "bits_handler b_shrb = None" | "bits_handler b_shrd = Some process_shrd" | "bits_handler b_test = Some process_test"
| "bits_handler b_tzcnt = None" | "bits_handler b_xor = Some process_xor"

primrec state_handler :: "state_id \<Rightarrow> (ctx \<Rightarrow> VMState \<Rightarrow> InstrInfo \<Rightarrow> VMState res) option" where
  "state_handler s_popf = None" | "state_handler s_popfd = None" | "state_handler s_popfq = None"
| "state_handler s_rdrand = None" | "state_handler s_sahf = None" | "state_handler s_salc = None"
| "state_handler s_scas = None" | "state_handler s_scasb = None" | "state_handler s_scasd = None"
| "state_handler s_scasw = None" | "state_handler s_sysret = None"

primrec alu_handler :: "alu_id \<Rightarrow> (ctx \<Rightarrow> VMState \<Rightarrow> InstrInfo \<Rightarrow> VMState res) option" where
  "alu_handler (Arith a) = arith_handler a"
| "alu_handler (Bits a) = bits_handler a"
| "alu_handler (State a) = state_handler a"

primrec misc_handler :: "misc_id \<Rightarrow> (ctx \<Rightarrow> VMState \<Rightarrow> InstrInfo \<Rightarrow> VMState res) option" where
  "misc_handler e_cbw = Some process_cbw"
| "misc_handler e_cdq = Some process_cdq"
| "misc_handler e_cqo = None"
| "misc_handler e_cwd = Some process_cdq"
| "misc_handler e_cwde = Some process_cbw"
| "misc_handler e_cwtl = Some process_cbw"
| "misc_handler e_lea = Some process_lea"
| "misc_handler e_pop = Some process_pop"
| "misc_handler e_push = Some process_push"
| "misc_handler e_rdtsc = Some process_jcc" \<comment> \<open>nothing is done\<close>
| "misc_handler e_xchg = Some process_xchg"

text \<open>The cases without a handler, and the instructions the switch does not name, fail an assert.\<close>

primrec handler_of :: "entryID \<Rightarrow> (ctx \<Rightarrow> VMState \<Rightarrow> InstrInfo \<Rightarrow> VMState res) option" where
  "handler_of (Jcc j) = (if j \<in> set plain_jccs then Some process_jcc else None)"
| "handler_of (Cmov c) = (if c = e_cmovnle then None else Some process_cmovxx)"
| "handler_of (Setcc s) = Some process_set"
| "handler_of (Alu a) = alu_handler a"
| "handler_of (Mov m) = (if m = e_movsx \<or> m = e_movslq \<or> m = e_movsxd then Some process_movsx
     else if m = e_movzx then Some process_movzx else Some process_mov)"
| "handler_of (Sse x) = None"
| "handler_of (Misc m) = misc_handler m"
| "handler_of (other_id n) = None"

definition exec_instr :: "ctx \<Rightarrow> VMState \<Rightarrow> InstrInfo \<Rightarrow> VMState res" where
  "exec_instr X vm info =
     (case handler_of (in_id (PI info)) of None \<Rightarrow> Inl AssertFail | Some h \<Rightarrow> h X vm info)"

text \<open>The executor's own state is the instructions pushed; run empties it.\<close>

definition pushInstr :: "InstrInfo list \<Rightarrow> InstrInfo \<Rightarrow> InstrInfo list" where
  "pushInstr m_IOIs I = m_IOIs @ [I]"

fun run_loop :: "ctx \<Rightarrow> InstrInfo list \<Rightarrow> VMState \<Rightarrow> VMState res" where
  "run_loop X [] vm = Inr vm"
| "run_loop X (I # Is) vm = rbind (exec_instr X vm I) (run_loop X Is)"

definition run :: "ctx \<Rightarrow> InstrInfo list \<Rightarrow> VMState \<Rightarrow> (VMState \<times> InstrInfo list \<times> bool) res" where
  "run X m_IOIs vm = rbind (run_loop X m_IOIs vm) (\<lambda>vm. Inr (vm, [], True))"


section \<open>Writes of operands, on the whole machine\<close>

lemma vm_put_frame:
  assumes "vm_ok D vm" "place_ok l" "vm_put D l x c vm = Inr vm'"
  shows "m_EFlagsMgr vm' = m_EFlagsMgr vm" "m_Regs (m_CPU vm') = m_Regs (m_CPU vm)"
proof -
  show "m_EFlagsMgr vm' = m_EFlagsMgr vm"
    using assms(3) by (cases l)
      (auto simp: vm_writeMemory_def vm_writeRegister_def rbind_eq_Inr_iff rassert_eq_Inr_iff split: prod.splits)
  show "m_Regs (m_CPU vm') = m_Regs (m_CPU vm)"
  proof (cases l)
    case (MemCell a n)
    then show ?thesis using assms(3)
      by (auto simp: vm_writeMemory_def rbind_eq_Inr_iff rassert_eq_Inr_iff split: prod.splits)
  next
    case (Register r i sz)
    let ?V = "\<lparr>rv_indx = reg_id D r, rv_size = sz, rv_bsym = (x \<noteq> None), rv_isSymList = False,
       rv_i64 = c, rv_expr = x, rv_symcellPtr = None\<rparr>"
    have sx: "x \<noteq> None \<longrightarrow> x = Some (the x)" by simp
    obtain st' C' where w: "vm_writeRegister D vm ?V = Inr (vm\<lparr>vm_cells := st', m_CPU := C'\<rparr>, True)"
      "m_Regs C' = m_Regs (m_CPU vm)"
      using vm_writeRegister_view [of vm D r i sz ?V "the x", unfolded RegValue.select_convs] assms(1,2) Register sx
      unfolding vm_ok_def by fastforce
    have "vm_writeRegister D vm ?V = Inr (vm', True)"
      using assms(3) Register by (auto simp: rbind_eq_Inr_iff rassert_eq_Inr_iff)
    then have "vm' = vm\<lparr>vm_cells := st', m_CPU := C'\<rparr>" using w(1) by simp
    then show ?thesis using w(2) by simp
  qed
qed

text \<open>An operand that names a place the machine can hold, if it names a register or a cell at all.\<close>

definition placed :: "dapi \<Rightarrow> OprndInfo \<Rightarrow> bool" where
  "placed D oi \<longleftrightarrow> (opty oi \<in> {OPTY_REG, OPTY_REGCON, OPTY_REGSYM, OPTY_MEMCELL, OPTY_MEMCELLCON, OPTY_MEMCELLSYM} \<longrightarrow>
     (\<exists>l. place_ok l \<and> op_place D oi l))"

definition put_at :: "place \<Rightarrow> expr option \<Rightarrow> (byte_at \<Rightarrow> (expr \<times> int) option) \<Rightarrow> byte_at \<Rightarrow> (expr \<times> int) option" where
  "put_at l x f b = (case place_pos l b of None \<Rightarrow> f b | Some k \<Rightarrow> map_option (\<lambda>e. byte_ref e k) x)"

lemma set_expr_view:
  assumes "vm_ok (cx_D X) vm" "place_ok l" "op_place (cx_D X) oi l"
  shows "\<exists>vm'. set_expr X vm oi e = Inr vm' \<and> vm_ok (cx_D X) vm' \<and> vm_bytes vm' = put_at l (Some e) (vm_bytes vm) \<and>
    m_EFlagsMgr vm' = m_EFlagsMgr vm \<and> m_Regs (m_CPU vm') = m_Regs (m_CPU vm)"
proof -
  obtain vm' where p: "vm_put (cx_D X) l (Some e) 0 vm = Inr vm'" "vm_ok (cx_D X) vm'"
    "vm_bytes vm' = (\<lambda>b. case place_pos l b of None \<Rightarrow> vm_bytes vm b | Some k \<Rightarrow> map_option (\<lambda>e. byte_ref e k) (Some e))"
    using vm_put_ok [OF assms(1,2)] by blast
  then show ?thesis
    using setSymValue_put [OF assms(3) p(1)] vm_put_frame [OF assms(1,2) p(1)]
    by (simp add: set_expr_def put_at_def fun_eq_iff)
qed

text \<open>Under the expression a concrete zero is stored.\<close>

definition num_at :: "place \<Rightarrow> u64 \<Rightarrow> (byte_at \<Rightarrow> u8) \<Rightarrow> byte_at \<Rightarrow> u8" where
  "num_at l c f b = (case num_pos l b of None \<Rightarrow> f b | Some k \<Rightarrow> ucast (drop_bit (8 * nat k) c))"

lemma set_expr_conc:
  assumes "vm_ok (cx_D X) vm" "place_ok l" "op_place (cx_D X) oi l" "set_expr X vm oi e = Inr vm'"
  shows "conc_byte vm' = num_at l 0 (conc_byte vm)"
proof -
  obtain vm1 where p: "vm_put (cx_D X) l (Some e) 0 vm = Inr vm1" using vm_put_ok [OF assms(1,2)] by blast
  then have "vm' = vm1" using setSymValue_put [OF assms(3) p] assms(4) by (simp add: set_expr_def)
  then show ?thesis using vm_put_conc [OF assms(1,2) p] by (simp add: num_at_def fun_eq_iff)
qed

lemma set_con_view:
  assumes "vm_ok (cx_D X) vm" "place_ok l" "op_place (cx_D X) oi l" "opty oi \<noteq> OPTY_MEMCELLSYM"
  shows "\<exists>vm'. set_con X vm oi v = Inr vm' \<and> vm_ok (cx_D X) vm' \<and> vm_bytes vm' = put_at l None (vm_bytes vm) \<and>
    vm_put (cx_D X) l None v vm = Inr vm' \<and>
    m_EFlagsMgr vm' = m_EFlagsMgr vm \<and> m_Regs (m_CPU vm') = m_Regs (m_CPU vm)"
proof -
  obtain vm' where p: "vm_put (cx_D X) l None v vm = Inr vm'" "vm_ok (cx_D X) vm'"
    "vm_bytes vm' = (\<lambda>b. case place_pos l b of None \<Rightarrow> vm_bytes vm b | Some k \<Rightarrow> map_option (\<lambda>e. byte_ref e k) None)"
    using vm_put_ok [OF assms(1,2)] by blast
  then show ?thesis
    using setConValue_put [OF assms(3) p(1) assms(4)] vm_put_frame [OF assms(1,2) p(1)]
    by (simp add: set_con_def put_at_def fun_eq_iff)
qed

lemma set_expr_ok:
  assumes a: "vm_ok (cx_D X) vm" "placed (cx_D X) oi" "set_expr X vm oi e = Inr vm'"
  shows "vm_ok (cx_D X) vm'"
proof -
  have "opty oi \<in> {OPTY_REG, OPTY_REGCON, OPTY_REGSYM, OPTY_MEMCELL, OPTY_MEMCELLCON, OPTY_MEMCELLSYM}"
    using a(3) by (auto simp: set_expr_def setSymValue_def split: if_splits)
  then obtain l where l: "place_ok l" "op_place (cx_D X) oi l" using a(2) unfolding placed_def by blast
  show ?thesis using set_expr_view [OF a(1) l, of e] a(3) by auto
qed

lemma set_con_ok:
  assumes a: "vm_ok (cx_D X) vm" "placed (cx_D X) oi" "set_con X vm oi v = Inr vm'"
  shows "vm_ok (cx_D X) vm'"
proof -
  have op: "opty oi \<in> {OPTY_REG, OPTY_REGCON, OPTY_REGSYM, OPTY_MEMCELL, OPTY_MEMCELLCON}"
    using a(3) by (auto simp: set_con_def setConValue_def split: if_splits)
  then obtain l where l: "place_ok l" "op_place (cx_D X) oi l" using a(2) unfolding placed_def by blast
  have "opty oi \<noteq> OPTY_MEMCELLSYM" using op by auto
  then show ?thesis using set_con_view [OF a(1) l, of v] a(3) by auto
qed

section \<open>Saving the expression\<close>

lemma cpu_flags_vm: "vm_ok D vm \<Longrightarrow> flags_ok D \<Longrightarrow> cpu_flags D (m_CPU vm)"
  using cpu_wfD(1) [OF vm_wfD(2)] by (auto simp: cpu_flags_def vm_ok_def)

lemma same_but_flags_vm:
  assumes "vm_ok D vm" "same_but_flags (m_CPU vm) C'" "cpu_flags D C'"
  shows "vm_ok D (vm\<lparr>m_EFlagsMgr := E, m_CPU := C'\<rparr>)"
    "vm_bytes (vm\<lparr>m_EFlagsMgr := E, m_CPU := C'\<rparr>) = vm_bytes vm"
proof -
  have l: "m_symList C' = m_symList (m_CPU vm)" using assms(2) by (simp add: same_but_flags_def)
  show "vm_ok D (vm\<lparr>m_EFlagsMgr := E, m_CPU := C'\<rparr>)"
    using assms same_but_flags_wf [OF assms(2)] l by (simp add: vm_ok_def vm_wf_def vm_lists_def cpu_flags_def)
  show "vm_bytes (vm\<lparr>m_EFlagsMgr := E, m_CPU := C'\<rparr>) = vm_bytes vm"
  proof
    show "vm_bytes (vm\<lparr>m_EFlagsMgr := E, m_CPU := C'\<rparr>) b = vm_bytes vm b" for b
      by (cases b) (simp_all add: vm_mem_def vm_word_def l)
  qed
qed

lemma marks_all:
  assumes "cpu_flags D C"
  shows "\<exists>C'. set_flags D (map (\<lambda>f. (f, FLAG_UNCERTAIN)) saved_flags) C = Inr C' \<and> cpu_flags D C' \<and>
    same_but_flags C C' \<and> (\<forall>f \<in> status_flags. flag_sym D C' f)"
proof -
  let ?ws = "map (\<lambda>f. (f, FLAG_UNCERTAIN)) saved_flags"
  have img: "fst ` set ?ws \<subseteq> status_flags" by (simp add: saved_status image_image)
  obtain C' where C': "set_flags D ?ws C = Inr C'" "cpu_flags D C'" "same_but_flags C C'"
    "\<forall>g \<in> status_flags. flag_sym D C' g = (flag_sym D C g \<or> (g, FLAG_UNCERTAIN) \<in> set ?ws) \<and>
       flag_val C' g = after_writes ?ws (flag_val C) g"
    using set_flags_view [OF assms img] by blast
  moreover have "flag_sym D C' f" if "f \<in> status_flags" for f
  proof -
    have "(f, FLAG_UNCERTAIN) \<in> set ?ws" using that by (simp add: saved_status image_iff)
    then show ?thesis using bspec [OF C'(4) that] by simp
  qed
  ultimately show ?thesis by blast
qed

lemma flag_instr_accepted: "iid \<in> set stateChangingInstrList \<Longrightarrow> isFlagChangingInstr N iid"
  unfolding isFlagChanging_iff set_map by (rule imageI)

definition flags_saved :: "dapi \<Rightarrow> expr \<Rightarrow> VMState \<Rightarrow> bool" where
  "flags_saved D e vm \<longleftrightarrow> m_LastExpr (m_EFlagsMgr vm) = Some e \<and> (\<forall>f \<in> status_flags. flag_sym D (m_CPU vm) f)"

lemma save_flags_view:
  assumes "vm_ok (cx_D X) vm" "flags_ok (cx_D X)" "iid \<in> set stateChangingInstrList"
  shows "\<exists>vm'. save_flags X vm iid e = Inr vm' \<and> save_flags_any X vm iid e = Inr vm' \<and> vm_ok (cx_D X) vm' \<and>
    vm_bytes vm' = vm_bytes vm \<and> flags_saved (cx_D X) e vm'"
proof -
  obtain C' where C': "set_flags (cx_D X) (map (\<lambda>f. (f, FLAG_UNCERTAIN)) saved_flags) (m_CPU vm) = Inr C'"
    "cpu_flags (cx_D X) C'" "same_but_flags (m_CPU vm) C'" "\<forall>f \<in> status_flags. flag_sym (cx_D X) C' f"
    using marks_all [OF cpu_flags_vm [OF assms(1,2)]] by blast
  let ?vm = "vm\<lparr>m_EFlagsMgr := (m_EFlagsMgr vm)\<lparr>m_LastExpr := Some e\<rparr>, m_CPU := C'\<rparr>"
  have "vm_SaveFlagChangingInstructionExpr (cx_N X) (cx_D X) vm iid (Some e) = Inr (?vm, True)"
    using flag_instr_accepted [OF assms(3)] C'(1)
    by (simp add: vm_SaveFlagChangingInstructionExpr_def SaveFlagChangingInstructionExpr_def)
  then have "save_flags X vm iid e = Inr ?vm" "save_flags_any X vm iid e = Inr ?vm"
    by (simp_all add: save_flags_def save_flags_any_def)
  then show ?thesis using same_but_flags_vm [OF assms(1) C'(3,2)] C'(4)
    by (intro exI [of _ ?vm]) (simp add: flags_saved_def)
qed

lemma conc_byte_cong:
  "phys (m_MEM vm') = phys (m_MEM vm) \<Longrightarrow> m_ArrRegs (m_CPU vm') = m_ArrRegs (m_CPU vm) \<Longrightarrow> conc_byte vm' = conc_byte vm"
  by (rule ext, case_tac x) simp_all

lemma set_marks_words: "set_flags D (map (\<lambda>f. (f, FLAG_UNCERTAIN)) fs) C = Inr C' \<Longrightarrow> m_ArrRegs C' = m_ArrRegs C"
proof (induction fs arbitrary: C)
  case (Cons f fs)
  then obtain C1 where "setFlagBit D C (reg_id D f) FLAG_UNCERTAIN = Inr C1" "m_ArrRegs C' = m_ArrRegs C1"
    by (auto simp: rbind_eq_Inr_iff)
  then show ?case by (auto simp: setFlagBit_def upd_reg_def rbind_eq_Inr_iff rassert_eq_Inr_iff split: if_splits option.splits)
qed simp

lemma save_flags_conc: "save_flags X vm iid e = Inr vm' \<Longrightarrow> conc_byte vm' = conc_byte vm"
  by (rule conc_byte_cong) (auto simp: save_flags_def vm_SaveFlagChangingInstructionExpr_def SaveFlagChangingInstructionExpr_def
      rbind_eq_Inr_iff rassert_eq_Inr_iff set_marks_words split: if_splits)

lemma save_flags_ok:
  assumes "vm_ok (cx_D X) vm" "flags_ok (cx_D X)"
  shows "save_flags X vm iid e = Inr vm' \<Longrightarrow> vm_ok (cx_D X) vm'"
    "save_flags_any X vm iid e = Inr vm' \<Longrightarrow> vm_ok (cx_D X) vm'"
proof -
  obtain C' where C': "set_flags (cx_D X) (map (\<lambda>f. (f, FLAG_UNCERTAIN)) saved_flags) (m_CPU vm) = Inr C'"
    "cpu_flags (cx_D X) C'" "same_but_flags (m_CPU vm) C'"
    using marks_all [OF cpu_flags_vm [OF assms]] by blast
  have v: "vm\<lparr>m_EFlagsMgr := m_EFlagsMgr vm, m_CPU := m_CPU vm\<rparr> = vm" by simp
  have "vm_ok (cx_D X) vm'" if "vm_SaveFlagChangingInstructionExpr (cx_N X) (cx_D X) vm iid (Some e) = Inr (vm', r)" for r
    using that C' same_but_flags_vm(1) [OF assms(1) C'(3,2)] assms(1) v
    by (auto simp: vm_SaveFlagChangingInstructionExpr_def SaveFlagChangingInstructionExpr_def split: if_splits)
  then show "save_flags X vm iid e = Inr vm' \<Longrightarrow> vm_ok (cx_D X) vm'"
    "save_flags_any X vm iid e = Inr vm' \<Longrightarrow> vm_ok (cx_D X) vm'"
    by (auto simp: save_flags_def save_flags_any_def rbind_eq_Inr_iff rassert_eq_Inr_iff)
qed

section \<open>Values of operands\<close>

text \<open>An operand as parsing leaves it, and the expression that stands for it.\<close>

definition operand_ready :: "OprndInfo \<Rightarrow> bool" where
  "operand_ready oi \<longleftrightarrow>
     (if symb oi then opty oi \<in> {OPTY_REGSYM, OPTY_MEMCELLSYM} \<and> oi_symval oi \<noteq> None
      else accs_reads (rdwr oi) \<and> opty oi \<in> {OPTY_IMM, OPTY_REGCON, OPTY_MEMCELLCON})"

definition con_of :: "OprndInfo \<Rightarrow> u64" where
  "con_of oi = (if opty oi = OPTY_IMM then oi_place oi else oi_conval oi)"

definition value_expr :: "OprndInfo \<Rightarrow> int \<Rightarrow> expr" where
  "value_expr oi sz = (if symb oi then the (oi_symval oi) else ConstE (con_of oi) sz 0)"

lemma sym_of_ready: "operand_ready oi \<Longrightarrow> symb oi \<Longrightarrow> sym_of oi = Inr (value_expr oi sz)"
  by (auto simp: operand_ready_def sym_of_def getSymValue_def value_expr_def)

lemma con_ready: "operand_ready oi \<Longrightarrow> \<not> symb oi \<Longrightarrow> getConValue oi = Inr (con_of oi)"
  by (auto simp: operand_ready_def getConValue_def con_of_def)

lemma bin_expr_ready:
  assumes "operand_ready o1" "operand_ready o2" "symb o1 \<or> symb o2"
  shows "bin_expr b o1 o2 sz2 sz1 = Inr (mk_bin b (value_expr o1 sz1) (value_expr o2 sz2))"
proof -
  note s1 = sym_of_ready [OF assms(1), of sz1] and s2 = sym_of_ready [OF assms(2), of sz2]
  note c1 = con_ready [OF assms(1)] and c2 = con_ready [OF assms(2)]
  show ?thesis
    using assms(3) s1 s2 c1 c2
    by (cases "symb o1"; cases "symb o2") (simp_all add: bin_expr_def value_expr_def ConstExpr_def)
qed

lemma expr_or_const_ready: "operand_ready oi \<Longrightarrow> expr_or_const oi = Inr (value_expr oi (size_of oi))"
  using sym_of_ready [of oi "size_of oi"] con_ready [of oi]
  by (simp add: expr_or_const_def value_expr_def ConstExpr_def)

lemma opnd_simps [simp]:
  "vecOI info = o1 # os \<Longrightarrow> opnd info 0 = Inr o1"
  "vecOI info = o1 # o2 # os \<Longrightarrow> opnd info (Suc 0) = Inr o2"
  "vecOI info = o1 # o2 # o3 # os \<Longrightarrow> opnd info 2 = Inr o3"
  by (simp_all add: opnd_def arr_get_def)

lemma opnd_mem: "opnd info i = Inr oi \<Longrightarrow> oi \<in> set (vecOI info)"
  by (auto simp: opnd_def arr_get_def split: if_splits)

section \<open>The invariant along a run\<close>

text \<open>The handlers that move single values, not lists of cells.\<close>

definition moves_lists :: "entryID \<Rightarrow> bool" where
  "moves_lists i \<longleftrightarrow> (\<exists>m. i = Mov m \<and> m \<notin> {e_movsx, e_movslq, e_movsxd, e_movzx}) \<or> i = Misc e_pop \<or> i = Misc e_push"

definition info_placed :: "ctx \<Rightarrow> InstrInfo \<Rightarrow> bool" where
  "info_placed X info \<longleftrightarrow> (\<forall>oi \<in> set (vecOI info). placed (cx_D X) oi)"

lemmas handler_facts = rbind_eq_Inr_iff rassert_eq_Inr_iff Let_def split_beta

lemma set_save_ok:
  assumes "vm_ok (cx_D X) vm" "flags_ok (cx_D X)" "info_placed X info" "opnd info i = Inr oi"
    and "set_expr X vm oi e = Inr vm1"
  shows "save_flags X vm1 iid e = Inr vm2 \<Longrightarrow> vm_ok (cx_D X) vm2"
    "save_flags_any X vm1 iid e = Inr vm2 \<Longrightarrow> vm_ok (cx_D X) vm2"
proof -
  have "placed (cx_D X) oi" using assms(3,4) opnd_mem by (auto simp: info_placed_def)
  then have "vm_ok (cx_D X) vm1" using set_expr_ok [OF assms(1)] assms(5) by blast
  then show "save_flags X vm1 iid e = Inr vm2 \<Longrightarrow> vm_ok (cx_D X) vm2"
    "save_flags_any X vm1 iid e = Inr vm2 \<Longrightarrow> vm_ok (cx_D X) vm2"
    using save_flags_ok [OF _ assms(2)] by blast+
qed

lemma bin_handler_ok:
  assumes "vm_ok (cx_D X) vm" "flags_ok (cx_D X)" "info_placed X info"
    and "h \<in> {process_add, process_sub, process_and, process_or, process_xor, process_test, process_cmp}"
    and "h X vm info = Inr vm'"
  shows "vm_ok (cx_D X) vm'"
  using assms(4,5) set_save_ok [OF assms(1-3)] save_flags_ok [OF assms(1,2)]
  by (auto simp: process_add_def process_sub_def process_and_def process_or_def process_xor_def process_test_def
      process_cmp_def rbind_eq_Inr_iff)

lemma unary_handler_ok:
  assumes "vm_ok (cx_D X) vm" "flags_ok (cx_D X)" "info_placed X info"
    and "h \<in> {process_shl_sal, process_shr, process_sar, process_not, process_neg}"
    and "h X vm info = Inr vm'"
  shows "vm_ok (cx_D X) vm'"
  using assms(4,5) set_save_ok [OF assms(1-3)]
  by (auto simp: process_shl_sal_def process_shr_def process_sar_def process_not_def process_neg_def Let_def
      rbind_eq_Inr_iff rassert_eq_Inr_iff split: if_splits)

lemma two_sets_ok:
  assumes "vm_ok (cx_D X) vm" "info_placed X info" "opnd info i = Inr o1" "opnd info j = Inr o2"
  shows "set_expr X vm o1 e = Inr vm1 \<Longrightarrow> set_expr X vm1 o2 e' = Inr vm2 \<Longrightarrow> vm_ok (cx_D X) vm2"
    "set_con X vm o1 c = Inr vm1 \<Longrightarrow> set_con X vm1 o2 c' = Inr vm2 \<Longrightarrow> vm_ok (cx_D X) vm2"
    "set_con X vm o1 c = Inr vm1 \<Longrightarrow> set_expr X vm1 o2 e' = Inr vm2 \<Longrightarrow> vm_ok (cx_D X) vm2"
    "set_expr X vm o1 e = Inr vm1 \<Longrightarrow> set_con X vm1 o2 c' = Inr vm2 \<Longrightarrow> vm_ok (cx_D X) vm2"
    "set_expr X vm o1 e = Inr vm1 \<Longrightarrow> vm_ok (cx_D X) vm1" "set_con X vm o1 c = Inr vm1 \<Longrightarrow> vm_ok (cx_D X) vm1"
proof -
  have p: "placed (cx_D X) o1" "placed (cx_D X) o2" using assms(2-4) opnd_mem by (auto simp: info_placed_def)
  note e = set_expr_ok [OF _ p(1)] set_expr_ok [OF _ p(2)] set_con_ok [OF _ p(1)] set_con_ok [OF _ p(2)]
  show "set_expr X vm o1 e = Inr vm1 \<Longrightarrow> set_expr X vm1 o2 e' = Inr vm2 \<Longrightarrow> vm_ok (cx_D X) vm2"
    "set_con X vm o1 c = Inr vm1 \<Longrightarrow> set_con X vm1 o2 c' = Inr vm2 \<Longrightarrow> vm_ok (cx_D X) vm2"
    "set_con X vm o1 c = Inr vm1 \<Longrightarrow> set_expr X vm1 o2 e' = Inr vm2 \<Longrightarrow> vm_ok (cx_D X) vm2"
    "set_expr X vm o1 e = Inr vm1 \<Longrightarrow> set_con X vm1 o2 c' = Inr vm2 \<Longrightarrow> vm_ok (cx_D X) vm2"
    "set_expr X vm o1 e = Inr vm1 \<Longrightarrow> vm_ok (cx_D X) vm1" "set_con X vm o1 c = Inr vm1 \<Longrightarrow> vm_ok (cx_D X) vm1"
    using e assms(1) by blast+
qed

lemma wide_handler_ok:
  assumes "vm_ok (cx_D X) vm" "info_placed X info"
    and "h \<in> {process_idiv, process_mul, process_xchg}" and "h X vm info = Inr vm'"
  shows "vm_ok (cx_D X) vm'"
  using assms(3,4) two_sets_ok(1-4) [OF assms(1,2)]
  by (auto simp: process_idiv_def process_mul_def process_xchg_def Let_def rbind_eq_Inr_iff rassert_eq_Inr_iff
      split: if_splits)

lemma move_handler_ok:
  assumes "vm_ok (cx_D X) vm" "info_placed X info"
    and "h \<in> {process_lea, process_cmovxx, process_movsx, process_movzx, process_set, process_jcc, process_cdq, process_shrd}"
    and "h X vm info = Inr vm'"
  shows "vm_ok (cx_D X) vm'"
  using assms(1,3,4) two_sets_ok(5,6) [OF assms(1,2)]
  by (auto simp: process_lea_def process_cmovxx_def process_movsx_def process_movzx_def process_set_def process_jcc_def
      process_cdq_def process_shrd_def move_value_def Let_def rbind_eq_Inr_iff rassert_eq_Inr_iff split: if_splits)

lemma rbind_InrE: "rbind m f = Inr y \<Longrightarrow> (\<And>x. m = Inr x \<Longrightarrow> f x = Inr y \<Longrightarrow> thesis) \<Longrightarrow> thesis"
  unfolding rbind_eq_Inr_iff by blast

lemma rassert_InrE: "rassert b m = Inr y \<Longrightarrow> (b \<Longrightarrow> m = Inr y \<Longrightarrow> thesis) \<Longrightarrow> thesis"
  unfolding rassert_eq_Inr_iff by blast

lemma same_vm_ok: "same_vm vm vm' \<Longrightarrow> vm_ok D vm \<Longrightarrow> vm_ok D vm'"
  unfolding same_vm_def vm_ok_def by (metis VMState.select_convs(3) VMState.surjective VMState.update_convs(6))

lemma saved_a: "saved_reg x86_al 10 1" "saved_reg x86_ax 10 2" "saved_reg x86_eax 10 4" "saved_reg x86_rax 10 8"
  by (simp_all add: saved_reg_def table_defs ptridx_defs PTREGS_REG_TOTAL_def)

lemma cbw_ok:
  assumes "vm_ok (cx_D X) vm" "info_placed X info" "process_cbw X vm info = Inr vm'"
  shows "vm_ok (cx_D X) vm'"
proof -
  let ?D = "cx_D X"
  let ?K = "\<lambda>oi e vm1 rv. if rv_bsym rv then set_expr X vm1 oi (UryE OpSignEXT e (size_of oi) 0)
     else rbind (full_reg (oi_size oi)) (\<lambda>f.
          rbind (vm_writeRegister ?D vm1
            ((plain_reg (reg_id ?D f) (oi_size oi) False)\<lparr>rv_i64 := extend_half (oi_size oi) (rv_i64 rv)\<rparr>))
            (\<lambda>(vm, r). rassert r (Inr vm)))"
  obtain oi e q where o1: "opnd info 0 = Inr oi" "half_reg (oi_size oi) = Inr q"
    "(case q of (h, hsz) \<Rightarrow> rbind (vm_readRegister ?D vm (plain_reg (reg_id ?D h) hsz False))
        (\<lambda>(vm1, rv, r). rassert r (?K oi e vm1 rv))) = Inr vm'"
    using assms(3) [unfolded process_cbw_def] by (elim rbind_InrE rassert_InrE) (rule that, assumption+)
  obtain h hsz where q: "q = (h, hsz)" by (cases q)
  have o2: "rbind (vm_readRegister ?D vm (plain_reg (reg_id ?D h) hsz False))
        (\<lambda>(vm1, rv, r). rassert r (?K oi e vm1 rv)) = Inr vm'"
    using o1(3) unfolding q prod.case .
  obtain p where p: "vm_readRegister ?D vm (plain_reg (reg_id ?D h) hsz False) = Inr p"
    using o2 unfolding rbind_eq_Inr_iff by blast
  obtain vm1 rv r where "p = (vm1, rv, r)" by (cases p)
  then have o: "opnd info 0 = Inr oi" "half_reg (oi_size oi) = Inr (h, hsz)"
    "vm_readRegister ?D vm (plain_reg (reg_id ?D h) hsz False) = Inr (vm1, rv, r)"
    using o1(1,2) q p by simp_all
  have fin: "?K oi e vm1 rv = Inr vm'"
    using o2 unfolding o(3) rbind.simps prod.case rassert_eq_Inr_iff by blast
  have sz: "(oi_size oi = 2 \<and> h = x86_al \<and> hsz = 1) \<or> (oi_size oi = 4 \<and> h = x86_ax \<and> hsz = 2) \<or> (oi_size oi = 8 \<and> h = x86_eax \<and> hsz = 4)"
    using o(2) by (auto simp: half_reg_def split: if_splits)
  then have sr: "saved_reg h 10 hsz" using saved_a by auto
  have wf: "vm_wf vm" and D: "dapi_ok ?D" "regs_ok ?D (m_CPU vm)" using assms(1) by (auto simp: vm_ok_def)
  have "same_vm vm vm1"
    using vm_readRegister_view [OF wf D sr, of "plain_reg (reg_id ?D h) hsz False"] o(3) same_vm_refl [OF wf]
    by (auto simp: plain_reg_def split: if_splits)
  then have ok1: "vm_ok ?D vm1" using same_vm_ok assms(1) by blast
  have pl: "placed ?D oi" using assms(2) opnd_mem [OF o(1)] by (simp add: info_placed_def)
  show ?thesis
  proof (cases "rv_bsym rv")
    case True
    then show ?thesis using fin set_expr_ok [OF ok1 pl] by simp
  next
    case False
    obtain f where f: "full_reg (oi_size oi) = Inr f" using fin False by (auto simp: rbind_eq_Inr_iff)
    have sf: "saved_reg f 10 (oi_size oi)" using f sz saved_a by (auto simp: full_reg_def split: if_splits)
    let ?c = "extend_half (oi_size oi) (rv_i64 rv)"
    obtain vm2 where "vm_put ?D (Register f 10 (oi_size oi)) None ?c vm1 = Inr vm2" "vm_ok ?D vm2"
      using vm_put_ok [OF ok1, of "Register f 10 (oi_size oi)" None ?c] sf by auto
    then show ?thesis using fin False f by (simp add: plain_reg_def)
  qed
qed

definition single_handlers :: "(ctx \<Rightarrow> VMState \<Rightarrow> InstrInfo \<Rightarrow> VMState res) set" where
  "single_handlers = {process_add, process_sub, process_and, process_or, process_xor, process_test, process_cmp} \<union>
     {process_shl_sal, process_shr, process_sar, process_not, process_neg} \<union>
     {process_idiv, process_mul, process_xchg} \<union>
     {process_lea, process_cmovxx, process_movsx, process_movzx, process_set, process_jcc, process_cdq, process_shrd} \<union>
     {process_cbw}"

lemma arith_single: "arith_handler a = Some h \<Longrightarrow> h \<in> single_handlers"
  by (cases a) (auto simp: single_handlers_def)

lemma bits_single: "bits_handler a = Some h \<Longrightarrow> h \<in> single_handlers"
  by (cases a) (auto simp: single_handlers_def)

lemma state_single: "state_handler a = Some h \<Longrightarrow> h \<in> single_handlers"
  by (cases a) simp_all

lemma alu_single: "alu_handler a = Some h \<Longrightarrow> h \<in> single_handlers"
  by (cases a) (simp_all add: arith_single bits_single state_single)

lemma misc_single: "misc_handler m = Some h \<Longrightarrow> m \<notin> {e_pop, e_push} \<Longrightarrow> h \<in> single_handlers"
  by (cases m) (auto simp: single_handlers_def)

lemma handler_single:
  assumes "handler_of i = Some h" "\<not> moves_lists i"
  shows "h \<in> single_handlers"
proof (cases i)
  case (Alu a)
  then show ?thesis using assms alu_single by simp
next
  case (Misc m)
  then show ?thesis using assms misc_single by (auto simp: moves_lists_def)
qed (use assms in \<open>auto simp: moves_lists_def single_handlers_def split: if_splits\<close>)

lemma exec_instr_ok:
  assumes "vm_ok (cx_D X) vm" "flags_ok (cx_D X)" "info_placed X info" "\<not> moves_lists (in_id (PI info))"
    and "exec_instr X vm info = Inr vm'"
  shows "vm_ok (cx_D X) vm'"
proof -
  obtain h where h: "handler_of (in_id (PI info)) = Some h" "h X vm info = Inr vm'"
    using assms(5) by (auto simp: exec_instr_def split: option.splits)
  show ?thesis
    using handler_single [OF h(1) assms(4)] h(2) bin_handler_ok [OF assms(1-3), of h vm']
      unary_handler_ok [OF assms(1-3), of h vm'] wide_handler_ok [OF assms(1,3), of h vm']
      move_handler_ok [OF assms(1,3), of h vm'] cbw_ok [OF assms(1,3), of vm']
    unfolding single_handlers_def by blast
qed

text \<open>The states a run of such instructions can reach, one instruction at a time.\<close>

inductive sym_reach :: "ctx \<Rightarrow> VMState \<Rightarrow> VMState \<Rightarrow> bool" for X :: ctx and vm0 :: VMState where
  reach_start: "sym_reach X vm0 vm0"
| reach_step: "sym_reach X vm0 vm \<Longrightarrow> info_placed X info \<Longrightarrow> \<not> moves_lists (in_id (PI info)) \<Longrightarrow>
    exec_instr X vm info = Inr vm' \<Longrightarrow> sym_reach X vm0 vm'"

lemma sym_reach_ok: "sym_reach X vm0 vm \<Longrightarrow> vm_ok (cx_D X) vm0 \<Longrightarrow> flags_ok (cx_D X) \<Longrightarrow> vm_ok (cx_D X) vm"
  by (induction rule: sym_reach.induct) (auto intro: exec_instr_ok)

lemma run_loop_reach:
  "run_loop X infos vm = Inr vm' \<Longrightarrow> sym_reach X vm0 vm \<Longrightarrow>
     \<forall>I \<in> set infos. info_placed X I \<and> \<not> moves_lists (in_id (PI I)) \<Longrightarrow> sym_reach X vm0 vm'"
proof (induction infos arbitrary: vm)
  case (Cons I Is)
  obtain vm1 where 1: "exec_instr X vm I = Inr vm1" "run_loop X Is vm1 = Inr vm'"
    using Cons.prems(1) by (auto simp: rbind_eq_Inr_iff)
  have "sym_reach X vm0 vm1" by (rule reach_step [OF Cons.prems(2) _ _ 1(1)]) (use Cons.prems(3) in auto)
  then show ?case using Cons.IH [OF 1(2)] Cons.prems(3) by simp
qed simp

section \<open>Properties\<close>

definition ex_ctx :: ctx where
  "ex_ctx = \<lparr>cx_D = ex_dapi, cx_N = ex_num, cx_xflag = 0x18140400\<rparr>"

definition ex_instr :: "entryID \<Rightarrow> operand list \<Rightarrow> instr" where
  "ex_instr i ops = \<lparr>in_id = i, in_operands = ops, in_reads = [], in_implicit = [], in_size = 4\<rparr>"

definition ex_sym :: OprndInfo where
  "ex_sym = \<lparr>opty = OPTY_REGSYM, rdwr = OPAC_RDWR, oi_size = 8, symb = True, oi_place = 0x10008000, oi_conval = 0,
     oi_symval = Some (UDefExpr None), isSymList = False, conVal = 0, symList = None\<rparr>"

definition ex_imm :: OprndInfo where
  "ex_imm = \<lparr>opty = OPTY_IMM, rdwr = OPAC_RD, oi_size = 8, symb = False, oi_place = 5, oi_conval = 0,
     oi_symval = None, isSymList = False, conVal = 0, symList = None\<rparr>"

definition ex_info :: "entryID \<Rightarrow> OprndInfo list \<Rightarrow> InstrInfo" where
  "ex_info i ois = \<lparr>PI = ex_instr i [], vecOI = ois, hasSymbOprand = True, bound = Map.empty\<rparr>"

lemma ex_operands:
  "place_ok (Register x86_rax 10 8)" "op_place (cx_D ex_ctx) ex_sym (Register x86_rax 10 8)"
  "operand_ready ex_sym" "operand_ready ex_imm" "symb ex_sym" "\<not> symb ex_imm" "placed (cx_D ex_ctx) ex_sym"
  "vm_ok (cx_D ex_ctx) ex_vm" "flags_ok (cx_D ex_ctx)"
  using saved_examples ex_vm_ok(1) ex_flags_ok
  by (auto simp: ex_sym_def ex_imm_def ex_ctx_def ex_dapi_def operand_ready_def accs_reads_def placed_def
      intro: exI [of _ "Register x86_rax 10 8"])

text \<open>C3. An addition, subtraction, conjunction, disjunction or exclusive or with a symbolic operand (add, sub, and, or, xor) puts
  the expression of the operation in the destination, byte by byte, with a concrete zero below it, changes neither the symbolic nor the
  concrete state of any other byte of memory or registers (a one-byte register keeps its concrete byte in the second byte
  of the word), saves the expression and marks the status flags symbolic.\<close>

theorem process_binop_effect:
  assumes "vm_ok (cx_D X) vm" "flags_ok (cx_D X)" "vecOI info = o1 # o2 # os"
    and "operand_ready o1" "operand_ready o2" "symb o1 \<or> symb o2" "place_ok l" "op_place (cx_D X) o1 l"
    and "(h, b) \<in> {(process_add, OpAdd), (process_sub, OpSub), (process_and, OpAnd), (process_or, OpOr), (process_xor, OpXor)}"
  shows "\<exists>vm'. h X vm info = Inr vm' \<and> vm_ok (cx_D X) vm' \<and>
    vm_bytes vm' = put_at l (Some (mk_bin b (value_expr o1 (size_of o1)) (value_expr o2 (size_of o2)))) (vm_bytes vm) \<and>
    conc_byte vm' = num_at l 0 (conc_byte vm) \<and>
    flags_saved (cx_D X) (mk_bin b (value_expr o1 (size_of o1)) (value_expr o2 (size_of o2))) vm'"
proof -
  let ?e = "mk_bin b (value_expr o1 (size_of o1)) (value_expr o2 (size_of o2))"
  note be = bin_expr_ready [OF assms(4-6), of b "size_of o2" "size_of o1"]
  obtain vm1 where w: "set_expr X vm o1 ?e = Inr vm1" "vm_ok (cx_D X) vm1" "vm_bytes vm1 = put_at l (Some ?e) (vm_bytes vm)"
    using set_expr_view [OF assms(1,7,8), of ?e] by blast
  define iid where "iid = Alu (if b = OpAdd then e_add else if b = OpSub then e_sub else if b = OpAnd then e_and
    else if b = OpOr then e_or else e_xor)"
  have "iid \<in> set stateChangingInstrList" by (simp add: iid_def stateChangingInstrList_def)
  then obtain vm2 where s: "save_flags X vm1 iid ?e = Inr vm2" "save_flags_any X vm1 iid ?e = Inr vm2"
    "vm_ok (cx_D X) vm2" "vm_bytes vm2 = vm_bytes vm1" "flags_saved (cx_D X) ?e vm2"
    using save_flags_view [OF w(2) assms(2), of iid ?e] by blast
  have "h X vm info = Inr vm2"
    using assms(3,9) be w(1) s(1,2)
    by (auto simp: process_add_def process_sub_def process_and_def process_or_def process_xor_def iid_def)
  moreover have "conc_byte vm2 = num_at l 0 (conc_byte vm)"
    using save_flags_conc [OF s(1)] set_expr_conc [OF assms(1,7,8) w(1)] by simp
  ultimately show ?thesis using s(3-5) w(3) by auto
qed

theorem process_binop_effect_witness:
  "\<exists>vm'. process_xor ex_ctx ex_vm (ex_info (Alu e_xor) [ex_sym, ex_imm]) = Inr vm' \<and> vm_ok (cx_D ex_ctx) vm' \<and>
    vm_bytes vm' = put_at (Register x86_rax 10 8)
      (Some (mk_bin OpXor (value_expr ex_sym (size_of ex_sym)) (value_expr ex_imm (size_of ex_imm)))) (vm_bytes ex_vm) \<and>
    conc_byte vm' = num_at (Register x86_rax 10 8) 0 (conc_byte ex_vm) \<and>
    flags_saved (cx_D ex_ctx) (mk_bin OpXor (value_expr ex_sym (size_of ex_sym)) (value_expr ex_imm (size_of ex_imm))) vm'"
  by (rule process_binop_effect [OF ex_operands(8,9) _ ex_operands(3,4) _ ex_operands(1,2)])
    (simp_all add: ex_info_def ex_operands)

text \<open>A comparison or test with a symbolic operand changes no byte of memory or registers: it saves
  the difference or the conjunction of its operands and marks the status flags symbolic.\<close>

theorem process_compare_effect:
  assumes "vm_ok (cx_D X) vm" "flags_ok (cx_D X)" "vecOI info = o1 # o2 # os"
    and "operand_ready o1" "operand_ready o2" "symb o1 \<or> symb o2"
    and "(h, e) \<in> {(process_cmp, SubExpr (value_expr o1 (size_of o2)) (value_expr o2 (size_of o1))),
      (process_test, AndExpr (value_expr o1 (size_of o1)) (value_expr o2 (size_of o2)))}"
  shows "\<exists>vm'. h X vm info = Inr vm' \<and> vm_ok (cx_D X) vm' \<and> vm_bytes vm' = vm_bytes vm \<and> flags_saved (cx_D X) e vm'"
proof -
  have "Alu e_cmp \<in> set stateChangingInstrList" "Alu e_test \<in> set stateChangingInstrList"
    by (simp_all add: stateChangingInstrList_def)
  note s = this [THEN save_flags_view [OF assms(1,2)]]
  show ?thesis
    using s(1) [of e] s(2) [of e] assms(3,7) bin_expr_ready [OF assms(4-6), of OpSub "size_of o1" "size_of o2"]
      bin_expr_ready [OF assms(4-6), of OpAnd "size_of o2" "size_of o1"]
    by (auto simp: process_cmp_def process_test_def)
qed

theorem process_compare_effect_witness:
  "\<exists>vm'. process_cmp ex_ctx ex_vm (ex_info (Alu e_cmp) [ex_imm, ex_sym]) = Inr vm' \<and> vm_ok (cx_D ex_ctx) vm' \<and>
    vm_bytes vm' = vm_bytes ex_vm \<and>
    flags_saved (cx_D ex_ctx) (SubExpr (value_expr ex_imm (size_of ex_sym)) (value_expr ex_sym (size_of ex_imm))) vm'"
  by (rule process_compare_effect [OF ex_operands(8,9) _ ex_operands(4,3)]) (simp_all add: ex_info_def ex_operands)

text \<open>C4. Whatever sequence of instructions the executor runs to its end, other than moves of
  lists (mov, push, pop), on operands that name places of the machine, the invariant of the machine
  holds afterwards, and the executor holds no instruction any more.\<close>

theorem run_keeps_invariant:
  assumes "run X infos vm = Inr (vm', infos', r)" "vm_ok (cx_D X) vm" "flags_ok (cx_D X)"
    and "\<forall>I \<in> set infos. info_placed X I \<and> \<not> moves_lists (in_id (PI I))"
  shows "vm_ok (cx_D X) vm' \<and> infos' = [] \<and> r"
proof -
  have l: "run_loop X infos vm = Inr vm'" "infos' = []" "r" using assms(1) by (auto simp: run_def rbind_eq_Inr_iff)
  show ?thesis using sym_reach_ok [OF run_loop_reach [OF l(1) reach_start assms(4)] assms(2,3)] l(2,3) by simp
qed

theorem run_keeps_invariant_witness:
  "\<exists>vm'. run ex_ctx [ex_info (Alu e_xor) [ex_sym, ex_imm]] ex_vm = Inr (vm', [], True) \<and> vm_ok (cx_D ex_ctx) vm'"
proof -
  let ?I = "ex_info (Alu e_xor) [ex_sym, ex_imm]"
  have h: "exec_instr ex_ctx ex_vm ?I = process_xor ex_ctx ex_vm ?I" by (simp add: exec_instr_def ex_info_def ex_instr_def)
  obtain vm1 where w: "set_expr ex_ctx ex_vm ex_sym (XorExpr (value_expr ex_sym 8) (value_expr ex_imm 8)) = Inr vm1"
    "vm_ok (cx_D ex_ctx) vm1"
    using set_expr_view [OF ex_operands(8,1,2)] by blast
  have "Alu e_xor \<in> set stateChangingInstrList" by (simp add: stateChangingInstrList_def)
  then obtain vm2 where s: "save_flags ex_ctx vm1 (Alu e_xor) (XorExpr (value_expr ex_sym 8) (value_expr ex_imm 8)) = Inr vm2"
    using save_flags_view [OF w(2) ex_operands(9)] by blast
  have sz: "size_of ex_sym = 8" "size_of ex_imm = 8" by (simp_all add: size_of_def ex_sym_def ex_imm_def)
  have "process_xor ex_ctx ex_vm ?I = Inr vm2"
    using bin_expr_ready [OF ex_operands(3,4), of OpXor 8 8] w(1) s ex_operands(5) by (simp add: process_xor_def ex_info_def sz)
  then have r: "run ex_ctx [?I] ex_vm = Inr (vm2, [], True)" by (simp add: run_def h)
  have "info_placed ex_ctx ?I" using ex_operands(7) by (auto simp: info_placed_def ex_info_def placed_def ex_imm_def)
  moreover have "\<not> moves_lists (in_id (PI ?I))" by (simp add: moves_lists_def ex_info_def ex_instr_def)
  ultimately have "vm_ok (cx_D ex_ctx) vm2" using run_keeps_invariant [OF r ex_operands(8,9)] by simp
  then show ?thesis using r by blast
qed


section \<open>Multiplication\<close>

text \<open>The number in the low n bytes of a word.\<close>

definition low_bytes :: "u32 \<Rightarrow> u64 \<Rightarrow> int" where
  "low_bytes sz v = uint v mod 2 ^ unat (sz * 8)"

lemma uint_mods:
  "uint (v mod 256 :: u64) = uint v mod 256" "uint (v mod 65536 :: u64) = uint v mod 65536"
  "uint (v mod 4294967296 :: u64) = uint v mod 4294967296" "uint v mod 18446744073709551616 = uint (v :: u64)"
  using uint_lt2p [of v] by (simp_all add: uint_mod)

lemma SignedTOUnsigned_low: "sz \<in> {1, 2, 4, 8} \<Longrightarrow> SignedTOUnsigned v (sint (sz :: u32)) = Inr (low_bytes sz v)"
  by (auto simp: SignedTOUnsigned_def low_bytes_def take_bit_eq_mod uint_mods)

lemma product_parts:
  fixes sz :: u32
  assumes "sz \<in> {1, 2, 4, 8}" "0 \<le> p" "p < 2 ^ 128"
  shows "product_part p sz False = Inr (word_of_int (p mod 2 ^ unat (sz * 8)))"
    "product_part p sz True = Inr (word_of_int (p div 2 ^ unat (sz * 8) mod 2 ^ unat (sz * 8)))"
  using assms(1) by (auto simp: product_part_def)

lemma low_bytes_range: "sz \<in> {1, 2, 4, 8} \<Longrightarrow> 0 \<le> low_bytes sz v \<and> low_bytes sz v < 2 ^ unat (sz * 8)"
  unfolding low_bytes_def by simp

lemma uint_of_low:
  assumes "sz \<in> {1, 2, 4, 8 :: u32}" "0 \<le> x" "x < 2 ^ unat (sz * 8)"
  shows "uint (word_of_int x :: u64) = x"
proof -
  have "(2 :: int) ^ unat (sz * 8) \<le> 2 ^ 64" using assms(1) by auto
  then show ?thesis using assms(2,3) by (simp add: uint_word_of_int)
qed

lemma product_bound:
  assumes "sz \<in> {1, 2, 4, 8 :: u32}" "0 \<le> a" "a < 2 ^ unat (sz * 8)" "0 \<le> b" "b < 2 ^ unat (sz * 8)"
  shows "0 \<le> a * b \<and> a * b < 2 ^ 128 \<and> a * b div 2 ^ unat (sz * 8) < (2 :: int) ^ unat (sz * 8)"
proof -
  let ?M = "(2 :: int) ^ unat (sz * 8)"
  have m: "a * b < ?M * ?M" using mult_strict_mono' [OF assms(3,5,2,4)] .
  moreover have "?M * ?M \<le> 2 ^ 128" using assms(1) by auto
  moreover have "a * b div ?M < ?M"
  proof (rule ccontr)
    assume "\<not> a * b div ?M < ?M"
    then have "?M * ?M \<le> a * b div ?M * ?M" by (simp add: mult_right_mono)
    also have "\<dots> \<le> a * b" using div_mult_mod_eq [of "a * b" ?M] pos_mod_sign [of ?M "a * b"] assms(1) by (smt (verit) zero_less_power)
    finally show False using m by simp
  qed
  ultimately show ?thesis using assms(2,4) by simp
qed

text \<open>C38. An unsigned multiplication of two concrete operands of the same size writes the low half of
  the exact product to the accumulator and the high half to the data register.\<close>

theorem process_mul_exact:
  assumes "vecOI info = o_d # o_a # o_m # os" "in_id (PI info) = Alu e_mul"
    and "oi_size o_a \<in> {1, 2, 4, 8}" "oi_size o_d = oi_size o_a" "oi_size o_m = oi_size o_a"
    and "operand_ready o_a" "operand_ready o_m" "\<not> symb o_a" "\<not> symb o_m"
  shows "\<exists>lo hi. process_mul X vm info = rbind (set_con X vm o_a lo) (\<lambda>vm. set_con X vm o_d hi) \<and>
    uint hi * 2 ^ unat (oi_size o_a * 8) + uint lo = low_bytes (oi_size o_a) (con_of o_a) * low_bytes (oi_size o_a) (con_of o_m)"
proof -
  let ?sz = "oi_size o_a"
  let ?M = "(2 :: int) ^ unat (?sz * 8)"
  let ?p = "low_bytes ?sz (con_of o_a) * low_bytes ?sz (con_of o_m)"
  note lb = low_bytes_range [OF assms(3)]
  have pb: "0 \<le> ?p" "?p < 2 ^ 128" "?p div ?M < ?M" using product_bound [OF assms(3)] lb by blast+
  have q: "?p div ?M mod ?M = ?p div ?M" using pb by (simp add: mod_pos_pos_trivial pos_imp_zdiv_nonneg_iff)
  have cp: "con_product True (con_of o_a) (size_of o_a) (con_of o_m) (size_of o_m) = Inr ?p"
    using pb(1,2) by (simp add: con_product_def size_of_def SignedTOUnsigned_low [OF assms(3)] assms(5) mod_pos_pos_trivial)
  have "process_mul X vm info = rbind (set_con X vm o_a (word_of_int (?p mod ?M)))
      (\<lambda>vm. set_con X vm o_d (word_of_int (?p div ?M mod ?M)))"
    using assms(1,2,4,8,9) con_ready [OF assms(6,8)] con_ready [OF assms(7,9)] cp product_parts [OF assms(3) pb(1,2)]
    by (simp add: process_mul_def Let_def)
  moreover have "uint (word_of_int (?p mod ?M) :: u64) = ?p mod ?M" by (rule uint_of_low [OF assms(3)]) simp_all
  moreover have "uint (word_of_int (?p div ?M mod ?M) :: u64) = ?p div ?M mod ?M" by (rule uint_of_low [OF assms(3)]) simp_all
  ultimately show ?thesis using q by (metis div_mult_mod_eq)
qed

definition ex_con :: "u64 \<Rightarrow> OprndInfo" where
  "ex_con v = \<lparr>opty = OPTY_REGCON, rdwr = OPAC_RDWR, oi_size = 8, symb = False, oi_place = 0x10008000, oi_conval = v,
     oi_symval = None, isSymList = False, conVal = 0, symList = None\<rparr>"

theorem process_mul_exact_witness:
  "\<exists>lo hi. process_mul ex_ctx ex_vm (ex_info (Alu e_mul) [ex_con 0, ex_con (2 ^ 40), ex_con (2 ^ 40 + 1)]) =
      rbind (set_con ex_ctx ex_vm (ex_con (2 ^ 40)) lo) (\<lambda>vm. set_con ex_ctx vm (ex_con 0) hi) \<and>
    uint (hi :: u64) * 2 ^ 64 + uint (lo :: u64) = 2 ^ 40 * (2 ^ 40 + 1)"
  using process_mul_exact [of "ex_info (Alu e_mul) [ex_con 0, ex_con (2 ^ 40), ex_con (2 ^ 40 + 1)]"
      "ex_con 0" "ex_con (2 ^ 40)" "ex_con (2 ^ 40 + 1)" "[]" ex_ctx ex_vm]
  by (simp add: ex_info_def ex_instr_def ex_con_def operand_ready_def accs_reads_def con_of_def low_bytes_def)

text \<open>
  The signed product is taken in 64 bits and widened afterwards, so its high half is only the sign
  of the low one.
\<close>

lemma imul_high_half_wrong:
  "rbind (con_product False (2 ^ 40) 8 (2 ^ 40) 8) (\<lambda>p. product_part p 8 True) = Inr 0"
  "2 ^ 40 * 2 ^ 40 div (2 :: int) ^ 64 = 2 ^ 16"
  by (simp_all add: con_product_def product_part_def)

section \<open>Handlers that cannot succeed\<close>

text \<open>C40. A right shift of a symbolic operand, logical or arithmetic, never completes: the count is read
  from the operand just asserted to be symbolic, and reading a symbolic operand as a number ends the
  program; a shift with a concrete first operand fails the assert before that.\<close>

theorem right_shifts_never_complete: "h \<in> {process_shr, process_sar} \<Longrightarrow> h X vm info \<noteq> Inr vm'"
proof -
  have c: "symb oi \<Longrightarrow> getConValue oi = Inl ExitFailure" for oi by (simp add: getConValue_def)
  assume "h \<in> {process_shr, process_sar}"
  then show ?thesis using c by (auto simp: process_shr_def process_sar_def res_iffs Let_def)
qed

theorem right_shifts_never_complete_witness:
  "process_shr ex_ctx ex_vm (ex_info (Alu e_shr) [ex_sym, ex_imm]) \<noteq> Inr ex_vm"
  by (rule right_shifts_never_complete) simp

text \<open>
  A negation bit by bit stores its result and then fails: not is no flag-changing instruction,
  so saving the expression is refused, and the refusal is asserted. The numbers of the instructions
  must tell not from the others.
\<close>

lemma not_never_completes:
  assumes "\<And>j. cx_N X j = cx_N X (Alu e_not) \<Longrightarrow> j = Alu e_not"
  shows "process_not X vm info \<noteq> Inr vm'"
proof -
  have "Alu e_not \<notin> set stateChangingInstrList" by (simp add: stateChangingInstrList_def)
  then have "\<not> (isFlagChangingInstr (cx_N X) (Alu e_not) \<or> isFlagSettingInstr (cx_N X) (Alu e_not))"
    using flag_instr_iff [OF assms] by blast
  then have "vm_SaveFlagChangingInstructionExpr (cx_N X) (cx_D X) v (Alu e_not) (Some e) = Inr (v', True) \<Longrightarrow> False" for v e v'
    by (auto simp: vm_SaveFlagChangingInstructionExpr_def SaveFlagChangingInstructionExpr_def rbind_eq_Inr_iff)
  then show ?thesis
    by (auto simp: process_not_def Let_def save_flags_def rbind_eq_Inr_iff rassert_eq_Inr_iff split: if_splits)
qed

text \<open>The quotient and the remainder of a division are the same expression.\<close>

lemma idiv_same_results:
  assumes "vecOI info = o_d # o_a # o_v # os" "operand_ready o_d" "operand_ready o_a" "operand_ready o_v"
  shows "\<exists>e. process_idiv X vm info = rbind (set_expr X vm o_a e) (\<lambda>vm. set_expr X vm o_d e)"
  using assms(1) expr_or_const_ready [OF assms(2)] expr_or_const_ready [OF assms(3)] expr_or_const_ready [OF assms(4)]
  by (auto simp: process_idiv_def Let_def)

text \<open>A set writes 1 whatever the flags are.\<close>

lemma set_ignores_condition: "vecOI info = oi # os \<Longrightarrow> process_set X vm info = set_con X vm oi 1"
  by (simp add: process_set_def)

lemma high_masks:
  "(0xff00 :: u64) = push_bit 8 (mask 8)" "(0xffff0000 :: u64) = push_bit 16 (mask 16)"
  "(0xffffffff00000000 :: u64) = push_bit 32 (mask 32)"
  by (simp_all add: mask_eq_exp_minus_1 push_bit_eq_mult)

lemma top_bits: "(0x80 :: u64) = 2 ^ 7" "(0x8000 :: u64) = 2 ^ 15" "(0x80000000 :: u64) = 2 ^ 31"
  by simp_all

lemma and_top_bit: "(h :: u64) AND 2 ^ n \<noteq> 0 \<longleftrightarrow> bit h n"
  by (simp add: and_exp_eq_0_iff_not_bit)

text \<open>The conversion of a concrete half is its sign extension, in the bytes the destination has.\<close>

lemma extend_half_is_sign_extension:
  "take_bit 16 (extend_half 2 v) = take_bit 16 (signed_take_bit 7 v)"
  "take_bit 32 (extend_half 4 v) = take_bit 32 (signed_take_bit 15 v)"
  "extend_half 8 v = signed_take_bit 31 v"
  unfolding extend_half_def Let_def high_masks top_bits and_top_bit
  by (auto intro!: bit_eqI simp: bit_simps)

end
