(* ===== verification/Thin_Parse.thy ===== *)
theory Thin_Parse
  imports Sym_Exec
begin

text \<open>
  Instructions as the thin control sees them, and its own parser of operands (parseOperands and the
  _mayOperandUseSymbol functions of thinctrl.cpp), whose results the symbolic executor works on. It differs from
  the executor's parser: values are read as expressions, not as lists of cells, and an operand of
  several registers is built as a sum.
\<close>

section \<open>What comes from Dyninst\<close>

datatype insn_category = c_ReturnInsn | c_CallInsn | c_BranchInsn | c_OtherInsn

text \<open>An address an instruction computes: the registers in it, and the size of the cell there.\<close>

record mem_ref =
  mr_regs :: "(u32 \<times> u32) list"
  mr_size :: u64
  mr_eval :: "bindings \<Rightarrow> u64 option"

text \<open>The children of an operand that is a sum: a register with its size, or a number with its size.\<close>

datatype child = ch_reg u32 u32 | ch_imm "u64 option" int | ch_other

record topnd =
  to_op :: operand
  to_binary :: bool
  to_isAdd :: bool
  to_children :: "child list"
  to_rd :: "mem_ref list"
  to_wr :: "mem_ref list"

text \<open>
  A decoded instruction, with the values set on its registers: they stay on the cached object, also when the
  register is symbolic by the next time.
\<close>

record dinstr =
  di_instr :: instr
  di_cat :: insn_category
  di_nop :: bool
  di_fall :: bool \<comment> \<open>allowsFallThrough\<close>
  di_ops :: "topnd list"
  di_imp_rd :: "mem_ref list"
  di_imp_wr :: "mem_ref list"
  di_isRead :: "x86_reg list" \<comment> \<open>registers isRead answers yes for\<close>
  di_isWritten :: "x86_reg list"
  di_bound :: bindings

section \<open>Registers read\<close>

text \<open>Declared bool, both functions end without a return; their callers do not look at a value.\<close>

fun thin_setReadRegs :: "ctx \<Rightarrow> VMState \<Rightarrow> (u32 \<times> u32) list \<Rightarrow> bindings \<Rightarrow> (VMState \<times> bindings) res" where
  "thin_setReadRegs X vm [] env = Inr (vm, env)"
| "thin_setReadRegs X vm ((i, sz) # rs) env =
     (if is_flag (cx_D X) i then thin_setReadRegs X vm rs env
      else rbind (vm_readRegister (cx_D X) vm (plain_reg i sz False)) (\<lambda>(vm, V, r).
           rassert r (thin_setReadRegs X vm rs (if rv_bsym V then env else bind_reg i sz (rv_i64 V) env))))"

definition thin_maySymbolicRegister :: "ctx \<Rightarrow> VMState \<Rightarrow> u32 \<Rightarrow> bool res" where
  "thin_maySymbolicRegister X vm i = vm_isSYReg (cx_D X) vm i"

definition maySymbolicMemoryCell :: "VMState \<Rightarrow> u64 \<Rightarrow> u64 \<Rightarrow> bool res" where
  "maySymbolicMemoryCell vm a sz = vm_isSYMemoryCell vm a sz"

fun any_thin :: "ctx \<Rightarrow> VMState \<Rightarrow> (u32 \<times> u32) list \<Rightarrow> bool res" where
  "any_thin X vm [] = Inr False"
| "any_thin X vm ((i, sz) # rs) =
     rbind (thin_maySymbolicRegister X vm i) (\<lambda>b. rbind (any_thin X vm rs) (\<lambda>c. Inr (b \<or> c)))"

text \<open>The base of gs for an instruction that reads gs implicitly; 0 otherwise.\<close>

definition thin_isUseGS :: "ctx \<Rightarrow> VMState \<Rightarrow> dinstr \<Rightarrow> (VMState \<times> u64) res" where
  "thin_isUseGS X vm I = gs_base_of X vm (in_implicit (di_instr I))"

definition with_gs :: "u64 \<Rightarrow> u64 \<Rightarrow> u64" where
  "with_gs a gs_base = (if gs_base = 0 then a else a + gs_base)"

section \<open>The four kinds of operands\<close>

text \<open>Registers are read until a symbolic one is found.\<close>

fun first_symbolic :: "ctx \<Rightarrow> VMState \<Rightarrow> (u32 \<times> u32) list \<Rightarrow> (VMState \<times> bool) res" where
  "first_symbolic X vm [] = Inr (vm, False)"
| "first_symbolic X vm ((i, sz) # rs) =
     rbind (vm_readRegister (cx_D X) vm (plain_reg i sz False)) (\<lambda>(vm, V, r).
     rassert r (if rv_bsym V then Inr (vm, True) else first_symbolic X vm rs))"

fun sum_parts :: "ctx \<Rightarrow> VMState \<Rightarrow> child list \<Rightarrow> (VMState \<times> expr option list) res" where
  "sum_parts X vm [] = Inr (vm, [])"
| "sum_parts X vm (k # ks) =
     rbind (case k of
         ch_reg i sz \<Rightarrow> rbind (vm_readRegister (cx_D X) vm (plain_reg i sz False)) (\<lambda>(vm, V, r).
            rassert r (rassert (rv_bsym V) (Inr (vm, rv_expr V))))
       | ch_imm v sz \<Rightarrow> rbind (eval_defined v) (\<lambda>c. Inr (vm, Some (ConstExpr c sz 0)))
       | ch_other \<Rightarrow> Inl AssertFail) (\<lambda>(vm, e).
     rbind (sum_parts X vm ks) (\<lambda>(vm, es). Inr (vm, e # es)))"

text \<open>A symbolic operand of one register, or the sum of two symbolic registers or of one and a number.\<close>

definition symbolic_value :: "ctx \<Rightarrow> VMState \<Rightarrow> topnd \<Rightarrow> OprndInfo \<Rightarrow> (VMState \<times> OprndInfo) res" where
  "symbolic_value X vm Q oi =
     (let O1 = to_op Q
      in if od_children O1 = 0
         then let (i, sz) = hd (getReadSet O1)
              in rbind (vm_readRegister (cx_D X) vm (plain_reg i sz False)) (\<lambda>(vm, V, r).
                 rassert r (Inr (vm, oi\<lparr>oi_place := ucast i, oi_symval := rv_expr V\<rparr>)))
         else rassert (to_binary Q) (rassert (to_isAdd Q) (rassert (od_children O1 = 2)
              (rbind (sum_parts X vm (to_children Q)) (\<lambda>(vm, KVE).
               rbind (arr_get KVE 0) (\<lambda>a. rbind (arr_get KVE 1) (\<lambda>b.
               rbind (deref a) (\<lambda>a. rbind (deref b) (\<lambda>b.
               Inr (vm, oi\<lparr>oi_symval := Some (AddExpr a b)\<rparr>))))))))))"

definition mayOperandUseSymbol_XX ::
  "ctx \<Rightarrow> VMState \<Rightarrow> topnd \<Rightarrow> bindings \<Rightarrow> OprndInfo \<Rightarrow> (VMState \<times> OprndInfo) res" where
  "mayOperandUseSymbol_XX X vm Q env oi =
     (let O1 = to_op Q
      in if isRead O1
         then let oi = oi\<lparr>rdwr := OPAC_RD\<rparr>
              in if getReadSet O1 = []
                 then rbind (eval_defined (od_eval O1 env)) (\<lambda>v. Inr (vm, oi\<lparr>opty := OPTY_IMM, oi_place := v\<rparr>))
                 else rbind (first_symbolic X vm (getReadSet O1)) (\<lambda>(vm, symReg).
                      if \<not> symReg
                      then rbind (eval_defined (od_eval O1 env)) (\<lambda>v.
                           Inr (vm, oi\<lparr>oi_place := ucast (fst (hd (getReadSet O1))), opty := OPTY_REGCON, oi_conval := v\<rparr>))
                      else symbolic_value X vm Q (oi\<lparr>opty := OPTY_REGSYM, symb := True\<rparr>))
         else if isWritten O1
         then rassert (length (getWriteSet O1) = 1)
                (let i = fst (hd (getWriteSet O1))
                 in rbind (vm_isSYReg (cx_D X) vm i) (\<lambda>b.
                    Inr (vm, oi\<lparr>rdwr := OPAC_WR, oi_place := ucast i, symb := b,
                      opty := (if b then OPTY_REGSYM else OPTY_REGCON)\<rparr>)))
         else Inl ExitFailure)"

definition thin_read_cell :: "VMState \<Rightarrow> OprndInfo \<Rightarrow> (VMState \<times> OprndInfo) res" where
  "thin_read_cell vm oi =
     rbind (vm_readMemory vm (mem_value oi False False 0 None None)) (\<lambda>(vm, V, r).
     rassert r (
     Inr (vm, if mv_bsym V then oi\<lparr>opty := OPTY_MEMCELLSYM, symb := True, oi_symval := mv_expr V\<rparr>
              else oi\<lparr>opty := OPTY_MEMCELLCON, oi_conval := mv_i64 V\<rparr>)))"

text \<open>The branch of a direct access ends without a return, and here too the value is used.\<close>

definition mayOperandUseSymbol_RX ::
  "ctx \<Rightarrow> VMState \<Rightarrow> dinstr \<Rightarrow> topnd \<Rightarrow> bindings \<Rightarrow> OprndInfo \<Rightarrow> (VMState \<times> OprndInfo) res" where
  "mayOperandUseSymbol_RX X vm I Q env oi =
     (let O1 = to_op Q
      in if isRead O1
         then let oi = oi\<lparr>rdwr := OPAC_RD, opty := OPTY_MEMCELL\<rparr>
              in rbind (thin_isUseGS X vm I) (\<lambda>(vm, gs_base).
                 if getReadSet O1 = []
                 then rassert (gs_base \<noteq> 0) (rassert (od_children O1 = 1)
                      (rbind (eval_defined (od_addr O1 env)) (\<lambda>a.
                       rbind (thin_read_cell vm (oi\<lparr>oi_place := a + gs_base\<rparr>)) (\<lambda>_. Inl Uninit))))
                 else rbind (any_thin X vm (getReadSet O1)) (\<lambda>hasSymReg.
                      rassert (\<not> hasSymReg) (rassert (od_children O1 = 1)
                      (rbind (eval_defined (od_addr O1 env)) (\<lambda>a.
                       thin_read_cell vm (oi\<lparr>oi_place := with_gs a gs_base\<rparr>))))))
         else if isWritten O1 then Inl AssertFail
         else Inr (vm, oi))"

definition mayOperandUseSymbol_XW ::
  "ctx \<Rightarrow> VMState \<Rightarrow> dinstr \<Rightarrow> topnd \<Rightarrow> bindings \<Rightarrow> OprndInfo \<Rightarrow> (VMState \<times> OprndInfo) res" where
  "mayOperandUseSymbol_XW X vm I Q env oi =
     (let O1 = to_op Q
      in if isRead O1 then Inl AssertFail
         else if isWritten O1
         then let oi = oi\<lparr>rdwr := OPAC_WR, opty := OPTY_MEMCELL\<rparr>
              in rbind (thin_isUseGS X vm I) (\<lambda>(vm, gs_base).
                 if getReadSet O1 = [] then Inl AssertFail
                 else rbind (any_thin X vm (getReadSet O1)) (\<lambda>hasSymReg.
                      rassert (\<not> hasSymReg) (rassert (od_children O1 = 1)
                      (rbind (eval_defined (od_addr O1 env)) (\<lambda>a. Inr (vm, oi\<lparr>oi_place := with_gs a gs_base\<rparr>))))))
         else Inl AssertFail)"

definition mayOperandUseSymbol_RW ::
  "ctx \<Rightarrow> VMState \<Rightarrow> dinstr \<Rightarrow> topnd \<Rightarrow> bindings \<Rightarrow> OprndInfo \<Rightarrow> (VMState \<times> OprndInfo) res" where
  "mayOperandUseSymbol_RW X vm I Q env oi =
     (let O1 = to_op Q; oi = oi\<lparr>rdwr := OPAC_RDWR, opty := OPTY_MEMCELL\<rparr>
      in rbind (thin_isUseGS X vm I) (\<lambda>(vm, gs_base).
         if getReadSet O1 = [] then Inl AssertFail
         else rbind (any_thin X vm (getReadSet O1)) (\<lambda>hasSymReg.
              rassert (\<not> hasSymReg) (rassert (od_children O1 = 1)
              (rbind (eval_defined (od_addr O1 env)) (\<lambda>a.
               thin_read_cell vm (oi\<lparr>oi_place := with_gs a gs_base\<rparr>)))))))"

definition thin_operand ::
  "ctx \<Rightarrow> VMState \<Rightarrow> dinstr \<Rightarrow> topnd \<Rightarrow> bindings \<Rightarrow> (VMState \<times> OprndInfo) res" where
  "thin_operand X vm I Q env =
     (let O1 = to_op Q; oi = new_OprndInfo (od_size O1)
      in if \<not> readsMemory O1 \<and> \<not> writesMemory O1 then mayOperandUseSymbol_XX X vm Q env oi
         else if readsMemory O1 \<and> \<not> writesMemory O1 then mayOperandUseSymbol_RX X vm I Q env oi
         else if \<not> readsMemory O1 \<and> writesMemory O1 then mayOperandUseSymbol_XW X vm I Q env oi
         else mayOperandUseSymbol_RW X vm I Q env oi)"

fun thin_operands ::
  "ctx \<Rightarrow> VMState \<Rightarrow> dinstr \<Rightarrow> topnd list \<Rightarrow> bindings \<Rightarrow> (VMState \<times> OprndInfo list) res" where
  "thin_operands X vm I [] env = Inr (vm, [])"
| "thin_operands X vm I (Q # Qs) env =
     rbind (thin_operand X vm I Q env) (\<lambda>(vm, oi).
     rbind (thin_operands X vm I Qs env) (\<lambda>(vm, ois). Inr (vm, oi # ois)))"

text \<open>
  Parses the operands of an instruction, for a run of the executor: the value returned, whether an
  operand was parsed, is not used.
\<close>

definition thin_parseOperands :: "ctx \<Rightarrow> VMState \<Rightarrow> dinstr \<Rightarrow> (VMState \<times> dinstr \<times> InstrInfo) res" where
  "thin_parseOperands X vm I =
     rbind (thin_setReadRegs X vm (in_reads (di_instr I)) (di_bound I)) (\<lambda>(vm, env).
     rbind (thin_operands X vm I (di_ops I) env) (\<lambda>(vm, ois).
     Inr (vm, I\<lparr>di_bound := env\<rparr>, (new_InstrInfo (di_instr I) env)\<lparr>vecOI := ois\<rparr>)))"

end
