(* ===== verification/Con_Exec.thy ===== *)
theory Con_Exec
  imports Thin_Parse
begin

text \<open>
  The concrete executor (class ConExecutor of conexec.h and conexec.cpp): it copies one instruction of the analysed code
  between two pieces of assembly that load the saved registers into the processor and store them back.
  An instruction that reads the instruction pointer is rewritten first to use r15 in its place. The processor
  is a parameter. Whole blocks are in Block_Dispatch.
\<close>

section \<open>The processor\<close>

text \<open>Registers and flags, and what running the bytes of one instruction does to them and to memory.\<close>

record mach =
  mc_reg :: "x86_reg \<Rightarrow> u64"
  mc_flags :: u64

type_synonym host = "u8 list \<Rightarrow> mach \<times> (u64 \<Rightarrow> u8) \<Rightarrow> (mach \<times> (u64 \<Rightarrow> u8)) res"

text \<open>The words of pt_regs the assembly reads and writes, by their offset there.\<close>

definition gpr_slots :: "(x86_reg \<times> nat) list" where
  "gpr_slots = [(x86_r14, 1), (x86_r13, 2), (x86_r12, 3), (x86_rbp, 4), (x86_rbx, 5), (x86_r11, 6), (x86_r10, 7),
     (x86_r9, 8), (x86_r8, 9), (x86_rax, 10), (x86_rcx, 11), (x86_rdx, 12), (x86_rsi, 13), (x86_rdi, 14), (x86_rsp, 19)]"

definition load_context :: "(x86_reg \<times> nat) list \<Rightarrow> u64 list \<Rightarrow> mach res" where
  "load_context slots regs =
     rassert (length regs \<ge> 20) (Inr \<lparr>mc_reg = (\<lambda>r. case map_of slots r of Some i \<Rightarrow> regs ! i | None \<Rightarrow> 0), mc_flags = regs ! 18\<rparr>)"

fun store_regs :: "(x86_reg \<times> nat) list \<Rightarrow> mach \<Rightarrow> u64 list \<Rightarrow> u64 list" where
  "store_regs [] m regs = regs"
| "store_regs ((r, i) # slots) m regs = store_regs slots m (regs[i := mc_reg m r])"

definition save_context :: "(x86_reg \<times> nat) list \<Rightarrow> mach \<Rightarrow> u64 list \<Rightarrow> u64 list" where
  "save_context slots m regs = (store_regs slots m regs)[18 := mc_flags m]"

definition InsnExecNonRIP :: "host \<Rightarrow> u8 list \<Rightarrow> u64 list \<Rightarrow> (u64 \<Rightarrow> u8) \<Rightarrow> (u64 list \<times> (u64 \<Rightarrow> u8)) res" where
  "InsnExecNonRIP H T_insn regs ph =
     rbind (load_context ((x86_r15, 0) # gpr_slots) regs) (\<lambda>m.
     rbind (H T_insn (m, ph)) (\<lambda>(m, ph). Inr (save_context ((x86_r15, 0) # gpr_slots) m regs, ph)))"

text \<open>Here r15 is loaded with the saved instruction pointer, and not stored back.\<close>

definition InsnExecRIP :: "host \<Rightarrow> u8 list \<Rightarrow> u64 list \<Rightarrow> (u64 \<Rightarrow> u8) \<Rightarrow> (u64 list \<times> (u64 \<Rightarrow> u8)) res" where
  "InsnExecRIP H T_insn regs ph =
     rbind (load_context ((x86_r15, 16) # gpr_slots) regs) (\<lambda>m.
     rbind (H T_insn (m, ph)) (\<lambda>(m, ph). Inr (save_context gpr_slots m regs, ph)))"

section \<open>State\<close>

text \<open>The room for an instruction in the two pieces of assembly, filled with nop.\<close>

record conexec =
  nonrip_slot :: "u8 list"
  rip_slot :: "u8 list"

definition NopBytes :: "u8 list" where
  "NopBytes = replicate 15 0x90"

definition new_ConExecutor :: conexec where
  "new_ConExecutor = \<lparr>nonrip_slot = NopBytes, rip_slot = NopBytes\<rparr>"

definition copy_insn :: "u8 list \<Rightarrow> u8 list \<Rightarrow> u8 list" where
  "copy_insn bs room = bs @ drop (length bs) room"

definition ClearTinsn :: "u8 list \<Rightarrow> nat \<Rightarrow> u8 list" where
  "ClearTinsn room n = copy_insn (take n NopBytes) room"

definition code_bytes :: "(u64 \<Rightarrow> u8) \<Rightarrow> u64 \<Rightarrow> nat \<Rightarrow> u8 list" where
  "code_bytes ph a n = map (\<lambda>i. ph (a + of_nat i)) [0..<n]"

section \<open>Rewriting\<close>

text \<open>
  The byte at m, ModRM, names r15 as the base; the displacement, looked for from p on, is left out when it is
  zero, kept as one byte when the other three are zero, and else kept whole.
\<close>

definition shorten_disp :: "nat \<Rightarrow> nat \<Rightarrow> u8 list \<Rightarrow> u8 list" where
  "shorten_disp m p orig_insn =
     (if orig_insn ! (p + 1) = 0 \<and> orig_insn ! (p + 2) = 0 \<and> orig_insn ! (p + 3) = 0
      then if orig_insn ! p = 0 then take p (orig_insn[m := orig_insn ! m OR 0x02])
           else take (p + 1) (orig_insn[m := orig_insn ! m OR 0x42])
      else take (p + 4) (orig_insn[m := orig_insn ! m OR 0x82]))"

text \<open>
  mov, cmp, lea, add and sub without gs: of seven bytes, the first a REX prefix, or of six without one. Any other
  size is reported by a vmcall; behind it no byte is written.
\<close>

definition rewrite_plain :: "hypervisor \<Rightarrow> u8 list \<Rightarrow> u64 \<Rightarrow> u8 list res" where
  "rewrite_plain V bs sz =
     (if sz = 7 then Inr (shorten_disp 2 3 (bs[0 := bs ! 0 OR 0x1]))
      else if sz = 6 then Inr (shorten_disp 2 3 (0x41 # take 6 bs @ drop 7 bs))
      else vmcall V None (Inr []))"

text \<open>With gs: the prefix of the segment comes first. Behind the vmcall for a size not expected, the displacement is
  shortened all the same.\<close>

definition rewrite_gs :: "hypervisor \<Rightarrow> entryID \<Rightarrow> u8 list \<Rightarrow> u64 \<Rightarrow> u8 list res" where
  "rewrite_gs V opcode bs sz =
     (if opcode = Mov e_mov \<or> opcode = Alu e_add
      then if sz = 7 then Inr (shorten_disp 3 4 (bs ! 0 # 0x41 # take 6 (drop 1 bs)))
           else if sz = 8 then Inr (shorten_disp 3 4 (bs[1 := bs ! 1 OR 0x1]))
           else vmcall V None (Inr (shorten_disp 3 4 bs))
      else vmcall V None (Inr []))"

text \<open>An and with an immediate, and xadd: only with a displacement whose bytes the code tests are not zero.\<close>

definition rewrite_and :: "u8 list \<Rightarrow> u64 \<Rightarrow> u8 list res" where
  "rewrite_and bs sz =
     (let orig_insn = bs ! 0 # 0x41 # take 10 (drop 1 bs)
      in if sz = 11 \<and> orig_insn ! 4 \<noteq> 0 \<and> orig_insn ! 5 \<noteq> 0 \<and> orig_insn ! 6 \<noteq> 0
         then Inr (orig_insn[3 := orig_insn ! 3 OR 0x82]) else Inl AssertFail)"

definition rewrite_xadd :: "u8 list \<Rightarrow> u64 \<Rightarrow> u8 list res" where
  "rewrite_xadd bs sz =
     (let orig_insn = bs ! 0 # 0x41 # take 7 (drop 1 bs)
      in if sz = 8 \<and> orig_insn ! 5 \<noteq> 0 \<and> orig_insn ! 6 \<noteq> 0 \<and> orig_insn ! 7 \<noteq> 0
         then Inr (orig_insn[4 := orig_insn ! 4 OR 0x82]) else Inl AssertFail)"

text \<open>In a test the displacement is looked for one byte after the place it has there.\<close>

definition rewrite_test :: "u8 list \<Rightarrow> u8 list" where
  "rewrite_test bs = shorten_disp 2 4 (0x41 # take 7 bs)"

text \<open>The bytes of the new instruction; bs are the bytes at its address, at least eleven.\<close>

definition RewRIPInsn :: "hypervisor \<Rightarrow> u8 list \<Rightarrow> dinstr \<Rightarrow> u8 list res" where
  "RewRIPInsn V bs I =
     (let opcode = in_id (di_instr I); sz = in_size (di_instr I); gs = (x86_gs \<in> set (di_isRead I))
      in if opcode \<in> {Mov e_mov, Alu e_cmp, Misc e_lea, Alu e_add, Alu e_sub}
         then if gs then rewrite_gs V opcode (take 8 bs) sz else rewrite_plain V (take 8 bs) sz
         else if opcode = Alu e_and \<and> gs then rewrite_and bs sz
         else if opcode = Alu e_xadd then rewrite_xadd bs sz
         else if opcode = Alu e_test then Inr (rewrite_test bs)
         else vmcall V (Some 0x999999) (Inr []))"

section \<open>One instruction\<close>

text \<open>
  The registers are the words of the saved state, the instruction pointer already past the instruction. An instruction
  that uses r15 beside the instruction pointer is reported by a vmcall, and not run.
\<close>

definition InsnDispatch :: "host \<Rightarrow> hypervisor \<Rightarrow> conexec \<Rightarrow> dinstr \<Rightarrow> VMState \<Rightarrow> (conexec \<times> VMState) res" where
  "InsnDispatch H V E I vm =
     rbind (arr_get (m_ArrRegs (m_CPU vm)) RIP_PTRIDX) (\<lambda>ip.
     let ph = phys (m_MEM vm); sz = in_size (di_instr I); crtAddr = ip - sz;
         finish = (\<lambda>E (regs, ph). (E, vm\<lparr>m_CPU := (m_CPU vm)\<lparr>m_ArrRegs := regs\<rparr>, m_MEM := (m_MEM vm)\<lparr>phys := ph\<rparr>\<rparr>))
     in if x86_rip \<in> set (di_isRead I)
        then if x86_r15 \<in> set (di_isRead I) \<or> x86_r15 \<in> set (di_isWritten I) then vmcall V (Some 0x999999) (Inr (E, vm))
             else rbind (RewRIPInsn V (code_bytes ph crtAddr 12) I) (\<lambda>bs.
                  let room = copy_insn bs (rip_slot E)
                  in rbind (InsnExecRIP H room (m_ArrRegs (m_CPU vm)) ph) (\<lambda>r.
                     Inr (finish (E\<lparr>rip_slot := ClearTinsn room 12\<rparr>) r)))
        else let room = copy_insn (code_bytes ph crtAddr (unat sz)) (nonrip_slot E)
             in rbind (InsnExecNonRIP H room (m_ArrRegs (m_CPU vm)) ph) (\<lambda>r.
                Inr (finish (E\<lparr>nonrip_slot := ClearTinsn room (unat sz)\<rparr>) r)))"

text \<open>The instruction a block would use to load r15 with a number, its bytes from the lowest on.\<close>

definition InsertInsnUpdateR15 :: "u64 \<Rightarrow> u8 list" where
  "InsertInsnUpdateR15 newR15 = [0x49, 0xbf] @ map (\<lambda>i. ucast (drop_bit (i * 8) newR15)) [0..<8]"

section \<open>Lengths and frames\<close>

lemma copy_clear:
  assumes "length bs \<le> n" "n \<le> 15"
  shows "ClearTinsn (copy_insn bs NopBytes) n = NopBytes"
  using assms by (simp add: ClearTinsn_def copy_insn_def NopBytes_def flip: replicate_add)

lemma shorten_disp_length: "length (shorten_disp m p bs) \<le> p + 4"
  by (auto simp: shorten_disp_def min_def)

lemma RewRIPInsn_length:
  assumes "RewRIPInsn V bs I = Inr bs'"
  shows "length bs' \<le> 12"
proof -
  have s: "length (shorten_disp m 3 b) \<le> 12" "length (shorten_disp m 4 b) \<le> 12" for m b
    using shorten_disp_length [of m 3 b] shorten_disp_length [of m 4 b] by simp_all
  show ?thesis
    using assms s
    by (auto simp: RewRIPInsn_def rewrite_plain_def rewrite_gs_def rewrite_and_def rewrite_xadd_def rewrite_test_def Let_def
        vmcall_eq_Inr_iff split: if_splits)
qed

lemma store_regs_frame:
  "length (store_regs slots m regs) = length regs"
  "i \<notin> snd ` set slots \<Longrightarrow> store_regs slots m regs ! i = regs ! i"
  by (induction slots m regs rule: store_regs.induct) auto

lemma store_regs_at:
  "distinct (map snd slots) \<Longrightarrow> (r, i) \<in> set slots \<Longrightarrow> i < length regs \<Longrightarrow> store_regs slots m regs ! i = mc_reg m r"
proof (induction slots m regs rule: store_regs.induct)
  case (1 m regs)
  then show ?case by simp
next
  case (2 r' j slots m regs)
  show ?case
  proof (cases "(r, i) = (r', j)")
    case True
    then have "i \<notin> snd ` set slots" using "2.prems"(1) by auto
    then show ?thesis using True "2.prems"(3) store_regs_frame(2) by simp
  next
    case False
    then show ?thesis using 2 by auto
  qed
qed

lemma save_context_frame:
  "length (save_context slots m regs) = length regs"
  "i \<notin> insert 18 (snd ` set slots) \<Longrightarrow> save_context slots m regs ! i = regs ! i"
  by (simp_all add: save_context_def store_regs_frame)

lemma gpr_indices: "snd ` set gpr_slots = {1, 2, 3, 4, 5, 6, 7, 8, 9, 10, 11, 12, 13, 14, 19}"
  by (simp add: gpr_slots_def)

text \<open>Loading and storing with nothing in between changes nothing.\<close>

lemma slots_roundtrip:
  assumes "load_context slots regs = Inr m" "distinct (map fst slots)" "distinct (map snd slots)"
    and "snd ` set slots \<subseteq> {0..<20} - {18}"
  shows "save_context slots m regs = regs"
proof (rule nth_equalityI)
  show "length (save_context slots m regs) = length regs" by (rule save_context_frame(1))
  fix i assume i: "i < length (save_context slots m regs)"
  then have il: "i < length regs" by (simp add: save_context_frame)
  have m: "length regs \<ge> 20" "m = \<lparr>mc_reg = (\<lambda>r. case map_of slots r of Some i \<Rightarrow> regs ! i | None \<Rightarrow> 0), mc_flags = regs ! 18\<rparr>"
    using assms(1) by (simp_all add: load_context_def rassert_eq_Inr_iff)
  show "save_context slots m regs ! i = regs ! i"
  proof (cases "i \<in> insert 18 (snd ` set slots)")
    case False
    then show ?thesis by (rule save_context_frame(2))
  next
    case True
    show ?thesis
    proof (cases "i = 18")
      case True
      then show ?thesis using m by (simp add: save_context_def store_regs_frame)
    next
      case False
      then obtain r where r: "(r, i) \<in> set slots" using True by force
      then have "map_of slots r = Some i" using assms(2) by simp
      then show ?thesis using store_regs_at [OF assms(3) r il] False m(2) by (simp add: save_context_def)
    qed
  qed
qed

definition saved_words :: "nat set" where
  "saved_words = {0, 1, 2, 3, 4, 5, 6, 7, 8, 9, 10, 11, 12, 13, 14, 18, 19}"

text \<open>What is symbolic does not depend on the words of the registers or on physical memory.\<close>

lemma vm_bytes_cong:
  assumes "m_AllSymbolList (m_MEM vm') = m_AllSymbolList (m_MEM vm)" "vm_cells vm' = vm_cells vm"
    and "m_symList (m_CPU vm') = m_symList (m_CPU vm)"
  shows "vm_bytes vm' = vm_bytes vm"
proof (rule ext)
  fix x show "vm_bytes vm' x = vm_bytes vm x"
    using assms by (cases x) (simp_all add: vm_mem_def vm_word_def sym_at_def)
qed

lemma InsnDispatch_outcome:
  assumes "InsnDispatch H V E I vm = Inr (E', vm')" "length (m_ArrRegs (m_CPU vm)) = 32"
  obtains regs ph where "vm' = vm\<lparr>m_CPU := (m_CPU vm)\<lparr>m_ArrRegs := regs\<rparr>, m_MEM := (m_MEM vm)\<lparr>phys := ph\<rparr>\<rparr>" "length regs = 32"
    "\<forall>i. i \<notin> saved_words \<longrightarrow> regs ! i = m_ArrRegs (m_CPU vm) ! i" "x86_rip \<in> set (di_isRead I) \<longrightarrow> regs ! 0 = m_ArrRegs (m_CPU vm) ! 0"
    "E = new_ConExecutor \<and> unat (in_size (di_instr I)) \<le> 15 \<longrightarrow> E' = E"
proof (cases "x86_rip \<in> set (di_isRead I)")
  case True
  show ?thesis
  proof (cases "x86_r15 \<in> set (di_isRead I) \<or> x86_r15 \<in> set (di_isWritten I)")
    case r15: True
    then have e: "E' = E" "vm' = vm" using assms True by (auto simp: InsnDispatch_def rbind_eq_Inr_iff Let_def vmcall_eq_Inr_iff split: if_splits)
    show ?thesis by (rule that [where regs = "m_ArrRegs (m_CPU vm)" and ph = "phys (m_MEM vm)"]) (use e assms(2) in simp_all)
  next
    case False
    then obtain bs m ph where r: "RewRIPInsn V (code_bytes (phys (m_MEM vm)) (m_ArrRegs (m_CPU vm) ! 16 - in_size (di_instr I)) 12) I = Inr bs"
      "E' = E\<lparr>rip_slot := ClearTinsn (copy_insn bs (rip_slot E)) 12\<rparr>"
      "vm' = vm\<lparr>m_CPU := (m_CPU vm)\<lparr>m_ArrRegs := save_context gpr_slots m (m_ArrRegs (m_CPU vm))\<rparr>, m_MEM := (m_MEM vm)\<lparr>phys := ph\<rparr>\<rparr>"
      using assms True by (auto simp: InsnDispatch_def InsnExecRIP_def arr_get_def RIP_PTRIDX_def Let_def rbind_eq_Inr_iff split: if_splits)
    show ?thesis
      by (rule that [OF r(3)])
        (use assms(2) r(2) copy_clear [OF RewRIPInsn_length [OF r(1)]] save_context_frame [where slots = gpr_slots and regs = "m_ArrRegs (m_CPU vm)"]
         in \<open>auto simp: gpr_indices saved_words_def new_ConExecutor_def\<close>)
  qed
next
  case False
  then obtain m ph where r:
    "E' = E\<lparr>nonrip_slot := ClearTinsn (copy_insn (code_bytes (phys (m_MEM vm)) (m_ArrRegs (m_CPU vm) ! 16 - in_size (di_instr I))
       (unat (in_size (di_instr I)))) (nonrip_slot E)) (unat (in_size (di_instr I)))\<rparr>"
    "vm' = vm\<lparr>m_CPU := (m_CPU vm)\<lparr>m_ArrRegs := save_context ((x86_r15, 0) # gpr_slots) m (m_ArrRegs (m_CPU vm))\<rparr>, m_MEM := (m_MEM vm)\<lparr>phys := ph\<rparr>\<rparr>"
    using assms by (auto simp: InsnDispatch_def InsnExecNonRIP_def arr_get_def RIP_PTRIDX_def Let_def rbind_eq_Inr_iff split: if_splits)
  have e: "E = new_ConExecutor \<Longrightarrow> unat (in_size (di_instr I)) \<le> 15 \<Longrightarrow> E' = E"
    using r(1) copy_clear [of "code_bytes (phys (m_MEM vm)) (m_ArrRegs (m_CPU vm) ! 16 - in_size (di_instr I)) (unat (in_size (di_instr I)))"
        "unat (in_size (di_instr I))"] by (simp add: new_ConExecutor_def code_bytes_def)
  show ?thesis
    by (rule that [OF r(2)])
      (use assms(2) False e save_context_frame [where slots = "(x86_r15, 0) # gpr_slots" and regs = "m_ArrRegs (m_CPU vm)"]
       in \<open>auto simp: gpr_indices saved_words_def\<close>)
qed

lemma InsnDispatch_vm:
  assumes "InsnDispatch H V E I vm = Inr (E', vm')" "vm_ok D vm"
  shows "vm_ok D vm' \<and> vm_bytes vm' = vm_bytes vm"
proof -
  have l: "length (m_ArrRegs (m_CPU vm)) = 32" using assms(2) by (simp add: vm_ok_def vm_wf_def cpu_wf_def)
  from assms(1) l obtain regs ph where v: "vm' = vm\<lparr>m_CPU := (m_CPU vm)\<lparr>m_ArrRegs := regs\<rparr>, m_MEM := (m_MEM vm)\<lparr>phys := ph\<rparr>\<rparr>" "length regs = 32"
    by (rule InsnDispatch_outcome)
  have "vm_bytes vm' = vm_bytes vm" by (rule vm_bytes_cong) (simp_all add: v(1))
  moreover have "vm_ok D vm'" using assms(2) v(2) by (simp add: v(1) vm_ok_def regs_ok_def vm_wf_def vm_lists_def cpu_wf_def)
  ultimately show ?thesis by simp
qed

section \<open>Properties\<close>

text \<open>C25. Running an instruction concretely leaves the room in the assembly filled with nop again, writes only
  the words of the general registers and the flags (not r15 when the instruction was rewritten), keeps the
  invariant of the machine and changes no symbolic byte.\<close>

theorem concrete_execution_frame:
  assumes "InsnDispatch H V E I vm = Inr (E', vm')" "E = new_ConExecutor" "unat (in_size (di_instr I)) \<le> 15" "vm_ok D vm"
  shows "E' = E \<and> vm_ok D vm' \<and> vm_bytes vm' = vm_bytes vm \<and>
    (\<forall>i. i \<notin> saved_words \<longrightarrow> m_ArrRegs (m_CPU vm') ! i = m_ArrRegs (m_CPU vm) ! i) \<and>
    (x86_rip \<in> set (di_isRead I) \<longrightarrow> m_ArrRegs (m_CPU vm') ! 0 = m_ArrRegs (m_CPU vm) ! 0)"
proof -
  have l: "length (m_ArrRegs (m_CPU vm)) = 32" using assms(4) by (simp add: vm_ok_def vm_wf_def cpu_wf_def)
  from assms(1) l obtain regs ph where v: "vm' = vm\<lparr>m_CPU := (m_CPU vm)\<lparr>m_ArrRegs := regs\<rparr>, m_MEM := (m_MEM vm)\<lparr>phys := ph\<rparr>\<rparr>"
    "\<forall>i. i \<notin> saved_words \<longrightarrow> regs ! i = m_ArrRegs (m_CPU vm) ! i" "x86_rip \<in> set (di_isRead I) \<longrightarrow> regs ! 0 = m_ArrRegs (m_CPU vm) ! 0"
    "E = new_ConExecutor \<and> unat (in_size (di_instr I)) \<le> 15 \<longrightarrow> E' = E" by (rule InsnDispatch_outcome)
  then show ?thesis using assms(2,3) InsnDispatch_vm [OF assms(1,4)] by simp
qed
theorem concrete_execution_frame_witness:
  "\<exists>E' vm'. InsnDispatch (\<lambda>bs s. Inr s) (\<lambda>rax. False) new_ConExecutor
      \<lparr>di_instr = ex_instr (other_id 0) [], di_cat = c_OtherInsn, di_nop = False, di_fall = True, di_ops = [], di_imp_rd = [],
       di_imp_wr = [], di_isRead = [], di_isWritten = [], di_bound = Map.empty\<rparr> ex_vm = Inr (E', vm') \<and>
    E' = new_ConExecutor \<and> vm_bytes vm' = vm_bytes ex_vm"
proof -
  let ?I = "\<lparr>di_instr = ex_instr (other_id 0) [], di_cat = c_OtherInsn, di_nop = False, di_fall = True, di_ops = [], di_imp_rd = [],
       di_imp_wr = [], di_isRead = [], di_isWritten = [], di_bound = Map.empty\<rparr>"
  have l: "length (m_ArrRegs (m_CPU ex_vm)) = 32" using ex_operands(8) by (simp add: vm_ok_def vm_wf_def cpu_wf_def)
  obtain E' vm' where r: "InsnDispatch (\<lambda>bs s. Inr s) (\<lambda>rax. False) new_ConExecutor ?I ex_vm = Inr (E', vm')"
    using l by (simp add: InsnDispatch_def InsnExecNonRIP_def load_context_def arr_get_def RIP_PTRIDX_def Let_def)
  then show ?thesis using concrete_execution_frame [OF r refl _ ex_operands(8)] by (simp add: ex_instr_def)
qed

section \<open>Displacements\<close>

definition disp32 :: "u8 \<Rightarrow> u8 \<Rightarrow> u8 \<Rightarrow> u8 \<Rightarrow> u64" where
  "disp32 a b c d = signed_take_bit 31 (ucast a + 2 ^ 8 * ucast b + 2 ^ 16 * ucast c + 2 ^ 24 * ucast d)"

text \<open>A REX prefix is a byte from 0x40 to 0x4f; its lowest bit is the upper bit of the number of the base register.\<close>

definition rex_prefix :: "u8 \<Rightarrow> bool" where
  "rex_prefix b \<longleftrightarrow> drop_bit 4 b = 4"

text \<open>
  How x86 reads an operand whose ModRM byte is the third, behind a REX prefix and an opcode of one byte: r15 with no
  displacement, one of a byte or one of four.
\<close>

definition r15_disp :: "u8 list \<Rightarrow> u64 option" where
  "r15_disp bs =
     (if rex_prefix (bs ! 0) \<and> take_bit 3 (bs ! 2) = 7 \<and> bit (bs ! 0) 0
      then if drop_bit 6 (bs ! 2) = 0 then Some 0
           else if drop_bit 6 (bs ! 2) = 1 then Some (signed_take_bit 7 (ucast (bs ! 3)))
           else if drop_bit 6 (bs ! 2) = 2 then Some (disp32 (bs ! 3) (bs ! 4) (bs ! 5) (bs ! 6)) else None
      else None)"

lemma modrm_or:
  assumes "drop_bit 6 (r :: u8) = 0" "take_bit 3 r = 5"
  shows "take_bit 3 (r OR 2) = 7" "take_bit 3 (r OR 0x42) = 7" "take_bit 3 (r OR 0x82) = 7"
    "drop_bit 6 (r OR 2) = 0" "drop_bit 6 (r OR 0x42) = 1" "drop_bit 6 (r OR 0x82) = 2"
    "take_bit 3 (drop_bit 3 (r OR 2)) = take_bit 3 (drop_bit 3 r)" "take_bit 3 (drop_bit 3 (r OR 0x42)) = take_bit 3 (drop_bit 3 r)"
    "take_bit 3 (drop_bit 3 (r OR 0x82)) = take_bit 3 (drop_bit 3 r)"
proof -
  have "drop_bit 6 (2 :: u8) = 0" "drop_bit 6 (0x42 :: u8) = 1" "drop_bit 6 (0x82 :: u8) = 2"
    "drop_bit 3 (2 :: u8) = 0" "drop_bit 3 (0x42 :: u8) = 8" "drop_bit 3 (0x82 :: u8) = 16"
    by (simp_all add: drop_bit_eq_div)
  then show "take_bit 3 (r OR 2) = 7" "take_bit 3 (r OR 0x42) = 7" "take_bit 3 (r OR 0x82) = 7"
    "drop_bit 6 (r OR 2) = 0" "drop_bit 6 (r OR 0x42) = 1" "drop_bit 6 (r OR 0x82) = 2"
    "take_bit 3 (drop_bit 3 (r OR 2)) = take_bit 3 (drop_bit 3 r)" "take_bit 3 (drop_bit 3 (r OR 0x42)) = take_bit 3 (drop_bit 3 r)"
    "take_bit 3 (drop_bit 3 (r OR 0x82)) = take_bit 3 (drop_bit 3 r)"
    using assms by (simp_all add: take_bit_or drop_bit_or)
qed

lemma disp_byte: "signed_take_bit 7 (ucast (d :: u8) :: u64) = disp32 d 0 0 0 \<longleftrightarrow> \<not> bit d 7"
proof
  assume e: "signed_take_bit 7 (ucast d :: u64) = disp32 d 0 0 0"
  have "bit (signed_take_bit 7 (ucast d :: u64)) 63 = bit d 7" by (simp add: bit_simps)
  moreover have "\<not> bit d 31" using bit_imp_le_length [of d 31] by auto
  then have "\<not> bit (disp32 d 0 0 0) 63" by (simp add: disp32_def bit_simps)
  ultimately show "\<not> bit d 7" unfolding e by simp
next
  assume d: "\<not> bit d 7"
  show "signed_take_bit 7 (ucast d :: u64) = disp32 d 0 0 0"
  proof (rule bit_word_eqI)
    fix n assume "n < LENGTH(64)"
    show "bit (signed_take_bit 7 (ucast d :: u64)) n = bit (disp32 d 0 0 0) n"
    proof (cases "n < 7")
      case True
      then show ?thesis by (simp add: disp32_def bit_simps min_def)
    next
      case False
      have "\<not> bit d k" if "7 \<le> k" for k
        using that d bit_imp_le_length [of d k] by (cases "k = 7") auto
      with False d show ?thesis by (auto simp: disp32_def bit_simps min_def)
    qed
  qed
qed

text \<open>C26. A mov, cmp, lea, add or sub without gs of seven bytes, namely a prefix, an opcode, a ModRM byte that names the
  instruction pointer and four bytes of displacement, is rewritten to the same opcode and register field with the lowest bit of the
  prefix set. The new instruction addresses on r15 the same cell exactly when the prefix is a REX prefix and the
  displacement is not between 128 and 255: that one is kept as one byte, which the processor reads as a
  negative number. A prefix that is not REX becomes another prefix (66 becomes 67), and r15 is not named.\<close>

theorem rip_relative_rewrite:
  assumes "in_id (di_instr I) \<in> {Mov e_mov, Alu e_cmp, Misc e_lea, Alu e_add, Alu e_sub}" "x86_gs \<notin> set (di_isRead I)" "in_size (di_instr I) = 7"
    and "drop_bit 6 modrm = 0" "take_bit 3 modrm = 5"
  shows "\<exists>bs. RewRIPInsn V (prefix # opc # modrm # a # b # c # d # rest) I = Inr bs \<and> bs ! 0 = prefix OR 1 \<and> bs ! 1 = opc \<and>
    take_bit 3 (drop_bit 3 (bs ! 2)) = take_bit 3 (drop_bit 3 modrm) \<and>
    (r15_disp bs = Some (disp32 a b c d) \<longleftrightarrow> rex_prefix prefix \<and> \<not> (bit a 7 \<and> b = 0 \<and> c = 0 \<and> d = 0))"
proof -
  note m = modrm_or [OF assms(4,5)]
  have r: "RewRIPInsn V (prefix # opc # modrm # a # b # c # d # rest) I =
    Inr (if b = 0 \<and> c = 0 \<and> d = 0 then if a = 0 then [prefix OR 1, opc, modrm OR 2] else [prefix OR 1, opc, modrm OR 0x42, a]
      else [prefix OR 1, opc, modrm OR 0x82, a, b, c, d])"
  proof -
    have "RewRIPInsn V (prefix # opc # modrm # a # b # c # d # rest) I = Inr (shorten_disp 2 3 ((prefix OR 1) # opc # modrm # a # b # c # d # take 1 rest))"
      using assms(1-3) by (auto simp: RewRIPInsn_def rewrite_plain_def)
    then show ?thesis by (simp add: shorten_disp_def eval_nat_numeral)
  qed
  have x: "bit (prefix OR 1) 0" "rex_prefix (prefix OR 1) = rex_prefix prefix"
    by (simp_all add: bit_simps rex_prefix_def drop_bit_or)
  have "disp32 0 0 0 0 = 0" by (simp add: disp32_def)
  then have "r15_disp [prefix OR 1, opc, modrm OR 2] = (if rex_prefix prefix then Some (disp32 0 0 0 0) else None)" using m x by (simp add: r15_disp_def)
  moreover have "r15_disp [prefix OR 1, opc, modrm OR 0x42, a] = (if rex_prefix prefix then Some (signed_take_bit 7 (ucast a)) else None)"
    using m x by (simp add: r15_disp_def)
  moreover have "r15_disp [prefix OR 1, opc, modrm OR 0x82, a, b, c, d] = (if rex_prefix prefix then Some (disp32 a b c d) else None)"
    using m x by (simp add: r15_disp_def)
  ultimately show ?thesis unfolding r using m disp_byte [of a] by (cases "a = 0"; cases "b = 0 \<and> c = 0 \<and> d = 0"; cases "rex_prefix prefix") auto
qed

theorem rip_relative_rewrite_witness:
  "\<exists>bs bs'. RewRIPInsn (\<lambda>rax. False) [0x48, 0x8b, 0x05, 0x90, 1, 0, 0, 0] (\<lparr>di_instr = (ex_instr (Mov e_mov) [])\<lparr>in_size := 7\<rparr>, di_cat = c_OtherInsn,
      di_nop = False, di_fall = True, di_ops = [], di_imp_rd = [], di_imp_wr = [], di_isRead = [x86_rip], di_isWritten = [], di_bound = Map.empty\<rparr>) =
    Inr bs \<and> r15_disp bs = Some (disp32 0x90 1 0 0) \<and>
   RewRIPInsn (\<lambda>rax. False) [0x66, 0x8b, 0x05, 0x90, 1, 0, 0, 0] (\<lparr>di_instr = (ex_instr (Mov e_mov) [])\<lparr>in_size := 7\<rparr>, di_cat = c_OtherInsn,
      di_nop = False, di_fall = True, di_ops = [], di_imp_rd = [], di_imp_wr = [], di_isRead = [x86_rip], di_isWritten = [], di_bound = Map.empty\<rparr>) =
    Inr bs' \<and> r15_disp bs' \<noteq> Some (disp32 0x90 1 0 0)"
proof -
  let ?I = "\<lparr>di_instr = (ex_instr (Mov e_mov) [])\<lparr>in_size := 7\<rparr>, di_cat = c_OtherInsn, di_nop = False, di_fall = True,
      di_ops = [], di_imp_rd = [], di_imp_wr = [], di_isRead = [x86_rip], di_isWritten = [], di_bound = Map.empty\<rparr>"
  have x: "rex_prefix 0x48" "\<not> rex_prefix 0x66" by (simp_all add: rex_prefix_def drop_bit_eq_div)
  have I: "in_id (di_instr ?I) \<in> {Mov e_mov, Alu e_cmp, Misc e_lea, Alu e_add, Alu e_sub}" "x86_gs \<notin> set (di_isRead ?I)"
    "in_size (di_instr ?I) = 7" and m: "drop_bit 6 (0x05 :: u8) = 0" "take_bit 3 (0x05 :: u8) = 5"
    by (simp_all add: ex_instr_def drop_bit_eq_div take_bit_eq_mod)
  show ?thesis
    using rip_relative_rewrite [OF I m, of "\<lambda>rax. False" "0x48" "0x8b" "0x90" 1 0 0 "[0]"]
      rip_relative_rewrite [OF I m, of "\<lambda>rax. False" "0x66" "0x8b" "0x90" 1 0 0 "[0]"] x by auto
qed

end
