(* ===== verification/Z3_Handler.thy ===== *)
theory Z3_Handler
  imports EFlags_Manager VM_State
begin

text \<open>
  The handler of the solver (Z3Handler.h and Z3Handler.cpp): it turns an expression into a Z3 term, asks the
  solver for a model, and decides a condition under the concrete values declared for symbolic objects.
  Z3 itself is a parameter: the record z3api holds the functions of its C++ interface the code
  calls, each of which may throw.
\<close>

section \<open>The interface of Z3\<close>

datatype z3op =
    z_add | z_sub | z_mul | z_udiv | z_div | z_srem | z_and | z_or | z_xor | z_shl | z_lshr | z_ashr
  | z_ult | z_ule | z_ugt | z_uge | z_lt | z_le | z_gt | z_ge | z_concat | z_eq

datatype z3un = z_minus | z_compl | z_lnot | z_eq_0 | z_ne_0

text \<open>
  The answer of the solver: a model is a list of constants with their arity and value (reading the
  value may throw).
\<close>

datatype z3answer = z_sat "(string \<times> nat \<times> u64 res) list" | z_unsat | z_unknown

record 'z z3api =
  bv_const :: "string \<Rightarrow> int \<Rightarrow> 'z res" \<comment> \<open>name and bits\<close>
  bv_val :: "int \<Rightarrow> int \<Rightarrow> 'z res" \<comment> \<open>value and bits\<close>
  bool_val :: "bool \<Rightarrow> 'z"
  z_bin :: "z3op \<Rightarrow> 'z \<Rightarrow> 'z \<Rightarrow> 'z res"
  z_un :: "z3un \<Rightarrow> 'z \<Rightarrow> 'z res"
  z_extract :: "'z \<Rightarrow> int \<Rightarrow> int \<Rightarrow> 'z res" \<comment> \<open>highest and lowest bit\<close>
  z_sext :: "'z \<Rightarrow> int \<Rightarrow> 'z res"
  z_substitute :: "'z \<Rightarrow> 'z \<Rightarrow> 'z \<Rightarrow> 'z"
  z_simplify :: "'z \<Rightarrow> 'z"
  z_is_true :: "'z \<Rightarrow> bool"
  z_as_bool :: "'z \<Rightarrow> bool" \<comment> \<open>a term as the condition of an if\<close>
  z_check :: "'z list \<Rightarrow> z3answer res"

text \<open>The handler's own state, symObjectsMap, and the objects the expressions point to.\<close>

type_synonym 'z sym_map = "obj_ptr \<rightharpoonup> 'z"
type_synonym objects = "obj_ptr \<rightharpoonup> SYMemObject"
type_synonym 'z handling = "expr \<Rightarrow> 'z sym_map \<Rightarrow> ('z \<times> 'z sym_map) res"

text \<open>An insert into a std::map keeps the entry there is.\<close>

definition map_insert :: "('k \<rightharpoonup> 'v) \<Rightarrow> 'k \<Rightarrow> 'v \<Rightarrow> ('k \<rightharpoonup> 'v)" where
  "map_insert m k v = (case m k of None \<Rightarrow> m(k \<mapsto> v) | Some w \<Rightarrow> m)"

section \<open>One case of the translation each\<close>

text \<open>
  The parameter h is Z3HandlingExprPtr, for the calls on the parts. An object that was deleted is
  reported like a null pointer.
\<close>

definition Z3HandleUND :: "'z z3api \<Rightarrow> objects \<Rightarrow> obj_ptr option \<Rightarrow> 'z sym_map \<Rightarrow> ('z \<times> 'z sym_map) res" where
  "Z3HandleUND A objs p mp =
     rbind (deref p) (\<lambda>p. rbind (deref (objs p)) (\<lambda>obj.
     rbind (bv_const A (mo_name obj) (uint (mo_size obj) * 8)) (\<lambda>x. Inr (x, map_insert mp p x))))"

definition Z3HandleConst :: "'z z3api \<Rightarrow> u64 \<Rightarrow> int \<Rightarrow> 'z sym_map \<Rightarrow> ('z \<times> 'z sym_map) res" where
  "Z3HandleConst A v sz mp = rbind (bv_val A (uint v) (sz * 8)) (\<lambda>x. Inr (x, mp))"

text \<open>Two operands, in the order they are translated.\<close>

definition two_operands ::
  "'z handling \<Rightarrow> ('z \<Rightarrow> 'z \<Rightarrow> 'z res) \<Rightarrow> expr \<Rightarrow> expr \<Rightarrow> 'z sym_map \<Rightarrow> ('z \<times> 'z sym_map) res" where
  "two_operands h f a b mp =
     rbind (h a mp) (\<lambda>(x, mp). rbind (h b mp) (\<lambda>(y, mp). rbind (f x y) (\<lambda>z. Inr (z, mp))))"

definition one_operand ::
  "'z handling \<Rightarrow> ('z \<Rightarrow> 'z res) \<Rightarrow> expr \<Rightarrow> 'z sym_map \<Rightarrow> ('z \<times> 'z sym_map) res" where
  "one_operand h f a mp = rbind (h a mp) (\<lambda>(x, mp). rbind (f x) (\<lambda>z. Inr (z, mp)))"

definition Z3HandleAdd :: "'z z3api \<Rightarrow> 'z handling \<Rightarrow> expr \<Rightarrow> expr \<Rightarrow> 'z sym_map \<Rightarrow> ('z \<times> 'z sym_map) res" where
  "Z3HandleAdd A h r l = two_operands h (z_bin A z_add) r l"

definition Z3HandleSub :: "'z z3api \<Rightarrow> 'z handling \<Rightarrow> expr \<Rightarrow> expr \<Rightarrow> 'z sym_map \<Rightarrow> ('z \<times> 'z sym_map) res" where
  "Z3HandleSub A h r l = two_operands h (z_bin A z_sub) r l"

definition Z3HandleMul :: "'z z3api \<Rightarrow> 'z handling \<Rightarrow> expr \<Rightarrow> expr \<Rightarrow> 'z sym_map \<Rightarrow> ('z \<times> 'z sym_map) res" where
  "Z3HandleMul A h r l = two_operands h (z_bin A z_mul) r l"

definition Z3HandleUDiv :: "'z z3api \<Rightarrow> 'z handling \<Rightarrow> expr \<Rightarrow> expr \<Rightarrow> 'z sym_map \<Rightarrow> ('z \<times> 'z sym_map) res" where
  "Z3HandleUDiv A h r l = two_operands h (z_bin A z_udiv) r l"

definition Z3HandleSDiv :: "'z z3api \<Rightarrow> 'z handling \<Rightarrow> expr \<Rightarrow> expr \<Rightarrow> 'z sym_map \<Rightarrow> ('z \<times> 'z sym_map) res" where
  "Z3HandleSDiv A h r l = two_operands h (z_bin A z_div) r l"

definition Z3HandleSRem :: "'z z3api \<Rightarrow> 'z handling \<Rightarrow> expr \<Rightarrow> expr \<Rightarrow> 'z sym_map \<Rightarrow> ('z \<times> 'z sym_map) res" where
  "Z3HandleSRem A h r l = two_operands h (z_bin A z_srem) r l"

definition Z3HandleAnd :: "'z z3api \<Rightarrow> 'z handling \<Rightarrow> expr \<Rightarrow> expr \<Rightarrow> 'z sym_map \<Rightarrow> ('z \<times> 'z sym_map) res" where
  "Z3HandleAnd A h r l = two_operands h (z_bin A z_and) r l"

definition Z3HandleOr :: "'z z3api \<Rightarrow> 'z handling \<Rightarrow> expr \<Rightarrow> expr \<Rightarrow> 'z sym_map \<Rightarrow> ('z \<times> 'z sym_map) res" where
  "Z3HandleOr A h r l = two_operands h (z_bin A z_or) r l"

definition Z3HandleXor :: "'z z3api \<Rightarrow> 'z handling \<Rightarrow> expr \<Rightarrow> expr \<Rightarrow> 'z sym_map \<Rightarrow> ('z \<times> 'z sym_map) res" where
  "Z3HandleXor A h r l = two_operands h (z_bin A z_xor) r l"

definition Z3HandleShl :: "'z z3api \<Rightarrow> 'z handling \<Rightarrow> expr \<Rightarrow> expr \<Rightarrow> 'z sym_map \<Rightarrow> ('z \<times> 'z sym_map) res" where
  "Z3HandleShl A h r l = two_operands h (z_bin A z_shl) r l"

definition Z3HandleLShr :: "'z z3api \<Rightarrow> 'z handling \<Rightarrow> expr \<Rightarrow> expr \<Rightarrow> 'z sym_map \<Rightarrow> ('z \<times> 'z sym_map) res" where
  "Z3HandleLShr A h r l = two_operands h (z_bin A z_lshr) r l"

definition Z3HandleAShr :: "'z z3api \<Rightarrow> 'z handling \<Rightarrow> expr \<Rightarrow> expr \<Rightarrow> 'z sym_map \<Rightarrow> ('z \<times> 'z sym_map) res" where
  "Z3HandleAShr A h r l = two_operands h (z_bin A z_ashr) r l"

text \<open>A comparison translates its second operand first.\<close>

definition Z3HandleUlt :: "'z z3api \<Rightarrow> 'z handling \<Rightarrow> expr \<Rightarrow> expr \<Rightarrow> 'z sym_map \<Rightarrow> ('z \<times> 'z sym_map) res" where
  "Z3HandleUlt A h r l = two_operands h (\<lambda>x y. z_bin A z_ult y x) l r"

definition Z3HandleUle :: "'z z3api \<Rightarrow> 'z handling \<Rightarrow> expr \<Rightarrow> expr \<Rightarrow> 'z sym_map \<Rightarrow> ('z \<times> 'z sym_map) res" where
  "Z3HandleUle A h r l = two_operands h (\<lambda>x y. z_bin A z_ule y x) l r"

definition Z3HandleUgt :: "'z z3api \<Rightarrow> 'z handling \<Rightarrow> expr \<Rightarrow> expr \<Rightarrow> 'z sym_map \<Rightarrow> ('z \<times> 'z sym_map) res" where
  "Z3HandleUgt A h r l = two_operands h (\<lambda>x y. z_bin A z_ugt y x) l r"

definition Z3HandleUge :: "'z z3api \<Rightarrow> 'z handling \<Rightarrow> expr \<Rightarrow> expr \<Rightarrow> 'z sym_map \<Rightarrow> ('z \<times> 'z sym_map) res" where
  "Z3HandleUge A h r l = two_operands h (\<lambda>x y. z_bin A z_uge y x) l r"

definition Z3HandleSlt :: "'z z3api \<Rightarrow> 'z handling \<Rightarrow> expr \<Rightarrow> expr \<Rightarrow> 'z sym_map \<Rightarrow> ('z \<times> 'z sym_map) res" where
  "Z3HandleSlt A h r l = two_operands h (\<lambda>x y. z_bin A z_lt y x) l r"

definition Z3HandleSle :: "'z z3api \<Rightarrow> 'z handling \<Rightarrow> expr \<Rightarrow> expr \<Rightarrow> 'z sym_map \<Rightarrow> ('z \<times> 'z sym_map) res" where
  "Z3HandleSle A h r l = two_operands h (\<lambda>x y. z_bin A z_le y x) l r"

definition Z3HandleSgt :: "'z z3api \<Rightarrow> 'z handling \<Rightarrow> expr \<Rightarrow> expr \<Rightarrow> 'z sym_map \<Rightarrow> ('z \<times> 'z sym_map) res" where
  "Z3HandleSgt A h r l = two_operands h (\<lambda>x y. z_bin A z_gt y x) l r"

definition Z3HandleSge :: "'z z3api \<Rightarrow> 'z handling \<Rightarrow> expr \<Rightarrow> expr \<Rightarrow> 'z sym_map \<Rightarrow> ('z \<times> 'z sym_map) res" where
  "Z3HandleSge A h r l = two_operands h (\<lambda>x y. z_bin A z_ge y x) l r"

definition Z3HandleNeg :: "'z z3api \<Rightarrow> 'z handling \<Rightarrow> expr \<Rightarrow> 'z sym_map \<Rightarrow> ('z \<times> 'z sym_map) res" where
  "Z3HandleNeg A h e = one_operand h (z_un A z_minus) e"

definition Z3HandleNot :: "'z z3api \<Rightarrow> 'z handling \<Rightarrow> expr \<Rightarrow> 'z sym_map \<Rightarrow> ('z \<times> 'z sym_map) res" where
  "Z3HandleNot A h e = one_operand h (z_un A z_compl) e"

definition Z3HandleLNot :: "'z z3api \<Rightarrow> 'z handling \<Rightarrow> expr \<Rightarrow> 'z sym_map \<Rightarrow> ('z \<times> 'z sym_map) res" where
  "Z3HandleLNot A h e = one_operand h (z_un A z_lnot) e"

definition Z3HandleEqual :: "'z z3api \<Rightarrow> 'z handling \<Rightarrow> expr \<Rightarrow> 'z sym_map \<Rightarrow> ('z \<times> 'z sym_map) res" where
  "Z3HandleEqual A h e = one_operand h (z_un A z_eq_0) e"

definition Z3HandleDistinct :: "'z z3api \<Rightarrow> 'z handling \<Rightarrow> expr \<Rightarrow> 'z sym_map \<Rightarrow> ('z \<times> 'z sym_map) res" where
  "Z3HandleDistinct A h e = one_operand h (z_un A z_ne_0) e"

text \<open>It is the extension itself, not its operand, that is translated again.\<close>

definition Z3HandleSignExt :: "'z z3api \<Rightarrow> 'z handling \<Rightarrow> expr \<Rightarrow> 'z sym_map \<Rightarrow> ('z \<times> 'z sym_map) res" where
  "Z3HandleSignExt A h ptr = one_operand h (\<lambda>x. z_sext A x (2 * expr_size ptr)) ptr"

text \<open>The test of the sign: its result is a vector of one bit, fixed when the term is built.\<close>

definition sign_test :: "'z z3api \<Rightarrow> int \<Rightarrow> int \<Rightarrow> 'z \<Rightarrow> 'z res" where
  "sign_test A sz wanted x =
     rbind (z_extract A x (sz * 8 - 1) (sz * 8 - 1)) (\<lambda>sign_bit.
     rbind (bv_val A 1 1) (\<lambda>bool_true. rbind (bv_val A 0 1) (\<lambda>bool_false.
     rbind (z_bin A z_eq (if wanted = 1 then bool_true else bool_false) (z_simplify A sign_bit)) (\<lambda>q.
     Inr (if z_as_bool A q then bool_true else bool_false)))))"

definition Z3HandleSign :: "'z z3api \<Rightarrow> 'z handling \<Rightarrow> expr \<Rightarrow> int \<Rightarrow> 'z sym_map \<Rightarrow> ('z \<times> 'z sym_map) res" where
  "Z3HandleSign A h e sz = one_operand h (sign_test A sz 1) e"

definition Z3HandleNoSign :: "'z z3api \<Rightarrow> 'z handling \<Rightarrow> expr \<Rightarrow> int \<Rightarrow> 'z sym_map \<Rightarrow> ('z \<times> 'z sym_map) res" where
  "Z3HandleNoSign A h e sz = one_operand h (sign_test A sz 0) e"

definition Z3HandleCombine :: "'z z3api \<Rightarrow> 'z handling \<Rightarrow> expr \<Rightarrow> expr \<Rightarrow> 'z sym_map \<Rightarrow> ('z \<times> 'z sym_map) res" where
  "Z3HandleCombine A h r l = two_operands h (z_bin A z_concat) r l"

text \<open>The first extraction is only printed; its lowest bit is the first byte's number.\<close>

definition Z3HandleExtract :: "'z z3api \<Rightarrow> 'z handling \<Rightarrow> expr \<Rightarrow> int \<Rightarrow> int \<Rightarrow> 'z sym_map \<Rightarrow> ('z \<times> 'z sym_map) res" where
  "Z3HandleExtract A h ex s e =
     one_operand h (\<lambda>x. rbind (z_extract A x (e * 8 - 1) s) (\<lambda>_. z_extract A x (e * 8 - 1) (s * 8))) ex"

fun concat_parts :: "'z z3api \<Rightarrow> 'z handling \<Rightarrow> 'z \<Rightarrow> expr list \<Rightarrow> 'z sym_map \<Rightarrow> ('z \<times> 'z sym_map) res" where
  "concat_parts A h acc [] mp = Inr (acc, mp)"
| "concat_parts A h acc (e # es) mp =
     rbind (h e mp) (\<lambda>(x, mp). rbind (z_bin A z_concat acc x) (\<lambda>acc. concat_parts A h acc es mp))"

definition Z3HandleCombineMulti :: "'z z3api \<Rightarrow> 'z handling \<Rightarrow> expr list \<Rightarrow> 'z sym_map \<Rightarrow> ('z \<times> 'z sym_map) res" where
  "Z3HandleCombineMulti A h es mp =
     (if length es < 2 then Inl Thrown
      else rbind (h (hd es) mp) (\<lambda>(x, mp). concat_parts A h x (tl es) mp))"

section \<open>The switch\<close>

primrec handle_bin :: "binop \<Rightarrow> 'z z3api \<Rightarrow> 'z handling \<Rightarrow> expr \<Rightarrow> expr \<Rightarrow> 'z sym_map \<Rightarrow> ('z \<times> 'z sym_map) res" where
  "handle_bin OpAdd = Z3HandleAdd" | "handle_bin OpSub = Z3HandleSub" | "handle_bin OpMul = Z3HandleMul"
| "handle_bin OpUDiv = Z3HandleUDiv" | "handle_bin OpAnd = Z3HandleAnd" | "handle_bin OpOr = Z3HandleOr"
| "handle_bin OpXor = Z3HandleXor" | "handle_bin OpShl = Z3HandleShl" | "handle_bin OpLShr = Z3HandleLShr"
| "handle_bin OpAShr = Z3HandleAShr" | "handle_bin OpSDiv = Z3HandleSDiv" | "handle_bin OpSRem = Z3HandleSRem"
| "handle_bin OpUlt = Z3HandleUlt" | "handle_bin OpUle = Z3HandleUle" | "handle_bin OpUgt = Z3HandleUgt"
| "handle_bin OpUge = Z3HandleUge" | "handle_bin OpSlt = Z3HandleSlt" | "handle_bin OpSle = Z3HandleSle"
| "handle_bin OpSgt = Z3HandleSgt" | "handle_bin OpSge = Z3HandleSge"

text \<open>The extension by zeroes, overflow and the double shift are not supported: an exception is thrown.\<close>

fun handle_ury :: "uryop \<Rightarrow> 'z z3api \<Rightarrow> 'z handling \<Rightarrow> expr \<Rightarrow> int \<Rightarrow> int \<Rightarrow> 'z sym_map \<Rightarrow> ('z \<times> 'z sym_map) res" where
  "handle_ury OpNeg A h e sz off mp = Z3HandleNeg A h e mp"
| "handle_ury OpNot A h e sz off mp = Z3HandleNot A h e mp"
| "handle_ury OpLNot A h e sz off mp = Z3HandleLNot A h e mp"
| "handle_ury OpEqual A h e sz off mp = Z3HandleEqual A h e mp"
| "handle_ury OpDistinct A h e sz off mp = Z3HandleDistinct A h e mp"
| "handle_ury OpSignEXT A h e sz off mp = Z3HandleSignExt A h (UryE OpSignEXT e sz off) mp"
| "handle_ury OpSign A h e sz off mp = Z3HandleSign A h e sz mp"
| "handle_ury OpNoSign A h e sz off mp = Z3HandleNoSign A h e sz mp"
| "handle_ury OpZeroEXT A h e sz off mp = Inl Thrown"
| "handle_ury OpOverflow A h e sz off mp = Inl Thrown"
| "handle_ury OpNoOverflow A h e sz off mp = Inl Thrown"

fun handle_node :: "'z z3api \<Rightarrow> objects \<Rightarrow> 'z handling \<Rightarrow> 'z handling" where
  "handle_node A objs h (UDefE p sz off) mp = Z3HandleUND A objs p mp"
| "handle_node A objs h (ConstE v sz off) mp = Z3HandleConst A v sz mp"
| "handle_node A objs h (BinE b r l sz off) mp = handle_bin b A h r l mp"
| "handle_node A objs h (UryE u e sz off) mp = handle_ury u A h e sz off mp"
| "handle_node A objs h (ShrdE r m l sz off) mp = Inl Thrown"
| "handle_node A objs h (CombineE r l rsz lsz sz off) mp = Z3HandleCombine A h r l mp"
| "handle_node A objs h (ExtractE e s t sz off) mp = Z3HandleExtract A h e s t mp"
| "handle_node A objs h (CombineMultiE es os ss sz off) mp = Z3HandleCombineMulti A h es mp"

text \<open>The recursion, bounded by its depth: it does not always end.\<close>

primrec Z3HandlingExprPtr :: "'z z3api \<Rightarrow> objects \<Rightarrow> nat \<Rightarrow> 'z handling" where
  "Z3HandlingExprPtr A objs 0 = (\<lambda>e mp. Inl Diverges)"
| "Z3HandlingExprPtr A objs (Suc n) = handle_node A objs (Z3HandlingExprPtr A objs n)"

section \<open>Solving and deciding\<close>

fun model_values :: "(string \<times> nat \<times> u64 res) list \<Rightarrow> (string \<rightharpoonup> u64) \<Rightarrow> (string \<rightharpoonup> u64) res" where
  "model_values [] ret = Inr ret"
| "model_values ((nm, arity, v) # m) ret =
     rassert (arity = 0) (rbind v (\<lambda>v. model_values m (map_insert ret nm v)))"

fun translate_all ::
  "'z z3api \<Rightarrow> objects \<Rightarrow> nat \<Rightarrow> expr list \<Rightarrow> 'z sym_map \<Rightarrow> ('z list \<times> 'z sym_map) res" where
  "translate_all A objs n [] mp = Inr ([], mp)"
| "translate_all A objs n (e # es) mp =
     rbind (Z3HandlingExprPtr A objs n e mp) (\<lambda>(z, mp).
     rbind (translate_all A objs n es mp) (\<lambda>(zs, mp). Inr (z # zs, mp)))"

text \<open>The constraints are a set: they come in the order the set has them.\<close>

definition Z3SolveOne ::
  "'z z3api \<Rightarrow> objects \<Rightarrow> nat \<Rightarrow> expr list \<Rightarrow> 'z sym_map \<Rightarrow> ((string \<rightharpoonup> u64) \<times> 'z sym_map) res" where
  "Z3SolveOne A objs n constraints mp =
     rbind (translate_all A objs n constraints mp) (\<lambda>(zs, mp).
     rbind (z_check A zs) (\<lambda>answer.
     rbind (case answer of z_sat m \<Rightarrow> model_values m Map.empty | _ \<Rightarrow> Inr Map.empty) (\<lambda>ret.
     Inr (ret, mp))))"

definition Z3ExpressionEvaluator :: "'z z3api \<Rightarrow> 'z \<Rightarrow> 'z \<Rightarrow> 'z \<Rightarrow> bool" where
  "Z3ExpressionEvaluator A org_expr sym_expr con_expr =
     z_is_true A (z_simplify A (z_substitute A org_expr sym_expr con_expr))"

text \<open>The concrete value of an object as a number, by its size and signedness.\<close>

definition seed_number :: "SYMemObject \<Rightarrow> int" where
  "seed_number obj =
     (let v = the (mo_val obj)
      in if mo_is_signed obj then sint (signed_take_bit (8 * unat (mo_size obj) - 1) v)
         else uint (take_bit (8 * unat (mo_size obj)) v))"

text \<open>
  The loop over the objects with a seed. Each substitutes its own value alone into the whole
  conjunction, and overwrites the answer of the one before; an object of another size, or one that the translations
  have not met, leaves the answer.
\<close>

fun seed_loop ::
  "'z z3api \<Rightarrow> objects \<Rightarrow> 'z sym_map \<Rightarrow> 'z \<Rightarrow> obj_ptr list \<Rightarrow> bool \<Rightarrow> bool res" where
  "seed_loop A objs mp ex [] ret = Inr ret"
| "seed_loop A objs mp ex (p # ps) ret =
     rbind (deref (objs p)) (\<lambda>obj.
     if mo_size obj \<in> {1, 2, 4, 8}
     then rbind (bv_val A (seed_number obj) (uint (mo_size obj) * 8)) (\<lambda>value_expr.
          seed_loop A objs mp ex ps
            (case mp p of None \<Rightarrow> ret | Some sym_expr \<Rightarrow> Z3ExpressionEvaluator A ex sym_expr value_expr))
     else seed_loop A objs mp ex ps ret)"

fun with_seed :: "objects \<Rightarrow> obj_ptr list \<Rightarrow> obj_ptr list res" where
  "with_seed objs [] = Inr []"
| "with_seed objs (p # ps) =
     rbind (deref (objs p)) (\<lambda>obj. rbind (with_seed objs ps) (\<lambda>qs. Inr (if mo_has_seed obj then p # qs else qs)))"

fun conjoin :: "'z z3api \<Rightarrow> objects \<Rightarrow> nat \<Rightarrow> 'z \<Rightarrow> expr list \<Rightarrow> 'z sym_map \<Rightarrow> ('z \<times> 'z sym_map) res" where
  "conjoin A objs n acc [] mp = Inr (acc, mp)"
| "conjoin A objs n acc (e # es) mp =
     rbind (Z3HandlingExprPtr A objs n e mp) (\<lambda>(z, mp).
     rbind (z_bin A z_and acc z) (\<lambda>acc. conjoin A objs n acc es mp))"

definition Z3SolveConcritize ::
  "'z z3api \<Rightarrow> objects \<Rightarrow> nat \<Rightarrow> obj_ptr list \<Rightarrow> expr list \<Rightarrow> 'z sym_map \<Rightarrow> (bool \<times> 'z sym_map) res" where
  "Z3SolveConcritize A objs n symobjs_all constraints mp =
     rbind (conjoin A objs n (bool_val A True) constraints mp) (\<lambda>(exprs, mp).
     rbind (with_seed objs symobjs_all) (\<lambda>symobjs.
     rbind (seed_loop A objs mp exprs symobjs False) (\<lambda>ret. Inr (ret, mp))))"


section \<open>Depth, and what never returns\<close>

lemmas handle_defs = Z3HandleAdd_def Z3HandleSub_def Z3HandleMul_def Z3HandleUDiv_def Z3HandleSDiv_def Z3HandleSRem_def
  Z3HandleAnd_def Z3HandleOr_def Z3HandleXor_def Z3HandleShl_def Z3HandleLShr_def Z3HandleAShr_def Z3HandleUlt_def
  Z3HandleUle_def Z3HandleUgt_def Z3HandleUge_def Z3HandleSlt_def Z3HandleSle_def Z3HandleSgt_def Z3HandleSge_def
  Z3HandleNeg_def Z3HandleNot_def Z3HandleLNot_def Z3HandleEqual_def Z3HandleDistinct_def Z3HandleSignExt_def
  Z3HandleSign_def Z3HandleNoSign_def Z3HandleCombine_def Z3HandleExtract_def

text \<open>A binary case calls a function of Z3 on its two operands, a comparison in the other order.\<close>

primrec op_of_bin :: "binop \<Rightarrow> z3op" where
  "op_of_bin OpAdd = z_add" | "op_of_bin OpSub = z_sub" | "op_of_bin OpMul = z_mul" | "op_of_bin OpUDiv = z_udiv"
| "op_of_bin OpAnd = z_and" | "op_of_bin OpOr = z_or" | "op_of_bin OpXor = z_xor" | "op_of_bin OpShl = z_shl"
| "op_of_bin OpLShr = z_lshr" | "op_of_bin OpAShr = z_ashr" | "op_of_bin OpSDiv = z_div" | "op_of_bin OpSRem = z_srem"
| "op_of_bin OpUlt = z_ult" | "op_of_bin OpUle = z_ule" | "op_of_bin OpUgt = z_ugt" | "op_of_bin OpUge = z_uge"
| "op_of_bin OpSlt = z_lt" | "op_of_bin OpSle = z_le" | "op_of_bin OpSgt = z_gt" | "op_of_bin OpSge = z_ge"

definition compares :: "binop \<Rightarrow> bool" where
  "compares b \<longleftrightarrow> b \<in> {OpUlt, OpUle, OpUgt, OpUge, OpSlt, OpSle, OpSgt, OpSge}"

lemma handle_bin_eq:
  "handle_bin b A h r l = (if compares b then two_operands h (\<lambda>x y. z_bin A (op_of_bin b) y x) l r
     else two_operands h (z_bin A (op_of_bin b)) r l)"
  by (cases b) (simp_all add: handle_defs compares_def)

text \<open>The functions of Z3 return or throw.\<close>

definition api_returns :: "'z z3api \<Rightarrow> bool" where
  "api_returns A \<longleftrightarrow> (\<forall>n b. bv_const A n b \<noteq> Inl Diverges) \<and> (\<forall>v b. bv_val A v b \<noteq> Inl Diverges) \<and>
     (\<forall>b x y. z_bin A b x y \<noteq> Inl Diverges) \<and> (\<forall>u x. z_un A u x \<noteq> Inl Diverges) \<and>
     (\<forall>x i j. z_extract A x i j \<noteq> Inl Diverges) \<and> (\<forall>x k. z_sext A x k \<noteq> Inl Diverges)"

lemma two_operands_returns:
  assumes "\<And>mp. h a mp \<noteq> Inl Diverges" "\<And>mp. h b mp \<noteq> Inl Diverges" "\<And>x y. f x y \<noteq> Inl Diverges"
  shows "two_operands h f a b mp \<noteq> Inl Diverges"
  using assms by (auto simp: two_operands_def rbind_eq_Inl_iff split: prod.splits)

lemma one_operand_returns:
  assumes "\<And>mp. h a mp \<noteq> Inl Diverges" "\<And>x. f x \<noteq> Inl Diverges"
  shows "one_operand h f a mp \<noteq> Inl Diverges"
  using assms by (auto simp: one_operand_def rbind_eq_Inl_iff split: prod.splits)

lemma concat_parts_returns:
  assumes "\<And>e mp. e \<in> set es \<Longrightarrow> h e mp \<noteq> Inl Diverges" "api_returns A"
  shows "concat_parts A h acc es mp \<noteq> Inl Diverges"
  using assms(1)
proof (induction es arbitrary: acc mp)
  case (Cons e es)
  have "h e m \<noteq> Inl Diverges" for m using Cons.prems by simp
  moreover have "concat_parts A h a es m \<noteq> Inl Diverges" for a m using Cons.IH Cons.prems by simp
  ultimately show ?case using assms(2) by (auto simp: rbind_eq_Inl_iff api_returns_def split: prod.splits)
qed simp

fun expr_parts_of :: "expr \<Rightarrow> expr list" where
  "expr_parts_of (BinE b r l sz off) = [r, l]"
| "expr_parts_of (UryE u e sz off) = [e]"
| "expr_parts_of (CombineE r l rsz lsz sz off) = [r, l]"
| "expr_parts_of (ExtractE e s t sz off) = [e]"
| "expr_parts_of (CombineMultiE es os ss sz off) = es"
| "expr_parts_of e = []"

definition is_sign_ext :: "expr \<Rightarrow> bool" where
  "is_sign_ext e \<longleftrightarrow> (\<exists>a sz off. e = UryE OpSignEXT a sz off)"

lemma sign_test_returns: "api_returns A \<Longrightarrow> sign_test A sz w x \<noteq> Inl Diverges"
  by (auto simp: sign_test_def rbind_eq_Inl_iff api_returns_def)

lemma handle_node_returns:
  assumes "api_returns A" "\<not> is_sign_ext e" "\<And>a mp. a \<in> set (expr_parts_of e) \<Longrightarrow> h a mp \<noteq> Inl Diverges"
  shows "handle_node A objs h e mp \<noteq> Inl Diverges"
proof (cases e)
  case (UDefE p sz off)
  then show ?thesis using assms(1)
    by (auto simp: Z3HandleUND_def rbind_eq_Inl_iff api_returns_def deref_def split: option.splits)
next
  case (ConstE v sz off)
  then show ?thesis using assms(1) by (auto simp: Z3HandleConst_def rbind_eq_Inl_iff api_returns_def)
next
  case (BinE b r l sz off)
  then have h: "h r m \<noteq> Inl Diverges" "h l m \<noteq> Inl Diverges" for m using assms(3) by simp_all
  have f: "z_bin A v x y \<noteq> Inl Diverges" for v x y using assms(1) by (simp add: api_returns_def)
  show ?thesis using BinE two_operands_returns [where h = h, OF h f] two_operands_returns [where h = h, OF h(2,1) f]
    by (simp add: handle_bin_eq)
next
  case (UryE u a sz off)
  have h: "h a m \<noteq> Inl Diverges" for m using assms(3) UryE by simp
  have un: "z_un A v x \<noteq> Inl Diverges" for v x using assms(1) by (simp add: api_returns_def)
  show ?thesis using UryE assms(2) one_operand_returns [where h = h, OF h un]
      one_operand_returns [where h = h, OF h sign_test_returns [OF assms(1)]]
    by (cases u) (auto simp: handle_defs is_sign_ext_def)
next
  case (CombineE r l rsz lsz sz off)
  then have h: "h r m \<noteq> Inl Diverges" "h l m \<noteq> Inl Diverges" for m using assms(3) by simp_all
  have f: "z_bin A v x y \<noteq> Inl Diverges" for v x y using assms(1) by (simp add: api_returns_def)
  show ?thesis using CombineE two_operands_returns [where h = h, OF h f] by (simp add: handle_defs)
next
  case (ExtractE a s t sz off)
  have "h a m \<noteq> Inl Diverges" for m using assms(3) ExtractE by simp
  moreover have "rbind (z_extract A x (t * 8 - 1) s) (\<lambda>_. z_extract A x (t * 8 - 1) (s * 8)) \<noteq> Inl Diverges" for x
    using assms(1) by (auto simp: rbind_eq_Inl_iff api_returns_def)
  ultimately show ?thesis using ExtractE by (simp add: handle_defs one_operand_returns)
next
  case (CombineMultiE es os ss sz off)
  have h: "h a m \<noteq> Inl Diverges" if "a \<in> set es" for a m using assms(3) CombineMultiE that by simp
  have "concat_parts A h x (tl es) m \<noteq> Inl Diverges" for x m
    by (rule concat_parts_returns [OF _ assms(1)]) (use h in_set_tlD in fast)
  moreover have "length es \<ge> 2 \<Longrightarrow> h (hd es) m \<noteq> Inl Diverges" for m by (rule h) (cases es; simp)
  ultimately show ?thesis using CombineMultiE
    by (auto simp: Z3HandleCombineMulti_def rbind_eq_Inl_iff split: prod.splits)
qed simp

text \<open>More depth gives the same answer, once there is one.\<close>

lemma two_operands_mono:
  assumes "\<And>e mp. h e mp \<noteq> Inl Diverges \<Longrightarrow> h' e mp = h e mp" "two_operands h f a b mp \<noteq> Inl Diverges"
  shows "two_operands h' f a b mp = two_operands h f a b mp"
proof (cases "h a mp")
  case (Inl x)
  then show ?thesis using assms(2) assms(1) [of a mp] by (auto simp: two_operands_def)
next
  case (Inr p)
  obtain x m where p: "p = (x, m)" by (cases p)
  have "h b m \<noteq> Inl Diverges" using assms(2) Inr p by (auto simp: two_operands_def)
  then show ?thesis using assms(1) [of a mp] assms(1) [of b m] Inr p by (simp add: two_operands_def)
qed

lemma one_operand_mono:
  assumes "\<And>e mp. h e mp \<noteq> Inl Diverges \<Longrightarrow> h' e mp = h e mp" "one_operand h f a mp \<noteq> Inl Diverges"
  shows "one_operand h' f a mp = one_operand h f a mp"
proof (cases "h a mp")
  case (Inl x)
  then show ?thesis using assms(2) assms(1) [of a mp] by (auto simp: one_operand_def)
next
  case (Inr p)
  then show ?thesis using assms(1) [of a mp] by (simp add: one_operand_def)
qed

lemma concat_parts_mono:
  assumes "\<And>e mp. h e mp \<noteq> Inl Diverges \<Longrightarrow> h' e mp = h e mp" "concat_parts A h acc es mp \<noteq> Inl Diverges"
  shows "concat_parts A h' acc es mp = concat_parts A h acc es mp"
  using assms(2)
proof (induction es arbitrary: acc mp)
  case (Cons e es)
  have ne: "h e mp \<noteq> Inl Diverges" using Cons.prems by auto
  show ?case
  proof (cases "h e mp")
    case (Inr p)
    obtain x m where p: "p = (x, m)" by (cases p)
    show ?thesis using Cons.prems Cons.IH assms(1) [OF ne] Inr p by (cases "z_bin A z_concat acc x") auto
  qed (use assms(1) [OF ne] in simp)
qed simp

lemma handle_node_mono:
  assumes "\<And>e mp. h e mp \<noteq> Inl Diverges \<Longrightarrow> h' e mp = h e mp" "handle_node A objs h e mp \<noteq> Inl Diverges"
  shows "handle_node A objs h' e mp = handle_node A objs h e mp"
proof (cases e)
  case (BinE b r l sz off)
  then show ?thesis using assms(2) two_operands_mono [OF assms(1)]
    by (simp add: handle_bin_eq split: if_splits)
next
  case (UryE u a sz off)
  then show ?thesis using assms(2) one_operand_mono [OF assms(1)] by (cases u) (simp_all add: handle_defs)
next
  case (CombineE r l rsz lsz sz off)
  then show ?thesis using assms(2) two_operands_mono [OF assms(1)] by (simp add: handle_defs)
next
  case (ExtractE a s t sz off)
  then show ?thesis using assms(2) one_operand_mono [OF assms(1)] by (simp add: handle_defs)
next
  case (CombineMultiE es os ss sz off)
  show ?thesis
  proof (cases "length es < 2 \<or> h (hd es) mp = Inl Diverges")
    case True
    then show ?thesis using assms(2) CombineMultiE by (auto simp: Z3HandleCombineMulti_def)
  next
    case False
    then have "h' (hd es) mp = h (hd es) mp" using assms(1) by blast
    then show ?thesis using assms(2) CombineMultiE False concat_parts_mono [OF assms(1)]
      by (cases "h (hd es) mp") (auto simp: Z3HandleCombineMulti_def)
  qed
qed simp_all

lemma handling_Suc:
  "Z3HandlingExprPtr A objs k e mp \<noteq> Inl Diverges \<Longrightarrow> Z3HandlingExprPtr A objs (Suc k) e mp = Z3HandlingExprPtr A objs k e mp"
proof (induction k arbitrary: e mp)
  case (Suc k)
  show ?case
    using handle_node_mono [of "Z3HandlingExprPtr A objs k" "Z3HandlingExprPtr A objs (Suc k)" A objs e mp] Suc
    by (metis Z3HandlingExprPtr.simps(2))
qed simp

lemma handling_mono:
  assumes "Z3HandlingExprPtr A objs n e mp \<noteq> Inl Diverges" "n \<le> m"
  shows "Z3HandlingExprPtr A objs m e mp = Z3HandlingExprPtr A objs n e mp"
  using assms(2)
proof (induction m rule: dec_induct)
  case (step m)
  then show ?case using handling_Suc [of A objs m e mp] assms(1) by metis
qed simp

text \<open>The nesting of an expression, and whether an extension of the sign is in it.\<close>

fun expr_depth :: "expr \<Rightarrow> nat" where
  "expr_depth (BinE b r l sz off) = Suc (max (expr_depth r) (expr_depth l))"
| "expr_depth (UryE u e sz off) = Suc (expr_depth e)"
| "expr_depth (CombineE r l rsz lsz sz off) = Suc (max (expr_depth r) (expr_depth l))"
| "expr_depth (ExtractE e s t sz off) = Suc (expr_depth e)"
| "expr_depth (CombineMultiE es os ss sz off) = Suc (foldr max (map expr_depth es) 0)"
| "expr_depth e = 0"

fun has_sign_ext :: "expr \<Rightarrow> bool" where
  "has_sign_ext (BinE b r l sz off) = (has_sign_ext r \<or> has_sign_ext l)"
| "has_sign_ext (UryE u e sz off) = (u = OpSignEXT \<or> has_sign_ext e)"
| "has_sign_ext (CombineE r l rsz lsz sz off) = (has_sign_ext r \<or> has_sign_ext l)"
| "has_sign_ext (ExtractE e s t sz off) = has_sign_ext e"
| "has_sign_ext (CombineMultiE es os ss sz off) = list_ex has_sign_ext es"
| "has_sign_ext e = False"

lemma depth_le_foldr: "a \<in> set es \<Longrightarrow> f a \<le> foldr max (map f es) (0 :: nat)"
  by (induction es) auto

lemma parts_smaller: "a \<in> set (expr_parts_of e) \<Longrightarrow> expr_depth a < expr_depth e"
  by (cases e) (auto simp: less_Suc_eq_le depth_le_foldr)

lemma parts_no_sign_ext: "\<not> has_sign_ext e \<Longrightarrow> a \<in> set (expr_parts_of e) \<Longrightarrow> \<not> has_sign_ext a"
  by (cases e) (auto simp: list_ex_iff)

lemma handling_returns:
  "api_returns A \<Longrightarrow> \<not> has_sign_ext e \<Longrightarrow> expr_depth e < n \<Longrightarrow> Z3HandlingExprPtr A objs n e mp \<noteq> Inl Diverges"
proof (induction n arbitrary: e mp)
  case (Suc n)
  have "\<not> is_sign_ext e" using Suc.prems(2) by (auto simp: is_sign_ext_def)
  then show ?case
    using handle_node_returns [OF Suc.prems(1), of e "Z3HandlingExprPtr A objs n"] Suc.IH [OF Suc.prems(1)]
      parts_no_sign_ext [OF Suc.prems(2)] parts_smaller [of _ e] Suc.prems(3)
    by (metis Z3HandlingExprPtr.simps(2) less_Suc_eq_le order.strict_trans2)
qed simp

lemma sign_ext_diverges: "Z3HandlingExprPtr A objs n (UryE OpSignEXT e sz off) mp = Inl Diverges"
  by (induction n arbitrary: mp) (simp_all add: handle_defs one_operand_def)

section \<open>What Z3's functions mean\<close>

text \<open>
  The laws the results below rest on: a term denotes, under a valuation of the constants by name
  and width, a vector of bits or a truth value; subtraction, comparison, negation,
  conjunction and concatenation are those of the theory of bit vectors; a simplified term that is the constant true
  was true under every valuation, and substituting a value for a constant fixes the valuation there.
\<close>

datatype zval = BV int int | Bl bool

type_synonym valuation = "string \<times> int \<Rightarrow> int"

fun bv_num :: "zval \<Rightarrow> int" where
  "bv_num (BV b x) = x"
| "bv_num (Bl c) = 0"

definition bits_term :: "('z \<Rightarrow> valuation \<Rightarrow> zval) \<Rightarrow> int \<Rightarrow> 'z \<Rightarrow> bool" where
  "bits_term ev b z \<longleftrightarrow> 0 < b \<and> (\<forall>\<rho>. \<exists>x. ev z \<rho> = BV b x \<and> 0 \<le> x \<and> x < 2 ^ nat b)"

definition bool_term :: "('z \<Rightarrow> valuation \<Rightarrow> zval) \<Rightarrow> 'z \<Rightarrow> bool" where
  "bool_term ev z \<longleftrightarrow> (\<forall>\<rho>. \<exists>c. ev z \<rho> = Bl c)"

definition sgn_num :: "int \<Rightarrow> int \<Rightarrow> int" where
  "sgn_num b x = (if x < 2 ^ nat (b - 1) then x else x - 2 ^ nat b)"

fun cmp_holds :: "z3op \<Rightarrow> int \<Rightarrow> int \<Rightarrow> int \<Rightarrow> bool" where
  "cmp_holds z_ult b x y = (x < y)"
| "cmp_holds z_ule b x y = (x \<le> y)"
| "cmp_holds z_ugt b x y = (x > y)"
| "cmp_holds z_uge b x y = (x \<ge> y)"
| "cmp_holds z_lt b x y = (sgn_num b x < sgn_num b y)"
| "cmp_holds z_le b x y = (sgn_num b x \<le> sgn_num b y)"
| "cmp_holds z_gt b x y = (sgn_num b x > sgn_num b y)"
| "cmp_holds z_ge b x y = (sgn_num b x \<ge> sgn_num b y)"
| "cmp_holds v b x y = False"

definition cmp_ops :: "z3op list" where
  "cmp_ops = [z_ult, z_ule, z_ugt, z_uge, z_lt, z_le, z_gt, z_ge]"

definition law_bits :: "('z \<Rightarrow> valuation \<Rightarrow> zval) \<Rightarrow> 'z z3api \<Rightarrow> bool" where
  "law_bits ev A \<longleftrightarrow>
     (\<forall>n b z \<rho>. bv_const A n b = Inr z \<longrightarrow> 0 < b \<and> ev z \<rho> = BV b (\<rho> (n, b) mod 2 ^ nat b)) \<and>
     (\<forall>v b z \<rho>. bv_val A v b = Inr z \<longrightarrow> 0 < b \<and> ev z \<rho> = BV b (v mod 2 ^ nat b)) \<and>
     (\<forall>b x y. bits_term ev b x \<and> bits_term ev b y \<longrightarrow>
        (\<exists>z. z_bin A z_sub x y = Inr z \<and> (\<forall>\<rho>. ev z \<rho> = BV b ((bv_num (ev x \<rho>) - bv_num (ev y \<rho>)) mod 2 ^ nat b)))) \<and>
     (\<forall>a b x y. bits_term ev a x \<and> bits_term ev b y \<longrightarrow>
        (\<exists>z. z_bin A z_concat x y = Inr z \<and> (\<forall>\<rho>. ev z \<rho> = BV (a + b) (bv_num (ev x \<rho>) * 2 ^ nat b + bv_num (ev y \<rho>)))))"

definition law_bools :: "('z \<Rightarrow> valuation \<Rightarrow> zval) \<Rightarrow> 'z z3api \<Rightarrow> bool" where
  "law_bools ev A \<longleftrightarrow>
     (\<forall>op \<in> set cmp_ops. \<forall>b x y. bits_term ev b x \<and> bits_term ev b y \<longrightarrow>
        (\<exists>z. z_bin A op x y = Inr z \<and> (\<forall>\<rho>. ev z \<rho> = Bl (cmp_holds op b (bv_num (ev x \<rho>)) (bv_num (ev y \<rho>)))))) \<and>
     (\<forall>b x. bits_term ev b x \<longrightarrow>
        (\<exists>z. z_un A z_eq_0 x = Inr z \<and> (\<forall>\<rho>. ev z \<rho> = Bl (bv_num (ev x \<rho>) = 0))) \<and>
        (\<exists>z. z_un A z_ne_0 x = Inr z \<and> (\<forall>\<rho>. ev z \<rho> = Bl (bv_num (ev x \<rho>) \<noteq> 0)))) \<and>
     (\<forall>x. bool_term ev x \<longrightarrow> (\<exists>z. z_un A z_lnot x = Inr z \<and> (\<forall>\<rho>. ev z \<rho> = Bl (ev x \<rho> \<noteq> Bl True)))) \<and>
     (\<forall>x y. bool_term ev x \<and> bool_term ev y \<longrightarrow>
        (\<exists>z. z_bin A z_and x y = Inr z \<and> (\<forall>\<rho>. ev z \<rho> = Bl (ev x \<rho> = Bl True \<and> ev y \<rho> = Bl True)))) \<and>
     (\<forall>c \<rho>. ev (bool_val A c) \<rho> = Bl c)"

definition law_evaluate :: "('z \<Rightarrow> valuation \<Rightarrow> zval) \<Rightarrow> 'z z3api \<Rightarrow> bool" where
  "law_evaluate ev A \<longleftrightarrow>
     (\<forall>z n b s k v \<rho>. bv_const A n b = Inr s \<longrightarrow> bv_val A k b = Inr v \<longrightarrow>
        ev (z_substitute A z s v) \<rho> = ev z (\<rho>((n, b) := k mod 2 ^ nat b))) \<and>
     (\<forall>z \<rho>. z_is_true A (z_simplify A z) \<longrightarrow> ev z \<rho> = Bl True)"

definition z3_semantics :: "('z \<Rightarrow> valuation \<Rightarrow> zval) \<Rightarrow> 'z z3api \<Rightarrow> bool" where
  "z3_semantics ev A \<longleftrightarrow> law_bits ev A \<and> law_bools ev A \<and> law_evaluate ev A"

text \<open>An instance: terms as trees, evaluated directly.\<close>

datatype zterm =
    TConst string int | TVal int int | TBool bool | TBin z3op zterm zterm | TUn z3un zterm

fun bin_val :: "z3op \<Rightarrow> zval \<Rightarrow> zval \<Rightarrow> zval" where
  "bin_val op (BV a x) (BV b y) =
     (if op = z_sub then BV a ((x - y) mod 2 ^ nat a)
      else if op = z_concat then BV (a + b) (x * 2 ^ nat b + y)
      else Bl (cmp_holds op a x y))"
| "bin_val op (Bl p) (Bl q) = Bl (p \<and> q)"
| "bin_val op p q = Bl False"

fun un_val :: "z3un \<Rightarrow> zval \<Rightarrow> zval" where
  "un_val u (BV b x) = Bl (if u = z_eq_0 then x = 0 else x \<noteq> 0)"
| "un_val u (Bl c) = Bl (\<not> c)"

fun tval :: "zterm \<Rightarrow> valuation \<Rightarrow> zval" where
  "tval (TConst n b) \<rho> = BV b (\<rho> (n, b) mod 2 ^ nat b)"
| "tval (TVal v b) \<rho> = BV b (v mod 2 ^ nat b)"
| "tval (TBool c) \<rho> = Bl c"
| "tval (TBin op x y) \<rho> = bin_val op (tval x \<rho>) (tval y \<rho>)"
| "tval (TUn u x) \<rho> = un_val u (tval x \<rho>)"

fun tclosed :: "zterm \<Rightarrow> bool" where
  "tclosed (TConst n b) = False"
| "tclosed (TVal v b) = True"
| "tclosed (TBool c) = True"
| "tclosed (TBin op x y) = (tclosed x \<and> tclosed y)"
| "tclosed (TUn u x) = tclosed x"

fun tsubst :: "zterm \<Rightarrow> zterm \<Rightarrow> zterm \<Rightarrow> zterm" where
  "tsubst (TBin op x y) s v = (if s = TBin op x y then v else TBin op (tsubst x s v) (tsubst y s v))"
| "tsubst (TUn u x) s v = (if s = TUn u x then v else TUn u (tsubst x s v))"
| "tsubst t s v = (if s = t then v else t)"

definition tsimplify :: "zterm \<Rightarrow> zterm" where
  "tsimplify t = (if tclosed t \<and> tval t (\<lambda>_. 0) = Bl True then TBool True else t)"

definition tree_api :: "zterm z3api" where
  "tree_api = \<lparr>bv_const = \<lambda>n b. if 0 < b then Inr (TConst n b) else Inl Thrown,
     bv_val = \<lambda>v b. if 0 < b then Inr (TVal v b) else Inl Thrown, bool_val = TBool,
     z_bin = \<lambda>op x y. Inr (TBin op x y), z_un = \<lambda>u x. Inr (TUn u x), z_extract = \<lambda>x i j. Inl Thrown,
     z_sext = \<lambda>x k. Inl Thrown, z_substitute = tsubst, z_simplify = tsimplify, z_is_true = \<lambda>t. t = TBool True,
     z_as_bool = \<lambda>t. True, z_check = \<lambda>ts. Inr z_unknown\<rparr>"

lemma tclosed_val: "tclosed t \<Longrightarrow> tval t \<rho> = tval t \<rho>'"
  by (induction t) simp_all

lemma tsubst_val: "tval (tsubst t (TConst n b) (TVal k b)) \<rho> = tval t (\<rho>((n, b) := k mod 2 ^ nat b))"
  by (induction t) auto

lemma tsimplify_true: "tsimplify t = TBool True \<Longrightarrow> tval t \<rho> = Bl True"
proof (cases "tclosed t \<and> tval t (\<lambda>_. 0) = Bl True")
  case True
  then show ?thesis using tclosed_val [of t \<rho> "\<lambda>_. 0"] by simp
qed (auto simp: tsimplify_def)

lemma bits_val:
  assumes "bits_term ev b z"
  shows "ev z \<rho> = BV b (bv_num (ev z \<rho>))" "0 \<le> bv_num (ev z \<rho>)" "bv_num (ev z \<rho>) < 2 ^ nat b"
proof -
  obtain x where "ev z \<rho> = BV b x" "0 \<le> x" "x < 2 ^ nat b" using assms by (auto simp: bits_term_def)
  then show "ev z \<rho> = BV b (bv_num (ev z \<rho>))" "0 \<le> bv_num (ev z \<rho>)" "bv_num (ev z \<rho>) < 2 ^ nat b" by simp_all
qed

lemma tree_bin: "bits_term tval a x \<Longrightarrow> bits_term tval b y \<Longrightarrow>
    tval (TBin op x y) \<rho> = bin_val op (BV a (bv_num (tval x \<rho>))) (BV b (bv_num (tval y \<rho>)))"
  by (metis bits_val(1) tval.simps(4))

lemma tree_bits: "law_bits tval tree_api"
  by (auto simp: law_bits_def tree_api_def tree_bin simp del: tval.simps(4) split: if_splits)

lemma tree_un: "bits_term tval b x \<Longrightarrow> tval (TUn u x) \<rho> = un_val u (BV b (bv_num (tval x \<rho>)))"
  by (metis bits_val(1) tval.simps(5))

lemma tree_bool: "bool_term tval x \<Longrightarrow> bool_term tval y \<Longrightarrow>
    tval (TBin op x y) \<rho> = Bl (tval x \<rho> = Bl True \<and> tval y \<rho> = Bl True)"
  "bool_term tval x \<Longrightarrow> tval (TUn u x) \<rho> = Bl (tval x \<rho> \<noteq> Bl True)"
proof -
  have B: "bool_term tval x \<Longrightarrow> \<exists>c. tval x \<rho> = Bl c" for x by (simp add: bool_term_def)
  show "bool_term tval x \<Longrightarrow> bool_term tval y \<Longrightarrow> tval (TBin op x y) \<rho> = Bl (tval x \<rho> = Bl True \<and> tval y \<rho> = Bl True)"
    using B [of x] B [of y] by auto
  show "bool_term tval x \<Longrightarrow> tval (TUn u x) \<rho> = Bl (tval x \<rho> \<noteq> Bl True)" using B [of x] by auto
qed

lemma tree_bools: "law_bools tval tree_api"
  unfolding law_bools_def tree_api_def z3api.select_convs sum.inject
  by (auto simp: tree_bin tree_un tree_bool cmp_ops_def simp del: tval.simps(4,5))

lemma tree_semantics: "z3_semantics tval tree_api"
  using tree_bits tree_bools tsubst_val tsimplify_true
  by (auto simp: z3_semantics_def law_evaluate_def tree_api_def split: if_splits)

lemma tree_returns: "api_returns tree_api"
  by (auto simp: api_returns_def tree_api_def)

section \<open>Translations\<close>

lemma z3_sub: "z3_semantics ev A \<Longrightarrow> bits_term ev b x \<Longrightarrow> bits_term ev b y \<Longrightarrow>
    \<exists>z. z_bin A z_sub x y = Inr z \<and> (\<forall>\<rho>. ev z \<rho> = BV b ((bv_num (ev x \<rho>) - bv_num (ev y \<rho>)) mod 2 ^ nat b))"
  by (simp add: z3_semantics_def law_bits_def)

lemma z3_concat: "z3_semantics ev A \<Longrightarrow> bits_term ev a x \<Longrightarrow> bits_term ev b y \<Longrightarrow>
    \<exists>z. z_bin A z_concat x y = Inr z \<and> (\<forall>\<rho>. ev z \<rho> = BV (a + b) (bv_num (ev x \<rho>) * 2 ^ nat b + bv_num (ev y \<rho>)))"
  by (simp add: z3_semantics_def law_bits_def)

lemma z3_cmp: "z3_semantics ev A \<Longrightarrow> v \<in> set cmp_ops \<Longrightarrow> bits_term ev b x \<Longrightarrow> bits_term ev b y \<Longrightarrow>
    \<exists>z. z_bin A v x y = Inr z \<and> (\<forall>\<rho>. ev z \<rho> = Bl (cmp_holds v b (bv_num (ev x \<rho>)) (bv_num (ev y \<rho>))))"
  by (simp add: z3_semantics_def law_bools_def)

lemma z3_zero: "z3_semantics ev A \<Longrightarrow> bits_term ev b x \<Longrightarrow>
    \<exists>z. z_un A z_eq_0 x = Inr z \<and> (\<forall>\<rho>. ev z \<rho> = Bl (bv_num (ev x \<rho>) = 0))"
  "z3_semantics ev A \<Longrightarrow> bits_term ev b x \<Longrightarrow>
    \<exists>z. z_un A z_ne_0 x = Inr z \<and> (\<forall>\<rho>. ev z \<rho> = Bl (bv_num (ev x \<rho>) \<noteq> 0))"
  unfolding z3_semantics_def law_bools_def by metis+

lemma z3_lnot: "z3_semantics ev A \<Longrightarrow> bool_term ev x \<Longrightarrow>
    \<exists>z. z_un A z_lnot x = Inr z \<and> (\<forall>\<rho>. ev z \<rho> = Bl (ev x \<rho> \<noteq> Bl True))"
  by (simp add: z3_semantics_def law_bools_def)

lemma z3_and: "z3_semantics ev A \<Longrightarrow> bool_term ev x \<Longrightarrow> bool_term ev y \<Longrightarrow>
    \<exists>z. z_bin A z_and x y = Inr z \<and> (\<forall>\<rho>. ev z \<rho> = Bl (ev x \<rho> = Bl True \<and> ev y \<rho> = Bl True))"
  by (simp add: z3_semantics_def law_bools_def)

text \<open>An expression whose translation succeeds, with the same term whatever was translated before.\<close>

definition translates :: "'z z3api \<Rightarrow> objects \<Rightarrow> nat \<Rightarrow> expr \<Rightarrow> 'z \<Rightarrow> bool" where
  "translates A objs n e z \<longleftrightarrow> (\<forall>mp. \<exists>mp'. Z3HandlingExprPtr A objs n e mp = Inr (z, mp'))"

lemma translates_mono: "translates A objs n e z \<Longrightarrow> n \<le> m \<Longrightarrow> translates A objs m e z"
  unfolding translates_def by (metis handling_mono sum.distinct(1))

lemma translates_two:
  assumes "translates A objs n a x" "translates A objs n b y" "f x y = Inr z"
  shows "\<exists>mp'. two_operands (Z3HandlingExprPtr A objs n) f a b mp = Inr (z, mp')"
proof -
  obtain m1 where 1: "Z3HandlingExprPtr A objs n a mp = Inr (x, m1)" using assms(1) by (auto simp: translates_def)
  obtain m2 where 2: "Z3HandlingExprPtr A objs n b m1 = Inr (y, m2)" using assms(2) unfolding translates_def by blast
  show ?thesis using 1 2 assms(3) by (simp add: two_operands_def)
qed

lemma translates_one:
  assumes "translates A objs n a x" "f x = Inr z"
  shows "\<exists>mp'. one_operand (Z3HandlingExprPtr A objs n) f a mp = Inr (z, mp')"
proof -
  obtain m1 where 1: "Z3HandlingExprPtr A objs n a mp = Inr (x, m1)" using assms(1) by (auto simp: translates_def)
  then show ?thesis using assms(2) by (simp add: one_operand_def)
qed

lemma translates_BinE:
  assumes "translates A objs n r x" "translates A objs n l y" "z_bin A (op_of_bin b) x y = Inr z"
  shows "translates A objs (Suc n) (BinE b r l sz off) z"
  unfolding translates_def using translates_two [OF assms(1,2)] translates_two [OF assms(2,1)] assms(3)
  by (simp add: handle_bin_eq)

lemma translates_ury:
  assumes "translates A objs n e x"
  shows "z_un A z_lnot x = Inr z \<Longrightarrow> translates A objs (Suc n) (UryE OpLNot e sz off) z"
    "z_un A z_eq_0 x = Inr z \<Longrightarrow> translates A objs (Suc n) (UryE OpEqual e sz off) z"
    "z_un A z_ne_0 x = Inr z \<Longrightarrow> translates A objs (Suc n) (UryE OpDistinct e sz off) z"
  unfolding translates_def using translates_one [OF assms] by (simp_all add: handle_defs)

lemma translates_UDef:
  "objs p = Some ob \<Longrightarrow> bv_const A (mo_name ob) (uint (mo_size ob) * 8) = Inr x \<Longrightarrow>
     translates A objs (Suc n) (UDefE (Some p) sz off) x"
  by (simp add: translates_def Z3HandleUND_def)

lemma translates_Const: "bv_val A (uint v) (sz * 8) = Inr x \<Longrightarrow> translates A objs (Suc n) (ConstE v sz off) x"
  by (simp add: translates_def Z3HandleConst_def)

section \<open>Conditions after a comparison\<close>

text \<open>The status flags x86 gives a subtraction, and a test of a value with itself.\<close>

definition sub_flags :: "int \<Rightarrow> int \<Rightarrow> int \<Rightarrow> x86_reg \<Rightarrow> bool" where
  "sub_flags b x y f =
     (let d = sgn_num b x - sgn_num b y
      in if f = x86_zf then (x - y) mod 2 ^ nat b = 0
         else if f = x86_cf then x < y
         else if f = x86_sf then 2 ^ nat (b - 1) \<le> (x - y) mod 2 ^ nat b
         else if f = x86_of then d < - (2 ^ nat (b - 1)) \<or> 2 ^ nat (b - 1) \<le> d
         else False)"

definition test_flags :: "int \<Rightarrow> int \<Rightarrow> x86_reg \<Rightarrow> bool" where
  "test_flags b x f = (if f = x86_zf then x = 0 else if f = x86_sf then 2 ^ nat (b - 1) \<le> x else False)"

lemma power_half: "0 < b \<Longrightarrow> (2 :: int) ^ nat b = 2 * 2 ^ nat (b - 1)"
  by (metis Suc_nat_eq_nat_zadd1 add.commute diff_add_cancel diff_ge_0_iff_ge int_one_le_iff_zero_less power_Suc)

lemma signed_overflow:
  fixes M :: int
  assumes "0 < M" "d < 2 * M" "- (2 * M) < d"
  shows "(M \<le> d mod (2 * M)) \<noteq> (d < - M \<or> M \<le> d) \<longleftrightarrow> d < 0"
proof (cases "0 \<le> d")
  case True
  then show ?thesis using assms by auto
next
  case False
  then have "d mod (2 * M) = (d + 2 * M) mod (2 * M)" by simp
  also have "\<dots> = d + 2 * M" using False assms by (intro mod_pos_pos_trivial) auto
  finally show ?thesis using False assms by auto
qed

lemma sub_flags_compare:
  assumes "0 < b" "0 \<le> x" "x < 2 ^ nat b" "0 \<le> y" "y < 2 ^ nat b"
  shows "sub_flags b x y x86_zf \<longleftrightarrow> x = y" "sub_flags b x y x86_cf \<longleftrightarrow> x < y"
    "(sub_flags b x y x86_sf \<noteq> sub_flags b x y x86_of) \<longleftrightarrow> sgn_num b x < sgn_num b y"
proof -
  let ?M = "(2 :: int) ^ nat (b - 1)" and ?d = "sgn_num b x - sgn_num b y"
  have two: "(2 :: int) ^ nat b = 2 * ?M" using power_half [OF assms(1)] .
  show "sub_flags b x y x86_zf \<longleftrightarrow> x = y"
    using assms(2-5) by (auto simp: sub_flags_def simp flip: mod_eq_dvd_iff dvd_eq_mod_eq_0)
  show "sub_flags b x y x86_cf \<longleftrightarrow> x < y" by (simp add: sub_flags_def)
  have m: "(x - y) mod (2 * ?M) = ?d mod (2 * ?M)"
    by (auto simp: sgn_num_def two mod_eq_dvd_iff)
  have r: "?d < 2 * ?M" "- (2 * ?M) < ?d" using assms(2-5) by (auto simp: sgn_num_def two)
  show "(sub_flags b x y x86_sf \<noteq> sub_flags b x y x86_of) \<longleftrightarrow> sgn_num b x < sgn_num b y"
    using signed_overflow [OF _ r] by (simp add: sub_flags_def Let_def two m)
qed

lemma sgn_num_eq: "0 < b \<Longrightarrow> 0 \<le> x \<Longrightarrow> x < 2 ^ nat b \<Longrightarrow> 0 \<le> y \<Longrightarrow> y < 2 ^ nat b \<Longrightarrow>
    sgn_num b x = sgn_num b y \<longleftrightarrow> x = y"
  using power_half [of b] by (auto simp: sgn_num_def)

text \<open>The comparison built for each condition of an ordering.\<close>

primrec cond_bin :: "flag_cond \<Rightarrow> binop" where
  "cond_bin CondAE = OpUge" | "cond_bin CondA = OpUgt" | "cond_bin CondBE = OpUle" | "cond_bin CondB = OpUlt"
| "cond_bin CondGE = OpSge" | "cond_bin CondG = OpSgt" | "cond_bin CondLE = OpSle" | "cond_bin CondL = OpSlt"
| "cond_bin CondE = OpAdd" | "cond_bin CondNE = OpAdd" | "cond_bin CondNS = OpAdd" | "cond_bin CondS = OpAdd"
| "cond_bin CondNO = OpAdd" | "cond_bin CondO = OpAdd"

definition orderings :: "flag_cond set" where
  "orderings = {CondAE, CondA, CondBE, CondB, CondGE, CondG, CondLE, CondL}"

lemma cond_of_last_ordering:
  "c \<in> orderings \<Longrightarrow> cond_of_last c (BinE b r l sz off) = Inr (Some (BinE (cond_bin c) r l sz off))"
  "c \<in> orderings \<Longrightarrow> op_of_bin (cond_bin c) \<in> set cmp_ops"
  by (auto simp: orderings_def cond_of_last_def cmp_of_id_def cmp_ops_def)

lemma ordering_holds:
  assumes "c \<in> orderings" "0 < b" "0 \<le> x" "x < 2 ^ nat b" "0 \<le> y" "y < 2 ^ nat b"
  shows "cmp_holds (op_of_bin (cond_bin c)) b x y = x86_cond c (sub_flags b x y)"
  using assms(1) sub_flags_compare [OF assms(2-6)] sgn_num_eq [OF assms(2-6)]
  by (auto simp: orderings_def)

lemma ordering_condition:
  assumes "z3_semantics ev A" "c \<in> orderings"
    and "translates A objs n r x" "translates A objs n l y" "bits_term ev b x" "bits_term ev b y"
  shows "\<exists>z. translates A objs (n + 2) (BinE (cond_bin c) r l sz off) z \<and>
    (\<forall>\<rho>. ev z \<rho> = Bl (cmp_holds (op_of_bin (cond_bin c)) b (bv_num (ev x \<rho>)) (bv_num (ev y \<rho>))))"
proof -
  obtain z where z: "z_bin A (op_of_bin (cond_bin c)) x y = Inr z"
    "\<forall>\<rho>. ev z \<rho> = Bl (cmp_holds (op_of_bin (cond_bin c)) b (bv_num (ev x \<rho>)) (bv_num (ev y \<rho>)))"
    using z3_cmp [OF assms(1) cond_of_last_ordering(2) [OF assms(2)] assms(5,6)] by blast
  have "translates A objs (n + 2) (BinE (cond_bin c) r l sz off) z"
    by (rule translates_mono [OF translates_BinE [OF assms(3,4) z(1)]]) simp
  then show ?thesis using z(2) by blast
qed

lemma zero_condition:
  assumes "z3_semantics ev A" "translates A objs n r x" "translates A objs n l y" "bits_term ev b x" "bits_term ev b y"
    and "(c, u) \<in> {(CondE, OpEqual), (CondNE, OpDistinct)}"
  shows "\<exists>z. translates A objs (n + 2) (UryE u (SubExpr r l) sz off) z \<and>
    (\<forall>\<rho>. ev z \<rho> = Bl (x86_cond c (sub_flags b (bv_num (ev x \<rho>)) (bv_num (ev y \<rho>)))))"
proof -
  obtain d where d: "z_bin A z_sub x y = Inr d"
    "\<forall>\<rho>. ev d \<rho> = BV b ((bv_num (ev x \<rho>) - bv_num (ev y \<rho>)) mod 2 ^ nat b)"
    using z3_sub [OF assms(1,4,5)] by blast
  have t: "translates A objs (Suc n) (SubExpr r l) d"
    unfolding mk_bin_def by (rule translates_BinE [OF assms(2,3)]) (simp add: d(1))
  have "bits_term ev b d" using d(2) assms(4) by (simp add: bits_term_def)
  note zero = z3_zero [OF assms(1) this]
  obtain z0 z1 where z: "z_un A z_eq_0 d = Inr z0" "\<forall>\<rho>. ev z0 \<rho> = Bl (bv_num (ev d \<rho>) = 0)"
    "z_un A z_ne_0 d = Inr z1" "\<forall>\<rho>. ev z1 \<rho> = Bl (bv_num (ev d \<rho>) \<noteq> 0)"
    using zero by blast
  have zf: "(bv_num (ev d \<rho>) = 0) = sub_flags b (bv_num (ev x \<rho>)) (bv_num (ev y \<rho>)) x86_zf" for \<rho>
    using d(2) by (simp add: sub_flags_def)
  have "translates A objs (n + 2) (UryE OpEqual (SubExpr r l) sz off) z0"
    "translates A objs (n + 2) (UryE OpDistinct (SubExpr r l) sz off) z1"
    using translates_ury(2) [OF t z(1)] translates_ury(3) [OF t z(3)] by simp_all
  moreover have "\<forall>\<rho>. ev z0 \<rho> = Bl (x86_cond CondE (sub_flags b (bv_num (ev x \<rho>)) (bv_num (ev y \<rho>))))"
    "\<forall>\<rho>. ev z1 \<rho> = Bl (x86_cond CondNE (sub_flags b (bv_num (ev x \<rho>)) (bv_num (ev y \<rho>))))"
    using z(2,4) by (simp_all add: zf)
  ultimately show ?thesis using assms(6) by blast
qed

lemma compare_condition:
  assumes "z3_semantics ev A" "c \<notin> {CondS, CondNS, CondNO, CondO}"
    and "translates A objs n r x" "translates A objs n l y" "bits_term ev b x" "bits_term ev b y"
  shows "\<exists>e z. cond_of_last c (SubExpr r l) = Inr (Some e) \<and> translates A objs (n + 2) e z \<and>
    (\<forall>\<rho>. ev z \<rho> = Bl (x86_cond c (sub_flags b (bv_num (ev x \<rho>)) (bv_num (ev y \<rho>)))))"
proof (cases "c \<in> orderings")
  case True
  have b: "0 < b" using assms(5) by (simp add: bits_term_def)
  have h: "cmp_holds (op_of_bin (cond_bin c)) b (bv_num (ev x \<rho>)) (bv_num (ev y \<rho>)) =
      x86_cond c (sub_flags b (bv_num (ev x \<rho>)) (bv_num (ev y \<rho>)))" for \<rho>
    by (rule ordering_holds [OF True b bits_val(2,3) [OF assms(5)] bits_val(2,3) [OF assms(6)]])
  show ?thesis
    using ordering_condition [OF assms(1) True assms(3-6), of "expr_size r" 0] cond_of_last_ordering(1) [OF True]
    unfolding h mk_bin_def by blast
next
  case False
  then have "c = CondE \<or> c = CondNE" using assms(2) by (cases c) (simp_all add: orderings_def)
  then show ?thesis
    using zero_condition [OF assms(1,3-6), of CondE OpEqual] zero_condition [OF assms(1,3-6), of CondNE OpDistinct]
    by (auto simp: cond_of_last_def simp del: x86_cond.simps)
qed

text \<open>The negation a condition gets when it is not executed.\<close>

lemma negated_condition:
  assumes "z3_semantics ev A" "translates A objs n e z" "\<forall>\<rho>. ev z \<rho> = Bl (P \<rho>)"
  shows "\<exists>w. translates A objs (Suc n) (UryE OpLNot e sz off) w \<and> (\<forall>\<rho>. ev w \<rho> = Bl (\<not> P \<rho>))"
proof -
  have "bool_term ev z" using assms(3) by (simp add: bool_term_def)
  then obtain w where "z_un A z_lnot z = Inr w" "\<forall>\<rho>. ev w \<rho> = Bl (ev z \<rho> \<noteq> Bl True)"
    using z3_lnot [OF assms(1)] by blast
  then have "translates A objs (Suc n) (UryE OpLNot e sz off) w" "\<forall>\<rho>. ev w \<rho> = Bl (\<not> P \<rho>)"
    using translates_ury(1) [OF assms(2)] assms(3) by simp_all
  then show ?thesis by blast
qed

section \<open>The objects met\<close>

text \<open>Every entry of symObjectsMap is the constant of its object.\<close>

definition sym_map_ok :: "'z z3api \<Rightarrow> objects \<Rightarrow> 'z sym_map \<Rightarrow> bool" where
  "sym_map_ok A objs mp \<longleftrightarrow> (\<forall>p z. mp p = Some z \<longrightarrow>
     (\<exists>ob. objs p = Some ob \<and> bv_const A (mo_name ob) (uint (mo_size ob) * 8) = Inr z))"

definition keeps :: "('z sym_map \<Rightarrow> bool) \<Rightarrow> 'z handling \<Rightarrow> bool" where
  "keeps P h \<longleftrightarrow> (\<forall>e mp z mp'. h e mp = Inr (z, mp') \<longrightarrow> P mp \<longrightarrow> P mp')"

lemma keepsD: "keeps P h \<Longrightarrow> h e mp = Inr (z, mp') \<Longrightarrow> P mp \<Longrightarrow> P mp'"
  unfolding keeps_def by blast

lemma operands_keep:
  assumes "keeps P h"
  shows "two_operands h f a b mp = Inr (z, mp') \<Longrightarrow> P mp \<Longrightarrow> P mp'"
    "one_operand h g a mp = Inr (z, mp') \<Longrightarrow> P mp \<Longrightarrow> P mp'"
    "concat_parts A h acc es mp = Inr (z, mp') \<Longrightarrow> P mp \<Longrightarrow> P mp'"
proof -
  show "two_operands h f a b mp = Inr (z, mp') \<Longrightarrow> P mp \<Longrightarrow> P mp'"
    by (auto simp: two_operands_def rbind_eq_Inr_iff dest!: keepsD [OF assms])
  show "one_operand h g a mp = Inr (z, mp') \<Longrightarrow> P mp \<Longrightarrow> P mp'"
    by (auto simp: one_operand_def rbind_eq_Inr_iff dest!: keepsD [OF assms])
  show "concat_parts A h acc es mp = Inr (z, mp') \<Longrightarrow> P mp \<Longrightarrow> P mp'"
    by (induction es arbitrary: acc mp) (auto simp: rbind_eq_Inr_iff dest!: keepsD [OF assms])
qed

lemma handle_node_keeps:
  assumes "keeps (sym_map_ok A objs) h"
  shows "keeps (sym_map_ok A objs) (handle_node A objs h)"
  unfolding keeps_def
proof (intro allI impI)
  fix e mp z mp'
  assume e: "handle_node A objs h e mp = Inr (z, mp')" and ok: "sym_map_ok A objs mp"
  note k = operands_keep [OF assms]
  show "sym_map_ok A objs mp'"
  proof (cases e)
    case (UDefE p sz off)
    then show ?thesis using e ok
      by (auto simp: Z3HandleUND_def rbind_eq_Inr_iff deref_eq_Inr_iff map_insert_def sym_map_ok_def
          split: option.splits if_splits)
  next
    case (ConstE v sz off)
    then show ?thesis using e ok by (auto simp: Z3HandleConst_def rbind_eq_Inr_iff)
  next
    case (BinE b r l sz off)
    then show ?thesis using e ok k(1) by (auto simp: handle_bin_eq split: if_splits)
  next
    case (UryE u a sz off)
    then show ?thesis using e ok k(2) by (cases u) (auto simp: handle_defs)
  next
    case (CombineE r l rsz lsz sz off)
    then show ?thesis using e ok k(1) by (auto simp: handle_defs)
  next
    case (ExtractE a s t sz off)
    then show ?thesis using e ok k(2) by (auto simp: handle_defs)
  next
    case (CombineMultiE es os ss sz off)
    then show ?thesis using e ok k(3)
      by (auto simp: Z3HandleCombineMulti_def rbind_eq_Inr_iff split: if_splits dest!: keepsD [OF assms])
  qed (use e in simp)
qed

lemma handling_keeps: "keeps (sym_map_ok A objs) (Z3HandlingExprPtr A objs n)"
proof (induction n)
  case 0
  show ?case by (simp add: keeps_def)
next
  case (Suc n)
  show ?case unfolding Z3HandlingExprPtr.simps by (rule handle_node_keeps [OF Suc])
qed

section \<open>Deciding by the seeds\<close>

lemma with_seed_mem: "with_seed objs ps = Inr qs \<Longrightarrow> p \<in> set qs \<Longrightarrow> p \<in> set ps \<and> (\<exists>ob. objs p = Some ob \<and> mo_has_seed ob)"
  by (induction ps arbitrary: qs) (auto simp: rbind_eq_Inr_iff deref_eq_Inr_iff split: if_splits)

lemma seed_loop_true:
  "seed_loop A objs mp ex ps ret = Inr True \<Longrightarrow> ret \<or> (\<exists>p ob s v. p \<in> set ps \<and> objs p = Some ob \<and> mp p = Some s \<and>
     bv_val A (seed_number ob) (uint (mo_size ob) * 8) = Inr v \<and> Z3ExpressionEvaluator A ex s v)"
proof (induction ps arbitrary: ret)
  case (Cons p ps)
  obtain ob where ob: "objs p = Some ob" using Cons.prems by (auto simp: rbind_eq_Inr_iff deref_eq_Inr_iff)
  show ?case
  proof (cases "mo_size ob \<in> {1, 2, 4, 8}")
    case True
    obtain v where v: "bv_val A (seed_number ob) (uint (mo_size ob) * 8) = Inr v"
      "seed_loop A objs mp ex ps (case mp p of None \<Rightarrow> ret | Some s \<Rightarrow> Z3ExpressionEvaluator A ex s v) = Inr True"
      using Cons.prems ob True by (auto simp: rbind_eq_Inr_iff simp del: seed_loop.simps(1))
    show ?thesis using Cons.IH [OF v(2)] ob v(1) by (auto split: option.splits)
  next
    case False
    then have "seed_loop A objs mp ex ps ret = Inr True" using Cons.prems ob by simp
    then show ?thesis using Cons.IH by fastforce
  qed
qed simp

lemma evaluator_sound:
  assumes "z3_semantics ev A" "bv_const A nm b = Inr s" "bv_val A k b = Inr v" "Z3ExpressionEvaluator A z s v"
    and "\<rho> (nm, b) = k mod 2 ^ nat b"
  shows "ev z \<rho> = Bl True"
proof -
  have "ev (z_substitute A z s v) \<rho> = Bl True"
    using assms(1,4) by (simp add: z3_semantics_def law_evaluate_def Z3ExpressionEvaluator_def)
  moreover have "ev (z_substitute A z s v) \<rho> = ev z (\<rho>((nm, b) := k mod 2 ^ nat b))"
    using assms(1-3) by (simp add: z3_semantics_def law_evaluate_def)
  moreover have "\<rho>((nm, b) := k mod 2 ^ nat b) = \<rho>" using assms(5) by (simp add: fun_upd_idem)
  ultimately show ?thesis by simp
qed

text \<open>A condition decided true is true wherever one object has its declared value.\<close>

definition seed_decides :: "objects \<Rightarrow> obj_ptr list \<Rightarrow> (valuation \<Rightarrow> bool) \<Rightarrow> bool" where
  "seed_decides objs syms P \<longleftrightarrow> (\<exists>p \<in> set syms. \<exists>ob. objs p = Some ob \<and> mo_has_seed ob \<and>
     (\<forall>\<rho>. \<rho> (mo_name ob, uint (mo_size ob) * 8) = seed_number ob mod 2 ^ nat (uint (mo_size ob) * 8) \<longrightarrow> P \<rho>))"

lemma concretize_true:
  assumes "z3_semantics ev A" "sym_map_ok A objs mp" "translates A objs n e z" "\<forall>\<rho>. ev z \<rho> = Bl (P \<rho>)"
    and "Z3SolveConcritize A objs n syms [e] mp = Inr (True, mp')"
  shows "seed_decides objs syms P"
proof -
  obtain m1 where m1: "Z3HandlingExprPtr A objs n e mp = Inr (z, m1)" using assms(3) by (auto simp: translates_def)
  have "bool_term ev z" "bool_term ev (bool_val A True)"
    using assms(1,4) by (auto simp: bool_term_def z3_semantics_def law_bools_def)
  then obtain w where w: "z_bin A z_and (bool_val A True) z = Inr w"
    "\<forall>\<rho>. ev w \<rho> = Bl (ev (bool_val A True) \<rho> = Bl True \<and> ev z \<rho> = Bl True)"
    using z3_and [OF assms(1)] by blast
  obtain ps where ps: "with_seed objs syms = Inr ps" "seed_loop A objs m1 w ps False = Inr True"
    using assms(5) m1 w(1) by (auto simp: Z3SolveConcritize_def rbind_eq_Inr_iff)
  obtain p ob s v where p: "p \<in> set ps" "objs p = Some ob" "m1 p = Some s"
    "bv_val A (seed_number ob) (uint (mo_size ob) * 8) = Inr v" "Z3ExpressionEvaluator A w s v"
    using seed_loop_true [OF ps(2)] by blast
  have "bv_const A (mo_name ob) (uint (mo_size ob) * 8) = Inr s"
    using keepsD [OF handling_keeps m1 assms(2)] p(2,3) unfolding sym_map_ok_def by fastforce
  note sound = evaluator_sound [OF assms(1) this p(4,5)]
  have "P \<rho>" if "\<rho> (mo_name ob, uint (mo_size ob) * 8) = seed_number ob mod 2 ^ nat (uint (mo_size ob) * 8)" for \<rho>
    using sound [of \<rho>] that w(2) assms(4) by simp
  moreover have "p \<in> set syms" "mo_has_seed ob" using with_seed_mem [OF ps(1) p(1)] p(2) by auto
  ultimately show ?thesis unfolding seed_decides_def using p(2) by blast
qed

section \<open>Concatenations\<close>

lemma bits_term_concat:
  assumes "bits_term ev a x" "bits_term ev b y" "\<forall>\<rho>. ev z \<rho> = BV (a + b) (bv_num (ev x \<rho>) * 2 ^ nat b + bv_num (ev y \<rho>))"
  shows "bits_term ev (a + b) z"
proof -
  have pos: "0 < a" "0 < b" using assms(1,2) by (auto simp: bits_term_def)
  have "bv_num (ev x \<rho>) * 2 ^ nat b + bv_num (ev y \<rho>) < 2 ^ nat (a + b)" for \<rho>
  proof -
    have "bv_num (ev x \<rho>) * 2 ^ nat b + bv_num (ev y \<rho>) < (bv_num (ev x \<rho>) + 1) * 2 ^ nat b"
      using bits_val(3) [OF assms(2), of \<rho>] by (simp add: algebra_simps)
    also have "\<dots> \<le> 2 ^ nat a * 2 ^ nat b"
      using bits_val(3) [OF assms(1), of \<rho>] by (intro mult_right_mono) simp_all
    finally show ?thesis using pos by (simp add: nat_add_distrib power_add)
  qed
  then show ?thesis using pos assms(3) bits_val(2) [OF assms(1)] bits_val(2) [OF assms(2)] by (simp add: bits_term_def)
qed

lemma concat_parts_value:
  assumes "z3_semantics ev A" "list_all2 (translates A objs n) es zs" "\<forall>z \<in> set zs. bits_term ev 8 z" "bits_term ev a acc"
  shows "\<exists>z. (\<forall>mp. \<exists>mp'. concat_parts A (Z3HandlingExprPtr A objs n) acc es mp = Inr (z, mp')) \<and>
    (\<forall>\<rho>. ev z \<rho> = BV (a + 8 * int (length zs)) (foldl (\<lambda>v w. v * 256 + bv_num (ev w \<rho>)) (bv_num (ev acc \<rho>)) zs))"
  using assms(2,3,4)
proof (induction es zs arbitrary: acc a rule: list_all2_induct)
  case Nil
  then show ?case using bits_val(1) by fastforce
next
  case (Cons e es x zs)
  obtain y where y: "z_bin A z_concat acc x = Inr y"
    "\<forall>\<rho>. ev y \<rho> = BV (a + 8) (bv_num (ev acc \<rho>) * 2 ^ nat 8 + bv_num (ev x \<rho>))"
    using z3_concat [OF assms(1)] Cons.prems by fastforce
  have "bits_term ev (a + 8) y" by (rule bits_term_concat [OF Cons.prems(2) _ y(2)]) (use Cons.prems in simp)
  then obtain z where z: "\<forall>mp. \<exists>mp'. concat_parts A (Z3HandlingExprPtr A objs n) y es mp = Inr (z, mp')"
    "\<forall>\<rho>. ev z \<rho> = BV (a + 8 + 8 * int (length zs)) (foldl (\<lambda>v w. v * 256 + bv_num (ev w \<rho>)) (bv_num (ev y \<rho>)) zs)"
    using Cons.IH [of "a + 8" y] Cons.prems by auto
  have "\<exists>mp'. concat_parts A (Z3HandlingExprPtr A objs n) acc (e # es) mp = Inr (z, mp')" for mp
  proof -
    obtain m1 where "Z3HandlingExprPtr A objs n e mp = Inr (x, m1)" using Cons.hyps(1) by (auto simp: translates_def)
    then show ?thesis using y(1) z(1) by simp
  qed
  moreover have "ev z \<rho> = BV (a + 8 * int (length (x # zs)))
      (foldl (\<lambda>v w. v * 256 + bv_num (ev w \<rho>)) (bv_num (ev acc \<rho>)) (x # zs))" for \<rho>
    using z(2) y(2) by (simp add: algebra_simps)
  ultimately show ?case by blast
qed

section \<open>Properties\<close>

text \<open>C28. The translation of an expression without an extension of the sign returns or throws, and from a
  depth above the nesting of the expression on the outcome does not depend on the depth.\<close>

theorem translation_returns:
  assumes "api_returns A" "\<not> has_sign_ext e"
  shows "\<exists>r. r \<noteq> Inl Diverges \<and> (\<forall>n > expr_depth e. Z3HandlingExprPtr A objs n e mp = r)"
proof (intro exI conjI allI impI)
  show r: "Z3HandlingExprPtr A objs (Suc (expr_depth e)) e mp \<noteq> Inl Diverges" by (rule handling_returns [OF assms]) simp
  show "Z3HandlingExprPtr A objs n e mp = Z3HandlingExprPtr A objs (Suc (expr_depth e)) e mp" if "expr_depth e < n" for n
    by (rule handling_mono [OF r]) (use that in simp)
qed

definition ex_objs :: objects where
  "ex_objs = [0 \<mapsto> \<lparr>mo_name = ''a'', mo_addr = 0x1000, mo_size = 4, mo_is_signed = False, mo_has_seed = True,
     mo_expr = UDefE (Some 0) 4 0, mo_val = Some 7\<rparr>]"

abbreviation ex_a :: expr where "ex_a \<equiv> UDefE (Some 0) 4 0"
abbreviation ex_5 :: expr where "ex_5 \<equiv> ConstE 5 4 0"

theorem translation_returns_witness:
  "\<exists>r. r \<noteq> Inl Diverges \<and> (\<forall>n > expr_depth (AddExpr ex_a ex_5).
     Z3HandlingExprPtr tree_api ex_objs n (AddExpr ex_a ex_5) Map.empty = r)"
  by (rule translation_returns [OF tree_returns]) (simp add: mk_bin_def)

text \<open>C39. No condition on a comparison whose first operand was extended by its sign, other than the four that only look at the sign
  or at overflow (s, ns, o, no), is ever decided or solved: translating the extension translates the same extension again, without end, unless Z3 throws on the other
  operand first.\<close>

theorem sign_extended_never_translated:
  assumes "c \<notin> {CondS, CondNS, CondNO, CondO}" "cond_of_last c (SubExpr (SignExtExpr e) l) = Inr (Some x)"
  shows "\<nexists>n mp r. Z3HandlingExprPtr A objs n x mp = Inr r"
proof -
  have d: "Z3HandlingExprPtr A objs n (SignExtExpr e) mp = Inl Diverges" for n mp
    unfolding mk_ury_def by (rule sign_ext_diverges)
  have two: "two_operands (Z3HandlingExprPtr A objs n) f (SignExtExpr e) l mp \<noteq> Inr r"
    "two_operands (Z3HandlingExprPtr A objs n) f l (SignExtExpr e) mp \<noteq> Inr r" for n f mp r
    using d by (auto simp: two_operands_def rbind_eq_Inr_iff)
  have "Z3HandlingExprPtr A objs n (BinE b (SignExtExpr e) l sz off) mp \<noteq> Inr r" for n b sz off mp r
    using two by (cases n) (auto simp: handle_bin_eq)
  moreover from this have "Z3HandlingExprPtr A objs n (UryE u (BinE b (SignExtExpr e) l sz off) sz' off') mp \<noteq> Inr r"
    if "u = OpEqual \<or> u = OpDistinct" for n u b sz off sz' off' mp r
    using that by (cases n) (auto simp: handle_defs one_operand_def rbind_eq_Inr_iff)
  ultimately show ?thesis
    using assms by (cases c) (auto simp: cond_of_last_def mk_bin_def cmp_of_id_def)
qed

theorem sign_extended_never_translated_witness:
  "\<nexists>n mp r. Z3HandlingExprPtr tree_api ex_objs n (UryE OpEqual (SubExpr (SignExtExpr ex_a) ex_5) 4 0) mp = Inr r"
  by (rule sign_extended_never_translated [of CondE ex_a ex_5]) (simp_all add: cond_of_last_def mk_bin_def mk_ury_def)

text \<open>C11. The condition a jump, move or set gets after a comparison, translated to Z3, holds under a valuation of
  the symbols exactly when the x86 condition holds for the flags of the subtraction of the operands'
  values, for every condition on zero and for all orderings, signed and unsigned; and its negation
  exactly when the condition does not.\<close>

theorem condition_after_compare:
  assumes "z3_semantics ev A" "c \<notin> {CondS, CondNS, CondNO, CondO}"
    and "translates A objs n r x" "translates A objs n l y" "bits_term ev b x" "bits_term ev b y"
  shows "\<exists>e z w. cond_of_last c (SubExpr r l) = Inr (Some e) \<and>
    translates A objs (n + 2) e z \<and> translates A objs (n + 3) (UryE OpLNot e (expr_size e) (expr_offset e)) w \<and>
    (\<forall>\<rho>. ev z \<rho> = Bl (x86_cond c (sub_flags b (bv_num (ev x \<rho>)) (bv_num (ev y \<rho>)))) \<and>
         ev w \<rho> = Bl (\<not> x86_cond c (sub_flags b (bv_num (ev x \<rho>)) (bv_num (ev y \<rho>)))))"
proof -
  obtain e z where z: "cond_of_last c (SubExpr r l) = Inr (Some e)" "translates A objs (n + 2) e z"
    "\<forall>\<rho>. ev z \<rho> = Bl (x86_cond c (sub_flags b (bv_num (ev x \<rho>)) (bv_num (ev y \<rho>))))"
    using compare_condition [OF assms] by blast
  have "Suc (n + 2) = n + 3" by simp
  then show ?thesis using negated_condition [OF assms(1) z(2,3), of "expr_size e" "expr_offset e"] z by metis
qed

lemma ex_terms:
  "translates tree_api ex_objs 1 ex_a (TConst ''a'' 32)" "translates tree_api ex_objs 1 ex_5 (TVal 5 32)"
  "bits_term tval 32 (TConst ''a'' 32)" "bits_term tval 32 (TVal 5 32)"
  using translates_UDef [of ex_objs 0 _ tree_api _ 0] translates_Const [of tree_api 5 4 _ ex_objs 0]
  by (auto simp: ex_objs_def tree_api_def bits_term_def)

theorem condition_after_compare_witness:
  "\<exists>e z w. cond_of_last CondL (SubExpr ex_a ex_5) = Inr (Some e) \<and>
    translates tree_api ex_objs (1 + 2) e z \<and>
    translates tree_api ex_objs (1 + 3) (UryE OpLNot e (expr_size e) (expr_offset e)) w \<and>
    (\<forall>\<rho>. tval z \<rho> = Bl (x86_cond CondL (sub_flags 32 (bv_num (tval (TConst ''a'' 32) \<rho>)) (bv_num (tval (TVal 5 32) \<rho>)))) \<and>
         tval w \<rho> = Bl (\<not> x86_cond CondL (sub_flags 32 (bv_num (tval (TConst ''a'' 32) \<rho>)) (bv_num (tval (TVal 5 32) \<rho>)))))"
  by (rule condition_after_compare [OF tree_semantics _ ex_terms]) simp

text \<open>After a test of a value with itself the conditions of the orderings are built as after a
  comparison of it with itself: less-or-equal always holds, though x86 refuses it for every positive
  value.\<close>

theorem less_or_equal_after_test:
  assumes "z3_semantics ev A" "translates A objs n r x" "bits_term ev b x"
  shows "\<exists>e z. cond_of_last CondLE (AndExpr r r) = Inr (Some e) \<and> translates A objs (n + 2) e z \<and>
    (\<forall>\<rho>. ev z \<rho> = Bl True \<and> (0 < sgn_num b (bv_num (ev x \<rho>)) \<longrightarrow> \<not> x86_cond CondLE (test_flags b (bv_num (ev x \<rho>)))))"
proof -
  have c: "CondLE \<in> orderings" by (simp add: orderings_def)
  obtain z where z: "translates A objs (n + 2) (BinE (cond_bin CondLE) r r (expr_size r) 0) z"
    "\<forall>\<rho>. ev z \<rho> = Bl (cmp_holds (op_of_bin (cond_bin CondLE)) b (bv_num (ev x \<rho>)) (bv_num (ev x \<rho>)))"
    using ordering_condition [OF assms(1) c assms(2,2,3,3)] by blast
  have "\<not> x86_cond CondLE (test_flags b (bv_num (ev x \<rho>)))" if "0 < sgn_num b (bv_num (ev x \<rho>))" for \<rho>
    using that bits_val(3) [OF assms(3), of \<rho>] by (auto simp: test_flags_def sgn_num_def split: if_splits)
  moreover have "ev z \<rho> = Bl True" for \<rho> using z(2) by simp
  moreover have "cond_of_last CondLE (AndExpr r r) = Inr (Some (BinE (cond_bin CondLE) r r (expr_size r) 0))"
    unfolding mk_bin_def by (rule cond_of_last_ordering(1) [OF c])
  ultimately show ?thesis using z(1) by blast
qed

theorem less_or_equal_after_test_witness:
  "\<exists>e z. cond_of_last CondLE (AndExpr ex_a ex_a) = Inr (Some e) \<and> translates tree_api ex_objs (1 + 2) e z \<and>
    (\<forall>\<rho>. tval z \<rho> = Bl True \<and> (0 < sgn_num 32 (bv_num (tval (TConst ''a'' 32) \<rho>)) \<longrightarrow>
       \<not> x86_cond CondLE (test_flags 32 (bv_num (tval (TConst ''a'' 32) \<rho>)))))"
  by (rule less_or_equal_after_test [OF tree_semantics ex_terms(1,3)])

text \<open>C27. A condition that is decided true under the seeds is true wherever a single object with a seed
  has its declared value, whatever the other symbols are: the seeds are substituted one at a time, so a
  condition that needs two of them is decided false.\<close>

theorem concretisation_is_by_one_seed:
  assumes "z3_semantics ev A" "sym_map_ok A objs mp" "translates A objs n e z" "\<forall>\<rho>. ev z \<rho> = Bl (P \<rho>)"
    and "Z3SolveConcritize A objs n syms [e] mp = Inr (d, mp')"
  shows "sym_map_ok A objs mp' \<and> (d \<longrightarrow> seed_decides objs syms P)"
proof -
  obtain m1 where m1: "Z3HandlingExprPtr A objs n e mp = Inr (z, m1)" using assms(3) by (auto simp: translates_def)
  then have "mp' = m1" using assms(5) by (auto simp: Z3SolveConcritize_def rbind_eq_Inr_iff)
  then show ?thesis using keepsD [OF handling_keeps m1 assms(2)] concretize_true [OF assms(1-4)] assms(5) by auto
qed

definition ex_cond :: expr where
  "ex_cond = BinE OpUgt ex_a ex_5 4 0"

theorem concretisation_is_by_one_seed_witness:
  "\<exists>mp'. Z3SolveConcritize tree_api ex_objs (Suc (Suc 0)) [0] [ex_cond] Map.empty = Inr (True, mp') \<and>
     sym_map_ok tree_api ex_objs mp' \<and> seed_decides ex_objs [0] (\<lambda>\<rho>. 5 < \<rho> (''a'', 32) mod 2 ^ 32)"
proof -
  obtain mp' where r: "Z3SolveConcritize tree_api ex_objs (Suc (Suc 0)) [0] [ex_cond] Map.empty = Inr (True, mp')"
    by (simp add: Z3SolveConcritize_def ex_cond_def ex_objs_def tree_api_def handle_defs two_operands_def Z3HandleUND_def Z3HandleConst_def map_insert_def seed_number_def Z3ExpressionEvaluator_def
        tsimplify_def)
  have "translates tree_api ex_objs (Suc (Suc 0)) ex_cond (TBin z_ugt (TConst ''a'' 32) (TVal 5 32))"
    unfolding ex_cond_def
    by (rule translates_BinE [OF ex_terms(1,2) [unfolded One_nat_def]]) (simp add: tree_api_def)
  then show ?thesis
    using concretisation_is_by_one_seed [OF tree_semantics _ _ _ r, where P = "\<lambda>\<rho>. 5 < \<rho> (''a'', 32) mod 2 ^ 32"] r
    by (auto simp: sym_map_ok_def)
qed

text \<open>A value read from several symbolic bytes is translated with the byte at the lowest address as the
  most significant one, the reverse of the order bytes have in memory.\<close>

theorem multi_combination_is_big_endian:
  assumes "z3_semantics ev A" "list_all2 (translates A objs n) es zs" "\<forall>z \<in> set zs. bits_term ev 8 z" "2 \<le> length es"
  shows "\<exists>z. translates A objs (Suc n) (CombineMultiE es os ss sz off) z \<and>
    (\<forall>\<rho>. ev z \<rho> = BV (8 * int (length zs)) (foldl (\<lambda>v w. v * 256 + bv_num (ev w \<rho>)) 0 zs))"
proof -
  obtain e es' x zs' where es: "es = e # es'" "zs = x # zs'" "translates A objs n e x" "list_all2 (translates A objs n) es' zs'"
    using assms(2,4) by (cases es) (auto simp: list_all2_Cons1)
  obtain z where z: "\<forall>mp. \<exists>mp'. concat_parts A (Z3HandlingExprPtr A objs n) x es' mp = Inr (z, mp')"
    "\<forall>\<rho>. ev z \<rho> = BV (8 + 8 * int (length zs')) (foldl (\<lambda>v w. v * 256 + bv_num (ev w \<rho>)) (bv_num (ev x \<rho>)) zs')"
    using concat_parts_value [OF assms(1) es(4), where a = 8 and acc = x] assms(3) es(2) by auto
  have "\<exists>mp'. handle_node A objs (Z3HandlingExprPtr A objs n) (CombineMultiE es os ss sz off) mp = Inr (z, mp')" for mp
  proof -
    obtain m1 where "Z3HandlingExprPtr A objs n e mp = Inr (x, m1)" using es(3) by (auto simp: translates_def)
    moreover have "\<not> length es < 2" using assms(4) by simp
    ultimately show ?thesis using z(1) es(1) by (simp add: Z3HandleCombineMulti_def del: length_Cons)
  qed
  then show ?thesis using z(2) es(2) by (auto simp: translates_def)
qed

theorem multi_combination_is_big_endian_witness:
  "\<exists>z. translates tree_api ex_objs (Suc 1) (CombineMultiE [ConstE 1 1 0, ConstE 2 1 0] [0, 1] [1, 1] 2 0) z \<and>
    (\<forall>\<rho>. tval z \<rho> = BV (8 * int (length [TVal 1 8, TVal 2 8]))
       (foldl (\<lambda>v w. v * 256 + bv_num (tval w \<rho>)) 0 [TVal 1 8, TVal 2 8]))"
  by (rule multi_combination_is_big_endian [OF tree_semantics])
    (auto simp: translates_def Z3HandleConst_def tree_api_def bits_term_def)

end
