(* ===== verification/Thin_Ctrl.thy ===== *)
theory Thin_Ctrl
  imports Con_Exec Z3_Handler
begin

text \<open>
  The thin control (class CThinCtrl of thinctrl.h and thinctrl.cpp): it steps through the code instruction by
  instruction, does returns, calls and branches itself, hands an instruction with a symbolic operand to the symbolic
  executor and every other one to the concrete executor. Parameters are the decoder, the interface of Z3
  and the processor.
\<close>

section \<open>State\<close>

record 'z tctx =
  tc_X :: ctx
  tc_api :: "'z z3api"
  tc_depth :: nat
  tc_decode :: "(u64 \<Rightarrow> u8) \<Rightarrow> u64 \<Rightarrow> dinstr"
  tc_low :: u64
  tc_high :: u64
  tc_host :: host \<comment> \<open>the processor the concrete executor runs on\<close>
  tc_hv :: hypervisor

abbreviation tc_D :: "'z tctx \<Rightarrow> dapi" where "tc_D K \<equiv> cx_D (tc_X K)"
abbreviation tc_N :: "'z tctx \<Rightarrow> entryID \<Rightarrow> nat" where "tc_N K \<equiv> cx_N (tc_X K)"

record 'z thin =
  t_vm :: VMState
  t_IOIs :: "InstrInfo list" \<comment> \<open>the list the symbolic executor keeps\<close>
  symObjectsMap :: "'z sym_map"
  m_InsnCache :: "u32 \<rightharpoonup> dinstr"
  m_NextIP :: "u64 \<rightharpoonup> u64"
  m_endRIP :: u64
  t_con :: conexec

abbreviation di_id :: "dinstr \<Rightarrow> entryID" where "di_id I \<equiv> in_id (di_instr I)"

text \<open>The structure pt_regs is the start of the array of words, which the code uses directly.\<close>

definition pt_reg :: "nat \<Rightarrow> VMState \<Rightarrow> u64 res" where
  "pt_reg i vm = arr_get (m_ArrRegs (m_CPU vm)) i"

definition set_pt_reg :: "nat \<Rightarrow> u64 \<Rightarrow> VMState \<Rightarrow> VMState res" where
  "set_pt_reg i v vm = rbind (poke_word (m_CPU vm) i (\<lambda>w. v)) (\<lambda>C. Inr (vm\<lparr>m_CPU := C\<rparr>))"

text \<open>So it does with memory: a word at an address, without a look at symbolic bytes.\<close>

definition raw_read :: "VMState \<Rightarrow> u64 \<Rightarrow> u64" where
  "raw_read vm a = get_bytes 8 a (phys (m_MEM vm))"

definition raw_write :: "VMState \<Rightarrow> u64 \<Rightarrow> u64 \<Rightarrow> VMState" where
  "raw_write vm a v = vm\<lparr>m_MEM := (m_MEM vm)\<lparr>phys := put_bytes 8 a v (phys (m_MEM vm))\<rparr>\<rparr>"

section \<open>Conditions\<close>

definition dependFlagCon :: "'z tctx \<Rightarrow> VMState \<Rightarrow> entryID \<Rightarrow> bool \<Rightarrow> (bool \<times> bool) res" where
  "dependFlagCon K vm i bChoice =
     (if isConditionalExecuteInstr (tc_N K) i then DependencyFlagConcreted (tc_N K) (tc_D K) (m_CPU vm) i bChoice
      else Inr (True, bChoice))"

text \<open>Whether a jump is not taken, from the word of flags and rcx; for a label not listed the answer is no, behind a vmcall.\<close>

fun jump_fails :: "hypervisor \<Rightarrow> jcc_id \<Rightarrow> u64 \<Rightarrow> u64 \<Rightarrow> bool res" where
  "jump_fails V e_jnbe fl rcx = Inr (bit fl 0 \<or> bit fl 6)"
| "jump_fails V e_jb fl rcx = Inr (\<not> bit fl 0)"
| "jump_fails V e_jnb fl rcx = Inr (bit fl 0)"
| "jump_fails V e_jnb_jae_j fl rcx = Inr (bit fl 0)"
| "jump_fails V e_jb_jnaej_j fl rcx = Inr (\<not> bit fl 0)"
| "jump_fails V e_jbe fl rcx = Inr (\<not> bit fl 0 \<and> \<not> bit fl 6)"
| "jump_fails V e_jz fl rcx = Inr (\<not> bit fl 6)"
| "jump_fails V e_jnz fl rcx = Inr (bit fl 6)"
| "jump_fails V e_jnp fl rcx = Inr (bit fl 2)"
| "jump_fails V e_jp fl rcx = Inr (\<not> bit fl 2)"
| "jump_fails V e_jcxz_jec fl rcx = Inr (rcx AND 0xffffffff \<noteq> 0)"
| "jump_fails V e_jnle fl rcx = Inr (bit fl 6 \<or> bit fl 7 \<noteq> bit fl 11)"
| "jump_fails V e_jnl fl rcx = Inr (bit fl 7 \<noteq> bit fl 11)"
| "jump_fails V e_jl fl rcx = Inr (bit fl 7 = bit fl 11)"
| "jump_fails V e_jle fl rcx = Inr (\<not> (bit fl 7 \<noteq> bit fl 11 \<or> bit fl 6))"
| "jump_fails V e_jno fl rcx = Inr (bit fl 11)"
| "jump_fails V e_jns fl rcx = Inr (bit fl 7)"
| "jump_fails V e_jo fl rcx = Inr (\<not> bit fl 11)"
| "jump_fails V e_js fl rcx = Inr (\<not> bit fl 7)"
| "jump_fails V j fl rcx = vmcall V None (Inr False)"

definition chkCondFail :: "hypervisor \<Rightarrow> entryID \<Rightarrow> u64 \<Rightarrow> u64 \<Rightarrow> bool res" where
  "chkCondFail V opera_id fl rcx =
     (case opera_id of Jcc j \<Rightarrow> jump_fails V j fl rcx | _ \<Rightarrow> vmcall V None (Inr False))"

text \<open>The objects declared, in the order of their hashes, and the verdict of the solver on a condition.\<close>

definition sym_objs :: "VMState \<Rightarrow> obj_ptr list" where
  "sym_objs vm = map (\<lambda>h. the (m_SYMemObjects vm h)) (sorted_list_of_set (dom (m_SYMemObjects vm)))"

definition thin_solve :: "'z tctx \<Rightarrow> 'z thin \<Rightarrow> expr list \<Rightarrow> (bool \<times> 'z sym_map) res" where
  "thin_solve K T es =
     Z3SolveConcritize (tc_api K) (mem_objs (t_vm T)) (tc_depth K) (sym_objs (t_vm T)) es (symObjectsMap T)"

definition solver_map :: "'z tctx \<Rightarrow> 'z thin \<Rightarrow> entryID \<Rightarrow> 'z sym_map" where
  "solver_map K T i =
     (case GetCondition (tc_N K) (m_EFlagsMgr (t_vm T)) i of
        Inr (Some e) \<Rightarrow> (case thin_solve K T [e] of Inr (b, mp) \<Rightarrow> mp | Inl f \<Rightarrow> symObjectsMap T)
      | _ \<Rightarrow> symObjectsMap T)"

definition eval_condition :: "'z tctx \<Rightarrow> 'z thin \<Rightarrow> entryID \<Rightarrow> ('z thin \<times> bool) res" where
  "eval_condition K T i =
     rbind (EvalCondition (tc_N K) (\<lambda>es. map_sum id fst (thin_solve K T es)) (m_EFlagsMgr (t_vm T)) i) (\<lambda>(E, b).
     Inr (T\<lparr>t_vm := (t_vm T)\<lparr>m_EFlagsMgr := E\<rparr>, symObjectsMap := solver_map K T i\<rparr>, b))"

definition concretise_flags :: "'z tctx \<Rightarrow> VMState \<Rightarrow> entryID \<Rightarrow> bool \<Rightarrow> VMState res" where
  "concretise_flags K vm i b =
     rbind (ConcreteFlag (tc_N K) (tc_D K) (m_CPU vm) i b) (\<lambda>(C, r). Inr (vm\<lparr>m_CPU := C\<rparr>))"

text \<open>The decision the flags manager derives from the flags is not used: they are looked at again.\<close>

definition updateJCCDecision :: "'z tctx \<Rightarrow> 'z thin \<Rightarrow> dinstr \<Rightarrow> ('z thin \<times> bool) res" where
  "updateJCCDecision K T I =
     rbind (dependFlagCon K (t_vm T) (di_id I) False) (\<lambda>(con, b).
     if \<not> con
     then rbind (eval_condition K T (di_id I)) (\<lambda>(T, b).
          rbind (concretise_flags K (t_vm T) (di_id I) b) (\<lambda>vm. Inr (T\<lparr>t_vm := vm\<rparr>, b)))
     else rbind (pt_reg EFL_PTRIDX (t_vm T)) (\<lambda>fl. rbind (pt_reg RCX_PTRIDX (t_vm T)) (\<lambda>rcx.
          rbind (chkCondFail (tc_hv K) (di_id I) fl rcx) (\<lambda>f. Inr (T, \<not> f)))))"

section \<open>Transfers of control\<close>

text \<open>Registers of a memory operand are bound until one is symbolic.\<close>

fun bindRegValForMemOpd ::
  "ctx \<Rightarrow> VMState \<Rightarrow> (u32 \<times> u32) list \<Rightarrow> bindings \<Rightarrow> (VMState \<times> bindings \<times> bool) res" where
  "bindRegValForMemOpd X vm [] env = Inr (vm, env, True)"
| "bindRegValForMemOpd X vm ((i, sz) # rs) env =
     rbind (vm_readRegister (cx_D X) vm (plain_reg i sz False)) (\<lambda>(vm, V, r).
     rassert r (if rv_bsym V then Inr (vm, env, False)
                else bindRegValForMemOpd X vm rs (bind_reg i sz (rv_i64 V) env)))"

definition dispatchRet :: "ctx \<Rightarrow> VMState \<Rightarrow> VMState res" where
  "dispatchRet X vm =
     rbind (vm_isSYReg (cx_D X) vm (reg_id (cx_D X) x86_rsp)) (\<lambda>b. rassert (\<not> b) (
     rbind (pt_reg RSP_PTRIDX vm) (\<lambda>sp.
     rbind (set_pt_reg RIP_PTRIDX (raw_read vm sp) vm) (set_pt_reg RSP_PTRIDX (sp + 8)))))"

text \<open>
  The target of a call or branch: computed from the address of the next instruction, or read from a register, or
  from memory. A call asserts that the cell in memory is not symbolic, a branch that it is.
\<close>

definition code_target :: "bool \<Rightarrow> ctx \<Rightarrow> VMState \<Rightarrow> dinstr \<Rightarrow> (VMState \<times> dinstr \<times> u64) res" where
  "code_target cell_sym X vm I =
     rassert (length (di_ops I) = 1) (
     let O1 = to_op (hd (di_ops I)) in
     if \<not> readsMemory O1
     then rbind (pt_reg RIP_PTRIDX vm) (\<lambda>ip.
          let env = (di_bound I)(reg_id (cx_D X) x86_rip \<mapsto> ip)
          in case od_eval O1 env of
               Some t \<Rightarrow> Inr (vm, I\<lparr>di_bound := env\<rparr>, t - in_size (di_instr I))
             | None \<Rightarrow> rassert (length (getReadSet O1) = 1) (
                 let (i, sz) = hd (getReadSet O1)
                 in rbind (vm_readRegister (cx_D X) vm (plain_reg i sz False)) (\<lambda>(vm, V, r).
                    rassert r (rassert (\<not> rv_bsym V) (Inr (vm, I\<lparr>di_bound := env\<rparr>, rv_i64 V))))))
     else rbind (bindRegValForMemOpd X vm (getReadSet O1) (di_bound I)) (\<lambda>(vm, env, noSymReg).
          rassert noSymReg (rassert (od_children O1 = 1) (
          rbind (eval_defined (od_addr O1 env)) (\<lambda>a.
          rbind (vm_readMemory vm \<lparr>mv_addr = a, mv_size = 8, mv_bsym = False, mv_isSymList = False, mv_i64 = 0,
                   mv_expr = None, mv_symcellPtr = None\<rparr>) (\<lambda>(vm, V, r).
          rassert r (rassert (mv_bsym V = cell_sym) (Inr (vm, I\<lparr>di_bound := env\<rparr>, mv_i64 V)))))))))"

text \<open>The address to return to is pushed, then the target becomes the instruction pointer.\<close>

definition dispatchCall :: "ctx \<Rightarrow> VMState \<Rightarrow> dinstr \<Rightarrow> (VMState \<times> dinstr) res" where
  "dispatchCall X vm I =
     rbind (code_target False X vm I) (\<lambda>(vm, I, t).
     rbind (pt_reg RSP_PTRIDX vm) (\<lambda>sp. rbind (pt_reg RIP_PTRIDX vm) (\<lambda>ip.
     rbind (set_pt_reg RSP_PTRIDX (sp - 8) vm) (\<lambda>vm.
     rbind (set_pt_reg RIP_PTRIDX t (raw_write vm (sp - 8) ip)) (\<lambda>vm. Inr (vm, I))))))"

definition dispatchBranch :: "'z tctx \<Rightarrow> 'z thin \<Rightarrow> dinstr \<Rightarrow> ('z thin \<times> dinstr) res" where
  "dispatchBranch K T I =
     rbind (code_target True (tc_X K) (t_vm T) I) (\<lambda>(vm, I, t).
     rbind (if di_fall I
            then rbind (updateJCCDecision K (T\<lparr>t_vm := vm\<rparr>) I) (\<lambda>(T, b).
                 if b then Inr (T, t) else rbind (pt_reg RIP_PTRIDX (t_vm T)) (\<lambda>ip. Inr (T, ip)))
            else Inr (T\<lparr>t_vm := vm\<rparr>, t)) (\<lambda>(T, t).
     rbind (set_pt_reg RIP_PTRIDX t (t_vm T)) (\<lambda>vm. Inr (T\<lparr>t_vm := vm\<rparr>, I))))"

section \<open>Symbolic operands\<close>

text \<open>
  The visitor binds every register of an expression that is not symbolic: a symbolic one keeps the
  value bound to it before, if there is one.
\<close>

fun visit_regs :: "ctx \<Rightarrow> VMState \<Rightarrow> (u32 \<times> u32) list \<Rightarrow> bindings \<Rightarrow> (VMState \<times> bindings) res" where
  "visit_regs X vm [] env = Inr (vm, env)"
| "visit_regs X vm ((i, sz) # rs) env =
     rbind (vm_readRegister (cx_D X) vm (plain_reg i sz False)) (\<lambda>(vm, V, r).
     rassert r (visit_regs X vm rs (if rv_bsym V then env else bind_reg i sz (rv_i64 V) env)))"

definition ref_symbolic ::
  "ctx \<Rightarrow> VMState \<Rightarrow> u64 \<Rightarrow> mem_ref \<Rightarrow> bindings \<Rightarrow> (VMState \<times> bindings \<times> bool) res" where
  "ref_symbolic X vm gs_base R env =
     rbind (visit_regs X vm (mr_regs R) env) (\<lambda>(vm, env).
     rbind (eval_defined (mr_eval R env)) (\<lambda>a.
     rbind (vm_isSYMemoryCell vm (with_gs a gs_base) (mr_size R)) (\<lambda>b. Inr (vm, env, b))))"

fun refs_symbolic ::
  "ctx \<Rightarrow> VMState \<Rightarrow> u64 \<Rightarrow> mem_ref list \<Rightarrow> bindings \<Rightarrow> (VMState \<times> bindings \<times> bool) res" where
  "refs_symbolic X vm gs_base [] env = Inr (vm, env, False)"
| "refs_symbolic X vm gs_base (R # Rs) env =
     rbind (ref_symbolic X vm gs_base R env) (\<lambda>(vm, env, b).
     if b then Inr (vm, env, True) else refs_symbolic X vm gs_base Rs env)"

text \<open>The cells an instruction reads and writes implicitly.\<close>

definition checkImplicitMemAccess ::
  "ctx \<Rightarrow> VMState \<Rightarrow> dinstr \<Rightarrow> bindings \<Rightarrow> (VMState \<times> bindings \<times> bool) res" where
  "checkImplicitMemAccess X vm I env =
     rbind (refs_symbolic X vm 0 (di_imp_rd I) env) (\<lambda>(vm, env, b).
     if b then Inr (vm, env, True) else refs_symbolic X vm 0 (di_imp_wr I) env)"

fun some_reg_symbolic :: "ctx \<Rightarrow> VMState \<Rightarrow> (u32 \<times> u32) list \<Rightarrow> bool res" where
  "some_reg_symbolic X vm [] = Inr False"
| "some_reg_symbolic X vm ((i, sz) # rs) =
     rbind (vm_isSYReg (cx_D X) vm i) (\<lambda>b. if b then Inr True else some_reg_symbolic X vm rs)"

definition OpdhasSymReg :: "ctx \<Rightarrow> VMState \<Rightarrow> operand \<Rightarrow> bool res" where
  "OpdhasSymReg X vm O1 =
     rbind (some_reg_symbolic X vm (getReadSet O1)) (\<lambda>b.
     if b then Inr True else some_reg_symbolic X vm (getWriteSet O1))"

text \<open>An operand that reads memory has one address it reads, one that writes it one it writes.\<close>

definition OpdhasSymMemCell ::
  "ctx \<Rightarrow> VMState \<Rightarrow> topnd \<Rightarrow> u64 \<Rightarrow> bindings \<Rightarrow> (VMState \<times> bindings \<times> bool) res" where
  "OpdhasSymMemCell X vm Q gs_base env =
     rbind (if readsMemory (to_op Q)
            then rassert (length (to_rd Q) = 1) (ref_symbolic X vm gs_base (hd (to_rd Q)) env)
            else Inr (vm, env, False)) (\<lambda>(vm, env, b).
     if b then Inr (vm, env, True)
     else if writesMemory (to_op Q)
     then rassert (length (to_wr Q) = 1) (ref_symbolic X vm gs_base (hd (to_wr Q)) env)
     else Inr (vm, env, False))"

fun operands_symbolic ::
  "ctx \<Rightarrow> VMState \<Rightarrow> dinstr \<Rightarrow> topnd list \<Rightarrow> bindings \<Rightarrow> (VMState \<times> bindings \<times> bool) res" where
  "operands_symbolic X vm I [] env = Inr (vm, env, False)"
| "operands_symbolic X vm I (Q # Qs) env =
     rbind (if \<not> readsMemory (to_op Q) \<and> \<not> writesMemory (to_op Q)
            then rbind (OpdhasSymReg X vm (to_op Q)) (\<lambda>b. Inr (vm, env, b))
            else rbind (thin_isUseGS X vm I) (\<lambda>(vm, gs_base). OpdhasSymMemCell X vm Q gs_base env)) (\<lambda>(vm, env, b).
     if b then Inr (vm, env, True) else operands_symbolic X vm I Qs env)"

definition hasSymOperand :: "ctx \<Rightarrow> VMState \<Rightarrow> dinstr \<Rightarrow> (VMState \<times> dinstr \<times> bool) res" where
  "hasSymOperand X vm I =
     rbind (operands_symbolic X vm I (di_ops I) (di_bound I)) (\<lambda>(vm, env, b).
     rbind (if b then Inr (vm, env, True) else checkImplicitMemAccess X vm I env) (\<lambda>(vm, env, b).
     Inr (vm, I\<lparr>di_bound := env\<rparr>, b)))"

text \<open>The memory addresses of operands, asked for ahead of the run: only the two asserts remain of it.\<close>

definition PreParseOperand :: "dinstr \<Rightarrow> bool res" where
  "PreParseOperand I =
     (if \<exists>Q \<in> set (di_ops I). (readsMemory (to_op Q) \<and> length (to_rd Q) \<noteq> 1) \<or>
         (writesMemory (to_op Q) \<and> length (to_wr Q) \<noteq> 1)
      then Inl AssertFail else Inr True)"

section \<open>The file of recorded targets\<close>

definition scan_pair :: "string \<Rightarrow> u64 option \<times> u64 option" where
  "scan_pair s =
     (case scan_llx s of
        None \<Rightarrow> (None, None)
      | Some (a, s1) \<Rightarrow> (Some a, if s1 \<noteq> [] \<and> hd s1 = CHR '','' then map_option fst (scan_llx (tl s1)) else None))"

text \<open>The key of the counter-th transfer, made at an address: its low half and, from bit 48 on, the counter.\<close>

definition next_key :: "u64 \<Rightarrow> u64 \<Rightarrow> u64" where
  "next_key addr counter = (addr AND 0xFFFFFFFF) OR push_bit 48 counter"

text \<open>The two variables of the loop keep the values of the line before when a scan stops early.\<close>

fun read_targets :: "string list \<Rightarrow> u64 option \<Rightarrow> u64 option \<Rightarrow> u64 \<Rightarrow> (u64 \<rightharpoonup> u64) \<Rightarrow> (u64 \<rightharpoonup> u64) res" where
  "read_targets [] crtRIP nextRIP counter m = Inr m"
| "read_targets (line # ls) crtRIP nextRIP counter m =
     (let (c, x) = scan_pair line;
          crtRIP = (if c \<noteq> None then c else crtRIP); nextRIP = (if x \<noteq> None then x else nextRIP)
      in case (crtRIP, nextRIP) of
           (Some a, Some t) \<Rightarrow> read_targets ls crtRIP nextRIP (counter + 1) (m(next_key a (counter + 1) \<mapsto> t))
         | _ \<Rightarrow> Inl Uninit)"

text \<open>The first line is the address where the analysis ends.\<close>

definition ReadNextIPFromFile :: "string list option \<Rightarrow> 'z thin \<Rightarrow> ('z thin \<times> bool) res" where
  "ReadNextIPFromFile file T =
     (case file of
        None \<Rightarrow> Inr (T, False)
      | Some ls \<Rightarrow>
          (case scan_llx (if ls = [] then [] else hd ls) of
             None \<Rightarrow> Inl Uninit
           | Some (e, s) \<Rightarrow> rbind (read_targets (tl ls) None None 0 (m_NextIP T)) (\<lambda>m.
               Inr (T\<lparr>m_endRIP := e, m_NextIP := m\<rparr>, True))))"

section \<open>Decoding\<close>

text \<open>Outside the region of code the pointer handed to the decoder is null.\<close>

definition decode_at :: "'z tctx \<Rightarrow> 'z thin \<Rightarrow> u64 \<Rightarrow> dinstr res" where
  "decode_at K T a =
     (if tc_low K \<le> a \<and> a < tc_high K then Inr (tc_decode K (phys (m_MEM (t_vm T))) a) else Inl NullDeref)"

text \<open>The index into the cache of instructions is the low 28 bits of the address.\<close>

definition insn_index :: "u64 \<Rightarrow> u32" where
  "insn_index a = ucast (a AND 0xFFFFFFF)"

definition cache_insn :: "u64 \<Rightarrow> dinstr \<Rightarrow> 'z thin \<Rightarrow> 'z thin" where
  "cache_insn a I T = T\<lparr>m_InsnCache := (m_InsnCache T)(insn_index a \<mapsto> I)\<rparr>"

definition fetch_insn :: "'z tctx \<Rightarrow> 'z thin \<Rightarrow> u64 \<Rightarrow> ('z thin \<times> dinstr) res" where
  "fetch_insn K T a =
     (case m_InsnCache T (insn_index a) of
        Some I \<Rightarrow> Inr (T, I)
      | None \<Rightarrow> rbind (decode_at K T a) (\<lambda>I. Inr (cache_insn a I T, I)))"

text \<open>
  The first loop of processFunction decodes along the recorded path. An address missing from the map reads 0.
\<close>

definition pre_step :: "'z tctx \<Rightarrow> u64 \<Rightarrow> u64 \<Rightarrow> 'z thin \<Rightarrow> ('z thin \<times> u64 \<times> u64) res" where
  "pre_step K a cf T =
     rbind (case m_InsnCache T (insn_index a) of
         Some I \<Rightarrow> Inr (T, I)
       | None \<Rightarrow> rbind (decode_at K T a) (\<lambda>I.
           rbind (PreParseOperand I) (\<lambda>r. Inr (cache_insn a I T, I)))) (\<lambda>(T, I).
     if di_cat I \<noteq> c_OtherInsn
     then let key = next_key a (cf + 1); v = (case m_NextIP T key of Some t \<Rightarrow> t | None \<Rightarrow> 0)
          in Inr (T\<lparr>m_NextIP := (m_NextIP T)(key \<mapsto> v)\<rparr>, v, cf + 1)
     else Inr (T, a + in_size (di_instr I), cf))"

fun pre_loop :: "nat \<Rightarrow> 'z tctx \<Rightarrow> u64 \<Rightarrow> u64 \<Rightarrow> 'z thin \<Rightarrow> 'z thin res" where
  "pre_loop 0 K a cf T = Inl Diverges"
| "pre_loop (Suc n) K a cf T =
     rbind (pre_step K a cf T) (\<lambda>(T, a, cf). if a = m_endRIP T then Inr T else pre_loop n K a cf T)"

section \<open>One instruction\<close>

definition sym_execute :: "'z tctx \<Rightarrow> 'z thin \<Rightarrow> dinstr \<Rightarrow> ('z thin \<times> dinstr) res" where
  "sym_execute K T I =
     rbind (thin_parseOperands (tc_X K) (t_vm T) I) (\<lambda>(vm, I, info).
     rbind (run (tc_X K) (pushInstr (t_IOIs T) info) vm) (\<lambda>(vm, is, r).
     Inr (T\<lparr>t_vm := vm, t_IOIs := is\<rparr>, I)))"

text \<open>
  An instruction that is no transfer. The last component says whether the test for the end of the
  run follows: a conditional instruction that is decided not to execute skips it.
\<close>

definition dispatch_other :: "'z tctx \<Rightarrow> 'z thin \<Rightarrow> dinstr \<Rightarrow> ('z thin \<times> dinstr \<times> bool) res" where
  "dispatch_other K T I =
     rbind (dependFlagCon K (t_vm T) (di_id I) False) (\<lambda>(con, b).
     if \<not> con
     then rbind (eval_condition K T (di_id I)) (\<lambda>(T, b).
          if \<not> b then Inr (T, I, False)
          else rbind (sym_execute K T I) (\<lambda>(T, I).
               rbind (concretise_flags K (t_vm T) (di_id I) b) (\<lambda>vm. Inr (T\<lparr>t_vm := vm\<rparr>, I, True))))
     else rbind (hasSymOperand (tc_X K) (t_vm T) I) (\<lambda>(vm, I, shouldSymExe).
          if shouldSymExe
          then rbind (sym_execute K (T\<lparr>t_vm := vm\<rparr>) I) (\<lambda>(T, I). Inr (T, I, True))
          else rbind (InsnDispatch (tc_host K) (tc_hv K) (t_con T) I vm) (\<lambda>(E, vm).
               rbind (if isFlagChangingInstr (tc_N K) (di_id I) then vm_clearAllSymFlag (tc_D K) vm else Inr vm) (\<lambda>vm.
               Inr (T\<lparr>t_vm := vm, t_con := E\<rparr>, I, True)))))"

text \<open>The recorded decision is looked up, which may enter one into the map, and then not used.\<close>

definition count_conditional :: "'z tctx \<Rightarrow> 'z thin \<Rightarrow> dinstr \<Rightarrow> u64 \<Rightarrow> u64 \<Rightarrow> 'z thin \<times> u64" where
  "count_conditional K T I a cc =
     (if isConditionalExecuteInstr (tc_N K) (di_id I)
      then (T\<lparr>t_vm := (t_vm T)\<lparr>m_EFlagsMgr := fst (findDecision (m_EFlagsMgr (t_vm T)) a (cc + 1))\<rparr>\<rparr>, cc + 1)
      else (T, cc))"

definition dispatch_insn :: "'z tctx \<Rightarrow> 'z thin \<Rightarrow> dinstr \<Rightarrow> ('z thin \<times> dinstr \<times> bool) res" where
  "dispatch_insn K T I =
     (case di_cat I of
        c_ReturnInsn \<Rightarrow> rbind (dispatchRet (tc_X K) (t_vm T)) (\<lambda>vm. Inr (T\<lparr>t_vm := vm\<rparr>, I, True))
      | c_CallInsn \<Rightarrow> rbind (dispatchCall (tc_X K) (t_vm T) I) (\<lambda>(vm, I). Inr (T\<lparr>t_vm := vm\<rparr>, I, True))
      | c_BranchInsn \<Rightarrow> rbind (dispatchBranch K T I) (\<lambda>(T, I). Inr (T, I, True))
      | c_OtherInsn \<Rightarrow> dispatch_other K T I)"

text \<open>One turn of the second loop: the instruction pointer moves on first.\<close>

definition thin_step :: "'z tctx \<Rightarrow> 'z thin \<Rightarrow> u64 \<Rightarrow> ('z thin \<times> u64 \<times> bool) res" where
  "thin_step K T cc =
     rbind (pt_reg RIP_PTRIDX (t_vm T)) (\<lambda>a.
     rbind (fetch_insn K T a) (\<lambda>(T, I).
     rbind (set_pt_reg RIP_PTRIDX (a + in_size (di_instr I)) (t_vm T)) (\<lambda>vm.
     if di_nop I then Inr (T\<lparr>t_vm := vm\<rparr>, cc, False)
     else let (T, cc) = count_conditional K (T\<lparr>t_vm := vm\<rparr>) I a cc
          in rbind (dispatch_insn K T I) (\<lambda>(T, I, chk). Inr (cache_insn a I T, cc, chk)))))"

fun thin_loop :: "nat \<Rightarrow> 'z tctx \<Rightarrow> u64 \<Rightarrow> 'z thin \<Rightarrow> u64 \<Rightarrow> 'z thin res" where
  "thin_loop 0 K term_rsp T cc = Inl Diverges"
| "thin_loop (Suc n) K term_rsp T cc =
     rbind (thin_step K T cc) (\<lambda>(T, cc, chk).
     rbind (pt_reg RSP_PTRIDX (t_vm T)) (\<lambda>sp.
     if chk \<and> term_rsp < sp then Inr T else thin_loop n K term_rsp T cc))"

definition processFunction :: "nat \<Rightarrow> 'z tctx \<Rightarrow> string list option \<Rightarrow> 'z thin \<Rightarrow> ('z thin \<times> bool) res" where
  "processFunction n K file T =
     rbind (pt_reg RSP_PTRIDX (t_vm T)) (\<lambda>term_rsp.
     rbind (ReadNextIPFromFile file T) (\<lambda>(T, ok).
     if \<not> ok then Inr (T, False)
     else rbind (pt_reg RIP_PTRIDX (t_vm T)) (\<lambda>ip.
          rbind (pre_loop n K ip 0 T) (\<lambda>T.
          rbind (thin_loop n K term_rsp T 0) (\<lambda>T. Inr (T, True))))))"

text \<open>One instruction on its own, run concretely: decoded afresh, not from the cache.\<close>

definition ExecOneInsn :: "'z tctx \<Rightarrow> 'z thin \<Rightarrow> u64 \<Rightarrow> ('z thin \<times> bool) res" where
  "ExecOneInsn K T a =
     rbind (decode_at K T a) (\<lambda>I. rbind (InsnDispatch (tc_host K) (tc_hv K) (t_con T) I (t_vm T)) (\<lambda>(E, vm). Inr (T\<lparr>t_vm := vm, t_con := E\<rparr>, True)))"

section \<open>The words the code uses directly\<close>

lemma pt_reg_ok: "length (m_ArrRegs (m_CPU vm)) = 32 \<Longrightarrow> i < 32 \<Longrightarrow> pt_reg i vm = Inr (m_ArrRegs (m_CPU vm) ! i)"
  by (simp add: pt_reg_def arr_get_def)

definition put_word :: "nat \<Rightarrow> u64 \<Rightarrow> VMState \<Rightarrow> VMState" where
  "put_word i v vm = vm\<lparr>m_CPU := (m_CPU vm)\<lparr>m_ArrRegs := (m_ArrRegs (m_CPU vm))[i := v]\<rparr>\<rparr>"

lemma set_pt_reg_ok: "length (m_ArrRegs (m_CPU vm)) = 32 \<Longrightarrow> i < 32 \<Longrightarrow> set_pt_reg i v vm = Inr (put_word i v vm)"
  by (simp add: set_pt_reg_def put_word_def poke_word_def arr_get_def)

lemma put_word_simps [simp]:
  "m_ArrRegs (m_CPU (put_word i v vm)) = (m_ArrRegs (m_CPU vm))[i := v]" "m_MEM (put_word i v vm) = m_MEM vm"
  "vm_cells (put_word i v vm) = vm_cells vm" "m_Regs (m_CPU (put_word i v vm)) = m_Regs (m_CPU vm)"
  "m_symList (m_CPU (put_word i v vm)) = m_symList (m_CPU vm)" "m_EFlagsMgr (put_word i v vm) = m_EFlagsMgr vm"
  "m_symBitmap (m_CPU (put_word i v vm)) = m_symBitmap (m_CPU vm)"
  by (simp_all add: put_word_def)

lemma raw_write_simps [simp]:
  "m_CPU (raw_write vm a v) = m_CPU vm" "vm_cells (raw_write vm a v) = vm_cells vm"
  "phys (m_MEM (raw_write vm a v)) = put_bytes 8 a v (phys (m_MEM vm))" "m_EFlagsMgr (raw_write vm a v) = m_EFlagsMgr vm"
  "raw_read (raw_write vm a v) a = v" "m_AllSymbolList (m_MEM (raw_write vm a v)) = m_AllSymbolList (m_MEM vm)"
  by (simp_all add: raw_write_def raw_read_def get_put_bytes take_bit_word_eq_self)

text \<open>Neither touches a symbolic byte, nor the invariant.\<close>

lemma word_bytes [simp]: "vm_bytes (put_word i v vm) = vm_bytes vm" "vm_bytes (raw_write vm a v) = vm_bytes vm"
proof -
  show "vm_bytes (put_word i v vm) = vm_bytes vm"
    by (rule ext, case_tac x) (simp_all add: vm_mem_def vm_word_def)
  show "vm_bytes (raw_write vm a v) = vm_bytes vm"
    by (rule ext, case_tac x) (simp_all add: vm_mem_def vm_word_def raw_write_def sym_at_def fun_eq_iff)
qed

lemma word_wf: "vm_wf vm \<Longrightarrow> vm_wf (put_word i v vm)" "vm_wf vm \<Longrightarrow> vm_wf (raw_write vm a v)"
  by (simp_all add: vm_wf_def vm_lists_def cpu_wf_def raw_write_def)

lemma vm_words: "vm_wf vm \<Longrightarrow> length (m_ArrRegs (m_CPU vm)) = 32"
  by (simp add: vm_wf_def cpu_wf_def)

section \<open>Conditional jumps\<close>

text \<open>Five labels of the table of conditions are missing in the switch over the flags.\<close>

definition unlisted_jumps :: "jcc_id set" where
  "unlisted_jumps = {e_ja, e_je, e_jg, e_jge, e_jne}"

lemma jump_fails_cond:
  assumes "jcc_cond j = Some c"
  shows "jump_fails V j fl rcx =
    (if j \<in> unlisted_jumps then vmcall V None (Inr False) else Inr (\<not> x86_cond c (\<lambda>f. bit fl (flag_pos f))))"
  using assms by (cases j) (auto simp: unlisted_jumps_def flag_pos_def flag_bits_def)

lemma switch_cond_jcc: "switch_cond (Jcc j) = jcc_cond j" "switch_cond_sbb (Jcc j) = jcc_cond j"
  by (simp_all add: switch_cond_sbb_def)

lemma decided_jump:
  assumes "cpu_flags (tc_D K) (m_CPU (t_vm T))" "isConditionalExecuteInstr (tc_N K) (Jcc j)" "di_id I = Jcc j" "jcc_cond j = Some c"
    and "\<forall>f \<in> set (needed_flags c). \<not> flag_sym (tc_D K) (m_CPU (t_vm T)) f"
  shows "updateJCCDecision K T I =
    (if j \<in> unlisted_jumps then vmcall (tc_hv K) None (Inr (T, True)) else Inr (T, x86_cond c (flag_val (m_CPU (t_vm T)))))"
proof -
  have "length (m_ArrRegs (m_CPU (t_vm T))) = 32" using assms(1) by (simp add: cpu_flags_def)
  note r = pt_reg_ok [OF this, of EFL_PTRIDX] pt_reg_ok [OF this, of RCX_PTRIDX]
  show ?thesis
    using DependencyFlagConcreted_view [OF assms(1,2), of c False] assms(2-5) r
    by (simp add: updateJCCDecision_def dependFlagCon_def switch_cond_jcc ptridx_defs chkCondFail_def jump_fails_cond vmcall_def flag_val_def [abs_def])
qed

lemma direct_target:
  assumes "length (di_ops I) = 1" "\<not> readsMemory (to_op (hd (di_ops I)))" "pt_reg RIP_PTRIDX vm = Inr ip"
    and "od_eval (to_op (hd (di_ops I))) ((di_bound I)(reg_id (cx_D X) x86_rip \<mapsto> ip)) = Some t"
  shows "code_target s X vm I =
    Inr (vm, I\<lparr>di_bound := (di_bound I)(reg_id (cx_D X) x86_rip \<mapsto> ip)\<rparr>, t - in_size (di_instr I))"
  using assms by (simp add: code_target_def Let_def)

text \<open>The instruction pointer after a jump that was decided, or not taken.\<close>

lemma branch_by_decision:
  assumes "code_target True (tc_X K) (t_vm T) I = Inr (vm, I', t)" "di_fall I'" "length (m_ArrRegs (m_CPU vm)) = 32"
    and "updateJCCDecision K (T\<lparr>t_vm := vm\<rparr>) I' = Inr (T', b)" "length (m_ArrRegs (m_CPU (t_vm T'))) = 32"
  shows "dispatchBranch K T I = Inr (T'\<lparr>t_vm := put_word RIP_PTRIDX
    (if b then t else m_ArrRegs (m_CPU (t_vm T')) ! RIP_PTRIDX) (t_vm T')\<rparr>, I')"
  using assms by (simp add: dispatchBranch_def set_pt_reg_ok pt_reg_ok RIP_PTRIDX_def)

section \<open>What reads leave\<close>

text \<open>Registers named by a read set are registers of the saved state.\<close>

definition saved_regs :: "dapi \<Rightarrow> (u32 \<times> u32) list \<Rightarrow> bool" where
  "saved_regs D rs \<longleftrightarrow> (\<forall>(i, sz) \<in> set rs. \<exists>r k. i = reg_id D r \<and> saved_reg r k sz)"

lemma read_plain_same:
  assumes "vm_ok D vm" "i = reg_id D r" "saved_reg r k sz" "vm_readRegister D vm (plain_reg i sz False) = Inr (vm', V, b)"
  shows "same_vm vm vm' \<and> b"
proof -
  have V: "rv_indx (plain_reg i sz False) = reg_id D r" "rv_size (plain_reg i sz False) = sz" "\<not> rv_isSymList (plain_reg i sz False)"
    using assms(2) by (simp_all add: plain_reg_def)
  have ok: "vm_wf vm" "dapi_ok D" "regs_ok D (m_CPU vm)" using assms(1) by (simp_all add: vm_ok_def)
  show ?thesis
    using vm_readRegister_view [OF ok assms(3) V] assms(4) same_vm_refl [OF ok(1)] by (auto split: if_splits)
qed

lemma same_vm_frame:
  assumes "same_vm vm vm'"
  shows "m_CPU vm' = m_CPU vm" "m_MEM vm' = m_MEM vm" "m_EFlagsMgr vm' = m_EFlagsMgr vm" "vm_bytes vm' = vm_bytes vm"
    "mem_objs vm' = mem_objs vm" "m_SYMemObjects vm' = m_SYMemObjects vm"
proof -
  obtain cs where "vm' = vm\<lparr>vm_cells := cs\<rparr>" using assms by (auto simp: same_vm_def)
  then show "m_CPU vm' = m_CPU vm" "m_MEM vm' = m_MEM vm" "m_EFlagsMgr vm' = m_EFlagsMgr vm"
    "mem_objs vm' = mem_objs vm" "m_SYMemObjects vm' = m_SYMemObjects vm" by simp_all
  have w: "\<forall>j < 32. vm_word vm' j = vm_word vm j" "vm_mem vm' = vm_mem vm" using assms by (simp_all add: same_vm_def)
  show "vm_bytes vm' = vm_bytes vm"
  proof (rule ext)
    fix x show "vm_bytes vm' x = vm_bytes vm x" using w by (cases x) simp_all
  qed
qed

lemma same_vm_okD: "vm_ok D vm \<Longrightarrow> same_vm vm vm' \<Longrightarrow> vm_ok D vm'"
  using same_vm_frame(1) [of vm vm'] by (simp add: vm_ok_def same_vm_def)

lemma bindRegs_same:
  assumes "bindRegValForMemOpd X vm rs env = Inr (vm', env', b)" "vm_ok (cx_D X) vm" "saved_regs (cx_D X) rs"
  shows "same_vm vm vm'"
  using assms
proof (induction rs arbitrary: vm env)
  case Nil
  then show ?case by (simp add: same_vm_refl vm_ok_def)
next
  case (Cons x rs)
  obtain i sz where x: "x = (i, sz)" by (cases x)
  obtain r k where r: "i = reg_id (cx_D X) r" "saved_reg r k sz" using Cons.prems(3) x by (auto simp: saved_regs_def)
  obtain v1 V b1 where 1: "vm_readRegister (cx_D X) vm (plain_reg i sz False) = Inr (v1, V, b1)"
    "(if rv_bsym V then Inr (v1, env, False) else bindRegValForMemOpd X v1 rs (bind_reg i sz (rv_i64 V) env)) = Inr (vm', env', b)"
    using Cons.prems(1) x by (auto simp: rbind_eq_Inr_iff rassert_eq_Inr_iff)
  have s: "same_vm vm v1" using read_plain_same [OF Cons.prems(2) r 1(1)] by simp
  show ?case
  proof (cases "rv_bsym V")
    case True
    then show ?thesis using 1(2) s by simp
  next
    case False
    then have "same_vm v1 vm'"
      using Cons.IH [of v1 "bind_reg i sz (rv_i64 V) env"] 1(2) same_vm_okD [OF Cons.prems(2) s] Cons.prems(3)
      by (simp add: saved_regs_def)
    then show ?thesis using same_vm_trans [OF s] by blast
  qed
qed

text \<open>The cell an operand in memory names, after its registers were bound.\<close>

definition cell_of :: "ctx \<Rightarrow> VMState \<Rightarrow> dinstr \<Rightarrow> u64 \<Rightarrow> bool" where
  "cell_of X vm I a \<longleftrightarrow> length (di_ops I) = 1 \<and> readsMemory (to_op (hd (di_ops I))) \<and> od_children (to_op (hd (di_ops I))) = 1 \<and>
     (\<exists>vm' env. bindRegValForMemOpd X vm (getReadSet (to_op (hd (di_ops I)))) (di_bound I) = Inr (vm', env, True) \<and>
        od_addr (to_op (hd (di_ops I))) env = Some a)"

definition cell_symbolic :: "VMState \<Rightarrow> u64 \<Rightarrow> u64 \<Rightarrow> bool" where
  "cell_symbolic vm a n \<longleftrightarrow> (\<exists>b \<in> byte_range a n. vm_mem vm b \<noteq> None)"

lemma signed_take_bit_63: "signed_take_bit 63 (v :: u64) = v"
proof (rule bit_word_eqI)
  fix n assume n: "n < LENGTH(64)"
  then have "min n 63 = n" by simp
  then show "bit (signed_take_bit 63 v) n = bit v n" using n by (simp add: bit_signed_take_bit_iff min.commute)
qed

lemma code_target_cell:
  assumes "vm_ok (cx_D X) vm" "cell_of X vm I a" "mem_range a 8" "saved_regs (cx_D X) (getReadSet (to_op (hd (di_ops I))))"
  shows "if cell_symbolic vm a 8 = s
    then \<exists>vm' env. code_target s X vm I = Inr (vm', I\<lparr>di_bound := env\<rparr>, raw_read vm a) \<and> same_vm vm vm'
    else code_target s X vm I = Inl AssertFail"
proof -
  obtain v1 env where b: "bindRegValForMemOpd X vm (getReadSet (to_op (hd (di_ops I)))) (di_bound I) = Inr (v1, env, True)"
    "od_addr (to_op (hd (di_ops I))) env = Some a" using assms(2) by (auto simp: cell_of_def)
  have s1: "same_vm vm v1" by (rule bindRegs_same [OF b(1) assms(1,4)])
  have ok: "vm_wf v1" using s1 by (simp add: same_vm_def)
  let ?v = "\<lparr>mv_addr = a, mv_size = 8, mv_bsym = False, mv_isSymList = False, mv_i64 = 0, mv_expr = None, mv_symcellPtr = None\<rparr>"
  have sb: "signed_take_bit 63 (get_bytes 8 a (phys (m_MEM v1))) = raw_read vm a"
    using same_vm_frame(2) [OF s1] by (simp add: raw_read_def signed_take_bit_63)
  have m: "vm_mem v1 = vm_mem vm" using s1 by (simp add: same_vm_def)
  obtain v2 V where r: "vm_readMemory v1 ?v = Inr (v2, V, True)" "mv_bsym V = cell_symbolic vm a 8" "mv_i64 V = raw_read vm a"
    "same_vm v1 v2"
  proof (cases "cell_symbolic vm a 8")
    case True
    then show ?thesis using vm_readMemory_view [OF ok, of ?v] assms(3) that sb by (auto simp: cell_symbolic_def m)
  next
    case False
    then show ?thesis using vm_readMemory_view [OF ok, of ?v] assms(3) that sb same_vm_refl [OF ok] by (auto simp: cell_symbolic_def m)
  qed
  then show ?thesis using assms(2) b same_vm_trans [OF s1 r(4)]
    by (auto simp: code_target_def cell_of_def Let_def eval_defined_def)
qed

section \<open>Calls and returns\<close>

text \<open>The operand of a call or branch names registers of the saved state and, in memory, a cell the analyser can hold.\<close>

definition target_placed :: "ctx \<Rightarrow> VMState \<Rightarrow> dinstr \<Rightarrow> bool" where
  "target_placed X vm I \<longleftrightarrow> (\<forall>Q \<in> set (di_ops I). saved_regs (cx_D X) (getReadSet (to_op Q))) \<and>
     (\<forall>a. cell_of X vm I a \<longrightarrow> mem_range a 8)"

lemma code_target_same:
  assumes "code_target s X vm I = Inr (vm', I', t)" "vm_ok (cx_D X) vm" "target_placed X vm I"
  shows "same_vm vm vm'"
proof -
  obtain Q where Q: "di_ops I = [Q]" using assms(1) by (auto simp: code_target_def rassert_eq_Inr_iff length_Suc_conv)
  have sr: "saved_regs (cx_D X) (getReadSet (to_op (hd (di_ops I))))" using assms(3) Q by (simp add: target_placed_def)
  show ?thesis
  proof (cases "readsMemory (to_op Q)")
    case True
    then obtain v1 env b a where "bindRegValForMemOpd X vm (getReadSet (to_op Q)) (di_bound I) = Inr (v1, env, b)" "b"
      "od_children (to_op Q) = 1" "od_addr (to_op Q) env = Some a"
      using assms(1) Q unfolding code_target_def Let_def
      by (auto simp: rassert_eq_Inr_iff rbind_eq_Inr_iff eval_defined_def split: option.splits)
    then have a: "cell_of X vm I a" using Q True by (auto simp: cell_of_def)
    then have "mem_range a 8" using assms(3) by (simp add: target_placed_def)
    from code_target_cell [OF assms(2) a this sr, of s] assms(1) show ?thesis by (auto split: if_splits)
  next
    case False
    obtain ip where ip: "pt_reg RIP_PTRIDX vm = Inr ip" using assms(1) Q False by (auto simp: code_target_def Let_def rbind_eq_Inr_iff)
    show ?thesis
    proof (cases "od_eval (to_op Q) ((di_bound I)(reg_id (cx_D X) x86_rip \<mapsto> ip))")
      case (Some t)
      then show ?thesis using direct_target [of I vm ip X t s] assms(1,2) Q False ip same_vm_refl by (simp add: vm_ok_def)
    next
      case None
      obtain i sz where x: "getReadSet (to_op Q) = [(i, sz)]"
        using assms(1) Q False ip None by (auto simp: code_target_def Let_def rassert_eq_Inr_iff length_Suc_conv)
      then obtain r k where r: "i = reg_id (cx_D X) r" "saved_reg r k sz" using sr Q by (auto simp: saved_regs_def)
      obtain V b where "vm_readRegister (cx_D X) vm (plain_reg i sz False) = Inr (vm', V, b)"
        using assms(1) Q False ip None x by (auto simp: code_target_def Let_def rassert_eq_Inr_iff rbind_eq_Inr_iff)
      then show ?thesis using read_plain_same [OF assms(2) r] by blast
    qed
  qed
qed

lemma isSYReg_view:
  assumes "vm_ok D vm" "saved_reg r i sz"
  shows "vm_isSYReg D vm (reg_id D r) = Inr (\<exists>k. 0 \<le> k \<and> k < int (unat sz) \<and> vm_word vm i k \<noteq> None)"
proof -
  have ok: "cpu_wf (vm_cells vm) (m_CPU vm)" "dapi_ok D" "regs_ok D (m_CPU vm)" using assms(1) by (simp_all add: vm_ok_def vm_wf_def)
  obtain R where R: "idxToReg (m_CPU vm) (reg_id D r) = Inr R" "slot R = i" "RegToSubIndex D R = Inr (part_of sz)"
    by (rule reg_found [OF ok(2,3) assms(2)])
  show ?thesis
    using isSYReg_part_ok [OF ok(1), of R sz] saved_reg_size [OF assms(2)] R
    by (auto simp: vm_isSYReg_def isSYReg_def vm_word_def)
qed

lemma saved_rsp: "saved_reg x86_rsp RSP_PTRIDX 8"
  by (simp add: saved_reg_def DyinstEncoding_def regs_64_def ptridx_defs PTREGS_REG_TOTAL_def)

lemma put_word_ok: "vm_ok D vm \<Longrightarrow> vm_ok D (put_word i v vm)" "vm_ok D vm \<Longrightarrow> vm_ok D (raw_write vm a v)"
  using word_wf [of vm] regs_ok_cong [of "m_CPU (put_word i v vm)" "m_CPU vm" D] by (simp_all add: vm_ok_def)

lemma dispatchRet_ok:
  assumes "vm_ok (cx_D X) vm" "\<forall>k. 0 \<le> k \<and> k < 8 \<longrightarrow> vm_bytes vm (InWord RSP_PTRIDX k) = None"
  shows "dispatchRet X vm = Inr (put_word RSP_PTRIDX (m_ArrRegs (m_CPU vm) ! RSP_PTRIDX + 8)
    (put_word RIP_PTRIDX (raw_read vm (m_ArrRegs (m_CPU vm) ! RSP_PTRIDX)) vm))"
proof -
  have l: "length (m_ArrRegs (m_CPU vm)) = 32" using assms(1) by (simp add: vm_ok_def vm_words)
  have "vm_isSYReg (cx_D X) vm (reg_id (cx_D X) x86_rsp) = Inr False"
    using isSYReg_view [OF assms(1) saved_rsp] assms(2) by (auto simp: RSP_PTRIDX_def)
  then show ?thesis using l by (simp add: dispatchRet_def pt_reg_ok set_pt_reg_ok ptridx_defs)
qed

lemma dispatchCall_ok:
  assumes "code_target False X vm I = Inr (v1, I', t)" "length (m_ArrRegs (m_CPU v1)) = 32"
  shows "dispatchCall X vm I = Inr (put_word RIP_PTRIDX t (raw_write (put_word RSP_PTRIDX (m_ArrRegs (m_CPU v1) ! RSP_PTRIDX - 8) v1)
    (m_ArrRegs (m_CPU v1) ! RSP_PTRIDX - 8) (m_ArrRegs (m_CPU v1) ! RIP_PTRIDX)), I')"
  using assms by (simp add: dispatchCall_def pt_reg_ok set_pt_reg_ok ptridx_defs)

text \<open>C16. A call whose target could be determined pushes the address of the next instruction; if the
  stack pointer is not symbolic, a return right after it restores all registers. Neither
  changes which bytes are symbolic: when the cell pushed to was symbolic, it still is, although it was overwritten.\<close>

theorem return_after_call:
  assumes "vm_ok (cx_D X) vm" "target_placed X vm I" "dispatchCall X vm I = Inr (vm', I')"
    and "\<forall>k. 0 \<le> k \<and> k < 8 \<longrightarrow> vm_bytes vm (InWord RSP_PTRIDX k) = None"
  shows "\<exists>vm''. dispatchRet X vm' = Inr vm'' \<and> m_ArrRegs (m_CPU vm'') = m_ArrRegs (m_CPU vm) \<and>
    phys (m_MEM vm'') = put_bytes 8 (m_ArrRegs (m_CPU vm) ! RSP_PTRIDX - 8) (m_ArrRegs (m_CPU vm) ! RIP_PTRIDX) (phys (m_MEM vm)) \<and>
    vm_bytes vm' = vm_bytes vm \<and> vm_bytes vm'' = vm_bytes vm \<and> vm_ok (cx_D X) vm''"
proof -
  obtain v1 I1 t where t: "code_target False X vm I = Inr (v1, I1, t)" using assms(3) by (auto simp: dispatchCall_def rbind_eq_Inr_iff)
  note s = code_target_same [OF t assms(1,2)]
  note f = same_vm_frame [OF s] and ok = same_vm_okD [OF assms(1) s]
  have l: "length (m_ArrRegs (m_CPU v1)) = 32" using ok by (simp add: vm_ok_def vm_words)
  let ?sp = "m_ArrRegs (m_CPU vm) ! RSP_PTRIDX" and ?ip = "m_ArrRegs (m_CPU vm) ! RIP_PTRIDX"
  have v': "vm' = put_word RIP_PTRIDX t (raw_write (put_word RSP_PTRIDX (?sp - 8) v1) (?sp - 8) ?ip)"
    using dispatchCall_ok [OF t l] assms(3) f(1) by simp
  have ok': "vm_ok (cx_D X) vm'" unfolding v' by (intro put_word_ok ok)
  have b': "vm_bytes vm' = vm_bytes vm" unfolding v' using f(4) by simp
  have sp: "m_ArrRegs (m_CPU vm') ! RSP_PTRIDX = ?sp - 8" unfolding v' using l f(1) by (simp add: ptridx_defs)
  have rd: "raw_read vm' (?sp - 8) = ?ip" unfolding v' by (simp add: raw_read_def get_put_bytes take_bit_word_eq_self)
  have "dispatchRet X vm' = Inr (put_word RSP_PTRIDX ?sp (put_word RIP_PTRIDX ?ip vm'))"
    using dispatchRet_ok [OF ok'] assms(4) b' sp rd by simp
  moreover have "m_ArrRegs (m_CPU (put_word RSP_PTRIDX ?sp (put_word RIP_PTRIDX ?ip vm'))) = m_ArrRegs (m_CPU vm)"
    unfolding v' using l f(1) by (simp add: ptridx_defs list_eq_iff_nth_eq nth_list_update)
  moreover have "phys (m_MEM vm') = put_bytes 8 (?sp - 8) ?ip (phys (m_MEM vm))" unfolding v' using f(2) by simp
  ultimately show ?thesis using b' put_word_ok(1) [OF put_word_ok(1) [OF ok']] by (intro exI [of _ "put_word RSP_PTRIDX ?sp (put_word RIP_PTRIDX ?ip vm')"]) simp
qed

definition ex_operand :: "bool \<Rightarrow> (bindings \<Rightarrow> u64 option) \<Rightarrow> topnd" where
  "ex_operand mem ev = \<lparr>to_op = \<lparr>od_size = 8, readsMemory = mem, writesMemory = False, isRead = True, isWritten = False,
     getReadSet = [], getWriteSet = [], od_children = 1, od_eval = ev, od_addr = \<lambda>env. Some 0x2000\<rparr>, to_binary = False,
     to_isAdd = False, to_children = [], to_rd = [\<lparr>mr_regs = [], mr_size = 8, mr_eval = \<lambda>env. Some 0x2000\<rparr>], to_wr = []\<rparr>"

definition ex_insn :: "entryID \<Rightarrow> insn_category \<Rightarrow> bool \<Rightarrow> topnd list \<Rightarrow> dinstr" where
  "ex_insn i cat fall ops = \<lparr>di_instr = ex_instr i [], di_cat = cat, di_nop = False, di_fall = fall, di_ops = ops,
     di_imp_rd = [], di_imp_wr = [], di_isRead = [], di_isWritten = [], di_bound = Map.empty\<rparr>"

text \<open>A relative transfer: its target is counted from the next instruction, and Dyninst adds the size once more.\<close>

definition ex_rel :: topnd where
  "ex_rel = ex_operand False (\<lambda>env. map_option (\<lambda>ip. ip + 0x24) (env (reg_id ex_dapi x86_rip)))"

lemma ex_vm_cpu: "m_CPU ex_vm = snd ex_cpu" "phys (m_MEM ex_vm) = (\<lambda>a. 0)"
  by (simp_all add: ex_vm_def new_VMState_def new_EFlagsManager_def ReadAddrBoolMapFromFile_def split_beta Let_def
      ex_cpu_def new_SYMemState_def empty_store_def)

lemma ex_words: "m_ArrRegs (m_CPU ex_vm) = replicate 32 0"
  by (simp add: ex_vm_cpu ex_cpu_def new_SYCPUState_def split_beta Let_def)

lemma ex_no_marks: "\<not> flag_sym ex_dapi (m_CPU ex_vm) f"
  by (auto simp: ex_vm_cpu ex_cpu_def new_SYCPUState_def split_beta Let_def flag_sym_def dest!: map_of_SomeD)

lemma ex_rel_target:
  "code_target s ex_ctx ex_vm (ex_insn i cat fall [ex_rel]) =
     Inr (ex_vm, (ex_insn i cat fall [ex_rel])\<lparr>di_bound := [reg_id ex_dapi x86_rip \<mapsto> 0]\<rparr>, 0x20)"
proof -
  have "pt_reg RIP_PTRIDX ex_vm = Inr 0" using pt_reg_ok [of ex_vm RIP_PTRIDX] by (simp add: ex_words ptridx_defs)
  from direct_target [OF _ _ this, of "ex_insn i cat fall [ex_rel]" ex_ctx "0x24" s] show ?thesis
    by (simp add: ex_insn_def ex_rel_def ex_operand_def ex_ctx_def ex_instr_def)
qed

theorem return_after_call_witness:
  "\<exists>vm' I' vm''. dispatchCall ex_ctx ex_vm (ex_insn (other_id 0) c_CallInsn False [ex_rel]) = Inr (vm', I') \<and>
    dispatchRet ex_ctx vm' = Inr vm'' \<and> m_ArrRegs (m_CPU vm'') = m_ArrRegs (m_CPU ex_vm)"
proof -
  have p: "target_placed ex_ctx ex_vm (ex_insn (other_id 0) c_CallInsn False [ex_rel])"
    by (simp add: target_placed_def saved_regs_def cell_of_def ex_insn_def ex_rel_def ex_operand_def)
  have l: "length (m_ArrRegs (m_CPU ex_vm)) = 32" by (simp add: ex_words)
  show ?thesis
    using return_after_call [OF ex_operands(8) p dispatchCall_ok [OF ex_rel_target l]] dispatchCall_ok [OF ex_rel_target l] ex_vm_ok(2) by auto
qed

section \<open>Jumps\<close>

text \<open>C17. A conditional jump to a fixed place, none of whose flags is symbolic, is taken exactly when the condition
  of x86 holds on the flags, and changes nothing but the instruction pointer. For the five labels the switch
  does not list (ja, je, jg, jge, jne) it issues a vmcall; if the hypervisor returns from it, the jump is taken
  whatever the flags are.\<close>

theorem direct_jump_follows_flags:
  assumes "cpu_flags (tc_D K) (m_CPU (t_vm T))" "isConditionalExecuteInstr (tc_N K) (Jcc j)" "di_id I = Jcc j" "jcc_cond j = Some c"
    and "\<forall>f \<in> set (needed_flags c). \<not> flag_sym (tc_D K) (m_CPU (t_vm T)) f" "di_fall I"
    and "length (di_ops I) = 1" "\<not> readsMemory (to_op (hd (di_ops I)))" "m_ArrRegs (m_CPU (t_vm T)) ! RIP_PTRIDX = ip"
    and "od_eval (to_op (hd (di_ops I))) ((di_bound I)(reg_id (tc_D K) x86_rip \<mapsto> ip)) = Some t"
  shows "dispatchBranch K T I =
    (if j \<in> unlisted_jumps \<and> \<not> tc_hv K None then Inl Vmcall
     else Inr (T\<lparr>t_vm := put_word RIP_PTRIDX
         (if j \<in> unlisted_jumps \<or> x86_cond c (flag_val (m_CPU (t_vm T))) then t - in_size (di_instr I) else ip) (t_vm T)\<rparr>,
       I\<lparr>di_bound := (di_bound I)(reg_id (tc_D K) x86_rip \<mapsto> ip)\<rparr>))"
proof -
  have l: "length (m_ArrRegs (m_CPU (t_vm T))) = 32" using assms(1) by (simp add: cpu_flags_def)
  have "pt_reg RIP_PTRIDX (t_vm T) = Inr ip" using pt_reg_ok [OF l, of RIP_PTRIDX] assms(9) by (simp add: RIP_PTRIDX_def)
  note t = direct_target [OF assms(7,8) this assms(10), of True]
  let ?I = "I\<lparr>di_bound := (di_bound I)(reg_id (tc_D K) x86_rip \<mapsto> ip)\<rparr>"
  have d: "updateJCCDecision K T ?I =
    (if j \<in> unlisted_jumps then vmcall (tc_hv K) None (Inr (T, True)) else Inr (T, x86_cond c (flag_val (m_CPU (t_vm T)))))"
    using decided_jump [OF assms(1,2) _ assms(4,5), of ?I] assms(3) by simp
  show ?thesis
  proof (cases "j \<in> unlisted_jumps")
    case True
    note j = this
    show ?thesis
    proof (cases "tc_hv K None")
      case True
      then have "updateJCCDecision K (T\<lparr>t_vm := t_vm T\<rparr>) ?I = Inr (T, True)" using d j by simp
      from branch_by_decision [OF t _ l this l] show ?thesis using assms(6) j True by simp
    next
      case False
      then show ?thesis using t d assms(6) j by (simp add: dispatchBranch_def)
    qed
  next
    case False
    then show ?thesis using branch_by_decision [OF t _ l, of T] d assms(6,9) l by simp
  qed
qed

definition ex_K :: "zterm tctx" where
  "ex_K = \<lparr>tc_X = ex_ctx, tc_api = tree_api, tc_depth = Suc (Suc (Suc (Suc 0))), tc_decode = \<lambda>ph a. ex_insn (other_id 0) c_ReturnInsn False [],
     tc_low = 0, tc_high = 0x1000, tc_host = (\<lambda>bs s. Inr s), tc_hv = (\<lambda>rax. False)\<rparr>"

definition ex_T :: "zterm thin" where
  "ex_T = \<lparr>t_vm = ex_vm, t_IOIs = [], symObjectsMap = Map.empty, m_InsnCache = Map.empty, m_NextIP = Map.empty, m_endRIP = 0, t_con = new_ConExecutor\<rparr>"

theorem direct_jump_follows_flags_witness:
  "dispatchBranch ex_K ex_T (ex_insn (Jcc e_jnb) c_BranchInsn True [ex_rel]) =
    Inr (ex_T\<lparr>t_vm := put_word RIP_PTRIDX 0x20 ex_vm\<rparr>,
      (ex_insn (Jcc e_jnb) c_BranchInsn True [ex_rel])\<lparr>di_bound := [reg_id ex_dapi x86_rip \<mapsto> 0]\<rparr>)"
proof -
  have j: "isConditionalExecuteInstr (tc_N ex_K) (Jcc e_jnb)" by (simp add: ex_K_def ex_ctx_def isConditional_iff)
  have f: "flag_val (m_CPU ex_vm) x86_cf = False" by (simp add: flag_val_def ex_words)
  show ?thesis
    using direct_jump_follows_flags [of ex_K ex_T e_jnb "ex_insn (Jcc e_jnb) c_BranchInsn True [ex_rel]" CondAE 0 "0x24"]
      j ex_cpu_flags ex_no_marks f
    by (simp add: ex_K_def ex_T_def ex_ctx_def ex_vm_cpu ex_insn_def ex_instr_def ex_rel_def ex_operand_def unlisted_jumps_def
        ex_words [unfolded ex_vm_cpu] ptridx_defs)
qed

text \<open>C15. An unconditional jump through a cell of memory at a known address completes only if a byte of the cell is symbolic; it then
  goes to the concrete bytes below the symbols. Through an ordinary concrete cell, as in a jump table, it fails an assert.\<close>

theorem memory_jump_needs_symbol:
  assumes "vm_ok (tc_D K) (t_vm T)" "cell_of (tc_X K) (t_vm T) I a" "target_placed (tc_X K) (t_vm T) I" "\<not> di_fall I"
  shows "if cell_symbolic (t_vm T) a 8
    then \<exists>T' I'. dispatchBranch K T I = Inr (T', I') \<and> pt_reg RIP_PTRIDX (t_vm T') = Inr (raw_read (t_vm T) a)
    else dispatchBranch K T I = Inl AssertFail"
proof -
  have m: "mem_range a 8" using assms(2,3) by (simp add: target_placed_def)
  obtain Q where Q: "di_ops I = [Q]" using assms(2) by (auto simp: cell_of_def length_Suc_conv)
  then have s: "saved_regs (tc_D K) (getReadSet (to_op (hd (di_ops I))))" using assms(3) by (simp add: target_placed_def)
  show ?thesis
  proof (cases "cell_symbolic (t_vm T) a 8")
    case True
    then obtain v1 env where t: "code_target True (tc_X K) (t_vm T) I = Inr (v1, I\<lparr>di_bound := env\<rparr>, raw_read (t_vm T) a)"
      "same_vm (t_vm T) v1" using code_target_cell [OF assms(1,2) m s, of True] by auto
    have l: "length (m_ArrRegs (m_CPU v1)) = 32" using t(2) vm_words by (simp add: same_vm_def)
    have "dispatchBranch K T I = Inr (T\<lparr>t_vm := put_word RIP_PTRIDX (raw_read (t_vm T) a) v1\<rparr>, I\<lparr>di_bound := env\<rparr>)"
      using t(1) assms(4) l by (simp add: dispatchBranch_def set_pt_reg_ok RIP_PTRIDX_def)
    then show ?thesis using True l by (simp add: pt_reg_ok RIP_PTRIDX_def)
  next
    case False
    then show ?thesis using code_target_cell [OF assms(1,2) m s, of True] by (simp add: dispatchBranch_def)
  qed
qed

theorem memory_jump_needs_symbol_witness:
  "dispatchBranch ex_K ex_T (ex_insn (Jcc e_jmp) c_BranchInsn False [ex_operand True (\<lambda>env. None)]) = Inl AssertFail"
proof -
  let ?I = "ex_insn (Jcc e_jmp) c_BranchInsn False [ex_operand True (\<lambda>env. None)]"
  have c: "cell_of (tc_X ex_K) (t_vm ex_T) ?I 0x2000" by (simp add: cell_of_def ex_insn_def ex_operand_def)
  have p: "target_placed (tc_X ex_K) (t_vm ex_T) ?I"
    by (auto simp: target_placed_def saved_regs_def cell_of_def ex_insn_def ex_operand_def mem_range_def int_sizes_def op_range_def)
  have "\<not> cell_symbolic (t_vm ex_T) 0x2000 8"
    using fun_cong [OF ex_vm_ok(2), of "InMem b" for b] by (auto simp: cell_symbolic_def ex_T_def)
  then show ?thesis
    using memory_jump_needs_symbol [OF _ c p] ex_operands(8) by (simp add: ex_K_def ex_T_def ex_insn_def)
qed

section \<open>The cache of instructions\<close>

text \<open>The cache is indexed by 28 bits of the address: once an instruction was decoded at one address, an address that differs
  from it above bit 27 only gets the same instruction, whatever code is there, or none.\<close>

theorem cached_by_low_bits:
  assumes "tc_low K \<le> a" "a < tc_high K" "m_InsnCache T (insn_index a) = None" "b AND 0xFFFFFFF = a AND 0xFFFFFFF"
  shows "\<exists>T'. fetch_insn K T a = Inr (T', tc_decode K (phys (m_MEM (t_vm T))) a) \<and>
    fetch_insn K T' b = Inr (T', tc_decode K (phys (m_MEM (t_vm T))) a)"
proof -
  have "insn_index b = insn_index a" using assms(4) by (simp add: insn_index_def)
  then show ?thesis using assms(1-3) by (simp add: fetch_insn_def decode_at_def cache_insn_def)
qed

theorem cached_by_low_bits_witness:
  "\<exists>T'. fetch_insn (ex_K\<lparr>tc_high := 0x20000000, tc_decode := \<lambda>ph a. ex_insn (other_id (unat a)) c_OtherInsn True []\<rparr>) ex_T 0x40 =
      Inr (T', ex_insn (other_id 64) c_OtherInsn True []) \<and>
    fetch_insn (ex_K\<lparr>tc_high := 0x20000000, tc_decode := \<lambda>ph a. ex_insn (other_id (unat a)) c_OtherInsn True []\<rparr>) T' 0x10000040 =
      Inr (T', ex_insn (other_id 64) c_OtherInsn True [])"
  using cached_by_low_bits [of "ex_K\<lparr>tc_high := 0x20000000, tc_decode := \<lambda>ph a. ex_insn (other_id (unat a)) c_OtherInsn True []\<rparr>" "0x40" ex_T "0x10000040"]
  by (simp add: ex_K_def ex_T_def)

section \<open>The main loop\<close>

lemma thin_loop_turn:
  assumes "thin_step K T cc = Inr (T1, cc1, chk)" "pt_reg RSP_PTRIDX (t_vm T1) = Inr sp"
  shows "chk \<and> term_rsp < sp \<Longrightarrow> thin_loop (Suc n) K term_rsp T cc = Inr T1"
    "\<not> (chk \<and> term_rsp < sp) \<Longrightarrow> thin_loop (Suc n) K term_rsp T cc = thin_loop n K term_rsp T1 cc1"
  using assms by auto

text \<open>More fuel changes no result.\<close>

lemma thin_loop_mono: "thin_loop n K term_rsp T cc = Inr T' \<Longrightarrow> thin_loop (n + m) K term_rsp T cc = Inr T'"
proof (induction n arbitrary: T cc)
  case 0
  then show ?case by simp
next
  case (Suc n)
  obtain T1 cc1 chk where s: "thin_step K T cc = Inr (T1, cc1, chk)"
    using Suc.prems by (auto simp: rbind_eq_Inr_iff)
  obtain sp where sp: "pt_reg RSP_PTRIDX (t_vm T1) = Inr sp" using Suc.prems s by (auto simp: rbind_eq_Inr_iff)
  show ?case
  proof (cases "chk \<and> term_rsp < sp")
    case True
    then show ?thesis using Suc.prems thin_loop_turn(1) [OF s sp True] by simp
  next
    case False
    then show ?thesis using Suc.prems Suc.IH thin_loop_turn(2) [OF s sp False] by (metis add_Suc)
  qed
qed

lemma pre_loop_SucE:
  assumes "pre_loop (Suc n) K a cf T = Inr T'"
  obtains T1 b cf1 where "pre_step K a cf T = Inr (T1, b, cf1)"
    "(if b = m_endRIP T1 then Inr T1 else pre_loop n K b cf1 T1) = Inr T'"
  using assms that by (cases "pre_step K a cf T") auto

lemma pre_loop_mono: "pre_loop n K a cf T = Inr T' \<Longrightarrow> pre_loop (n + m) K a cf T = Inr T'"
proof (induction n arbitrary: a cf T)
  case 0
  then show ?case by simp
next
  case (Suc n)
  from Suc.prems obtain T1 b cf1 where "pre_step K a cf T = Inr (T1, b, cf1)"
    "(if b = m_endRIP T1 then Inr T1 else pre_loop n K b cf1 T1) = Inr T'" by (rule pre_loop_SucE)
  then show ?case using Suc.IH [of b cf1 T1] by (simp split: if_splits)
qed

section \<open>Jumps on symbolic flags\<close>

lemma solve_keeps_map:
  assumes "sym_map_ok A objs mp" "Z3SolveConcritize A objs n syms [e] mp = Inr (d, mp')"
  shows "sym_map_ok A objs mp'"
proof -
  obtain z m1 where m1: "Z3HandlingExprPtr A objs n e mp = Inr (z, m1)" "mp' = m1"
    using assms(2) by (auto simp: Z3SolveConcritize_def rbind_eq_Inr_iff)
  then show ?thesis using keepsD [OF handling_keeps m1(1) assms(1)] by simp
qed

lemma eval_condition_outcome:
  assumes "GetCondition (tc_N K) (m_EFlagsMgr (t_vm T)) i = Inr (Some e)" "eval_condition K T i = Inr (T', d)"
  obtains mp where "thin_solve K T [e] = Inr (d, mp)"
    "T' = T\<lparr>t_vm := (t_vm T)\<lparr>m_EFlagsMgr := (m_EFlagsMgr (t_vm T))\<lparr>m_Constraint := m_Constraint (m_EFlagsMgr (t_vm T)) @
       [Some (if d then e else UryE OpLNot e (expr_size e) (expr_offset e))]\<rparr>\<rparr>, symObjectsMap := mp\<rparr>"
proof (cases "thin_solve K T [e]")
  case (Inl f)
  then show ?thesis using assms by (simp add: eval_condition_def EvalCondition_def)
next
  case (Inr r)
  obtain b mp where r: "r = (b, mp)" by (cases r)
  have "d = b" using assms Inr r by (cases b) (auto simp: eval_condition_def EvalCondition_def not_cond_def)
  then show ?thesis
    using assms Inr r by (intro that [of mp]) (cases b; auto simp: eval_condition_def EvalCondition_def not_cond_def solver_map_def)+
qed

lemma concretise_flags_ok:
  assumes "cpu_flags (tc_D K) (m_CPU vm)" "isConditionalExecuteInstr (tc_N K) i" "switch_cond i = Some c"
  obtains C' where "concretise_flags K vm i b = Inr (vm\<lparr>m_CPU := C'\<rparr>)" "same_but_flags (m_CPU vm) C'"
proof -
  obtain C' where "ConcreteFlag (tc_N K) (tc_D K) (m_CPU vm) i b = Inr (C', True)" "same_but_flags (m_CPU vm) C'"
    using ConcreteFlag_view [OF assms, of b] by blast
  then show ?thesis by (intro that) (simp_all add: concretise_flags_def)
qed

text \<open>C2. After a comparison of values that have terms, a jump on symbolic flags, whatever ordering or equality it
  tests: if it is taken, one object's seed alone makes the x86 condition true of these values; the
  condition of the path grows by a condition that says exactly that x86 decides the jump this way;
  and no byte changes between concrete and symbolic.\<close>

theorem symbolic_jump_after_compare:
  assumes "z3_semantics ev (tc_api K)" "sym_map_ok (tc_api K) (mem_objs (t_vm T)) (symObjectsMap T)"
    and "cpu_flags (tc_D K) (m_CPU (t_vm T))" "isConditionalExecuteInstr (tc_N K) (Jcc j)" "di_id I = Jcc j"
    and "jcc_cond j = Some c" "c \<notin> {CondS, CondNS, CondNO, CondO}"
    and "\<exists>f \<in> set (needed_flags c). flag_sym (tc_D K) (m_CPU (t_vm T)) f"
    and "m_LastExpr (m_EFlagsMgr (t_vm T)) = Some (SubExpr r l)" "n + 2 \<le> tc_depth K"
    and "translates (tc_api K) (mem_objs (t_vm T)) n r x" "translates (tc_api K) (mem_objs (t_vm T)) n l y"
    and "bits_term ev b x" "bits_term ev b y" "updateJCCDecision K T I = Inr (T', d)"
  shows "(d \<longrightarrow> seed_decides (mem_objs (t_vm T)) (sym_objs (t_vm T))
      (\<lambda>\<rho>. x86_cond c (sub_flags b (bv_num (ev x \<rho>)) (bv_num (ev y \<rho>))))) \<and>
    (\<exists>e w. m_Constraint (m_EFlagsMgr (t_vm T')) = m_Constraint (m_EFlagsMgr (t_vm T)) @ [Some e] \<and>
      translates (tc_api K) (mem_objs (t_vm T)) (n + 3) e w \<and>
      (\<forall>\<rho>. ev w \<rho> = Bl (x86_cond c (sub_flags b (bv_num (ev x \<rho>)) (bv_num (ev y \<rho>))) = d))) \<and>
    vm_bytes (t_vm T') = vm_bytes (t_vm T) \<and> sym_map_ok (tc_api K) (mem_objs (t_vm T')) (symObjectsMap T')"
proof -
  let ?objs = "mem_objs (t_vm T)" and ?P = "\<lambda>\<rho>. x86_cond c (sub_flags b (bv_num (ev x \<rho>)) (bv_num (ev y \<rho>)))"
  have sw: "switch_cond_sbb (Jcc j) = Some c" "switch_cond (Jcc j) = Some c" using assms(6) by (simp_all add: switch_cond_jcc)
  obtain e z where e: "cond_of_last c (SubExpr r l) = Inr (Some e)" "translates (tc_api K) ?objs (n + 2) e z" "\<forall>\<rho>. ev z \<rho> = Bl (?P \<rho>)"
    using compare_condition [OF assms(1,7,11-14)] by blast
  have g: "GetCondition (tc_N K) (m_EFlagsMgr (t_vm T)) (Jcc j) = Inr (Some e)"
    using GetCondition_view [OF assms(4) sw(1) assms(9)] e(1) by simp
  have "dependFlagCon K (t_vm T) (Jcc j) False = Inr (False, False)"
    using DependencyFlagConcreted_view [OF assms(3,4) sw(1)] assms(4,8) by (auto simp: dependFlagCon_def)
  then obtain T1 vm where T1: "eval_condition K T (Jcc j) = Inr (T1, d)" "concretise_flags K (t_vm T1) (Jcc j) d = Inr vm" "T' = T1\<lparr>t_vm := vm\<rparr>"
    using assms(5,15) by (auto simp: updateJCCDecision_def rbind_eq_Inr_iff)
  obtain mp where mp: "thin_solve K T [e] = Inr (d, mp)" "T1 = T\<lparr>t_vm := (t_vm T)\<lparr>m_EFlagsMgr := (m_EFlagsMgr (t_vm T))\<lparr>m_Constraint :=
      m_Constraint (m_EFlagsMgr (t_vm T)) @ [Some (if d then e else UryE OpLNot e (expr_size e) (expr_offset e))]\<rparr>\<rparr>, symObjectsMap := mp\<rparr>"
    by (rule eval_condition_outcome [OF g T1(1)])
  have c1: "cpu_flags (tc_D K) (m_CPU (t_vm T1))" using assms(3) mp(2) by simp
  obtain C' where C': "vm = (t_vm T1)\<lparr>m_CPU := C'\<rparr>" "same_but_flags (m_CPU (t_vm T1)) C'"
    using concretise_flags_ok [OF c1 assms(4) sw(2), of d] T1(2) by auto
  have s: "Z3SolveConcritize (tc_api K) ?objs (tc_depth K) (sym_objs (t_vm T)) [e] (symObjectsMap T) = Inr (d, mp)"
    using mp(1) by (simp add: thin_solve_def)
  have 1: "d \<longrightarrow> seed_decides ?objs (sym_objs (t_vm T)) ?P"
    using concretize_true [OF assms(1,2) translates_mono [OF e(2) assms(10)] e(3)] s by auto
  have 2: "\<exists>w. translates (tc_api K) ?objs (n + 3) (if d then e else UryE OpLNot e (expr_size e) (expr_offset e)) w \<and> (\<forall>\<rho>. ev w \<rho> = Bl (?P \<rho> = d))"
  proof (cases d)
    case True
    then show ?thesis using translates_mono [OF e(2), of "n + 3"] e(3) by auto
  next
    case False
    then show ?thesis using negated_condition [OF assms(1) e(2,3), of "expr_size e" "expr_offset e"] by (simp add: numeral_3_eq_3)
  qed
  have 3: "vm_bytes vm = vm_bytes (t_vm T)" "mem_objs vm = ?objs"
    using C' mp(2) by (auto simp: same_but_flags_def intro: vm_bytes_cong)
  show ?thesis using 1 2 3 T1(3) C'(1) mp(2) solve_keeps_map [OF assms(2) s] by simp
qed

theorem symbolic_jump_after_compare_witness:
  "\<exists>T T'. m_LastExpr (m_EFlagsMgr (t_vm T)) = Some (SubExpr ex_a ex_5) \<and>
    updateJCCDecision ex_K T (ex_insn (Jcc e_jnbe) c_BranchInsn True [ex_rel]) = Inr (T', True) \<and>
    seed_decides (mem_objs (t_vm T)) (sym_objs (t_vm T))
      (\<lambda>\<rho>. x86_cond CondA (sub_flags 32 (bv_num (tval (TConst ''a'' 32) \<rho>)) (bv_num (tval (TVal 5 32) \<rho>))))"
proof -
  obtain C' where C': "cpu_flags ex_dapi C'" "\<forall>f \<in> status_flags. flag_sym ex_dapi C' f"
    using marks_all [of ex_dapi "m_CPU ex_vm"] ex_cpu_flags by (auto simp: ex_vm_cpu)
  let ?vm = "ex_vm\<lparr>mem_objs := ex_objs, m_SYMemObjects := [0 \<mapsto> 0], m_CPU := C',
    m_EFlagsMgr := (m_EFlagsMgr ex_vm)\<lparr>m_LastExpr := Some (SubExpr ex_a ex_5)\<rparr>\<rparr>"
  let ?T = "ex_T\<lparr>t_vm := ?vm\<rparr>" and ?I = "ex_insn (Jcc e_jnbe) c_BranchInsn True [ex_rel]"
  let ?e = "BinE OpUgt ex_a ex_5 4 0"
  have j: "isConditionalExecuteInstr (tc_N ex_K) (Jcc e_jnbe)" by (simp add: ex_K_def ex_ctx_def isConditional_iff)
  have so: "sym_objs ?vm = [0]" by (simp add: sym_objs_def)
  have g: "GetCondition (tc_N ex_K) (m_EFlagsMgr ?vm) (Jcc e_jnbe) = Inr (Some ?e)"
    using GetCondition_view [OF j, of CondA] by (simp add: switch_cond_jcc cond_of_last_def mk_bin_def cmp_of_id_def)
  obtain mp where "Z3SolveConcritize tree_api ex_objs (Suc (Suc (Suc (Suc 0)))) [0] [?e] Map.empty = Inr (True, mp)"
    by (simp add: Z3SolveConcritize_def ex_objs_def tree_api_def handle_defs two_operands_def Z3HandleUND_def
        Z3HandleConst_def map_insert_def seed_number_def Z3ExpressionEvaluator_def tsimplify_def)
  then have mp: "thin_solve ex_K ?T [?e] = Inr (True, mp)" using so by (simp add: thin_solve_def ex_K_def ex_T_def)
  have f: "\<exists>f \<in> set (needed_flags CondA). flag_sym (tc_D ex_K) (m_CPU (t_vm ?T)) f"
    using C'(2) by (simp add: ex_K_def ex_ctx_def status_flags_def)
  have c: "cpu_flags (tc_D ex_K) (m_CPU (t_vm ?T))" using C'(1) by (simp add: ex_K_def ex_ctx_def)
  obtain T1 where T1: "eval_condition ex_K ?T (Jcc e_jnbe) = Inr (T1, True)" "m_CPU (t_vm T1) = C'"
    using g mp by (simp add: eval_condition_def EvalCondition_def)
  have c1: "cpu_flags (tc_D ex_K) (m_CPU (t_vm T1))" using C'(1) T1(2) by (simp add: ex_K_def ex_ctx_def)
  obtain D where "concretise_flags ex_K (t_vm T1) (Jcc e_jnbe) True = Inr D"
    using concretise_flags_ok [OF c1 j, of CondA True] by (auto simp: switch_cond_jcc)
  moreover have "dependFlagCon ex_K ?vm (Jcc e_jnbe) False = Inr (False, False)"
    using DependencyFlagConcreted_view [OF c j, of CondA False] j f by (auto simp: dependFlagCon_def switch_cond_jcc ex_T_def)
  ultimately have T': "updateJCCDecision ex_K ?T ?I = Inr (T1\<lparr>t_vm := D\<rparr>, True)"
    using T1(1) by (simp add: updateJCCDecision_def ex_insn_def ex_instr_def ex_T_def)
  have t: "translates (tc_api ex_K) (mem_objs (t_vm ?T)) 1 ex_a (TConst ''a'' 32)"
    "translates (tc_api ex_K) (mem_objs (t_vm ?T)) 1 ex_5 (TVal 5 32)"
    using ex_terms(1,2) by (simp_all add: ex_K_def)
  have "seed_decides (mem_objs (t_vm ?T)) (sym_objs (t_vm ?T))
      (\<lambda>\<rho>. x86_cond CondA (sub_flags 32 (bv_num (tval (TConst ''a'' 32) \<rho>)) (bv_num (tval (TVal 5 32) \<rho>))))"
    by (rule symbolic_jump_after_compare [OF _ _ c j _ _ _ f _ _ t ex_terms(3,4) T', THEN conjunct1, rule_format])
      (simp_all add: ex_K_def ex_T_def tree_semantics sym_map_ok_def ex_insn_def ex_instr_def)
  then show ?thesis using T' by (intro exI [of _ ?T] exI [of _ "T1\<lparr>t_vm := D\<rparr>"]) simp
qed

section \<open>What the choice between the executors rests on\<close>

definition reg_clear :: "dapi \<Rightarrow> VMState \<Rightarrow> u32 \<Rightarrow> bool" where
  "reg_clear D vm i \<longleftrightarrow> (\<forall>r k sz. i = reg_id D r \<and> saved_reg r k sz \<longrightarrow>
     (\<forall>p. 0 \<le> p \<and> p < int (unat sz) \<longrightarrow> vm_bytes vm (InWord k p) = None))"

text \<open>A register is bound to its present value, if that is concrete.\<close>

definition bound_now :: "dapi \<Rightarrow> VMState \<Rightarrow> bindings \<Rightarrow> u32 \<Rightarrow> bool" where
  "bound_now D vm env i \<longleftrightarrow> (\<forall>r k sz. i = reg_id D r \<and> saved_reg r k sz \<and> reg_clear D vm i \<longrightarrow>
     env i = Some (signed_take_bit (8 * unat sz - 1) (read_word sz (m_ArrRegs (m_CPU vm) ! k) 0)))"

definition ref_clear :: "dapi \<Rightarrow> VMState \<Rightarrow> u64 \<Rightarrow> mem_ref \<Rightarrow> bool" where
  "ref_clear D vm gs_base R \<longleftrightarrow> (\<exists>env a. (\<forall>(i, sz) \<in> set (mr_regs R). bound_now D vm env i) \<and> mr_eval R env = Some a \<and>
     \<not> cell_symbolic vm (with_gs a gs_base) (mr_size R))"

definition ref_placed :: "dapi \<Rightarrow> VMState \<Rightarrow> u64 \<Rightarrow> mem_ref \<Rightarrow> bool" where
  "ref_placed D vm gs_base R \<longleftrightarrow> saved_regs D (mr_regs R) \<and>
     (\<forall>env a. (\<forall>(i, sz) \<in> set (mr_regs R). bound_now D vm env i) \<and> mr_eval R env = Some a \<longrightarrow>
        mem_range (with_gs a gs_base) (mr_size R))"

definition gs_now :: "ctx \<Rightarrow> VMState \<Rightarrow> dinstr \<Rightarrow> u64" where
  "gs_now X vm I = (if reg_id (cx_D X) x86_gs \<in> set (in_implicit (di_instr I)) then m_ArrRegs (m_CPU vm) ! GS_PTRIDX else 0)"

definition insn_placed :: "ctx \<Rightarrow> VMState \<Rightarrow> dinstr \<Rightarrow> bool" where
  "insn_placed X vm I \<longleftrightarrow> (\<forall>Q \<in> set (di_ops I). \<forall>R \<in> set (to_rd Q) \<union> set (to_wr Q). ref_placed (cx_D X) vm (gs_now X vm I) R) \<and>
     (\<forall>R \<in> set (di_imp_rd I) \<union> set (di_imp_wr I). ref_placed (cx_D X) vm 0 R)"

lemma same_vm_views:
  assumes "same_vm vm vm'"
  shows "reg_clear D vm' i = reg_clear D vm i" "bound_now D vm' env i = bound_now D vm env i"
    "cell_symbolic vm' a n = cell_symbolic vm a n" "ref_clear D vm' g R = ref_clear D vm g R"
    "ref_placed D vm' g R = ref_placed D vm g R" "gs_now X vm' I = gs_now X vm I"
proof -
  note f = same_vm_frame [OF assms]
  have "vm_mem vm' = vm_mem vm" using assms by (simp add: same_vm_def)
  then show c: "cell_symbolic vm' a n = cell_symbolic vm a n" for a n by (simp add: cell_symbolic_def)
  show r: "reg_clear D vm' i = reg_clear D vm i" for i unfolding reg_clear_def f(4) ..
  show b: "bound_now D vm' env i = bound_now D vm env i" for env i unfolding bound_now_def r f(1) ..
  show "ref_clear D vm' g R = ref_clear D vm g R" unfolding ref_clear_def b c ..
  show "ref_placed D vm' g R = ref_placed D vm g R" unfolding ref_placed_def b ..
  show "gs_now X vm' I = gs_now X vm I" unfolding gs_now_def f(1) ..
qed

lemma saved_reg_fun:
  assumes "dapi_ok D" "saved_reg r k sz" "saved_reg r' k' sz'" "reg_id D r = reg_id D r'"
  shows "r' = r" "k' = k" "sz' = sz"
proof -
  have i: "(r, k, sz) \<in> set DyinstEncoding" "(r', k', sz') \<in> set DyinstEncoding" using assms(2,3) by (simp_all add: saved_reg_def)
  have "distinct (map (\<lambda>(r, i, sz). reg_id D r) DyinstEncoding)" using assms(1) by (simp add: dapi_ok_def)
  then have "inj_on (\<lambda>(r, i, sz). reg_id D r) (set DyinstEncoding)" by (simp add: distinct_map)
  then have "(r', k', sz') = (r, k, sz)" using inj_onD [OF _ _ i(2,1)] assms(4) by fastforce
  then show "r' = r" "k' = k" "sz' = sz" by simp_all
qed

lemma saved_reg_clear:
  assumes "dapi_ok D" "saved_reg r k sz"
  shows "reg_clear D vm (reg_id D r) \<longleftrightarrow> (\<forall>p. 0 \<le> p \<and> p < int (unat sz) \<longrightarrow> vm_bytes vm (InWord k p) = None)" (is "?A \<longleftrightarrow> ?B")
proof
  show "?A \<Longrightarrow> ?B" using assms(2) unfolding reg_clear_def by blast
  show "?B \<Longrightarrow> ?A" using saved_reg_fun [OF assms] unfolding reg_clear_def by metis
qed

lemma saved_bound_now:
  assumes "dapi_ok D" "saved_reg r k sz"
  shows "bound_now D vm env (reg_id D r) \<longleftrightarrow> (reg_clear D vm (reg_id D r) \<longrightarrow>
    env (reg_id D r) = Some (signed_take_bit (8 * unat sz - 1) (read_word sz (m_ArrRegs (m_CPU vm) ! k) 0)))" (is "?A \<longleftrightarrow> ?B")
proof
  show "?A \<Longrightarrow> ?B" using assms(2) unfolding bound_now_def by blast
  show "?B \<Longrightarrow> ?A" using saved_reg_fun [OF assms] unfolding bound_now_def by metis
qed

text \<open>A read of a register, as the code that looks at operands uses it.\<close>

lemma read_plain_view:
  assumes "vm_ok D vm" "i = reg_id D r" "saved_reg r k sz" "vm_readRegister D vm (plain_reg i sz False) = Inr (vm', V, b)"
  shows "rv_bsym V = (\<not> reg_clear D vm i)" "rv_i64 V = read_word sz (m_ArrRegs (m_CPU vm) ! k) 0"
proof -
  have V: "rv_indx (plain_reg i sz False) = reg_id D r" "rv_size (plain_reg i sz False) = sz" "\<not> rv_isSymList (plain_reg i sz False)"
    using assms(2) by (simp_all add: plain_reg_def)
  have ok: "vm_wf vm" "dapi_ok D" "regs_ok D (m_CPU vm)" using assms(1) by (simp_all add: vm_ok_def)
  have k: "k < 32" using saved_reg_size [OF assms(3)] by simp
  have c: "reg_clear D vm i \<longleftrightarrow> \<not> (\<exists>p. 0 \<le> p \<and> p < int (unat sz) \<and> vm_word vm k p \<noteq> None)"
    unfolding assms(2) saved_reg_clear [OF ok(2) assms(3)] using k by (auto simp del: not_None_eq split_paired_All split_paired_Ex)
  have "rv_bsym V = (\<not> reg_clear D vm i) \<and> rv_i64 V = read_word sz (m_ArrRegs (m_CPU vm) ! k) 0"
  proof (cases "reg_clear D vm i")
    case True
    then have e: "\<not> (\<exists>p. 0 \<le> p \<and> p < int (unat sz) \<and> vm_word vm k p \<noteq> None)" using c by blast
    have "vm_readRegister D vm (plain_reg i sz False) = Inr (vm, (plain_reg i sz False)\<lparr>rv_bsym := False, rv_isSymList := False,
        rv_i64 := read_word sz (m_ArrRegs (m_CPU vm) ! k) (rv_i64 (plain_reg i sz False))\<rparr>, True)"
      using vm_readRegister_view [OF ok assms(3) V] unfolding if_not_P [OF e] .
    then show ?thesis using assms(4) True by (auto simp: plain_reg_def)
  next
    case False
    then have e: "\<exists>p. 0 \<le> p \<and> p < int (unat sz) \<and> vm_word vm k p \<noteq> None" using c by blast
    then obtain v1 e where "vm_readRegister D vm (plain_reg i sz False) = Inr (v1, (plain_reg i sz False)\<lparr>rv_bsym := True,
        rv_i64 := read_word sz (m_ArrRegs (m_CPU vm) ! k) (rv_i64 (plain_reg i sz False)), rv_expr := Some e\<rparr>, True)"
      using vm_readRegister_view [OF ok assms(3) V] unfolding if_P [OF e] by blast
    then show ?thesis using assms(4) False by (auto simp: plain_reg_def)
  qed
  then show "rv_bsym V = (\<not> reg_clear D vm i)" "rv_i64 V = read_word sz (m_ArrRegs (m_CPU vm) ! k) 0" by simp_all
qed

lemma visit_regs_ok:
  assumes "visit_regs X vm rs env = Inr (vm', env')" "vm_ok (cx_D X) vm" "saved_regs (cx_D X) rs"
  shows "same_vm vm vm' \<and> (\<forall>i. i \<in> fst ` set rs \<or> bound_now (cx_D X) vm env i \<longrightarrow> bound_now (cx_D X) vm env' i)"
  using assms
proof (induction rs arbitrary: vm env)
  case Nil
  then show ?case by (auto simp: same_vm_refl vm_ok_def)
next
  case (Cons x rs)
  obtain i sz where x: "x = (i, sz)" by (cases x)
  obtain r k where r: "i = reg_id (cx_D X) r" "saved_reg r k sz" using Cons.prems(3) x by (auto simp: saved_regs_def)
  obtain v1 V b where 1: "vm_readRegister (cx_D X) vm (plain_reg i sz False) = Inr (v1, V, b)"
    "visit_regs X v1 rs (if rv_bsym V then env else bind_reg i sz (rv_i64 V) env) = Inr (vm', env')"
    using Cons.prems(1) x by (auto simp: rbind_eq_Inr_iff rassert_eq_Inr_iff)
  let ?env = "if rv_bsym V then env else bind_reg i sz (rv_i64 V) env"
  have s: "same_vm vm v1" using read_plain_same [OF Cons.prems(2) r 1(1)] by simp
  note V = read_plain_view [OF Cons.prems(2) r 1(1)]
  have D: "dapi_ok (cx_D X)" using Cons.prems(2) by (simp add: vm_ok_def)
  have sz: "sz \<in> {1, 2, 4, 8}" using saved_reg_size [OF r(2)] by simp
  have i: "bound_now (cx_D X) vm ?env i"
    unfolding r(1) saved_bound_now [OF D r(2)] using V sz by (simp add: r(1) bind_reg_def)
  moreover have "bound_now (cx_D X) vm env j \<Longrightarrow> j \<noteq> i \<Longrightarrow> bound_now (cx_D X) vm ?env j" for j
    by (auto simp: bound_now_def bind_reg_def)
  ultimately have e: "j = i \<or> bound_now (cx_D X) vm env j \<Longrightarrow> bound_now (cx_D X) vm ?env j" for j by blast
  have ih: "same_vm v1 vm' \<and> (\<forall>j. j \<in> fst ` set rs \<or> bound_now (cx_D X) v1 ?env j \<longrightarrow> bound_now (cx_D X) v1 env' j)"
    using Cons.IH [OF 1(2) same_vm_okD [OF Cons.prems(2) s]] Cons.prems(3) by (simp add: saved_regs_def)
  then show ?case using same_vm_trans [OF s] e x unfolding same_vm_views(2) [OF s] by auto
qed

lemma ref_symbolic_ok:
  assumes "ref_symbolic X vm g R env = Inr (vm', env', b)" "vm_ok (cx_D X) vm" "ref_placed (cx_D X) vm g R"
  shows "same_vm vm vm' \<and> (\<not> b \<longrightarrow> ref_clear (cx_D X) vm g R)"
proof -
  obtain v1 a where v1: "visit_regs X vm (mr_regs R) env = Inr (v1, env')" "mr_eval R env' = Some a"
    "vm_isSYMemoryCell v1 (with_gs a g) (mr_size R) = Inr b" "vm' = v1"
    using assms(1) by (auto simp: ref_symbolic_def rbind_eq_Inr_iff eval_defined_def split: option.splits)
  have "saved_regs (cx_D X) (mr_regs R)" using assms(3) by (simp add: ref_placed_def)
  note s = visit_regs_ok [OF v1(1) assms(2) this]
  then have e: "\<forall>(i, sz) \<in> set (mr_regs R). bound_now (cx_D X) vm env' i" by force
  then have m: "mem_range (with_gs a g) (mr_size R)" using assms(3) v1(2) unfolding ref_placed_def by blast
  have "vm_wf v1" using s by (simp add: same_vm_def)
  then have "b = cell_symbolic v1 (with_gs a g) (mr_size R)"
    using v1(3) isSYMemoryCell_ok [OF vm_wfD(1) m] by (simp add: vm_isSYMemoryCell_def cell_symbolic_def vm_mem_def)
  then show ?thesis using s e v1(2,4) same_vm_views(3) [of vm v1] unfolding ref_clear_def by blast
qed

lemma refs_symbolic_ok:
  assumes "refs_symbolic X vm g Rs env = Inr (vm', env', b)" "vm_ok (cx_D X) vm" "\<forall>R \<in> set Rs. ref_placed (cx_D X) vm g R"
  shows "same_vm vm vm' \<and> (\<not> b \<longrightarrow> (\<forall>R \<in> set Rs. ref_clear (cx_D X) vm g R))"
  using assms
proof (induction Rs arbitrary: vm env)
  case Nil
  then show ?case by (simp add: same_vm_refl vm_ok_def)
next
  case (Cons R Rs)
  obtain v1 e1 b1 where 1: "ref_symbolic X vm g R env = Inr (v1, e1, b1)"
    "(if b1 then Inr (v1, e1, True) else refs_symbolic X v1 g Rs e1) = Inr (vm', env', b)"
    using Cons.prems(1) by (auto simp: rbind_eq_Inr_iff)
  have s: "same_vm vm v1" "\<not> b1 \<longrightarrow> ref_clear (cx_D X) vm g R" using ref_symbolic_ok [OF 1(1) Cons.prems(2)] Cons.prems(3) by auto
  show ?case
  proof (cases b1)
    case True
    then show ?thesis using 1(2) s(1) by simp
  next
    case False
    then have "same_vm v1 vm' \<and> (\<not> b \<longrightarrow> (\<forall>R \<in> set Rs. ref_clear (cx_D X) v1 g R))"
      using Cons.IH [of v1 e1] 1(2) same_vm_okD [OF Cons.prems(2) s(1)] Cons.prems(3) same_vm_views(5) [OF s(1)] by simp
    then show ?thesis using False s same_vm_trans [OF s(1)] same_vm_views(4) [OF s(1)] by auto
  qed
qed

lemma some_reg_symbolic_ok:
  assumes "some_reg_symbolic X vm rs = Inr False" "vm_ok (cx_D X) vm" "(i, sz) \<in> set rs"
  shows "reg_clear (cx_D X) vm i"
  using assms(1,3)
proof (induction rs)
  case Nil
  then show ?case by simp
next
  case (Cons x rs)
  obtain j n where x: "x = (j, n)" by (cases x)
  have 1: "vm_isSYReg (cx_D X) vm j = Inr False" "some_reg_symbolic X vm rs = Inr False"
    using Cons.prems(1) x by (auto simp: rbind_eq_Inr_iff split: if_splits)
  have D: "dapi_ok (cx_D X)" using assms(2) by (simp add: vm_ok_def)
  have "reg_clear (cx_D X) vm j"
  proof (cases "\<exists>r k m. j = reg_id (cx_D X) r \<and> saved_reg r k m")
    case True
    then obtain r k m where r: "j = reg_id (cx_D X) r" "saved_reg r k m" by blast
    show ?thesis
      unfolding r(1) saved_reg_clear [OF D r(2)] using isSYReg_view [OF assms(2) r(2)] 1(1) saved_reg_size [OF r(2)]
      by (auto simp: r(1) simp del: not_None_eq split_paired_All split_paired_Ex)
  next
    case False
    then show ?thesis unfolding reg_clear_def by blast
  qed
  then show ?case using Cons x 1(2) by auto
qed

lemma gs_base_ok:
  assumes "gs_base_of X vm is = Inr (vm', g)" "vm_ok (cx_D X) vm"
  shows "same_vm vm vm' \<and> g = (if reg_id (cx_D X) x86_gs \<in> set is then m_ArrRegs (m_CPU vm) ! GS_PTRIDX else 0)"
  using assms(1)
proof (induction "is")
  case Nil
  then show ?case using assms(2) by (simp add: same_vm_refl vm_ok_def)
next
  case (Cons i "is")
  have gs: "saved_reg x86_gs GS_PTRIDX 8"
    by (simp add: saved_reg_def DyinstEncoding_def regs_64_def ptridx_defs PTREGS_REG_TOTAL_def)
  show ?case
  proof (cases "i = reg_id (cx_D X) x86_gs")
    case True
    then obtain V b where V: "vm_readRegister (cx_D X) vm (plain_reg (reg_id (cx_D X) x86_gs) 8 False) = Inr (vm', V, b)" "g = rv_i64 V"
      using Cons.prems by (auto simp: rbind_eq_Inr_iff rassert_eq_Inr_iff)
    then show ?thesis
      using read_plain_same [OF assms(2) refl gs V(1)] read_plain_view(2) [OF assms(2) refl gs V(1)] True
      by (simp add: read_word_def take_bit_word_eq_self)
  next
    case False
    then show ?thesis using Cons by simp
  qed
qed

text \<open>What holds of an operand when it counts as not symbolic.\<close>

definition opnd_clear :: "dapi \<Rightarrow> VMState \<Rightarrow> u64 \<Rightarrow> topnd \<Rightarrow> bool" where
  "opnd_clear D vm g Q \<longleftrightarrow>
     (if \<not> readsMemory (to_op Q) \<and> \<not> writesMemory (to_op Q)
      then \<forall>(i, sz) \<in> set (getReadSet (to_op Q)) \<union> set (getWriteSet (to_op Q)). reg_clear D vm i
      else (readsMemory (to_op Q) \<longrightarrow> ref_clear D vm g (hd (to_rd Q))) \<and>
           (writesMemory (to_op Q) \<longrightarrow> ref_clear D vm g (hd (to_wr Q))))"

lemma OpdhasSymMemCell_ok:
  assumes "OpdhasSymMemCell X vm Q g env = Inr (vm', env', b)" "vm_ok (cx_D X) vm"
    and "\<forall>R \<in> set (to_rd Q) \<union> set (to_wr Q). ref_placed (cx_D X) vm g R"
  shows "same_vm vm vm' \<and> (\<not> b \<longrightarrow> (readsMemory (to_op Q) \<longrightarrow> ref_clear (cx_D X) vm g (hd (to_rd Q))) \<and>
    (writesMemory (to_op Q) \<longrightarrow> ref_clear (cx_D X) vm g (hd (to_wr Q))))"
proof -
  obtain v1 e1 b1 where 1: "(if readsMemory (to_op Q) then rassert (length (to_rd Q) = 1) (ref_symbolic X vm g (hd (to_rd Q)) env)
      else Inr (vm, env, False)) = Inr (v1, e1, b1)"
    "(if b1 then Inr (v1, e1, True) else if writesMemory (to_op Q)
      then rassert (length (to_wr Q) = 1) (ref_symbolic X v1 g (hd (to_wr Q)) e1) else Inr (v1, e1, False)) = Inr (vm', env', b)"
    using assms(1) unfolding OpdhasSymMemCell_def by (auto simp: rbind_eq_Inr_iff)
  have s: "same_vm vm v1 \<and> (\<not> b1 \<and> readsMemory (to_op Q) \<longrightarrow> ref_clear (cx_D X) vm g (hd (to_rd Q)))"
  proof (cases "readsMemory (to_op Q)")
    case True
    then have r: "ref_symbolic X vm g (hd (to_rd Q)) env = Inr (v1, e1, b1)" "hd (to_rd Q) \<in> set (to_rd Q)"
      using 1(1) by (auto simp: rassert_eq_Inr_iff length_Suc_conv)
    then show ?thesis using ref_symbolic_ok [OF r(1) assms(2)] assms(3) by blast
  next
    case False
    then show ?thesis using 1(1) assms(2) by (simp add: same_vm_refl vm_ok_def)
  qed
  show ?thesis
  proof (cases "\<not> b1 \<and> writesMemory (to_op Q)")
    case True
    then have r: "ref_symbolic X v1 g (hd (to_wr Q)) e1 = Inr (vm', env', b)" "hd (to_wr Q) \<in> set (to_wr Q)"
      using 1(2) by (auto simp: rassert_eq_Inr_iff length_Suc_conv)
    have s1: "same_vm vm v1" using s by simp
    have "ref_placed (cx_D X) v1 g (hd (to_wr Q))" using r(2) assms(3) unfolding same_vm_views(5) [OF s1] by blast
    from ref_symbolic_ok [OF r(1) same_vm_okD [OF assms(2) s1] this]
    show ?thesis using s True same_vm_trans [OF s1] unfolding same_vm_views(4) [OF s1] by blast
  next
    case False
    then show ?thesis using 1(2) s by (auto split: if_splits)
  qed
qed

lemma opnd_clear_same: "same_vm vm vm' \<Longrightarrow> opnd_clear D vm' g Q = opnd_clear D vm g Q"
  by (simp add: opnd_clear_def same_vm_views)

lemma operands_symbolic_ok:
  assumes "operands_symbolic X vm I Qs env = Inr (vm', env', b)" "vm_ok (cx_D X) vm"
    and "\<forall>Q \<in> set Qs. \<forall>R \<in> set (to_rd Q) \<union> set (to_wr Q). ref_placed (cx_D X) vm (gs_now X vm I) R"
  shows "same_vm vm vm' \<and> (\<not> b \<longrightarrow> (\<forall>Q \<in> set Qs. opnd_clear (cx_D X) vm (gs_now X vm I) Q))"
  using assms
proof (induction Qs arbitrary: vm env)
  case Nil
  then show ?case by (simp add: same_vm_refl vm_ok_def)
next
  case (Cons Q Qs)
  let ?plain = "\<not> readsMemory (to_op Q) \<and> \<not> writesMemory (to_op Q)" and ?g = "gs_now X vm I"
  obtain v1 e1 b1 where 1: "(if ?plain then rbind (OpdhasSymReg X vm (to_op Q)) (\<lambda>b. Inr (vm, env, b))
      else rbind (thin_isUseGS X vm I) (\<lambda>(vm, gs_base). OpdhasSymMemCell X vm Q gs_base env)) = Inr (v1, e1, b1)"
    "(if b1 then Inr (v1, e1, True) else operands_symbolic X v1 I Qs e1) = Inr (vm', env', b)"
    using Cons.prems(1) by (auto simp: rbind_eq_Inr_iff)
  have s: "same_vm vm v1 \<and> (\<not> b1 \<longrightarrow> opnd_clear (cx_D X) vm ?g Q)"
  proof (cases ?plain)
    case True
    then have v: "v1 = vm" "OpdhasSymReg X vm (to_op Q) = Inr b1" using 1(1) by (auto simp: rbind_eq_Inr_iff)
    then have "\<not> b1 \<longrightarrow> some_reg_symbolic X vm (getReadSet (to_op Q)) = Inr False \<and> some_reg_symbolic X vm (getWriteSet (to_op Q)) = Inr False"
      by (auto simp: OpdhasSymReg_def rbind_eq_Inr_iff split: if_splits)
    then show ?thesis
      using True v(1) some_reg_symbolic_ok [OF _ Cons.prems(2)] same_vm_refl Cons.prems(2) unfolding opnd_clear_def vm_ok_def by auto
  next
    case False
    then obtain v0 g where v0: "gs_base_of X vm (in_implicit (di_instr I)) = Inr (v0, g)" "OpdhasSymMemCell X v0 Q g env = Inr (v1, e1, b1)"
      using 1(1) by (auto simp: rbind_eq_Inr_iff thin_isUseGS_def)
    have g: "same_vm vm v0" "g = ?g" using gs_base_ok [OF v0(1) Cons.prems(2)] by (simp_all add: gs_now_def)
    have "\<forall>R \<in> set (to_rd Q) \<union> set (to_wr Q). ref_placed (cx_D X) v0 g R"
      using Cons.prems(3) g(2) unfolding same_vm_views(5) [OF g(1)] by simp
    from OpdhasSymMemCell_ok [OF v0(2) same_vm_okD [OF Cons.prems(2) g(1)] this]
    show ?thesis using False g same_vm_trans [OF g(1)] unfolding same_vm_views(4) [OF g(1)] opnd_clear_def by auto
  qed
  show ?case
  proof (cases b1)
    case True
    then show ?thesis using 1(2) s by simp
  next
    case False
    have s1: "same_vm vm v1" using s by simp
    have "same_vm v1 vm' \<and> (\<not> b \<longrightarrow> (\<forall>Q \<in> set Qs. opnd_clear (cx_D X) v1 (gs_now X v1 I) Q))"
      using Cons.IH [of v1 e1] 1(2) same_vm_okD [OF Cons.prems(2) s1] Cons.prems(3) False
      by (simp add: same_vm_views(5,6) [OF s1])
    then show ?thesis
      using False s same_vm_trans [OF s1] by (auto simp: opnd_clear_same [OF s1] same_vm_views(6) [OF s1])
  qed
qed

text \<open>C5. An instruction goes to the concrete executor only if no register among its plain operands has a symbolic
  byte and no cell that an operand or an implicit access addresses has one, the address being
  computed from the present values of all registers in it that are concrete. The question itself changes no
  symbolic byte. A symbolic register in an address is not looked for.\<close>

theorem concrete_execution_sees_no_symbol:
  assumes "hasSymOperand X vm I = Inr (vm', I', False)" "vm_ok (cx_D X) vm" "insn_placed X vm I"
  shows "(\<forall>Q \<in> set (di_ops I). opnd_clear (cx_D X) vm (gs_now X vm I) Q) \<and>
    (\<forall>R \<in> set (di_imp_rd I) \<union> set (di_imp_wr I). ref_clear (cx_D X) vm 0 R) \<and> same_vm vm vm'"
proof -
  obtain v1 e1 where 1: "operands_symbolic X vm I (di_ops I) (di_bound I) = Inr (v1, e1, False)"
    "\<exists>env. checkImplicitMemAccess X v1 I e1 = Inr (vm', env, False)"
    using assms(1) by (auto simp: hasSymOperand_def rbind_eq_Inr_iff split: if_splits)
  note o = operands_symbolic_ok [OF 1(1) assms(2)]
  have o: "same_vm vm v1" "\<forall>Q \<in> set (di_ops I). opnd_clear (cx_D X) vm (gs_now X vm I) Q"
    using operands_symbolic_ok [OF 1(1) assms(2)] assms(3) by (auto simp: insn_placed_def)
  obtain v2 e2 env where 2: "refs_symbolic X v1 0 (di_imp_rd I) e1 = Inr (v2, e2, False)" "refs_symbolic X v2 0 (di_imp_wr I) e2 = Inr (vm', env, False)"
    using 1(2) by (auto simp: checkImplicitMemAccess_def rbind_eq_Inr_iff split: if_splits)
  note k1 = same_vm_okD [OF assms(2) o(1)]
  have p: "\<forall>R \<in> set (di_imp_rd I) \<union> set (di_imp_wr I). ref_placed (cx_D X) vm 0 R" using assms(3) by (simp add: insn_placed_def)
  have r1: "same_vm v1 v2" "\<forall>R \<in> set (di_imp_rd I). ref_clear (cx_D X) v1 0 R"
    using refs_symbolic_ok [OF 2(1) k1] p by (simp_all add: same_vm_views(5) [OF o(1)])
  note s2 = same_vm_trans [OF o(1) r1(1)]
  have r2: "same_vm v2 vm'" "\<forall>R \<in> set (di_imp_wr I). ref_clear (cx_D X) v2 0 R"
    using refs_symbolic_ok [OF 2(2) same_vm_okD [OF assms(2) s2]] p by (simp_all add: same_vm_views(5) [OF s2])
  show ?thesis using o r1 r2 same_vm_trans [OF s2 r2(1)] by (auto simp: same_vm_views(4) [OF o(1)] same_vm_views(4) [OF s2])
qed

theorem concrete_execution_sees_no_symbol_witness:
  "\<exists>vm' I'. hasSymOperand ex_ctx ex_vm (ex_insn (Mov e_mov) c_OtherInsn True [ex_operand True (\<lambda>env. None)]) = Inr (vm', I', False) \<and>
    opnd_clear ex_dapi ex_vm 0 (ex_operand True (\<lambda>env. None)) \<and> same_vm ex_vm vm'"
proof -
  let ?Q = "ex_operand True (\<lambda>env. None)"
  let ?I = "ex_insn (Mov e_mov) c_OtherInsn True [?Q]"
  have m: "mem_range 0x2000 8" by (simp add: mem_range_def int_sizes_def op_range_def)
  have ok: "vm_wf ex_vm" using ex_operands(8) by (simp add: vm_ok_def)
  have "vm_isSYMemoryCell ex_vm 0x2000 8 = Inr False"
    using isSYMemoryCell_ok [OF vm_wfD(1) [OF ok] m] fun_cong [OF ex_vm_ok(2), of "InMem b" for b]
    by (simp add: vm_isSYMemoryCell_def vm_mem_def)
  then have h: "hasSymOperand ex_ctx ex_vm ?I = Inr (ex_vm, ?I, False)"
    by (simp add: hasSymOperand_def ex_insn_def ex_operand_def ex_instr_def thin_isUseGS_def OpdhasSymMemCell_def ref_symbolic_def
        eval_defined_def with_gs_def checkImplicitMemAccess_def)
  have g: "gs_now ex_ctx ex_vm ?I = 0" by (simp add: gs_now_def ex_insn_def ex_instr_def)
  have "insn_placed ex_ctx ex_vm ?I"
    unfolding insn_placed_def g using m by (simp add: ref_placed_def saved_regs_def ex_insn_def ex_operand_def with_gs_def)
  then show ?thesis
    using concrete_execution_sees_no_symbol [OF h ex_operands(8)] h unfolding g by (simp add: ex_insn_def ex_ctx_def)
qed


end
