(* ===== verification/Fat_Ctrl.thy ===== *)
theory Fat_Ctrl
  imports Thin_Ctrl
begin

text \<open>
  The fat control (class CFattCtrl of fatctrl.h and fatctrl.cpp) decides when the analyser takes over from the native
  kernel: it copies pages of kernel code into pages of its own, puts int3 at the calls of a function,
  emulates the call when such an int3 is hit, and answers the exceptions of watched memory. Kernel and analyser
  share one address space, the physical memory of the machine's state. Parameters are those of the thin
  control, the address valloc returns, and what the hypercall that redirects a page does to memory.
\<close>

section \<open>State\<close>

record call_insn =
  ci_addr :: u64
  ci_dest :: u64
  ci_len :: int

text \<open>The calls of a function: how many there are said to be, and those read before the file ended; none if it ended before the number.\<close>

record func_calls =
  func_addr :: u64
  call_insts :: "(int \<times> call_insn list) option"

record hook_info =
  hi_addr :: u64
  hi_dest :: u64
  hi_len :: int
  hi_byte :: u8

record redir_page_info =
  orig_t_page_addr :: u64
  new_ana_page_addr :: u64
  page_offset :: u64

record pool =
  pl_next :: u64
  pl_end :: u64

record event_meta =
  t_int3_stack :: u64
  t_ve_stack :: u64
  virt_exce_area :: u64

text \<open>
  The pool is missing until it is made. Of the probes and of the database the part in use is kept: the
  length of probe_orig_inst is crt_int3_idx.
\<close>

record 'z fat =
  f_thin :: "'z thin"
  m_page_pool :: "pool option"
  crt_max_redir_idx :: nat
  crt_redir_idx :: nat
  redir_code_pages :: "redir_page_info list"
  m_func_call :: "func_calls list"
  probe_orig_inst :: "hook_info list"
  m_emeta :: event_meta
  f_dr7 :: u32

record 'z fctx =
  fc_K :: "'z tctx"
  fc_valloc :: u64
  fc_redirect :: "u64 \<Rightarrow> u64 \<Rightarrow> (u64 \<Rightarrow> u8) \<Rightarrow> (u64 \<Rightarrow> u8)"

definition MAX_INT3 :: nat where "MAX_INT3 = 30"
definition MAX_Redir_Code_Page :: nat where "MAX_Redir_Code_Page = 8"
definition MAX_FUNCS :: nat where "MAX_FUNCS = 44020"

definition f_mem :: "'z fat \<Rightarrow> u64 \<Rightarrow> u8" where
  "f_mem F = phys (m_MEM (t_vm (f_thin F)))"

definition with_mem :: "(u64 \<Rightarrow> u8) \<Rightarrow> 'z fat \<Rightarrow> 'z fat" where
  "with_mem ph F = F\<lparr>f_thin := (f_thin F)\<lparr>t_vm := (t_vm (f_thin F))\<lparr>m_MEM := (m_MEM (t_vm (f_thin F)))\<lparr>phys := ph\<rparr>\<rparr>\<rparr>\<rparr>"

abbreviation f_vm :: "'z fat \<Rightarrow> VMState" where "f_vm F \<equiv> t_vm (f_thin F)"

definition with_vm :: "VMState \<Rightarrow> 'z fat \<Rightarrow> 'z fat" where
  "with_vm vm F = F\<lparr>f_thin := (f_thin F)\<lparr>t_vm := vm\<rparr>\<rparr>"

section \<open>The database of calls\<close>

text \<open>fgets with a buffer of 128 bytes, strcpy, which stops at a NUL, and strtok with one delimiter.\<close>

fun fgets :: "nat \<Rightarrow> string \<Rightarrow> string \<times> string" where
  "fgets 0 s = ([], s)"
| "fgets (Suc n) [] = ([], [])"
| "fgets (Suc n) (c # s) = (if c = CHR 0x0A then ([c], s) else let (l, r) = fgets n s in (c # l, r))"

definition next_chunk :: "string \<Rightarrow> (string \<times> string) option" where
  "next_chunk s = (if s = [] then None else let (l, r) = fgets 127 s in Some (takeWhile (\<lambda>c. c \<noteq> CHR 0x00) l, r))"

definition strtok :: "char \<Rightarrow> string \<Rightarrow> (string \<times> string) option" where
  "strtok d s =
     (case dropWhile (\<lambda>c. c = d) s of
        [] \<Rightarrow> None
      | t \<Rightarrow> Some (takeWhile (\<lambda>c. c \<noteq> d) t, drop 1 (dropWhile (\<lambda>c. c \<noteq> d) t)))"

definition strtoul16 :: "string \<Rightarrow> u64" where
  "strtoul16 s = (case scan_llx s of Some (v, r) \<Rightarrow> v | None \<Rightarrow> 0)"

definition strtol10 :: "string \<Rightarrow> int" where
  "strtol10 s = (case scan_d s of Some v \<Rightarrow> v | None \<Rightarrow> 0)"

text \<open>The line of a call: its address, its length, and its destination if it is written as a number that begins with f.\<close>

definition parse_call :: "string \<Rightarrow> call_insn res" where
  "parse_call line =
     rbind (deref (strtok (CHR '' '') line)) (\<lambda>(a, s).
     rbind (deref (strtok (CHR '' '') s)) (\<lambda>(l, s).
     rbind (deref (strtok (CHR '' '') s)) (\<lambda>(t, s).
     Inr \<lparr>ci_addr = strtoul16 a, ci_dest = (if hd t \<noteq> CHR ''f'' then 0 else strtoul16 t), ci_len = strtol10 l\<rparr>)))"

fun read_calls :: "nat \<Rightarrow> string \<Rightarrow> (call_insn list \<times> string) res" where
  "read_calls 0 s = Inr ([], s)"
| "read_calls (Suc n) s =
     (case next_chunk s of
        None \<Rightarrow> Inr ([], s)
      | Some (line, s) \<Rightarrow> rbind (parse_call line) (\<lambda>c. rbind (read_calls n s) (\<lambda>(cs, s). Inr (c # cs, s))))"

text \<open>
  The character before the last decides whether a line names a function; a line of less than two characters
  is read before its start.
\<close>

definition is_func_line :: "string \<Rightarrow> bool res" where
  "is_func_line line = (if length line < 2 then Inl OutOfBounds else Inr (line ! (length line - 2) = CHR '':''))"

definition read_func :: "string \<Rightarrow> string \<Rightarrow> (func_calls \<times> string) res" where
  "read_func line s =
     rbind (deref (strtok (CHR '':'') line)) (\<lambda>(tmp, rest).
     case next_chunk s of
       None \<Rightarrow> Inr (\<lparr>func_addr = strtoul16 tmp, call_insts = None\<rparr>, s)
     | Some (line, s) \<Rightarrow>
         rbind (read_calls (nat (strtol10 line)) s) (\<lambda>(cs, s).
         Inr (\<lparr>func_addr = strtoul16 tmp, call_insts = Some (strtol10 line, cs)\<rparr>, s)))"

text \<open>The bound is the number of lines at most: every turn reads one.\<close>

fun read_funcs :: "nat \<Rightarrow> func_calls list \<Rightarrow> string \<Rightarrow> func_calls list res" where
  "read_funcs 0 db s = Inl Diverges"
| "read_funcs (Suc n) db s =
     (case next_chunk s of
        None \<Rightarrow> Inr db
      | Some (line, s) \<Rightarrow>
          rbind (is_func_line line) (\<lambda>b.
          if \<not> b then read_funcs n db s
          else if length db \<ge> MAX_FUNCS then Inl OutOfBounds
          else rbind (read_func line s) (\<lambda>(f, s). read_funcs n (db @ [f]) s)))"

definition InitFuncDB :: "string option \<Rightarrow> func_calls list res" where
  "InitFuncDB file = (case file of None \<Rightarrow> Inl ExitFailure | Some s \<Rightarrow> read_funcs (length s + 1) [] s)"

text \<open>
  The search. The address of the middle is kept in an int, which the comparison extends with its sign. The
  rest of the array is not written.
\<close>

definition mid_val :: "func_calls list \<Rightarrow> int \<Rightarrow> u64 res" where
  "mid_val db mid =
     (if 0 \<le> mid \<and> mid < int MAX_FUNCS
      then if nat mid < length db then Inr (signed_take_bit 31 (func_addr (db ! nat mid))) else Inl Uninit
      else Inl OutOfBounds)"

function search_func :: "func_calls list \<Rightarrow> u64 \<Rightarrow> int \<Rightarrow> int \<Rightarrow> int res" where
  "search_func db addr low high =
     (if low \<le> high
      then let mid = (low + high) div 2
           in case mid_val db mid of
                Inl f \<Rightarrow> Inl f
              | Inr midVal \<Rightarrow>
                  if midVal < addr then search_func db addr (mid + 1) high
                  else if midVal > addr then search_func db addr low (mid - 1)
                  else Inr mid
      else Inr (- 1))"
  by pat_completeness auto
termination
  by (relation "measure (\<lambda>(db, addr, low, high). nat (high + 1 - low))") auto

declare search_func.simps [simp del]

definition FindFuncCallInfo :: "func_calls list \<Rightarrow> u64 \<Rightarrow> int res" where
  "FindFuncCallInfo db addr = search_func db addr 0 44019"

section \<open>Pages of code\<close>

definition PoolInit :: "u64 \<Rightarrow> u64 \<Rightarrow> 'z fat \<Rightarrow> 'z fat" where
  "PoolInit temp sz F =
     (with_mem (\<lambda>x. if x - temp < sz then 0 else f_mem F x) F)\<lparr>m_page_pool := Some \<lparr>pl_next = temp + 0x1000, pl_end = temp + sz\<rparr>\<rparr>"

definition InitRediPagePool :: "'z fctx \<Rightarrow> 'z fat \<Rightarrow> 'z fat" where
  "InitRediPagePool C F = PoolInit (fc_valloc C) (0x1000 * of_nat MAX_Redir_Code_Page) F"

definition PoolCheckAvail :: "pool \<Rightarrow> u64" where
  "PoolCheckAvail p = pl_end p - pl_next p"

definition PoolAlloc :: "pool \<Rightarrow> u64 \<Rightarrow> pool \<times> u64 option" where
  "PoolAlloc p sz =
     (if PoolCheckAvail p < sz then (p, None) else (p\<lparr>pl_next := pl_next p + sz\<rparr>, Some (pl_next p)))"

definition copy_page :: "u64 \<Rightarrow> u64 \<Rightarrow> (u64 \<Rightarrow> u8) \<Rightarrow> u64 \<Rightarrow> u8" where
  "copy_page dst src ph = (\<lambda>x. if x - dst < 0x1000 then ph (src + (x - dst)) else ph x)"

definition RedirCodePageHyperCall :: "'z fctx \<Rightarrow> u64 \<Rightarrow> 'z fat \<Rightarrow> 'z fat res" where
  "RedirCodePageHyperCall C ker_addr F =
     rbind (if crt_max_redir_idx F = MAX_Redir_Code_Page then vmcall (tc_hv (fc_K C)) (Some 0x999999) (Inr ()) else Inr ()) (\<lambda>u.
     case m_page_pool F of
        None \<Rightarrow> Inl Uninit
      | Some p \<Rightarrow>
          (let (p, mem) = PoolAlloc p 0x1000
           in rbind (deref mem) (\<lambda>new_va.
              rbind (arr_set (redir_code_pages F) (crt_max_redir_idx F)
                \<lparr>orig_t_page_addr = ker_addr, new_ana_page_addr = new_va, page_offset = ker_addr - new_va\<rparr>) (\<lambda>pages.
              Inr ((with_mem (fc_redirect C ker_addr new_va (copy_page new_va ker_addr (f_mem F))) F)
                \<lparr>m_page_pool := Some p, redir_code_pages := pages, crt_redir_idx := crt_max_redir_idx F,
                 crt_max_redir_idx := crt_max_redir_idx F + 1\<rparr>)))))"

text \<open>The loop over the pages in use: where it ends, and the last page found. It ends behind the last page in any case.\<close>

fun find_page :: "redir_page_info list \<Rightarrow> u64 \<Rightarrow> nat \<Rightarrow> nat \<Rightarrow> nat \<times> nat" where
  "find_page [] tempAddr i idx = (i, idx)"
| "find_page (p # ps) tempAddr i idx = find_page ps tempAddr (i + 1) (if tempAddr = orig_t_page_addr p then i else idx)"

definition update_crt_redir_idx :: "'z fctx \<Rightarrow> u64 \<Rightarrow> 'z fat \<Rightarrow> 'z fat res" where
  "update_crt_redir_idx C tempAddr F =
     (let (i, idx) = find_page (take (crt_max_redir_idx F) (redir_code_pages F)) tempAddr 0 (crt_redir_idx F);
          F = F\<lparr>crt_redir_idx := idx\<rparr>
      in if i = crt_max_redir_idx F then RedirCodePageHyperCall C tempAddr F else Inr F)"

section \<open>Probes\<close>

definition page_of :: "u64 \<Rightarrow> u64" where
  "page_of a = a AND NOT 0xfff"

text \<open>The first byte of the call is kept, and int3 goes into the copy of the page; a vmcall reports that the array of probes is full.\<close>

definition InstallPerInt3 :: "hypervisor \<Rightarrow> u64 \<Rightarrow> int \<Rightarrow> u64 \<Rightarrow> 'z fat \<Rightarrow> 'z fat res" where
  "InstallPerInt3 V addr len dest F =
     (if length (probe_orig_inst F) \<ge> MAX_INT3 then Inl OutOfBounds
      else rbind (arr_get (redir_code_pages F) (crt_redir_idx F)) (\<lambda>p.
        let F = (with_mem ((f_mem F)(addr - page_offset p := 0xcc)) F)\<lparr>probe_orig_inst := probe_orig_inst F @
               [\<lparr>hi_addr = addr, hi_dest = dest, hi_len = len, hi_byte = f_mem F addr\<rparr>]\<rparr>
        in if length (probe_orig_inst F) \<ge> MAX_INT3 then vmcall V (Some 0x999999) (Inr F) else Inr F))"

text \<open>A call is read from the array of its function; a negative number of calls is a size malloc refuses.\<close>

definition get_call :: "func_calls \<Rightarrow> nat \<Rightarrow> call_insn res" where
  "get_call f i =
     (case call_insts f of
        None \<Rightarrow> Inl Uninit
      | Some (n, cs) \<Rightarrow>
          if n < 0 then Inl NullDeref
          else if int i < n then (if i < length cs then Inr (cs ! i) else Inl Uninit) else Inl OutOfBounds)"

definition num_call :: "func_calls \<Rightarrow> int res" where
  "num_call f = (case call_insts f of None \<Rightarrow> Inl Uninit | Some (n, cs) \<Rightarrow> Inr n)"

definition install_call :: "'z fctx \<Rightarrow> bool \<Rightarrow> call_insn \<Rightarrow> 'z fat \<Rightarrow> 'z fat res" where
  "install_call C newFunc c F =
     rbind (if newFunc then Inr True
            else rbind (arr_get (redir_code_pages F) (crt_redir_idx F)) (\<lambda>p. Inr (page_of (ci_addr c) \<noteq> orig_t_page_addr p))) (\<lambda>other.
     rbind (if other then update_crt_redir_idx C (page_of (ci_addr c)) F else Inr F) (\<lambda>F.
     InstallPerInt3 (tc_hv (fc_K C)) (ci_addr c) (ci_len c) (ci_dest c) F))"

fun install_calls :: "'z fctx \<Rightarrow> func_calls \<Rightarrow> nat list \<Rightarrow> 'z fat \<Rightarrow> 'z fat res" where
  "install_calls C f [] F = Inr F"
| "install_calls C f (i # is) F =
     rbind (get_call f i) (\<lambda>c. rbind (install_call C False c F) (install_calls C f is))"

text \<open>The first call is read whether there is one or not.\<close>

definition InstallInt3ForFunc :: "'z fctx \<Rightarrow> u64 \<Rightarrow> 'z fat \<Rightarrow> 'z fat res" where
  "InstallInt3ForFunc C a F =
     rbind (FindFuncCallInfo (m_func_call F) a) (\<lambda>func_idx.
     if func_idx = - 1 then Inr F
     else let f = m_func_call F ! nat func_idx
          in rbind (num_call f) (\<lambda>total. rbind (get_call f 0) (\<lambda>c.
             rbind (install_call C True c F) (install_calls C f [1..<nat total]))))"

definition MoniStartOfSE :: "'z fctx \<Rightarrow> u64 \<Rightarrow> 'z fat \<Rightarrow> ('z fat \<times> bool) res" where
  "MoniStartOfSE C addr F =
     rbind (update_crt_redir_idx C (page_of addr) F) (\<lambda>F.
     rbind (InstallPerInt3 (tc_hv (fc_K C)) addr 5 0xffffffff810b6080 F) (\<lambda>F. Inr (F, True)))"

section \<open>Exceptions\<close>

text \<open>
  A probe without a destination is reported by a vmcall, and the search goes on; so is the end of the list, behind which the
  function returns no value.
\<close>

fun find_probe :: "hypervisor \<Rightarrow> hook_info list \<Rightarrow> u64 \<Rightarrow> hook_info res" where
  "find_probe V [] rip = vmcall V (Some 0xfff) (Inl Uninit)"
| "find_probe V (h # hs) rip =
     (if hi_addr h = rip
      then if hi_dest h \<noteq> 0 then Inr h else vmcall V (Some 0xfff) (find_probe V hs rip)
      else find_probe V hs rip)"

text \<open>The words of the frame the processor pushed: instruction pointer, code segment, flags, stack pointer.\<close>

definition frame_word :: "u64 \<Rightarrow> nat \<Rightarrow> 'z fat \<Rightarrow> u64" where
  "frame_word stack i F = get_bytes 8 (stack - 0x28 + of_nat (8 * i)) (f_mem F)"

definition emulCall :: "hypervisor \<Rightarrow> 'z fat \<Rightarrow> ('z fat \<times> u64) res" where
  "emulCall V F =
     (let saved_rip = frame_word (t_int3_stack (m_emeta F)) 0 F - 1;
          saved_rflags = frame_word (t_int3_stack (m_emeta F)) 2 F;
          saved_rsp = frame_word (t_int3_stack (m_emeta F)) 3 F
      in rbind (find_probe V (probe_orig_inst F) saved_rip) (\<lambda>h.
         let F = with_mem (put_bytes 8 (saved_rsp - 8) (saved_rip + word_of_int (hi_len h)) (f_mem F)) F
         in rbind (set_pt_reg RSP_PTRIDX (saved_rsp - 8) (f_vm F)) (\<lambda>vm.
            rbind (set_pt_reg EFL_PTRIDX saved_rflags vm) (\<lambda>vm.
            rbind (set_pt_reg RIP_PTRIDX (hi_dest h) vm) (\<lambda>vm. Inr (with_vm vm F, hi_dest h))))))"

definition INT3Handler :: "'z fctx \<Rightarrow> 'z fat \<Rightarrow> 'z fat res" where
  "INT3Handler C F = rbind (emulCall (tc_hv (fc_K C)) F) (\<lambda>(F, call_dest). InstallInt3ForFunc C call_dest F)"

text \<open>
  A violation on watched memory: a fetch is reported by a vmcall, and so is an access to a symbolic cell, and nothing else is
  done; otherwise the instruction is run once.
\<close>

definition VEHandler :: "'z fctx \<Rightarrow> 'z fat \<Rightarrow> 'z fat res" where
  "VEHandler C F =
     (let area = virt_exce_area (m_emeta F); exit_qual = get_bytes 8 (area + 8) (f_mem F)
      in if exit_qual AND 4 \<noteq> 0 then vmcall (tc_hv (fc_K C)) (Some 0x99999) (Inr F)
         else let va = get_bytes 8 (area + 16) (f_mem F); saved_rip = frame_word (t_ve_stack (m_emeta F)) 0 F
              in rbind (vm_isSYMemoryCell (f_vm F) va 8) (\<lambda>ret.
                 let F = with_mem (put_bytes 8 area 0 (f_mem F)) F
                 in if ret then vmcall (tc_hv (fc_K C)) (Some 0x99999999) (Inr F)
                    else rbind (ExecOneInsn (fc_K C) (f_thin F) saved_rip) (\<lambda>(T, r). Inr (F\<lparr>f_thin := T\<rparr>))))"

text \<open>For an index not listed the mask is never assigned.\<close>

definition dr7_mask :: "hypervisor \<Rightarrow> int \<Rightarrow> u32 res" where
  "dr7_mask V idx =
     (if idx = 0 then Inr 0xfff0fffc else if idx = 1 then Inr 0xff0ffff3 else if idx = 2 then Inr 0xf0ffffcf
      else if idx = 3 then Inr 0x0fffff3f else vmcall V (Some 0xabcdabcd) (Inl Uninit))"

definition clear_dr :: "hypervisor \<Rightarrow> int \<Rightarrow> 'z fat \<Rightarrow> 'z fat res" where
  "clear_dr V idx F = rbind (dr7_mask V idx) (\<lambda>m. Inr (F\<lparr>f_dr7 := f_dr7 F AND m\<rparr>))"

definition DBHandler :: "'z fctx \<Rightarrow> 'z fat \<Rightarrow> 'z fat res" where
  "DBHandler C F = rbind (clear_dr (tc_hv (fc_K C)) 0 F) (\<lambda>F. vmcall (tc_hv (fc_K C)) (Some 0x99999999) (Inr F))"

section \<open>Functions\<close>

definition CheckFuncSym :: "u64 \<Rightarrow> bool" where
  "CheckFuncSym addr = True"

definition processFunc :: "nat \<Rightarrow> 'z fctx \<Rightarrow> string list option \<Rightarrow> u64 \<Rightarrow> 'z fat \<Rightarrow> ('z fat \<times> bool) res" where
  "processFunc n C file addr F =
     (if \<not> CheckFuncSym addr then Inr (F, False)
      else rbind (processFunction n (fc_K C) file (f_thin F)) (\<lambda>(T, r). Inr (F\<lparr>f_thin := T\<rparr>, True)))"

definition new_CFattCtrl :: "'z thin \<Rightarrow> event_meta \<Rightarrow> u32 \<Rightarrow> string option \<Rightarrow> 'z fat res" where
  "new_CFattCtrl T meta dr7 file =
     rbind (InitFuncDB file) (\<lambda>db. Inr \<lparr>f_thin = T, m_page_pool = None, crt_max_redir_idx = 0, crt_redir_idx = 0,
       redir_code_pages = replicate MAX_Redir_Code_Page \<lparr>orig_t_page_addr = 0, new_ana_page_addr = 0, page_offset = 0\<rparr>,
       m_func_call = db, probe_orig_inst = [], m_emeta = meta, f_dr7 = dr7\<rparr>)"

section \<open>Searching\<close>

definition kernel_addr :: "u64 \<Rightarrow> bool" where
  "kernel_addr a \<longleftrightarrow> signed_take_bit 31 a = a"

definition sorted_db :: "func_calls list \<Rightarrow> bool" where
  "sorted_db db \<longleftrightarrow> length db = MAX_FUNCS \<and> sorted_wrt (\<lambda>f g. func_addr f < func_addr g) db \<and>
     (\<forall>f \<in> set db. kernel_addr (func_addr f))"

lemma sorted_db_less:
  assumes "sorted_db db" "i < length db" "j < length db"
  shows "func_addr (db ! i) < func_addr (db ! j) \<longleftrightarrow> i < j"
proof -
  have "sorted_wrt (\<lambda>f g. func_addr f < func_addr g) db" using assms(1) by (simp add: sorted_db_def)
  from sorted_wrt_nth_less [OF this] show ?thesis
    using assms(2,3) by (metis linorder_less_linear order_less_asym)
qed

definition found :: "func_calls list \<Rightarrow> u64 \<Rightarrow> int \<Rightarrow> bool" where
  "found db addr r \<longleftrightarrow>
     (if addr \<in> func_addr ` set db then 0 \<le> r \<and> r < int MAX_FUNCS \<and> func_addr (db ! nat r) = addr else r = - 1)"

lemma search_func_found:
  assumes "sorted_db db" "0 \<le> low" "high < int MAX_FUNCS"
    and "\<forall>i < length db. func_addr (db ! i) = addr \<longrightarrow> low \<le> int i \<and> int i \<le> high"
  shows "\<exists>r. search_func db addr low high = Inr r \<and> found db addr r"
  using assms
proof (induction db addr low high rule: search_func.induct)
  case (1 db addr low high)
  have l: "length db = MAX_FUNCS" using "1.prems"(1) by (simp add: sorted_db_def)
  show ?case
  proof (cases "low \<le> high")
    case False
    have "addr \<notin> func_addr ` set db"
    proof
      assume "addr \<in> func_addr ` set db"
      then obtain i where "i < length db" "func_addr (db ! i) = addr" by (auto simp: in_set_conv_nth)
      then show False using "1.prems"(4) False by force
    qed
    then show ?thesis using False by (simp add: search_func.simps [of db addr low high] found_def)
  next
    case True
    let ?m = "(low + high) div 2"
    have m: "low \<le> ?m" "?m \<le> high" "nat ?m < length db" using True "1.prems"(2,3) l by auto
    have "kernel_addr (func_addr (db ! nat ?m))" using "1.prems"(1) m(3) by (simp add: sorted_db_def)
    then have v: "mid_val db ?m = Inr (func_addr (db ! nat ?m))"
      using m "1.prems"(2,3) by (simp add: mid_val_def kernel_addr_def)
    consider (less) "func_addr (db ! nat ?m) < addr" | (greater) "addr < func_addr (db ! nat ?m)" | (eq) "func_addr (db ! nat ?m) = addr"
      by (rule linorder_cases)
    then show ?thesis
    proof cases
      case less
      have "\<forall>i < length db. func_addr (db ! i) = addr \<longrightarrow> ?m + 1 \<le> int i \<and> int i \<le> high"
      proof (intro allI impI)
        fix i assume i: "i < length db" "func_addr (db ! i) = addr"
        have "nat ?m < i" using sorted_db_less [OF "1.prems"(1) m(3) i(1)] less i(2) by simp
        then show "?m + 1 \<le> int i \<and> int i \<le> high" using "1.prems"(4) i by auto
      qed
      then have "\<exists>r. search_func db addr (?m + 1) high = Inr r \<and> found db addr r"
        using "1.IH"(1) [OF True refl v less "1.prems"(1)] m "1.prems"(2,3) by simp
      then show ?thesis using True v less by (simp add: search_func.simps [of db addr low high] Let_def)
    next
      case greater
      have "\<forall>i < length db. func_addr (db ! i) = addr \<longrightarrow> low \<le> int i \<and> int i \<le> ?m - 1"
      proof (intro allI impI)
        fix i assume i: "i < length db" "func_addr (db ! i) = addr"
        have "i < nat ?m" using sorted_db_less [OF "1.prems"(1) i(1) m(3)] greater i(2) by simp
        then show "low \<le> int i \<and> int i \<le> ?m - 1" using "1.prems"(4) i by auto
      qed
      moreover have "\<not> func_addr (db ! nat ?m) < addr" using greater by simp
      ultimately have "\<exists>r. search_func db addr low (?m - 1) = Inr r \<and> found db addr r"
        using "1.IH"(2) [OF True refl v _ greater "1.prems"(1)] m "1.prems"(2,3) by simp
      then show ?thesis using True v greater \<open>\<not> func_addr (db ! nat ?m) < addr\<close> by (simp add: search_func.simps [of db addr low high] Let_def)
    next
      case eq
      then have "addr \<in> func_addr ` set db" using m(3) by force
      then show ?thesis using True v eq m "1.prems"(2,3) l by (auto simp: search_func.simps [of db addr low high] Let_def found_def)
    qed
  qed
qed

lemma FindFuncCallInfo_iff:
  assumes "sorted_db db"
  shows "FindFuncCallInfo db addr = Inr r \<longleftrightarrow>
    (if addr \<in> func_addr ` set db then 0 \<le> r \<and> r < int MAX_FUNCS \<and> func_addr (db ! nat r) = addr else r = - 1)"
proof -
  have l: "length db = MAX_FUNCS" using assms by (simp add: sorted_db_def)
  obtain r0 where r0: "FindFuncCallInfo db addr = Inr r0" "found db addr r0"
    using search_func_found [OF assms, of 0 44019 addr] l by (auto simp: FindFuncCallInfo_def MAX_FUNCS_def)
  have "r = r0" if "found db addr r"
  proof (cases "addr \<in> func_addr ` set db")
    case True
    then have "nat r < length db" "nat r0 < length db" "func_addr (db ! nat r) = func_addr (db ! nat r0)" "0 \<le> r" "0 \<le> r0"
      using that r0(2) l by (auto simp: found_def)
    then show ?thesis using sorted_db_less [OF assms] by (metis eq_nat_nat_iff less_irrefl linorder_cases)
  next
    case False
    then show ?thesis using that r0(2) by (simp add: found_def)
  qed
  then show ?thesis using r0 unfolding found_def [symmetric] by auto
qed

text \<open>C21. On a full database, in increasing order of addresses that fit the sign-extended int of the search, the search
  ends for every address; it returns the one index of the function that starts there, and -1 if none does.\<close>

theorem search_finds_function:
  assumes "sorted_db db"
  shows "FindFuncCallInfo db addr = Inr r \<longleftrightarrow>
    (if addr \<in> func_addr ` set db then 0 \<le> r \<and> r < int MAX_FUNCS \<and> func_addr (db ! nat r) = addr else r = - 1)"
  by (rule FindFuncCallInfo_iff [OF assms])

definition ex_db :: "func_calls list" where
  "ex_db = map (\<lambda>i. \<lparr>func_addr = 0xffffffff81000000 + of_nat i, call_insts = None\<rparr>) [0..<MAX_FUNCS]"

lemma kernel_addr_of_int:
  assumes "- (2 ^ 31) \<le> k" "k < 2 ^ 31"
  shows "kernel_addr (word_of_int k)"
proof -
  have k: "signed_take_bit 31 k = k" using assms by (simp add: signed_take_bit_int_eq_self)
  have "bit k (min n 31) = bit k n" for n
    using bit_signed_take_bit_iff [of 31 k n] unfolding k by (simp add: min.commute)
  moreover have "min n (31 :: nat) < 64" for n by (simp add: min_def)
  ultimately show ?thesis unfolding kernel_addr_def by (intro bit_word_eqI) (simp add: bit_simps min.commute)
qed

lemma ex_db_at: "i < MAX_FUNCS \<Longrightarrow> func_addr (ex_db ! i) = 0xffffffff81000000 + of_nat i"
  by (simp add: ex_db_def)

lemma ex_base_unat: "n < MAX_FUNCS \<Longrightarrow> unat (0xffffffff81000000 + of_nat n :: u64) = 0xffffffff81000000 + n"
  by (simp add: unat_word_ariths unat_of_nat MAX_FUNCS_def)

lemma ex_base: "(0xffffffff81000000 :: u64) = word_of_int (- 0x7f000000)"
  by (rule word_eq_iff_unsigned [THEN iffD2]) simp

lemma ex_db_sorted: "sorted_db ex_db"
proof -
  have l: "length ex_db = MAX_FUNCS" by (simp add: ex_db_def)
  have "func_addr (ex_db ! i) < func_addr (ex_db ! j)" if "i < j" "j < MAX_FUNCS" for i j
  proof -
    show ?thesis using that by (simp add: ex_db_at word_less_nat_alt ex_base_unat)
  qed
  moreover have "kernel_addr (func_addr (ex_db ! i))" if "i < MAX_FUNCS" for i
    
  proof -
    have "func_addr (ex_db ! i) = word_of_int (- 0x7f000000 + int i)" unfolding ex_db_at [OF that] ex_base by simp
    moreover have "kernel_addr (word_of_int (- 0x7f000000 + int i))"
      by (rule kernel_addr_of_int) (use that in \<open>simp_all add: MAX_FUNCS_def\<close>)
    ultimately show ?thesis by simp
  qed
  ultimately show ?thesis using l by (auto simp: sorted_db_def sorted_wrt_iff_nth_less in_set_conv_nth)
qed

theorem search_finds_function_witness:
  "FindFuncCallInfo ex_db 0xffffffff8100002a = Inr 42 \<and> FindFuncCallInfo ex_db 0x42 = Inr (- 1)"
proof
  have l: "length ex_db = MAX_FUNCS" by (simp add: ex_db_def)
  have m: "42 < MAX_FUNCS" by (simp add: MAX_FUNCS_def)
  have a: "func_addr (ex_db ! 42) = 0xffffffff8100002a" using ex_db_at [OF m] by simp
  have "0xffffffff8100002a \<in> func_addr ` set ex_db" unfolding a [symmetric] using m l by (intro imageI nth_mem) simp
  then show "FindFuncCallInfo ex_db 0xffffffff8100002a = Inr 42"
    using search_finds_function [OF ex_db_sorted, of "0xffffffff8100002a" 42] a m by simp
  have "0x42 \<notin> func_addr ` set ex_db"
  proof
    assume "0x42 \<in> func_addr ` set ex_db"
    then obtain i where i: "i < MAX_FUNCS" "func_addr (ex_db ! i) = 0x42" using l by (auto simp: in_set_conv_nth)
    then have "0xffffffff81000000 + i = unat (0x42 :: u64)" by (metis ex_db_at ex_base_unat)
    then show False by simp
  qed
  then show "FindFuncCallInfo ex_db 0x42 = Inr (- 1)" using search_finds_function [OF ex_db_sorted, of "0x42" "- 1"] by simp
qed
section \<open>The pool of pages\<close>

definition page_at :: "u64 \<Rightarrow> nat \<Rightarrow> u64" where
  "page_at b i = b + 0x1000 * of_nat (i + 1)"

text \<open>
  The state of the pool that starts at b: the first of its eight pages is never used, so seven are left. The page in use is
  always the last one taken.
\<close>

definition pages_ok :: "u64 \<Rightarrow> 'z fat \<Rightarrow> bool" where
  "pages_ok b F \<longleftrightarrow> crt_max_redir_idx F \<le> 7 \<and> crt_redir_idx F = crt_max_redir_idx F - 1 \<and>
     m_page_pool F = Some \<lparr>pl_next = page_at b (crt_max_redir_idx F), pl_end = b + 0x8000\<rparr> \<and> length (redir_code_pages F) = 8 \<and>
     (\<forall>i < crt_max_redir_idx F. new_ana_page_addr (redir_code_pages F ! i) = page_at b i \<and>
        page_offset (redir_code_pages F ! i) = orig_t_page_addr (redir_code_pages F ! i) - page_at b i)"

definition redirected :: "'z fctx \<Rightarrow> u64 \<Rightarrow> u64 \<Rightarrow> 'z fat \<Rightarrow> 'z fat" where
  "redirected C b a F =
     (let n = crt_max_redir_idx F in (with_mem (fc_redirect C a (page_at b n) (copy_page (page_at b n) a (f_mem F))) F)
       \<lparr>m_page_pool := Some \<lparr>pl_next = page_at b (n + 1), pl_end = b + 0x8000\<rparr>,
        redir_code_pages := (redir_code_pages F)[n := \<lparr>orig_t_page_addr = a, new_ana_page_addr = page_at b n, page_offset = a - page_at b n\<rparr>],
        crt_redir_idx := n, crt_max_redir_idx := n + 1\<rparr>)"

lemma with_mem_simps [simp]:
  "f_mem (with_mem ph F) = ph" "crt_max_redir_idx (with_mem ph F) = crt_max_redir_idx F" "crt_redir_idx (with_mem ph F) = crt_redir_idx F"
  "redir_code_pages (with_mem ph F) = redir_code_pages F" "m_page_pool (with_mem ph F) = m_page_pool F"
  "m_func_call (with_mem ph F) = m_func_call F" "probe_orig_inst (with_mem ph F) = probe_orig_inst F" "m_emeta (with_mem ph F) = m_emeta F"
  by (simp_all add: f_mem_def with_mem_def)

lemma f_mem_update [simp]:
  "f_mem (m_page_pool_update f F) = f_mem F" "f_mem (redir_code_pages_update g F) = f_mem F" "f_mem (crt_redir_idx_update h F) = f_mem F"
  "f_mem (crt_max_redir_idx_update k F) = f_mem F" "f_mem (probe_orig_inst_update p F) = f_mem F"
  by (simp_all add: f_mem_def)

lemma with_mem_idx: "with_mem ph (F\<lparr>crt_redir_idx := i\<rparr>) = (with_mem ph F)\<lparr>crt_redir_idx := i\<rparr>"
  by (simp add: with_mem_def)

lemma find_page_end: "fst (find_page ps a i idx) = i + length ps"
  by (induction ps a i idx rule: find_page.induct) auto

lemma pool_left: "n \<le> 7 \<Longrightarrow> b + 0x8000 - page_at b n < 0x1000 \<longleftrightarrow> n = 7"
proof -
  assume n: "n \<le> 7"
  have e: "b + 0x8000 - page_at b n = 0x7000 - 0x1000 * of_nat n" by (simp add: page_at_def algebra_simps)
  show ?thesis unfolding e using n by (simp add: word_less_nat_alt unat_sub_if' unat_word_ariths unat_of_nat) arith
qed

lemma page_at_next: "page_at b n + 0x1000 = page_at b (n + 1)"
  by (simp add: page_at_def algebra_simps)

lemma redirect_ok:
  assumes "pages_ok b F"
  shows "RedirCodePageHyperCall C a (F\<lparr>crt_redir_idx := idx\<rparr>) = (if crt_max_redir_idx F = 7 then Inl NullDeref else Inr (redirected C b a F))"
proof -
  have p: "m_page_pool F = Some \<lparr>pl_next = page_at b (crt_max_redir_idx F), pl_end = b + 0x8000\<rparr>" "crt_max_redir_idx F \<le> 7"
    "length (redir_code_pages F) = 8" using assms by (simp_all add: pages_ok_def)
  then have "arr_set (redir_code_pages F) (crt_max_redir_idx F) x = Inr ((redir_code_pages F)[crt_max_redir_idx F := x])" for x
    by (simp add: arr_set_def)
  then show ?thesis
    using p pool_left [OF p(2), of b]
    by (simp add: RedirCodePageHyperCall_def MAX_Redir_Code_Page_def PoolAlloc_def PoolCheckAvail_def deref_def page_at_next
        redirected_def Let_def with_mem_idx)
qed

lemma update_ok:
  assumes "pages_ok b F"
  shows "update_crt_redir_idx C a F = (if crt_max_redir_idx F = 7 then Inl NullDeref else Inr (redirected C b a F))"
proof -
  obtain i idx where f: "find_page (take (crt_max_redir_idx F) (redir_code_pages F)) a 0 (crt_redir_idx F) = (i, idx)" by force
  have "i = crt_max_redir_idx F"
    using find_page_end [of "take (crt_max_redir_idx F) (redir_code_pages F)" a 0 "crt_redir_idx F"] f assms by (simp add: pages_ok_def)
  then show ?thesis using f redirect_ok [OF assms, of C a idx] by (simp add: update_crt_redir_idx_def)
qed

lemma redirected_simps:
  "crt_max_redir_idx (redirected C b a F) = crt_max_redir_idx F + 1" "crt_redir_idx (redirected C b a F) = crt_max_redir_idx F"
  "f_mem (redirected C b a F) = fc_redirect C a (page_at b (crt_max_redir_idx F)) (copy_page (page_at b (crt_max_redir_idx F)) a (f_mem F))"
  "probe_orig_inst (redirected C b a F) = probe_orig_inst F" "m_func_call (redirected C b a F) = m_func_call F"
  "redir_code_pages (redirected C b a F) = (redir_code_pages F)[crt_max_redir_idx F :=
      \<lparr>orig_t_page_addr = a, new_ana_page_addr = page_at b (crt_max_redir_idx F), page_offset = a - page_at b (crt_max_redir_idx F)\<rparr>]"
  by (simp_all add: redirected_def Let_def)

lemma redirected_pages_ok: "pages_ok b F \<Longrightarrow> crt_max_redir_idx F \<noteq> 7 \<Longrightarrow> pages_ok b (redirected C b a F)"
  by (auto simp: pages_ok_def redirected_simps nth_list_update less_Suc_eq) (simp_all add: redirected_def Let_def)

lemma init_pages_ok:
  assumes "new_CFattCtrl T meta dr7 file = Inr F"
  shows "pages_ok (fc_valloc C) (InitRediPagePool C F)" "crt_max_redir_idx (InitRediPagePool C F) = 0" "probe_orig_inst (InitRediPagePool C F) = []"
  using assms
  by (auto simp: new_CFattCtrl_def rbind_eq_Inr_iff InitRediPagePool_def PoolInit_def pages_ok_def page_at_def MAX_Redir_Code_Page_def)

fun redirect_all :: "'z fctx \<Rightarrow> u64 list \<Rightarrow> 'z fat \<Rightarrow> 'z fat res" where
  "redirect_all C [] F = Inr F"
| "redirect_all C (a # as) F = rbind (update_crt_redir_idx C a F) (redirect_all C as)"

lemma redirect_all_ok:
  assumes "pages_ok b F"
  shows "if crt_max_redir_idx F + length as \<le> 7
    then \<exists>F'. redirect_all C as F = Inr F' \<and> pages_ok b F' \<and> crt_max_redir_idx F' = crt_max_redir_idx F + length as \<and>
      map orig_t_page_addr (take (crt_max_redir_idx F') (redir_code_pages F')) =
        map orig_t_page_addr (take (crt_max_redir_idx F) (redir_code_pages F)) @ as
    else redirect_all C as F = Inl NullDeref"
  using assms
proof (induction as arbitrary: F)
  case Nil
  then show ?case by (simp add: pages_ok_def)
next
  case (Cons a as)
  show ?case
  proof (cases "crt_max_redir_idx F = 7")
    case True
    then show ?thesis using update_ok [OF Cons.prems] by simp
  next
    case False
    let ?F = "redirected C b a F"
    have l: "length (redir_code_pages F) = 8" "crt_max_redir_idx F \<le> 7" using Cons.prems by (simp_all add: pages_ok_def)
    have t: "map orig_t_page_addr (take (crt_max_redir_idx ?F) (redir_code_pages ?F)) =
      map orig_t_page_addr (take (crt_max_redir_idx F) (redir_code_pages F)) @ [a]"
      using l False by (simp add: redirected_simps take_Suc_conv_app_nth)
    have u: "redirect_all C (a # as) F = redirect_all C as ?F" using False update_ok [OF Cons.prems] by simp
    note IH = Cons.IH [OF redirected_pages_ok [OF Cons.prems False, of C a]]
    show ?thesis unfolding u using IH t by (simp add: redirected_simps(1) split: if_splits)
  qed
qed

text \<open>C22. A request for a page of code always takes a new page of the pool, also when that page was copied before; from a
  fresh pool seven requests succeed, each entering its page in the table, and the eighth copies
  to the null pointer. The test that the table is full, which asks for eight pages, is never met.\<close>

theorem page_pool_runs_out:
  assumes "new_CFattCtrl T meta dr7 file = Inr F"
  shows "if length as \<le> 7
    then \<exists>F'. redirect_all C as (InitRediPagePool C F) = Inr F' \<and> pages_ok (fc_valloc C) F' \<and> crt_max_redir_idx F' = length as \<and>
      map orig_t_page_addr (take (length as) (redir_code_pages F')) = as
    else redirect_all C as (InitRediPagePool C F) = Inl NullDeref"
  using redirect_all_ok [OF init_pages_ok(1) [OF assms, of C], of as C] init_pages_ok(2) [OF assms, of C] by (auto split: if_splits)

definition ex_meta :: event_meta where
  "ex_meta = \<lparr>t_int3_stack = 0x9028, t_ve_stack = 0xa028, virt_exce_area = 0xb000\<rparr>"

definition ex_fat :: "zterm fat" where
  "ex_fat = \<lparr>f_thin = ex_T, m_page_pool = None, crt_max_redir_idx = 0, crt_redir_idx = 0,
     redir_code_pages = replicate 8 \<lparr>orig_t_page_addr = 0, new_ana_page_addr = 0, page_offset = 0\<rparr>,
     m_func_call = [], probe_orig_inst = [], m_emeta = ex_meta, f_dr7 = 0\<rparr>"

lemma ex_fat_new: "new_CFattCtrl ex_T ex_meta 0 (Some []) = Inr ex_fat"
  by (simp add: new_CFattCtrl_def InitFuncDB_def next_chunk_def ex_fat_def MAX_Redir_Code_Page_def)

definition ex_fctx :: "zterm fctx" where
  "ex_fctx = \<lparr>fc_K = ex_K, fc_valloc = 0x100000, fc_redirect = \<lambda>a n ph. ph\<rparr>"

theorem page_pool_runs_out_witness:
  "(\<exists>F'. redirect_all ex_fctx (replicate 7 0x4000) (InitRediPagePool ex_fctx ex_fat) = Inr F' \<and> crt_max_redir_idx F' = 7) \<and>
   redirect_all ex_fctx (replicate 8 0x4000) (InitRediPagePool ex_fctx ex_fat) = Inl NullDeref"
proof -
  have "length (replicate 7 (0x4000 :: u64)) \<le> 7" "\<not> length (replicate 8 (0x4000 :: u64)) \<le> 7" by simp_all
  then show ?thesis
    using page_pool_runs_out [OF ex_fat_new, of "replicate 7 0x4000" ex_fctx] page_pool_runs_out [OF ex_fat_new, of "replicate 8 0x4000" ex_fctx]
    unfolding length_replicate by auto
qed
section \<open>Probes\<close>

definition in_pool :: "u64 \<Rightarrow> u64 \<Rightarrow> bool" where
  "in_pool b x \<longleftrightarrow> x - b < 0x8000"

text \<open>The place in the i-th page of the pool for the byte at an address.\<close>

definition hook_at :: "u64 \<Rightarrow> nat \<Rightarrow> u64 \<Rightarrow> u64" where
  "hook_at b i a = page_at b i + (a AND 0xfff)"

lemma low_part: "unat (a AND 0xfff :: u64) < 0x1000"
proof -
  have e: "a AND 0xfff = take_bit 12 a" by (simp add: take_bit_eq_mask mask_eq_exp_minus_1)
  show ?thesis unfolding e unsigned_take_bit_eq using take_bit_nat_less_exp [of 12 "unat a"] by simp
qed

lemma page_split: "a - page_of a = a AND 0xfff"
proof -
  have "a = page_of a + (a AND 0xfff)"
    unfolding page_of_def by (subst disjunctive_add) (auto simp: bit_simps intro!: bit_word_eqI)
  then show ?thesis by (metis add_diff_cancel_left')
qed

lemma hook_dist: "i < 7 \<Longrightarrow> unat (hook_at b i a - b) = 0x1000 * (i + 1) + unat (a AND 0xfff)"
proof -
  assume i: "i < 7"
  have "hook_at b i a - b = 0x1000 * of_nat (i + 1) + (a AND 0xfff)" by (simp add: hook_at_def page_at_def)
  then show ?thesis using i low_part [of a] by (simp add: unat_word_ariths unat_of_nat)
qed

lemma page_dist: "n < 8 \<Longrightarrow> unat (page_at b n - b) = 0x1000 * (n + 1)"
  by (simp add: page_at_def unat_word_ariths unat_of_nat)

lemma hook_in_pool: "i < 7 \<Longrightarrow> in_pool b (hook_at b i a)"
  using hook_dist [of i b a] low_part [of a] by (simp add: in_pool_def word_less_nat_alt)

lemma far_off:
  assumes "unat v = 0x1000 * (n + 1)" "n < 7" "unat u < 0x1000 * (n + 1) \<or> 0x8000 \<le> unat u"
  shows "\<not> u - v < (0x1000 :: u64)"
proof -
  have "unat u < 2 ^ 64" using unsigned_less [of u] by simp
  then show ?thesis unfolding word_less_nat_alt unat_sub_if' assms(1) using assms(2,3) by auto
qed

lemma copy_page_outside:
  assumes "n < 7" "(\<exists>i a. i < n \<and> x = hook_at b i a) \<or> \<not> in_pool b x"
  shows "copy_page (page_at b n) src ph x = ph x"
proof -
  have d: "x - page_at b n = (x - b) - (page_at b n - b)" by simp
  have p: "unat (page_at b n - b) = 0x1000 * (n + 1)" using page_dist [of n b] assms(1) by simp
  have "unat (x - b) < 0x1000 * (n + 1) \<or> 0x8000 \<le> unat (x - b)"
  proof -
    have "unat (hook_at b i a - b) < 0x1000 * (n + 1)" if "i < n" for i a
      using hook_dist [of i b a] low_part [of a] that assms(1) by simp
    then show ?thesis using assms(2) by (auto simp: in_pool_def word_less_nat_alt)
  qed
  then have "\<not> x - page_at b n < 0x1000" unfolding d by (intro far_off [OF p assms(1)])
  then show ?thesis by (simp add: copy_page_def)
qed

text \<open>
  Every probe has int3 in a copy of its page, and at its own address, outside the pool, still the byte kept.
\<close>

definition probe_ok :: "u64 \<Rightarrow> 'z fat \<Rightarrow> hook_info \<Rightarrow> bool" where
  "probe_ok b F h \<longleftrightarrow> \<not> in_pool b (hi_addr h) \<and> hi_byte h = f_mem F (hi_addr h) \<and>
     (\<exists>i < crt_max_redir_idx F. orig_t_page_addr (redir_code_pages F ! i) = page_of (hi_addr h) \<and> f_mem F (hook_at b i (hi_addr h)) = 0xcc)"

definition probes_ok :: "u64 \<Rightarrow> 'z fat \<Rightarrow> bool" where
  "probes_ok b F \<longleftrightarrow> pages_ok b F \<and> (\<forall>h \<in> set (probe_orig_inst F). probe_ok b F h)"

definition mem_kept :: "u64 \<Rightarrow> 'z fat \<Rightarrow> 'z fat \<Rightarrow> bool" where
  "mem_kept b F F' \<longleftrightarrow> (\<forall>x. \<not> in_pool b x \<longrightarrow> f_mem F' x = f_mem F x)"

text \<open>The hypercall redirects the fetch of instructions, not the reading and writing of memory.\<close>

definition data_view_kept :: "'z fctx \<Rightarrow> bool" where
  "data_view_kept C \<longleftrightarrow> (\<forall>a n ph. fc_redirect C a n ph = ph)"

lemma mem_kept_trans: "mem_kept b F F1 \<Longrightarrow> mem_kept b F1 F2 \<Longrightarrow> mem_kept b F F2"
  by (simp add: mem_kept_def)

lemma redirected_probes:
  assumes "probes_ok b F" "crt_max_redir_idx F \<noteq> 7" "data_view_kept C"
  shows "probes_ok b (redirected C b a F) \<and> mem_kept b F (redirected C b a F)"
proof -
  have n: "crt_max_redir_idx F < 7" "length (redir_code_pages F) = 8" using assms(1,2) by (auto simp: probes_ok_def pages_ok_def)
  have m: "f_mem (redirected C b a F) x = f_mem F x" if "(\<exists>i a. i < crt_max_redir_idx F \<and> x = hook_at b i a) \<or> \<not> in_pool b x" for x
    using copy_page_outside [OF n(1) that] assms(3) by (simp add: redirected_simps data_view_kept_def)
  have "probe_ok b (redirected C b a F) h" if h: "probe_ok b F h" for h
  proof -
    obtain i where i: "i < crt_max_redir_idx F" "orig_t_page_addr (redir_code_pages F ! i) = page_of (hi_addr h)"
      "f_mem F (hook_at b i (hi_addr h)) = 0xcc" using h by (auto simp: probe_ok_def)
    have "f_mem (redirected C b a F) (hook_at b i (hi_addr h)) = 0xcc" using m i by metis
    moreover have "f_mem (redirected C b a F) (hi_addr h) = f_mem F (hi_addr h)" using h m by (simp add: probe_ok_def)
    moreover have "redir_code_pages (redirected C b a F) ! i = redir_code_pages F ! i" using i(1) by (simp add: redirected_simps(6))
    moreover have "i < crt_max_redir_idx (redirected C b a F)" using i(1) by (simp add: redirected_simps(1))
    ultimately show ?thesis using h i(2) unfolding probe_ok_def by metis
  qed
  then show ?thesis
    using assms(1) redirected_pages_ok [OF _ assms(2), of b C a] m unfolding probes_ok_def mem_kept_def redirected_simps(4) by blast
qed

definition probe_of :: "(u64 \<Rightarrow> u8) \<Rightarrow> call_insn \<Rightarrow> hook_info" where
  "probe_of ph c = \<lparr>hi_addr = ci_addr c, hi_dest = ci_dest c, hi_len = ci_len c, hi_byte = ph (ci_addr c)\<rparr>"

lemma InstallPerInt3_ok:
  assumes "InstallPerInt3 V (ci_addr c) (ci_len c) (ci_dest c) F = Inr F'" "probes_ok b F" "0 < crt_max_redir_idx F"
    and "orig_t_page_addr (redir_code_pages F ! crt_redir_idx F) = page_of (ci_addr c)" "\<not> in_pool b (ci_addr c)"
  shows "probes_ok b F' \<and> mem_kept b F F' \<and> 0 < crt_max_redir_idx F' \<and> m_func_call F' = m_func_call F \<and>
    probe_orig_inst F' = probe_orig_inst F @ [probe_of (f_mem F) c]"
proof -
  let ?i = "crt_redir_idx F"
  have i: "?i < crt_max_redir_idx F" "length (redir_code_pages F) = 8" "crt_max_redir_idx F \<le> 7"
    using assms(2,3) by (auto simp: probes_ok_def pages_ok_def)
  have "page_offset (redir_code_pages F ! ?i) = page_of (ci_addr c) - page_at b ?i"
    using assms(2,4) i(1) by (auto simp: probes_ok_def pages_ok_def)
  then have o: "ci_addr c - page_offset (redir_code_pages F ! ?i) = hook_at b ?i (ci_addr c)"
    unfolding hook_at_def page_split [symmetric] by (simp add: algebra_simps)
  have F': "F' = (with_mem ((f_mem F)(hook_at b ?i (ci_addr c) := 0xcc)) F)\<lparr>probe_orig_inst := probe_orig_inst F @ [probe_of (f_mem F) c]\<rparr>"
    using assms(1) i by (simp add: InstallPerInt3_def arr_get_def Let_def o probe_of_def vmcall_eq_Inr_iff split: if_splits)
  have m: "f_mem F' x = (if x = hook_at b ?i (ci_addr c) then 0xcc else f_mem F x)" for x by (simp add: F')
  have p: "in_pool b (hook_at b ?i (ci_addr c))" using hook_in_pool [of ?i b] i by simp
  have s: "redir_code_pages F' = redir_code_pages F" "crt_max_redir_idx F' = crt_max_redir_idx F" "m_func_call F' = m_func_call F"
    "probe_orig_inst F' = probe_orig_inst F @ [probe_of (f_mem F) c]" by (simp_all add: F')
  have k: "mem_kept b F F'" using m p by (auto simp: mem_kept_def)
  have "probe_ok b F' h" if "probe_ok b F h" for h
    using that k unfolding probe_ok_def s by (auto simp: m mem_kept_def)
  moreover have "probe_ok b F' (probe_of (f_mem F) c)"
    using assms(4,5) k i(1) m unfolding probe_ok_def s by (auto simp: probe_of_def mem_kept_def intro!: exI [of _ ?i])
  moreover have "pages_ok b F'" using assms(2) by (simp add: F' probes_ok_def pages_ok_def)
  ultimately show ?thesis using assms(2,3) k s by (auto simp: probes_ok_def)
qed

lemma install_call_ok:
  assumes "install_call C newFunc c F = Inr F'" "probes_ok b F" "newFunc \<or> 0 < crt_max_redir_idx F"
    and "\<not> in_pool b (ci_addr c)" "data_view_kept C"
  shows "probes_ok b F' \<and> mem_kept b F F' \<and> 0 < crt_max_redir_idx F' \<and> m_func_call F' = m_func_call F \<and>
    probe_orig_inst F' = probe_orig_inst F @ [probe_of (f_mem F) c]"
proof -
  let ?p = "page_of (ci_addr c)"
  have pg: "pages_ok b F" using assms(2) by (simp add: probes_ok_def)
  then have l: "length (redir_code_pages F) = 8" "crt_redir_idx F < 8" "crt_max_redir_idx F \<le> 7" by (auto simp: pages_ok_def)
  have "\<exists>F1. InstallPerInt3 (tc_hv (fc_K C)) (ci_addr c) (ci_len c) (ci_dest c) F1 = Inr F' \<and> (F1 = redirected C b ?p F \<and> crt_max_redir_idx F \<noteq> 7 \<or>
    F1 = F \<and> 0 < crt_max_redir_idx F \<and> orig_t_page_addr (redir_code_pages F ! crt_redir_idx F) = ?p)"
    using assms(1,3) l update_ok [OF pg, of C ?p]
    by (cases "newFunc \<or> ?p \<noteq> orig_t_page_addr (redir_code_pages F ! crt_redir_idx F)")
      (auto simp: install_call_def arr_get_def rbind_eq_Inr_iff split: if_splits)
  then obtain F1 where F1: "InstallPerInt3 (tc_hv (fc_K C)) (ci_addr c) (ci_len c) (ci_dest c) F1 = Inr F'"
    "F1 = redirected C b ?p F \<and> crt_max_redir_idx F \<noteq> 7 \<or>
     F1 = F \<and> 0 < crt_max_redir_idx F \<and> orig_t_page_addr (redir_code_pages F ! crt_redir_idx F) = ?p" by blast
  have s: "probes_ok b F1 \<and> mem_kept b F F1 \<and> 0 < crt_max_redir_idx F1 \<and> m_func_call F1 = m_func_call F \<and> probe_orig_inst F1 = probe_orig_inst F \<and>
    orig_t_page_addr (redir_code_pages F1 ! crt_redir_idx F1) = ?p"
    using F1(2) redirected_probes [OF assms(2) _ assms(5), of ?p] assms(2) l by (auto simp: redirected_simps(1,2,4,5,6) mem_kept_def)
  then have "probe_of (f_mem F1) c = probe_of (f_mem F) c" using assms(4) by (simp add: probe_of_def mem_kept_def)
  then show ?thesis using InstallPerInt3_ok [OF F1(1) _ _ _ assms(4)] s mem_kept_trans [of b F F1 F'] by simp
qed

lemma install_calls_ok:
  assumes "install_calls C f is F = Inr F'" "probes_ok b F" "0 < crt_max_redir_idx F" "data_view_kept C"
    and "\<forall>i c. i \<in> set is \<longrightarrow> get_call f i = Inr c \<longrightarrow> \<not> in_pool b (ci_addr c)"
  shows "\<exists>cs. list_all2 (\<lambda>i c. get_call f i = Inr c) is cs \<and> probes_ok b F' \<and> mem_kept b F F' \<and>
    probe_orig_inst F' = probe_orig_inst F @ map (probe_of (f_mem F)) cs"
  using assms
proof (induction "is" arbitrary: F)
  case Nil
  then show ?case by (auto simp: mem_kept_def)
next
  case (Cons i "is")
  obtain c F1 where c: "get_call f i = Inr c" "install_call C False c F = Inr F1" "install_calls C f is F1 = Inr F'"
    using Cons.prems(1) by (auto simp: rbind_eq_Inr_iff)
  have n: "\<not> in_pool b (ci_addr c)" using Cons.prems(5) c(1) by simp
  have s: "probes_ok b F1 \<and> mem_kept b F F1 \<and> 0 < crt_max_redir_idx F1 \<and> m_func_call F1 = m_func_call F \<and>
      probe_orig_inst F1 = probe_orig_inst F @ [probe_of (f_mem F) c]"
    using install_call_ok [OF c(2) Cons.prems(2) _ n Cons.prems(4)] Cons.prems(3) by simp
  obtain cs where cs: "list_all2 (\<lambda>i c. get_call f i = Inr c) is cs" "probes_ok b F'" "mem_kept b F1 F'"
    "probe_orig_inst F' = probe_orig_inst F1 @ map (probe_of (f_mem F1)) cs"
    using Cons.IH [OF c(3) _ _ Cons.prems(4)] s Cons.prems(5) by auto
  have "\<not> in_pool b (ci_addr d)" if d: "d \<in> set cs" for d
  proof -
    obtain j where j: "j < length cs" "d = cs ! j" using d by (auto simp: in_set_conv_nth)
    then have "is ! j \<in> set is" "get_call f (is ! j) = Inr d" using cs(1) by (simp_all add: list_all2_conv_all_nth)
    then show ?thesis using Cons.prems(5) by auto
  qed
  then have "map (probe_of (f_mem F1)) cs = map (probe_of (f_mem F)) cs" using s by (auto simp: probe_of_def mem_kept_def)
  then show ?case using c(1) cs s mem_kept_trans [of b F F1 F'] by (intro exI [of _ "c # cs"]) auto
qed
definition calls_of :: "func_calls \<Rightarrow> call_insn list" where
  "calls_of f = (case call_insts f of Some (n, cs) \<Rightarrow> take (nat n) cs | None \<Rightarrow> [])"

lemma get_call_calls: "get_call f i = Inr c \<Longrightarrow> i < length (calls_of f) \<and> c = calls_of f ! i"
  by (auto simp: get_call_def calls_of_def split: option.splits if_splits)

lemma all_calls:
  assumes "list_all2 (\<lambda>i c. get_call f i = Inr c) [0..<n] cs" "num_call f = Inr (int n)"
  shows "cs = calls_of f"
proof -
  have l: "length cs = n" using list_all2_lengthD [OF assms(1)] by simp
  have c: "i < length (calls_of f) \<and> cs ! i = calls_of f ! i" if "i < n" for i
    using assms(1) that l by (intro get_call_calls) (simp add: list_all2_conv_all_nth)
  have "length (calls_of f) \<le> n" using assms(2) by (auto simp: num_call_def calls_of_def split: option.splits)
  moreover have "n \<le> length (calls_of f)" using c [of "n - 1"] by (cases n) auto
  ultimately show ?thesis using c l by (intro nth_equalityI) auto
qed

text \<open>C18. Installing probes for a function appends a probe for each of its calls in order, with the byte that was there; int3 goes
  into copies in the pool only: outside the pool no byte changes, and every probe, old and new, still has
  its int3 in a copy of its page.\<close>

theorem probes_in_copies:
  assumes "InstallInt3ForFunc C a F = Inr F'" "probes_ok b F" "data_view_kept C" "FindFuncCallInfo (m_func_call F) a = Inr k"
    and "\<forall>c \<in> set (calls_of (m_func_call F ! nat k)). \<not> in_pool b (ci_addr c)"
  shows "probes_ok b F' \<and> mem_kept b F F' \<and>
    probe_orig_inst F' = probe_orig_inst F @ (if k = - 1 then [] else map (probe_of (f_mem F)) (calls_of (m_func_call F ! nat k)))"
proof (cases "k = - 1")
  case True
  then show ?thesis using assms(1,2,4) by (simp add: InstallInt3ForFunc_def mem_kept_def)
next
  case False
  let ?f = "m_func_call F ! nat k"
  obtain total c F1 where t: "num_call ?f = Inr total" "get_call ?f 0 = Inr c" "install_call C True c F = Inr F1"
    "install_calls C ?f [1..<nat total] F1 = Inr F'"
    using assms(1,4) False by (auto simp: InstallInt3ForFunc_def Let_def rbind_eq_Inr_iff)
  have o: "\<not> in_pool b (ci_addr d)" if "get_call ?f i = Inr d" for i d
    using get_call_calls [OF that] assms(5) by auto
  have s: "probes_ok b F1 \<and> mem_kept b F F1 \<and> 0 < crt_max_redir_idx F1 \<and> m_func_call F1 = m_func_call F \<and>
      probe_orig_inst F1 = probe_orig_inst F @ [probe_of (f_mem F) c]"
    using install_call_ok [OF t(3) assms(2) _ o [OF t(2)] assms(3)] by simp
  obtain cs where cs: "list_all2 (\<lambda>i c. get_call ?f i = Inr c) [1..<nat total] cs" "probes_ok b F'" "mem_kept b F1 F'"
    "probe_orig_inst F' = probe_orig_inst F1 @ map (probe_of (f_mem F1)) cs"
    using install_calls_ok [OF t(4) _ _ assms(3)] s o by blast
  have "0 < total" using t(1,2) by (auto simp: num_call_def get_call_def split: option.splits if_splits)
  then have "[0..<nat total] = 0 # [1..<nat total]" "total = int (nat total)" by (simp_all add: upt_rec)
  then have all: "c # cs = calls_of ?f" using all_calls [of ?f "nat total" "c # cs"] t(1,2) cs(1) by simp
  then have "\<forall>d \<in> set cs. \<not> in_pool b (ci_addr d)" using assms(5) by (metis list.set_intros(2))
  then have "map (probe_of (f_mem F1)) cs = map (probe_of (f_mem F)) cs" using s by (auto simp: probe_of_def mem_kept_def)
  then show ?thesis using False cs s mem_kept_trans [of b F F1 F'] by (simp flip: all)
qed

definition ex_call :: call_insn where
  "ex_call = \<lparr>ci_addr = 0xffffffff81000130, ci_dest = 0xffffffff81000200, ci_len = 5\<rparr>"

definition ex_calls_db :: "func_calls list" where
  "ex_calls_db = ex_db[42 := \<lparr>func_addr = 0xffffffff8100002a, call_insts = Some (1, [ex_call])\<rparr>]"

definition ex_fat_db :: "zterm fat" where
  "ex_fat_db = (InitRediPagePool ex_fctx ex_fat)\<lparr>m_func_call := ex_calls_db\<rparr>"

lemma ex_calls_db_sorted: "sorted_db ex_calls_db"
proof -
  have m: "42 < MAX_FUNCS" by (simp add: MAX_FUNCS_def)
  have l: "length ex_db = MAX_FUNCS" by (simp add: ex_db_def)
  have a: "func_addr (ex_calls_db ! i) = func_addr (ex_db ! i)" if "i < MAX_FUNCS" for i
    using ex_db_at [OF m] that l m by (cases "i = 42") (simp_all add: ex_calls_db_def)
  have "length ex_calls_db = MAX_FUNCS" using l by (simp add: ex_calls_db_def)
  moreover have "\<forall>i < MAX_FUNCS. kernel_addr (func_addr (ex_db ! i))" using ex_db_sorted l by (simp add: sorted_db_def)
  ultimately show ?thesis
    using ex_db_sorted unfolding sorted_db_def sorted_wrt_iff_nth_less
    by (auto simp: a in_set_conv_nth)
qed

lemma ex_calls_db_find: "FindFuncCallInfo ex_calls_db 0xffffffff8100002a = Inr 42"
proof -
  have m: "42 < MAX_FUNCS" by (simp add: MAX_FUNCS_def)
  then have a: "func_addr (ex_calls_db ! 42) = 0xffffffff8100002a" "length ex_calls_db = MAX_FUNCS" by (simp_all add: ex_calls_db_def ex_db_def)
  have "0xffffffff8100002a \<in> func_addr ` set ex_calls_db" unfolding a(1) [symmetric] using m a(2) by (intro imageI nth_mem) simp
  then show ?thesis using FindFuncCallInfo_iff [OF ex_calls_db_sorted, of "0xffffffff8100002a" 42] m a(1) by simp
qed

lemma ex_fat_pages: "pages_ok 0x100000 (InitRediPagePool ex_fctx ex_fat)" "probe_orig_inst (InitRediPagePool ex_fctx ex_fat) = []"
  "crt_max_redir_idx (InitRediPagePool ex_fctx ex_fat) = 0"
  using init_pages_ok [OF ex_fat_new, of ex_fctx] by (simp_all add: ex_fctx_def)

lemma ex_probes_ok: "probes_ok 0x100000 ex_fat_db"
  using ex_fat_pages by (simp add: probes_ok_def ex_fat_db_def pages_ok_def)

theorem probes_in_copies_witness:
  "\<exists>F'. InstallInt3ForFunc ex_fctx 0xffffffff8100002a ex_fat_db = Inr F' \<and> probes_ok 0x100000 F' \<and>
     probe_orig_inst F' = [probe_of (f_mem ex_fat_db) ex_call]"
proof -
  have p: "pages_ok 0x100000 ex_fat_db" "crt_max_redir_idx ex_fat_db = 0" "probe_orig_inst ex_fat_db = []" "m_func_call ex_fat_db = ex_calls_db"
    using ex_probes_ok ex_fat_pages by (simp_all add: probes_ok_def ex_fat_db_def)
  have m: "42 < MAX_FUNCS" by (simp add: MAX_FUNCS_def)
  have f: "ex_calls_db ! 42 = \<lparr>func_addr = 0xffffffff8100002a, call_insts = Some (1, [ex_call])\<rparr>" using m by (simp add: ex_calls_db_def ex_db_def)
  have l: "length (redir_code_pages ex_fat_db) = 8" using p(1) by (simp add: pages_ok_def)
  have "\<exists>F'. InstallInt3ForFunc ex_fctx 0xffffffff8100002a ex_fat_db = Inr F'"
    using ex_calls_db_find update_ok [OF p(1), of ex_fctx] p f l
    by (simp add: InstallInt3ForFunc_def num_call_def get_call_def install_call_def InstallPerInt3_def redirected_simps arr_get_def
        MAX_INT3_def Let_def)
  then obtain F' where F': "InstallInt3ForFunc ex_fctx 0xffffffff8100002a ex_fat_db = Inr F'" by blast
  have d: "data_view_kept ex_fctx" by (simp add: data_view_kept_def ex_fctx_def)
  have n: "\<forall>c \<in> set (calls_of (m_func_call ex_fat_db ! nat 42)). \<not> in_pool 0x100000 (ci_addr c)"
    by (simp add: p f calls_of_def ex_call_def in_pool_def)
  show ?thesis
    using probes_in_copies [OF F' ex_probes_ok d _ n] F' p(3,4) ex_calls_db_find by (simp add: f calls_of_def)
qed
section \<open>Exceptions\<close>

lemma find_probe_ok:
  assumes "h \<in> set hs" "\<forall>g \<in> set hs. hi_addr g = hi_addr h \<longrightarrow> g = h" "hi_dest h \<noteq> 0"
  shows "find_probe V hs (hi_addr h) = Inr h"
  using assms by (induction hs) auto

lemma f_mem_raw: "get_bytes 8 a (f_mem F) = raw_read (f_vm F) a"
  by (simp add: f_mem_def raw_read_def)

lemma with_mem_vm: "f_vm (with_mem (put_bytes 8 a v (f_mem F)) F) = raw_write (f_vm F) a v"
  by (simp add: with_mem_def raw_write_def f_mem_def)

lemma with_vm_simps [simp]: "f_vm (with_vm vm F) = vm" "m_emeta (with_vm vm F) = m_emeta F"
  by (simp_all add: with_vm_def)

lemma emulCall_ok:
  assumes "vm_ok D (f_vm F)" "h \<in> set (probe_orig_inst F)" "\<forall>g \<in> set (probe_orig_inst F). hi_addr g = hi_addr h \<longrightarrow> g = h" "hi_dest h \<noteq> 0"
    and "frame_word (t_int3_stack (m_emeta F)) 0 F = hi_addr h + 1"
  defines "sp \<equiv> frame_word (t_int3_stack (m_emeta F)) 3 F"
  shows "\<exists>F1. emulCall V F = Inr (F1, hi_dest h) \<and>
    f_vm F1 = put_word RIP_PTRIDX (hi_dest h) (put_word EFL_PTRIDX (frame_word (t_int3_stack (m_emeta F)) 2 F)
      (put_word RSP_PTRIDX (sp - 8) (raw_write (f_vm F) (sp - 8) (hi_addr h + word_of_int (hi_len h)))))"
proof -
  have l: "length (m_ArrRegs (m_CPU (f_vm F))) = 32" using assms(1) by (simp add: vm_ok_def vm_words)
  have f: "find_probe V (probe_orig_inst F) (hi_addr h) = Inr h" by (rule find_probe_ok [OF assms(2,3,4)])
  show ?thesis
    using f assms(5) l
    by (simp add: emulCall_def Let_def with_mem_vm set_pt_reg_ok ptridx_defs sp_def)
qed

text \<open>C19. When int3 is hit at a probe whose destination is known, the registers and the stack become what the call there would have
  made them, so that a return brings execution behind the call, with the stack pointer and flags the processor
  saved and all other registers as they were; what is symbolic does not change.\<close>

theorem probe_emulates_call:
  assumes "vm_ok (cx_D X) (f_vm F)" "h \<in> set (probe_orig_inst F)" "\<forall>g \<in> set (probe_orig_inst F). hi_addr g = hi_addr h \<longrightarrow> g = h"
    and "hi_dest h \<noteq> 0" "frame_word (t_int3_stack (m_emeta F)) 0 F = hi_addr h + 1"
    and "\<forall>k. 0 \<le> k \<and> k < 8 \<longrightarrow> vm_bytes (f_vm F) (InWord RSP_PTRIDX k) = None"
  shows "\<exists>F1 vm2. emulCall V F = Inr (F1, hi_dest h) \<and> pt_reg RIP_PTRIDX (f_vm F1) = Inr (hi_dest h) \<and> dispatchRet X (f_vm F1) = Inr vm2 \<and>
    m_ArrRegs (m_CPU vm2) = (m_ArrRegs (m_CPU (f_vm F)))[RIP_PTRIDX := hi_addr h + word_of_int (hi_len h),
      RSP_PTRIDX := frame_word (t_int3_stack (m_emeta F)) 3 F, EFL_PTRIDX := frame_word (t_int3_stack (m_emeta F)) 2 F] \<and>
    vm_bytes (f_vm F1) = vm_bytes (f_vm F) \<and> vm_bytes vm2 = vm_bytes (f_vm F)"
proof -
  let ?sp = "frame_word (t_int3_stack (m_emeta F)) 3 F" and ?ra = "hi_addr h + word_of_int (hi_len h)"
    and ?fl = "frame_word (t_int3_stack (m_emeta F)) 2 F"
  have l: "length (m_ArrRegs (m_CPU (f_vm F))) = 32" using assms(1) by (simp add: vm_ok_def vm_words)
  obtain F1 where F1: "emulCall V F = Inr (F1, hi_dest h)"
    "f_vm F1 = put_word RIP_PTRIDX (hi_dest h) (put_word EFL_PTRIDX ?fl (put_word RSP_PTRIDX (?sp - 8) (raw_write (f_vm F) (?sp - 8) ?ra)))"
    using emulCall_ok [OF assms(1-5)] by blast
  have ok: "vm_ok (cx_D X) (f_vm F1)" unfolding F1(2) by (intro put_word_ok assms(1))
  have b: "vm_bytes (f_vm F1) = vm_bytes (f_vm F)" unfolding F1(2) by simp
  have sp: "m_ArrRegs (m_CPU (f_vm F1)) ! RSP_PTRIDX = ?sp - 8" unfolding F1(2) using l by (simp add: ptridx_defs)
  have rd: "raw_read (f_vm F1) (?sp - 8) = ?ra" unfolding F1(2) by (simp add: raw_read_def get_put_bytes take_bit_word_eq_self)
  have d: "dispatchRet X (f_vm F1) = Inr (put_word RSP_PTRIDX ?sp (put_word RIP_PTRIDX ?ra (f_vm F1)))"
    using dispatchRet_ok [OF ok] assms(6) b sp rd by simp
  have "m_ArrRegs (m_CPU (put_word RSP_PTRIDX ?sp (put_word RIP_PTRIDX ?ra (f_vm F1)))) =
    (m_ArrRegs (m_CPU (f_vm F)))[RIP_PTRIDX := ?ra, RSP_PTRIDX := ?sp, EFL_PTRIDX := ?fl]"
    unfolding F1(2) using l by (simp add: ptridx_defs list_eq_iff_nth_eq nth_list_update)
  moreover have "pt_reg RIP_PTRIDX (f_vm F1) = Inr (hi_dest h)" unfolding F1(2) using l by (simp add: pt_reg_ok ptridx_defs)
  ultimately show ?thesis using F1(1) d b by auto
qed

lemma get_put_apart:
  assumes "8 \<le> unat (a - c)" "unat (a - c) + 7 < 2 ^ 64"
  shows "get_bytes 8 a (put_bytes 8 c v ph) = get_bytes 8 a ph"
proof (rule bit_word_eqI)
  fix k assume "k < LENGTH(64)"
  then have i: "k div 8 < 8" by simp
  have e: "a + of_nat (k div 8) - c = (a - c) + of_nat (k div 8)" by simp
  have "8 \<le> unat (a + of_nat (k div 8) - c)" unfolding e using assms i by (simp add: unat_word_ariths unat_of_nat)
  then have "put_bytes 8 c v ph (a + of_nat (k div 8)) = ph (a + of_nat (k div 8))" by (simp add: put_bytes_at)
  then show "bit (get_bytes 8 a (put_bytes 8 c v ph)) k = bit (get_bytes 8 a ph) k" by (simp add: bit_get_bytes)
qed

definition ex_hit :: "zterm fat" where
  "ex_hit = (with_mem (put_bytes 8 0x9000 0xffffffff81000131 (put_bytes 8 0x9018 0x8000 (f_mem ex_fat))) ex_fat)
     \<lparr>probe_orig_inst := [probe_of (\<lambda>a. 0) ex_call]\<rparr>"

theorem probe_emulates_call_witness:
  "\<exists>F1 vm2. emulCall (\<lambda>rax. False) ex_hit = Inr (F1, 0xffffffff81000200) \<and> dispatchRet ex_ctx (f_vm F1) = Inr vm2 \<and>
     m_ArrRegs (m_CPU vm2) ! RIP_PTRIDX = 0xffffffff81000135 \<and> m_ArrRegs (m_CPU vm2) ! RSP_PTRIDX = 0x8000"
proof -
  let ?h = "probe_of (\<lambda>a. 0) ex_call"
  have v: "f_vm ex_hit = raw_write (raw_write ex_vm 0x9018 0x8000) 0x9000 0xffffffff81000131"
    by (simp add: ex_hit_def with_mem_def raw_write_def f_mem_def ex_fat_def ex_T_def)
  have e: "m_emeta ex_hit = ex_meta" "probe_orig_inst ex_hit = [?h]" by (simp_all add: ex_hit_def ex_fat_def)
  have m: "f_mem ex_hit = put_bytes 8 0x9000 0xffffffff81000131 (put_bytes 8 0x9018 0x8000 (f_mem ex_fat))"
    by (simp add: ex_hit_def)
  have w: "frame_word 0x9028 0 ex_hit = 0xffffffff81000131" "frame_word 0x9028 3 ex_hit = 0x8000"
    unfolding frame_word_def m by (simp_all add: get_put_bytes get_put_apart take_bit_word_eq_self)
  have ok: "vm_ok (cx_D ex_ctx) (f_vm ex_hit)" unfolding v by (intro put_word_ok) (rule ex_operands(8))
  have l: "length (m_ArrRegs (m_CPU (f_vm ex_hit))) = 32" by (simp add: v ex_words)
  have h: "?h \<in> set (probe_orig_inst ex_hit)" "\<forall>g \<in> set (probe_orig_inst ex_hit). hi_addr g = hi_addr ?h \<longrightarrow> g = ?h" "hi_dest ?h \<noteq> 0"
    "frame_word (t_int3_stack (m_emeta ex_hit)) 0 ex_hit = hi_addr ?h + 1" "hi_dest ?h = 0xffffffff81000200"
    "hi_addr ?h + word_of_int (hi_len ?h) = 0xffffffff81000135" "frame_word (t_int3_stack (m_emeta ex_hit)) 3 ex_hit = 0x8000"
    using e w by (simp_all add: probe_of_def ex_call_def ex_meta_def)
  have b: "\<forall>k. 0 \<le> k \<and> k < 8 \<longrightarrow> vm_bytes (f_vm ex_hit) (InWord RSP_PTRIDX k) = None" using ex_vm_ok(2) by (simp add: v)
  show ?thesis
    using probe_emulates_call [where V = "\<lambda>rax. False", OF ok h(1-4) b] l unfolding h(5-7) by (elim exE conjE) (simp add: ptridx_defs)
qed

text \<open>C23. The handler of a violation on watched memory, where it completes, keeps the virtual machine well formed and the
  symbolic bytes. For a fetch it has done nothing (and completes only if the hypervisor returns from the vmcall), for an access to a
  cell with a symbolic byte only cleared the first word of the record of the violation (again behind a vmcall). For any
  other access it has decoded the instruction that was stopped and run one instruction on the processor; but
  the bytes it ran, as many as that instruction has, are those in front of the saved instruction pointer of the analyser, wherever the
  violation was.\<close>

theorem watched_access_outcome:
  assumes "VEHandler C F = Inr F'" "vm_ok D (f_vm F)" "va = raw_read (f_vm F) (virt_exce_area (m_emeta F) + 16)" "mem_range va 8"
    and "cleared = raw_write (f_vm F) (virt_exce_area (m_emeta F)) 0" "ip = m_ArrRegs (m_CPU (f_vm F)) ! RIP_PTRIDX"
  shows "vm_bytes (f_vm F') = vm_bytes (f_vm F) \<and> vm_ok D (f_vm F') \<and>
    (if raw_read (f_vm F) (virt_exce_area (m_emeta F) + 8) AND 4 \<noteq> 0 then tc_hv (fc_K C) (Some 0x99999) \<and> F' = F
     else if cell_symbolic (f_vm F) va 8 then tc_hv (fc_K C) (Some 0x99999999) \<and> f_vm F' = cleared
     else \<exists>I. decode_at (fc_K C) ((f_thin F)\<lparr>t_vm := cleared\<rparr>) (frame_word (t_ve_stack (m_emeta F)) 0 F) = Inr I \<and>
       (x86_rip \<notin> set (di_isRead I) \<longrightarrow> InsnExecNonRIP (tc_host (fc_K C))
          (copy_insn (code_bytes (phys (m_MEM cleared)) (ip - in_size (di_instr I)) (unat (in_size (di_instr I)))) (nonrip_slot (t_con (f_thin F))))
          (m_ArrRegs (m_CPU (f_vm F))) (phys (m_MEM cleared)) = Inr (m_ArrRegs (m_CPU (f_vm F')), phys (m_MEM (f_vm F')))))"
proof -
  let ?area = "virt_exce_area (m_emeta F)" and ?V = "tc_hv (fc_K C)"
  let ?F = "with_mem (put_bytes 8 ?area 0 (f_mem F)) F"
  let ?T = "(f_thin F)\<lparr>t_vm := cleared\<rparr>"
  have t: "f_thin ?F = ?T" by (simp add: with_mem_def raw_write_def f_mem_def assms(5))
  have ok: "vm_ok D cleared" "vm_bytes cleared = vm_bytes (f_vm F)" using put_word_ok(2) [OF assms(2)] by (simp_all add: assms(5))
  have wf: "vm_wf (f_vm F)" using assms(2) by (simp add: vm_ok_def)
  have l: "length (m_ArrRegs (m_CPU cleared)) = 32" using vm_words [of cleared] ok(1) by (simp add: vm_ok_def)
  have sy: "vm_isSYMemoryCell (f_vm F) va 8 = Inr (cell_symbolic (f_vm F) va 8)"
    using isSYMemoryCell_ok [OF vm_wfD(1) [OF wf] assms(4)] by (simp add: vm_isSYMemoryCell_def cell_symbolic_def vm_mem_def)
  note d = assms(1) [unfolded VEHandler_def Let_def f_mem_raw, folded assms(3), unfolded sy rbind.simps]
  show ?thesis
  proof (cases "raw_read (f_vm F) (?area + 8) AND 4 \<noteq> 0 \<or> cell_symbolic (f_vm F) va 8")
    case True
    then show ?thesis using d assms(2) ok t by (auto simp: vmcall_eq_Inr_iff split: if_splits)
  next
    case False
    then obtain T r where x: "ExecOneInsn (fc_K C) ?T (frame_word (t_ve_stack (m_emeta F)) 0 F) = Inr (T, r)" "F' = ?F\<lparr>f_thin := T\<rparr>"
      using d by (auto simp: t rbind_eq_Inr_iff)
    then obtain I E vm where i: "decode_at (fc_K C) ?T (frame_word (t_ve_stack (m_emeta F)) 0 F) = Inr I"
      "InsnDispatch (tc_host (fc_K C)) ?V (t_con (f_thin F)) I cleared = Inr (E, vm)" "f_vm F' = vm"
      by (auto simp: ExecOneInsn_def rbind_eq_Inr_iff)
    have "InsnExecNonRIP (tc_host (fc_K C))
        (copy_insn (code_bytes (phys (m_MEM cleared)) (ip - in_size (di_instr I)) (unat (in_size (di_instr I)))) (nonrip_slot (t_con (f_thin F))))
        (m_ArrRegs (m_CPU (f_vm F))) (phys (m_MEM cleared)) = Inr (m_ArrRegs (m_CPU vm), phys (m_MEM vm))" if "x86_rip \<notin> set (di_isRead I)"
      using i(2) that l by (auto simp: InsnDispatch_def arr_get_def RIP_PTRIDX_def Let_def rbind_eq_Inr_iff assms(5,6) split: if_splits)
    then show ?thesis using False InsnDispatch_vm [OF i(2) ok(1)] ok(2) i by auto
  qed
qed

lemma idle_dispatch:
  assumes "length (m_ArrRegs (m_CPU vm)) = 32" "x86_rip \<notin> set (di_isRead I)"
  shows "\<exists>E' vm'. InsnDispatch (\<lambda>bs s. Inr s) V E I vm = Inr (E', vm')"
  using assms
  by (simp add: InsnDispatch_def arr_get_def RIP_PTRIDX_def InsnExecNonRIP_def load_context_def rassert_def Let_def)

definition ex_fault :: "zterm fat" where
  "ex_fault = with_mem (put_bytes 8 0xb010 0x2000 (put_bytes 8 0xa000 0x40 (put_bytes 8 0xb008 1 (f_mem ex_fat)))) ex_fat"

theorem watched_access_outcome_witness:
  "\<exists>F'. VEHandler ex_fctx ex_fault = Inr F' \<and> vm_bytes (f_vm F') = vm_bytes (f_vm ex_fault)"
proof -
  have v: "f_vm ex_fault = raw_write (raw_write (raw_write ex_vm 0xb008 1) 0xa000 0x40) 0xb010 0x2000" "m_emeta ex_fault = ex_meta"
    by (simp_all add: ex_fault_def with_mem_def raw_write_def f_mem_def ex_fat_def ex_T_def)
  have t: "(f_thin ex_fault)\<lparr>t_vm := vm\<rparr> = ex_T\<lparr>t_vm := vm\<rparr>" for vm by (simp add: ex_fault_def with_mem_def ex_fat_def)
  have ok: "vm_ok ex_dapi (f_vm ex_fault)" unfolding v by (intro put_word_ok) (use ex_operands(8) in \<open>simp add: ex_ctx_def\<close>)
  have m: "mem_range 0x2000 8" by (simp add: mem_range_def int_sizes_def op_range_def)
  have r: "raw_read (f_vm ex_fault) 0xb010 = 0x2000" "raw_read (f_vm ex_fault) 0xa000 = 0x40" "raw_read (f_vm ex_fault) 0xb008 = 1"
    unfolding v by (simp_all add: raw_read_def get_put_bytes get_put_apart take_bit_word_eq_self)
  have c: "vm_isSYMemoryCell (f_vm ex_fault) 0x2000 8 = Inr False"
  proof -
    have "vm_bytes (f_vm ex_fault) = (\<lambda>b. None)" using ex_vm_ok(2) by (simp add: v)
    then have "vm_mem (f_vm ex_fault) a = None" for a by (metis vm_bytes.simps(1))
    moreover have "vm_wf (f_vm ex_fault)" using ok by (simp add: vm_ok_def)
    ultimately show ?thesis using isSYMemoryCell_ok [OF vm_wfD(1) m, of "f_vm ex_fault"] by (simp add: vm_isSYMemoryCell_def vm_mem_def)
  qed
  have l: "length (m_ArrRegs (m_CPU (f_vm ex_fault))) = 32" by (simp add: v ex_words)
  let ?v1 = "raw_write (f_vm ex_fault) 0xb000 0"
  let ?I = "ex_insn (other_id 0) c_ReturnInsn False []"
  have d: "decode_at ex_K (ex_T\<lparr>t_vm := ?v1\<rparr>) 0x40 = Inr ?I" by (simp add: decode_at_def ex_K_def)
  have "\<exists>E vm. InsnDispatch (\<lambda>bs s. Inr s) (\<lambda>rax. False) new_ConExecutor ?I ?v1 = Inr (E, vm)"
    by (rule idle_dispatch) (use l in \<open>simp_all add: ex_insn_def\<close>)
  then obtain E vm where x: "InsnDispatch (\<lambda>bs s. Inr s) (\<lambda>rax. False) new_ConExecutor ?I ?v1 = Inr (E, vm)" by blast
  have k: "tc_host ex_K = (\<lambda>bs s. Inr s)" "tc_hv ex_K = (\<lambda>rax. False)" "t_con (ex_T\<lparr>t_vm := ?v1\<rparr>) = new_ConExecutor" "t_vm (ex_T\<lparr>t_vm := ?v1\<rparr>) = ?v1"
    by (simp_all add: ex_K_def ex_T_def)
  have e: "\<exists>T. ExecOneInsn ex_K (ex_T\<lparr>t_vm := ?v1\<rparr>) 0x40 = Inr (T, True)"
    unfolding ExecOneInsn_def d rbind.simps k x case_prod_conv by blast
  have t2: "f_thin (with_mem (put_bytes 8 0xb000 0 (f_mem ex_fault)) ex_fault) = ex_T\<lparr>t_vm := ?v1\<rparr>"
    by (simp add: with_mem_def raw_write_def f_mem_def t)
  have fk: "fc_K ex_fctx = ex_K" by (simp add: ex_fctx_def)
  have "frame_word 0xa028 0 ex_fault = 0x40" using r(2) by (simp add: frame_word_def f_mem_raw)
  then have "\<exists>F'. VEHandler ex_fctx ex_fault = Inr F'"
    using c r e by (auto simp: VEHandler_def f_mem_raw v(2) ex_meta_def Let_def t2 fk)
  then obtain F' where F': "VEHandler ex_fctx ex_fault = Inr F'" by blast
  have "0x2000 = raw_read (f_vm ex_fault) (virt_exce_area (m_emeta ex_fault) + 16)" using r(1) by (simp add: v(2) ex_meta_def)
  from watched_access_outcome [OF F' ok this m refl refl] show ?thesis using F' by blast
qed

end
