(* ===== verification/Central_Hub.thy ===== *)
theory Central_Hub
  imports Fat_Ctrl
begin

text \<open>
  The hub (class ExecState of centralhub.h and centralhub.cpp): it owns the virtual machine and the controls, copies
  registers from and to the kernel, and before it analyses a system call it declares the arguments
  of that call symbolic, each with a seed. Its state is that of the fat control, which holds the others.
\<close>

section \<open>Construction\<close>

definition new_CThinCtrl :: "VMState \<Rightarrow> u64 \<Rightarrow> 'z thin" where
  "new_CThinCtrl vm endRIP =
     \<lparr>t_vm = vm, t_IOIs = [], symObjectsMap = Map.empty, m_InsnCache = Map.empty, m_NextIP = Map.empty, m_endRIP = endRIP,
      t_con = new_ConExecutor\<rparr>"

text \<open>Registers, their bit map, memory and the end of the run are whatever is there at the start.\<close>

definition new_ExecState ::
  "dapi \<Rightarrow> u64 list \<Rightarrow> u64 list \<Rightarrow> (u64 \<Rightarrow> u8) \<Rightarrow> u64 \<Rightarrow> event_meta \<Rightarrow> u32 \<Rightarrow> string list option \<Rightarrow> string option \<Rightarrow> 'z fat res" where
  "new_ExecState D arr bits ph endRIP meta dr7 decisions funcs =
     rbind (new_VMState D arr bits ph decisions empty_store) (\<lambda>vm. new_CFattCtrl (new_CThinCtrl vm endRIP) meta dr7 funcs)"

section \<open>Registers\<close>

definition SynRegsFromNative :: "u64 list \<Rightarrow> 'z fat \<Rightarrow> 'z fat \<times> bool" where
  "SynRegsFromNative regs F = (with_vm (SetCPUState (f_vm F) regs) F, True)"

definition SynRegsToNative :: "'z fat \<Rightarrow> u64 list \<times> bool" where
  "SynRegsToNative F = (ReadCPUState (f_vm F), True)"

section \<open>Declarations\<close>

definition declareSymbolicObject ::
  "u64 \<Rightarrow> u64 \<Rightarrow> bool \<Rightarrow> bool \<Rightarrow> u64 \<Rightarrow> string option \<Rightarrow> 'z fat \<Rightarrow> ('z fat \<times> bool) res" where
  "declareSymbolicObject addr sz isSigned hasSeed v name F =
     rbind (createSYMemObject (f_vm F) addr sz isSigned hasSeed v name) (\<lambda>(vm, r). Inr (with_vm vm F, r))"

definition declareSymbolicRegister ::
  "dapi \<Rightarrow> u32 \<Rightarrow> u32 \<Rightarrow> bool \<Rightarrow> bool \<Rightarrow> u64 \<Rightarrow> 'z fat \<Rightarrow> ('z fat \<times> bool) res" where
  "declareSymbolicRegister D index sz isSigned hasSeed v F =
     rbind (createSYRegObject D (f_vm F) index sz isSigned hasSeed v) (\<lambda>(vm, r). Inr (with_vm vm F, r))"

record decl =
  dc_addr :: u64
  dc_size :: u64
  dc_signed :: bool
  dc_val :: u64
  dc_name :: string

fun declare_all :: "decl list \<Rightarrow> 'z fat \<Rightarrow> 'z fat res" where
  "declare_all [] F = Inr F"
| "declare_all (d # ds) F =
     rbind (declareSymbolicObject (dc_addr d) (dc_size d) (dc_signed d) True (dc_val d) (Some (dc_name d)) F) (\<lambda>(F, r). declare_all ds F)"

section \<open>Arguments of system calls\<close>

text \<open>The words of the structure pt_regs at tmp that hold rdx, rsi and rdi.\<close>

definition rdx_at :: "u64 \<Rightarrow> u64" where "rdx_at tmp = tmp + 0x60"
definition rsi_at :: "u64 \<Rightarrow> u64" where "rsi_at tmp = tmp + 0x60 + 0x8"
definition rdi_at :: "u64 \<Rightarrow> u64" where "rdi_at tmp = tmp + 0x60 + 0x8 + 0x8"

definition word_arg :: "u64 \<Rightarrow> u64 \<Rightarrow> u64 \<Rightarrow> string \<Rightarrow> decl" where
  "word_arg addr sz v name = \<lparr>dc_addr = addr, dc_size = sz, dc_signed = True, dc_val = v, dc_name = name\<rparr>"

text \<open>The bytes of a string, each an object of its own, numbered from one.\<close>

definition byte_args :: "u64 \<Rightarrow> string \<Rightarrow> u64 list \<Rightarrow> decl list" where
  "byte_args addr name vs =
     map (\<lambda>i. \<lparr>dc_addr = addr + of_nat i, dc_size = 1, dc_signed = False, dc_val = vs ! i, dc_name = name @ [digit_char (i + 1)]\<rparr>) [0..<length vs]"

text \<open>
  The numbers of the calls are those of centralhub.h. Each function covers a run of the cases of the switch: calls
  with numbers for arguments, calls with the name of a file or directory, whose address is read
  from rdi, and the rest. A call they do not list has no result.
\<close>

definition number_args :: "u64 \<Rightarrow> (u64 \<Rightarrow> u64) \<Rightarrow> u64 \<Rightarrow> decl list option" where
  "number_args scall_idx rd tmp =
     (if scall_idx = 140 then Some [word_arg (rsi_at tmp) 8 0 ''who_rsi'', word_arg (rdi_at tmp) 8 1 ''which_rdi'']
      else if scall_idx = 141 then Some [word_arg (rsi_at tmp) 8 0 ''who_rsi'', word_arg (rdi_at tmp) 8 0 ''which_rdi'']
      else if scall_idx = 1 then Some []
      else if scall_idx = 8 then Some []
      else if scall_idx = 41 then Some [word_arg (rdi_at tmp) 8 2 ''domain_rdi'']
      else if scall_idx = 21 then Some [word_arg (rsi_at tmp) 8 0 ''mode_rsi'']
      else if scall_idx = 22 then Some [word_arg (rd (rdi_at tmp)) 4 2 ''fd1'', word_arg (rd (rdi_at tmp) + 4) 4 1 ''fd2'']
      else if scall_idx = 32 then Some [word_arg (rdi_at tmp) 4 1 ''fd_rdi'']
      else if scall_idx = 33 then Some [word_arg (rdi_at tmp) 4 1 ''fd_rdi'']
      else if scall_idx = 37 then Some [word_arg (rdi_at tmp) 4 1 ''seconds_rdi'']
      else if scall_idx = 72 then Some [word_arg (rdi_at tmp) 4 1 ''cmd_rdi'']
      else if scall_idx = 4 then Some []
      else if scall_idx = 76 then Some [word_arg (rsi_at tmp) 8 5 ''len_rsi'']
      else if scall_idx = 79 then Some [word_arg (rsi_at tmp) 8 0x128 ''len_rsi'']
      else None)"

definition name_args :: "u64 \<Rightarrow> (u64 \<Rightarrow> u64) \<Rightarrow> u64 \<Rightarrow> decl list option" where
  "name_args scall_idx rd tmp =
     (if scall_idx = 80 then Some (byte_args (rd (rdi_at tmp)) ''dirname_rdi_'' [0x64, 0x69, 0x72, 0x00])
      else if scall_idx = 82 then Some (byte_args (rd (rdi_at tmp)) ''fname_rdi_'' [0x6f, 0x6c, 0x64])
      else if scall_idx = 83 then Some (byte_args (rd (rdi_at tmp)) ''dirname_rdi_'' [0x64, 0x69, 0x72])
      else if scall_idx = 84 then Some (byte_args (rd (rdi_at tmp)) ''dirname_rdi_'' [0x64, 0x69, 0x72])
      else if scall_idx = 85 then Some (byte_args (rd (rdi_at tmp)) ''fname_rdi_'' [0x6f, 0x6c, 0x64])
      else None)"

definition other_args :: "u64 \<Rightarrow> (u64 \<Rightarrow> u64) \<Rightarrow> u64 \<Rightarrow> decl list option" where
  "other_args scall_idx rd tmp =
     (if scall_idx = 95 then Some [word_arg (rdi_at tmp) 8 0 ''fd_rdi'']
      else if scall_idx = 97 then Some [word_arg (rdi_at tmp) 8 7 ''resource_rdi'']
      else if scall_idx = 160 then Some [word_arg (rdi_at tmp) 8 7 ''resource_rdi'']
      else if scall_idx = 86 then Some (byte_args (rd (rdi_at tmp)) ''fname_rdi_'' [0x6f, 0x6c, 0x64])
      else if scall_idx = 87 then Some (byte_args (rd (rdi_at tmp)) ''fname_rdi_'' [0x6f, 0x6c, 0x64])
      else if scall_idx = 88 then Some (byte_args (rd (rdi_at tmp)) ''fname_rdi_'' [0x6f, 0x6c, 0x64])
      else if scall_idx = 90 then Some (byte_args (rd (rdi_at tmp)) ''fname_rdi_'' [0x6f, 0x6c, 0x64])
      else if scall_idx = 133 then Some [word_arg (rdx_at tmp) 8 0x8000 ''mode_rdx'']
      else if scall_idx = 139 then Some [word_arg (rdi_at tmp) 4 3 ''option_rdi'']
      else if scall_idx = 146 then Some [word_arg (rdi_at tmp) 4 1 ''policy_rdi'']
      else None)"

text \<open>
  A call not listed declares nothing and falls off the end of the function; its only caller does not look at the
  value.
\<close>

definition scall_args :: "u64 \<Rightarrow> (u64 \<Rightarrow> u64) \<Rightarrow> u64 \<Rightarrow> decl list" where
  "scall_args scall_idx rd tmp =
     (case number_args scall_idx rd tmp of
        Some ds \<Rightarrow> ds
      | None \<Rightarrow> (case name_args scall_idx rd tmp of
          Some ds \<Rightarrow> ds
        | None \<Rightarrow> (case other_args scall_idx rd tmp of Some ds \<Rightarrow> ds | None \<Rightarrow> [])))"

definition defineSymbolsForScalls :: "u64 \<Rightarrow> u64 \<Rightarrow> 'z fat \<Rightarrow> 'z fat res" where
  "defineSymbolsForScalls scall_idx tmp F = declare_all (scall_args scall_idx (raw_read (f_vm F)) tmp) F"

section \<open>Analysis\<close>

text \<open>The word after the fifteen general registers at rsi is the number of the call.\<close>

definition processAt :: "nat \<Rightarrow> 'z fctx \<Rightarrow> string list option \<Rightarrow> u64 \<Rightarrow> 'z fat \<Rightarrow> ('z fat \<times> bool) res" where
  "processAt n C file addr F =
     rbind (pt_reg RSI_PTRIDX (f_vm F)) (\<lambda>tmp.
     rbind (defineSymbolsForScalls (raw_read (f_vm F) (tmp + 0x8 * 15)) tmp F) (processFunc n C file addr))"

definition hub_MoniStartOfSE :: "'z fctx \<Rightarrow> u64 \<Rightarrow> 'z fat \<Rightarrow> ('z fat \<times> bool) res" where
  "hub_MoniStartOfSE C addr F = MoniStartOfSE C addr F"

definition hub_InitRediPagePool :: "'z fctx \<Rightarrow> 'z fat \<Rightarrow> 'z fat" where
  "hub_InitRediPagePool C F = InitRediPagePool C F"

definition hub_DBHandler :: "'z fctx \<Rightarrow> 'z fat \<Rightarrow> 'z fat res" where
  "hub_DBHandler C F = DBHandler C F"

section \<open>What is declared\<close>

definition decl_range :: "decl \<Rightarrow> u64 set" where
  "decl_range d = byte_range (dc_addr d) (dc_size d)"

definition decl_hash :: "decl \<Rightarrow> u64" where
  "decl_hash d = push_bit (unat (3 + dc_size d)) (dc_addr d)"

definition decl_object :: "decl \<Rightarrow> obj_ptr \<Rightarrow> SYMemObject" where
  "decl_object d p = \<lparr>mo_name = dc_name d, mo_addr = dc_addr d, mo_size = dc_size d, mo_is_signed = dc_signed d, mo_has_seed = True,
     mo_expr = UDefE (Some p) 4 0, mo_val = Some (take_bit (8 * unat (dc_size d)) (dc_val d))\<rparr>"

definition decl_placed :: "decl \<Rightarrow> bool" where
  "decl_placed d \<longleftrightarrow> mem_range (dc_addr d) (dc_size d)"

text \<open>The object of a declaration is entered in the table.\<close>

definition decl_entered :: "VMState \<Rightarrow> decl \<Rightarrow> bool" where
  "decl_entered vm d \<longleftrightarrow> (\<exists>p. m_SYMemObjects vm (decl_hash d) = Some p \<and> mem_objs vm p = Some (decl_object d p))"

lemma in_range_iff:
  assumes "mem_range addr sz"
  shows "x \<in> byte_range addr sz \<longleftrightarrow> unat (x - addr) < unat sz"
proof -
  have "unat addr + unat sz \<le> 2 ^ 64" using mem_rangeD(5) [OF assms] by (auto simp: no_wrap_def)
  moreover have "unat x < 2 ^ 64" using unsigned_less [of x] by simp
  moreover have "unat sz \<le> 8" by (rule mem_rangeD(4) [OF assms])
  ultimately show ?thesis unfolding byte_range_def mem_Collect_eq unat_sub_if' by auto
qed

lemma declare_one:
  assumes "vm_wf (f_vm F)" "decl_placed d"
  shows "\<exists>F' vm'. declareSymbolicObject (dc_addr d) (dc_size d) (dc_signed d) True (dc_val d) (Some (dc_name d)) F = Inr (F', True) \<and>
    F' = with_vm vm' F \<and> vm_wf vm' \<and>
    (\<forall>x. vm_mem vm' x \<noteq> None \<longleftrightarrow> vm_mem (f_vm F) x \<noteq> None \<or> x \<in> decl_range d) \<and>
    (\<forall>x. phys (m_MEM vm') x = (if x \<in> decl_range d then 0 else phys (m_MEM (f_vm F)) x)) \<and>
    (\<forall>i < 32. vm_word vm' i = vm_word (f_vm F) i) \<and>
    m_SYMemObjects vm' = (m_SYMemObjects (f_vm F))(decl_hash d \<mapsto> next_obj (f_vm F)) \<and>
    mem_objs vm' = (mem_objs (f_vm F))(next_obj (f_vm F) \<mapsto> decl_object d (next_obj (f_vm F))) \<and> next_obj vm' = next_obj (f_vm F) + 1"
proof -
  have r: "mem_range (dc_addr d) (dc_size d)" using assms(2) by (simp add: decl_placed_def)
  obtain vm' where v: "createSYMemObject (f_vm F) (dc_addr d) (dc_size d) (dc_signed d) True (dc_val d) (Some (dc_name d)) = Inr (vm', True)"
    "vm_wf vm'" "vm_mem vm' = (\<lambda>a. if a \<in> decl_range d then Some (UDefE (Some (next_obj (f_vm F))) 4 0, sint a - sint (dc_addr d)) else vm_mem (f_vm F) a)"
    "phys (m_MEM vm') = put_bytes (unat (dc_size d)) (dc_addr d) 0 (phys (m_MEM (f_vm F)))"
    "m_SYMemObjects vm' = (m_SYMemObjects (f_vm F))(decl_hash d \<mapsto> next_obj (f_vm F))"
    "mem_objs vm' = (mem_objs (f_vm F))(next_obj (f_vm F) \<mapsto> decl_object d (next_obj (f_vm F)))" "next_obj vm' = next_obj (f_vm F) + 1"
    "\<forall>i < 32. vm_word vm' i = vm_word (f_vm F) i"
    using createSYMemObject_view [OF assms(1) r, of "dc_signed d" True "dc_val d" "dc_name d"]
    unfolding decl_hash_def decl_object_def decl_range_def by blast
  have "phys (m_MEM vm') x = (if x \<in> decl_range d then 0 else phys (m_MEM (f_vm F)) x)" for x
    using put_bytes_at [OF mem_rangeD(4) [OF r], of "dc_addr d" 0 "phys (m_MEM (f_vm F))" x] in_range_iff [OF r, of x]
    by (simp add: v(4) decl_range_def)
  then show ?thesis using v by (intro exI [of _ "with_vm vm' F"] exI [of _ vm']) (simp add: declareSymbolicObject_def)
qed

lemma with_vm_twice: "with_vm vm (with_vm vm' F) = with_vm vm F"
  by (simp add: with_vm_def)

lemma declare_all_view:
  assumes "vm_wf (f_vm F)" "\<forall>d \<in> set ds. decl_placed d"
  shows "\<exists>vm'. declare_all ds F = Inr (with_vm vm' F) \<and> vm_wf vm' \<and>
    (\<forall>x. vm_mem vm' x \<noteq> None \<longleftrightarrow> vm_mem (f_vm F) x \<noteq> None \<or> (\<exists>d \<in> set ds. x \<in> decl_range d)) \<and>
    (\<forall>x. phys (m_MEM vm') x = (if \<exists>d \<in> set ds. x \<in> decl_range d then 0 else phys (m_MEM (f_vm F)) x)) \<and>
    (\<forall>i < 32. vm_word vm' i = vm_word (f_vm F) i) \<and>
    (\<forall>h. h \<notin> decl_hash ` set ds \<longrightarrow> m_SYMemObjects vm' h = m_SYMemObjects (f_vm F) h) \<and>
    (\<forall>p < next_obj (f_vm F). mem_objs vm' p = mem_objs (f_vm F) p) \<and>
    (distinct (map decl_hash ds) \<longrightarrow> (\<forall>d \<in> set ds. decl_entered vm' d))"
  using assms
proof (induction ds arbitrary: F)
  case Nil
  have "declare_all [] F = Inr (with_vm (f_vm F) F)" by (simp add: with_vm_def)
  then show ?case using Nil.prems(1) by (intro exI [of _ "f_vm F"]) simp
next
  case (Cons d ds)
  let ?n = "next_obj (f_vm F)"
  have p: "decl_placed d" "\<forall>d \<in> set ds. decl_placed d" using Cons.prems(2) by simp_all
  obtain vm1 where 1: "declareSymbolicObject (dc_addr d) (dc_size d) (dc_signed d) True (dc_val d) (Some (dc_name d)) F = Inr (with_vm vm1 F, True)"
    "vm_wf vm1" "\<forall>x. vm_mem vm1 x \<noteq> None \<longleftrightarrow> vm_mem (f_vm F) x \<noteq> None \<or> x \<in> decl_range d"
    "\<forall>x. phys (m_MEM vm1) x = (if x \<in> decl_range d then 0 else phys (m_MEM (f_vm F)) x)" "\<forall>i < 32. vm_word vm1 i = vm_word (f_vm F) i"
    "m_SYMemObjects vm1 = (m_SYMemObjects (f_vm F))(decl_hash d \<mapsto> ?n)" "mem_objs vm1 = (mem_objs (f_vm F))(?n \<mapsto> decl_object d ?n)"
    "next_obj vm1 = ?n + 1"
    using declare_one [OF Cons.prems(1) p(1)] by metis
  obtain vm2 where 2: "declare_all ds (with_vm vm1 F) = Inr (with_vm vm2 F)" "vm_wf vm2"
    "\<forall>x. vm_mem vm2 x \<noteq> None \<longleftrightarrow> vm_mem vm1 x \<noteq> None \<or> (\<exists>d \<in> set ds. x \<in> decl_range d)"
    "\<forall>x. phys (m_MEM vm2) x = (if \<exists>d \<in> set ds. x \<in> decl_range d then 0 else phys (m_MEM vm1) x)" "\<forall>i < 32. vm_word vm2 i = vm_word vm1 i"
    "\<forall>h. h \<notin> decl_hash ` set ds \<longrightarrow> m_SYMemObjects vm2 h = m_SYMemObjects vm1 h" "\<forall>p < next_obj vm1. mem_objs vm2 p = mem_objs vm1 p"
    "distinct (map decl_hash ds) \<longrightarrow> (\<forall>d \<in> set ds. decl_entered vm2 d)"
    using Cons.IH [of "with_vm vm1 F"] 1(2) p(2) by (auto simp: with_vm_twice)
  have d: "declare_all (d # ds) F = Inr (with_vm vm2 F)" using 1(1) 2(1) by simp
  have e: "decl_entered vm2 d" if "decl_hash d \<notin> decl_hash ` set ds"
    using that 2(6,7) 1(6-8) by (simp add: decl_entered_def)
  have m: "\<forall>x. vm_mem vm2 x \<noteq> None \<longleftrightarrow> vm_mem (f_vm F) x \<noteq> None \<or> (\<exists>c \<in> set (d # ds). x \<in> decl_range c)" using 1(3) 2(3) by simp
  have f: "\<forall>x. phys (m_MEM vm2) x = (if \<exists>c \<in> set (d # ds). x \<in> decl_range c then 0 else phys (m_MEM (f_vm F)) x)" using 1(4) 2(4) by simp
  have h: "\<forall>h. h \<notin> decl_hash ` set (d # ds) \<longrightarrow> m_SYMemObjects vm2 h = m_SYMemObjects (f_vm F) h" using 1(6) 2(6) by simp
  have o: "\<forall>p < ?n. mem_objs vm2 p = mem_objs (f_vm F) p" using 1(7,8) 2(7) by simp
  have w: "\<forall>i < 32. vm_word vm2 i = vm_word (f_vm F) i" using 1(5) 2(5) by simp
  have t: "distinct (map decl_hash (d # ds)) \<longrightarrow> (\<forall>c \<in> set (d # ds). decl_entered vm2 c)" using e 2(8) by simp
  show ?case by (intro exI [of _ vm2] conjI d 2(2) m f w h o t)
qed
section \<open>The tables\<close>

lemma push_bit_sum: "push_bit k (a + x) = push_bit k (a + y) \<longleftrightarrow> push_bit k x = push_bit k (y :: u64)"
  by (simp add: push_bit_add)

lemma byte_args_hashes: "map decl_hash (byte_args a nm vs) = map (\<lambda>i. push_bit 4 (a + of_nat i)) [0..<length vs]"
  by (simp add: byte_args_def decl_hash_def)

lemma byte_args_distinct: "length vs \<le> 4 \<Longrightarrow> distinct (map decl_hash (byte_args a nm vs))"
proof -
  assume l: "length vs \<le> 4"
  have "i = j" if "i < 4" "j < 4" "push_bit 4 (a + of_nat i) = push_bit 4 (a + of_nat j)" for i j :: nat
  proof -
    have "unat (push_bit 4 (of_nat n :: u64)) = 16 * n" if "n < 4" for n using that by (simp add: push_bit_eq_mult unat_word_ariths unat_of_nat)
    moreover have "push_bit 4 (of_nat i :: u64) = push_bit 4 (of_nat j)" using that(3) unfolding push_bit_sum .
    ultimately show ?thesis using that(1,2) by (metis mult_cancel_left zero_neq_numeral)
  qed
  then show ?thesis unfolding byte_args_hashes using l by (auto simp: distinct_map inj_on_def)
qed

lemma scall_args_distinct: "distinct (map decl_hash (scall_args n rd tmp))"
proof -
  have w: "push_bit 11 (tmp + 0x60 + 0x8) \<noteq> push_bit 11 (tmp + 0x60 + 0x8 + 0x8)" "push_bit 7 a \<noteq> push_bit 7 (a + 4)" for a :: u64
    by (simp_all add: push_bit_add add.assoc)
  note defs = word_arg_def decl_hash_def rsi_at_def rdi_at_def
  have 1: "distinct (map decl_hash ds)" if "number_args n rd tmp = Some ds" for ds
    using that w by (auto simp: number_args_def defs split: if_splits)
  have 2: "distinct (map decl_hash ds)" if "name_args n rd tmp = Some ds" for ds
    using that by (auto simp: name_args_def split: if_splits intro!: byte_args_distinct)
  have 3: "distinct (map decl_hash ds)" if "other_args n rd tmp = Some ds" for ds
    using that by (auto simp: other_args_def split: if_splits intro!: byte_args_distinct)
  show ?thesis using 1 2 3 by (auto simp: scall_args_def split: option.splits)
qed

text \<open>C24. Defining the symbols of a system call makes exactly the bytes of its declared arguments symbolic beside those that were, and enters
  an object with its seed for every one of them: no two have the same hash. The argument's memory then holds zero, not
  the seed, and all other memory and the registers are unchanged.\<close>

theorem arguments_become_symbolic:
  assumes "vm_wf (f_vm F)" "ds = scall_args n (raw_read (f_vm F)) tmp" "\<forall>d \<in> set ds. decl_placed d"
  shows "\<exists>vm'. defineSymbolsForScalls n tmp F = Inr (with_vm vm' F) \<and> vm_wf vm' \<and>
    (\<forall>x. vm_mem vm' x \<noteq> None \<longleftrightarrow> vm_mem (f_vm F) x \<noteq> None \<or> (\<exists>d \<in> set ds. x \<in> decl_range d)) \<and>
    (\<forall>x. phys (m_MEM vm') x = (if \<exists>d \<in> set ds. x \<in> decl_range d then 0 else phys (m_MEM (f_vm F)) x)) \<and>
    (\<forall>i < 32. vm_word vm' i = vm_word (f_vm F) i) \<and> (\<forall>d \<in> set ds. decl_entered vm' d)"
proof -
  have "distinct (map decl_hash ds)" unfolding assms(2) by (rule scall_args_distinct)
  then show ?thesis
    using declare_all_view [OF assms(1,3)] unfolding defineSymbolsForScalls_def assms(2) [symmetric] by blast
qed

theorem arguments_become_symbolic_witness:
  "\<exists>vm'. defineSymbolsForScalls 80 0x3000 ex_fat = Inr (with_vm vm' ex_fat) \<and> vm_mem vm' 0 \<noteq> None \<and>
     decl_entered vm' \<lparr>dc_addr = 0, dc_size = 1, dc_signed = False, dc_val = 0x64, dc_name = ''dirname_rdi_1''\<rparr>"
proof -
  have v: "f_vm ex_fat = ex_vm" by (simp add: ex_fat_def ex_T_def)
  have "get_bytes k a (\<lambda>a. 0) = 0" for k a by (induction k arbitrary: a) simp_all
  then have r: "raw_read ex_vm a = 0" for a by (simp add: raw_read_def ex_vm_cpu)
  let ?ds = "byte_args 0 ''dirname_rdi_'' [0x64, 0x69, 0x72, 0x00]"
  have d: "?ds = scall_args 80 (raw_read (f_vm ex_fat)) 0x3000"
    by (simp add: v r scall_args_def number_args_def name_args_def)
  have p: "\<forall>d \<in> set ?ds. decl_placed d"
    by (auto simp: byte_args_def decl_placed_def mem_range_def int_sizes_def op_range_def upt_rec)
  have wf: "vm_wf (f_vm ex_fat)" using ex_operands(8) by (simp add: v vm_ok_def)
  have "\<lparr>dc_addr = 0, dc_size = 1, dc_signed = False, dc_val = 0x64, dc_name = ''dirname_rdi_1''\<rparr> \<in> set ?ds"
    by (auto simp: byte_args_def upt_rec digit_char_def char_of_def bit_0)
  moreover have "0 \<in> decl_range \<lparr>dc_addr = 0, dc_size = 1, dc_signed = False, dc_val = 0x64, dc_name = ''dirname_rdi_1''\<rparr>"
    by (simp add: decl_range_def byte_range_def)
  ultimately show ?thesis using arguments_become_symbolic [OF wf d p] by metis
qed

end
