(* ===== verification/Z3_Sorts.thy ===== *)
theory Z3_Sorts
  imports Thin_Ctrl
begin

text \<open>
  The sorts of the terms an expression is translated to: vectors of bits of a width, and truth values. An
  expression whose widths fit is translated to a term of its sort. The functions of Z3 are taken with what
  their documentation says of sorts.
\<close>

section \<open>Sorts\<close>

datatype zsort = Bits int | Truth

definition arith_ops :: "z3op list" where
  "arith_ops = [z_add, z_sub, z_mul, z_udiv, z_div, z_srem, z_and, z_or, z_xor, z_shl, z_lshr, z_ashr]"

definition sorts_made :: "('z \<Rightarrow> zsort) \<Rightarrow> 'z z3api \<Rightarrow> bool" where
  "sorts_made so A \<longleftrightarrow>
     (\<forall>n b. 0 < b \<longrightarrow> (\<exists>z. bv_const A n b = Inr z \<and> so z = Bits b)) \<and>
     (\<forall>v b. 0 < b \<longrightarrow> (\<exists>z. bv_val A v b = Inr z \<and> so z = Bits b)) \<and>
     (\<forall>c. so (bool_val A c) = Truth) \<and> (\<forall>x. so (z_simplify A x) = so x)"

definition sorts_bin :: "('z \<Rightarrow> zsort) \<Rightarrow> 'z z3api \<Rightarrow> bool" where
  "sorts_bin so A \<longleftrightarrow>
     (\<forall>op \<in> set arith_ops. \<forall>x y b. so x = Bits b \<and> so y = Bits b \<longrightarrow> (\<exists>z. z_bin A op x y = Inr z \<and> so z = Bits b)) \<and>
     (\<forall>op \<in> set (z_eq # cmp_ops). \<forall>x y b. so x = Bits b \<and> so y = Bits b \<longrightarrow> (\<exists>z. z_bin A op x y = Inr z \<and> so z = Truth)) \<and>
     (\<forall>x y a b. so x = Bits a \<and> so y = Bits b \<longrightarrow> (\<exists>z. z_bin A z_concat x y = Inr z \<and> so z = Bits (a + b))) \<and>
     (\<forall>x y. so x = Truth \<and> so y = Truth \<longrightarrow> (\<exists>z. z_bin A z_and x y = Inr z \<and> so z = Truth)) \<and>
     (\<forall>x y b. so x = Truth \<and> so y = Bits b \<longrightarrow> z_bin A z_and x y = Inl Thrown)"

definition sorts_un :: "('z \<Rightarrow> zsort) \<Rightarrow> 'z z3api \<Rightarrow> bool" where
  "sorts_un so A \<longleftrightarrow>
     (\<forall>x b. so x = Bits b \<longrightarrow> (\<forall>u \<in> {z_minus, z_compl}. \<exists>z. z_un A u x = Inr z \<and> so z = Bits b) \<and>
        (\<forall>u \<in> {z_eq_0, z_ne_0}. \<exists>z. z_un A u x = Inr z \<and> so z = Truth) \<and>
        (\<forall>i j. 0 \<le> j \<and> j \<le> i \<and> i < b \<longrightarrow> (\<exists>z. z_extract A x i j = Inr z \<and> so z = Bits (i - j + 1)))) \<and>
     (\<forall>x. so x = Truth \<longrightarrow> (\<exists>z. z_un A z_lnot x = Inr z \<and> so z = Truth))"

text \<open>Sorts fit where they are used, and a conjunction of a truth value with bits is refused.\<close>

definition z3_sorts :: "('z \<Rightarrow> zsort) \<Rightarrow> 'z z3api \<Rightarrow> bool" where
  "z3_sorts so A \<longleftrightarrow> sorts_made so A \<and> sorts_bin so A \<and> sorts_un so A"

text \<open>The sort of an expression. An extension, an overflow and a double shift have none.\<close>

fun ury_sort :: "uryop \<Rightarrow> int \<Rightarrow> zsort \<Rightarrow> zsort option" where
  "ury_sort OpNeg sz (Bits n) = Some (Bits n)"
| "ury_sort OpNot sz (Bits n) = Some (Bits n)"
| "ury_sort OpEqual sz (Bits n) = Some Truth"
| "ury_sort OpDistinct sz (Bits n) = Some Truth"
| "ury_sort OpLNot sz Truth = Some Truth"
| "ury_sort OpSign sz (Bits n) = (if 0 < sz \<and> sz * 8 \<le> n then Some (Bits 1) else None)"
| "ury_sort OpNoSign sz (Bits n) = (if 0 < sz \<and> sz * 8 \<le> n then Some (Bits 1) else None)"
| "ury_sort u sz s = None"

fun bin_sort :: "binop \<Rightarrow> zsort option \<Rightarrow> zsort option \<Rightarrow> zsort option" where
  "bin_sort b (Some (Bits m)) (Some (Bits n)) = (if m = n then Some (if compares b then Truth else Bits m) else None)"
| "bin_sort b s t = None"

fun concat_sorts :: "zsort option list \<Rightarrow> int option" where
  "concat_sorts [] = Some 0"
| "concat_sorts (Some (Bits n) # ss) = map_option (\<lambda>m. n + m) (concat_sorts ss)"
| "concat_sorts (s # ss) = None"

fun expr_sort :: "objects \<Rightarrow> expr \<Rightarrow> zsort option" where
  "expr_sort objs (UDefE p sz off) =
     (case p of None \<Rightarrow> None
      | Some p \<Rightarrow> (case objs p of None \<Rightarrow> None
         | Some ob \<Rightarrow> if 0 < uint (mo_size ob) then Some (Bits (uint (mo_size ob) * 8)) else None))"
| "expr_sort objs (ConstE v sz off) = (if 0 < sz then Some (Bits (sz * 8)) else None)"
| "expr_sort objs (BinE b r l sz off) = bin_sort b (expr_sort objs r) (expr_sort objs l)"
| "expr_sort objs (UryE u e sz off) = (case expr_sort objs e of None \<Rightarrow> None | Some s \<Rightarrow> ury_sort u sz s)"
| "expr_sort objs (CombineE r l rsz lsz sz off) = map_option Bits (concat_sorts [expr_sort objs r, expr_sort objs l])"
| "expr_sort objs (ExtractE e s t sz off) =
     (case expr_sort objs e of
        Some (Bits n) \<Rightarrow> if 0 \<le> s \<and> s < t \<and> t * 8 \<le> n then Some (Bits ((t - s) * 8)) else None
      | _ \<Rightarrow> None)"
| "expr_sort objs (CombineMultiE es os ss sz off) =
     (if length es < 2 then None else map_option Bits (concat_sorts (map (expr_sort objs) es)))"
| "expr_sort objs (ShrdE r m l sz off) = None"

section \<open>Translation\<close>

definition yields :: "('z \<Rightarrow> zsort) \<Rightarrow> ('z \<times> 'z sym_map) res \<Rightarrow> zsort \<Rightarrow> bool" where
  "yields so m s \<longleftrightarrow> (\<exists>z mp'. m = Inr (z, mp') \<and> so z = s)"

lemma yieldsE: "yields so m s \<Longrightarrow> (\<And>z mp'. m = Inr (z, mp') \<Longrightarrow> so z = s \<Longrightarrow> P) \<Longrightarrow> P"
  by (auto simp: yields_def)

lemma yields_Inr [simp]: "yields so (Inr (z, mp')) s \<longleftrightarrow> so z = s"
  by (simp add: yields_def)

definition sorted_as :: "('z \<Rightarrow> zsort) \<Rightarrow> 'z handling \<Rightarrow> expr \<Rightarrow> zsort \<Rightarrow> bool" where
  "sorted_as so h e s \<longleftrightarrow> (\<forall>mp. yields so (h e mp) s)"

lemma sorted_asE: "sorted_as so h e s \<Longrightarrow> (\<And>z mp'. h e mp = Inr (z, mp') \<Longrightarrow> so z = s \<Longrightarrow> P) \<Longrightarrow> P"
  by (auto simp: sorted_as_def elim: yieldsE)

lemma two_sorted:
  assumes "sorted_as so h a s" "sorted_as so h b t" "\<And>x y. so x = s \<Longrightarrow> so y = t \<Longrightarrow> \<exists>z. f x y = Inr z \<and> so z = r"
  shows "yields so (two_operands h f a b mp) r"
proof -
  obtain x m where x: "h a mp = Inr (x, m)" "so x = s" using assms(1) by (rule sorted_asE)
  obtain y m' where y: "h b m = Inr (y, m')" "so y = t" using assms(2) by (rule sorted_asE)
  obtain z where "f x y = Inr z" "so z = r" using assms(3) [OF x(2) y(2)] by blast
  then show ?thesis using x(1) y(1) by (simp add: two_operands_def)
qed

lemma one_sorted:
  assumes "sorted_as so h a s" "\<And>x. so x = s \<Longrightarrow> \<exists>z. f x = Inr z \<and> so z = r"
  shows "yields so (one_operand h f a mp) r"
proof -
  obtain x m where x: "h a mp = Inr (x, m)" "so x = s" using assms(1) by (rule sorted_asE)
  obtain z where "f x = Inr z" "so z = r" using assms(2) [OF x(2)] by blast
  then show ?thesis using x(1) by (simp add: one_operand_def)
qed

lemma bin_op_sorted:
  assumes "z3_sorts so A" "so x = Bits b" "so y = Bits b"
  shows "\<not> compares v \<Longrightarrow> \<exists>z. z_bin A (op_of_bin v) x y = Inr z \<and> so z = Bits b"
    "compares v \<Longrightarrow> \<exists>z. z_bin A (op_of_bin v) y x = Inr z \<and> so z = Truth"
    "\<exists>z. z_bin A z_eq x y = Inr z \<and> so z = Truth"
proof -
  have a: "\<And>op. op \<in> set arith_ops \<Longrightarrow> \<exists>z. z_bin A op x y = Inr z \<and> so z = Bits b"
    "\<And>op. op \<in> set (z_eq # cmp_ops) \<Longrightarrow> \<exists>z. z_bin A op y x = Inr z \<and> so z = Truth"
    "\<And>op. op \<in> set (z_eq # cmp_ops) \<Longrightarrow> \<exists>z. z_bin A op x y = Inr z \<and> so z = Truth"
    using assms unfolding z3_sorts_def sorts_bin_def by blast+
  show "\<not> compares v \<Longrightarrow> \<exists>z. z_bin A (op_of_bin v) x y = Inr z \<and> so z = Bits b"
    by (rule a(1)) (cases v; simp add: compares_def arith_ops_def)
  show "compares v \<Longrightarrow> \<exists>z. z_bin A (op_of_bin v) y x = Inr z \<and> so z = Truth"
    by (rule a(2)) (cases v; simp add: compares_def cmp_ops_def)
  show "\<exists>z. z_bin A z_eq x y = Inr z \<and> so z = Truth" by (rule a(3)) simp
qed

lemma concat_sorted:
  "z3_sorts so A \<Longrightarrow> so x = Bits a \<Longrightarrow> so y = Bits b \<Longrightarrow> \<exists>z. z_bin A z_concat x y = Inr z \<and> so z = Bits (a + b)"
  by (simp add: z3_sorts_def sorts_bin_def)

lemma val_sorted: "z3_sorts so A \<Longrightarrow> 0 < b \<Longrightarrow> \<exists>z. bv_val A v b = Inr z \<and> so z = Bits b"
  by (simp add: z3_sorts_def sorts_made_def)

lemma extract_sorted:
  "z3_sorts so A \<Longrightarrow> so x = Bits b \<Longrightarrow> 0 \<le> j \<Longrightarrow> j \<le> i \<Longrightarrow> i < b \<Longrightarrow> \<exists>z. z_extract A x i j = Inr z \<and> so z = Bits (i - j + 1)"
  by (simp add: z3_sorts_def sorts_un_def)

lemma sign_test_sorted:
  assumes "z3_sorts so A" "so x = Bits n" "0 < sz" "sz * 8 \<le> n"
  shows "\<exists>z. sign_test A sz w x = Inr z \<and> so z = Bits 1"
proof -
  obtain sb where sb: "z_extract A x (sz * 8 - 1) (sz * 8 - 1) = Inr sb" "so sb = Bits 1"
    using extract_sorted [OF assms(1,2), of "sz * 8 - 1" "sz * 8 - 1"] assms(3,4) by auto
  obtain t where t: "bv_val A 1 1 = Inr t" "so t = Bits 1" using val_sorted [OF assms(1), of 1 1] by auto
  obtain f where f: "bv_val A 0 1 = Inr f" "so f = Bits 1" using val_sorted [OF assms(1), of 1 0] by auto
  have "so (z_simplify A sb) = Bits 1" using assms(1) sb(2) by (simp add: z3_sorts_def sorts_made_def)
  then obtain q where "z_bin A z_eq (if w = 1 then t else f) (z_simplify A sb) = Inr q"
    using bin_op_sorted(3) [OF assms(1), of "if w = 1 then t else f" 1] t f by fastforce
  then show ?thesis using sb t f by (simp add: sign_test_def)
qed

lemma ury_sorted:
  assumes "z3_sorts so A" "ury_sort u sz s = Some r" "sorted_as so h e s"
  shows "yields so (handle_ury u A h e sz off mp) r"
proof -
  have un: "so x = Bits b \<Longrightarrow> v \<in> {z_minus, z_compl} \<Longrightarrow> \<exists>z. z_un A v x = Inr z \<and> so z = Bits b"
    "so x = Bits b \<Longrightarrow> v \<in> {z_eq_0, z_ne_0} \<Longrightarrow> \<exists>z. z_un A v x = Inr z \<and> so z = Truth"
    "so x = Truth \<Longrightarrow> \<exists>z. z_un A z_lnot x = Inr z \<and> so z = Truth" for x b v
    using assms(1) unfolding z3_sorts_def sorts_un_def by blast+
  note go = one_sorted [OF assms(3)]
  show ?thesis
    using assms(2)
    by (cases "(u, sz, s)" rule: ury_sort.cases)
      (auto simp: handle_defs split: if_splits intro!: go un sign_test_sorted [OF assms(1)] simp del: yields_Inr)
qed

lemma concat_parts_sorted:
  assumes "z3_sorts so A" "\<And>e s. e \<in> set es \<Longrightarrow> expr_sort objs e = Some s \<Longrightarrow> sorted_as so h e s"
    and "concat_sorts (map (expr_sort objs) es) = Some m" "so acc = Bits a"
  shows "yields so (concat_parts A h acc es mp) (Bits (a + m))"
  using assms(2,3,4)
proof (induction es arbitrary: acc a m mp)
  case Nil
  then show ?case by simp
next
  case (Cons e es)
  obtain n k where n: "expr_sort objs e = Some (Bits n)" "concat_sorts (map (expr_sort objs) es) = Some k" "m = n + k"
    using Cons.prems(2) by (cases "map (expr_sort objs) (e # es)" rule: concat_sorts.cases) auto
  obtain x m1 where x: "h e mp = Inr (x, m1)" "so x = Bits n"
    using Cons.prems(1) [OF list.set_intros(1) n(1)] by (rule sorted_asE)
  obtain y where y: "z_bin A z_concat acc x = Inr y" "so y = Bits (a + n)" using concat_sorted [OF assms(1) Cons.prems(3) x(2)] by blast
  show ?case using Cons.IH [OF _ n(2) y(2), of m1] Cons.prems(1) x y(1) n(3) by (simp add: add.assoc)
qed

lemma concat_two: "concat_sorts [s, t] = Some k \<Longrightarrow> \<exists>m n. s = Some (Bits m) \<and> t = Some (Bits n) \<and> k = m + n"
  by (cases s; cases "the s"; cases t; cases "the t") auto

lemma handle_node_sorted:
  assumes "z3_sorts so A" "expr_sort objs e = Some s"
    and h: "\<And>a t. a \<in> set (expr_parts_of e) \<Longrightarrow> expr_sort objs a = Some t \<Longrightarrow> sorted_as so h a t"
  shows "yields so (handle_node A objs h e mp) s"
proof (cases e)
  case (UDefE p sz off)
  then obtain q ob where q: "p = Some q" "objs q = Some ob" "0 < uint (mo_size ob)" "s = Bits (uint (mo_size ob) * 8)"
    using assms(2) by (auto split: option.splits if_splits)
  then obtain z where "bv_const A (mo_name ob) (uint (mo_size ob) * 8) = Inr z" "so z = s"
    using assms(1) unfolding z3_sorts_def sorts_made_def by (metis zero_less_mult_iff zero_less_numeral)
  then show ?thesis using UDefE q by (simp add: Z3HandleUND_def deref_def)
next
  case (ConstE v sz off)
  then show ?thesis using assms(2) val_sorted [OF assms(1), of "sz * 8" "uint v"] by (auto simp: Z3HandleConst_def split: if_splits)
next
  case (BinE b r l sz off)
  then obtain n where n: "expr_sort objs r = Some (Bits n)" "expr_sort objs l = Some (Bits n)" "s = (if compares b then Truth else Bits n)"
    using assms(2) by (cases "(b, expr_sort objs r, expr_sort objs l)" rule: bin_sort.cases) (auto split: if_splits)
  have p: "sorted_as so h r (Bits n)" "sorted_as so h l (Bits n)" using h BinE n by simp_all
  show ?thesis
  proof (cases "compares b")
    case True
    then show ?thesis using BinE n(3) two_sorted [OF p(2,1), of "\<lambda>x y. z_bin A (op_of_bin b) y x" Truth]
        bin_op_sorted(2) [OF assms(1) _ _ True] by (simp add: handle_bin_eq)
  next
    case False
    then show ?thesis using BinE n(3) two_sorted [OF p, of "z_bin A (op_of_bin b)" "Bits n"]
        bin_op_sorted(1) [OF assms(1) _ _ False] by (simp add: handle_bin_eq)
  qed
next
  case (UryE u a sz off)
  then obtain t where t: "expr_sort objs a = Some t" "ury_sort u sz t = Some s" using assms(2) by (auto split: option.splits)
  show ?thesis using UryE ury_sorted [OF assms(1) t(2), of h a off mp] h t(1) by simp
next
  case (ShrdE r m l sz off)
  then show ?thesis using assms(2) by simp
next
  case (CombineE r l rsz lsz sz off)
  then obtain m n where n: "expr_sort objs r = Some (Bits m)" "expr_sort objs l = Some (Bits n)" "s = Bits (m + n)"
    using assms(2) by (auto dest: concat_two)
  have p: "sorted_as so h r (Bits m)" "sorted_as so h l (Bits n)" using h CombineE n by simp_all
  show ?thesis using CombineE n(3) two_sorted [OF p, of "z_bin A z_concat"] concat_sorted [OF assms(1)] by (simp add: handle_defs)
next
  case (ExtractE a i j sz off)
  then obtain n where n: "expr_sort objs a = Some (Bits n)" "0 \<le> i" "i < j" "j * 8 \<le> n" "s = Bits ((j - i) * 8)"
    using assms(2) by (auto split: option.splits zsort.splits if_splits)
  have x: "\<exists>z. rbind (z_extract A x (j * 8 - 1) i) (\<lambda>_. z_extract A x (j * 8 - 1) (i * 8)) = Inr z \<and> so z = s" if sx: "so x = Bits n" for x
  proof -
    obtain y where "z_extract A x (j * 8 - 1) i = Inr y" using extract_sorted [OF assms(1) sx, of i "j * 8 - 1"] n by auto
    moreover obtain z where "z_extract A x (j * 8 - 1) (i * 8) = Inr z" "so z = Bits (j * 8 - 1 - i * 8 + 1)"
      using extract_sorted [OF assms(1) sx, of "i * 8" "j * 8 - 1"] n by auto
    ultimately show ?thesis using n(5) by (simp add: algebra_simps)
  qed
  show ?thesis using ExtractE one_sorted [OF h [OF _ n(1)] x] by (simp add: handle_defs)
next
  case (CombineMultiE es os ss sz off)
  then obtain m where m: "\<not> length es < 2" "concat_sorts (map (expr_sort objs) es) = Some m" "s = Bits m"
    using assms(2) by (auto split: if_splits)
  then obtain c cs where es: "es = c # cs" by (cases es) auto
  obtain n k where n: "expr_sort objs c = Some (Bits n)" "concat_sorts (map (expr_sort objs) cs) = Some k" "m = n + k"
    using m(2) es by (cases "map (expr_sort objs) es" rule: concat_sorts.cases) auto
  have "sorted_as so h c (Bits n)" using h [OF _ n(1)] CombineMultiE es by simp
  then obtain x m1 where x: "h c mp = Inr (x, m1)" "so x = Bits n" by (rule sorted_asE)
  show ?thesis
    using CombineMultiE m(1,3) es x concat_parts_sorted [OF assms(1) _ n(2) x(2), of h m1] h n(3)
    by (auto simp: Z3HandleCombineMulti_def)
qed

lemma translation_sorted:
  "z3_sorts so A \<Longrightarrow> expr_sort objs e = Some s \<Longrightarrow> expr_depth e < n \<Longrightarrow> sorted_as so (Z3HandlingExprPtr A objs n) e s"
proof (induction n arbitrary: e s)
  case (Suc n)
  have "sorted_as so (Z3HandlingExprPtr A objs n) a t" if "a \<in> set (expr_parts_of e)" "expr_sort objs a = Some t" for a t
    using Suc.IH [OF Suc.prems(1) that(2)] parts_smaller [OF that(1)] Suc.prems(3) by simp
  then show ?case using handle_node_sorted [OF Suc.prems(1,2)] by (simp add: sorted_as_def)
qed simp

section \<open>An instance: the sorts themselves as terms\<close>

definition sort_bin :: "z3op \<Rightarrow> zsort \<Rightarrow> zsort \<Rightarrow> zsort res" where
  "sort_bin op x y =
     (case (x, y) of
        (Bits a, Bits b) \<Rightarrow>
          if op = z_concat then Inr (Bits (a + b))
          else if a \<noteq> b then Inl Thrown
          else Inr (if op \<in> set arith_ops then Bits a else Truth)
      | (Truth, Truth) \<Rightarrow> if op = z_and then Inr Truth else Inl Thrown
      | _ \<Rightarrow> Inl Thrown)"

definition sort_un :: "z3un \<Rightarrow> zsort \<Rightarrow> zsort res" where
  "sort_un u x =
     (case x of
        Bits b \<Rightarrow> if u \<in> {z_minus, z_compl} then Inr (Bits b) else if u = z_lnot then Inl Thrown else Inr Truth
      | Truth \<Rightarrow> if u = z_lnot then Inr Truth else Inl Thrown)"

definition sort_api :: "zsort z3api" where
  "sort_api = \<lparr>bv_const = \<lambda>n b. if 0 < b then Inr (Bits b) else Inl Thrown,
     bv_val = \<lambda>v b. if 0 < b then Inr (Bits b) else Inl Thrown, bool_val = \<lambda>c. Truth,
     z_bin = sort_bin, z_un = sort_un,
     z_extract = \<lambda>x i j. (case x of Bits b \<Rightarrow> if 0 \<le> j \<and> j \<le> i \<and> i < b then Inr (Bits (i - j + 1)) else Inl Thrown | Truth \<Rightarrow> Inl Thrown),
     z_sext = \<lambda>x k. Inl Thrown, z_substitute = \<lambda>z s v. z, z_simplify = \<lambda>z. z, z_is_true = \<lambda>z. False,
     z_as_bool = \<lambda>z. True, z_check = \<lambda>zs. Inr z_unknown\<rparr>"

lemma sort_api_sorts: "z3_sorts (\<lambda>z. z) sort_api"
  by (auto simp: z3_sorts_def sorts_made_def sorts_bin_def sorts_un_def sort_api_def sort_bin_def sort_un_def arith_ops_def cmp_ops_def)

section \<open>Properties\<close>

text \<open>C12. An expression whose widths fit is translated, at every depth above its nesting, to a term of its sort: bits of its width or a truth
  value; the translation neither throws nor runs forever.\<close>

theorem well_sorted_translates:
  assumes "z3_sorts so A" "expr_sort objs e = Some s" "expr_depth e < n"
  shows "\<exists>z mp'. Z3HandlingExprPtr A objs n e mp = Inr (z, mp') \<and> so z = s"
  using translation_sorted [OF assms] by (auto simp: sorted_as_def yields_def)

theorem well_sorted_translates_witness:
  "\<exists>mp'. Z3HandlingExprPtr sort_api Map.empty 3 (UryE OpEqual (SubExpr (ConstExpr 1 4 0) (ConstExpr 2 4 0)) 4 0) Map.empty = Inr (Truth, mp')"
proof -
  let ?e = "UryE OpEqual (SubExpr (ConstExpr 1 4 0) (ConstExpr 2 4 0)) 4 0"
  have s: "expr_sort Map.empty ?e = Some Truth" by (simp add: expr_ctor_defs compares_def)
  have d: "expr_depth ?e < 3" by (simp add: expr_ctor_defs)
  show ?thesis using well_sorted_translates [OF sort_api_sorts s d, of Map.empty] by auto
qed

lemma conjunct_refused:
  assumes "z3_sorts so A" "expr_sort objs e = Some (Bits b)" "expr_depth e < n"
  shows "Z3SolveConcritize A objs n syms [e] mp = Inl Thrown"
proof -
  obtain z mp' where z: "Z3HandlingExprPtr A objs n e mp = Inr (z, mp')" "so z = Bits b"
    using translation_sorted [OF assms] by (rule sorted_asE)
  have "so (bool_val A True) = Truth" using assms(1) by (simp add: z3_sorts_def sorts_made_def)
  then have "z_bin A z_and (bool_val A True) z = Inl Thrown" using assms(1) z(2) unfolding z3_sorts_def sorts_bin_def by blast
  then show ?thesis using z(1) by (simp add: Z3SolveConcritize_def)
qed

text \<open>C29. A jump on the sign or on overflow is never decided when one of its flags is symbolic: the condition of the sign is translated
  to one bit, which cannot be joined to a truth value, so Z3 throws; the other three have no condition.\<close>

theorem sign_and_overflow_undecided:
  assumes "z3_sorts so (tc_api K)" "cpu_flags (tc_D K) (m_CPU (t_vm T))" "isConditionalExecuteInstr (tc_N K) (Jcc j)" "di_id I = Jcc j"
    and "jcc_cond j = Some c" "c \<in> {CondS, CondNS, CondO, CondNO}" "\<exists>f \<in> set (needed_flags c). flag_sym (tc_D K) (m_CPU (t_vm T)) f"
    and "m_LastExpr (m_EFlagsMgr (t_vm T)) = Some e" "expr_sort (mem_objs (t_vm T)) e = Some (Bits b)" "0 < expr_size e" "expr_size e * 8 \<le> b"
    and "expr_depth e + 1 < tc_depth K"
  shows "updateJCCDecision K T I = Inl (if c = CondS then Thrown else AssertFail)"
proof -
  have sw: "switch_cond_sbb (Jcc j) = Some c" using assms(5) by (simp_all add: switch_cond_jcc)
  have g: "GetCondition (tc_N K) (m_EFlagsMgr (t_vm T)) (Jcc j) = cond_of_last c e"
    by (rule GetCondition_view [OF assms(3) sw assms(8)])
  have d: "dependFlagCon K (t_vm T) (Jcc j) False = Inr (False, False)"
    using DependencyFlagConcreted_view [OF assms(2,3) sw] assms(3,7) by (auto simp: dependFlagCon_def)
  have "eval_condition K T (Jcc j) = Inl (if c = CondS then Thrown else AssertFail)"
  proof (cases "c = CondS")
    case True
    let ?e = "UryE OpSign e (expr_size e) (expr_offset e)"
    have "expr_sort (mem_objs (t_vm T)) ?e = Some (Bits 1)" "expr_depth ?e < tc_depth K" using assms(9-12) by simp_all
    then have "thin_solve K T [?e] = Inl Thrown" unfolding thin_solve_def by (rule conjunct_refused [OF assms(1)])
    then show ?thesis using g True by (simp add: eval_condition_def EvalCondition_def cond_of_last_def)
  next
    case False
    then show ?thesis using g assms(6) by (auto simp: eval_condition_def EvalCondition_def cond_of_last_def)
  qed
  then show ?thesis using d assms(4) by (simp add: updateJCCDecision_def)
qed

definition ex_sort_K :: "zsort tctx" where
  "ex_sort_K = \<lparr>tc_X = ex_ctx, tc_api = sort_api, tc_depth = 4, tc_decode = \<lambda>ph a. ex_insn (other_id 0) c_ReturnInsn False [],
     tc_low = 0, tc_high = 0x1000, tc_host = (\<lambda>bs s. Inr s), tc_hv = (\<lambda>rax. False)\<rparr>"

definition ex_sort_T :: "VMState \<Rightarrow> zsort thin" where
  "ex_sort_T vm = \<lparr>t_vm = vm, t_IOIs = [], symObjectsMap = Map.empty, m_InsnCache = Map.empty, m_NextIP = Map.empty, m_endRIP = 0,
     t_con = new_ConExecutor\<rparr>"

theorem sign_and_overflow_undecided_witness:
  "\<exists>T. m_LastExpr (m_EFlagsMgr (t_vm T)) = Some (SubExpr (ConstExpr 1 4 0) (ConstExpr 2 4 0)) \<and>
    updateJCCDecision ex_sort_K T (ex_insn (Jcc e_js) c_BranchInsn True []) = Inl Thrown"
proof -
  obtain C' where C': "cpu_flags ex_dapi C'" "\<forall>f \<in> status_flags. flag_sym ex_dapi C' f"
    using marks_all [of ex_dapi "m_CPU ex_vm"] ex_cpu_flags by (auto simp: ex_vm_cpu)
  let ?e = "SubExpr (ConstExpr 1 4 0) (ConstExpr 2 4 0)"
  let ?vm = "ex_vm\<lparr>m_CPU := C', m_EFlagsMgr := (m_EFlagsMgr ex_vm)\<lparr>m_LastExpr := Some ?e\<rparr>\<rparr>"
  let ?T = "ex_sort_T ?vm" and ?I = "ex_insn (Jcc e_js) c_BranchInsn True []"
  have so: "z3_sorts (\<lambda>z. z) (tc_api ex_sort_K)" by (simp add: ex_sort_K_def sort_api_sorts)
  have c: "cpu_flags (tc_D ex_sort_K) (m_CPU (t_vm ?T))" using C'(1) by (simp add: ex_sort_K_def ex_sort_T_def ex_ctx_def)
  have j: "isConditionalExecuteInstr (tc_N ex_sort_K) (Jcc e_js)" by (simp add: ex_sort_K_def ex_ctx_def isConditional_iff)
  have f: "\<exists>f \<in> set (needed_flags CondS). flag_sym (tc_D ex_sort_K) (m_CPU (t_vm ?T)) f"
    using C'(2) by (simp add: ex_sort_K_def ex_sort_T_def ex_ctx_def status_flags_def)
  have l: "m_LastExpr (m_EFlagsMgr (t_vm ?T)) = Some ?e" by (simp add: ex_sort_T_def)
  have s: "expr_sort (mem_objs (t_vm ?T)) ?e = Some (Bits 32)" by (simp add: expr_ctor_defs compares_def)
  have d: "0 < expr_size ?e" "expr_size ?e * 8 \<le> 32" "expr_depth ?e + 1 < tc_depth ex_sort_K"
    by (simp_all add: expr_ctor_defs ex_sort_K_def)
  have "updateJCCDecision ex_sort_K ?T ?I = Inl (if CondS = CondS then Thrown else AssertFail)"
    by (rule sign_and_overflow_undecided [OF so c j _ _ _ f l s d]) (simp_all add: ex_insn_def ex_instr_def)
  then show ?thesis using l by (intro exI [of _ ?T]) simp
qed

end
