(* ===== verification/Step_Relations.thy ===== *)
theory Step_Relations
  imports Main
begin

text \<open>
  What the theories on whole analyses share: an invariant that every step keeps holds of all states reached, and a
  machine whose every step another one follows is followed through whole runs.
\<close>

section \<open>Invariants\<close>

locale invariant_steps =
  fixes step :: "'s \<Rightarrow> 's \<Rightarrow> bool" and inv :: "'s \<Rightarrow> bool"
  assumes keeps: "step s s' \<Longrightarrow> inv s \<Longrightarrow> inv s'"
begin

lemma reached: "step\<^sup>*\<^sup>* s s' \<Longrightarrow> inv s \<Longrightarrow> inv s'"
  by (induction rule: rtranclp_induct) (auto intro: keeps)

end

section \<open>Runs\<close>

text \<open>
  Steps carry a mark, whether the test for the end follows; a run takes steps until a marked one
  leads to a state where it stops.
\<close>

inductive run_until :: "('s \<Rightarrow> bool \<Rightarrow> 's \<Rightarrow> bool) \<Rightarrow> ('s \<Rightarrow> bool) \<Rightarrow> 's \<Rightarrow> 's \<Rightarrow> bool" for step stop where
  ends: "step s True s' \<Longrightarrow> stop s' \<Longrightarrow> run_until step stop s s'"
| goes_on: "step s b s1 \<Longrightarrow> \<not> (b \<and> stop s1) \<Longrightarrow> run_until step stop s1 s' \<Longrightarrow> run_until step stop s s'"

lemma run_until_stop: "run_until step stop s s' \<Longrightarrow> stop s'"
  by (induction rule: run_until.induct) simp_all

locale followed_steps =
  fixes step1 :: "'s \<Rightarrow> bool \<Rightarrow> 's \<Rightarrow> bool" and stop1 :: "'s \<Rightarrow> bool"
    and step2 :: "'t \<Rightarrow> bool \<Rightarrow> 't \<Rightarrow> bool" and stop2 :: "'t \<Rightarrow> bool" and matches :: "'t \<Rightarrow> 's \<Rightarrow> bool"
  assumes step_followed: "step1 s b s' \<Longrightarrow> matches t s \<Longrightarrow> \<exists>t'. step2 t b t' \<and> matches t' s'"
    and stop_followed: "matches t s \<Longrightarrow> stop2 t = stop1 s"
begin

lemma run_followed: "run_until step1 stop1 s s' \<Longrightarrow> matches t s \<Longrightarrow> \<exists>t'. run_until step2 stop2 t t' \<and> matches t' s'"
proof (induction arbitrary: t rule: run_until.induct)
  case (ends s s')
  then obtain t' where "step2 t True t'" "matches t' s'" using step_followed by blast
  then show ?case using run_until.ends [of step2 t t' stop2] stop_followed ends(2) by blast
next
  case (goes_on s b s1 s')
  obtain t1 where t1: "step2 t b t1" "matches t1 s1" using step_followed [OF goes_on(1,5)] by blast
  obtain t' where "run_until step2 stop2 t1 t'" "matches t' s'" using goes_on(4) [OF t1(2)] by blast
  moreover have "\<not> (b \<and> stop2 t1)" using goes_on(2) stop_followed [OF t1(2)] by simp
  ultimately show ?case using run_until.goes_on [where step = step2 and stop = stop2, OF t1(1)] by blast
qed

end

end
