(* ===== verification/Native_Run.thy ===== *)
theory Native_Run
  imports Thin_Ctrl Step_Relations
begin

text \<open>
  The reference for the thin control: the machine running the same code with no analyser. Where no byte and no
  flag is symbolic, each turn of the analysis does to registers and memory what the machine does, and
  a run that ends on the machine is an analysis that completes. The machine's steps are followed in the sense
  of the locale followed_steps.
\<close>

section \<open>Reads where nothing is symbolic\<close>

definition all_concrete :: "VMState \<Rightarrow> bool" where
  "all_concrete vm \<longleftrightarrow> vm_bytes vm = (\<lambda>x. None)"

lemma all_concreteD:
  "all_concrete vm \<Longrightarrow> vm_bytes vm x = None" "all_concrete vm \<Longrightarrow> k < 32 \<Longrightarrow> vm_word vm k p = None"
  "all_concrete vm \<Longrightarrow> vm_mem vm a = None" "all_concrete vm \<Longrightarrow> reg_clear D vm i"
proof -
  assume a: "all_concrete vm"
  show "vm_bytes vm x = None" using a by (simp add: all_concrete_def)
  show "k < 32 \<Longrightarrow> vm_word vm k p = None" using fun_cong [OF a [unfolded all_concrete_def], of "InWord k p"] by simp
  show "vm_mem vm a = None" using fun_cong [OF a [unfolded all_concrete_def], of "InMem a"] by simp
  show "reg_clear D vm i" using a by (simp add: all_concrete_def reg_clear_def)
qed

text \<open>The number a register is bound to when its word in the saved state is the given one.\<close>

definition reg_now :: "dapi \<Rightarrow> u64 list \<Rightarrow> bindings \<Rightarrow> u32 \<Rightarrow> bool" where
  "reg_now D regs env i \<longleftrightarrow> (\<forall>r k sz. i = reg_id D r \<and> saved_reg r k sz \<longrightarrow>
     env i = Some (signed_take_bit (8 * unat sz - 1) (read_word sz (regs ! k) 0)))"

lemma bound_now_concrete: "all_concrete vm \<Longrightarrow> bound_now D vm env i = reg_now D (m_ArrRegs (m_CPU vm)) env i"
  by (simp add: bound_now_def reg_now_def all_concreteD(4))

text \<open>An access to memory whose address can be computed from the registers, inside a line of 16 bytes.\<close>

definition ref_at :: "dapi \<Rightarrow> u64 list \<Rightarrow> u64 \<Rightarrow> mem_ref \<Rightarrow> bool" where
  "ref_at D regs g R \<longleftrightarrow> saved_regs D (mr_regs R) \<and>
     (\<forall>env. (\<forall>(i, sz) \<in> set (mr_regs R). reg_now D regs env i) \<longrightarrow>
        (\<exists>a. mr_eval R env = Some a \<and> mem_range (with_gs a g) (mr_size R)))"

lemma read_concrete:
  assumes "vm_ok D vm" "all_concrete vm" "saved_reg r k sz"
  shows "\<exists>V. vm_readRegister D vm (plain_reg (reg_id D r) sz False) = Inr (vm, V, True) \<and> \<not> rv_bsym V \<and>
    rv_i64 V = read_word sz (m_ArrRegs (m_CPU vm) ! k) 0"
proof -
  let ?V = "plain_reg (reg_id D r) sz False"
  have ok: "vm_wf vm" "dapi_ok D" "regs_ok D (m_CPU vm)" using assms(1) by (simp_all add: vm_ok_def)
  have V: "rv_indx ?V = reg_id D r" "rv_size ?V = sz" "\<not> rv_isSymList ?V" by (simp_all add: plain_reg_def)
  have "k < 32" using saved_reg_size [OF assms(3)] by simp
  then have e: "\<not> (\<exists>p. 0 \<le> p \<and> p < int (unat sz) \<and> vm_word vm k p \<noteq> None)" using all_concreteD(2) [OF assms(2)] by simp
  show ?thesis
    using vm_readRegister_view [OF ok assms(3) V] unfolding if_not_P [OF e] by (simp add: plain_reg_def)
qed

lemma visit_regs_concrete:
  assumes "vm_ok (cx_D X) vm" "all_concrete vm" "saved_regs (cx_D X) rs"
  shows "\<exists>env'. visit_regs X vm rs env = Inr (vm, env')"
  using assms(3)
proof (induction rs arbitrary: env)
  case Nil
  then show ?case by simp
next
  case (Cons x rs)
  obtain i sz where x: "x = (i, sz)" by (cases x)
  obtain r k where r: "i = reg_id (cx_D X) r" "saved_reg r k sz" using Cons.prems x by (auto simp: saved_regs_def)
  obtain V where V: "vm_readRegister (cx_D X) vm (plain_reg i sz False) = Inr (vm, V, True)" "\<not> rv_bsym V"
    using read_concrete [OF assms(1,2) r(2)] r(1) by blast
  have "saved_regs (cx_D X) rs" using Cons.prems by (simp add: saved_regs_def)
  then show ?case using Cons.IH [of "bind_reg i sz (rv_i64 V) env"] x V by simp
qed

lemma ref_symbolic_concrete:
  assumes "vm_ok (cx_D X) vm" "all_concrete vm" "ref_at (cx_D X) (m_ArrRegs (m_CPU vm)) g R"
  shows "\<exists>env'. ref_symbolic X vm g R env = Inr (vm, env', False)"
proof -
  have sr: "saved_regs (cx_D X) (mr_regs R)" using assms(3) by (simp add: ref_at_def)
  obtain env' where v: "visit_regs X vm (mr_regs R) env = Inr (vm, env')"
    using visit_regs_concrete [OF assms(1,2) sr] by blast
  have "\<forall>i. i \<in> fst ` set (mr_regs R) \<longrightarrow> bound_now (cx_D X) vm env' i" using visit_regs_ok [OF v assms(1) sr] by blast
  then have "\<forall>(i, sz) \<in> set (mr_regs R). reg_now (cx_D X) (m_ArrRegs (m_CPU vm)) env' i"
    unfolding bound_now_concrete [OF assms(2)] by force
  then obtain a where a: "mr_eval R env' = Some a" "mem_range (with_gs a g) (mr_size R)" using assms(3) unfolding ref_at_def by blast
  have "vm_wf vm" using assms(1) by (simp add: vm_ok_def)
  then have "vm_isSYMemoryCell vm (with_gs a g) (mr_size R) = Inr False"
    using isSYMemoryCell_ok [OF vm_wfD(1) a(2)] all_concreteD(3) [OF assms(2)] by (simp add: vm_isSYMemoryCell_def vm_mem_def)
  then show ?thesis using v a(1) by (simp add: ref_symbolic_def eval_defined_def)
qed

lemma refs_symbolic_concrete:
  assumes "vm_ok (cx_D X) vm" "all_concrete vm" "\<forall>R \<in> set Rs. ref_at (cx_D X) (m_ArrRegs (m_CPU vm)) g R"
  shows "\<exists>env'. refs_symbolic X vm g Rs env = Inr (vm, env', False)"
  using assms(3)
proof (induction Rs arbitrary: env)
  case Nil
  then show ?case by simp
next
  case (Cons R Rs)
  obtain e1 where "ref_symbolic X vm g R env = Inr (vm, e1, False)"
    using ref_symbolic_concrete [OF assms(1,2), of g R env] Cons.prems by auto
  then show ?case using Cons.IH [of e1] Cons.prems by simp
qed

lemma some_reg_concrete:
  assumes "vm_ok (cx_D X) vm" "all_concrete vm" "saved_regs (cx_D X) rs"
  shows "some_reg_symbolic X vm rs = Inr False"
  using assms(3)
proof (induction rs)
  case Nil
  then show ?case by simp
next
  case (Cons x rs)
  obtain i sz where x: "x = (i, sz)" by (cases x)
  obtain r k where r: "i = reg_id (cx_D X) r" "saved_reg r k sz" using Cons.prems x by (auto simp: saved_regs_def)
  have "k < 32" using saved_reg_size [OF r(2)] by simp
  then have "vm_isSYReg (cx_D X) vm i = Inr False"
    using isSYReg_view [OF assms(1) r(2)] all_concreteD(2) [OF assms(2)] r(1) by simp
  then show ?case using Cons x by (simp add: saved_regs_def)
qed

lemma gs_base_concrete:
  assumes "vm_ok (cx_D X) vm" "all_concrete vm"
  shows "gs_base_of X vm is = Inr (vm, if reg_id (cx_D X) x86_gs \<in> set is then m_ArrRegs (m_CPU vm) ! GS_PTRIDX else 0)"
proof (induction "is")
  case Nil
  then show ?case by simp
next
  case (Cons i "is")
  have gs: "saved_reg x86_gs GS_PTRIDX 8"
    by (simp add: saved_reg_def DyinstEncoding_def regs_64_def ptridx_defs PTREGS_REG_TOTAL_def)
  obtain V where "vm_readRegister (cx_D X) vm (plain_reg (reg_id (cx_D X) x86_gs) 8 False) = Inr (vm, V, True)"
    "rv_i64 V = m_ArrRegs (m_CPU vm) ! GS_PTRIDX"
    using read_concrete [OF assms gs] by (auto simp: read_word_def take_bit_word_eq_self)
  then show ?case using Cons by auto
qed
section \<open>The choice of the concrete executor\<close>

text \<open>The operands of an instruction name registers of the saved state and cells whose address can be computed.\<close>

definition opnd_at :: "dapi \<Rightarrow> u64 list \<Rightarrow> u64 \<Rightarrow> topnd \<Rightarrow> bool" where
  "opnd_at D regs g Q \<longleftrightarrow>
     (if \<not> readsMemory (to_op Q) \<and> \<not> writesMemory (to_op Q)
      then saved_regs D (getReadSet (to_op Q)) \<and> saved_regs D (getWriteSet (to_op Q))
      else (readsMemory (to_op Q) \<longrightarrow> length (to_rd Q) = 1 \<and> ref_at D regs g (hd (to_rd Q))) \<and>
           (writesMemory (to_op Q) \<longrightarrow> length (to_wr Q) = 1 \<and> ref_at D regs g (hd (to_wr Q))))"

definition insn_at :: "dapi \<Rightarrow> u64 list \<Rightarrow> dinstr \<Rightarrow> bool" where
  "insn_at D regs I \<longleftrightarrow>
     (\<forall>Q \<in> set (di_ops I). opnd_at D regs (if reg_id D x86_gs \<in> set (in_implicit (di_instr I)) then regs ! GS_PTRIDX else 0) Q) \<and>
     (\<forall>R \<in> set (di_imp_rd I) \<union> set (di_imp_wr I). ref_at D regs 0 R)"

lemma OpdhasSymMemCell_concrete:
  assumes "vm_ok (cx_D X) vm" "all_concrete vm" "opnd_at (cx_D X) (m_ArrRegs (m_CPU vm)) g Q"
    and "readsMemory (to_op Q) \<or> writesMemory (to_op Q)"
  shows "\<exists>env'. OpdhasSymMemCell X vm Q g env = Inr (vm, env', False)"
proof -
  have r: "readsMemory (to_op Q) \<Longrightarrow> length (to_rd Q) = 1 \<and> (\<exists>e. ref_symbolic X vm g (hd (to_rd Q)) env = Inr (vm, e, False))" for env
    using assms(3) ref_symbolic_concrete [OF assms(1,2), of g "hd (to_rd Q)" env] by (simp add: opnd_at_def)
  have w: "writesMemory (to_op Q) \<Longrightarrow> length (to_wr Q) = 1 \<and> (\<exists>e. ref_symbolic X vm g (hd (to_wr Q)) env = Inr (vm, e, False))" for env
    using assms(3) ref_symbolic_concrete [OF assms(1,2), of g "hd (to_wr Q)" env] by (simp add: opnd_at_def)
  obtain e1 where e1: "(if readsMemory (to_op Q) then rassert (length (to_rd Q) = 1) (ref_symbolic X vm g (hd (to_rd Q)) env)
      else Inr (vm, env, False)) = Inr (vm, e1, False)" using r [of env] by (cases "readsMemory (to_op Q)") auto
  show ?thesis using e1 w [of e1] by (cases "writesMemory (to_op Q)") (auto simp: OpdhasSymMemCell_def)
qed

lemma operands_concrete:
  assumes "vm_ok (cx_D X) vm" "all_concrete vm"
    and "\<forall>Q \<in> set Qs. opnd_at (cx_D X) (m_ArrRegs (m_CPU vm))
      (if reg_id (cx_D X) x86_gs \<in> set (in_implicit (di_instr I)) then m_ArrRegs (m_CPU vm) ! GS_PTRIDX else 0) Q"
  shows "\<exists>env'. operands_symbolic X vm I Qs env = Inr (vm, env', False)"
  using assms(3)
proof (induction Qs arbitrary: env)
  case Nil
  then show ?case by simp
next
  case (Cons Q Qs)
  let ?g = "if reg_id (cx_D X) x86_gs \<in> set (in_implicit (di_instr I)) then m_ArrRegs (m_CPU vm) ! GS_PTRIDX else 0"
  have q: "opnd_at (cx_D X) (m_ArrRegs (m_CPU vm)) ?g Q" using Cons.prems by simp
  have g: "thin_isUseGS X vm I = Inr (vm, ?g)" using gs_base_concrete [OF assms(1,2)] by (simp add: thin_isUseGS_def)
  obtain e1 where "operands_symbolic X vm I (Q # Qs) env = operands_symbolic X vm I Qs e1"
  proof (cases "\<not> readsMemory (to_op Q) \<and> \<not> writesMemory (to_op Q)")
    case True
    then have "OpdhasSymReg X vm (to_op Q) = Inr False"
      using q some_reg_concrete [OF assms(1,2)] by (simp add: OpdhasSymReg_def opnd_at_def)
    then show ?thesis using that [of env] True by simp
  next
    case False
    then obtain e1 where "OpdhasSymMemCell X vm Q ?g env = Inr (vm, e1, False)"
      using OpdhasSymMemCell_concrete [OF assms(1,2) q] by blast
    then show ?thesis using that [of e1] False g by simp
  qed
  then show ?case using Cons.IH [of e1] Cons.prems by simp
qed

lemma hasSymOperand_concrete:
  assumes "vm_ok (cx_D X) vm" "all_concrete vm" "insn_at (cx_D X) (m_ArrRegs (m_CPU vm)) I"
  shows "\<exists>env. hasSymOperand X vm I = Inr (vm, I\<lparr>di_bound := env\<rparr>, False)"
proof -
  obtain e1 where 1: "operands_symbolic X vm I (di_ops I) (di_bound I) = Inr (vm, e1, False)"
    using operands_concrete [OF assms(1,2), of "di_ops I" I "di_bound I"] assms(3) unfolding insn_at_def by blast
  obtain e2 where 2: "refs_symbolic X vm 0 (di_imp_rd I) e1 = Inr (vm, e2, False)"
    using refs_symbolic_concrete [OF assms(1,2)] assms(3) by (meson UnI1 insn_at_def)
  obtain e3 where 3: "refs_symbolic X vm 0 (di_imp_wr I) e2 = Inr (vm, e3, False)"
    using refs_symbolic_concrete [OF assms(1,2)] assms(3) by (meson UnI2 insn_at_def)
  show ?thesis using 1 2 3 by (intro exI [of _ e3]) (simp add: hasSymOperand_def checkImplicitMemAccess_def)
qed

section \<open>The flags\<close>

definition no_flag_symbolic :: "dapi \<Rightarrow> SYCPUState \<Rightarrow> bool" where
  "no_flag_symbolic D C \<longleftrightarrow> (\<forall>f. \<not> flag_sym D C f)"

lemma clear_flags_regs:
  assumes "\<forall>i \<in> set fs. m_Regs C i \<noteq> None"
  shows "\<exists>Rs. clear_flags fs C = Inr (C\<lparr>m_Regs := Rs\<rparr>) \<and>
    (\<forall>i. Rs i = map_option (\<lambda>R. if i \<in> set fs then R\<lparr>bsym_flag := False\<rparr> else R) (m_Regs C i))"
  using assms
proof (induction fs arbitrary: C)
  case Nil
  have "C\<lparr>m_Regs := m_Regs C\<rparr> = C" by simp
  then show ?case by (intro exI [of _ "m_Regs C"]) (simp add: option.map_ident)
next
  case (Cons f fs)
  obtain R where R: "m_Regs C f = Some R" using Cons.prems by auto
  let ?C = "C\<lparr>m_Regs := (m_Regs C)(f \<mapsto> R\<lparr>bsym_flag := False\<rparr>)\<rparr>"
  have "\<forall>i \<in> set fs. m_Regs ?C i \<noteq> None" using Cons.prems by simp
  from Cons.IH [OF this] obtain Rs where Rs: "clear_flags fs ?C = Inr (?C\<lparr>m_Regs := Rs\<rparr>)"
    "\<And>i. Rs i = map_option (\<lambda>R. if i \<in> set fs then R\<lparr>bsym_flag := False\<rparr> else R) (m_Regs ?C i)" by blast
  show ?case
  proof (intro exI conjI allI)
    show "clear_flags (f # fs) C = Inr (C\<lparr>m_Regs := Rs\<rparr>)" using Rs(1) R by (simp add: upd_reg_def idxToReg_def)
    show "Rs i = map_option (\<lambda>R. if i \<in> set (f # fs) then R\<lparr>bsym_flag := False\<rparr> else R) (m_Regs C i)" for i
      using Rs(2) [of i] R by (cases "m_Regs C i") auto
  qed
qed

text \<open>Clearing the marks keeps a processor without marks well formed, and touches nothing else.\<close>

lemma clearAllSymFlag_ok:
  assumes "regs_ok D C" "no_flag_symbolic D C"
  shows "\<exists>Rs. clearAllSymFlag D C = Inr (C\<lparr>m_Regs := Rs\<rparr>) \<and> regs_ok D (C\<lparr>m_Regs := Rs\<rparr>) \<and>
    no_flag_symbolic D (C\<lparr>m_Regs := Rs\<rparr>)"
proof -
  have "\<forall>f \<in> set flag_regs. \<exists>i sz. (f, i, sz) \<in> set DyinstEncoding"
    by (auto simp: flag_regs_def table_defs)
  then have "\<forall>i \<in> set (map (reg_id D) flag_regs). m_Regs C i \<noteq> None"
    using assms(1) unfolding regs_ok_def by fastforce
  from clear_flags_regs [OF this] obtain Rs where Rs: "clearAllSymFlag D C = Inr (C\<lparr>m_Regs := Rs\<rparr>)"
    "\<And>i. Rs i = map_option (\<lambda>R. if i \<in> set (map (reg_id D) flag_regs) then R\<lparr>bsym_flag := False\<rparr> else R) (m_Regs C i)"
    unfolding clearAllSymFlag_def by blast
  have "regs_ok D (C\<lparr>m_Regs := Rs\<rparr>)"
    unfolding regs_ok_def
  proof (intro ballI, clarify)
    fix r i sz assume "(r, i, sz) \<in> set DyinstEncoding"
    then obtain R where "m_Regs C (reg_id D r) = Some R" "indx R = reg_id D r \<and> reg_size R = sz \<and> slot R = i"
      using assms(1) unfolding regs_ok_def by fastforce
    then show "\<exists>R. m_Regs (C\<lparr>m_Regs := Rs\<rparr>) (reg_id D r) = Some R \<and> indx R = reg_id D r \<and> reg_size R = sz \<and> slot R = i"
      using Rs(2) [of "reg_id D r"] by simp
  qed
  moreover have "no_flag_symbolic D (C\<lparr>m_Regs := Rs\<rparr>)"
    using assms(2) Rs(2) by (auto simp: no_flag_symbolic_def flag_sym_def split: if_splits)
  ultimately show ?thesis using Rs(1) by blast
qed
section \<open>The machine without the analyser\<close>

text \<open>
  Registers and memory as the processor has them. A step decodes the instruction at the instruction
  pointer and does what the instruction does: a transfer is written out, every other instruction is run by
  the processor itself, from its bytes in memory. The steps listed are those of code the analyser can follow without a symbol:
  operands it can address, transfers to a place counted from the instruction pointer, no instruction that reads the
  instruction pointer otherwise, and no write that changes the code of the region.
\<close>

type_synonym native = "u64 list \<times> (u64 \<Rightarrow> u8)"

definition in_region :: "'z tctx \<Rightarrow> u64 \<Rightarrow> bool" where
  "in_region K a \<longleftrightarrow> tc_low K \<le> a \<and> a < tc_high K"

definition code_kept :: "'z tctx \<Rightarrow> (u64 \<Rightarrow> u8) \<Rightarrow> (u64 \<Rightarrow> u8) \<Rightarrow> bool" where
  "code_kept K ph ph' \<longleftrightarrow> (\<forall>a. in_region K a \<longrightarrow> tc_decode K ph' a = tc_decode K ph a)"

definition at_insn :: "'z tctx \<Rightarrow> native \<Rightarrow> dinstr \<Rightarrow> bool" where
  "at_insn K s I \<longleftrightarrow> in_region K (fst s ! RIP_PTRIDX) \<and> I = tc_decode K (snd s) (fst s ! RIP_PTRIDX)"

definition next_ip :: "u64 list \<Rightarrow> dinstr \<Rightarrow> u64 list" where
  "next_ip regs I = regs[RIP_PTRIDX := regs ! RIP_PTRIDX + in_size (di_instr I)]"

definition fixed_target :: "dapi \<Rightarrow> u64 list \<Rightarrow> dinstr \<Rightarrow> u64 \<Rightarrow> bool" where
  "fixed_target D regs I t \<longleftrightarrow> length (di_ops I) = 1 \<and> \<not> readsMemory (to_op (hd (di_ops I))) \<and>
     (\<forall>env. env (reg_id D x86_rip) = Some (regs ! RIP_PTRIDX) \<longrightarrow>
        od_eval (to_op (hd (di_ops I))) env = Some (t + in_size (di_instr I)))"

inductive native_step :: "'z tctx \<Rightarrow> native \<Rightarrow> bool \<Rightarrow> native \<Rightarrow> bool" for K where
  native_nop: "at_insn K (regs, ph) I \<Longrightarrow> di_nop I \<Longrightarrow> native_step K (regs, ph) False (next_ip regs I, ph)"
| native_other: "at_insn K (regs, ph) I \<Longrightarrow> \<not> di_nop I \<Longrightarrow> di_cat I = c_OtherInsn \<Longrightarrow>
     \<not> isConditionalExecuteInstr (tc_N K) (di_id I) \<Longrightarrow> x86_rip \<notin> set (di_isRead I) \<Longrightarrow> unat (in_size (di_instr I)) \<le> 15 \<Longrightarrow>
     insn_at (tc_D K) (next_ip regs I) I \<Longrightarrow>
     InsnExecNonRIP (tc_host K) (copy_insn (code_bytes ph (regs ! RIP_PTRIDX) (unat (in_size (di_instr I)))) NopBytes)
       (next_ip regs I) ph = Inr (regs', ph') \<Longrightarrow> code_kept K ph ph' \<Longrightarrow>
     native_step K (regs, ph) True (regs', ph')"
| native_ret: "at_insn K (regs, ph) I \<Longrightarrow> \<not> di_nop I \<Longrightarrow> di_cat I = c_ReturnInsn \<Longrightarrow>
     native_step K (regs, ph) True
       ((next_ip regs I)[RIP_PTRIDX := get_bytes 8 (regs ! RSP_PTRIDX) ph, RSP_PTRIDX := regs ! RSP_PTRIDX + 8], ph)"
| native_call: "at_insn K (regs, ph) I \<Longrightarrow> \<not> di_nop I \<Longrightarrow> di_cat I = c_CallInsn \<Longrightarrow> fixed_target (tc_D K) (next_ip regs I) I t \<Longrightarrow>
     ph' = put_bytes 8 (regs ! RSP_PTRIDX - 8) (regs ! RIP_PTRIDX + in_size (di_instr I)) ph \<Longrightarrow> code_kept K ph ph' \<Longrightarrow>
     native_step K (regs, ph) True ((next_ip regs I)[RSP_PTRIDX := regs ! RSP_PTRIDX - 8, RIP_PTRIDX := t], ph')"
| native_jump: "at_insn K (regs, ph) I \<Longrightarrow> \<not> di_nop I \<Longrightarrow> di_cat I = c_BranchInsn \<Longrightarrow> \<not> di_fall I \<Longrightarrow>
     fixed_target (tc_D K) (next_ip regs I) I t \<Longrightarrow>
     native_step K (regs, ph) True ((next_ip regs I)[RIP_PTRIDX := t], ph)"
| native_jcc: "at_insn K (regs, ph) I \<Longrightarrow> \<not> di_nop I \<Longrightarrow> di_cat I = c_BranchInsn \<Longrightarrow> di_fall I \<Longrightarrow> di_id I = Jcc j \<Longrightarrow>
     isConditionalExecuteInstr (tc_N K) (Jcc j) \<Longrightarrow> jcc_cond j = Some c \<Longrightarrow> j \<notin> unlisted_jumps \<Longrightarrow>
     fixed_target (tc_D K) (next_ip regs I) I t \<Longrightarrow>
     native_step K (regs, ph) True
       ((next_ip regs I)[RIP_PTRIDX := if x86_cond c (\<lambda>f. bit (regs ! 18) (flag_pos f)) then t
          else regs ! RIP_PTRIDX + in_size (di_instr I)], ph)"

inductive_cases native_stepE: "native_step K s chk s'"

text \<open>A run of a function: steps until one that is no nop leaves the stack pointer above a bound.\<close>

definition native_run :: "'z tctx \<Rightarrow> u64 \<Rightarrow> native \<Rightarrow> native \<Rightarrow> bool" where
  "native_run K term_rsp = run_until (native_step K) (\<lambda>s. term_rsp < fst s ! RSP_PTRIDX)"

section \<open>The analyser follows the machine\<close>

text \<open>The cache holds, for addresses of the region, what the decoder says, up to the values bound to registers.\<close>

definition cache_matches :: "'z tctx \<Rightarrow> (u64 \<Rightarrow> u8) \<Rightarrow> (u32 \<rightharpoonup> dinstr) \<Rightarrow> bool" where
  "cache_matches K ph c \<longleftrightarrow> (\<forall>a I. in_region K a \<and> c (insn_index a) = Some I \<longrightarrow> (\<exists>env. I = (tc_decode K ph a)\<lparr>di_bound := env\<rparr>))"

definition runs_as :: "'z tctx \<Rightarrow> 'z thin \<Rightarrow> native \<Rightarrow> bool" where
  "runs_as K T s \<longleftrightarrow> vm_ok (tc_D K) (t_vm T) \<and> flags_ok (tc_D K) \<and> all_concrete (t_vm T) \<and>
     no_flag_symbolic (tc_D K) (m_CPU (t_vm T)) \<and> m_ArrRegs (m_CPU (t_vm T)) = fst s \<and> phys (m_MEM (t_vm T)) = snd s \<and>
     t_con T = new_ConExecutor \<and> cache_matches K (snd s) (m_InsnCache T)"

text \<open>In a region of at most 256 MiB no two addresses share an entry of the cache.\<close>

definition small_region :: "'z tctx \<Rightarrow> bool" where
  "small_region K \<longleftrightarrow> uint (tc_high K) - uint (tc_low K) \<le> 2 ^ 28"

lemma insn_index_mod: "uint (insn_index a) = uint a mod 2 ^ 28"
proof -
  have "a AND 0xFFFFFFF = take_bit 28 a" by (simp add: take_bit_eq_mask mask_eq_exp_minus_1)
  then have "uint (insn_index a) = take_bit 32 (take_bit 28 (uint a))" by (simp add: insn_index_def uint_word_ariths unsigned_ucast_eq unsigned_take_bit_eq)
  then show ?thesis by (simp add: take_bit_take_bit take_bit_eq_mod)
qed

lemma insn_index_inj:
  assumes "small_region K" "in_region K a" "in_region K b" "insn_index a = insn_index b"
  shows "a = b"
proof -
  have m: "uint a mod 2 ^ 28 = uint b mod 2 ^ 28" using insn_index_mod [of a] insn_index_mod [of b] assms(4) by simp
  have r: "uint (tc_low K) \<le> uint a" "uint a < uint (tc_high K)" "uint (tc_low K) \<le> uint b" "uint b < uint (tc_high K)"
    using assms(2,3) by (simp_all add: in_region_def word_le_def word_less_def)
  have d: "(2 :: int) ^ 28 dvd uint a - uint b" using m by (simp add: mod_eq_dvd_iff)
  have "\<bar>uint a - uint b\<bar> < 2 ^ 28" using r assms(1) unfolding small_region_def by linarith
  then have "uint a - uint b = 0" using d zdvd_imp_le [of "2 ^ 28" "\<bar>uint a - uint b\<bar>"] by force
  then have "uint a = uint b" by simp
  then show ?thesis by (rule unsigned_word_eqI)
qed

lemma runs_as_cache:
  assumes "runs_as K T s" "small_region K" "in_region K a" "I = (tc_decode K (snd s) a)\<lparr>di_bound := env\<rparr>"
  shows "runs_as K (cache_insn a I T) s"
proof -
  have "\<exists>e. J = (tc_decode K (snd s) b)\<lparr>di_bound := e\<rparr>"
    if "in_region K b" "((m_InsnCache T)(insn_index a \<mapsto> I)) (insn_index b) = Some J" for b J
  proof (cases "insn_index b = insn_index a")
    case True
    then have "b = a" using insn_index_inj [OF assms(2,3) that(1)] by simp
    then show ?thesis using that(2) assms(4) by auto
  next
    case False
    then show ?thesis using that assms(1) by (auto simp: runs_as_def cache_matches_def)
  qed
  then have "cache_matches K (snd s) ((m_InsnCache T)(insn_index a \<mapsto> I))" unfolding cache_matches_def by blast
  then show ?thesis using assms(1) by (simp add: runs_as_def cache_insn_def)
qed

lemma fetch_region:
  assumes "runs_as K T s" "small_region K" "in_region K a" "I = tc_decode K (snd s) a"
  obtains T1 env where "fetch_insn K T a = Inr (T1, I\<lparr>di_bound := env\<rparr>)" "runs_as K T1 s"
proof (cases "m_InsnCache T (insn_index a)")
  case None
  have i: "I\<lparr>di_bound := di_bound I\<rparr> = I" by simp
  have "decode_at K T a = Inr I" using assms(1,3,4) by (simp add: decode_at_def in_region_def runs_as_def)
  then have "fetch_insn K T a = Inr (cache_insn a I T, I\<lparr>di_bound := di_bound I\<rparr>)"
    using None i by (simp add: fetch_insn_def)
  moreover have "runs_as K (cache_insn a I T) s"
    by (rule runs_as_cache [OF assms(1,2), where env = "di_bound I"]) (use assms(3,4) i in simp_all)
  ultimately show ?thesis by (rule that)
next
  case (Some J)
  then obtain env where "J = I\<lparr>di_bound := env\<rparr>" using assms(1,3,4) unfolding runs_as_def cache_matches_def by blast
  then show ?thesis using that [of T env] Some assms(1) by (simp add: fetch_insn_def)
qed

lemma fetch_native:
  assumes "runs_as K T s" "small_region K" "at_insn K s I"
  obtains T1 env where "fetch_insn K T (fst s ! RIP_PTRIDX) = Inr (T1, I\<lparr>di_bound := env\<rparr>)" "runs_as K T1 s"
  using fetch_region [OF assms(1,2), of "fst s ! RIP_PTRIDX" I] assms(3) that unfolding at_insn_def by blast

text \<open>What the relation does not look at, and what it becomes when words of the registers change.\<close>

lemma runs_as_vm:
  assumes "runs_as K T s" "vm_ok (tc_D K) vm'" "vm_bytes vm' = vm_bytes (t_vm T)" "no_flag_symbolic (tc_D K) (m_CPU vm')"
    and "code_kept K (snd s) (phys (m_MEM vm'))"
  shows "runs_as K (T\<lparr>t_vm := vm'\<rparr>) (m_ArrRegs (m_CPU vm'), phys (m_MEM vm'))"
  using assms by (auto simp: runs_as_def all_concrete_def cache_matches_def code_kept_def)

lemma code_kept_refl: "code_kept K ph ph"
  by (simp add: code_kept_def)

lemma flags_of_words [simp]:
  "no_flag_symbolic D (m_CPU (put_word i v vm)) = no_flag_symbolic D (m_CPU vm)"
  "no_flag_symbolic D (m_CPU (raw_write vm a v)) = no_flag_symbolic D (m_CPU vm)"
  by (simp_all add: no_flag_symbolic_def flag_sym_def)

lemma runs_as_ok: "runs_as K T s \<Longrightarrow> vm_ok (tc_D K) (t_vm T)"
  by (simp add: runs_as_def)

lemma runs_as_word:
  assumes "runs_as K T s"
  shows "runs_as K (T\<lparr>t_vm := put_word i v (t_vm T)\<rparr>) ((fst s)[i := v], snd s)"
proof -
  have "runs_as K (T\<lparr>t_vm := put_word i v (t_vm T)\<rparr>) (m_ArrRegs (m_CPU (put_word i v (t_vm T))), phys (m_MEM (put_word i v (t_vm T))))"
    by (rule runs_as_vm [OF assms]) (use assms put_word_ok(1) in \<open>auto simp: runs_as_def code_kept_refl\<close>)
  then show ?thesis using assms by (simp add: runs_as_def)
qed

lemma runs_as_words: "runs_as K T s \<Longrightarrow> length (fst s) = 32"
  using vm_words [of "t_vm T"] by (auto simp: runs_as_def vm_ok_def)

lemma runs_as_regs:
  assumes "runs_as K T s" "i < 32"
  shows "pt_reg i (t_vm T) = Inr (fst s ! i)" "set_pt_reg i v (t_vm T) = Inr (put_word i v (t_vm T))"
  using assms runs_as_words [OF assms(1)] by (simp_all add: runs_as_def pt_reg_ok set_pt_reg_ok)

text \<open>The count of conditional instructions only adds to the map of recorded decisions.\<close>

lemma runs_as_count:
  assumes "runs_as K T s"
  shows "runs_as K (fst (count_conditional K T I a cc)) s"
proof -
  have "vm_bytes ((t_vm T)\<lparr>m_EFlagsMgr := E\<rparr>) = vm_bytes (t_vm T)" for E by (rule vm_bytes_cong) simp_all
  then show ?thesis
    using assms by (auto simp: count_conditional_def runs_as_def all_concrete_def vm_ok_def vm_wf_def vm_lists_def)
qed

lemma InsnDispatch_native:
  assumes "runs_as K T s" "x86_rip \<notin> set (di_isRead I)" "unat (in_size (di_instr I)) \<le> 15"
    and "InsnExecNonRIP (tc_host K) (copy_insn (code_bytes (snd s) (fst s ! RIP_PTRIDX - in_size (di_instr I)) (unat (in_size (di_instr I)))) NopBytes)
      (fst s) (snd s) = Inr (regs', ph')"
  shows "InsnDispatch (tc_host K) (tc_hv K) (t_con T) I (t_vm T) =
    Inr (new_ConExecutor, (t_vm T)\<lparr>m_CPU := (m_CPU (t_vm T))\<lparr>m_ArrRegs := regs'\<rparr>, m_MEM := (m_MEM (t_vm T))\<lparr>phys := ph'\<rparr>\<rparr>)"
proof -
  have l: "RIP_PTRIDX < length (fst s)" using runs_as_words [OF assms(1)] by (simp add: RIP_PTRIDX_def)
  let ?bs = "code_bytes (snd s) (fst s ! RIP_PTRIDX - in_size (di_instr I)) (unat (in_size (di_instr I)))"
  have "ClearTinsn (copy_insn ?bs NopBytes) (unat (in_size (di_instr I))) = NopBytes"
    by (rule copy_clear) (use assms(3) in \<open>simp_all add: code_bytes_def\<close>)
  then show ?thesis
    using assms l by (simp add: InsnDispatch_def runs_as_def arr_get_def Let_def new_ConExecutor_def)
qed

section \<open>One step\<close>

lemma dispatch_other_native:
  assumes "runs_as K T s" "di_cat I = c_OtherInsn" "\<not> isConditionalExecuteInstr (tc_N K) (di_id I)" "x86_rip \<notin> set (di_isRead I)"
    and "unat (in_size (di_instr I)) \<le> 15" "insn_at (tc_D K) (fst s) I"
    and "InsnExecNonRIP (tc_host K) (copy_insn (code_bytes (snd s) (fst s ! RIP_PTRIDX - in_size (di_instr I)) (unat (in_size (di_instr I)))) NopBytes)
      (fst s) (snd s) = Inr (regs', ph')" "code_kept K (snd s) ph'"
  shows "\<exists>T' env. dispatch_other K T I = Inr (T', I\<lparr>di_bound := env\<rparr>, True) \<and> runs_as K T' (regs', ph')"
proof -
  have ok: "vm_ok (tc_D K) (t_vm T)" "all_concrete (t_vm T)" "m_ArrRegs (m_CPU (t_vm T)) = fst s" using assms(1) by (simp_all add: runs_as_def)
  have f: "dependFlagCon K (t_vm T) (di_id I) False = Inr (True, False)" using assms(3) by (simp add: dependFlagCon_def)
  obtain env where h: "hasSymOperand (tc_X K) (t_vm T) I = Inr (t_vm T, I\<lparr>di_bound := env\<rparr>, False)"
    using hasSymOperand_concrete [OF ok(1,2), of I] assms(6) ok(3) by auto
  let ?I = "I\<lparr>di_bound := env\<rparr>"
  let ?vm = "(t_vm T)\<lparr>m_CPU := (m_CPU (t_vm T))\<lparr>m_ArrRegs := regs'\<rparr>, m_MEM := (m_MEM (t_vm T))\<lparr>phys := ph'\<rparr>\<rparr>"
  have d: "InsnDispatch (tc_host K) (tc_hv K) (t_con T) ?I (t_vm T) = Inr (new_ConExecutor, ?vm)"
    by (rule InsnDispatch_native [OF assms(1)]) (use assms(4,5,7) in simp_all)
  note v = InsnDispatch_vm [OF d ok(1)]
  obtain Rs where Rs: "(if isFlagChangingInstr (tc_N K) (di_id I) then vm_clearAllSymFlag (tc_D K) ?vm else Inr ?vm) =
      Inr (?vm\<lparr>m_CPU := (m_CPU ?vm)\<lparr>m_Regs := Rs\<rparr>\<rparr>)" "regs_ok (tc_D K) ((m_CPU ?vm)\<lparr>m_Regs := Rs\<rparr>)"
    "no_flag_symbolic (tc_D K) ((m_CPU ?vm)\<lparr>m_Regs := Rs\<rparr>)"
  proof (cases "isFlagChangingInstr (tc_N K) (di_id I)")
    case True
    have "regs_ok (tc_D K) (m_CPU ?vm)" using v by (simp add: vm_ok_def)
    moreover have "no_flag_symbolic (tc_D K) (m_CPU ?vm)" using assms(1) by (simp add: runs_as_def no_flag_symbolic_def flag_sym_def)
    ultimately obtain Rs where "clearAllSymFlag (tc_D K) (m_CPU ?vm) = Inr ((m_CPU ?vm)\<lparr>m_Regs := Rs\<rparr>)"
      "regs_ok (tc_D K) ((m_CPU ?vm)\<lparr>m_Regs := Rs\<rparr>)" "no_flag_symbolic (tc_D K) ((m_CPU ?vm)\<lparr>m_Regs := Rs\<rparr>)"
      using clearAllSymFlag_ok by blast
    then show ?thesis using that [of Rs] True by (simp add: vm_clearAllSymFlag_def)
  next
    case False
    then show ?thesis
      using that [of "m_Regs (m_CPU ?vm)"] v assms(1) by (simp add: vm_ok_def runs_as_def no_flag_symbolic_def flag_sym_def)
  qed
  let ?w = "?vm\<lparr>m_CPU := (m_CPU ?vm)\<lparr>m_Regs := Rs\<rparr>\<rparr>"
  have "dispatch_other K T I = Inr (T\<lparr>t_vm := ?w, t_con := new_ConExecutor\<rparr>, ?I, True)"
    using f h d Rs(1) by (simp add: dispatch_other_def)
  moreover have "runs_as K (T\<lparr>t_vm := ?w\<rparr>) (m_ArrRegs (m_CPU ?w), phys (m_MEM ?w))"
  proof (rule runs_as_vm [OF assms(1)])
    show "vm_ok (tc_D K) ?w" using v Rs(2) by (simp add: vm_ok_def vm_wf_def vm_lists_def cpu_wf_def)
    have "vm_bytes ?w = vm_bytes ?vm" by (rule vm_bytes_cong) simp_all
    then show "vm_bytes ?w = vm_bytes (t_vm T)" using v by simp
    show "no_flag_symbolic (tc_D K) (m_CPU ?w)" using Rs(3) by simp
    show "code_kept K (snd s) (phys (m_MEM ?w))" using assms(8) by simp
  qed
  ultimately show ?thesis using assms(1) by (auto simp: runs_as_def)
qed
lemma runs_as_write:
  assumes "runs_as K T s" "code_kept K (snd s) (put_bytes 8 a v (snd s))"
  shows "runs_as K (T\<lparr>t_vm := raw_write (t_vm T) a v\<rparr>) (fst s, put_bytes 8 a v (snd s))"
proof -
  have "runs_as K (T\<lparr>t_vm := raw_write (t_vm T) a v\<rparr>)
      (m_ArrRegs (m_CPU (raw_write (t_vm T) a v)), phys (m_MEM (raw_write (t_vm T) a v)))"
    by (rule runs_as_vm [OF assms(1)]) (use assms put_word_ok(2) in \<open>auto simp: runs_as_def\<close>)
  then show ?thesis using assms(1) by (simp add: runs_as_def)
qed

text \<open>The instruction pointer moves on, and the instruction is handed to the dispatch.\<close>

lemma thin_step_nop:
  assumes "runs_as K T s" "small_region K" "at_insn K s I" "di_nop I"
  shows "\<exists>T'. thin_step K T cc = Inr (T', cc, False) \<and> runs_as K T' (next_ip (fst s) I, snd s)"
proof -
  obtain T1 env where T1: "fetch_insn K T (fst s ! RIP_PTRIDX) = Inr (T1, I\<lparr>di_bound := env\<rparr>)" "runs_as K T1 s"
    by (rule fetch_native [OF assms(1-3)])
  have i: "RIP_PTRIDX < 32" by (simp add: RIP_PTRIDX_def)
  have "thin_step K T cc =
      Inr (T1\<lparr>t_vm := put_word RIP_PTRIDX (fst s ! RIP_PTRIDX + in_size (di_instr I)) (t_vm T1)\<rparr>, cc, False)"
    using T1(1) runs_as_regs [OF assms(1) i] runs_as_regs [OF T1(2) i] assms(4) by (simp add: thin_step_def)
  then show ?thesis using runs_as_word [OF T1(2)] by (auto simp: next_ip_def)
qed

lemma thin_step_dispatch:
  assumes "runs_as K T s" "small_region K" "at_insn K s I" "\<not> di_nop I"
    and "\<And>T1 env. runs_as K T1 (next_ip (fst s) I, snd s) \<Longrightarrow>
      \<exists>T2 e. dispatch_insn K T1 (I\<lparr>di_bound := env\<rparr>) = Inr (T2, I\<lparr>di_bound := e\<rparr>, chk) \<and> runs_as K T2 s'"
    and "code_kept K (snd s) (snd s')"
  shows "\<exists>T' cc'. thin_step K T cc = Inr (T', cc', chk) \<and> runs_as K T' s'"
proof -
  obtain T1 env where T1: "fetch_insn K T (fst s ! RIP_PTRIDX) = Inr (T1, I\<lparr>di_bound := env\<rparr>)" "runs_as K T1 s"
    by (rule fetch_native [OF assms(1-3)])
  have i: "RIP_PTRIDX < 32" by (simp add: RIP_PTRIDX_def)
  let ?a = "fst s ! RIP_PTRIDX" and ?I = "I\<lparr>di_bound := env\<rparr>"
  let ?T = "T1\<lparr>t_vm := put_word RIP_PTRIDX (?a + in_size (di_instr I)) (t_vm T1)\<rparr>"
  have r: "runs_as K ?T (next_ip (fst s) I, snd s)" using runs_as_word [OF T1(2)] by (simp add: next_ip_def)
  obtain T3 cc' where c: "count_conditional K ?T ?I ?a cc = (T3, cc')" by (cases "count_conditional K ?T ?I ?a cc")
  have "runs_as K T3 (next_ip (fst s) I, snd s)" using runs_as_count [OF r, of ?I ?a cc] c by simp
  from assms(5) [OF this] obtain T2 e where
    d: "dispatch_insn K T3 ?I = Inr (T2, I\<lparr>di_bound := e\<rparr>, chk)" "runs_as K T2 s'" by blast
  have a: "in_region K ?a" "I = tc_decode K (snd s) ?a" using assms(3) by (simp_all add: at_insn_def)
  then have "I = tc_decode K (snd s') ?a" using assms(6) by (simp add: code_kept_def)
  then have "runs_as K (cache_insn ?a (I\<lparr>di_bound := e\<rparr>) T2) s'"
    by (intro runs_as_cache [OF d(2) assms(2) a(1), where env = e]) simp
  moreover have "thin_step K T cc = Inr (cache_insn ?a (I\<lparr>di_bound := e\<rparr>) T2, cc', chk)"
    using T1(1) runs_as_regs [OF assms(1) i] runs_as_regs [OF T1(2) i] assms(4) c d(1) by (simp add: thin_step_def)
  ultimately show ?thesis by blast
qed

lemma next_ip_at: "length regs = 32 \<Longrightarrow> next_ip regs I ! RIP_PTRIDX = regs ! RIP_PTRIDX + in_size (di_instr I)"
  "next_ip regs I ! RSP_PTRIDX = regs ! RSP_PTRIDX" "next_ip regs I ! 18 = regs ! 18"
  by (simp_all add: next_ip_def ptridx_defs)

lemma fixed_code_target:
  assumes "runs_as K T s" "fixed_target (tc_D K) (fst s) I t"
  shows "\<exists>e. code_target b (tc_X K) (t_vm T) (I\<lparr>di_bound := env\<rparr>) = Inr (t_vm T, I\<lparr>di_bound := e\<rparr>, t)"
proof -
  let ?I = "I\<lparr>di_bound := env\<rparr>"
  have "pt_reg RIP_PTRIDX (t_vm T) = Inr (fst s ! RIP_PTRIDX)" by (rule runs_as_regs(1) [OF assms(1)]) (simp add: RIP_PTRIDX_def)
  from direct_target [OF _ _ this, of ?I "tc_X K" "t + in_size (di_instr I)" b] show ?thesis
    using assms(2) by (auto simp: fixed_target_def)
qed

lemma dispatchRet_native:
  assumes "runs_as K T s"
  shows "\<exists>vm'. dispatchRet (tc_X K) (t_vm T) = Inr vm' \<and>
    runs_as K (T\<lparr>t_vm := vm'\<rparr>) ((fst s)[RIP_PTRIDX := get_bytes 8 (fst s ! RSP_PTRIDX) (snd s), RSP_PTRIDX := fst s ! RSP_PTRIDX + 8], snd s)"
proof -
  have ok: "vm_ok (tc_D K) (t_vm T)" "m_ArrRegs (m_CPU (t_vm T)) = fst s" "phys (m_MEM (t_vm T)) = snd s"
    "all_concrete (t_vm T)" using assms by (simp_all add: runs_as_def)
  let ?v = "put_word RIP_PTRIDX (get_bytes 8 (fst s ! RSP_PTRIDX) (snd s)) (t_vm T)"
  have c: "\<forall>k. 0 \<le> k \<and> k < 8 \<longrightarrow> vm_bytes (t_vm T) (InWord RSP_PTRIDX k) = None" using all_concreteD(1) [OF ok(4)] by blast
  have "dispatchRet (tc_X K) (t_vm T) = Inr (put_word RSP_PTRIDX (fst s ! RSP_PTRIDX + 8) ?v)"
    using dispatchRet_ok [OF ok(1) c] ok(2,3) by (simp add: raw_read_def)
  moreover have "runs_as K (T\<lparr>t_vm := put_word RSP_PTRIDX (fst s ! RSP_PTRIDX + 8) ?v\<rparr>)
      ((fst s)[RIP_PTRIDX := get_bytes 8 (fst s ! RSP_PTRIDX) (snd s), RSP_PTRIDX := fst s ! RSP_PTRIDX + 8], snd s)"
    using runs_as_word [OF runs_as_word [OF assms]] by fastforce
  ultimately show ?thesis by blast
qed

lemma dispatchCall_native:
  assumes "runs_as K T s" "fixed_target (tc_D K) (fst s) I t"
    and "code_kept K (snd s) (put_bytes 8 (fst s ! RSP_PTRIDX - 8) (fst s ! RIP_PTRIDX) (snd s))"
  shows "\<exists>vm' e. dispatchCall (tc_X K) (t_vm T) (I\<lparr>di_bound := env\<rparr>) = Inr (vm', I\<lparr>di_bound := e\<rparr>) \<and>
    runs_as K (T\<lparr>t_vm := vm'\<rparr>) ((fst s)[RSP_PTRIDX := fst s ! RSP_PTRIDX - 8, RIP_PTRIDX := t],
      put_bytes 8 (fst s ! RSP_PTRIDX - 8) (fst s ! RIP_PTRIDX) (snd s))"
proof -
  obtain e where e: "code_target False (tc_X K) (t_vm T) (I\<lparr>di_bound := env\<rparr>) = Inr (t_vm T, I\<lparr>di_bound := e\<rparr>, t)"
    using fixed_code_target [OF assms(1,2)] by blast
  have r: "m_ArrRegs (m_CPU (t_vm T)) = fst s" "length (m_ArrRegs (m_CPU (t_vm T))) = 32"
    using assms(1) runs_as_words [OF assms(1)] by (simp_all add: runs_as_def)
  let ?v1 = "put_word RSP_PTRIDX (fst s ! RSP_PTRIDX - 8) (t_vm T)"
  let ?v2 = "raw_write ?v1 (fst s ! RSP_PTRIDX - 8) (fst s ! RIP_PTRIDX)"
  have 1: "runs_as K (T\<lparr>t_vm := ?v1\<rparr>) ((fst s)[RSP_PTRIDX := fst s ! RSP_PTRIDX - 8], snd s)" by (rule runs_as_word [OF assms(1)])
  have 2: "runs_as K (T\<lparr>t_vm := ?v2\<rparr>) ((fst s)[RSP_PTRIDX := fst s ! RSP_PTRIDX - 8],
      put_bytes 8 (fst s ! RSP_PTRIDX - 8) (fst s ! RIP_PTRIDX) (snd s))"
    using runs_as_write [OF 1] assms(3) by simp
  show ?thesis
    using dispatchCall_ok [OF e r(2)] runs_as_word [OF 2, of RIP_PTRIDX t]
    by (intro exI [of _ "put_word RIP_PTRIDX t ?v2"] exI [of _ e]) (simp add: r(1))
qed

lemma dispatchBranch_native:
  assumes "runs_as K T s" "fixed_target (tc_D K) (fst s) I t"
    and "if di_fall I then di_id I = Jcc j \<and> isConditionalExecuteInstr (tc_N K) (Jcc j) \<and> jcc_cond j = Some c \<and> j \<notin> unlisted_jumps \<and>
           d = x86_cond c (\<lambda>f. bit (fst s ! 18) (flag_pos f)) else d"
  shows "\<exists>T' e. dispatchBranch K T (I\<lparr>di_bound := env\<rparr>) = Inr (T', I\<lparr>di_bound := e\<rparr>) \<and>
    runs_as K T' ((fst s)[RIP_PTRIDX := if d then t else fst s ! RIP_PTRIDX], snd s)"
proof -
  obtain e where e: "code_target True (tc_X K) (t_vm T) (I\<lparr>di_bound := env\<rparr>) = Inr (t_vm T, I\<lparr>di_bound := e\<rparr>, t)"
    using fixed_code_target [OF assms(1,2)] by blast
  have r: "m_ArrRegs (m_CPU (t_vm T)) = fst s" "length (m_ArrRegs (m_CPU (t_vm T))) = 32"
    using assms(1) runs_as_words [OF assms(1)] by (simp_all add: runs_as_def)
  have "dispatchBranch K T (I\<lparr>di_bound := env\<rparr>) =
      Inr (T\<lparr>t_vm := put_word RIP_PTRIDX (if d then t else fst s ! RIP_PTRIDX) (t_vm T)\<rparr>, I\<lparr>di_bound := e\<rparr>)"
  proof (cases "di_fall I")
    case True
    have f: "cpu_flags (tc_D K) (m_CPU (t_vm T))" using assms(1) r(2) by (simp add: runs_as_def cpu_flags_def vm_ok_def)
    have n: "\<forall>f \<in> set (needed_flags c). \<not> flag_sym (tc_D K) (m_CPU (t_vm T)) f" using assms(1) by (simp add: runs_as_def no_flag_symbolic_def)
    have "updateJCCDecision K (T\<lparr>t_vm := t_vm T\<rparr>) (I\<lparr>di_bound := e\<rparr>) = Inr (T, d)"
      using decided_jump [OF f _ _ _ n, of j "I\<lparr>di_bound := e\<rparr>"] assms(3) True r(1) by (simp add: flag_val_def [abs_def])
    then show ?thesis using branch_by_decision [OF e _ r(2)] True r by simp
  next
    case False
    then show ?thesis using e assms(3) r by (simp add: dispatchBranch_def set_pt_reg_ok RIP_PTRIDX_def)
  qed
  then show ?thesis using runs_as_word [OF assms(1)] by blast
qed
lemma native_step_followed:
  assumes "native_step K s chk s'" "runs_as K T s" "small_region K"
  shows "\<exists>T' cc'. thin_step K T cc = Inr (T', cc', chk) \<and> runs_as K T' s'"
  using assms(1)
proof cases
  case (native_nop regs ph I)
  then show ?thesis using thin_step_nop [OF assms(2,3), of I cc] by auto
next
  case (native_other regs ph I regs' ph')
  have l: "length regs = 32" using runs_as_words [OF assms(2)] native_other(1) by simp
  show ?thesis
  proof (rule thin_step_dispatch [OF assms(2,3), of I])
    fix T1 env assume r: "runs_as K T1 (next_ip (fst s) I, snd s)"
    show "\<exists>T2 e. dispatch_insn K T1 (I\<lparr>di_bound := env\<rparr>) = Inr (T2, I\<lparr>di_bound := e\<rparr>, chk) \<and> runs_as K T2 s'"
      using dispatch_other_native [OF r, of "I\<lparr>di_bound := env\<rparr>" regs' ph'] native_other l
      by (simp add: dispatch_insn_def insn_at_def next_ip_at(1))
  qed (use native_other in simp_all)
next
  case (native_ret regs ph I)
  show ?thesis
  proof (rule thin_step_dispatch [OF assms(2,3), of I])
    fix T1 env assume r: "runs_as K T1 (next_ip (fst s) I, snd s)"
    then obtain vm' where "dispatchRet (tc_X K) (t_vm T1) = Inr vm'" "runs_as K (T1\<lparr>t_vm := vm'\<rparr>) s'"
      using dispatchRet_native [OF r] native_ret by (auto simp: next_ip_at)
    then show "\<exists>T2 e. dispatch_insn K T1 (I\<lparr>di_bound := env\<rparr>) = Inr (T2, I\<lparr>di_bound := e\<rparr>, chk) \<and> runs_as K T2 s'"
      using native_ret by (intro exI [of _ "T1\<lparr>t_vm := vm'\<rparr>"] exI [of _ env]) (simp add: dispatch_insn_def)
  qed (use native_ret code_kept_refl in simp_all)
next
  case (native_call regs ph I t ph')
  have l: "length regs = 32" using runs_as_words [OF assms(2)] native_call(1) by simp
  show ?thesis
  proof (rule thin_step_dispatch [OF assms(2,3), of I])
    fix T1 env assume r: "runs_as K T1 (next_ip (fst s) I, snd s)"
    then obtain vm' e where "dispatchCall (tc_X K) (t_vm T1) (I\<lparr>di_bound := env\<rparr>) = Inr (vm', I\<lparr>di_bound := e\<rparr>)"
      "runs_as K (T1\<lparr>t_vm := vm'\<rparr>) s'"
      using dispatchCall_native [OF r, of I t env] native_call l by (auto simp: next_ip_at)
    then show "\<exists>T2 e. dispatch_insn K T1 (I\<lparr>di_bound := env\<rparr>) = Inr (T2, I\<lparr>di_bound := e\<rparr>, chk) \<and> runs_as K T2 s'"
      using native_call by (intro exI [of _ "T1\<lparr>t_vm := vm'\<rparr>"] exI [of _ e]) (simp add: dispatch_insn_def)
  qed (use native_call in simp_all)
next
  case (native_jump regs ph I t)
  show ?thesis
  proof (rule thin_step_dispatch [OF assms(2,3), of I])
    fix T1 env assume r: "runs_as K T1 (next_ip (fst s) I, snd s)"
    then obtain T2 e where "dispatchBranch K T1 (I\<lparr>di_bound := env\<rparr>) = Inr (T2, I\<lparr>di_bound := e\<rparr>)" "runs_as K T2 s'"
      using dispatchBranch_native [OF r, of I t _ _ True env] native_jump by auto
    then show "\<exists>T2 e. dispatch_insn K T1 (I\<lparr>di_bound := env\<rparr>) = Inr (T2, I\<lparr>di_bound := e\<rparr>, chk) \<and> runs_as K T2 s'"
      using native_jump by (intro exI [of _ T2] exI [of _ e]) (simp add: dispatch_insn_def)
  qed (use native_jump code_kept_refl in simp_all)
next
  case (native_jcc regs ph I j c t)
  have l: "length regs = 32" using runs_as_words [OF assms(2)] native_jcc(1) by simp
  show ?thesis
  proof (rule thin_step_dispatch [OF assms(2,3), of I])
    fix T1 env assume r: "runs_as K T1 (next_ip (fst s) I, snd s)"
    have "\<exists>T2 e. dispatchBranch K T1 (I\<lparr>di_bound := env\<rparr>) = Inr (T2, I\<lparr>di_bound := e\<rparr>) \<and> runs_as K T2 s'"
      using dispatchBranch_native [OF r, of I t j c "x86_cond c (\<lambda>f. bit (regs ! 18) (flag_pos f))" env] native_jcc l
      by (simp add: next_ip_at cong: if_cong)
    then obtain T2 e where "dispatchBranch K T1 (I\<lparr>di_bound := env\<rparr>) = Inr (T2, I\<lparr>di_bound := e\<rparr>)" "runs_as K T2 s'" by blast
    then show "\<exists>T2 e. dispatch_insn K T1 (I\<lparr>di_bound := env\<rparr>) = Inr (T2, I\<lparr>di_bound := e\<rparr>, chk) \<and> runs_as K T2 s'"
      using native_jcc by (intro exI [of _ T2] exI [of _ e]) (simp add: dispatch_insn_def)
  qed (use native_jcc code_kept_refl in simp_all)
qed
section \<open>Runs\<close>

text \<open>A turn of the second loop, and its test for the end.\<close>

definition turn :: "'z tctx \<Rightarrow> 'z thin \<times> u64 \<Rightarrow> bool \<Rightarrow> 'z thin \<times> u64 \<Rightarrow> bool" where
  "turn K x b y \<longleftrightarrow> thin_step K (fst x) (snd x) = Inr (fst y, snd y, b) \<and> (\<exists>sp. pt_reg RSP_PTRIDX (t_vm (fst y)) = Inr sp)"

definition above :: "u64 \<Rightarrow> 'z thin \<times> u64 \<Rightarrow> bool" where
  "above r x \<longleftrightarrow> (\<exists>sp. pt_reg RSP_PTRIDX (t_vm (fst x)) = Inr sp \<and> r < sp)"

lemma turns_loop:
  assumes "run_until (turn K) (above r) x y"
  shows "\<exists>n. thin_loop n K r (fst x) (snd x) = Inr (fst y)"
  using assms
proof (induction rule: run_until.induct)
  case (ends x y)
  obtain sp where "pt_reg RSP_PTRIDX (t_vm (fst y)) = Inr sp" "r < sp" using ends(2) by (auto simp: above_def)
  then show ?case using ends(1) by (intro exI [of _ "Suc 0"]) (simp add: turn_def)
next
  case (goes_on x b x1 y)
  obtain n where n: "thin_loop n K r (fst x1) (snd x1) = Inr (fst y)" using goes_on(4) by blast
  obtain sp where sp: "thin_step K (fst x) (snd x) = Inr (fst x1, snd x1, b)" "pt_reg RSP_PTRIDX (t_vm (fst x1)) = Inr sp"
    using goes_on(1) by (auto simp: turn_def)
  have "\<not> (b \<and> r < sp)" using goes_on(2) sp(2) by (auto simp: above_def)
  from thin_loop_turn(2) [OF sp this, of n] have "thin_loop (Suc n) K r (fst x) (snd x) = Inr (fst y)" unfolding n .
  then show ?case by blast
qed

lemma native_turn:
  assumes "native_step K s b s'" "runs_as K (fst x) s \<and> small_region K"
  shows "\<exists>y. turn K x b y \<and> runs_as K (fst y) s' \<and> small_region K"
proof -
  obtain T' cc' where T': "thin_step K (fst x) (snd x) = Inr (T', cc', b)" "runs_as K T' s'"
    using native_step_followed [OF assms(1)] assms(2) by blast
  have "pt_reg RSP_PTRIDX (t_vm T') = Inr (fst s' ! RSP_PTRIDX)" by (rule runs_as_regs(1) [OF T'(2)]) (simp add: RSP_PTRIDX_def)
  then show ?thesis using T' assms(2) by (intro exI [of _ "(T', cc')"]) (simp add: turn_def)
qed

lemma native_above:
  assumes "runs_as K (fst x) s"
  shows "above r x = (r < fst s ! RSP_PTRIDX)"
  using runs_as_regs(1) [OF assms, of RSP_PTRIDX] by (simp add: above_def RSP_PTRIDX_def)

interpretation analyser: followed_steps "native_step K" "\<lambda>s. r < fst s ! RSP_PTRIDX" "turn K" "above r"
  "\<lambda>x s. runs_as K (fst x) s \<and> small_region K" for K r
proof unfold_locales
  show "\<exists>y. turn K x b y \<and> runs_as K (fst y) s' \<and> small_region K"
    if "native_step K s b s'" "runs_as K (fst x) s \<and> small_region K" for s b s' x
    by (rule native_turn [OF that])
  show "above r x = (r < fst s ! RSP_PTRIDX)" if "runs_as K (fst x) s \<and> small_region K" for x s
    by (rule native_above [OF conjunct1 [OF that]])
qed

lemma native_run_followed:
  assumes "native_run K r s s'" "runs_as K T s" "small_region K"
  shows "\<exists>n T'. thin_loop n K r T cc = Inr T' \<and> runs_as K T' s'"
proof -
  obtain y where y: "run_until (turn K) (above r) (T, cc) y" "runs_as K (fst y) s'"
    using analyser.run_followed [of K r s s' "(T, cc)"] assms by (auto simp: native_run_def)
  then show ?thesis using turns_loop [OF y(1)] by auto
qed

text \<open>Reading the file of targets and the first loop do not disturb the relation.\<close>

lemma runs_as_file:
  assumes "runs_as K T s" "ReadNextIPFromFile file T = Inr (T', ok)"
  shows "runs_as K T' s"
  using assms by (auto simp: ReadNextIPFromFile_def rbind_eq_Inr_iff runs_as_def split: option.splits)

lemma pre_step_native:
  assumes "runs_as K T s" "small_region K" "pre_step K a cf T = Inr (T', b, cf')"
  shows "runs_as K T' s"
proof -
  obtain T1 I where T1: "(case m_InsnCache T (insn_index a) of Some I \<Rightarrow> Inr (T, I)
      | None \<Rightarrow> rbind (decode_at K T a) (\<lambda>I. rbind (PreParseOperand I) (\<lambda>r. Inr (cache_insn a I T, I)))) = Inr (T1, I)"
    "T' = T1 \<or> (\<exists>m. T' = T1\<lparr>m_NextIP := m\<rparr>)"
    using assms(3) by (auto simp: pre_step_def rbind_eq_Inr_iff Let_def split: if_splits)
  have "runs_as K T1 s"
  proof (cases "m_InsnCache T (insn_index a)")
    case None
    then have "decode_at K T a = Inr I" "T1 = cache_insn a I T" using T1(1) by (auto simp: rbind_eq_Inr_iff)
    then have d: "in_region K a" "I = tc_decode K (snd s) a" "T1 = cache_insn a I T"
      using assms(1) by (auto simp: decode_at_def in_region_def runs_as_def split: if_splits)
    have "I = I\<lparr>di_bound := di_bound I\<rparr>" by simp
    then show ?thesis using runs_as_cache [OF assms(1,2) d(1), of I "di_bound I"] d(2,3) by simp
  next
    case (Some J)
    then show ?thesis using T1(1) assms(1) by simp
  qed
  then show ?thesis using T1(2) by (auto simp: runs_as_def)
qed

lemma pre_loop_native:
  assumes "runs_as K T s" "small_region K" "pre_loop n K a cf T = Inr T'"
  shows "runs_as K T' s"
  using assms(1,3)
proof (induction n arbitrary: a cf T)
  case 0
  then show ?case by simp
next
  case (Suc n)
  from Suc.prems(2) obtain T1 b cf1 where T1: "pre_step K a cf T = Inr (T1, b, cf1)"
    "(if b = m_endRIP T1 then Inr T1 else pre_loop n K b cf1 T1) = Inr T'" by (rule pre_loop_SucE)
  have "runs_as K T1 s" by (rule pre_step_native [OF Suc.prems(1) assms(2) T1(1)])
  then show ?case using Suc.IH T1(2) by (auto split: if_splits)
qed

text \<open>
  The path the first loop follows is a record of a run of the machine: for each transfer passed on the way, the count of transfers
  so far and the address of the transfer are recorded with the address the machine went on at, until the machine comes to the
  address recorded as the last. At each instruction passed the operands in memory have one address.
\<close>

definition logged :: "'z tctx \<Rightarrow> (u64 \<rightharpoonup> u64) \<Rightarrow> u64 \<Rightarrow> native \<Rightarrow> u64 \<Rightarrow> native \<Rightarrow> bool" where
  "logged K nexts cf s cf' s' \<longleftrightarrow>
     (let a = fst s ! RIP_PTRIDX; I = tc_decode K (snd s) a
      in PreParseOperand I = Inr True \<and>
         (if di_cat I = c_OtherInsn then cf' = cf
          else cf' = cf + 1 \<and> nexts (next_key a (cf + 1)) = Some (fst s' ! RIP_PTRIDX)))"

inductive recorded :: "'z tctx \<Rightarrow> (u64 \<rightharpoonup> u64) \<Rightarrow> u64 \<Rightarrow> u64 \<Rightarrow> native \<Rightarrow> bool" for K nexts stop_ip where
  recorded_end: "native_step K s b s' \<Longrightarrow> logged K nexts cf s cf' s' \<Longrightarrow> fst s' ! RIP_PTRIDX = stop_ip \<Longrightarrow> recorded K nexts stop_ip cf s"
| recorded_on: "native_step K s b s' \<Longrightarrow> logged K nexts cf s cf' s' \<Longrightarrow> recorded K nexts stop_ip cf' s' \<Longrightarrow> recorded K nexts stop_ip cf s"

lemma native_step_kept:
  assumes "native_step K s b s'" "length (fst s) = 32"
  shows "length (fst s') = 32 \<and> code_kept K (snd s) (snd s') \<and> in_region K (fst s ! RIP_PTRIDX) \<and>
    (di_cat (tc_decode K (snd s) (fst s ! RIP_PTRIDX)) = c_OtherInsn \<longrightarrow>
       fst s' ! RIP_PTRIDX = fst s ! RIP_PTRIDX + in_size (di_instr (tc_decode K (snd s) (fst s ! RIP_PTRIDX))))"
  using assms(1)
proof cases
  case (native_nop regs ph I)
  then show ?thesis using assms(2) by (simp add: at_insn_def next_ip_def code_kept_refl RIP_PTRIDX_def)
next
  case (native_other regs ph I regs' ph')
  from native_other(11) obtain m where m: "regs' = save_context ((x86_r15, 0) # gpr_slots) m (next_ip regs I)"
    unfolding InsnExecNonRIP_def rbind_eq_Inr_iff by (elim exE conjE) (force split: prod.splits)
  have l: "length regs = 32" using assms(2) native_other(1) by simp
  have "length regs' = 32" "regs' ! RIP_PTRIDX = next_ip regs I ! RIP_PTRIDX"
    unfolding m using save_context_frame [where slots = "(x86_r15, 0) # gpr_slots" and m = m and regs = "next_ip regs I"] l
    by (simp_all add: gpr_indices RIP_PTRIDX_def, simp add: next_ip_def)
  then show ?thesis using native_other l by (simp add: at_insn_def next_ip_at(1))
next
  case (native_ret regs ph I)
  then show ?thesis using assms(2) by (simp add: at_insn_def next_ip_def code_kept_refl)
next
  case (native_call regs ph I t ph')
  then show ?thesis using assms(2) by (simp add: at_insn_def next_ip_def)
next
  case (native_jump regs ph I t)
  then show ?thesis using assms(2) by (simp add: at_insn_def next_ip_def code_kept_refl)
next
  case (native_jcc regs ph I j c t)
  then show ?thesis using assms(2) by (simp add: at_insn_def next_ip_def code_kept_refl)
qed

lemma code_kept_trans: "code_kept K p q \<Longrightarrow> code_kept K q r \<Longrightarrow> code_kept K p r"
  by (simp add: code_kept_def)

lemma pre_step_logged:
  assumes "native_step K s b s'" "logged K (m_NextIP T) cf s cf' s'" "length (fst s) = 32"
    and "runs_as K T s0" "code_kept K (snd s0) (snd s)"
  shows "\<exists>T1. pre_step K (fst s ! RIP_PTRIDX) cf T = Inr (T1, fst s' ! RIP_PTRIDX, cf') \<and>
    m_NextIP T1 = m_NextIP T \<and> m_endRIP T1 = m_endRIP T"
proof -
  let ?a = "fst s ! RIP_PTRIDX" and ?I = "tc_decode K (snd s) (fst s ! RIP_PTRIDX)"
  note n = native_step_kept [OF assms(1,3)]
  have I: "tc_decode K (snd s0) ?a = ?I" using assms(5) n by (simp add: code_kept_def)
  note lg = assms(2) [unfolded logged_def Let_def]
  have "\<exists>T1 env. (case m_InsnCache T (insn_index ?a) of Some I \<Rightarrow> Inr (T, I)
      | None \<Rightarrow> rbind (decode_at K T ?a) (\<lambda>I. rbind (PreParseOperand I) (\<lambda>r. Inr (cache_insn ?a I T, I)))) = Inr (T1, ?I\<lparr>di_bound := env\<rparr>) \<and>
      m_NextIP T1 = m_NextIP T \<and> m_endRIP T1 = m_endRIP T"
  proof (cases "m_InsnCache T (insn_index ?a)")
    case None
    have "decode_at K T ?a = Inr ?I" using n I assms(4) by (simp add: decode_at_def in_region_def runs_as_def)
    then show ?thesis using None lg by (intro exI [of _ "cache_insn ?a ?I T"] exI [of _ "di_bound ?I"]) (simp add: cache_insn_def)
  next
    case (Some J)
    have "cache_matches K (snd s0) (m_InsnCache T)" using assms(4) by (simp add: runs_as_def)
    then obtain env where "J = (tc_decode K (snd s0) ?a)\<lparr>di_bound := env\<rparr>" using n Some unfolding cache_matches_def by blast
    then show ?thesis using Some I by auto
  qed
  then obtain T1 env where T1: "(case m_InsnCache T (insn_index ?a) of Some I \<Rightarrow> Inr (T, I)
      | None \<Rightarrow> rbind (decode_at K T ?a) (\<lambda>I. rbind (PreParseOperand I) (\<lambda>r. Inr (cache_insn ?a I T, I)))) = Inr (T1, ?I\<lparr>di_bound := env\<rparr>)"
    "m_NextIP T1 = m_NextIP T" "m_endRIP T1 = m_endRIP T" by blast
  show ?thesis
  proof (cases "di_cat ?I = c_OtherInsn")
    case True
    then show ?thesis unfolding pre_step_def T1(1) using n lg T1(2,3) by simp
  next
    case False
    then show ?thesis unfolding pre_step_def T1(1) using lg T1(2,3) by (simp add: Let_def fun_upd_idem)
  qed
qed

lemma recorded_pre_loop:
  assumes "recorded K nexts stop_ip cf s" "runs_as K T s0" "small_region K" "m_NextIP T = nexts" "m_endRIP T = stop_ip"
    and "length (fst s) = 32" "code_kept K (snd s0) (snd s)"
  shows "\<exists>n T1. pre_loop n K (fst s ! RIP_PTRIDX) cf T = Inr T1"
  using assms
proof (induction arbitrary: T rule: recorded.induct)
  case (recorded_end s b s' cf cf')
  then obtain T1 where "pre_step K (fst s ! RIP_PTRIDX) cf T = Inr (T1, fst s' ! RIP_PTRIDX, cf')" "m_endRIP T1 = m_endRIP T"
    using pre_step_logged [OF recorded_end(1) _ recorded_end(8,4,9)] by auto
  then show ?case using recorded_end(3,7) by (intro exI [of _ "Suc 0"] exI [of _ T1]) simp
next
  case (recorded_on s b s' cf cf')
  obtain T1 where T1: "pre_step K (fst s ! RIP_PTRIDX) cf T = Inr (T1, fst s' ! RIP_PTRIDX, cf')"
    "m_NextIP T1 = nexts" "m_endRIP T1 = stop_ip"
    using pre_step_logged [OF recorded_on(1) _ recorded_on(9,5,10)] recorded_on(2,7,8) by auto
  note n = native_step_kept [OF recorded_on(1,9)]
  have "runs_as K T1 s0" by (rule pre_step_native [OF recorded_on(5,6) T1(1)])
  then obtain n T2 where T2: "pre_loop n K (fst s' ! RIP_PTRIDX) cf' T1 = Inr T2"
    using recorded_on(4) [OF _ recorded_on(6) T1(2,3)] n code_kept_trans [OF recorded_on(10)] by blast
  have "\<exists>T3. pre_loop (Suc n) K (fst s ! RIP_PTRIDX) cf T = Inr T3"
    using T1(1) T2 by (cases "fst s' ! RIP_PTRIDX = m_endRIP T1") simp_all
  then show ?case by blast
qed

section \<open>Properties\<close>

text \<open>C7. Code without symbols is followed step by step: from a state in which no byte and no flag is
  symbolic, one turn of the analyser does to registers and memory what the step of the machine does, whatever
  the cache of instructions holds of the code, and leaves such a state again.\<close>

theorem concrete_step_is_native:
  assumes "runs_as K T s" "small_region K" "native_step K s chk s'"
  shows "\<exists>T' cc'. thin_step K T cc = Inr (T', cc', chk) \<and> runs_as K T' s'"
  by (rule native_step_followed [OF assms(3,1,2)])

text \<open>C8. Let the machine's run of a function without symbols end, and let the file of the path be there and be read as a record of what
  the machine does from its start (the place each transfer passed leads to, by its count and address, up to the address recorded as
  the last one, which the machine comes to). Then both loops of the analysis end: it completes with some number of turns, and leaves
  registers and memory as the machine does.\<close>

theorem concrete_run_completes:
  assumes "runs_as K T s" "small_region K" "native_run K (fst s ! RSP_PTRIDX) s s'"
    and "ReadNextIPFromFile file T = Inr (T0, True)" "recorded K (m_NextIP T0) (m_endRIP T0) 0 s"
  shows "\<exists>n T'. processFunction n K file T = Inr (T', True) \<and> runs_as K T' s'"
proof -
  have r0: "runs_as K T0 s" by (rule runs_as_file [OF assms(1,4)])
  obtain m T1 where m: "pre_loop m K (fst s ! RIP_PTRIDX) 0 T0 = Inr T1"
    using recorded_pre_loop [OF assms(5) r0 assms(2) refl refl runs_as_words [OF r0] code_kept_refl] by blast
  have r1: "runs_as K T1 s" by (rule pre_loop_native [OF r0 assms(2) m])
  obtain n T' where n: "thin_loop n K (fst s ! RSP_PTRIDX) T1 0 = Inr T'" "runs_as K T' s'"
    using native_run_followed [OF assms(3) r1 assms(2)] by blast
  have i: "RSP_PTRIDX < 32" "RIP_PTRIDX < 32" by (simp_all add: ptridx_defs)
  have "processFunction (m + n) K file T = Inr (T', True)"
    using runs_as_regs(1) [OF assms(1) i(1)] runs_as_regs(1) [OF r0 i(2)] assms(4)
      pre_loop_mono [OF m, of n] thin_loop_mono [OF n(1), of m] by (simp add: processFunction_def add.commute)
  then show ?thesis using n(2) by blast
qed

text \<open>Two instructions: one the processor does nothing for, and a return.\<close>

definition ex_two :: "zterm tctx" where
  "ex_two = ex_K\<lparr>tc_decode := \<lambda>ph a. ex_insn (other_id 0) (if a = 0 then c_OtherInsn else c_ReturnInsn) False []\<rparr>"

lemma ex_two_simps [simp]:
  "tc_X ex_two = ex_ctx" "tc_host ex_two = (\<lambda>bs s. Inr s)" "tc_low ex_two = 0" "tc_high ex_two = 0x1000"
  "tc_decode ex_two ph a = ex_insn (other_id 0) (if a = 0 then c_OtherInsn else c_ReturnInsn) False []"
  by (simp_all add: ex_two_def ex_K_def)

lemma ex_runs_as: "runs_as ex_two ex_T (replicate 32 0, \<lambda>a. 0)" "small_region ex_two"
  using ex_operands(8,9) ex_vm_ok(2) ex_no_marks
  by (simp_all add: runs_as_def ex_T_def ex_words ex_vm_cpu(2) ex_ctx_def all_concrete_def no_flag_symbolic_def cache_matches_def
      small_region_def fun_eq_iff)

lemma get_zero_bytes: "get_bytes n a (\<lambda>a. 0) = 0"
  by (induction n arbitrary: a) simp_all

lemma ex_native:
  "native_step ex_two (replicate 32 0, \<lambda>a. 0) True ((replicate 32 0)[RIP_PTRIDX := 4], \<lambda>a. 0)"
  "native_step ex_two ((replicate 32 0)[RIP_PTRIDX := 4], \<lambda>a. 0) True ((replicate 32 0)[RSP_PTRIDX := 8], \<lambda>a. 0)"
proof -
  let ?I = "ex_insn (other_id 0) c_OtherInsn False []" and ?J = "ex_insn (other_id 0) c_ReturnInsn False []"
  let ?r = "(replicate 32 0)[RIP_PTRIDX := 4] :: u64 list"
  have n: "next_ip (replicate 32 0) ?I = ?r" by (simp add: next_ip_def ex_insn_def ex_instr_def ptridx_defs)
  obtain m where m: "load_context ((x86_r15, 0) # gpr_slots) ?r = Inr m" by (simp add: load_context_def)
  have "save_context ((x86_r15, 0) # gpr_slots) m ?r = ?r"
    by (rule slots_roundtrip [OF m]) (simp_all add: gpr_indices, simp_all add: gpr_slots_def)
  then have x: "InsnExecNonRIP (\<lambda>bs s. Inr s) bs ?r ph = Inr (?r, ph)" for bs ph using m by (simp add: InsnExecNonRIP_def)
  show "native_step ex_two (replicate 32 0, \<lambda>a. 0) True (?r, \<lambda>a. 0)"
    by (rule native_other [where I = ?I])
      (simp_all add: at_insn_def in_region_def ptridx_defs n [unfolded RIP_PTRIDX_def] x [unfolded RIP_PTRIDX_def] code_kept_def,
        simp_all add: ex_insn_def ex_instr_def isConditional_iff ex_ctx_def insn_at_def)
  have "native_step ex_two (?r, \<lambda>a. 0) True
      ((next_ip ?r ?J)[RIP_PTRIDX := get_bytes 8 (?r ! RSP_PTRIDX) (\<lambda>a. 0), RSP_PTRIDX := ?r ! RSP_PTRIDX + 8], \<lambda>a. 0)"
    by (rule native_ret) (simp_all add: at_insn_def in_region_def ptridx_defs ex_insn_def)
  moreover have "(next_ip ?r ?J)[RIP_PTRIDX := get_bytes 8 (?r ! RSP_PTRIDX) (\<lambda>a. 0), RSP_PTRIDX := ?r ! RSP_PTRIDX + 8] =
      (replicate 32 0)[RSP_PTRIDX := 8]"
    by (simp add: next_ip_def ptridx_defs list_eq_iff_nth_eq nth_list_update get_zero_bytes)
  ultimately show "native_step ex_two (?r, \<lambda>a. 0) True ((replicate 32 0)[RSP_PTRIDX := 8], \<lambda>a. 0)" by simp
qed

theorem concrete_step_is_native_witness:
  "\<exists>T' cc'. thin_step ex_two ex_T 0 = Inr (T', cc', True) \<and> runs_as ex_two T' ((replicate 32 0)[RIP_PTRIDX := 4], \<lambda>a. 0)"
  by (rule concrete_step_is_native [OF ex_runs_as ex_native(1)])

theorem concrete_run_completes_witness:
  "\<exists>n T'. processFunction n ex_two (Some [''0'', ''4, 0.'']) ex_T = Inr (T', True) \<and>
    runs_as ex_two T' ((replicate 32 0)[RSP_PTRIDX := 8], \<lambda>a. 0)"
proof -
  let ?s = "(replicate 32 0, \<lambda>a. 0) :: native" and ?T = "ex_T\<lparr>m_NextIP := [0x1000000000004 \<mapsto> 0]\<rparr>"
  have r: "ReadNextIPFromFile (Some [''0'', ''4, 0.'']) ex_T = Inr (?T, True)"
    by (simp add: ReadNextIPFromFile_def scan_pair_def scan_llx_def scan_sign_def scan_prefix_def digit_of_def is_space_def ex_T_def
        next_key_def push_bit_eq_mult)
  have p: "recorded ex_two (m_NextIP ?T) (m_endRIP ?T) 0 ?s"
    by (rule recorded_on [OF ex_native(1)], simp add: logged_def PreParseOperand_def ex_insn_def ex_instr_def ptridx_defs,
        rule recorded_end [OF ex_native(2)])
      (simp_all add: logged_def PreParseOperand_def ex_insn_def ex_instr_def ptridx_defs ex_T_def next_key_def push_bit_eq_mult)
  let ?stop = "\<lambda>s :: native. fst (replicate 32 (0 :: u64), \<lambda>a :: u64. 0 :: u8) ! RSP_PTRIDX < fst s ! RSP_PTRIDX"
  have "run_until (native_step ex_two) ?stop ((replicate 32 0)[RIP_PTRIDX := 4], \<lambda>a. 0) ((replicate 32 0)[RSP_PTRIDX := 8], \<lambda>a. 0)"
    by (rule run_until.ends [where step = "native_step ex_two" and stop = ?stop, OF ex_native(2)]) (simp add: ptridx_defs)
  then have "native_run ex_two (fst ?s ! RSP_PTRIDX) ?s ((replicate 32 0)[RSP_PTRIDX := 8], \<lambda>a. 0)"
    unfolding native_run_def
    by (rule run_until.goes_on [where step = "native_step ex_two" and stop = ?stop, OF ex_native(1), rotated]) (simp add: ptridx_defs)
  from concrete_run_completes [OF ex_runs_as this r p] show ?thesis .
qed

end
