(* ===== verification/Analysis_Inv.thy ===== *)
theory Analysis_Inv
  imports Native_Run
begin

text \<open>
  The invariant of whole analyses: the thin control, its parser of operands, the two executors and the flags manager
  together keep the machine well formed, turn after turn, on code that moves no list of symbolic cells. The parse
  is shown to give the symbolic executor operands it can write.
\<close>

section \<open>What the parse of operands leaves\<close>

text \<open>The registers an instruction reads, without the bits of flags, are bound like those of an address.\<close>

definition plain_regs :: "dapi \<Rightarrow> (u32 \<times> u32) list \<Rightarrow> (u32 \<times> u32) list" where
  "plain_regs D rs = filter (\<lambda>(i, sz). \<not> is_flag D i) rs"

lemma thin_setReadRegs_visit: "thin_setReadRegs X vm rs env = visit_regs X vm (plain_regs (cx_D X) rs) env"
proof (induction rs arbitrary: vm env)
  case Nil
  then show ?case by (simp add: plain_regs_def)
next
  case (Cons x rs)
  obtain i sz where "x = (i, sz)" by (cases x)
  then show ?case using Cons by (simp add: plain_regs_def split_beta)
qed

text \<open>
  An operand the parse can name: a plain register as wide as the operand, or a cell inside a line of 16 bytes
  once the registers the instruction reads have their present values.
\<close>

definition opnd_named :: "dapi \<Rightarrow> VMState \<Rightarrow> dinstr \<Rightarrow> u64 \<Rightarrow> topnd \<Rightarrow> bool" where
  "opnd_named D vm I g Q \<longleftrightarrow>
     (if \<not> readsMemory (to_op Q) \<and> \<not> writesMemory (to_op Q)
      then od_children (to_op Q) = 0 \<and> (\<forall>(i, sz) \<in> set (getReadSet (to_op Q)) \<union> set (getWriteSet (to_op Q)).
             sz = od_size (to_op Q) \<and> (\<exists>r k. i = reg_id D r \<and> saved_reg r k sz))
      else \<forall>env a. (\<forall>(i, sz) \<in> set (plain_regs D (in_reads (di_instr I))). bound_now D vm env i) \<and> od_addr (to_op Q) env = Some a \<longrightarrow>
             mem_range (with_gs a g) (ucast (od_size (to_op Q))))"

definition insn_named :: "ctx \<Rightarrow> VMState \<Rightarrow> dinstr \<Rightarrow> bool" where
  "insn_named X vm I \<longleftrightarrow> saved_regs (cx_D X) (plain_regs (cx_D X) (in_reads (di_instr I))) \<and>
     (\<forall>Q \<in> set (di_ops I). opnd_named (cx_D X) vm I (gs_now X vm I) Q)"

lemma first_symbolic_same:
  assumes "first_symbolic X vm rs = Inr (vm', b)" "vm_ok (cx_D X) vm" "saved_regs (cx_D X) rs"
  shows "same_vm vm vm'"
  using assms
proof (induction rs arbitrary: vm)
  case Nil
  then show ?case by (simp add: same_vm_refl vm_ok_def)
next
  case (Cons x rs)
  obtain i sz where x: "x = (i, sz)" by (cases x)
  obtain r k where r: "i = reg_id (cx_D X) r" "saved_reg r k sz" using Cons.prems(3) x by (auto simp: saved_regs_def)
  obtain v1 V b1 where 1: "vm_readRegister (cx_D X) vm (plain_reg i sz False) = Inr (v1, V, b1)"
    "(if rv_bsym V then Inr (v1, True) else first_symbolic X v1 rs) = Inr (vm', b)"
    using Cons.prems(1) x by (auto simp: rbind_eq_Inr_iff rassert_eq_Inr_iff)
  have s: "same_vm vm v1" using read_plain_same [OF Cons.prems(2) r 1(1)] by simp
  show ?case
  proof (cases "rv_bsym V")
    case True
    then show ?thesis using 1(2) s by simp
  next
    case False
    then have "same_vm v1 vm'"
      using Cons.IH [of v1] 1(2) same_vm_okD [OF Cons.prems(2) s] Cons.prems(3) by (simp add: saved_regs_def)
    then show ?thesis using same_vm_trans [OF s] by blast
  qed
qed

lemma index_of_place [simp]: "ucast (ucast (i :: u32) :: u64) = i"
  by (rule bit_word_eqI) (simp add: bit_simps)

lemma placed_register:
  assumes "saved_reg r k sz" "reg_index oi = reg_id D r" "oi_size oi = sz" "opty oi \<in> {OPTY_REG, OPTY_REGCON, OPTY_REGSYM}"
  shows "placed D oi"
proof -
  have "place_ok (Register r k sz) \<and> op_place D oi (Register r k sz)" using assms by simp
  then show ?thesis unfolding placed_def by blast
qed

lemma placed_cell:
  assumes "mem_range (oi_place oi) (ucast (oi_size oi))" "opty oi \<in> {OPTY_MEMCELL, OPTY_MEMCELLCON, OPTY_MEMCELLSYM}"
  shows "placed D oi"
proof -
  have "place_ok (MemCell (oi_place oi) (ucast (oi_size oi))) \<and> op_place D oi (MemCell (oi_place oi) (ucast (oi_size oi)))"
    using assms by simp
  then show ?thesis unfolding placed_def by blast
qed

lemma placed_other: "opty oi \<in> {OPTY_IMM, OPTY_UNK} \<Longrightarrow> placed D oi"
  by (auto simp: placed_def)

lemma thin_read_cell_ok:
  assumes "thin_read_cell vm oi = Inr (vm', oi')" "vm_ok D vm" "mem_range (oi_place oi) (ucast (oi_size oi))"
  shows "same_vm vm vm' \<and> placed D oi'"
proof -
  let ?v = "mem_value oi False False 0 None None"
  have m: "mem_range (mv_addr ?v) (mv_size ?v)" "\<not> mv_isSymList ?v" using assms(3) by (simp_all add: mem_value_def)
  have ok: "vm_wf vm" using assms(2) by (simp add: vm_ok_def)
  obtain V b where r: "vm_readMemory vm ?v = Inr (vm', V, b)"
    "oi' = (if mv_bsym V then oi\<lparr>opty := OPTY_MEMCELLSYM, symb := True, oi_symval := mv_expr V\<rparr>
       else oi\<lparr>opty := OPTY_MEMCELLCON, oi_conval := mv_i64 V\<rparr>)"
    using assms(1) by (auto simp: thin_read_cell_def rbind_eq_Inr_iff rassert_eq_Inr_iff)
  have "same_vm vm vm'" using vm_readMemory_view [OF ok m] r(1) same_vm_refl [OF ok] by (auto split: if_splits)
  moreover have "placed D oi'" by (rule placed_cell) (use r(2) assms(3) in simp_all)
  ultimately show ?thesis by simp
qed

lemma named_cell:
  assumes "opnd_named D vm I g Q" "readsMemory (to_op Q) \<or> writesMemory (to_op Q)"
    and "\<forall>(i, sz) \<in> set (plain_regs D (in_reads (di_instr I))). bound_now D vm env i" "od_addr (to_op Q) env = Some a"
  shows "mem_range (with_gs a g) (ucast (od_size (to_op Q)))"
  using assms unfolding opnd_named_def by auto

lemma mayOperandUseSymbol_XX_ok:
  assumes "mayOperandUseSymbol_XX X vm Q env (new_OprndInfo (od_size (to_op Q))) = Inr (vm', oi)" "vm_ok (cx_D X) vm"
    and "opnd_named (cx_D X) vm I g Q" "\<not> readsMemory (to_op Q)" "\<not> writesMemory (to_op Q)"
  shows "same_vm vm vm' \<and> placed (cx_D X) oi"
proof -
  let ?O = "to_op Q"
  have u: "od_children ?O = 0 \<and> (\<forall>(i, sz) \<in> set (getReadSet ?O) \<union> set (getWriteSet ?O).
      sz = od_size ?O \<and> (\<exists>r k. i = reg_id (cx_D X) r \<and> saved_reg r k sz))"
    using assms(3) unfolding opnd_named_def if_P [OF conjI [OF assms(4,5)]] .
  have r: "od_children ?O = 0" "\<And>i sz. (i, sz) \<in> set (getReadSet ?O) \<union> set (getWriteSet ?O) \<Longrightarrow>
      sz = od_size ?O \<and> (\<exists>r k. i = reg_id (cx_D X) r \<and> saved_reg r k sz)"
    using conjunct1 [OF u] bspec [OF conjunct2 [OF u], of "(i, sz)" for i sz] by simp_all
  have sr: "saved_regs (cx_D X) (getReadSet ?O)" using r(2) by (fastforce simp: saved_regs_def)
  have s0: "same_vm vm vm" using assms(2) by (simp add: same_vm_refl vm_ok_def)
  show ?thesis
  proof (cases "isRead ?O")
    case True
    show ?thesis
    proof (cases "getReadSet ?O")
      case Nil
      then have "vm' = vm" "opty oi = OPTY_IMM"
        using assms(1) True by (auto simp: mayOperandUseSymbol_XX_def Let_def rbind_eq_Inr_iff)
      then show ?thesis using s0 placed_other by simp
    next
      case (Cons x xs)
      obtain i sz where x: "x = (i, sz)" by (cases x)
      obtain rg k where k: "sz = od_size ?O" "i = reg_id (cx_D X) rg" "saved_reg rg k sz" using r(2) [of i sz] Cons x by auto
      obtain v1 b where f: "first_symbolic X vm (getReadSet ?O) = Inr (v1, b)"
        using assms(1) True Cons by (auto simp: mayOperandUseSymbol_XX_def Let_def rbind_eq_Inr_iff)
      have s1: "same_vm vm v1" by (rule first_symbolic_same [OF f assms(2) sr])
      show ?thesis
      proof (cases b)
        case False
        then have "vm' = v1" "oi_place oi = ucast i" "opty oi = OPTY_REGCON" "oi_size oi = od_size ?O"
          using assms(1) True Cons x f by (auto simp: mayOperandUseSymbol_XX_def Let_def rbind_eq_Inr_iff new_OprndInfo_def)
        then show ?thesis using s1 placed_register [OF k(3), of oi "cx_D X"] k by simp
      next
        case b: True
        obtain V b2 where V: "vm_readRegister (cx_D X) v1 (plain_reg i sz False) = Inr (vm', V, b2)"
          "oi_place oi = ucast i" "opty oi = OPTY_REGSYM" "oi_size oi = od_size ?O"
          using assms(1) True Cons x f b r(1)
          by (auto simp: mayOperandUseSymbol_XX_def symbolic_value_def Let_def rbind_eq_Inr_iff rassert_eq_Inr_iff new_OprndInfo_def)
        have "same_vm v1 vm'" using read_plain_same [OF same_vm_okD [OF assms(2) s1] k(2,3) V(1)] by simp
        then show ?thesis using same_vm_trans [OF s1] placed_register [OF k(3), of oi "cx_D X"] k V by simp
      qed
    qed
  next
    case False
    then obtain i sz where w: "getWriteSet ?O = [(i, sz)]" "vm' = vm" "oi_place oi = ucast i" "oi_size oi = od_size ?O"
      "opty oi \<in> {OPTY_REGCON, OPTY_REGSYM}"
      using assms(1) by (auto simp: mayOperandUseSymbol_XX_def Let_def rbind_eq_Inr_iff rassert_eq_Inr_iff length_Suc_conv new_OprndInfo_def
          split: if_splits)
    obtain rg k where "sz = od_size ?O" "i = reg_id (cx_D X) rg" "saved_reg rg k sz" using r(2) [of i sz] w(1) by auto
    then show ?thesis using s0 w placed_register [of rg k sz oi "cx_D X"] by auto
  qed
qed
text \<open>Operands in memory: the base of gs and the cell are read, nothing else.\<close>

lemma thin_operand_ok:
  assumes "thin_operand X vm I Q env = Inr (vm', oi)" "vm_ok (cx_D X) vm" "opnd_named (cx_D X) vm I (gs_now X vm I) Q"
    and "\<forall>(i, sz) \<in> set (plain_regs (cx_D X) (in_reads (di_instr I))). bound_now (cx_D X) vm env i"
  shows "same_vm vm vm' \<and> placed (cx_D X) oi"
proof (cases "\<not> readsMemory (to_op Q) \<and> \<not> writesMemory (to_op Q)")
  case True
  then have "mayOperandUseSymbol_XX X vm Q env (new_OprndInfo (od_size (to_op Q))) = Inr (vm', oi)"
    using assms(1) by (simp add: thin_operand_def Let_def)
  from mayOperandUseSymbol_XX_ok [OF this assms(2,3)] True show ?thesis by simp
next
  case m: False
  let ?O = "to_op Q" and ?g = "gs_now X vm I"
  have s0: "same_vm vm vm" using assms(2) by (simp add: same_vm_refl vm_ok_def)
  have cell: "od_addr ?O env = Some a \<Longrightarrow> mem_range (with_gs a ?g) (ucast (od_size ?O))" for a
    using named_cell [OF assms(3) _ assms(4)] m by blast
  have gs: "thin_isUseGS X vm I = Inr (v1, g) \<Longrightarrow> same_vm vm v1 \<and> g = ?g" for v1 g
    using gs_base_ok [of X vm _ v1 g] assms(2) by (simp add: thin_isUseGS_def gs_now_def)
  consider (rd) "readsMemory ?O" "\<not> writesMemory ?O" | (wr) "\<not> readsMemory ?O" "writesMemory ?O" | (rw) "readsMemory ?O" "writesMemory ?O"
    using m by blast
  then show ?thesis
  proof cases
    case rd
    then have e: "mayOperandUseSymbol_RX X vm I Q env (new_OprndInfo (od_size ?O)) = Inr (vm', oi)"
      using assms(1) by (simp add: thin_operand_def Let_def)
    show ?thesis
    proof (cases "isRead ?O")
      case False
      then show ?thesis using e s0 placed_other
        by (auto simp: mayOperandUseSymbol_RX_def Let_def new_OprndInfo_def split: if_splits)
    next
      case True
      then obtain v1 g a where v: "thin_isUseGS X vm I = Inr (v1, g)" "od_addr ?O env = Some a"
        "thin_read_cell v1 ((new_OprndInfo (od_size ?O))\<lparr>rdwr := OPAC_RD, opty := OPTY_MEMCELL, oi_place := with_gs a g\<rparr>) = Inr (vm', oi)"
        using e by (auto simp: mayOperandUseSymbol_RX_def Let_def rbind_eq_Inr_iff rassert_eq_Inr_iff eval_defined_def split: if_splits option.splits)
      have "mem_range (with_gs a g) (ucast (od_size ?O))" using cell [OF v(2)] gs [OF v(1)] by simp
      then have "same_vm v1 vm' \<and> placed (cx_D X) oi"
        using thin_read_cell_ok [OF v(3) same_vm_okD [OF assms(2)]] gs [OF v(1)] by (simp add: new_OprndInfo_def)
      then show ?thesis using gs [OF v(1)] same_vm_trans by blast
    qed
  next
    case wr
    then obtain v1 g a where v: "thin_isUseGS X vm I = Inr (v1, g)" "od_addr ?O env = Some a" "vm' = v1"
      "oi = (new_OprndInfo (od_size ?O))\<lparr>rdwr := OPAC_WR, opty := OPTY_MEMCELL, oi_place := with_gs a g\<rparr>"
      using assms(1) by (auto simp: thin_operand_def mayOperandUseSymbol_XW_def Let_def rbind_eq_Inr_iff rassert_eq_Inr_iff eval_defined_def
          split: if_splits option.splits)
    have "mem_range (with_gs a g) (ucast (od_size ?O))" using cell [OF v(2)] gs [OF v(1)] by simp
    then show ?thesis using placed_cell [of oi "cx_D X"] gs [OF v(1)] v(3,4) by (simp add: new_OprndInfo_def)
  next
    case rw
    then obtain v1 g a where v: "thin_isUseGS X vm I = Inr (v1, g)" "od_addr ?O env = Some a"
      "thin_read_cell v1 ((new_OprndInfo (od_size ?O))\<lparr>rdwr := OPAC_RDWR, opty := OPTY_MEMCELL, oi_place := with_gs a g\<rparr>) = Inr (vm', oi)"
      using assms(1) by (auto simp: thin_operand_def mayOperandUseSymbol_RW_def Let_def rbind_eq_Inr_iff rassert_eq_Inr_iff eval_defined_def
          split: if_splits option.splits)
    have "mem_range (with_gs a g) (ucast (od_size ?O))" using cell [OF v(2)] gs [OF v(1)] by simp
    then have "same_vm v1 vm' \<and> placed (cx_D X) oi"
      using thin_read_cell_ok [OF v(3) same_vm_okD [OF assms(2)]] gs [OF v(1)] by (simp add: new_OprndInfo_def)
    then show ?thesis using gs [OF v(1)] same_vm_trans by blast
  qed
qed

lemma opnd_named_same: "same_vm vm vm' \<Longrightarrow> opnd_named D vm' I g Q = opnd_named D vm I g Q"
  by (simp add: opnd_named_def same_vm_views(2))

lemma thin_operands_ok:
  assumes "thin_operands X vm I Qs env = Inr (vm', ois)" "vm_ok (cx_D X) vm"
    and "\<forall>Q \<in> set Qs. opnd_named (cx_D X) vm I (gs_now X vm I) Q"
    and "\<forall>(i, sz) \<in> set (plain_regs (cx_D X) (in_reads (di_instr I))). bound_now (cx_D X) vm env i"
  shows "same_vm vm vm' \<and> (\<forall>oi \<in> set ois. placed (cx_D X) oi)"
  using assms
proof (induction Qs arbitrary: vm ois)
  case Nil
  then show ?case by (simp add: same_vm_refl vm_ok_def)
next
  case (Cons Q Qs)
  obtain v1 oi ois1 where 1: "thin_operand X vm I Q env = Inr (v1, oi)" "thin_operands X v1 I Qs env = Inr (vm', ois1)" "ois = oi # ois1"
    using Cons.prems(1) by (auto simp: rbind_eq_Inr_iff)
  have o: "same_vm vm v1" "placed (cx_D X) oi"
    using thin_operand_ok [OF 1(1) Cons.prems(2) _ Cons.prems(4)] Cons.prems(3) by simp_all
  have "same_vm v1 vm' \<and> (\<forall>oi \<in> set ois1. placed (cx_D X) oi)"
    by (rule Cons.IH [OF 1(2) same_vm_okD [OF Cons.prems(2) o(1)]])
      (use Cons.prems(3,4) in \<open>simp_all add: opnd_named_same [OF o(1)] same_vm_views [OF o(1)]\<close>)
  then show ?case using same_vm_trans [OF o(1)] o(2) 1(3) by simp
qed

lemma thin_parse_ok:
  assumes "thin_parseOperands X vm I = Inr (vm', I', info)" "vm_ok (cx_D X) vm" "insn_named X vm I"
  shows "same_vm vm vm' \<and> info_placed X info \<and> PI info = di_instr I"
proof -
  let ?rs = "plain_regs (cx_D X) (in_reads (di_instr I))"
  obtain v1 env ois where 1: "visit_regs X vm ?rs (di_bound I) = Inr (v1, env)" "thin_operands X v1 I (di_ops I) env = Inr (vm', ois)"
    "info = (new_InstrInfo (di_instr I) env)\<lparr>vecOI := ois\<rparr>"
    using assms(1) by (auto simp: thin_parseOperands_def thin_setReadRegs_visit rbind_eq_Inr_iff)
  have n: "saved_regs (cx_D X) ?rs" "\<forall>Q \<in> set (di_ops I). opnd_named (cx_D X) vm I (gs_now X vm I) Q"
    using assms(3) by (simp_all add: insn_named_def)
  have s: "same_vm vm v1" using visit_regs_ok [OF 1(1) assms(2) n(1)] by simp
  have b: "\<forall>(i, sz) \<in> set ?rs. bound_now (cx_D X) v1 env i"
    using visit_regs_ok [OF 1(1) assms(2) n(1)] unfolding same_vm_views(2) [OF s] by force
  have "same_vm v1 vm' \<and> (\<forall>oi \<in> set ois. placed (cx_D X) oi)"
    by (rule thin_operands_ok [OF 1(2) same_vm_okD [OF assms(2) s] _ b])
      (use n(2) in \<open>simp add: opnd_named_same [OF s] same_vm_views(6) [OF s]\<close>)
  then show ?thesis using same_vm_trans [OF s] 1(3) by (simp add: info_placed_def new_InstrInfo_def)
qed
section \<open>The invariant of an analysis\<close>

text \<open>
  The machine is well formed, the executors are ready: no instruction is left with the symbolic one, and the room of the
  concrete one is filled with nop.
\<close>

definition thin_ok :: "'z tctx \<Rightarrow> 'z thin \<Rightarrow> bool" where
  "thin_ok K T \<longleftrightarrow> vm_ok (tc_D K) (t_vm T) \<and> flags_ok (tc_D K) \<and> t_IOIs T = [] \<and> t_con T = new_ConExecutor"

text \<open>
  What the decoder must say of an instruction for a turn: the operands of a transfer name registers and a cell; those of any other
  instruction name registers and cells for the question and for the parse. An instruction that moves lists of
  cells is left out: writing one does not keep the invariant of memory.
\<close>

definition insn_fit :: "'z tctx \<Rightarrow> VMState \<Rightarrow> dinstr \<Rightarrow> bool" where
  "insn_fit K vm I \<longleftrightarrow>
     (case di_cat I of
        c_ReturnInsn \<Rightarrow> True
      | c_CallInsn \<Rightarrow> target_placed (tc_X K) vm I
      | c_BranchInsn \<Rightarrow> target_placed (tc_X K) vm I
      | c_OtherInsn \<Rightarrow> insn_placed (tc_X K) vm I \<and> insn_named (tc_X K) vm I \<and> unat (in_size (di_instr I)) \<le> 15 \<and> \<not> moves_lists (di_id I))"

lemma thin_okD:
  assumes "thin_ok K T"
  shows "vm_ok (tc_D K) (t_vm T)" "flags_ok (tc_D K)" "length (m_ArrRegs (m_CPU (t_vm T))) = 32"
  using assms by (simp_all add: thin_ok_def vm_ok_def vm_words)

lemma thin_ok_vm: "thin_ok K T \<Longrightarrow> vm_ok (tc_D K) vm \<Longrightarrow> thin_ok K (T\<lparr>t_vm := vm\<rparr>)"
  by (simp add: thin_ok_def)

lemma thin_ok_cache: "thin_ok K T \<Longrightarrow> thin_ok K (cache_insn a I T)"
  by (simp add: thin_ok_def cache_insn_def)

text \<open>The flags manager is no part of it.\<close>

lemma vm_ok_flags_manager: "vm_ok D (vm\<lparr>m_EFlagsMgr := E\<rparr>) = vm_ok D vm"
  by (simp add: vm_ok_def vm_wf_def vm_lists_def)

lemma views_flags_manager:
  "bound_now D (vm\<lparr>m_EFlagsMgr := E\<rparr>) env i = bound_now D vm env i" "gs_now X (vm\<lparr>m_EFlagsMgr := E\<rparr>) I = gs_now X vm I"
proof -
  have "vm_bytes (vm\<lparr>m_EFlagsMgr := E\<rparr>) = vm_bytes vm" by (rule vm_bytes_cong) simp_all
  then show "bound_now D (vm\<lparr>m_EFlagsMgr := E\<rparr>) env i = bound_now D vm env i" by (simp add: bound_now_def reg_clear_def)
  show "gs_now X (vm\<lparr>m_EFlagsMgr := E\<rparr>) I = gs_now X vm I" by (simp add: gs_now_def)
qed

lemma insn_named_flags_manager: "insn_named X (vm\<lparr>m_EFlagsMgr := E\<rparr>) I = insn_named X vm I"
  by (simp add: insn_named_def opnd_named_def views_flags_manager)

lemma insn_named_bound [simp]: "insn_named X vm (I\<lparr>di_bound := env\<rparr>) = insn_named X vm I"
  by (simp add: insn_named_def opnd_named_def gs_now_def)

lemma insn_named_same: "same_vm vm vm' \<Longrightarrow> insn_named X vm' I = insn_named X vm I"
  by (simp add: insn_named_def opnd_named_same same_vm_views(6))

section \<open>Conditions\<close>

lemma eval_condition_vm:
  assumes "eval_condition K T i = Inr (T', b)"
  obtains E m where "T' = T\<lparr>t_vm := (t_vm T)\<lparr>m_EFlagsMgr := E\<rparr>, symObjectsMap := m\<rparr>"
  using assms by (auto simp: eval_condition_def rbind_eq_Inr_iff)

lemma concretise_keeps:
  assumes "concretise_flags K vm i b = Inr vm'" "vm_ok (tc_D K) vm" "flags_ok (tc_D K)"
  shows "vm_ok (tc_D K) vm'"
proof (cases "isConditionalExecuteInstr (tc_N K) i")
  case False
  then have "vm' = vm" using assms(1) by (simp add: concretise_flags_def ConcreteFlag_def)
  then show ?thesis using assms(2) by simp
next
  case True
  then obtain c where c: "switch_cond i = Some c"
    using assms(1) by (auto simp: concretise_flags_def ConcreteFlag_def rbind_eq_Inr_iff split: option.splits)
  have f: "cpu_flags (tc_D K) (m_CPU vm)" using assms(2,3) vm_words [of vm] by (simp add: cpu_flags_def vm_ok_def)
  obtain C' where C': "ConcreteFlag (tc_N K) (tc_D K) (m_CPU vm) i b = Inr (C', True)" "cpu_flags (tc_D K) C'" "same_but_flags (m_CPU vm) C'"
    using ConcreteFlag_view [OF f True c, of b] by blast
  then have "vm' = vm\<lparr>m_CPU := C'\<rparr>" using assms(1) by (simp add: concretise_flags_def)
  then show ?thesis using same_but_flags_vm(1) [OF assms(2) C'(3,2), of "m_EFlagsMgr vm"] by simp
qed

lemma decision_keeps:
  assumes "updateJCCDecision K T I = Inr (T', b)" "thin_ok K T"
  shows "thin_ok K T'"
proof -
  obtain con b0 where con: "dependFlagCon K (t_vm T) (di_id I) False = Inr (con, b0)"
    using assms(1) by (auto simp: updateJCCDecision_def rbind_eq_Inr_iff)
  show ?thesis
  proof (cases con)
    case True
    then show ?thesis using assms con by (auto simp: updateJCCDecision_def rbind_eq_Inr_iff)
  next
    case False
    then obtain T1 vm where 1: "eval_condition K T (di_id I) = Inr (T1, b)" "concretise_flags K (t_vm T1) (di_id I) b = Inr vm" "T' = T1\<lparr>t_vm := vm\<rparr>"
      using assms(1) con by (auto simp: updateJCCDecision_def rbind_eq_Inr_iff)
    obtain E m where T1: "T1 = T\<lparr>t_vm := (t_vm T)\<lparr>m_EFlagsMgr := E\<rparr>, symObjectsMap := m\<rparr>" by (rule eval_condition_vm [OF 1(1)])
    have "vm_ok (tc_D K) vm"
      by (rule concretise_keeps [OF 1(2)]) (use assms(2) T1 in \<open>simp_all add: thin_ok_def vm_ok_flags_manager\<close>)
    then show ?thesis using assms(2) 1(3) T1 by (simp add: thin_ok_def)
  qed
qed

section \<open>Transfers and runs\<close>

lemma ret_keeps:
  assumes "dispatchRet (tc_X K) (t_vm T) = Inr vm'" "thin_ok K T"
  shows "thin_ok K (T\<lparr>t_vm := vm'\<rparr>)"
proof -
  note l = thin_okD(3) [OF assms(2)]
  have "\<exists>a b. vm' = put_word RSP_PTRIDX a (put_word RIP_PTRIDX b (t_vm T))"
    using assms(1) l by (auto simp: dispatchRet_def rbind_eq_Inr_iff rassert_eq_Inr_iff pt_reg_ok set_pt_reg_ok ptridx_defs)
  then show ?thesis using thin_ok_vm [OF assms(2)] put_word_ok(1) thin_okD(1) [OF assms(2)] by blast
qed

lemma call_keeps:
  assumes "dispatchCall (tc_X K) (t_vm T) I = Inr (vm', I')" "thin_ok K T" "target_placed (tc_X K) (t_vm T) I"
  shows "thin_ok K (T\<lparr>t_vm := vm'\<rparr>)"
proof -
  obtain v1 I1 t where t: "code_target False (tc_X K) (t_vm T) I = Inr (v1, I1, t)"
    using assms(1) by (auto simp: dispatchCall_def rbind_eq_Inr_iff)
  have ok: "vm_ok (tc_D K) v1" using same_vm_okD [OF thin_okD(1) [OF assms(2)] code_target_same [OF t thin_okD(1) [OF assms(2)] assms(3)]] .
  then have l: "length (m_ArrRegs (m_CPU v1)) = 32" by (simp add: vm_ok_def vm_words)
  have "vm_ok (tc_D K) vm'" using dispatchCall_ok [OF t l] assms(1) put_word_ok ok by auto
  then show ?thesis by (rule thin_ok_vm [OF assms(2)])
qed

lemma branch_keeps:
  assumes "dispatchBranch K T I = Inr (T', I')" "thin_ok K T" "target_placed (tc_X K) (t_vm T) I"
  shows "thin_ok K T'"
proof -
  obtain v1 I1 t where t: "code_target True (tc_X K) (t_vm T) I = Inr (v1, I1, t)"
    using assms(1) by (auto simp: dispatchBranch_def rbind_eq_Inr_iff)
  have "vm_ok (tc_D K) v1" using same_vm_okD [OF thin_okD(1) [OF assms(2)] code_target_same [OF t thin_okD(1) [OF assms(2)] assms(3)]] .
  then have ok: "thin_ok K (T\<lparr>t_vm := v1\<rparr>)" by (rule thin_ok_vm [OF assms(2)])
  obtain T1 u vm where 1: "thin_ok K T1" "set_pt_reg RIP_PTRIDX u (t_vm T1) = Inr vm" "T' = T1\<lparr>t_vm := vm\<rparr>"
  proof (cases "di_fall I1")
    case True
    then obtain T1 b u vm where 2: "updateJCCDecision K (T\<lparr>t_vm := v1\<rparr>) I1 = Inr (T1, b)" "set_pt_reg RIP_PTRIDX u (t_vm T1) = Inr vm"
      "T' = T1\<lparr>t_vm := vm\<rparr>"
      using assms(1) t by (auto simp: dispatchBranch_def rbind_eq_Inr_iff split: if_splits)
    show ?thesis by (rule that [OF decision_keeps [OF 2(1) ok] 2(2,3)])
  next
    case False
    then obtain vm where "set_pt_reg RIP_PTRIDX t v1 = Inr vm" "T' = T\<lparr>t_vm := vm\<rparr>"
      using assms(1) t by (auto simp: dispatchBranch_def rbind_eq_Inr_iff)
    then show ?thesis using that [OF ok, of t vm] by simp
  qed
  have "vm = put_word RIP_PTRIDX u (t_vm T1)" using 1(2) set_pt_reg_ok [OF thin_okD(3) [OF 1(1)], of RIP_PTRIDX u] by (simp add: RIP_PTRIDX_def)
  then show ?thesis using thin_ok_vm [OF 1(1) put_word_ok(1) [OF thin_okD(1) [OF 1(1)]]] 1(3) by simp
qed

lemma sym_execute_keeps:
  assumes "sym_execute K T I = Inr (T', I')" "thin_ok K T" "insn_named (tc_X K) (t_vm T) I" "\<not> moves_lists (di_id I)"
  shows "thin_ok K T'"
proof -
  obtain v1 info where p: "thin_parseOperands (tc_X K) (t_vm T) I = Inr (v1, I', info)"
    using assms(1) by (auto simp: sym_execute_def rbind_eq_Inr_iff)
  note q = thin_parse_ok [OF p thin_okD(1) [OF assms(2)] assms(3)]
  obtain vm' where r: "run_loop (tc_X K) [info] v1 = Inr vm'" "T' = T\<lparr>t_vm := vm', t_IOIs := []\<rparr>"
    using assms(1,2) p by (auto simp: sym_execute_def rbind_eq_Inr_iff run_def pushInstr_def thin_ok_def)
  have "sym_reach (tc_X K) v1 vm'"
    by (rule run_loop_reach [OF r(1) reach_start]) (use q assms(4) in simp)
  then have "vm_ok (tc_D K) vm'" using sym_reach_ok same_vm_okD [OF thin_okD(1) [OF assms(2)]] q thin_okD(2) [OF assms(2)] by blast
  then show ?thesis using assms(2) r(2) by (simp add: thin_ok_def)
qed

lemma clear_flags_keeps:
  assumes "clear_flags fs C = Inr C'"
  shows "\<exists>Rs. C' = C\<lparr>m_Regs := Rs\<rparr> \<and> (\<forall>i. Rs i = m_Regs C i \<or> (\<exists>R. m_Regs C i = Some R \<and> Rs i = Some (R\<lparr>bsym_flag := False\<rparr>)))"
  using assms
proof (induction fs arbitrary: C)
  case Nil
  then show ?case by (intro exI [of _ "m_Regs C"]) simp
next
  case (Cons f fs)
  obtain R where R: "m_Regs C f = Some R" "clear_flags fs (C\<lparr>m_Regs := (m_Regs C)(f \<mapsto> R\<lparr>bsym_flag := False\<rparr>)\<rparr>) = Inr C'"
    using Cons.prems by (auto simp: upd_reg_def idxToReg_def rbind_eq_Inr_iff split: option.splits)
  let ?C = "C\<lparr>m_Regs := (m_Regs C)(f \<mapsto> R\<lparr>bsym_flag := False\<rparr>)\<rparr>"
  obtain Rs where Rs: "C' = ?C\<lparr>m_Regs := Rs\<rparr>"
    "\<forall>i. Rs i = m_Regs ?C i \<or> (\<exists>R. m_Regs ?C i = Some R \<and> Rs i = Some (R\<lparr>bsym_flag := False\<rparr>))" using Cons.IH [OF R(2)] by blast
  have "\<forall>i. Rs i = m_Regs C i \<or> (\<exists>R. m_Regs C i = Some R \<and> Rs i = Some (R\<lparr>bsym_flag := False\<rparr>))"
  proof
    fix i show "Rs i = m_Regs C i \<or> (\<exists>R. m_Regs C i = Some R \<and> Rs i = Some (R\<lparr>bsym_flag := False\<rparr>))"
      using spec [OF Rs(2), of i] R(1) by (cases "i = f") auto
  qed
  then show ?case using Rs(1) by (intro exI [of _ Rs]) simp
qed

lemma clearAll_keeps:
  assumes "vm_clearAllSymFlag D vm = Inr vm'" "vm_ok D vm"
  shows "vm_ok D vm'"
proof -
  obtain C' where C': "clear_flags (map (reg_id D) flag_regs) (m_CPU vm) = Inr C'" "vm' = vm\<lparr>m_CPU := C'\<rparr>"
    using assms(1) by (auto simp: vm_clearAllSymFlag_def clearAllSymFlag_def rbind_eq_Inr_iff)
  obtain Rs where Rs: "C' = (m_CPU vm)\<lparr>m_Regs := Rs\<rparr>"
    "\<forall>i. Rs i = m_Regs (m_CPU vm) i \<or> (\<exists>R. m_Regs (m_CPU vm) i = Some R \<and> Rs i = Some (R\<lparr>bsym_flag := False\<rparr>))"
    using clear_flags_keeps [OF C'(1)] by blast
  have "regs_ok D (m_CPU vm)" using assms(2) by (simp add: vm_ok_def)
  have "regs_ok D C'"
    unfolding regs_ok_def
  proof (intro ballI, clarify)
    fix r i sz assume "(r, i, sz) \<in> set DyinstEncoding"
    then obtain R where "m_Regs (m_CPU vm) (reg_id D r) = Some R" "indx R = reg_id D r \<and> reg_size R = sz \<and> slot R = i"
      using \<open>regs_ok D (m_CPU vm)\<close> unfolding regs_ok_def by fastforce
    then show "\<exists>R. m_Regs C' (reg_id D r) = Some R \<and> indx R = reg_id D r \<and> reg_size R = sz \<and> slot R = i"
      using spec [OF Rs(2), of "reg_id D r"] Rs(1) by auto
  qed
  then show ?thesis using assms(2) C'(2) Rs(1) by (simp add: vm_ok_def vm_wf_def vm_lists_def cpu_wf_def)
qed
lemma hasSymOperand_same:
  assumes "hasSymOperand X vm I = Inr (vm', I', b)" "vm_ok (cx_D X) vm" "insn_placed X vm I"
  shows "same_vm vm vm' \<and> (\<exists>env. I' = I\<lparr>di_bound := env\<rparr>)"
proof -
  obtain v1 e1 b1 env where 1: "operands_symbolic X vm I (di_ops I) (di_bound I) = Inr (v1, e1, b1)"
    "(if b1 then Inr (v1, e1, True) else checkImplicitMemAccess X v1 I e1) = Inr (vm', env, b)" "I' = I\<lparr>di_bound := env\<rparr>"
    using assms(1) by (auto simp: hasSymOperand_def rbind_eq_Inr_iff)
  have o: "same_vm vm v1" using operands_symbolic_ok [OF 1(1) assms(2)] assms(3) by (simp add: insn_placed_def)
  have "same_vm v1 vm'"
  proof (cases b1)
    case True
    then show ?thesis using 1(2) same_vm_okD [OF assms(2) o] by (simp add: same_vm_refl vm_ok_def)
  next
    case False
    then obtain v2 e2 b2 where 2: "refs_symbolic X v1 0 (di_imp_rd I) e1 = Inr (v2, e2, b2)"
      "(if b2 then Inr (v2, e2, True) else refs_symbolic X v2 0 (di_imp_wr I) e2) = Inr (vm', env, b)"
      using 1(2) by (auto simp: checkImplicitMemAccess_def rbind_eq_Inr_iff)
    have p: "\<forall>R \<in> set (di_imp_rd I) \<union> set (di_imp_wr I). ref_placed (cx_D X) vm 0 R" using assms(3) by (simp add: insn_placed_def)
    note k1 = same_vm_okD [OF assms(2) o]
    have r1: "same_vm v1 v2" using refs_symbolic_ok [OF 2(1) k1] p by (simp add: same_vm_views(5) [OF o])
    show ?thesis
    proof (cases b2)
      case True
      then show ?thesis using 2(2) r1 by simp
    next
      case False
      then have e: "refs_symbolic X v2 0 (di_imp_wr I) e2 = Inr (vm', env, b)" using 2(2) by simp
      have "same_vm v2 vm'"
        using refs_symbolic_ok [OF e same_vm_okD [OF k1 r1]] p by (simp add: same_vm_views(5) [OF same_vm_trans [OF o r1]])
      then show ?thesis using same_vm_trans [OF r1] by blast
    qed
  qed
  then show ?thesis using same_vm_trans [OF o] 1(3) by blast
qed

lemma other_keeps:
  assumes "dispatch_other K T I = Inr (T', I', chk)" "thin_ok K T" "insn_fit K (t_vm T) I" "di_cat I = c_OtherInsn"
  shows "thin_ok K T'"
proof -
  have fit: "insn_placed (tc_X K) (t_vm T) I" "insn_named (tc_X K) (t_vm T) I" "unat (in_size (di_instr I)) \<le> 15" "\<not> moves_lists (di_id I)"
    using assms(3,4) by (simp_all add: insn_fit_def)
  note ok = thin_okD(1,2) [OF assms(2)]
  obtain con b0 where con: "dependFlagCon K (t_vm T) (di_id I) False = Inr (con, b0)"
    using assms(1) by (auto simp: dispatch_other_def rbind_eq_Inr_iff)
  show ?thesis
  proof (cases con)
    case False
    then obtain T1 b where 1: "eval_condition K T (di_id I) = Inr (T1, b)"
      "(if \<not> b then Inr (T1, I, False) else rbind (sym_execute K T1 I) (\<lambda>(T, I).
          rbind (concretise_flags K (t_vm T) (di_id I) b) (\<lambda>vm. Inr (T\<lparr>t_vm := vm\<rparr>, I, True)))) = Inr (T', I', chk)"
      using assms(1) con by (auto simp: dispatch_other_def rbind_eq_Inr_iff)
    obtain E m where T1: "T1 = T\<lparr>t_vm := (t_vm T)\<lparr>m_EFlagsMgr := E\<rparr>, symObjectsMap := m\<rparr>" by (rule eval_condition_vm [OF 1(1)])
    have ok1: "thin_ok K T1" using assms(2) T1 by (simp add: thin_ok_def vm_ok_flags_manager)
    show ?thesis
    proof (cases b)
      case False
      then show ?thesis using 1(2) ok1 by simp
    next
      case True
      then obtain T2 I2 vm where 2: "sym_execute K T1 I = Inr (T2, I2)" "concretise_flags K (t_vm T2) (di_id I2) b = Inr vm" "T' = T2\<lparr>t_vm := vm\<rparr>"
        using 1(2) by (auto simp: rbind_eq_Inr_iff)
      have ok2: "thin_ok K T2"
        by (rule sym_execute_keeps [OF 2(1) ok1 _ fit(4)]) (use fit(2) T1 in \<open>simp add: insn_named_flags_manager\<close>)
      show ?thesis unfolding 2(3) by (rule thin_ok_vm [OF ok2 concretise_keeps [OF 2(2) thin_okD(1,2) [OF ok2]]])
    qed
  next
    case True
    obtain vm1 I1 b where h: "hasSymOperand (tc_X K) (t_vm T) I = Inr (vm1, I1, b)"
      using assms(1) con True by (auto simp: dispatch_other_def rbind_eq_Inr_iff)
    obtain env where s: "same_vm (t_vm T) vm1" "I1 = I\<lparr>di_bound := env\<rparr>" using hasSymOperand_same [OF h ok(1) fit(1)] by blast
    have ok1: "thin_ok K (T\<lparr>t_vm := vm1\<rparr>)" by (rule thin_ok_vm [OF assms(2) same_vm_okD [OF ok(1) s(1)]])
    show ?thesis
    proof (cases b)
      case True
      then have "sym_execute K (T\<lparr>t_vm := vm1\<rparr>) I1 = Inr (T', I')"
        using assms(1) con \<open>con\<close> h by (auto simp: dispatch_other_def rbind_eq_Inr_iff)
      from sym_execute_keeps [OF this ok1] show ?thesis using fit(2,4) s insn_named_same [OF s(1)] by simp
    next
      case False
      then obtain E vm2 vm3 where 2: "InsnDispatch (tc_host K) (tc_hv K) (t_con T) I1 vm1 = Inr (E, vm2)"
        "(if isFlagChangingInstr (tc_N K) (di_id I1) then vm_clearAllSymFlag (tc_D K) vm2 else Inr vm2) = Inr vm3"
        "T' = T\<lparr>t_vm := vm3, t_con := E\<rparr>"
        using assms(1) con \<open>con\<close> h by (auto simp: dispatch_other_def rbind_eq_Inr_iff)
      have ok2: "vm_ok (tc_D K) vm2" using InsnDispatch_vm [OF 2(1) thin_okD(1) [OF ok1, simplified]] by simp
      have ok3: "vm_ok (tc_D K) vm3" using 2(2) clearAll_keeps [OF _ ok2] ok2 by (auto split: if_splits)
      have "E = new_ConExecutor"
      proof -
        have t: "t_con T = new_ConExecutor" using assms(2) by (simp add: thin_ok_def)
        have l: "length (m_ArrRegs (m_CPU vm1)) = 32" using thin_okD(3) [OF ok1] by simp
        from 2(1) l obtain regs ph where "t_con T = new_ConExecutor \<and> unat (in_size (di_instr I1)) \<le> 15 \<longrightarrow> E = t_con T"
          by (rule InsnDispatch_outcome)
        then show ?thesis using t fit(3) s(2) by simp
      qed
      then show ?thesis using assms(2) 2(3) ok3 by (simp add: thin_ok_def)
    qed
  qed
qed

section \<open>Turns\<close>

text \<open>The instruction the next turn meets is fit, in the state in which it is dispatched.\<close>

definition turn_fit :: "'z tctx \<Rightarrow> 'z thin \<Rightarrow> u64 \<Rightarrow> bool" where
  "turn_fit K T cc \<longleftrightarrow> (\<forall>a T1 I vm. pt_reg RIP_PTRIDX (t_vm T) = Inr a \<and> fetch_insn K T a = Inr (T1, I) \<and>
     set_pt_reg RIP_PTRIDX (a + in_size (di_instr I)) (t_vm T1) = Inr vm \<and> \<not> di_nop I \<longrightarrow>
     insn_fit K (t_vm (fst (count_conditional K (T1\<lparr>t_vm := vm\<rparr>) I a cc))) I)"

lemma dispatch_keeps:
  assumes "dispatch_insn K T I = Inr (T', I', chk)" "thin_ok K T" "insn_fit K (t_vm T) I"
  shows "thin_ok K T'"
proof (cases "di_cat I")
  case c_ReturnInsn
  then show ?thesis using assms ret_keeps by (auto simp: dispatch_insn_def rbind_eq_Inr_iff)
next
  case c_CallInsn
  then obtain vm' where v: "dispatchCall (tc_X K) (t_vm T) I = Inr (vm', I')" "T' = T\<lparr>t_vm := vm'\<rparr>"
    using assms(1) by (auto simp: dispatch_insn_def rbind_eq_Inr_iff)
  have "target_placed (tc_X K) (t_vm T) I" using c_CallInsn assms(3) by (simp add: insn_fit_def)
  then show ?thesis using call_keeps [OF v(1) assms(2)] v(2) by simp
next
  case c_BranchInsn
  then have "dispatchBranch K T I = Inr (T', I')" "target_placed (tc_X K) (t_vm T) I"
    using assms(1,3) by (auto simp: dispatch_insn_def rbind_eq_Inr_iff insn_fit_def)
  then show ?thesis using branch_keeps assms(2) by blast
next
  case c_OtherInsn
  then show ?thesis using assms other_keeps by (simp add: dispatch_insn_def)
qed

lemma count_keeps: "thin_ok K T \<Longrightarrow> thin_ok K (fst (count_conditional K T I a cc))"
  by (simp add: count_conditional_def thin_ok_def vm_ok_flags_manager)

lemma fetch_keeps:
  assumes "fetch_insn K T a = Inr (T1, I)" "thin_ok K T"
  shows "thin_ok K T1 \<and> t_vm T1 = t_vm T"
  using assms by (auto simp: fetch_insn_def rbind_eq_Inr_iff thin_ok_cache cache_insn_def thin_ok_def split: option.splits)

lemma thin_step_keeps:
  assumes "thin_step K T cc = Inr (T', cc', chk)" "thin_ok K T" "turn_fit K T cc"
  shows "thin_ok K T'"
proof -
  obtain a T1 I vm where 1: "pt_reg RIP_PTRIDX (t_vm T) = Inr a" "fetch_insn K T a = Inr (T1, I)"
    "set_pt_reg RIP_PTRIDX (a + in_size (di_instr I)) (t_vm T1) = Inr vm"
    using assms(1) by (auto simp: thin_step_def rbind_eq_Inr_iff)
  have ok1: "thin_ok K T1" using fetch_keeps [OF 1(2) assms(2)] by simp
  have "vm = put_word RIP_PTRIDX (a + in_size (di_instr I)) (t_vm T1)"
    using 1(3) set_pt_reg_ok [OF thin_okD(3) [OF ok1]] by (simp add: RIP_PTRIDX_def)
  then have ok2: "thin_ok K (T1\<lparr>t_vm := vm\<rparr>)" using thin_ok_vm [OF ok1 put_word_ok(1) [OF thin_okD(1) [OF ok1]]] by simp
  show ?thesis
  proof (cases "di_nop I")
    case True
    then have "T' = T1\<lparr>t_vm := vm\<rparr>" using assms(1) 1 by (simp add: thin_step_def)
    then show ?thesis using ok2 by simp
  next
    case False
    obtain T2 c2 where c: "count_conditional K (T1\<lparr>t_vm := vm\<rparr>) I a cc = (T2, c2)" by (cases "count_conditional K (T1\<lparr>t_vm := vm\<rparr>) I a cc")
    obtain T3 I3 where d: "dispatch_insn K T2 I = Inr (T3, I3, chk)" "T' = cache_insn a I3 T3"
      using assms(1) 1 False c by (auto simp: thin_step_def rbind_eq_Inr_iff)
    have "thin_ok K T2" using count_keeps [OF ok2, of I a cc] c by simp
    moreover have "insn_fit K (t_vm T2) I" using assms(3) 1 False c unfolding turn_fit_def by (metis fst_conv)
    ultimately show ?thesis using dispatch_keeps [OF d(1)] d(2) thin_ok_cache by blast
  qed
qed

text \<open>A turn on a fit instruction, as a step of an analysis.\<close>

definition fit_turn :: "'z tctx \<Rightarrow> 'z thin \<times> u64 \<Rightarrow> 'z thin \<times> u64 \<Rightarrow> bool" where
  "fit_turn K x y \<longleftrightarrow> turn_fit K (fst x) (snd x) \<and> (\<exists>chk. thin_step K (fst x) (snd x) = Inr (fst y, snd y, chk))"

interpretation analysis: invariant_steps "fit_turn K" "\<lambda>x. thin_ok K (fst x)" for K
  by unfold_locales (auto simp: fit_turn_def intro: thin_step_keeps)

section \<open>Property\<close>

lemma ex_fit:
  "cat \<in> {c_OtherInsn, c_ReturnInsn} \<Longrightarrow> insn_fit ex_two vm ((ex_insn (other_id 0) cat False [])\<lparr>di_bound := env\<rparr>)"
  by (auto simp add: insn_fit_def ex_insn_def ex_instr_def insn_placed_def insn_named_def saved_regs_def plain_regs_def moves_lists_def)

lemma ex_turn_fit:
  assumes "runs_as ex_two T s" "in_region ex_two (fst s ! RIP_PTRIDX)"
  shows "turn_fit ex_two T cc"
proof -
  let ?I = "tc_decode ex_two (snd s) (fst s ! RIP_PTRIDX)"
  have "at_insn ex_two s ?I" using assms(2) by (simp add: at_insn_def)
  from fetch_native [OF assms(1) ex_runs_as(2) this] obtain T1 env where
    f: "fetch_insn ex_two T (fst s ! RIP_PTRIDX) = Inr (T1, ?I\<lparr>di_bound := env\<rparr>)" by blast
  have "pt_reg RIP_PTRIDX (t_vm T) = Inr (fst s ! RIP_PTRIDX)" by (rule runs_as_regs(1) [OF assms(1)]) (simp add: RIP_PTRIDX_def)
  then show ?thesis unfolding turn_fit_def using f by (auto simp: ex_fit)
qed


end
