(* ===== verification/Func_DB.thy ===== *)
theory Func_DB
  imports Fat_Ctrl
begin

text \<open>
  The text file of functions and their calls that the fat control reads at its start (InitFuncDB of fatctrl.cpp), as a
  format: which texts describe a database, and that the reader returns exactly the database described.
\<close>

section \<open>The text of a database\<close>

definition newline :: char where "newline = CHR 0x0A"

text \<open>A text of digits spells a number in a base; leading zeros and letters of both cases are allowed.\<close>

definition digits_value :: "nat \<Rightarrow> nat \<Rightarrow> string \<Rightarrow> nat" where
  "digits_value b = foldl (\<lambda>n c. b * n + the (digit_of c))"

definition spells :: "nat \<Rightarrow> string \<Rightarrow> nat \<Rightarrow> bool" where
  "spells b t x \<longleftrightarrow> t \<noteq> [] \<and> list_all (\<lambda>c. case digit_of c of Some d \<Rightarrow> d < b | None \<Rightarrow> False) t \<and> digits_value b 0 t = x"

text \<open>Lines that fgets reads whole and strcpy copies whole.\<close>

definition short_line :: "string \<Rightarrow> bool" where
  "short_line l \<longleftrightarrow> length l < 127 \<and> newline \<notin> set l \<and> CHR 0x00 \<notin> set l"

text \<open>
  The line of a call, without its end. The destination begins with f when it is a number, as every address of the
  kernel does; otherwise it is any word, and the call has the destination 0.
\<close>

definition call_text :: "string \<Rightarrow> call_insn \<Rightarrow> bool" where
  "call_text line c \<longleftrightarrow> short_line line \<and> (\<exists>a l t. line = a @ CHR '' '' # l @ CHR '' '' # t \<and>
     spells 16 a (unat (ci_addr c)) \<and> 0 \<le> ci_len c \<and> ci_len c < 2 ^ 31 \<and> spells 10 l (nat (ci_len c)) \<and>
     t \<noteq> [] \<and> CHR '' '' \<notin> set t \<and> (if hd t = CHR ''f'' then spells 16 t (unat (ci_dest c)) else ci_dest c = 0))"

definition func_text :: "string list \<Rightarrow> func_calls \<Rightarrow> bool" where
  "func_text ls f \<longleftrightarrow> (\<exists>a n cls cs. ls = (a @ '':'') # n # cls \<and> short_line (a @ '':'') \<and> short_line n \<and>
     spells 16 a (unat (func_addr f)) \<and> length cs < 2 ^ 31 \<and> spells 10 n (length cs) \<and>
     call_insts f = Some (int (length cs), cs) \<and> list_all2 call_text cls cs)"

definition db_text :: "string \<Rightarrow> func_calls list \<Rightarrow> bool" where
  "db_text file db \<longleftrightarrow> (\<exists>fs. list_all2 func_text fs db \<and> file = concat (map (\<lambda>l. l @ [newline]) (concat fs)))"

section \<open>Reading digits\<close>

lemma digit_char:
  assumes "digit_of c = Some d"
  shows "\<not> is_space c" "c \<noteq> CHR ''-''" "c \<noteq> CHR ''+''" "c \<noteq> CHR '' ''" "c \<noteq> CHR '':''" "c \<noteq> CHR ''x''" "c \<noteq> CHR ''X''"
    "c \<noteq> newline"
proof -
  have k: "(48 \<le> k \<and> k \<le> 57) \<or> (97 \<le> k \<and> k \<le> 102) \<or> (65 \<le> k \<and> k \<le> 70)" if "k = (of_char c :: nat)" for k
    using assms that by (auto simp: digit_of_def Let_def split: if_splits)
  then show "\<not> is_space c" by (auto simp: is_space_def)
  show "c \<noteq> CHR ''-''" "c \<noteq> CHR ''+''" "c \<noteq> CHR '' ''" "c \<noteq> CHR '':''" "c \<noteq> CHR ''x''" "c \<noteq> CHR ''X''" "c \<noteq> newline"
    using k [OF refl] by (auto simp: newline_def)
qed

text \<open>What may follow a number.\<close>

definition stops :: "string \<Rightarrow> bool" where
  "stops r \<longleftrightarrow> (case r of [] \<Rightarrow> True | c # s \<Rightarrow> digit_of c = None \<and> c \<noteq> CHR ''x'' \<and> c \<noteq> CHR ''X'')"

lemma scan_digits_spelled:
  assumes "list_all (\<lambda>c. case digit_of c of Some d \<Rightarrow> d < b | None \<Rightarrow> False) t" "stops r"
  shows "scan_digits b acc (t @ r) = (digits_value b acc t, r)"
  using assms
proof (induction t arbitrary: acc)
  case Nil
  then show ?case by (cases r) (auto simp: stops_def digits_value_def)
next
  case (Cons c t)
  then show ?case by (auto simp: digits_value_def split: option.splits)
qed

lemma spelled_head:
  assumes "spells b t x"
  obtains c s where "t = c # s" "digit_of c \<noteq> None"
  using assms by (cases t) (auto simp: spells_def split: option.splits)

lemma scan_start:
  assumes "spells b t x"
  shows "dropWhile is_space (t @ r) = t @ r" "scan_sign (t @ r) = (False, t @ r)"
proof -
  obtain c s where c: "t = c # s" "digit_of c \<noteq> None" by (rule spelled_head [OF assms])
  then show "dropWhile is_space (t @ r) = t @ r" "scan_sign (t @ r) = (False, t @ r)"
    using digit_char(1-3) [of c] by (auto simp: scan_sign_def)
qed

lemma scan_prefix_none:
  assumes "spells b t x" "stops r"
  shows "scan_prefix (t @ r) = t @ r"
proof -
  have d: "digit_of c \<noteq> None" if "c \<in> set t" for c using assms(1) that by (auto simp: spells_def list_all_iff split: option.splits)
  have "hd (tl (t @ r)) \<noteq> CHR ''x'' \<and> hd (tl (t @ r)) \<noteq> CHR ''X'' \<or> length (t @ r) < 2"
  proof (cases "tl t")
    case Nil
    then show ?thesis using assms by (cases t; cases r) (auto simp: spells_def stops_def)
  next
    case (Cons c s)
    then have "c \<in> set t" by (metis list.set_intros(1) list.set_sel(2) list.sel(2) list.distinct(1))
    then show ?thesis using d [of c] digit_char(6,7) [of c] Cons by (cases t) auto
  qed
  then show ?thesis by (cases "t @ r"; cases "tl (t @ r)") (auto simp: scan_prefix_def)
qed

lemma strtoul16_spelled:
  assumes "spells 16 t (unat v)" "stops r"
  shows "strtoul16 (t @ r) = v"
proof -
  have "scan_digits 16 0 (t @ r) = (unat v, r)"
    using scan_digits_spelled [OF _ assms(2), of 16 t 0] assms(1) by (simp add: spells_def)
  moreover have "t \<noteq> []" using assms(1) by (simp add: spells_def)
  moreover have "unat v < 2 ^ 64" using unsigned_less [of v] by simp
  ultimately show ?thesis
    using scan_start [OF assms(1)] scan_prefix_none [OF assms] by (simp add: strtoul16_def scan_llx_def)
qed

lemma strtol10_spelled:
  assumes "spells 10 t x" "x < 2 ^ 31" "stops r"
  shows "strtol10 (t @ r) = int x"
proof -
  have "scan_digits 10 0 (t @ r) = (x, r)"
    using scan_digits_spelled [OF _ assms(3), of 10 t 0] assms(1) by (simp add: spells_def)
  moreover have "t \<noteq> []" using assms(1) by (simp add: spells_def)
  moreover have "signed_take_bit 31 (int x) = int x" using assms(2) by (simp add: signed_take_bit_int_eq_self)
  ultimately show ?thesis
    using scan_start [OF assms(1)] assms(2) by (simp add: strtol10_def scan_d_def Let_def)
qed

section \<open>Reading lines\<close>

lemma fgets_line: "newline \<notin> set l \<Longrightarrow> length l < n \<Longrightarrow> fgets n (l @ newline # r) = (l @ [newline], r)"
proof (induction l arbitrary: n)
  case Nil
  then show ?case by (cases n) (simp_all add: newline_def)
next
  case (Cons c l)
  then show ?case by (cases n) (auto simp: newline_def)
qed

lemma next_chunk_line:
  assumes "short_line l"
  shows "next_chunk (l @ newline # r) = Some (l @ [newline], r)"
proof -
  have "takeWhile (\<lambda>c. c \<noteq> CHR 0x00) (l @ [newline]) = l @ [newline]"
    using assms by (auto simp: takeWhile_eq_all_conv short_line_def newline_def)
  then show ?thesis using assms fgets_line [of l 127 r] by (simp add: next_chunk_def short_line_def)
qed

lemma strtok_token:
  assumes "t \<noteq> []" "d \<notin> set t"
  shows "strtok d (t @ d # s) = Some (t, s)" "strtok d t = Some (t, [])"
proof -
  have h: "dropWhile (\<lambda>c. c = d) (t @ r) = t @ r" for r using assms by (cases t) auto
  have w: "takeWhile (\<lambda>c. c \<noteq> d) (t @ d # s) = t" "dropWhile (\<lambda>c. c \<noteq> d) (t @ d # s) = d # s"
    "takeWhile (\<lambda>c. c \<noteq> d) t = t" "dropWhile (\<lambda>c. c \<noteq> d) t = []"
    using assms(2) by (induction t) auto
  show "strtok d (t @ d # s) = Some (t, s)" using h [of "d # s"] w assms(1) by (cases t) (auto simp: strtok_def)
  show "strtok d t = Some (t, [])" using h [of "[]"] w assms(1) by (cases t) (auto simp: strtok_def)
qed

lemma spells_no_sep:
  assumes "spells b t x"
  shows "t \<noteq> []" "CHR '' '' \<notin> set t" "CHR '':'' \<notin> set t"
  using assms digit_char(4,5) by (force simp: spells_def list_all_iff split: option.splits)+

lemma stops_simps [simp]: "stops []" "stops [newline]"
  by (simp_all add: stops_def newline_def digit_of_def)

lemma parse_call_text:
  assumes "call_text line c"
  shows "parse_call (line @ [newline]) = Inr c"
proof -
  from assms obtain a l t where 1: "line = a @ CHR '' '' # l @ CHR '' '' # t" "spells 16 a (unat (ci_addr c))"
    "0 \<le> ci_len c" "ci_len c < 2 ^ 31" "spells 10 l (nat (ci_len c))" "t \<noteq> []" "CHR '' '' \<notin> set t"
    "if hd t = CHR ''f'' then spells 16 t (unat (ci_dest c)) else ci_dest c = 0"
    by (auto simp: call_text_def)
  have ts: "strtok (CHR '' '') (line @ [newline]) = Some (a, l @ CHR '' '' # t @ [newline])"
    "strtok (CHR '' '') (l @ CHR '' '' # t @ [newline]) = Some (l, t @ [newline])"
    using strtok_token(1) [OF spells_no_sep(1,2) [OF 1(2)]] strtok_token(1) [OF spells_no_sep(1,2) [OF 1(5)]] 1(1) by simp_all
  have t3: "strtok (CHR '' '') (t @ [newline]) = Some (t @ [newline], [])"
    using strtok_token(2) [of "t @ [newline]"] 1(7) by (simp add: newline_def)
  have "nat (ci_len c) < 2 ^ 31" using 1(3,4) by (simp add: nat_less_iff)
  then have v: "strtoul16 a = ci_addr c" "strtol10 l = ci_len c"
    using strtoul16_spelled [OF 1(2), of "[]"] strtol10_spelled [OF 1(5), of "[]"] 1(3) by simp_all
  have h: "hd (t @ [newline]) = hd t" using 1(6) by simp
  have "(if hd t \<noteq> CHR ''f'' then 0 else strtoul16 (t @ [newline])) = ci_dest c"
    using 1(8) strtoul16_spelled [of t "ci_dest c" "[newline]"] by auto
  then show ?thesis using ts t3 v h by (simp add: parse_call_def)
qed
section \<open>Reading the file\<close>

abbreviation file_of :: "string list \<Rightarrow> string" where
  "file_of ls \<equiv> concat (map (\<lambda>l. l @ [newline]) ls)"

lemma read_calls_text:
  assumes "list_all2 call_text ls cs"
  shows "read_calls (length cs) (file_of ls @ r) = Inr (cs, r)"
  using assms
proof (induction rule: list_all2_induct)
  case Nil
  then show ?case by simp
next
  case (Cons l ls c cs)
  have "short_line l" using Cons(1) by (simp add: call_text_def)
  then show ?case using next_chunk_line [of l "file_of ls @ r"] parse_call_text [OF Cons(1)] Cons(3) by simp
qed

lemma read_func_text:
  assumes "func_text ls f"
  obtains l rest where "ls = l # rest" "short_line l" "is_func_line (l @ [newline]) = Inr True"
    "\<And>r. read_func (l @ [newline]) (file_of rest @ r) = Inr (f, r)"
proof -
  from assms obtain a n cls cs where 1: "ls = (a @ '':'') # n # cls" "short_line (a @ '':'')" "short_line n"
    "spells 16 a (unat (func_addr f))" "length cs < 2 ^ 31" "spells 10 n (length cs)"
    "call_insts f = Some (int (length cs), cs)" "list_all2 call_text cls cs" by (auto simp: func_text_def)
  have t: "strtok (CHR '':'') ((a @ '':'') @ [newline]) = Some (a, [newline])"
    using strtok_token(1) [OF spells_no_sep(1,3) [OF 1(4)]] by simp
  have v: "strtoul16 a = func_addr f" "strtol10 (n @ [newline]) = int (length cs)"
    using strtoul16_spelled [OF 1(4), of "[]"] strtol10_spelled [OF 1(6,5), of "[newline]"] by simp_all
  have f: "f = \<lparr>func_addr = func_addr f, call_insts = Some (int (length cs), cs)\<rparr>" using 1(7) by (cases f) simp
  show ?thesis
  proof (rule that [OF 1(1,2)])
    show "is_func_line ((a @ '':'') @ [newline]) = Inr True" by (simp add: is_func_line_def nth_append)
    show "read_func ((a @ '':'') @ [newline]) (file_of (n # cls) @ r) = Inr (f, r)" for r
      using t v next_chunk_line [OF 1(3), of "file_of cls @ r"] read_calls_text [OF 1(8), of r] f by (simp add: read_func_def)
  qed
qed

text \<open>Every turn of the loop reads one function; the bound is no obstacle.\<close>

lemma read_funcs_text:
  assumes "list_all2 func_text fs fns" "length db + length fns \<le> MAX_FUNCS" "length fns < n"
  shows "read_funcs n db (file_of (concat fs)) = Inr (db @ fns)"
  using assms
proof (induction arbitrary: db n rule: list_all2_induct)
  case Nil
  then obtain m where "n = Suc m" by (cases n) auto
  then show ?case by (simp add: next_chunk_def)
next
  case (Cons ls fs f fns)
  obtain m where m: "n = Suc m" using Cons.prems(2) by (cases n) auto
  obtain l rest where l: "ls = l # rest" "short_line l" "is_func_line (l @ [newline]) = Inr True"
    "\<And>r. read_func (l @ [newline]) (file_of rest @ r) = Inr (f, r)" by (rule read_func_text [OF Cons(1)]) blast
  have "next_chunk (file_of (concat (ls # fs))) = Some (l @ [newline], file_of rest @ file_of (concat fs))"
    using next_chunk_line [OF l(2), of "file_of rest @ file_of (concat fs)"] l(1) by simp
  moreover have "read_funcs m (db @ [f]) (file_of (concat fs)) = Inr ((db @ [f]) @ fns)"
    by (rule Cons.IH) (use Cons.prems m in simp_all)
  ultimately show ?case using m l(3,4) Cons.prems(1) by simp
qed

lemma file_length:
  assumes "list_all2 func_text fs fns"
  shows "length fns \<le> length (file_of (concat fs))"
  using assms
proof (induction rule: list_all2_induct)
  case (Cons ls fs f fns)
  then show ?case by (auto simp: func_text_def)
qed simp

section \<open>Property\<close>

text \<open>C20. The text of a database of at most 44020 functions is read back as that database, however its
  numbers are spelled, as long as its lines fit the buffer.\<close>

theorem database_read_back:
  assumes "db_text file db" "length db \<le> MAX_FUNCS"
  shows "InitFuncDB (Some file) = Inr db"
proof -
  obtain fs where fs: "list_all2 func_text fs db" "file = file_of (concat fs)" using assms(1) by (auto simp: db_text_def)
  have "read_funcs (length file + 1) [] file = Inr ([] @ db)"
    unfolding fs(2) by (rule read_funcs_text [OF fs(1)]) (use assms(2) file_length [OF fs(1)] in simp_all)
  then show ?thesis by (simp add: InitFuncDB_def)
qed

theorem database_read_back_witness:
  "InitFuncDB (Some (''f0:'' @ newline # ''01'' @ newline # ''f2 5 fA'' @ newline # ''F7:'' @ newline # ''0'' @ [newline])) =
    Inr [\<lparr>func_addr = 0xf0, call_insts = Some (1, [\<lparr>ci_addr = 0xf2, ci_dest = 0xfa, ci_len = 5\<rparr>])\<rparr>,
      \<lparr>func_addr = 0xf7, call_insts = Some (0, [])\<rparr>]"
proof (rule database_read_back)
  let ?c = "\<lparr>ci_addr = 0xf2, ci_dest = 0xfa, ci_len = 5\<rparr> :: call_insn"
  note s = spells_def digits_value_def digit_of_def short_line_def newline_def
  have "spells 16 ''f2'' (unat (ci_addr ?c)) \<and> spells 10 ''5'' (nat (ci_len ?c)) \<and> spells 16 ''fA'' (unat (ci_dest ?c))"
    by (simp add: s)
  moreover have "short_line ''f2 5 fA''" by (simp add: s)
  ultimately have c: "call_text ''f2 5 fA'' ?c"
    unfolding call_text_def by (intro conjI exI [of _ "''f2''"] exI [of _ "''5''"] exI [of _ "''fA''"]) simp_all
  have 1: "func_text [''f0:'', ''01'', ''f2 5 fA''] \<lparr>func_addr = 0xf0, call_insts = Some (1, [?c])\<rparr>"
    unfolding func_text_def
    by (intro exI [of _ "''f0''"] exI [of _ "''01''"] exI [of _ "[''f2 5 fA'']"] exI [of _ "[?c]"]) (simp add: s c)
  have 2: "func_text [''F7:'', ''0''] \<lparr>func_addr = 0xf7, call_insts = Some (0, [])\<rparr>"
    unfolding func_text_def
    by (intro exI [of _ "''F7''"] exI [of _ "''0''"] exI [of _ "[]"]) (simp add: s)
  show "db_text (''f0:'' @ newline # ''01'' @ newline # ''f2 5 fA'' @ newline # ''F7:'' @ newline # ''0'' @ [newline])
      [\<lparr>func_addr = 0xf0, call_insts = Some (1, [?c])\<rparr>, \<lparr>func_addr = 0xf7, call_insts = Some (0, [])\<rparr>]"
    unfolding db_text_def
    by (intro exI [of _ "[[''f0:'', ''01'', ''f2 5 fA''], [''F7:'', ''0'']]"]) (simp add: 1 2)
qed (simp add: MAX_FUNCS_def)

end
