(* ===== verification/Block_Dispatch.thy ===== *)
theory Block_Dispatch
  imports Native_Run
begin

text \<open>
  Whole blocks run in one go (BlockDispatch of conexec.cpp): the instructions up to the next transfer are copied
  onto a page, with a callback before one whose address depends on a register the block writes, and the page is
  run between two pieces of assembly. The thin control's call of it is switched off. Shown: a block without symbols does what its
  instructions do one by one, and a callback resumes at its instruction.
\<close>

section \<open>What comes from outside\<close>

text \<open>
  Expressions of Dyninst, as far as the code looks at them: a register, or something with children.
\<close>

datatype ast = RegisterAST u32 | OtherAST "ast list"

fun getChildren :: "ast \<Rightarrow> ast list" where
  "getChildren (RegisterAST r) = []"
| "getChildren (OtherAST es) = es"

text \<open>
  From Dyninst: whether an instruction accesses memory, the registers it writes, the expression of an operand and
  those of the cells accessed implicitly. From the machine: where the page and the assembly lie, and the processor, which runs the page from a start
  until the code jumps to one of the two exits of the assembly: the callback, which hands out r15, or the end.
\<close>

record 'z bctx =
  bc_K :: "'z tctx"
  bc_reads :: "instr \<Rightarrow> bool"
  bc_writes :: "instr \<Rightarrow> bool"
  bc_writeSet :: "instr \<Rightarrow> u32 list"
  bc_value :: "topnd \<Rightarrow> ast"
  bc_imp_rd :: "instr \<Rightarrow> ast list"
  bc_imp_wr :: "instr \<Rightarrow> ast list"
  bc_page :: u64
  bc_fun :: u64
  bc_host :: "u8 list \<Rightarrow> u64 \<Rightarrow> mach \<times> (u64 \<Rightarrow> u8) \<Rightarrow> (mach \<times> (u64 \<Rightarrow> u8) \<times> u64 option) res"

text \<open>
  The local state of BlockDispatch: the bytes put on the page so far, the map from the page to the code, the
  registers written, whether a flag-changing instruction was met, and the address in the code.
\<close>

record block =
  bl_page :: "u8 list"
  bl_map :: "u64 \<rightharpoonup> u64"
  bl_regs :: "u32 set"
  bl_flag :: bool
  bl_addr :: u64

datatype patch_end = r15_insn | control_insn | symbolic_insn

definition T_page_size :: nat where "T_page_size = 0x1000"
definition Jmp_RIP_Insn :: "u8 list" where "Jmp_RIP_Insn = [0xff, 0x25, 0x00, 0x00, 0x00, 0x00]"
definition Lea_RIP_Insn :: "u8 list" where "Lea_RIP_Insn = [0x4c, 0x8d, 0x3d, 0x00, 0x00, 0x00, 0x00]"
definition nop_bytes :: u64 where "nop_bytes = 0x9090909090909090"

definition word_bytes :: "u64 \<Rightarrow> u8 list" where
  "word_bytes v = map (\<lambda>i. ucast (drop_bit (i * 8) v)) [0..<8]"

section \<open>Copying a block\<close>

text \<open>Nothing guards the end of the page.\<close>

definition put_page :: "u8 list \<Rightarrow> block \<Rightarrow> block res" where
  "put_page bs B =
     (if length (bl_page B) + length bs > T_page_size then Inl OutOfBounds else Inr (B\<lparr>bl_page := bl_page B @ bs\<rparr>))"

text \<open>Only a register that is itself a child of the address is noticed: not an address that is a register, and no scaled index.\<close>

definition names_written :: "u32 set \<Rightarrow> ast \<Rightarrow> bool" where
  "names_written W it \<longleftrightarrow> (\<exists>E \<in> set (getChildren it). case E of RegisterAST r \<Rightarrow> r \<in> W | OtherAST es \<Rightarrow> False)"

definition cell_names_written :: "'z bctx \<Rightarrow> u32 set \<Rightarrow> topnd \<Rightarrow> bool res" where
  "cell_names_written C W Q =
     (let cs = getChildren (bc_value C Q) in rassert (length cs = 1) (Inr (names_written W (hd cs))))"

fun checkIfMemUseWriteReg :: "'z bctx \<Rightarrow> u32 set \<Rightarrow> topnd list \<Rightarrow> bool res" where
  "checkIfMemUseWriteReg C W [] = Inr False"
| "checkIfMemUseWriteReg C W (Q # Qs) =
     rbind (if readsMemory (to_op Q) then cell_names_written C W Q else Inr False) (\<lambda>b.
     if b then Inr True
     else rbind (if writesMemory (to_op Q) then cell_names_written C W Q else Inr False) (\<lambda>b.
          if b then Inr True else checkIfMemUseWriteReg C W Qs))"

definition checkIfImplicitMemUseWriteReg :: "'z bctx \<Rightarrow> u32 set \<Rightarrow> dinstr \<Rightarrow> bool" where
  "checkIfImplicitMemUseWriteReg C W I \<longleftrightarrow> (\<exists>it \<in> set (bc_imp_rd C (di_instr I)) \<union> set (bc_imp_wr C (di_instr I)). names_written W it)"

text \<open>An instruction relative to the instruction pointer is preceded by one that loads r15 with what that would be.\<close>

definition page_insn :: "hypervisor \<Rightarrow> 'z thin \<Rightarrow> dinstr \<Rightarrow> block \<Rightarrow> block res" where
  "page_insn V T I B =
     (let a = bl_addr B; ph = phys (m_MEM (t_vm T)); sz = in_size (di_instr I)
      in if x86_rip \<in> set (di_isRead I)
         then rbind (put_page (InsertInsnUpdateR15 (a + sz)) B) (\<lambda>B.
              rbind (RewRIPInsn V (code_bytes ph a 12) I) (\<lambda>bs. put_page bs B))
         else put_page (code_bytes ph a (unat sz)) B)"

text \<open>
  Before an instruction whose address may depend on what the block does, the page calls back: it keeps the
  place on the page in r15 and jumps out.
\<close>

definition page_callback :: "'z bctx \<Rightarrow> 'z thin \<Rightarrow> dinstr \<Rightarrow> block \<Rightarrow> block res" where
  "page_callback C T I B =
     rbind (put_page Lea_RIP_Insn B) (\<lambda>B.
     let B = B\<lparr>bl_map := (bl_map B)(bc_page C + of_nat (length (bl_page B)) \<mapsto> bl_addr B)\<rparr>
     in rbind (put_page (Jmp_RIP_Insn @ word_bytes (bc_fun C + 0x73)) B) (\<lambda>B.
        put_page (code_bytes (phys (m_MEM (t_vm T))) (bl_addr B) (unat (in_size (di_instr I)))) B))"

definition page_or_stop :: "'z bctx \<Rightarrow> 'z thin \<Rightarrow> dinstr \<Rightarrow> block \<Rightarrow> ('z thin \<times> block \<times> patch_end option) res" where
  "page_or_stop C T I B =
     rbind (hasSymOperand (tc_X (bc_K C)) (t_vm T) I) (\<lambda>(vm, I, shouldSymExe).
     let T = cache_insn (bl_addr B) I (T\<lparr>t_vm := vm\<rparr>)
     in if shouldSymExe then Inr (T, B, Some symbolic_insn)
        else rbind (page_insn (tc_hv (bc_K C)) T I B) (\<lambda>B. Inr (T, B, None)))"

definition patch_insn :: "'z bctx \<Rightarrow> 'z thin \<Rightarrow> dinstr \<Rightarrow> block \<Rightarrow> ('z thin \<times> block \<times> patch_end option) res" where
  "patch_insn C T I B =
     (if di_cat I \<noteq> c_OtherInsn then Inr (T, B, Some control_insn)
      else if bl_regs B \<noteq> {} \<and> (bc_reads C (di_instr I) \<or> bc_writes C (di_instr I))
      then rbind (checkIfMemUseWriteReg C (bl_regs B) (di_ops I)) (\<lambda>b.
           if b \<or> checkIfImplicitMemUseWriteReg C (bl_regs B) I
           then rbind (page_callback C T I B) (\<lambda>B. Inr (T, B, None))
           else page_or_stop C T I B)
      else page_or_stop C T I B)"

fun patch_loop :: "nat \<Rightarrow> 'z bctx \<Rightarrow> 'z thin \<Rightarrow> block \<Rightarrow> ('z thin \<times> block \<times> patch_end) res" where
  "patch_loop 0 C T B = Inl Diverges"
| "patch_loop (Suc n) C T B =
     rbind (fetch_insn (bc_K C) T (bl_addr B)) (\<lambda>(T, I).
     let B = B\<lparr>bl_flag := bl_flag B \<or> isFlagChangingInstr (tc_N (bc_K C)) (di_id I)\<rparr>
     in if x86_r15 \<in> set (di_isRead I) \<or> x86_r15 \<in> set (di_isWritten I) then Inr (T, B, r15_insn)
        else rbind (patch_insn C T I B) (\<lambda>(T, B, e).
             case e of Some e \<Rightarrow> Inr (T, B, e)
             | None \<Rightarrow> patch_loop n C T (B\<lparr>bl_regs := bl_regs B \<union> set (bc_writeSet C (di_instr I)),
                 bl_addr := bl_addr B + in_size (di_instr I)\<rparr>)))"

section \<open>Running it\<close>

text \<open>The assembly: all registers but r15 are loaded and stored. What is found in the word of the callback is nop_bytes at the end.\<close>

definition BlockExecRIP :: "'z bctx \<Rightarrow> u8 list \<Rightarrow> u64 \<Rightarrow> VMState \<Rightarrow> (VMState \<times> u64) res" where
  "BlockExecRIP C page start vm =
     rbind (load_context gpr_slots (m_ArrRegs (m_CPU vm))) (\<lambda>mc.
     rbind (bc_host C page start (mc, phys (m_MEM vm))) (\<lambda>(mc, ph, left).
     Inr (vm\<lparr>m_CPU := (m_CPU vm)\<lparr>m_ArrRegs := save_context gpr_slots mc (m_ArrRegs (m_CPU vm))\<rparr>,
            m_MEM := (m_MEM vm)\<lparr>phys := ph\<rparr>\<rparr>,
          case left of None \<Rightarrow> nop_bytes | Some r15 \<Rightarrow> r15)))"

text \<open>The answer of a callback overwrites what the copy found out about the instruction after the block.\<close>

fun run_block ::
  "nat \<Rightarrow> 'z bctx \<Rightarrow> u8 list \<Rightarrow> (u64 \<rightharpoonup> u64) \<Rightarrow> u64 \<Rightarrow> u64 \<Rightarrow> bool \<Rightarrow> 'z thin \<Rightarrow> ('z thin \<times> u64 \<times> bool) res" where
  "run_block 0 C page m start crtAddr shouldSymExe T = Inl Diverges"
| "run_block (Suc n) C page m start crtAddr shouldSymExe T =
     rbind (BlockExecRIP C page start (t_vm T)) (\<lambda>(vm, saved_rip).
     if saved_rip \<noteq> nop_bytes
     then let a = (case m saved_rip of Some a \<Rightarrow> a | None \<Rightarrow> 0)
          in rassert (a \<noteq> 0) (
             rbind (set_pt_reg RIP_PTRIDX a vm) (\<lambda>vm.
             case m_InsnCache T (insn_index a) of None \<Rightarrow> Inl AssertFail
             | Some I \<Rightarrow> rbind (hasSymOperand (tc_X (bc_K C)) vm I) (\<lambda>(vm, I, b).
                 let T = cache_insn a I (T\<lparr>t_vm := vm\<rparr>)
                 in if b then Inr (T, a, True) else run_block n C page m (saved_rip + 14) crtAddr False T)))
     else rbind (set_pt_reg RIP_PTRIDX crtAddr vm) (\<lambda>vm. Inr (T\<lparr>t_vm := vm\<rparr>, crtAddr, shouldSymExe)))"

text \<open>
  An instruction with r15 ends the copy, is run on its own, and the copy goes on behind it, also when the
  page was left before its end because of a symbol.
\<close>

definition skip_ip :: "dinstr \<Rightarrow> VMState \<Rightarrow> VMState res" where
  "skip_ip I vm = rbind (pt_reg RIP_PTRIDX vm) (\<lambda>ip. set_pt_reg RIP_PTRIDX (ip + in_size (di_instr I)) vm)"

fun block_loop :: "nat \<Rightarrow> 'z bctx \<Rightarrow> 'z thin \<Rightarrow> block \<Rightarrow> ('z thin \<times> bool) res" where
  "block_loop 0 C T B = Inl Diverges"
| "block_loop (Suc n) C T B =
     rbind (patch_loop (Suc n) C T B) (\<lambda>(T, B, e).
     rbind (put_page (Jmp_RIP_Insn @ word_bytes (bc_fun C + 0x7a)) B) (\<lambda>B.
     rbind (run_block (Suc n) C (bl_page B) (bl_map B) (bc_page C) (bl_addr B) (e = symbolic_insn) T) (\<lambda>(T, crtAddr, shouldSymExe).
     rbind (if bl_flag B then vm_clearAllSymFlag (tc_D (bc_K C)) (t_vm T) else Inr (t_vm T)) (\<lambda>vm.
     if e = r15_insn
     then case m_InsnCache T (insn_index crtAddr) of None \<Rightarrow> Inl AssertFail
          | Some I \<Rightarrow> rbind (skip_ip I vm) (\<lambda>vm.
              rbind (InsnDispatch (tc_host (bc_K C)) (tc_hv (bc_K C)) (t_con T) I vm) (\<lambda>(E, vm).
              rbind (skip_ip I vm) (\<lambda>vm.
              block_loop n C (T\<lparr>t_vm := vm, t_con := E\<rparr>)
                (B\<lparr>bl_page := [], bl_regs := {}, bl_addr := crtAddr + in_size (di_instr I)\<rparr>))))
     else Inr (T\<lparr>t_vm := vm\<rparr>, shouldSymExe)))))"

definition new_block :: "u64 \<Rightarrow> block" where
  "new_block a = \<lparr>bl_page = [], bl_map = Map.empty, bl_regs = {}, bl_flag = False, bl_addr = a\<rparr>"

definition BlockDispatch :: "nat \<Rightarrow> 'z bctx \<Rightarrow> u64 \<Rightarrow> 'z thin \<Rightarrow> ('z thin \<times> bool) res" where
  "BlockDispatch n C S_Addr T =
     block_loop n C T (new_block S_Addr)"

section \<open>What the copy looks at\<close>

text \<open>The question for symbols changes the map of cells of the machine and the values bound to an instruction, nothing else.\<close>

definition same_words :: "VMState \<Rightarrow> VMState \<Rightarrow> bool" where
  "same_words vm vm' \<longleftrightarrow> m_CPU vm' = m_CPU vm \<and> m_MEM vm' = m_MEM vm"

lemma same_words_refl [simp]: "same_words vm vm" by (simp add: same_words_def)

lemma same_words_trans: "same_words a b \<Longrightarrow> same_words b c \<Longrightarrow> same_words a c" by (simp add: same_words_def)

lemma read_same_words: "vm_readRegister D vm V = Inr (vm', V', r) \<Longrightarrow> same_words vm vm'"
  by (auto simp: vm_readRegister_def same_words_def rbind_eq_Inr_iff)

lemma visit_same_words: "visit_regs X vm rs env = Inr (vm', env') \<Longrightarrow> same_words vm vm'"
proof (induction X vm rs env rule: visit_regs.induct)
  case (2 X vm i sz rs env)
  then obtain vm1 V where "vm_readRegister (cx_D X) vm (plain_reg i sz False) = Inr (vm1, V, True)"
    "visit_regs X vm1 rs (if rv_bsym V then env else bind_reg i sz (rv_i64 V) env) = Inr (vm', env')"
    by (auto simp: rbind_eq_Inr_iff rassert_eq_Inr_iff)
  then show ?case using "2.IH" read_same_words same_words_trans by blast
qed simp

lemma ref_same_words: "ref_symbolic X vm g R env = Inr (vm', env', b) \<Longrightarrow> same_words vm vm'"
  by (auto simp: ref_symbolic_def rbind_eq_Inr_iff dest: visit_same_words)

lemma refs_same_words: "refs_symbolic X vm g Rs env = Inr (vm', env', b) \<Longrightarrow> same_words vm vm'"
proof (induction X vm g Rs env rule: refs_symbolic.induct)
  case (2 X vm g R Rs env)
  then obtain vm1 e1 b1 where r: "ref_symbolic X vm g R env = Inr (vm1, e1, b1)"
    "(if b1 then Inr (vm1, e1, True) else refs_symbolic X vm1 g Rs e1) = Inr (vm', env', b)"
    by (auto simp: rbind_eq_Inr_iff)
  note w = ref_same_words [OF r(1)]
  show ?case
  proof (cases b1)
    case True
    then show ?thesis using r(2) w by simp
  next
    case False
    then have "same_words vm1 vm'" using r "2.IH" by (simp add: rbind_eq_Inr_iff)
    then show ?thesis using w same_words_trans by blast
  qed
qed simp

lemma gs_of_same_words: "gs_base_of X vm is = Inr (vm', g) \<Longrightarrow> same_words vm vm'"
  by (induction X vm "is" rule: gs_base_of.induct)
    (auto simp: rbind_eq_Inr_iff rassert_eq_Inr_iff dest: read_same_words split: if_splits)

lemma gs_same_words: "thin_isUseGS X vm I = Inr (vm', g) \<Longrightarrow> same_words vm vm'"
  by (simp add: thin_isUseGS_def gs_of_same_words)

lemma cell_same_words: "OpdhasSymMemCell X vm Q g env = Inr (vm', env', b) \<Longrightarrow> same_words vm vm'"
  by (auto simp: OpdhasSymMemCell_def rbind_eq_Inr_iff rassert_eq_Inr_iff split: if_splits
      dest!: ref_same_words intro: same_words_trans)

lemma operands_same_words: "operands_symbolic X vm I Qs env = Inr (vm', env', b) \<Longrightarrow> same_words vm vm'"
proof (induction X vm I Qs env rule: operands_symbolic.induct)
  case (2 X vm I Q Qs env)
  then obtain vm1 e1 b1 where r: "(if \<not> readsMemory (to_op Q) \<and> \<not> writesMemory (to_op Q)
      then rbind (OpdhasSymReg X vm (to_op Q)) (\<lambda>b. Inr (vm, env, b))
      else rbind (thin_isUseGS X vm I) (\<lambda>(vm, gs_base). OpdhasSymMemCell X vm Q gs_base env)) = Inr (vm1, e1, b1)"
    "(if b1 then Inr (vm1, e1, True) else operands_symbolic X vm1 I Qs e1) = Inr (vm', env', b)"
    by (auto simp: rbind_eq_Inr_iff simp del: if_split_asm)
  have "same_words vm vm1"
    using r(1) by (auto simp: rbind_eq_Inr_iff split: if_splits dest!: gs_same_words cell_same_words intro: same_words_trans)
  moreover have "same_words vm1 vm'" using r "2.IH" by (cases b1) (auto simp: rbind_eq_Inr_iff)
  ultimately show ?case by (rule same_words_trans)
qed simp

lemma hasSymOperand_words:
  assumes "hasSymOperand X vm I = Inr (vm', I', b)"
  shows "same_words vm vm'" "di_instr I' = di_instr I"
proof -
  obtain v1 e1 b1 env where r: "operands_symbolic X vm I (di_ops I) (di_bound I) = Inr (v1, e1, b1)"
    "(if b1 then Inr (v1, e1, True) else checkImplicitMemAccess X v1 I e1) = Inr (vm', env, b)" "I' = I\<lparr>di_bound := env\<rparr>"
    using assms by (auto simp: hasSymOperand_def rbind_eq_Inr_iff)
  have "same_words v1 vm'"
    using r(2) same_words_trans
    by (auto simp: checkImplicitMemAccess_def rbind_eq_Inr_iff split: if_splits dest!: refs_same_words intro: same_words_trans)
  then show "same_words vm vm'" using operands_same_words [OF r(1)] same_words_trans by blast
  show "di_instr I' = di_instr I" using r(3) by simp
qed
section \<open>Callbacks\<close>

text \<open>Where on a page an address of the code is: behind the instruction that loads r15, a jump to the callback and the instruction itself.\<close>

definition callback_at :: "'z bctx \<Rightarrow> (u64 \<Rightarrow> u8) \<Rightarrow> u8 list \<Rightarrow> u64 \<Rightarrow> u64 \<Rightarrow> dinstr \<Rightarrow> bool" where
  "callback_at C ph page k a I \<longleftrightarrow>
     (\<exists>pre post. page = pre @ Lea_RIP_Insn @ Jmp_RIP_Insn @ word_bytes (bc_fun C + 0x73) @
        code_bytes ph a (unat (in_size (di_instr I))) @ post \<and> k = bc_page C + of_nat (7 + length pre))"

definition callbacks_ok :: "'z bctx \<Rightarrow> (u64 \<Rightarrow> u8) \<Rightarrow> (u32 \<rightharpoonup> dinstr) \<Rightarrow> block \<Rightarrow> bool" where
  "callbacks_ok C ph c B \<longleftrightarrow>
     (\<forall>k a. bl_map B k = Some a \<longrightarrow> (\<exists>I. c (insn_index a) = Some I \<and> callback_at C ph (bl_page B) k a I))"

text \<open>An entry of the cache keeps its instruction, up to the values bound to registers.\<close>

definition cache_grows :: "(u32 \<rightharpoonup> dinstr) \<Rightarrow> (u32 \<rightharpoonup> dinstr) \<Rightarrow> bool" where
  "cache_grows c c' \<longleftrightarrow> (\<forall>i I. c i = Some I \<longrightarrow> (\<exists>I'. c' i = Some I' \<and> di_instr I' = di_instr I))"

lemma cache_grows_refl: "cache_grows c c" by (simp add: cache_grows_def)

lemma cache_grows_insn:
  assumes "m_InsnCache T (insn_index a) = Some I" "di_instr I' = di_instr I"
  shows "cache_grows (m_InsnCache T) (m_InsnCache (cache_insn a I' T))"
  using assms by (simp add: cache_grows_def cache_insn_def)

lemma fetch_cached:
  assumes "fetch_insn K T a = Inr (T', I)"
  shows "cache_grows (m_InsnCache T) (m_InsnCache T')" "m_InsnCache T' (insn_index a) = Some I" "t_vm T' = t_vm T"
  using assms by (auto simp: fetch_insn_def cache_insn_def cache_grows_def rbind_eq_Inr_iff split: option.splits)

lemma callback_at_size: "di_instr I' = di_instr I \<Longrightarrow> callback_at C ph page k a I' = callback_at C ph page k a I"
  by (simp add: callback_at_def)

lemma callback_at_append: "callback_at C ph page k a I \<Longrightarrow> callback_at C ph (page @ bs) k a I"
  unfolding callback_at_def by (elim exE conjE) (metis append.assoc)

lemma callbacks_mono:
  assumes "callbacks_ok C ph c B" "cache_grows c c'" "bl_map B' = bl_map B" "bl_page B' = bl_page B @ bs"
  shows "callbacks_ok C ph c' B'"
  unfolding callbacks_ok_def
proof (intro allI impI)
  fix k a assume "bl_map B' k = Some a"
  then obtain I where I: "c (insn_index a) = Some I" "callback_at C ph (bl_page B) k a I"
    using assms(1,3) unfolding callbacks_ok_def by metis
  then obtain I' where "c' (insn_index a) = Some I'" "di_instr I' = di_instr I" using assms(2) unfolding cache_grows_def by blast
  then show "\<exists>I. c' (insn_index a) = Some I \<and> callback_at C ph (bl_page B') k a I"
    using callback_at_append [OF I(2)] assms(4) callback_at_size by metis
qed

lemma put_page_eq: "put_page bs B = Inr B' \<Longrightarrow> B' = B\<lparr>bl_page := bl_page B @ bs\<rparr>"
  by (simp add: put_page_def split: if_splits)

lemma page_insn_puts: "page_insn V T I B = Inr B' \<Longrightarrow> \<exists>bs. B' = B\<lparr>bl_page := bl_page B @ bs\<rparr>"
  by (auto simp: page_insn_def Let_def rbind_eq_Inr_iff split: if_splits dest!: put_page_eq)

lemma page_callback_ok:
  assumes "page_callback C T I B = Inr B'" "m_InsnCache T (insn_index (bl_addr B)) = Some I"
    and "callbacks_ok C (phys (m_MEM (t_vm T))) (m_InsnCache T) B"
  shows "callbacks_ok C (phys (m_MEM (t_vm T))) (m_InsnCache T) B'"
proof -
  let ?ph = "phys (m_MEM (t_vm T))" and ?k = "bc_page C + of_nat (7 + length (bl_page B))"
  let ?bs = "Lea_RIP_Insn @ Jmp_RIP_Insn @ word_bytes (bc_fun C + 0x73) @ code_bytes ?ph (bl_addr B) (unat (in_size (di_instr I)))"
  have B': "B' = B\<lparr>bl_map := (bl_map B)(?k \<mapsto> bl_addr B), bl_page := bl_page B @ ?bs\<rparr>"
    using assms(1) by (auto simp: page_callback_def Let_def rbind_eq_Inr_iff Lea_RIP_Insn_def dest!: put_page_eq)
  have c: "callback_at C ?ph (bl_page B @ ?bs) ?k (bl_addr B) I"
    unfolding callback_at_def by (intro exI [of _ "bl_page B"] exI [of _ "[]"]) simp
  have "callbacks_ok C ?ph (m_InsnCache T) (B\<lparr>bl_page := bl_page B @ ?bs\<rparr>)"
    by (rule callbacks_mono [OF assms(3) cache_grows_refl]) simp_all
  then show ?thesis using B' c assms(2) by (simp add: callbacks_ok_def)
qed

lemma page_or_stop_ok:
  assumes "page_or_stop C T I B = Inr (T', B', e)" "m_InsnCache T (insn_index (bl_addr B)) = Some I"
    and "callbacks_ok C (phys (m_MEM (t_vm T))) (m_InsnCache T) B"
  shows "callbacks_ok C (phys (m_MEM (t_vm T))) (m_InsnCache T') B' \<and> same_words (t_vm T) (t_vm T')"
proof -
  obtain vm I' b where h: "hasSymOperand (tc_X (bc_K C)) (t_vm T) I = Inr (vm, I', b)"
    using assms(1) by (auto simp: page_or_stop_def rbind_eq_Inr_iff)
  let ?T = "cache_insn (bl_addr B) I' (T\<lparr>t_vm := vm\<rparr>)"
  have r: "(if b then Inr (?T, B, Some symbolic_insn) else rbind (page_insn (tc_hv (bc_K C)) ?T I' B) (\<lambda>B. Inr (?T, B, None))) = Inr (T', B', e)"
    using assms(1) h by (simp add: page_or_stop_def Let_def)
  have T': "T' = ?T" using r by (auto simp: rbind_eq_Inr_iff split: if_splits)
  obtain bs where "B' = B\<lparr>bl_page := bl_page B @ bs\<rparr>"
  proof (cases b)
    case True
    then have "B' = B\<lparr>bl_page := bl_page B @ []\<rparr>" using r by simp
    then show ?thesis by (rule that)
  next
    case False
    then have "page_insn (tc_hv (bc_K C)) ?T I' B = Inr B'" using r by (auto simp: rbind_eq_Inr_iff)
    then show ?thesis using page_insn_puts that by blast
  qed
  then have "callbacks_ok C (phys (m_MEM (t_vm T))) (m_InsnCache T') B'"
    using cache_grows_insn [of T "bl_addr B" I I'] assms(2) hasSymOperand_words(2) [OF h] T'
    by (intro callbacks_mono [OF assms(3)]) (simp_all add: cache_insn_def)
  then show ?thesis using hasSymOperand_words(1) [OF h] T' by (simp add: cache_insn_def)
qed

lemma patch_insn_ok:
  assumes "patch_insn C T I B = Inr (T', B', e)" "m_InsnCache T (insn_index (bl_addr B)) = Some I"
    and "callbacks_ok C (phys (m_MEM (t_vm T))) (m_InsnCache T) B"
  shows "callbacks_ok C (phys (m_MEM (t_vm T))) (m_InsnCache T') B' \<and> same_words (t_vm T) (t_vm T')"
  using assms(1) page_or_stop_ok [OF _ assms(2,3)] page_callback_ok [OF _ assms(2,3)] assms(3)
  by (auto simp: patch_insn_def rbind_eq_Inr_iff split: if_splits)

lemma patch_loop_ok:
  assumes "patch_loop n C T B = Inr (T', B', e)" "callbacks_ok C (phys (m_MEM (t_vm T))) (m_InsnCache T) B"
  shows "callbacks_ok C (phys (m_MEM (t_vm T))) (m_InsnCache T') B' \<and> same_words (t_vm T) (t_vm T')"
  using assms
proof (induction n arbitrary: T B)
  case 0
  then show ?case by simp
next
  case (Suc n)
  obtain T1 I where f: "fetch_insn (bc_K C) T (bl_addr B) = Inr (T1, I)" using Suc.prems(1) by (auto simp: rbind_eq_Inr_iff)
  note c = fetch_cached [OF f]
  let ?B = "B\<lparr>bl_flag := bl_flag B \<or> isFlagChangingInstr (tc_N (bc_K C)) (di_id I)\<rparr>"
  have i: "callbacks_ok C (phys (m_MEM (t_vm T1))) (m_InsnCache T1) ?B"
    using callbacks_mono [OF Suc.prems(2) c(1), of ?B "[]"] c(3) by simp
  show ?case
  proof (cases "x86_r15 \<in> set (di_isRead I) \<or> x86_r15 \<in> set (di_isWritten I)")
    case True
    then show ?thesis using Suc.prems(1) f i c(3) by (simp add: Let_def)
  next
    case False
    obtain T2 B2 e2 where p: "patch_insn C T1 I ?B = Inr (T2, B2, e2)"
      and r: "(case e2 of Some e \<Rightarrow> Inr (T2, B2, e) | None \<Rightarrow> patch_loop n C T2 (B2\<lparr>bl_regs := bl_regs B2 \<union> set (bc_writeSet C (di_instr I)),
                 bl_addr := bl_addr B2 + in_size (di_instr I)\<rparr>)) = Inr (T', B', e)"
      using Suc.prems(1) f False by (auto simp: Let_def rbind_eq_Inr_iff)
    have k: "callbacks_ok C (phys (m_MEM (t_vm T))) (m_InsnCache T2) B2 \<and> same_words (t_vm T) (t_vm T2)"
      using patch_insn_ok [OF p _ i] c(2,3) by simp
    show ?thesis
    proof (cases e2)
      case (Some e')
      then show ?thesis using r k by simp
    next
      case None
      let ?B2 = "B2\<lparr>bl_regs := bl_regs B2 \<union> set (bc_writeSet C (di_instr I)), bl_addr := bl_addr B2 + in_size (di_instr I)\<rparr>"
      have "callbacks_ok C (phys (m_MEM (t_vm T2))) (m_InsnCache T2) ?B2" using k by (simp add: callbacks_ok_def same_words_def)
      then show ?thesis using Suc.IH [of T2 ?B2] r None k by (auto simp: same_words_def)
    qed
  qed
qed

section \<open>A block in one go\<close>

text \<open>
  A block the copy takes whole: steps of the bare machine from instructions that are no transfers, leave
  r15 alone, are where and what they were at the start of the block, can be judged by the registers of the start, and access memory
  only while no register was written. The list holds the bytes of each.
\<close>

inductive plain_block :: "'z bctx \<Rightarrow> native \<Rightarrow> u32 set \<Rightarrow> native \<Rightarrow> u8 list list \<Rightarrow> native \<Rightarrow> bool" for C s0 where
  block_end: "plain_block C s0 W s [] s"
| block_insn: "native_step (bc_K C) s True s1 \<Longrightarrow> at_insn (bc_K C) s I \<Longrightarrow> \<not> di_nop I \<Longrightarrow> di_cat I = c_OtherInsn \<Longrightarrow>
     x86_r15 \<notin> set (di_isRead I) \<union> set (di_isWritten I) \<Longrightarrow> W = {} \<or> \<not> bc_reads C (di_instr I) \<and> \<not> bc_writes C (di_instr I) \<Longrightarrow>
     insn_at (tc_D (bc_K C)) (fst s0) I \<Longrightarrow> tc_decode (bc_K C) (snd s0) (fst s ! RIP_PTRIDX) = I \<Longrightarrow>
     bs = code_bytes (snd s) (fst s ! RIP_PTRIDX) (unat (in_size (di_instr I))) \<Longrightarrow>
     bs = code_bytes (snd s0) (fst s ! RIP_PTRIDX) (unat (in_size (di_instr I))) \<Longrightarrow>
     plain_block C s0 (W \<union> set (bc_writeSet C (di_instr I))) s1 bss s' \<Longrightarrow> plain_block C s0 W s (bs # bss) s'"

text \<open>
  Of the processor: an instruction that leaves r15 alone does the same whatever r15 holds, and keeps it and whatever no word of
  pt_regs holds; and a page of such instructions, one behind the other and a jump to the end of the assembly behind them, does what they
  do one by one.
\<close>

definition set_r15 :: "u64 \<Rightarrow> mach \<Rightarrow> mach" where
  "set_r15 v m = m\<lparr>mc_reg := (mc_reg m)(x86_r15 := v)\<rparr>"

definition frames_r15 :: "host \<Rightarrow> u8 list \<Rightarrow> bool" where
  "frames_r15 H bs \<longleftrightarrow> (\<forall>m ph m' ph'. H (copy_insn bs NopBytes) (m, ph) = Inr (m', ph') \<longrightarrow>
     (\<forall>r. r \<notin> fst ` set gpr_slots \<longrightarrow> mc_reg m' r = mc_reg m r) \<and>
     (\<forall>v. H (copy_insn bs NopBytes) (set_r15 v m, ph) = Inr (set_r15 v m', ph')))"

fun one_by_one :: "host \<Rightarrow> u8 list list \<Rightarrow> mach \<times> (u64 \<Rightarrow> u8) \<Rightarrow> (mach \<times> (u64 \<Rightarrow> u8)) res" where
  "one_by_one H [] s = Inr s"
| "one_by_one H (bs # bss) s = rbind (H (copy_insn bs NopBytes) s) (one_by_one H bss)"

definition runs_page :: "'z bctx \<Rightarrow> u8 list list \<Rightarrow> bool" where
  "runs_page C bss \<longleftrightarrow> (\<forall>bs \<in> set bss. frames_r15 (tc_host (bc_K C)) bs) \<and>
     (\<forall>s m ph. one_by_one (tc_host (bc_K C)) bss s = Inr (m, ph) \<longrightarrow>
        bc_host C (concat bss @ Jmp_RIP_Insn @ word_bytes (bc_fun C + 0x7a)) (bc_page C) s = Inr (m, ph, None))"

lemma native_otherD:
  assumes "native_step K s True s'" "at_insn K s I" "di_cat I = c_OtherInsn" "\<not> di_nop I"
  shows "InsnExecNonRIP (tc_host K) (copy_insn (code_bytes (snd s) (fst s ! RIP_PTRIDX) (unat (in_size (di_instr I)))) NopBytes)
      (next_ip (fst s) I) (snd s) = Inr s' \<and> code_kept K (snd s) (snd s') \<and> x86_rip \<notin> set (di_isRead I)"
  by (rule native_stepE [OF assms(1)]) (use assms(2-4) in \<open>auto simp: at_insn_def\<close>)

text \<open>One instruction, seen from a processor that never held r15.\<close>

lemma slots_distinct: "distinct (map fst gpr_slots)" "distinct (map snd gpr_slots)" "x86_r15 \<notin> fst ` set gpr_slots"
  by (simp_all add: gpr_slots_def)

lemma loaded: "length regs = 32 \<Longrightarrow> load_context slots regs =
    Inr \<lparr>mc_reg = (\<lambda>r. case map_of slots r of Some i \<Rightarrow> regs ! i | None \<Rightarrow> 0), mc_flags = regs ! 18\<rparr>"
  by (simp add: load_context_def)

lemma saved_gpr:
  assumes "(r, i) \<in> set gpr_slots" "length regs = 32"
  shows "save_context ((x86_r15, 0) # gpr_slots) m regs ! i = mc_reg m r" "save_context gpr_slots m regs ! i = mc_reg m r"
proof -
  have "i \<in> snd ` set gpr_slots" using assms(1) by (rule image_eqI [rotated]) simp
  then have i: "i < 32" "i \<noteq> 18" by (auto simp: gpr_indices)
  have d: "distinct (map snd ((x86_r15, 0) # gpr_slots))" by (simp add: gpr_slots_def)
  show "save_context ((x86_r15, 0) # gpr_slots) m regs ! i = mc_reg m r"
    using store_regs_at [OF d, of r i regs m] assms i by (simp add: save_context_def)
  show "save_context gpr_slots m regs ! i = mc_reg m r"
    using store_regs_at [OF slots_distinct(2), of r i regs m] assms i by (simp add: save_context_def)
qed

lemma saved_flags: "length regs = 32 \<Longrightarrow> save_context slots m regs ! 18 = mc_flags m"
  by (simp add: save_context_def store_regs_frame)

lemma one_insn:
  assumes "InsnExecNonRIP H (copy_insn bs NopBytes) (next_ip regs I) ph = Inr (regs', ph')" "length regs = 32" "frames_r15 H bs"
    and "load_context gpr_slots regs = Inr mc"
  obtains mc' where "H (copy_insn bs NopBytes) (mc, ph) = Inr (mc', ph')" "load_context gpr_slots regs' = Inr mc'"
    "length regs' = 32" "\<forall>i. i \<noteq> 16 \<and> i \<notin> insert 18 (snd ` set gpr_slots) \<longrightarrow> regs' ! i = regs ! i"
    "regs' ! 16 = next_ip regs I ! 16"
proof -
  let ?slots = "(x86_r15, 0) # gpr_slots" and ?r = "next_ip regs I"
  have l: "length ?r = 32" using assms(2) by (simp add: next_ip_def)
  have w: "?r ! i = regs ! i" if "i \<noteq> 16" for i using that by (simp add: next_ip_def RIP_PTRIDX_def)
  obtain m' where m': "H (copy_insn bs NopBytes) (\<lparr>mc_reg = (\<lambda>r. case map_of ?slots r of Some i \<Rightarrow> ?r ! i | None \<Rightarrow> 0), mc_flags = ?r ! 18\<rparr>, ph) =
      Inr (m', ph')" "regs' = save_context ?slots m' ?r"
    using assms(1) unfolding InsnExecNonRIP_def loaded [OF l] rbind_eq_Inr_iff by (auto simp del: map_of.simps)
  have g: "i \<noteq> 16" if "map_of gpr_slots r = Some i" for r i
  proof -
    have "i \<in> snd ` set gpr_slots" using map_of_SomeD [OF that] by (rule image_eqI [rotated]) simp
    then show ?thesis by (auto simp: gpr_indices)
  qed
  have n: "map_of gpr_slots x86_r15 = None" using slots_distinct(3) by (simp add: map_of_eq_None_iff)
  have mc: "set_r15 0 \<lparr>mc_reg = (\<lambda>r. case map_of ?slots r of Some i \<Rightarrow> ?r ! i | None \<Rightarrow> 0), mc_flags = ?r ! 18\<rparr> = mc"
    using assms(2,4) by (auto simp: loaded set_r15_def fun_eq_iff n w g split: option.split)
  have k: "mc_reg m' r = (case map_of ?slots r of Some i \<Rightarrow> ?r ! i | None \<Rightarrow> 0)" if "r \<notin> fst ` set gpr_slots" for r
    using assms(3) m'(1) that unfolding frames_r15_def by fastforce
  have h: "H (copy_insn bs NopBytes) (mc, ph) = Inr (set_r15 0 m', ph')"
    using assms(3) m'(1) mc unfolding frames_r15_def by metis
  have l': "length regs' = 32" using m'(2) l by (simp add: save_context_frame)
  have "load_context gpr_slots regs' = Inr (set_r15 0 m')"
  proof -
    have "(case map_of gpr_slots r of Some i \<Rightarrow> regs' ! i | None \<Rightarrow> 0) = mc_reg (set_r15 0 m') r" for r
    proof (cases "map_of gpr_slots r")
      case None
      then have "r \<notin> fst ` set gpr_slots" by (simp add: map_of_eq_None_iff)
      then show ?thesis using None k [of r] by (simp add: set_r15_def)
    next
      case (Some i)
      then have i: "(r, i) \<in> set gpr_slots" by (rule map_of_SomeD)
      then have "r \<noteq> x86_r15" using slots_distinct(3) by force
      then show ?thesis using Some saved_gpr(1) [OF i l] m'(2) by (simp add: set_r15_def)
    qed
    moreover have "regs' ! 18 = mc_flags (set_r15 0 m')" using m'(2) saved_flags [OF l] by (simp add: set_r15_def)
    ultimately show ?thesis unfolding loaded [OF l'] by (intro arg_cong [where f = Inr] mach.equality) auto
  qed
  moreover have "regs' ! i = regs ! i" if "i \<noteq> 16 \<and> i \<notin> insert 18 (snd ` set gpr_slots)" for i
  proof (cases "i = 0")
    case True
    have "mc_reg m' x86_r15 = ?r ! 0" using k [OF slots_distinct(3)] by simp
    moreover have "regs' ! 0 = mc_reg m' x86_r15"
    proof -
      have d: "distinct (map snd ?slots)" by (simp add: gpr_slots_def)
      show ?thesis using store_regs_at [OF d, of x86_r15 0 ?r m'] l m'(2) by (simp add: save_context_def)
    qed
    ultimately show ?thesis using True w by simp
  next
    case False
    then have "i \<notin> insert 18 (snd ` set ?slots)" using that by simp
    then show ?thesis using save_context_frame(2) [of i ?slots m' ?r] m'(2) w that by simp
  qed
  moreover have "regs' ! 16 = ?r ! 16"
    using save_context_frame(2) [of 16 ?slots m' ?r] m'(2) by (simp add: gpr_indices)
  ultimately show ?thesis using that [OF h] l' by blast
qed

text \<open>The machine that went through the block has the registers the page leaves, and the instruction pointer behind it.\<close>

lemma plain_block_runs:
  assumes "plain_block C s0 W s bss s'" "\<forall>bs \<in> set bss. frames_r15 (tc_host (bc_K C)) bs" "length (fst s) = 32"
    and "load_context gpr_slots (fst s) = Inr mc"
  shows "\<exists>mc'. one_by_one (tc_host (bc_K C)) bss (mc, snd s) = Inr (mc', snd s') \<and>
    fst s' = (save_context gpr_slots mc' (fst s))[RIP_PTRIDX := fst s' ! RIP_PTRIDX] \<and> code_kept (bc_K C) (snd s) (snd s')"
  using assms
proof (induction arbitrary: mc rule: plain_block.induct)
  case (block_end W s)
  have "save_context gpr_slots mc (fst s) = fst s"
    by (rule slots_roundtrip [OF block_end(3) slots_distinct(1,2)]) (auto simp: gpr_indices)
  then show ?case by (simp add: code_kept_refl)
next
  case (block_insn s s1 I W bs bss s')
  note nat = native_otherD [OF block_insn(1,2,4,3)]
  obtain r1 p1 where s1: "s1 = (r1, p1)" by (cases s1)
  have x: "InsnExecNonRIP (tc_host (bc_K C)) (copy_insn bs NopBytes) (next_ip (fst s) I) (snd s) = Inr (r1, p1)"
    using nat block_insn(9) s1 by simp
  have fr: "frames_r15 (tc_host (bc_K C)) bs" using block_insn.prems(1) by simp
  obtain m1 where m1: "tc_host (bc_K C) (copy_insn bs NopBytes) (mc, snd s) = Inr (m1, p1)" "load_context gpr_slots r1 = Inr m1"
    "length r1 = 32" "\<forall>i. i \<noteq> 16 \<and> i \<notin> insert 18 (snd ` set gpr_slots) \<longrightarrow> r1 ! i = fst s ! i"
    by (rule one_insn [OF x block_insn.prems(2) fr block_insn.prems(3)])
  obtain mc' where mc': "one_by_one (tc_host (bc_K C)) bss (m1, snd s1) = Inr (mc', snd s')"
    "fst s' = (save_context gpr_slots mc' (fst s1))[RIP_PTRIDX := fst s' ! RIP_PTRIDX]" "code_kept (bc_K C) (snd s1) (snd s')"
    using block_insn.IH [of m1] block_insn.prems(1) m1(2,3) s1 by auto
  have "(save_context gpr_slots mc' r1)[RIP_PTRIDX := v] = (save_context gpr_slots mc' (fst s))[RIP_PTRIDX := v]" for v
  proof (rule nth_equalityI)
    show "length ((save_context gpr_slots mc' r1)[RIP_PTRIDX := v]) = length ((save_context gpr_slots mc' (fst s))[RIP_PTRIDX := v])"
      using m1(3) block_insn.prems(2) by (simp add: save_context_frame)
    fix i assume i: "i < length ((save_context gpr_slots mc' r1)[RIP_PTRIDX := v])"
    then have l: "i < 32" using m1(3) by (simp add: save_context_frame)
    consider "i = 16" | "i = 18" | r where "(r, i) \<in> set gpr_slots" | "i \<noteq> 16" "i \<notin> insert 18 (snd ` set gpr_slots)" by force
    then show "(save_context gpr_slots mc' r1)[RIP_PTRIDX := v] ! i = (save_context gpr_slots mc' (fst s))[RIP_PTRIDX := v] ! i"
    proof cases
      case 1
      then show ?thesis using m1(3) block_insn.prems(2) by (simp add: RIP_PTRIDX_def save_context_frame)
    next
      case 2
      then show ?thesis using saved_flags [OF m1(3)] saved_flags [OF block_insn.prems(2)] by (simp add: RIP_PTRIDX_def)
    next
      case 3
      then show ?thesis
        using saved_gpr(2) [OF 3 m1(3)] saved_gpr(2) [OF 3 block_insn.prems(2)] m1(3) block_insn.prems(2)
        by (cases "i = 16") (simp_all add: RIP_PTRIDX_def save_context_frame)
    next
      case 4
      then show ?thesis using m1(4) save_context_frame(2) [OF 4(2)] by (simp add: RIP_PTRIDX_def)
    qed
  qed
  then have "fst s' = (save_context gpr_slots mc' (fst s))[RIP_PTRIDX := fst s' ! RIP_PTRIDX]" using mc'(2) s1 by simp
  moreover have "one_by_one (tc_host (bc_K C)) (bs # bss) (mc, snd s) = Inr (mc', snd s')" using m1(1) mc'(1) s1 by simp
  moreover have "code_kept (bc_K C) (snd s) (snd s')" using nat mc'(3) by (simp add: code_kept_def)
  ultimately show ?case by blast
qed

text \<open>The copy takes the block: its bytes, one instruction behind the other, up to the transfer.\<close>

lemma patch_plain:
  assumes "plain_block C s0 W s bss s'" "runs_as (bc_K C) T s0" "small_region (bc_K C)" "length (fst s) = 32"
    and "at_insn (bc_K C) s' J" "di_cat J \<noteq> c_OtherInsn" "x86_r15 \<notin> set (di_isRead J) \<union> set (di_isWritten J)"
    and "tc_decode (bc_K C) (snd s0) (fst s' ! RIP_PTRIDX) = J" "length (bl_page B) + length (concat bss) \<le> T_page_size" "length bss < n"
    and "bl_regs B = W" "bl_addr B = fst s ! RIP_PTRIDX" "\<forall>bs \<in> set bss. frames_r15 (tc_host (bc_K C)) bs"
  shows "\<exists>T' B'. patch_loop n C T B = Inr (T', B', control_insn) \<and> runs_as (bc_K C) T' s0 \<and>
    bl_page B' = bl_page B @ concat bss \<and> bl_map B' = bl_map B \<and> bl_addr B' = fst s' ! RIP_PTRIDX"
  using assms
proof (induction arbitrary: T B n rule: plain_block.induct)
  case (block_end W s)
  obtain m where n: "n = Suc m" using block_end.prems(9) by (cases n) auto
  obtain T1 env where T1: "fetch_insn (bc_K C) T (bl_addr B) = Inr (T1, J\<lparr>di_bound := env\<rparr>)" "runs_as (bc_K C) T1 s0"
    by (rule fetch_region [OF block_end.prems(1,2), of "bl_addr B" J])
      (use block_end.prems(4,7,11) in \<open>simp_all add: at_insn_def\<close>)
  then show ?case using block_end.prems(5,6,11) n by (simp add: Let_def patch_insn_def)
next
  case (block_insn s s1 I W bs bss s')
  obtain m where n: "n = Suc m" "length bss < m" using block_insn.prems(9) by (cases n) auto
  note nat = native_otherD [OF block_insn(1,2,4,3)]
  have a: "bl_addr B = fst s ! RIP_PTRIDX" "in_region (bc_K C) (bl_addr B)"
    using block_insn.prems(11) block_insn(2) by (simp_all add: at_insn_def)
  have I: "I = tc_decode (bc_K C) (snd s0) (bl_addr B)" using block_insn(8) a(1) by simp
  obtain T1 env where T1: "fetch_insn (bc_K C) T (bl_addr B) = Inr (T1, I\<lparr>di_bound := env\<rparr>)" "runs_as (bc_K C) T1 s0"
    by (rule fetch_region [OF block_insn.prems(1,2) a(2) I])
  have ok: "vm_ok (cx_D (tc_X (bc_K C))) (t_vm T1)" "all_concrete (t_vm T1)" "m_ArrRegs (m_CPU (t_vm T1)) = fst s0" "phys (m_MEM (t_vm T1)) = snd s0"
    using T1(2) by (simp_all add: runs_as_def)
  have at: "insn_at (cx_D (tc_X (bc_K C))) (m_ArrRegs (m_CPU (t_vm T1))) (I\<lparr>di_bound := env\<rparr>)"
    using block_insn(7) ok(3) by (simp add: insn_at_def)
  obtain e2 where h: "hasSymOperand (tc_X (bc_K C)) (t_vm T1) (I\<lparr>di_bound := env\<rparr>) = Inr (t_vm T1, I\<lparr>di_bound := e2\<rparr>, False)"
    using hasSymOperand_concrete [OF ok(1,2) at] by auto
  let ?T = "cache_insn (bl_addr B) (I\<lparr>di_bound := e2\<rparr>) T1"
  have r: "runs_as (bc_K C) ?T s0"
    by (rule runs_as_cache [OF T1(2) block_insn.prems(2) a(2), where env = e2]) (use I in simp)
  let ?B = "B\<lparr>bl_flag := bl_flag B \<or> isFlagChangingInstr (tc_N (bc_K C)) (di_id I)\<rparr>"
  let ?B1 = "?B\<lparr>bl_page := bl_page B @ bs\<rparr>"
  have ph: "phys (m_MEM (t_vm ?T)) = snd s0" using ok(4) by (simp add: cache_insn_def)
  have "code_bytes (snd s0) (bl_addr B) (unat (in_size (di_instr I))) = bs" using block_insn(10) a(1) by simp
  moreover have "length (bl_page B) + length bs \<le> T_page_size" using block_insn.prems(8) by simp
  ultimately have pg: "page_insn (tc_hv (bc_K C)) ?T (I\<lparr>di_bound := e2\<rparr>) ?B = Inr ?B1"
    using nat ph by (simp add: page_insn_def put_page_def)
  have w: "\<not> (bl_regs ?B \<noteq> {} \<and> (bc_reads C (di_instr I) \<or> bc_writes C (di_instr I)))"
    using block_insn(6) block_insn.prems(10) by auto
  have p: "patch_insn C T1 (I\<lparr>di_bound := env\<rparr>) ?B = Inr (?T, ?B1, None)"
    using w h pg block_insn(4) by (auto simp: patch_insn_def page_or_stop_def)
  obtain r1 p1 where s1: "s1 = (r1, p1)" by (cases s1)
  have x: "InsnExecNonRIP (tc_host (bc_K C)) (copy_insn bs NopBytes) (next_ip (fst s) I) (snd s) = Inr (r1, p1)"
    using nat block_insn(9) s1 by simp
  obtain m0 where m0: "load_context gpr_slots (fst s) = Inr m0" using loaded [OF block_insn.prems(3)] by blast
  have fr: "frames_r15 (tc_host (bc_K C)) bs" using block_insn.prems(12) by simp
  have l1: "length r1 = 32 \<and> r1 ! 16 = next_ip (fst s) I ! 16"
    by (rule one_insn [OF x block_insn.prems(3) fr m0]) simp
  let ?B2 = "?B1\<lparr>bl_regs := bl_regs B \<union> set (bc_writeSet C (di_instr I)), bl_addr := bl_addr B + in_size (di_instr I)\<rparr>"
  have "bl_addr ?B2 = fst s1 ! RIP_PTRIDX"
    using l1 s1 a(1) next_ip_at(1) [OF block_insn.prems(3)] by (simp add: RIP_PTRIDX_def)
  then obtain T' B' where "patch_loop m C ?T ?B2 = Inr (T', B', control_insn)" "runs_as (bc_K C) T' s0"
    "bl_page B' = bl_page ?B2 @ concat bss" "bl_map B' = bl_map ?B2" "bl_addr B' = fst s' ! RIP_PTRIDX"
    using block_insn.IH [OF r block_insn.prems(2) _ block_insn.prems(4-7) _ n(2), of ?B2] l1 s1 block_insn.prems(8,10,12) by auto
  then show ?case using T1(1) n(1) p block_insn(5) by (simp add: Let_def)
qed

lemma runs_as_clear:
  assumes "runs_as K T s"
  shows "\<exists>vm'. vm_clearAllSymFlag (tc_D K) (t_vm T) = Inr vm' \<and> runs_as K (T\<lparr>t_vm := vm'\<rparr>) s"
proof -
  let ?vm = "t_vm T"
  have "regs_ok (tc_D K) (m_CPU ?vm)" "no_flag_symbolic (tc_D K) (m_CPU ?vm)" using assms by (simp_all add: runs_as_def vm_ok_def)
  then obtain Rs where Rs: "clearAllSymFlag (tc_D K) (m_CPU ?vm) = Inr ((m_CPU ?vm)\<lparr>m_Regs := Rs\<rparr>)"
    "regs_ok (tc_D K) ((m_CPU ?vm)\<lparr>m_Regs := Rs\<rparr>)" "no_flag_symbolic (tc_D K) ((m_CPU ?vm)\<lparr>m_Regs := Rs\<rparr>)"
    using clearAllSymFlag_ok by blast
  let ?w = "?vm\<lparr>m_CPU := (m_CPU ?vm)\<lparr>m_Regs := Rs\<rparr>\<rparr>"
  have "runs_as K (T\<lparr>t_vm := ?w\<rparr>) (m_ArrRegs (m_CPU ?w), phys (m_MEM ?w))"
  proof (rule runs_as_vm [OF assms])
    show "vm_ok (tc_D K) ?w" using runs_as_ok [OF assms] Rs(2) by (simp add: vm_ok_def vm_wf_def vm_lists_def cpu_wf_def)
    show "vm_bytes ?w = vm_bytes ?vm" by (rule vm_bytes_cong) simp_all
    show "no_flag_symbolic (tc_D K) (m_CPU ?w)" using Rs(3) by simp
    show "code_kept K (snd s) (phys (m_MEM ?w))" using assms by (simp add: runs_as_def code_kept_refl)
  qed
  then have "runs_as K (T\<lparr>t_vm := ?w\<rparr>) s" using assms by (simp add: runs_as_def)
  moreover have "vm_clearAllSymFlag (tc_D K) ?vm = Inr ?w" using Rs(1) by (simp add: vm_clearAllSymFlag_def)
  ultimately show ?thesis by blast
qed

lemma runs_as_outcome:
  assumes "runs_as K T s" "length regs = 32" "code_kept K (snd s) ph"
  shows "runs_as K (T\<lparr>t_vm := (t_vm T)\<lparr>m_CPU := (m_CPU (t_vm T))\<lparr>m_ArrRegs := regs\<rparr>, m_MEM := (m_MEM (t_vm T))\<lparr>phys := ph\<rparr>\<rparr>\<rparr>) (regs, ph)"
proof -
  let ?w = "(t_vm T)\<lparr>m_CPU := (m_CPU (t_vm T))\<lparr>m_ArrRegs := regs\<rparr>, m_MEM := (m_MEM (t_vm T))\<lparr>phys := ph\<rparr>\<rparr>"
  have "runs_as K (T\<lparr>t_vm := ?w\<rparr>) (m_ArrRegs (m_CPU ?w), phys (m_MEM ?w))"
  proof (rule runs_as_vm [OF assms(1)])
    show "vm_ok (tc_D K) ?w" using assms(1,2) by (simp add: runs_as_def vm_ok_def regs_ok_def vm_wf_def vm_lists_def cpu_wf_def)
    show "vm_bytes ?w = vm_bytes (t_vm T)" by (rule vm_bytes_cong) simp_all
    show "no_flag_symbolic (tc_D K) (m_CPU ?w)" using assms(1) by (simp add: runs_as_def no_flag_symbolic_def flag_sym_def)
    show "code_kept K (snd s) (phys (m_MEM ?w))" using assms(3) by simp
  qed
  then show ?thesis by simp
qed

text \<open>The page runs once, comes out at its end, and leaves the instruction pointer at the transfer.\<close>

lemma run_plain:
  assumes "runs_as (bc_K C) T s" "plain_block C s {} s bss s'" "runs_page C bss"
  shows "\<exists>T'. run_block (Suc n) C (concat bss @ Jmp_RIP_Insn @ word_bytes (bc_fun C + 0x7a)) m (bc_page C) (fst s' ! RIP_PTRIDX) b T =
      Inr (T', fst s' ! RIP_PTRIDX, b) \<and> runs_as (bc_K C) T' s'"
proof -
  have l: "length (fst s) = 32" by (rule runs_as_words [OF assms(1)])
  obtain mc where mc: "load_context gpr_slots (fst s) = Inr mc" using loaded [OF l] by blast
  obtain mc' where r: "one_by_one (tc_host (bc_K C)) bss (mc, snd s) = Inr (mc', snd s')"
    "fst s' = (save_context gpr_slots mc' (fst s))[RIP_PTRIDX := fst s' ! RIP_PTRIDX]" "code_kept (bc_K C) (snd s) (snd s')"
    using plain_block_runs [OF assms(2) _ l mc] assms(3) unfolding runs_page_def by blast
  have h: "bc_host C (concat bss @ Jmp_RIP_Insn @ word_bytes (bc_fun C + 0x7a)) (bc_page C) (mc, snd s) = Inr (mc', snd s', None)"
    using assms(3) r(1) unfolding runs_page_def by blast
  let ?regs = "save_context gpr_slots mc' (fst s)" and ?v = "fst s' ! RIP_PTRIDX"
  let ?vm = "(t_vm T)\<lparr>m_CPU := (m_CPU (t_vm T))\<lparr>m_ArrRegs := ?regs\<rparr>, m_MEM := (m_MEM (t_vm T))\<lparr>phys := snd s'\<rparr>\<rparr>"
  have o: "runs_as (bc_K C) (T\<lparr>t_vm := ?vm\<rparr>) (?regs, snd s')"
    by (rule runs_as_outcome [OF assms(1) _ r(3)]) (simp add: save_context_frame l)
  have e: "BlockExecRIP C (concat bss @ Jmp_RIP_Insn @ word_bytes (bc_fun C + 0x7a)) (bc_page C) (t_vm T) = Inr (?vm, nop_bytes)"
    using assms(1) mc h by (simp add: BlockExecRIP_def runs_as_def)
  have w: "set_pt_reg RIP_PTRIDX ?v ?vm = Inr (put_word RIP_PTRIDX ?v ?vm)"
    using runs_as_regs(2) [OF o, of RIP_PTRIDX ?v] by (simp add: RIP_PTRIDX_def)
  have "runs_as (bc_K C) (T\<lparr>t_vm := put_word RIP_PTRIDX ?v ?vm\<rparr>) (?regs[RIP_PTRIDX := ?v], snd s')"
    using runs_as_word [OF o, of RIP_PTRIDX ?v] by simp
  then have "runs_as (bc_K C) (T\<lparr>t_vm := put_word RIP_PTRIDX ?v ?vm\<rparr>) s'" using r(2) by (metis prod.collapse)
  then show ?thesis using e w by simp
qed

section \<open>Properties\<close>

text \<open>C9. A block of plain instructions without symbols, put on the page and run in one go, does what the machine does instruction by
  instruction: registers and memory are those of the machine at the transfer that ends the block, and the answer is that no symbol stopped it.\<close>

theorem block_runs_natively:
  assumes "runs_as (bc_K C) T s" "small_region (bc_K C)" "plain_block C s {} s bss s'" "runs_page C bss"
    and "at_insn (bc_K C) s' J" "di_cat J \<noteq> c_OtherInsn" "x86_r15 \<notin> set (di_isRead J) \<union> set (di_isWritten J)"
    and "tc_decode (bc_K C) (snd s) (fst s' ! RIP_PTRIDX) = J" "length (concat bss) + 14 \<le> T_page_size" "length bss < n"
  shows "\<exists>T'. BlockDispatch n C (fst s ! RIP_PTRIDX) T = Inr (T', False) \<and> runs_as (bc_K C) T' s'"
proof -
  obtain m where n: "n = Suc m" using assms(10) by (cases n) auto
  let ?B = "new_block (fst s ! RIP_PTRIDX)"
  obtain T1 B1 where p: "patch_loop n C T ?B = Inr (T1, B1, control_insn)" "runs_as (bc_K C) T1 s"
    "bl_page B1 = concat bss" "bl_map B1 = Map.empty" "bl_addr B1 = fst s' ! RIP_PTRIDX"
    using patch_plain [OF assms(3,1,2) runs_as_words [OF assms(1)] assms(5-8) _ assms(10), of ?B] assms(4,9)
    by (auto simp: new_block_def runs_page_def)
  let ?tail = "Jmp_RIP_Insn @ word_bytes (bc_fun C + 0x7a)"
  have q: "put_page ?tail B1 = Inr (B1\<lparr>bl_page := concat bss @ ?tail\<rparr>)"
    using assms(9) p(3) by (simp add: put_page_def Jmp_RIP_Insn_def word_bytes_def)
  obtain T2 where r: "run_block (Suc m) C (concat bss @ ?tail) Map.empty (bc_page C) (fst s' ! RIP_PTRIDX) False T1 =
      Inr (T2, fst s' ! RIP_PTRIDX, False)" "runs_as (bc_K C) T2 s'"
    using run_plain [OF p(2) assms(3,4)] by blast
  obtain vm where c: "(if bl_flag B1 then vm_clearAllSymFlag (tc_D (bc_K C)) (t_vm T2) else Inr (t_vm T2)) = Inr vm"
    "runs_as (bc_K C) (T2\<lparr>t_vm := vm\<rparr>) s'"
    using runs_as_clear [OF r(2)] r(2) that by (cases "bl_flag B1") auto
  have "BlockDispatch n C (fst s ! RIP_PTRIDX) T = Inr (T2\<lparr>t_vm := vm\<rparr>, False)"
    using p(1,4,5) q r(1) c(1) n by (simp add: BlockDispatch_def del: patch_loop.simps run_block.simps)
  then show ?thesis using c(2) by blast
qed

text \<open>C10. Where a page calls back, the word in r15 leads to an instruction of the cache, and behind the jump to the callback, where the
  page is entered again, stand the bytes of that instruction.\<close>

theorem callback_resumes_at_insn:
  assumes "patch_loop n C T (new_block a) = Inr (T', B, e)" "bl_map B k = Some b"
  shows "\<exists>I. m_InsnCache T' (insn_index b) = Some I \<and> callback_at C (phys (m_MEM (t_vm T))) (bl_page B) k b I"
proof -
  have "callbacks_ok C (phys (m_MEM (t_vm T))) (m_InsnCache T) (new_block a)" by (simp add: callbacks_ok_def new_block_def)
  then show ?thesis using patch_loop_ok [OF assms(1)] assms(2) unfolding callbacks_ok_def by blast
qed

text \<open>A page of one instruction, and one whose second instruction uses what the first writes.\<close>

definition ex_block :: "zterm bctx" where
  "ex_block = \<lparr>bc_K = ex_two, bc_reads = (\<lambda>I. in_id I = other_id 1), bc_writes = (\<lambda>I. False), bc_writeSet = (\<lambda>I. [5]),
     bc_value = (\<lambda>Q. OtherAST []), bc_imp_rd = (\<lambda>I. if in_id I = other_id 1 then [OtherAST [RegisterAST 5]] else []),
     bc_imp_wr = (\<lambda>I. []), bc_page = 0x10000, bc_fun = 0x20000, bc_host = (\<lambda>page start s. Inr (fst s, snd s, None))\<rparr>"

definition ex_three :: "zterm tctx" where
  "ex_three = ex_K\<lparr>tc_decode := \<lambda>ph a. ex_insn (other_id (if a = 4 then 1 else 0)) (if a < 8 then c_OtherInsn else c_ReturnInsn) False []\<rparr>"

lemma ex_three_simps [simp]:
  "tc_X ex_three = ex_ctx" "tc_low ex_three = 0" "tc_high ex_three = 0x1000"
  "tc_decode ex_three ph a = ex_insn (other_id (if a = 4 then 1 else 0)) (if a < 8 then c_OtherInsn else c_ReturnInsn) False []"
  by (simp_all add: ex_three_def ex_K_def)

lemma ex_runs_page: "runs_page ex_block bss"
proof -
  have "one_by_one (\<lambda>bs s. Inr s) bss s = Inr s" for s by (induction bss) simp_all
  then show ?thesis by (simp add: runs_page_def ex_block_def frames_r15_def)
qed

lemma ex_plain: "plain_block ex_block (replicate 32 0, \<lambda>a. 0) {} (replicate 32 0, \<lambda>a. 0) [[0, 0, 0, 0]] ((replicate 32 0)[RIP_PTRIDX := 4], \<lambda>a. 0)"
proof -
  let ?I = "ex_insn (other_id 0) c_OtherInsn False []" and ?s = "((replicate 32 0)[RIP_PTRIDX := 4], \<lambda>a. 0) :: native"
  have e: "plain_block ex_block (replicate 32 0, \<lambda>a. 0) ({} \<union> set (bc_writeSet ex_block (di_instr ?I))) ?s [] ?s" by (rule block_end)
  have n: "native_step (bc_K ex_block) (replicate 32 0, \<lambda>a. 0) True ?s" using ex_native(1) by (simp add: ex_block_def)
  show ?thesis
    by (rule block_insn [OF n _ _ _ _ _ _ _ _ _ e])
      (simp_all add: at_insn_def in_region_def RIP_PTRIDX_def insn_at_def ex_block_def code_bytes_def upt_rec,
        simp_all add: ex_insn_def ex_instr_def code_bytes_def upt_rec)
qed

theorem block_runs_natively_witness:
  "\<exists>T'. BlockDispatch 3 ex_block 0 ex_T = Inr (T', False) \<and> runs_as ex_two T' ((replicate 32 0)[RIP_PTRIDX := 4], \<lambda>a. 0)"
proof -
  have k: "bc_K ex_block = ex_two" by (simp add: ex_block_def)
  show ?thesis
    using block_runs_natively [of ex_block ex_T "(replicate 32 0, \<lambda>a. 0)" "[[0, 0, 0, 0]]" "((replicate 32 0)[RIP_PTRIDX := 4], \<lambda>a. 0)"
        "ex_insn (other_id 0) c_ReturnInsn False []" 3] ex_runs_as ex_plain ex_runs_page
    by (simp add: k at_insn_def in_region_def RIP_PTRIDX_def T_page_size_def ex_insn_def)
qed

theorem callback_resumes_at_insn_witness:
  "\<exists>T' B e. patch_loop 4 (ex_block\<lparr>bc_K := ex_three\<rparr>) ex_T (new_block 0) = Inr (T', B, e) \<and>
    (\<exists>I. m_InsnCache T' (insn_index 4) = Some I \<and>
      callback_at (ex_block\<lparr>bc_K := ex_three\<rparr>) (phys (m_MEM (t_vm ex_T))) (bl_page B) 0x1000B 4 I)"
proof -
  have four: "(4 :: nat) = Suc (Suc (Suc (Suc 0)))" by simp
  have "\<exists>T' B e. patch_loop 4 (ex_block\<lparr>bc_K := ex_three\<rparr>) ex_T (new_block 0) = Inr (T', B, e) \<and> bl_map B 0x1000B = Some 4"
    unfolding four
    by (simp add: new_block_def ex_T_def fetch_insn_def decode_at_def Let_def patch_insn_def page_or_stop_def page_insn_def
        page_callback_def put_page_def hasSymOperand_def checkImplicitMemAccess_def ex_insn_def ex_instr_def cache_insn_def
        insn_index_def code_bytes_def T_page_size_def checkIfImplicitMemUseWriteReg_def names_written_def ex_block_def
        Lea_RIP_Insn_def Jmp_RIP_Insn_def word_bytes_def)
  then show ?thesis using callback_resumes_at_insn by blast
qed

end
