(* ===== verification/Code_Regions.thy ===== *)
theory Code_Regions
  imports Thin_Ctrl
begin

text \<open>
  The analysed code as the decoder's library sees it (MyCodeRegion and MyCodeSource of thinctrl.h and thinctrl.cpp): one range
  of addresses, whose bytes are where their addresses say, and a source with a cache of the last region looked up. The answers that are
  constants (widths, code or data, the architecture) are left out.
\<close>

section \<open>A region\<close>

text \<open>
  A region keeps a sorted map of which it uses the first pair. Whether an address is inside an interval is for the base class of
  ParseAPI to say, from the bounds the region hands out.
\<close>

record region =
  knowData :: "(u64 \<times> u64) list"

type_synonym containment = "u64 \<Rightarrow> u64 \<Rightarrow> u64 \<Rightarrow> bool"

definition new_MyCodeRegion :: "u64 \<Rightarrow> u64 \<Rightarrow> region" where
  "new_MyCodeRegion add1 add2 = \<lparr>knowData = [(add1, add2)]\<rparr>"

definition first_pair :: "region \<Rightarrow> (u64 \<times> u64) res" where
  "first_pair R = (case knowData R of [] \<Rightarrow> Inl OutOfBounds | p # ps \<Rightarrow> Inr p)"

definition region_offset :: "region \<Rightarrow> u64 res" where
  "region_offset R = rbind (first_pair R) (\<lambda>(a, b). Inr a)"

definition region_length :: "region \<Rightarrow> u64 res" where
  "region_length R = rbind (first_pair R) (\<lambda>(a, b). Inr (b - a))"

definition region_high :: "region \<Rightarrow> u64 res" where
  "region_high R = rbind (region_offset R) (\<lambda>a. rbind (region_length R) (\<lambda>l. Inr (a + l)))"

definition region_isValidAddress :: "containment \<Rightarrow> region \<Rightarrow> u64 \<Rightarrow> bool res" where
  "region_isValidAddress contains R addr =
     rbind (region_offset R) (\<lambda>l. rbind (region_high R) (\<lambda>h. Inr (contains l h addr)))"

text \<open>Instructions and data are where their addresses say; outside the region the pointer is null.\<close>

definition region_getPtr :: "containment \<Rightarrow> region \<Rightarrow> u64 \<Rightarrow> u64 option res" where
  "region_getPtr contains R addr = rbind (region_isValidAddress contains R addr) (\<lambda>v. Inr (if v then Some addr else None))"

section \<open>The source of code\<close>

text \<open>
  The source has one region and a cache of the last one looked up, which the constructor leaves without a value (the
  outer None). The search of the base class is a parameter.
\<close>

record code_source =
  src_regions :: "region list"
  lookup_cache :: "region option option"

definition new_MyCodeSource :: "u64 \<Rightarrow> u64 \<Rightarrow> code_source" where
  "new_MyCodeSource adds adde = \<lparr>src_regions = [new_MyCodeRegion adds adde], lookup_cache = None\<rparr>"

definition cache_hit :: "containment \<Rightarrow> region option \<Rightarrow> u64 \<Rightarrow> bool res" where
  "cache_hit contains c addr = (case c of None \<Rightarrow> Inr False | Some R \<Rightarrow> region_isValidAddress contains R addr)"

definition lookup_region ::
  "containment \<Rightarrow> (region list \<Rightarrow> u64 \<Rightarrow> region list) \<Rightarrow> bool \<Rightarrow> code_source \<Rightarrow> u64 \<Rightarrow> (code_source \<times> region option) res" where
  "lookup_region contains findRegions overlap S addr =
     (case lookup_cache S of
        None \<Rightarrow> Inl Uninit
      | Some c \<Rightarrow> rbind (cache_hit contains c addr) (\<lambda>hit.
          if hit then Inr (S, c)
          else let stab = findRegions (src_regions S) addr
               in rassert (length stab \<le> 1 \<or> overlap)
                    (Inr (if stab = [] then (S, None) else (S\<lparr>lookup_cache := Some (Some (hd stab))\<rparr>, Some (hd stab))))))"

definition source_isValidAddress ::
  "containment \<Rightarrow> (region list \<Rightarrow> u64 \<Rightarrow> region list) \<Rightarrow> bool \<Rightarrow> code_source \<Rightarrow> u64 \<Rightarrow> (code_source \<times> bool) res" where
  "source_isValidAddress contains findRegions overlap S addr =
     rbind (lookup_region contains findRegions overlap S addr) (\<lambda>(S, r).
     case r of None \<Rightarrow> Inr (S, False) | Some R \<Rightarrow> rbind (region_isValidAddress contains R addr) (\<lambda>v. Inr (S, v)))"

text \<open>Unlike a region the source hands out a pointer for every address, and none to data.\<close>

definition source_getPtrToInstruction :: "code_source \<Rightarrow> u64 \<Rightarrow> u64 option" where
  "source_getPtrToInstruction S addr = Some addr"

definition source_getPtrToData :: "code_source \<Rightarrow> u64 \<Rightarrow> u64 option" where
  "source_getPtrToData S addr = None"

definition source_offset :: "code_source \<Rightarrow> u64 res" where
  "source_offset S = rbind (arr_get (src_regions S) 0) region_offset"

definition source_length :: "code_source \<Rightarrow> u64 res" where
  "source_length S = rbind (arr_get (src_regions S) 0) region_length"

section \<open>What the thin control uses\<close>

text \<open>The region of the analysed code decides, as decode_at does, which addresses are handed to the decoder.\<close>

definition half_open :: containment where
  "half_open l h a \<longleftrightarrow> l \<le> a \<and> a < h"

lemma region_pointer:
  "region_getPtr half_open (new_MyCodeRegion adds adde) addr = Inr (if adds \<le> addr \<and> addr < adde then Some addr else None)"
  by (simp add: region_getPtr_def region_isValidAddress_def region_offset_def region_high_def region_length_def first_pair_def
      new_MyCodeRegion_def half_open_def)

lemma decode_in_region:
  "decode_at K T a = rbind (region_getPtr half_open (new_MyCodeRegion (tc_low K) (tc_high K)) a) (\<lambda>p.
     rbind (deref p) (\<lambda>a. Inr (tc_decode K (phys (m_MEM (t_vm T))) a)))"
  by (simp add: region_pointer decode_at_def)

text \<open>A lookup that completes keeps in the cache a region the search found, and answers no address outside what it answers with.\<close>

definition source_ok :: "containment \<Rightarrow> (region list \<Rightarrow> u64 \<Rightarrow> region list) \<Rightarrow> code_source \<Rightarrow> bool" where
  "source_ok contains findRegions S \<longleftrightarrow>
     (\<forall>R. lookup_cache S = Some (Some R) \<longrightarrow> (\<exists>addr. R \<in> set (findRegions (src_regions S) addr)))"

lemma lookup_keeps_cache:
  assumes "lookup_region contains findRegions overlap S addr = Inr (S', r)" "source_ok contains findRegions S"
  shows "source_ok contains findRegions S' \<and> src_regions S' = src_regions S \<and>
    (\<forall>R. r = Some R \<longrightarrow> (\<exists>a. R \<in> set (findRegions (src_regions S) a)))"
proof -
  obtain c hit where c: "lookup_cache S = Some c" "cache_hit contains c addr = Inr hit"
    using assms(1) by (auto simp: lookup_region_def rbind_eq_Inr_iff split: option.splits)
  show ?thesis
  proof (cases hit)
    case True
    then show ?thesis using assms c by (auto simp: lookup_region_def source_ok_def)
  next
    case False
    then show ?thesis
      using assms c by (auto simp: lookup_region_def source_ok_def Let_def rassert_eq_Inr_iff split: if_splits intro!: exI [of _ addr] hd_in_set)
  qed
qed

text \<open>The first lookup of a new source reads the cache before anything was stored there.\<close>

lemma first_lookup_uninit: "source_isValidAddress contains findRegions overlap (new_MyCodeSource adds adde) addr = Inl Uninit"
  by (simp add: source_isValidAddress_def lookup_region_def new_MyCodeSource_def)

end
