(* ===== verification/Spec2Isabelle.thy ===== *)
theory Spec2Isabelle
  imports Central_Hub Z3_Sorts Analysis_Inv Func_DB Block_Dispatch Code_Regions
begin

text \<open>
  KRover is a symbolic execution engine that analyses a live kernel: it lives in the kernel's address space, takes
  over at the entry of a system call or of a function, executes the kernel's code instruction by instruction, on the processor where
  everything is concrete and symbolically where it is not, and asks Z3 which way a jump on a symbolic condition
  goes. This development models the analyser as it is written under src/, from the bitmap of symbolic
  bytes to the handlers of exceptions, and proves what each part promises to the next.

  Parts and how they interact. The hub (centralhub.cpp) owns the machine's state and the controls; for a system
  call it declares the arguments symbolic and starts the fat control (fatctrl.cpp). The fat control takes over at a probe
  (int3 in a copy of a page of code) or at a violation on watched memory, and calls the thin control
  (thinctrl.cpp). The thin control decodes, does calls, returns and jumps itself, and gives every other instruction to the
  symbolic executor (symexec.cpp) when an operand has a symbolic byte and to the concrete executor (conexec.cpp) when
  none has. Both work on the machine's state (VMState.cpp): registers (CPUState.cpp), memory (MemState.cpp)
  and flags (EFlagsManager.cpp); registers and memory keep their symbolic bytes in lists of cells (SymList.cpp) that hold
  expressions (Expr.cpp). The flags manager builds conditions, which the solver's handler (Z3Handler.cpp)
  translates for Z3.

  Theories, in the order of their imports, with what they model and show.

  Krover_Prelude holds the machine integers, the faults and the result type (a fault on the left, a value on the right;
  rbind sequences, rassert is the C++ assert), and the lemmas all share.

  Sym_Bitmap is SYMemBitmap of MemState.cpp: chunks of 32 bytes in a map from aligned addresses, with left and right
  links. The locale byte_marks states what a user may rely on, a set of bytes under union,
  difference and intersection test; its interpretation is the model of the code.

  Sym_Expr is Expr.h and Expr.cpp: the class hierarchy as one datatype, constructors with their sizes, the printer,
  and CreateExprByID, which turns a saved expression into a condition.

  Sym_List, Sym_List_Ops, Sym_List_Read, Sym_List_Map and Sym_List_Family are SymList.cpp: doubly linked cells on an
  explicit heap, with a hash index of addresses. The pointer structure is kept, including the index entries the
  code leaves behind; a list stands for a map from addresses to bytes of expressions. Remove restricts it, Merge
  overrides it, GetCellList and GetExpr look it up. The locale byte_map is the contract for clients; the family is
  several lists on one heap (memory and every register) that do not disturb each other.

  Mem_State is SYMemState: bitmap, list and physical memory; its invariant is that bitmap and list agree.
  Cpu_State is SYCPUState: 32 words with a bitmap and a list each; a register is a view of some bytes of a
  word, so that the aliasing of rax, eax, ax, ah and al is explicit. EFlags_Manager is
  EFlagsManager.cpp: the saved expression, decisions from flags, conditions, and the decision file.
  VM_State composes the three as VMState.cpp does, with the declared symbolic objects. The locale byte_store
  states the refinement: cells and registers are one store in which the last write to a byte decides. It is interpreted twice, on
  the symbolic bytes (vm_bytes) and on the concrete ones of memory and of the words of the registers (conc_byte).

  Entry_Id names the instructions (families that are sums of smaller ones, as the registers of Cpu_State are by width;
  the names of the code are abbreviations), Operand models oprand.cpp, Sym_Parse the executor's own parser of operands, and
  Sym_Exec the handlers of symexec.cpp and run. The effect of a handler is stated over the bytes of
  VM_State: what its destination becomes and that no other byte changes, symbolic or concrete.

  Z3_Handler is Z3Handler.cpp: the translation of expressions, the concretisation by seeds, and the solver's
  query. Z3_Sorts adds the sorts of terms, shows which expressions translate, and which conditions are never
  decided.

  Thin_Parse and Thin_Ctrl are thinctrl.cpp: the search for symbolic operands, operands for a run, jumps,
  calls and returns, the cache of instructions, and both loops of processFunction. Code_Regions is the view of the code that
  thinctrl.cpp gives the decoder, and shows that it agrees with what the thin control decodes. Con_Exec is conexec.cpp for a single
  instruction: the assembly that swaps contexts, and the rewriting of instructions relative to the
  instruction pointer. Fat_Ctrl is fatctrl.cpp: the database of calls, the pool of pages, the redirection of
  pages, the probes and the handlers of exceptions. Central_Hub is centralhub.cpp: the table of symbolic arguments of each
  system call and the start of an analysis.

  Step_Relations holds two locales on step relations: invariants of reachable states, and a relation that follows another one
  through whole runs. Native_Run states what the machine does with no analyser and shows that an analysis without
  symbols does the same to registers and memory, step by step, and completes when the machine does (followed_steps is
  interpreted on the machine's steps and the analyser's turns). For an instruction that is no transfer the step of the machine is the
  processor between the loads and stores of InsnExecNonRIP, the same wrapper the analyser uses: the comparison covers what leads to
  it and what follows, not the wrapper, whose effect on the saved words is concrete_execution_frame. Block_Dispatch is BlockDispatch of conexec.cpp, which
  copies a block onto a page and runs it in one go: without symbols it does what its instructions do one by one, and a callback
  resumes where it left. Analysis_Inv shows that whole analyses keep the machine
  well formed (invariant_steps is interpreted on the turns of the thin control). Func_DB describes the text format
  of the database of calls and shows that the reader returns the database described.

  How the model reads. A class is a record with the fields of the class, an operation a function from
  the state to a result that carries the new state. A C++ assert, an exit, a null dereference, an
  out of range index, a shift by a count not below the width, an undefined read and a throw are faults, values of the
  result type; so is a run that does not end. Integers have the width of the C++ type (u64 and so on) wherever wrap-around
  can matter; addresses in lists are integers, since the code compares them signed. Physical memory is a function
  from addresses to bytes, in which the list, the code that is analysed and the pages of the analyser lie. Cells of lists
  are on an explicit heap, since the code shares and splices them.

  Bounds and fuel. The loops over a list of cells take as fuel one more than the number of cells the heap ever
  allocated; a well-formed list has no more cells, and the lemmas on well-formed lists show that the bound is never reached.
  The translation for Z3 has a depth: the code recurses without bound only on an extension of the sign, and the
  property translation_returns shows that a depth above the nesting of the expression gives a result that does not depend on
  it. The loops of processFunction take a number of turns: for code without symbols concrete_run_completes shows that some number
  suffices for both, when the path file is a record of the machine's run. The loops of BlockDispatch take one number: any above the number of instructions of a block does (block_runs_natively). The
  reader of the database of calls takes the length of the file plus one. Everything else is structural or has a proved measure.

  Parameters. Dyninst's numbers of registers and instructions, its decoded instructions (record
  dinstr) and its evaluation of operands; the functions of Z3's C++ interface (record z3api), each of which may throw;
  the processor that runs one copied instruction, or a page of them; the address valloc returns; what the hypercall of
  the redirection does to memory; and from which of the other vmcalls, by which the code reports a case it does not expect, the hypervisor
  returns (hypervisor in Krover_Prelude). Behind one that returns the model goes on as the code does; one that does
  not is the fault Vmcall. Where a property needs one of them to behave, the hypothesis says so and the witness instantiates
  it with a concrete function.

  Not modelled. Output on the console, cycle counters and statistics, which nothing reads back; the loader and its loading of binaries (src/loader), the example drivers and the kernel module, which are
  input, output and set-up of the machine.
\<close>

end
